(* ===== verification/Prelude.thy ===== *)
theory Prelude
  imports Main "HOL-Library.Word"
begin

text \<open>
  Prelude of the development: the fact collections, the type names and the generic lemmas that
  the component theories share.

  \<^item> \<open>list_ops\<close> collects the definitions of the intrusive-list primitives (usrlist.hpp), so a
    component proof unfolds them with one name.
  \<^item> \<open>ring_simps\<close> collects the rewrite rules of the abstract ring stores.
  \<^item> \<open>addr\<close> is the address of a list node; a work node and the list head embedded in it as
    its first member share their address.
\<close>

named_theorems list_ops "definitions of the intrusive list primitives"
named_theorems ring_simps "rewrite rules for abstract ring stores"

type_synonym addr = nat

subsection \<open>Lists\<close>

lemma remove1_middle [simp]: "y \<notin> set xs \<Longrightarrow> remove1 y (xs @ y # ys) = xs @ ys"
  by (simp add: remove1_append)

lemma distinct_set_remove1 [simp]: "distinct xs \<Longrightarrow> set (remove1 y xs) = set xs - {y}"
  by (rule set_remove1_eq)

lemma hd_append_last: "hd (xs @ [y]) = (case xs of [] \<Rightarrow> y | x # _ \<Rightarrow> x)"
  by (cases xs) auto

lemma filter_split_length:
  "length (filter P xs) + length (filter (\<lambda>x. \<not> P x) xs) = length xs"
  by (induction xs) auto

end
