(* ===== verification/Intrusive_List.thy ===== *)
theory Intrusive_List
  imports Prelude
begin

text \<open>
  The intrusive doubly linked lists of \<^verbatim>\<open>task/usrlist.hpp\<close>.

  The links of all \<open>list_head\<close> objects form one store \<open>links\<close> with the two pointer fields as
  maps from addresses. Every primitive is the sequence of pointer writes of the source, in the
  source's order, so aliasing (a list whose head is also the neighbour of the node) is what it is
  in memory. The abstraction is a ring store: each list, and each detached node (a ring of its
  own, as its constructor leaves it), is a head address with the list of its members; distinct
  rings are disjoint. The last part states the interface the clients rely on as a locale and
  interprets it on these definitions.
\<close>

section \<open>The primitives of usrlist.hpp\<close>

record links =
  nxt :: "addr \<Rightarrow> addr"
  prv :: "addr \<Rightarrow> addr"

definition set_next :: "addr \<Rightarrow> addr \<Rightarrow> links \<Rightarrow> links" where
  "set_next a b m = m\<lparr>nxt := (nxt m)(a := b)\<rparr>"

definition set_prev :: "addr \<Rightarrow> addr \<Rightarrow> links \<Rightarrow> links" where
  "set_prev a b m = m\<lparr>prv := (prv m)(a := b)\<rparr>"

definition INIT_LIST_HEAD :: "addr \<Rightarrow> links \<Rightarrow> links" where
  "INIT_LIST_HEAD l m = set_prev l l (set_next l l m)"

text \<open>\<^verbatim>\<open>__list_add\<close>: \<open>next->prev = pnew; pnew->next = next; pnew->prev = prev; prev->next = pnew\<close>.\<close>

definition raw_list_add :: "addr \<Rightarrow> addr \<Rightarrow> addr \<Rightarrow> links \<Rightarrow> links" where
  "raw_list_add pnew prev next m =
     (let m1 = set_prev next pnew m;
          m2 = set_next pnew next m1;
          m3 = set_prev pnew prev m2
      in set_next prev pnew m3)"

definition list_add :: "addr \<Rightarrow> addr \<Rightarrow> links \<Rightarrow> links" where
  "list_add pnew head m = raw_list_add pnew head (nxt m head) m"

definition list_add_tail :: "addr \<Rightarrow> addr \<Rightarrow> links \<Rightarrow> links" where
  "list_add_tail pnew head m = raw_list_add pnew (prv m head) head m"

definition raw_list_del :: "addr \<Rightarrow> addr \<Rightarrow> links \<Rightarrow> links" where
  "raw_list_del prev next m = set_next prev next (set_prev next prev m)"

definition raw_list_del_entry :: "addr \<Rightarrow> links \<Rightarrow> links" where
  "raw_list_del_entry entry m = raw_list_del (prv m entry) (nxt m entry) m"

definition list_del :: "addr \<Rightarrow> links \<Rightarrow> links" where
  "list_del entry m = INIT_LIST_HEAD entry (raw_list_del (prv m entry) (nxt m entry) m)"

definition list_replace :: "addr \<Rightarrow> addr \<Rightarrow> links \<Rightarrow> links" where
  "list_replace old pnew m =
     (let m1 = set_next pnew (nxt m old) m;
          m2 = set_prev (nxt m1 pnew) pnew m1;
          m3 = set_prev pnew (prv m2 old) m2
      in set_next (prv m3 pnew) pnew m3)"

definition list_is_first :: "addr \<Rightarrow> addr \<Rightarrow> links \<Rightarrow> bool" where
  "list_is_first l head m \<longleftrightarrow> prv m l = head"

definition list_is_last :: "addr \<Rightarrow> addr \<Rightarrow> links \<Rightarrow> bool" where
  "list_is_last l head m \<longleftrightarrow> nxt m l = head"

definition list_empty :: "addr \<Rightarrow> links \<Rightarrow> bool" where
  "list_empty head m \<longleftrightarrow> nxt m head = head"

text \<open>
  The entry macros. \<open>list_entry\<close> (\<open>container_of\<close>) is the identity on addresses here, since every
  use of the sources embeds the list head as the first member of the record.
\<close>

definition list_first_entry :: "addr \<Rightarrow> links \<Rightarrow> addr" where
  "list_first_entry head m = nxt m head"

definition list_last_entry :: "addr \<Rightarrow> links \<Rightarrow> addr" where
  "list_last_entry head m = prv m head"

definition list_first_entry_or_null :: "addr \<Rightarrow> links \<Rightarrow> addr option" where
  "list_first_entry_or_null head m = (if list_empty head m then None else Some (nxt m head))"

text \<open>
  The iteration macros, over any state \<open>'s\<close> that holds the links (\<open>lk\<close>). The loop body returns
  the new state and whether it left the loop by \<open>break\<close>. A damaged list may be walked forever,
  which is the value \<open>None\<close>.
\<close>

partial_function (option) list_for_each ::
  "('s \<Rightarrow> links) \<Rightarrow> (addr \<Rightarrow> 's \<Rightarrow> 's \<times> bool) \<Rightarrow> addr \<Rightarrow> addr \<Rightarrow> 's \<Rightarrow> 's option" where
  "list_for_each lk body head pos s =
     (if pos = head then Some s
      else case body pos s of (s', brk) \<Rightarrow>
        if brk then Some s' else list_for_each lk body head (nxt (lk s') pos) s')"

partial_function (option) list_for_each_safe ::
  "('s \<Rightarrow> links) \<Rightarrow> (addr \<Rightarrow> 's \<Rightarrow> 's \<times> bool) \<Rightarrow> addr \<Rightarrow> addr \<Rightarrow> addr \<Rightarrow> 's \<Rightarrow> 's option" where
  "list_for_each_safe lk body head pos n s =
     (if pos = head then Some s
      else case body pos s of (s', brk) \<Rightarrow>
        if brk then Some s' else list_for_each_safe lk body head n (nxt (lk s') n) s')"

lemmas link_defs = set_next_def set_prev_def INIT_LIST_HEAD_def raw_list_add_def list_add_def
  list_add_tail_def raw_list_del_def raw_list_del_entry_def list_del_def list_replace_def Let_def

declare link_defs [list_ops] list_is_first_def [list_ops] list_is_last_def [list_ops]
  list_empty_def [list_ops] list_first_entry_def [list_ops] list_last_entry_def [list_ops]
  list_first_entry_or_null_def [list_ops]

section \<open>Chains and rings\<close>

fun chain :: "links \<Rightarrow> addr list \<Rightarrow> bool" where
  "chain m (x # y # ys) \<longleftrightarrow> nxt m x = y \<and> prv m y = x \<and> chain m (y # ys)"
| "chain m _ \<longleftrightarrow> True"

lemma chain_append:
  "xs \<noteq> [] \<Longrightarrow> ys \<noteq> [] \<Longrightarrow>
   chain m (xs @ ys) \<longleftrightarrow> chain m xs \<and> chain m ys \<and> nxt m (last xs) = hd ys \<and> prv m (hd ys) = last xs"
  by (induction m xs rule: chain.induct) (auto simp: neq_Nil_conv)

lemma chain_cong:
  "\<lbrakk>\<And>x. x \<in> set (butlast xs) \<Longrightarrow> nxt m' x = nxt m x; \<And>x. x \<in> set (tl xs) \<Longrightarrow> prv m' x = prv m x\<rbrakk>
   \<Longrightarrow> chain m' xs \<longleftrightarrow> chain m xs"
  by (induction m xs rule: chain.induct) auto

lemma chain_link_frame:
  "p \<notin> set (butlast xs) \<Longrightarrow> n \<notin> set (tl xs) \<Longrightarrow> chain (raw_list_del p n m) xs \<longleftrightarrow> chain m xs"
  by (rule chain_cong) (auto simp: link_defs)

lemma chain_link:
  "\<lbrakk>chain m xs; chain m ys; xs \<noteq> []; ys \<noteq> []; p = last xs; n = hd ys;
    p \<notin> set (butlast xs) \<union> set (butlast ys); n \<notin> set (tl xs) \<union> set (tl ys)\<rbrakk>
   \<Longrightarrow> chain (raw_list_del p n m) (xs @ ys)"
  by (simp add: chain_append chain_link_frame) (simp add: link_defs)

lemma raw_list_add_links: "raw_list_add n p q m = raw_list_del p n (raw_list_del n q m)"
  by (simp add: raw_list_add_def raw_list_del_def Let_def)

lemma INIT_links: "INIT_LIST_HEAD h m = raw_list_del h h m"
  by (simp add: link_defs)

definition ring :: "links \<Rightarrow> addr \<Rightarrow> addr list \<Rightarrow> bool" where
  "ring m h xs \<longleftrightarrow> distinct (h # xs) \<and> chain m (h # xs @ [h])"

text \<open>\<open>same_off S m m'\<close>: the two stores agree outside the addresses \<open>S\<close>.\<close>

definition same_off :: "addr set \<Rightarrow> links \<Rightarrow> links \<Rightarrow> bool" where
  "same_off S m m' \<longleftrightarrow> (\<forall>x. x \<notin> S \<longrightarrow> nxt m' x = nxt m x \<and> prv m' x = prv m x)"

lemma ring_frame:
  assumes "same_off S m m'" and "ring m h xs" and "set (h # xs) \<inter> S = {}"
  shows "ring m' h xs"
proof -
  have "chain m' (h # xs @ [h]) \<longleftrightarrow> chain m (h # xs @ [h])"
    using assms(1,3) by (intro chain_cong) (auto simp: same_off_def butlast_append)
  with assms(2) show ?thesis by (simp add: ring_def)
qed

lemma ring_parts:
  assumes "ring m h (xs @ ys)"
  shows "chain m (h # xs)" and "chain m (ys @ [h])" and "nxt m (last (h # xs)) = hd (ys @ [h])"
    and "prv m (hd (ys @ [h])) = last (h # xs)"
  using assms chain_append [of "h # xs" "ys @ [h]" m] by (auto simp: ring_def)

lemma ring_first: "ring m h xs \<Longrightarrow> nxt m h = hd (xs @ [h])"
  using ring_parts(3) [of m h "[]" xs] by simp

lemma ring_last: "ring m h xs \<Longrightarrow> prv m h = last (h # xs)"
  using ring_parts(4) [of m h xs "[]"] by simp

lemma ring_ends: "ring m h xs \<Longrightarrow> prv m (nxt m h) = h \<and> nxt m (prv m h) = h"
  using ring_parts(4) [of m h "[]" xs] ring_parts(3) [of m h xs "[]"] by (simp add: ring_first ring_last)

lemma ring_list_empty: "ring m h xs \<Longrightarrow> list_empty h m \<longleftrightarrow> xs = []"
  using ring_first [of m h xs] by (cases xs) (auto simp: ring_def list_empty_def)

lemma ring_INIT: "ring (INIT_LIST_HEAD h m) h []"
  by (simp add: ring_def link_defs)

lemma same_off_link: "{p, n} \<subseteq> S \<Longrightarrow> same_off S m m' \<Longrightarrow> same_off S m (raw_list_del p n m')"
  by (auto simp: same_off_def link_defs)

lemma same_off_refl [simp]: "same_off S m m"
  by (simp add: same_off_def)

lemma last_notin_butlast: "distinct xs \<Longrightarrow> last xs \<notin> set (butlast xs)"
  by (cases xs rule: rev_cases) auto

lemma hd_notin_tl: "distinct xs \<Longrightarrow> hd xs \<notin> set (tl xs)"
  by (cases xs) auto

text \<open>
  Linking the end of the prefix of a ring to the start of its suffix, or either of them to a
  single node in between.
\<close>

lemma ring_join:
  assumes "distinct (h # xs @ ys)" and "chain m (h # xs)" and "chain m (ys @ [h])"
  shows "ring (raw_list_del (last (h # xs)) (hd (ys @ [h])) m) h (xs @ ys)"
proof -
  have "last (h # xs) \<in> set (h # xs)" and "hd (ys @ [h]) \<in> set (ys @ [h])"
    by (simp, cases ys, auto)
  with assms have "chain (raw_list_del (last (h # xs)) (hd (ys @ [h])) m) ((h # xs) @ ys @ [h])"
    using last_notin_butlast [of "h # xs"] hd_notin_tl [of "ys @ [h]"]
    by (intro chain_link) (auto simp: butlast_append)
  with assms(1) show ?thesis by (simp add: ring_def)
qed

lemma ring_between:
  assumes r: "ring m h (xs @ ys)" and n: "n \<notin> set (h # xs @ ys)"
  shows "ring (raw_list_add n (last (h # xs)) (hd (ys @ [h])) m) h (xs @ n # ys)"
proof -
  let ?m1 = "raw_list_del n (hd (ys @ [h])) m"
  have d: "distinct (h # xs @ ys)" using r by (simp add: ring_def)
  have q: "hd (ys @ [h]) \<in> set (ys @ [h])" by (cases ys) auto
  have "chain ?m1 ([n] @ ys @ [h])"
    using d n ring_parts(2) [OF r] hd_notin_tl [of "ys @ [h]"]
    by (intro chain_link) (auto simp: butlast_append)
  moreover have "chain ?m1 (h # xs)"
    using d n q ring_parts(1) [OF r]
    by (subst chain_link_frame) (auto split: if_splits dest: in_set_butlastD)
  ultimately have "ring (raw_list_del (last (h # xs)) (hd ((n # ys) @ [h])) ?m1) h (xs @ n # ys)"
    using d n by (intro ring_join) auto
  then show ?thesis by (simp add: raw_list_add_links)
qed

lemma ring_del:
  assumes r: "ring m h (xs @ x # ys)"
  shows "ring (list_del x m) h (xs @ ys)" and "ring (list_del x m) x []"
proof -
  have p: "prv m x = last (h # xs)" using ring_parts(4) [OF r] by simp
  have q: "nxt m x = hd (ys @ [h])" using ring_parts(3) [of m h "xs @ [x]" ys] r by simp
  have "ring (raw_list_del (prv m x) (nxt m x) m) h (xs @ ys)"
    unfolding p q using r ring_parts(1) [OF r] ring_parts(2) [of m h "xs @ [x]" ys]
    by (intro ring_join) (auto simp: ring_def)
  then show "ring (list_del x m) h (xs @ ys)"
    unfolding list_del_def INIT_links
    by (rule ring_frame [OF same_off_link [OF _ same_off_refl, of x x "{x}"], rotated])
       (use r in \<open>auto simp: ring_def\<close>)
  show "ring (list_del x m) x []" by (simp add: list_del_def ring_INIT)
qed

lemma ring_add_tail:
  "ring m h xs \<Longrightarrow> n \<notin> set (h # xs) \<Longrightarrow> ring (list_add_tail n h m) h (xs @ [n])"
  using ring_between [of m h xs "[]" n] ring_last [of m h xs] by (simp add: list_add_tail_def)

lemma ring_add:
  "ring m h xs \<Longrightarrow> n \<notin> set (h # xs) \<Longrightarrow> ring (list_add n h m) h (n # xs)"
  using ring_between [of m h "[]" xs n] ring_first [of m h xs] by (simp add: list_add_def)


lemma ring_replace:
  assumes r: "ring m h (xs @ x # ys)" and n: "n \<notin> set (h # xs @ x # ys)"
  shows "ring (list_replace x n m) h (xs @ n # ys)"
proof -
  have p: "prv m x = last (h # xs)" using ring_parts(4) [OF r] by simp
  have q: "nxt m x = hd (ys @ [h])" using ring_parts(3) [of m h "xs @ [x]" ys] r by simp
  have x: "x \<noteq> n" "x \<noteq> hd (ys @ [h])" "n \<noteq> hd (ys @ [h])"
    using r n by (cases ys; auto simp: ring_def)+
  have "list_replace x n m = raw_list_add n (prv m x) (nxt m x) m"
    using x by (simp add: list_replace_def raw_list_add_def Let_def set_next_def set_prev_def q fun_upd_twist)
  moreover have "ring (raw_list_del (prv m x) (nxt m x) m) h (xs @ ys)"
    unfolding p q using r ring_parts(1) [OF r] ring_parts(2) [of m h "xs @ [x]" ys]
    by (intro ring_join) (auto simp: ring_def)
  then have "ring (raw_list_add n (prv m x) (nxt m x) (raw_list_del (prv m x) (nxt m x) m)) h (xs @ n # ys)"
    unfolding p q using n by (intro ring_between) auto
  moreover have "raw_list_add n (prv m x) (nxt m x) (raw_list_del (prv m x) (nxt m x) m)
    = raw_list_add n (prv m x) (nxt m x) m"
    by (simp add: raw_list_add_def raw_list_del_def Let_def set_next_def set_prev_def fun_upd_twist)
  ultimately show ?thesis by simp
qed

section \<open>Ring stores: the abstraction\<close>

type_synonym rings = "addr \<Rightarrow> addr list option"

definition owns :: "rings \<Rightarrow> addr \<Rightarrow> addr \<Rightarrow> bool" where
  "owns R h a \<longleftrightarrow> (\<exists>xs. R h = Some xs \<and> a \<in> set (h # xs))"

text \<open>\<open>rep m R\<close>: every ring of \<open>R\<close> is laid out in the store, and no address is in two rings.\<close>

definition rep :: "links \<Rightarrow> rings \<Rightarrow> bool" where
  "rep m R \<longleftrightarrow> (\<forall>h xs. R h = Some xs \<longrightarrow> ring m h xs) \<and> (\<forall>h k a. owns R h a \<longrightarrow> owns R k a \<longrightarrow> h = k)"

text \<open>\<open>node R x\<close>: \<open>x\<close> is a node, detached or a member of some list, and not the head of a non-empty list.\<close>

definition node :: "rings \<Rightarrow> addr \<Rightarrow> bool" where
  "node R x \<longleftrightarrow> R x = Some [] \<or> (\<exists>h xs. R h = Some xs \<and> x \<in> set xs)"

definition r_detach :: "addr \<Rightarrow> rings \<Rightarrow> rings" where
  "r_detach x R = (\<lambda>h. if h = x then Some [] else map_option (remove1 x) (R h))"

definition r_append :: "addr \<Rightarrow> addr \<Rightarrow> rings \<Rightarrow> rings" where
  "r_append x q R = (\<lambda>h. if h = x then None else if h = q then map_option (\<lambda>xs. xs @ [x]) (R h) else R h)"

definition r_push :: "addr \<Rightarrow> addr \<Rightarrow> rings \<Rightarrow> rings" where
  "r_push x q R = (\<lambda>h. if h = x then None else if h = q then map_option (\<lambda>xs. x # xs) (R h) else R h)"

definition r_splice :: "addr \<Rightarrow> addr \<Rightarrow> rings \<Rightarrow> rings" where
  "r_splice b q R = (\<lambda>h. if h = q then map_option (\<lambda>xs. xs @ the (R b)) (R q) else if h = b then Some [] else R h)"

lemma node_member: "R h = Some xs \<Longrightarrow> x \<in> set xs \<Longrightarrow> node R x"
  by (auto simp: node_def)

lemma node_detached: "R x = Some [] \<Longrightarrow> node R x"
  by (simp add: node_def)

lemma rep_ring: "rep m R \<Longrightarrow> R h = Some xs \<Longrightarrow> ring m h xs"
  by (auto simp: rep_def)

lemma rep_distinct: "rep m R \<Longrightarrow> R h = Some xs \<Longrightarrow> distinct (h # xs)"
  by (auto simp: rep_def ring_def)

lemma rep_owns_unique: "rep m R \<Longrightarrow> owns R h a \<Longrightarrow> owns R k a \<Longrightarrow> h = k"
  unfolding rep_def by blast

lemma rep_disjoint:
  "rep m R \<Longrightarrow> R h = Some xs \<Longrightarrow> R k = Some ys \<Longrightarrow> h \<noteq> k \<Longrightarrow> set (h # xs) \<inter> set (k # ys) = {}"
  using rep_owns_unique [of m R h _ k] by (fastforce simp: owns_def)

lemma rep_list_empty: "rep m R \<Longrightarrow> R h = Some xs \<Longrightarrow> list_empty h m \<longleftrightarrow> xs = []"
  by (rule ring_list_empty [OF rep_ring])

lemma rep_first: "rep m R \<Longrightarrow> R h = Some (x # xs) \<Longrightarrow> nxt m h = x"
  using ring_first [of m h "x # xs"] by (auto simp: rep_def)

lemma rep_member_unique:
  "rep m R \<Longrightarrow> R h = Some xs \<Longrightarrow> x \<in> set xs \<Longrightarrow> R k = Some ys \<Longrightarrow> x \<in> set ys \<Longrightarrow> h = k"
  using rep_disjoint [of m R h xs k ys] by auto

lemma rep_member_not_head: "rep m R \<Longrightarrow> R h = Some xs \<Longrightarrow> x \<in> set xs \<Longrightarrow> R x = None"
  using rep_disjoint [of m R h xs x] rep_distinct [of m R h xs] by (cases "R x"; cases "x = h") auto

lemma rep_detached_off: "rep m R \<Longrightarrow> R x = Some [] \<Longrightarrow> R h = Some ys \<Longrightarrow> x \<notin> set ys"
  using rep_member_not_head [of m R h ys x] by auto

lemma rep_detached_remove1: "rep m R \<Longrightarrow> R x = Some [] \<Longrightarrow> R h = Some ys \<Longrightarrow> remove1 x ys = ys"
  by (rule remove1_idem [OF rep_detached_off])

lemma r_detach_self [ring_simps]: "r_detach x R x = Some []"
  by (simp add: r_detach_def)

lemma r_detach_other [ring_simps]: "h \<noteq> x \<Longrightarrow> r_detach x R h = map_option (remove1 x) (R h)"
  by (simp add: r_detach_def)

lemma r_append_self [ring_simps]: "r_append x q R x = None"
  by (simp add: r_append_def)

lemma r_append_queue [ring_simps]: "q \<noteq> x \<Longrightarrow> r_append x q R q = map_option (\<lambda>xs. xs @ [x]) (R q)"
  by (simp add: r_append_def)

lemma r_append_other [ring_simps]: "h \<noteq> x \<Longrightarrow> h \<noteq> q \<Longrightarrow> r_append x q R h = R h"
  by (simp add: r_append_def)

lemma r_splice_target [ring_simps]: "r_splice b q R q = map_option (\<lambda>xs. xs @ the (R b)) (R q)"
  by (simp add: r_splice_def)

lemma r_splice_source [ring_simps]: "b \<noteq> q \<Longrightarrow> r_splice b q R b = Some []"
  by (simp add: r_splice_def)

lemma r_splice_other [ring_simps]: "h \<noteq> q \<Longrightarrow> h \<noteq> b \<Longrightarrow> r_splice b q R h = R h"
  by (simp add: r_splice_def)

text \<open>
  The common shape of the preservation proofs: an operation changes links inside the nodes \<open>S\<close>
  only, every ring of the new store is either unchanged and off \<open>S\<close> or one of the rebuilt ones.
\<close>

lemma repI:
  assumes "\<And>h xs. R h = Some xs \<Longrightarrow> ring m h xs"
    and "\<And>h k a. owns R h a \<Longrightarrow> owns R k a \<Longrightarrow> h = k"
  shows "rep m R"
  using assms unfolding rep_def by blast

lemma owns_r_detach:
  assumes m: "rep m R" and x: "node R x"
  shows "owns (r_detach x R) h a \<longleftrightarrow> (if a = x then h = x else owns R h a)"
proof (cases "h = x")
  case True
  have "R x = None \<or> R x = Some []" using x rep_member_not_head [OF m] by (auto simp: node_def)
  with True show ?thesis by (auto simp: owns_def ring_simps)
next
  case False
  then show ?thesis using rep_distinct [OF m, of h] by (auto simp: owns_def ring_simps)
qed

lemma rep_frame:
  assumes "rep m R" and "R k = Some zs" and "same_off S m m'" and "\<And>a. a \<in> S \<Longrightarrow> owns R h a" and "k \<noteq> h"
  shows "ring m' k zs"
proof -
  have "set (k # zs) \<inter> S = {}"
    using rep_owns_unique [OF assms(1), of h _ k] assms(2,4,5) by (fastforce simp: owns_def)
  with ring_frame [OF assms(3) rep_ring [OF assms(1,2)]] show ?thesis by blast
qed

lemma rep_detach_owns_unique:
  "rep m R \<Longrightarrow> node R x \<Longrightarrow> owns (r_detach x R) h a \<Longrightarrow> owns (r_detach x R) k a \<Longrightarrow> h = k"
  by (auto simp: owns_r_detach split: if_splits dest: rep_owns_unique)

lemma rep_del_member:
  assumes m: "rep m R" and h: "R h = Some xs" and x: "x \<in> set xs"
  shows "rep (list_del x m) (r_detach x R)"
proof (rule repI)
  obtain as bs where xs: "xs = as @ x # bs" using split_list [OF x] by blast
  have r: "ring m h (as @ x # bs)" using rep_ring [OF m h] xs by simp
  have d: "x \<notin> set as" "h \<noteq> x" using r by (auto simp: ring_def)
  have off: "same_off (set (h # xs)) m (list_del x m)"
    unfolding list_del_def INIT_links xs using ring_parts(3) [of m h "as @ [x]" bs] ring_parts(4) [OF r] r
    by (intro same_off_link same_off_refl) (cases bs; auto)+
  have own: "owns R h a" if "a \<in> set (h # xs)" for a using that h by (auto simp: owns_def)
  fix k ys assume k: "r_detach x R k = Some ys"
  show "ring (list_del x m) k ys"
  proof (cases "k = x \<or> k = h")
    case True
    then show ?thesis using k ring_del [OF r] d h xs by (auto simp: ring_simps)
  next
    case False
    then obtain zs where zs: "R k = Some zs" "ys = remove1 x zs" using k by (auto simp: ring_simps)
    have "x \<notin> set zs" using rep_member_unique [OF m h x zs(1)] False by blast
    then have "ys = zs" using zs by (simp add: remove1_idem)
    then show ?thesis using rep_frame [OF m zs(1) off own] False by blast
  qed
next
  fix h' k' a
  assume "owns (r_detach x R) h' a" "owns (r_detach x R) k' a"
  moreover have "node R x" using h x by (rule node_member)
  ultimately show "h' = k'" using rep_detach_owns_unique [OF m] by blast
qed

lemma rep_del_detached:
  assumes m: "rep m R" and x: "R x = Some []"
  shows "rep (list_del x m) (r_detach x R)"
proof (rule repI)
  have r: "nxt m x = x" "prv m x = x" using rep_ring [OF m x] by (auto simp: ring_def)
  have off: "same_off {x} m (list_del x m)"
    unfolding list_del_def INIT_links r by (intro same_off_link same_off_refl) auto
  have own: "owns R x a" if "a \<in> {x}" for a using that x by (auto simp: owns_def)
  fix k ys assume k: "r_detach x R k = Some ys"
  show "ring (list_del x m) k ys"
  proof (cases "k = x")
    case True
    then show ?thesis using k by (simp add: ring_simps list_del_def ring_INIT)
  next
    case False
    then obtain zs where zs: "R k = Some zs" "ys = remove1 x zs" using k by (auto simp: ring_simps)
    have "x \<notin> set zs" using rep_owns_unique [OF m, of x x k] zs x False by (auto simp: owns_def)
    then show ?thesis using zs rep_frame [OF m zs(1) off own] False by (simp add: remove1_idem)
  qed
next
  fix h' k' a
  assume "owns (r_detach x R) h' a" "owns (r_detach x R) k' a"
  moreover have "node R x" using x by (simp add: node_def)
  ultimately show "h' = k'" using rep_detach_owns_unique [OF m] by blast
qed

lemma rep_del: "rep m R \<Longrightarrow> node R x \<Longrightarrow> rep (list_del x m) (r_detach x R)"
  unfolding node_def using rep_del_member rep_del_detached by blast

lemma owns_r_append:
  "R x = Some [] \<Longrightarrow> q \<in> dom R \<Longrightarrow> q \<noteq> x \<Longrightarrow>
   owns (r_append x q R) h a \<longleftrightarrow> (if a = x then h = q \<or> h \<noteq> x \<and> owns R h x else owns R h a)"
  by (auto simp: owns_def r_append_def)

lemma rep_add_tail:
  assumes m: "rep m R" and x: "R x = Some []" and q: "R q = Some xs" and xq: "q \<noteq> x"
  shows "rep (list_add_tail x q m) (r_append x q R)"
proof (rule repI)
  have r: "ring m q xs" and xx: "x \<notin> set (q # xs)"
    using rep_ring [OF m q] rep_disjoint [OF m x q] xq by auto
  have off: "same_off (insert x (set (q # xs))) m (list_add_tail x q m)"
    unfolding list_add_tail_def raw_list_add_links using ring_last [OF r]
    by (intro same_off_link same_off_refl) auto
  fix k ys assume k: "r_append x q R k = Some ys"
  show "ring (list_add_tail x q m) k ys"
  proof (cases "k = q")
    case True
    then show ?thesis using k q xq ring_add_tail [OF r xx] by (simp add: ring_simps)
  next
    case False
    then have "R k = Some ys" "k \<noteq> x" using k by (auto simp: r_append_def split: if_splits)
    moreover have "set (k # ys) \<inter> insert x (set (q # xs)) = {}"
      using rep_disjoint [OF m \<open>R k = Some ys\<close> q] rep_disjoint [OF m \<open>R k = Some ys\<close> x] False \<open>k \<noteq> x\<close> by auto
    ultimately show ?thesis using ring_frame [OF off rep_ring [OF m]] by blast
  qed
next
  fix h' k' a
  assume "owns (r_append x q R) h' a" "owns (r_append x q R) k' a"
  moreover have "owns R x x" using x by (simp add: owns_def)
  ultimately show "h' = k'" using m x q xq rep_owns_unique [OF m]
    by (simp add: owns_r_append domI split: if_splits) blast+
qed


lemma owns_r_push:
  "R x = Some [] \<Longrightarrow> q \<in> dom R \<Longrightarrow> q \<noteq> x \<Longrightarrow>
   owns (r_push x q R) h a \<longleftrightarrow> (if a = x then h = q \<or> h \<noteq> x \<and> owns R h x else owns R h a)"
  by (auto simp: owns_def r_push_def)

lemma rep_add:
  assumes m: "rep m R" and x: "R x = Some []" and q: "R q = Some xs" and xq: "q \<noteq> x"
  shows "rep (list_add x q m) (r_push x q R)"
proof (rule repI)
  have r: "ring m q xs" and xx: "x \<notin> set (q # xs)"
    using rep_ring [OF m q] rep_disjoint [OF m x q] xq by auto
  have off: "same_off (insert x (set (q # xs))) m (list_add x q m)"
    unfolding list_add_def raw_list_add_links using ring_first [OF r]
    by (intro same_off_link same_off_refl) (cases xs; auto)+
  fix k ys assume k: "r_push x q R k = Some ys"
  show "ring (list_add x q m) k ys"
  proof (cases "k = q")
    case True
    then show ?thesis using k q xq ring_add [OF r xx] by (simp add: r_push_def)
  next
    case False
    then have "R k = Some ys" "k \<noteq> x" using k by (auto simp: r_push_def split: if_splits)
    moreover have "set (k # ys) \<inter> insert x (set (q # xs)) = {}"
      using rep_disjoint [OF m \<open>R k = Some ys\<close> q] rep_disjoint [OF m \<open>R k = Some ys\<close> x] False \<open>k \<noteq> x\<close> by auto
    ultimately show ?thesis using ring_frame [OF off rep_ring [OF m]] by blast
  qed
next
  fix h' k' a
  assume "owns (r_push x q R) h' a" "owns (r_push x q R) k' a"
  moreover have "owns R x x" using x by (simp add: owns_def)
  ultimately show "h' = k'" using m x q xq rep_owns_unique [OF m]
    by (simp add: owns_r_push domI split: if_splits) blast+
qed

text \<open>A fresh list head, or a detached node, is initialised in place.\<close>

lemma rep_INIT:
  assumes m: "rep m R" and fresh: "\<And>k. owns R k h \<Longrightarrow> k = h \<and> R h = Some []"
  shows "rep (INIT_LIST_HEAD h m) (R(h \<mapsto> []))"
proof (rule repI)
  fix k ys assume k: "(R(h \<mapsto> [])) k = Some ys"
  show "ring (INIT_LIST_HEAD h m) k ys"
  proof (cases "k = h")
    case True
    then show ?thesis using k by (simp add: ring_INIT)
  next
    case False
    then have "R k = Some ys" using k by simp
    moreover have "set (k # ys) \<inter> {h} = {}" using fresh [of k] calculation False by (auto simp: owns_def)
    ultimately show ?thesis
      using ring_frame [of "{h}" m "INIT_LIST_HEAD h m" k ys] rep_ring [OF m, of k ys]
      by (simp add: INIT_links same_off_link)
  qed
next
  fix h' k' a
  assume "owns (R(h \<mapsto> [])) h' a" "owns (R(h \<mapsto> [])) k' a"
  then have "(h' = h \<and> a = h \<or> h' \<noteq> h \<and> owns R h' a) \<and> (k' = h \<and> a = h \<or> k' \<noteq> h \<and> owns R k' a)"
    by (auto simp: owns_def split: if_splits)
  then show "h' = k'" using rep_owns_unique [OF m] fresh by blast
qed

text \<open>Moving the whole content of the list \<open>b\<close> to the end of the list \<open>q\<close>.\<close>

lemma ring_splice:
  assumes q: "ring m q xs" and b: "ring m b ys" and ne: "ys \<noteq> []"
    and dj: "set (q # xs) \<inter> set (b # ys) = {}"
  shows "ring (raw_list_del (last ys) q (raw_list_del (last (q # xs)) (hd ys) m)) q (xs @ ys)"
proof -
  let ?m1 = "raw_list_del (last (q # xs)) (hd ys) m"
  have c: "chain m (q # xs)" "chain m ys"
    using ring_parts(1) [of m q xs "[]"] ring_parts(1) [of m b ys "[]"] q b ne
    by (auto simp: neq_Nil_conv)
  have "distinct (q # xs)" "distinct ys" using q b by (auto simp: ring_def)
  moreover have "last (q # xs) \<notin> set ys" "hd ys \<notin> set (q # xs)"
    using dj hd_in_set [OF ne] last_in_set [of "q # xs"] by (blast dest: list.set_intros(2))+
  ultimately have "chain ?m1 ((q # xs) @ ys)"
    using c ne dj last_notin_butlast [of "q # xs"] hd_notin_tl [of ys]
    by (intro chain_link) (auto dest: in_set_butlastD list.set_sel(2))
  then show ?thesis
    using ring_join [of q "xs @ ys" "[]" ?m1] dj \<open>distinct (q # xs)\<close> \<open>distinct ys\<close> ne by auto
qed

lemma owns_r_splice:
  "R q = Some xs \<Longrightarrow> R b = Some ys \<Longrightarrow> b \<noteq> q \<Longrightarrow>
   owns (r_splice b q R) h a \<longleftrightarrow>
     (if h = q then owns R q a \<or> a \<in> set ys else if h = b then a = b else owns R h a)"
  by (auto simp: owns_def r_splice_def)

lemma rep_splice:
  assumes m: "rep m R" and q: "R q = Some xs" and b: "R b = Some ys" and ne: "ys \<noteq> []" and bq: "b \<noteq> q"
  shows "rep (INIT_LIST_HEAD b (raw_list_del (last ys) q (raw_list_del (last (q # xs)) (hd ys) m)))
    (r_splice b q R)" (is "rep (INIT_LIST_HEAD b ?m) _")
proof (rule repI)
  have dj: "set (q # xs) \<inter> set (b # ys) = {}" using rep_disjoint [OF m q b] bq by blast
  have rq: "ring ?m q (xs @ ys)" using ring_splice [OF rep_ring [OF m q] rep_ring [OF m b] ne dj] .
  have off: "same_off (set (q # xs) \<union> set (b # ys)) m (INIT_LIST_HEAD b ?m)"
    unfolding INIT_links using ne by (intro same_off_link same_off_refl) auto
  have nb: "b \<notin> set (q # xs @ ys)" using dj rep_distinct [OF m b] by auto
  fix k zs assume k: "r_splice b q R k = Some zs"
  consider "k = b" | "k = q" | "k \<noteq> b" "k \<noteq> q" by blast
  then show "ring (INIT_LIST_HEAD b ?m) k zs"
  proof cases
    case 1
    then show ?thesis using k bq by (simp add: ring_simps ring_INIT)
  next
    case 2
    then have "zs = xs @ ys" using k q b by (simp add: ring_simps)
    then show ?thesis using 2 nb ring_frame [of "{b}" ?m "INIT_LIST_HEAD b ?m" q "xs @ ys"] rq
      by (simp add: INIT_links same_off_link)
  next
    case 3
    then have "R k = Some zs" using k by (simp add: ring_simps)
    then have "set (k # zs) \<inter> (set (q # xs) \<union> set (b # ys)) = {}"
      using rep_disjoint [OF m _ q, of k zs] rep_disjoint [OF m _ b, of k zs] 3 by auto
    then show ?thesis using ring_frame [OF off rep_ring [OF m \<open>R k = Some zs\<close>]] by blast
  qed
next
  have own: "a \<in> set ys \<Longrightarrow> owns R b a" "owns R b b" for a using b by (auto simp: owns_def)
  have nb: "b \<notin> set ys" using rep_distinct [OF m b] by simp
  fix h' k' a
  assume "owns (r_splice b q R) h' a" "owns (r_splice b q R) k' a"
  then show "h' = k'"
    using rep_owns_unique [OF m] own nb bq unfolding owns_r_splice [of R, OF q b bq]
    by (auto split: if_splits)
qed


section \<open>Iteration\<close>

text \<open>
  A loop of the source over a list visits the members in order: \<open>each_until\<close> is the same loop on
  the list of members. \<open>I s ys\<close> is the loop invariant: what holds in state \<open>s\<close> with \<open>ys\<close> still to
  visit; it has to give the successor pointers of the members still to visit.
\<close>

fun each_until :: "(addr \<Rightarrow> 's \<Rightarrow> 's \<times> bool) \<Rightarrow> addr list \<Rightarrow> 's \<Rightarrow> 's" where
  "each_until body [] s = s"
| "each_until body (y # ys) s = (case body y s of (s', brk) \<Rightarrow> if brk then s' else each_until body ys s')"

fun walk :: "(addr \<Rightarrow> addr) \<Rightarrow> addr list \<Rightarrow> addr \<Rightarrow> bool" where
  "walk f [] h \<longleftrightarrow> True"
| "walk f (y # ys) h \<longleftrightarrow> y \<noteq> h \<and> f y = hd (ys @ [h]) \<and> walk f ys h"

lemma chain_walk: "chain m (ys @ [h]) \<Longrightarrow> h \<notin> set ys \<Longrightarrow> walk (nxt m) ys h"
  by (induction ys) (auto simp: neq_Nil_conv elim: chain.elims split: list.splits)

lemma rep_walk:
  assumes "rep m R" and "R h = Some (xs @ ys)"
  shows "walk (nxt m) ys h"
proof (rule chain_walk)
  from rep_ring [OF assms] show "chain m (ys @ [h])" by (rule ring_parts(2))
  from rep_distinct [OF assms] show "h \<notin> set ys" by simp
qed

lemma rep_list_empty_member:
  assumes "rep m R" and "R h = Some xs" and "list_empty x m"
  shows "x \<notin> set xs"
proof
  assume "x \<in> set xs"
  then obtain as bs where xs: "xs = as @ x # bs" by (metis split_list)
  have "nxt m x = hd (bs @ [h])" "distinct (h # xs)"
    using rep_walk [of m R h as "x # bs"] rep_distinct [OF assms(1,2)] assms xs by auto
  then show False using assms(3) xs by (cases bs) (auto simp: list_empty_def)
qed

lemma INIT_LIST_HEAD_empty: "rep m R \<Longrightarrow> R x = Some [] \<Longrightarrow> INIT_LIST_HEAD x m = m"
  using rep_ring [of m R x "[]"] by (cases m) (auto simp: INIT_LIST_HEAD_def set_next_def set_prev_def ring_def)

lemma list_for_each_safe_eq:
  assumes I: "I s ys" and n: "n = nxt (lk s) (hd (ys @ [h]))"
    and walk: "\<And>s ys. I s ys \<Longrightarrow> walk (nxt (lk s)) ys h"
    and step: "\<And>s y ys s'. I s (y # ys) \<Longrightarrow> body y s = (s', False) \<Longrightarrow> I s' ys"
  shows "list_for_each_safe lk body h (hd (ys @ [h])) n s = Some (each_until body ys s)"
  using I n
proof (induction ys arbitrary: s n)
  case Nil
  then show ?case by (simp add: list_for_each_safe.simps)
next
  case (Cons y ys)
  obtain s' brk where b: "body y s = (s', brk)" by (cases "body y s")
  have w: "y \<noteq> h" "n = hd (ys @ [h])" using walk [OF Cons.prems(1)] Cons.prems(2) by auto
  show ?case
  proof (cases brk)
    case True
    then show ?thesis using b w by (simp add: list_for_each_safe.simps)
  next
    case False
    with b have "I s' ys" using step [OF Cons.prems(1)] by simp
    from Cons.IH [OF this refl] show ?thesis
      using b w False by (simp add: list_for_each_safe.simps [of lk body h y])
  qed
qed

lemma list_for_each_eq:
  assumes I: "I s ys"
    and walk: "\<And>s ys. I s ys \<Longrightarrow> walk (nxt (lk s)) ys h"
    and step: "\<And>s y ys s'. I s (y # ys) \<Longrightarrow> body y s = (s', False) \<Longrightarrow>
      I s' ys \<and> nxt (lk s') y = nxt (lk s) y"
  shows "list_for_each lk body h (hd (ys @ [h])) s = Some (each_until body ys s)"
  using I
proof (induction ys arbitrary: s)
  case Nil
  then show ?case by (simp add: list_for_each.simps)
next
  case (Cons y ys)
  obtain s' brk where b: "body y s = (s', brk)" by (cases "body y s")
  have w: "y \<noteq> h" "nxt (lk s) y = hd (ys @ [h])" using walk [OF Cons.prems] by auto
  show ?case
    using b w Cons.IH [of s'] step [OF Cons.prems, of s']
    by (cases brk) (simp_all add: list_for_each.simps [of lk body h y])
qed

section \<open>The interface\<close>

text \<open>
  What the clients of usrlist.hpp rely on: detaching and appending nodes, testing for emptiness
  and reading the first member, related to ring stores. Each client operation is proved against
  these laws.
\<close>

locale intrusive_list =
  fixes repr :: "'m \<Rightarrow> rings \<Rightarrow> bool"
    and del :: "addr \<Rightarrow> 'm \<Rightarrow> 'm"
    and add_tail :: "addr \<Rightarrow> addr \<Rightarrow> 'm \<Rightarrow> 'm"
    and is_empty :: "addr \<Rightarrow> 'm \<Rightarrow> bool"
    and first :: "addr \<Rightarrow> 'm \<Rightarrow> addr"
  assumes del: "repr m R \<Longrightarrow> node R x \<Longrightarrow> repr (del x m) (r_detach x R)"
    and add_tail: "repr m R \<Longrightarrow> R x = Some [] \<Longrightarrow> R q = Some xs \<Longrightarrow> q \<noteq> x \<Longrightarrow>
      repr (add_tail x q m) (r_append x q R)"
    and is_empty: "repr m R \<Longrightarrow> R h = Some xs \<Longrightarrow> is_empty h m \<longleftrightarrow> xs = []"
    and first: "repr m R \<Longrightarrow> R h = Some (x # xs) \<Longrightarrow> first h m = x"
    and distinct: "repr m R \<Longrightarrow> R h = Some xs \<Longrightarrow> distinct (h # xs)"
begin

text \<open>Detaching a node and appending it to a queue, wherever it was before.\<close>

lemma requeue:
  assumes "repr m R" and "node R x" and "q \<in> dom R" and "q \<noteq> x"
  shows "repr (add_tail x q (del x m)) (r_append x q (r_detach x R))"
proof -
  from assms(3) obtain xs where "R q = Some xs" by auto
  then have "r_detach x R q = Some (remove1 x xs)" using assms(4) by (simp add: ring_simps)
  with assms(4) show ?thesis
    using add_tail [OF del [OF assms(1,2)] r_detach_self] by blast
qed

text \<open>Taking the first member off a list.\<close>

lemma pop_first:
  assumes "repr m R" and "R h = Some (x # xs)"
  shows "\<not> is_empty h m" and "first h m = x" and "repr (del x m) (r_detach x R)"
    and "r_detach x R h = Some xs" and "r_detach x R x = Some []"
proof -
  have "node R x" using assms(2) by (rule node_member) simp
  moreover have "h \<noteq> x" using distinct [OF assms] by simp
  ultimately show "\<not> is_empty h m" and "first h m = x" and "repr (del x m) (r_detach x R)"
    and "r_detach x R h = Some xs" and "r_detach x R x = Some []"
    using assms is_empty [OF assms] first [OF assms] del [OF assms(1)] by (auto simp: ring_simps)
qed

end

interpretation il: intrusive_list rep list_del list_add_tail list_empty list_first_entry
  by unfold_locales
     (auto intro: rep_del rep_add_tail simp: rep_list_empty rep_first list_first_entry_def rep_distinct
        dest: rep_distinct)

section \<open>Properties\<close>

text \<open>
  A store in which every node is as its constructor leaves it (\<open>next\<close> and \<open>prev\<close> point to the
  node itself).
\<close>

definition fresh_links :: links where
  "fresh_links = \<lparr>nxt = (\<lambda>a. a), prv = (\<lambda>a. a)\<rparr>"

lemma rep_fresh_links: "rep fresh_links (\<lambda>_. Some [])"
  by (auto simp: rep_def ring_def owns_def fresh_links_def)

text \<open>Two queued nodes, 2 and 3, on the list headed by 10: the store the witnesses start from.\<close>

definition two_node_links :: links where
  "two_node_links = list_add_tail 3 10 (list_add_tail 2 10 fresh_links)"

definition two_node_rings :: rings where
  "two_node_rings = r_append 3 10 (r_append 2 10 (\<lambda>_. Some []))"

lemma rep_two_nodes: "rep two_node_links two_node_rings"
  unfolding two_node_links_def two_node_rings_def
  by (rule rep_add_tail [where xs = "[2]"], rule rep_add_tail [where xs = "[]"])
     (simp_all add: rep_fresh_links r_append_def)

lemma two_node_rings_simps [simp]:
  "two_node_rings 10 = Some [2, 3]" "two_node_rings 2 = None" "two_node_rings 3 = None"
  by (simp_all add: two_node_rings_def r_append_def)

lemma fold_r_detach_other:
  "k \<notin> set xs \<Longrightarrow> fold r_detach xs R k = map_option (\<lambda>ys. fold remove1 xs ys) (R k)"
  by (induction xs arbitrary: R) (auto simp: ring_simps option.map_comp comp_def option.map_id)

lemma fold_r_detach_self: "x \<in> set xs \<Longrightarrow> fold r_detach xs R x = Some []"
proof (induction xs arbitrary: R)
  case (Cons y ys)
  have "fold remove1 ys ([] :: addr list) = []" by (induction ys) auto
  with Cons show ?case by (cases "x \<in> set ys") (auto simp: fold_r_detach_other ring_simps)
qed simp

lemma fold_remove1_suffix: "fold remove1 xs xs = ([] :: addr list)"
proof -
  have "fold remove1 ys (ys @ zs) = zs" for ys zs :: "addr list"
    by (induction ys) auto
  from this [of xs "[]"] show ?thesis by simp
qed

text \<open>
  The deletion loop: with \<open>kept\<close> empty it is the invariant of \<open>list_for_each_safe\<close> over a body
  that detaches the node it visits.
\<close>

lemma each_until_list_del:
  "rep m R \<Longrightarrow> R h = Some ys \<Longrightarrow>
   rep (each_until (\<lambda>x m. (list_del x m, False)) ys m) (fold r_detach ys R)"
proof (induction ys arbitrary: m R)
  case (Cons y ys)
  from il.pop_first(3,4) [OF Cons.prems] show ?case using Cons.IH by simp
qed simp

lemma list_for_each_safe_list_del:
  assumes "rep m R" and "R h = Some xs"
  shows "list_for_each_safe (\<lambda>m. m) (\<lambda>x m. (list_del x m, False)) h (nxt m h) (nxt m (nxt m h)) m
    = Some (each_until (\<lambda>x m. (list_del x m, False)) xs m)"
proof -
  let ?I = "\<lambda>m ys. \<exists>R. rep m R \<and> R h = Some ys"
  have h: "nxt m h = hd (xs @ [h])" using ring_first [OF rep_ring [OF assms]] .
  show ?thesis unfolding h
  proof (rule list_for_each_safe_eq [where I = ?I])
    show "?I m xs" using assms by blast
  next
    fix m ys assume "?I m ys"
    then show "walk (nxt m) ys h" using rep_walk [of m _ h "[]" ys] by auto
  next
    fix m y ys m' assume "?I m (y # ys)" and "(list_del y m, False) = (m', False)"
    then show "?I m' ys" using il.pop_first(3,4) by blast
  qed simp
qed

text \<open>
  \<open>list_del\<close> refines detaching a node. In any store of disjoint lists, deleting a node that is
  a member of some list, or already detached, leaves every list without that node, leaves the
  node a detached list of its own (as \<open>INIT_LIST_HEAD\<close> makes it), and changes no other list.
\<close>

theorem list_del_refines:
  assumes "rep m R" and "node R x"
  shows "rep (list_del x m) (r_detach x R)"
  using assms by (rule rep_del)

theorem list_del_refines_witness:
  "rep (list_del 2 two_node_links) (r_detach 2 two_node_rings) \<and> r_detach 2 two_node_rings 10 = Some [3]"
  using list_del_refines [OF rep_two_nodes node_member [of two_node_rings 10 "[2, 3]" 2]]
  by (simp add: ring_simps)

text \<open>
  \<open>list_add_tail\<close> appends and \<open>list_add\<close> prepends. For a detached node and another list, the
  four pointer writes give the list with the node at its end (at its front), and every other list
  is unchanged.
\<close>

theorem list_add_refines:
  assumes "rep m R" and "R x = Some []" and "R q = Some xs" and "q \<noteq> x"
  shows "rep (list_add_tail x q m) (r_append x q R) \<and> r_append x q R q = Some (xs @ [x]) \<and>
    rep (list_add x q m) (r_push x q R) \<and> r_push x q R q = Some (x # xs)"
  using assms rep_add_tail [OF assms] rep_add [OF assms] by (simp add: ring_simps r_push_def)

theorem list_add_refines_witness:
  "rep (list_add_tail 4 10 two_node_links) (r_append 4 10 two_node_rings) \<and>
   r_append 4 10 two_node_rings 10 = Some [2, 3, 4] \<and>
   r_push 4 10 two_node_rings 10 = Some [4, 2, 3]"
  using list_add_refines [OF rep_two_nodes, of 4 10 "[2, 3]"]
  by (simp add: two_node_rings_def r_append_def)

text \<open>
  the safe iteration macro. Walking a list with \<open>list_for_each_safe\<close> while deleting every
  visited node terminates, empties the list, leaves every former member detached and keeps every
  other list.
\<close>

theorem list_for_each_safe_drains:
  assumes "rep m R" and "R h = Some xs"
  shows "\<exists>m' R'. list_for_each_safe (\<lambda>m. m) (\<lambda>x m. (list_del x m, False)) h (nxt m h) (nxt m (nxt m h)) m
      = Some m' \<and> rep m' R' \<and> R' h = Some [] \<and> (\<forall>x\<in>set xs. R' x = Some []) \<and>
      (\<forall>k ys. k \<noteq> h \<longrightarrow> R k = Some ys \<longrightarrow> R' k = Some ys)"
proof -
  let ?R' = "fold r_detach xs R"
  have d: "distinct (h # xs)" using rep_distinct [OF assms] .
  have "?R' k = Some ys" if "k \<noteq> h" "R k = Some ys" for k ys
  proof -
    have "set (k # ys) \<inter> set (h # xs) = {}" using rep_disjoint [OF assms(1) that(2) assms(2) that(1)] .
    moreover have "set ys \<inter> set zs = {} \<Longrightarrow> fold remove1 zs ys = ys" for zs
      by (induction zs) (auto simp: remove1_idem)
    ultimately show ?thesis using that by (simp add: fold_r_detach_other)
  qed
  moreover have "?R' h = Some []" using d assms(2) by (simp add: fold_r_detach_other fold_remove1_suffix)
  ultimately show ?thesis
    using list_for_each_safe_list_del [OF assms] each_until_list_del [OF assms] fold_r_detach_self
    by blast
qed

theorem list_for_each_safe_drains_witness:
  "\<exists>m' R'. list_for_each_safe (\<lambda>m. m) (\<lambda>x m. (list_del x m, False)) 10 2 3 two_node_links = Some m' \<and>
     rep m' R' \<and> R' 10 = Some [] \<and> R' 2 = Some [] \<and> R' 3 = Some []"
proof -
  have "nxt two_node_links 10 = 2" "nxt two_node_links 2 = 3"
    by (simp_all add: two_node_links_def fresh_links_def link_defs)
  with list_for_each_safe_drains [OF rep_two_nodes, of 10 "[2, 3]"] show ?thesis by auto
qed

end
