(* ===== verification/Workqueue.thy ===== *)
theory Workqueue
  imports Intrusive_List
begin

text \<open>
  The work queue of \<^verbatim>\<open>task/workqueue.hpp\<close>.

  The state holds the links of all list nodes, the function pointer of every work node, the
  address of the queue head, whether the wake-up callback \<open>trig\<close> is installed, and the trace of
  the calls that leave the queue (wake-ups, debug hooks, warnings). Components that own more data
  extend this record, so the queue operations apply to their states unchanged. A section of the
  source between \<open>lk.lock()\<close> and \<open>lk.unlock()\<close> is one step; the lock itself is in theory
  \<open>Spin_Lock\<close>. A failed \<open>assert\<close> is the result \<open>Inl\<close>.
\<close>

section \<open>Data\<close>

type_synonym uintptr = "64 word"

text \<open>
  The callbacks the library installs in \<open>worknode.func\<close>; \<open>User_cb\<close> is a callback of the
  application, \<open>Raw\<close> any other pointer value.
\<close>

datatype callback =
    Wk_cb | Destroy_on_executor
  | Sem_chk_cb | Sem_req_cb | Sem_req_timeout_cb | Sem_on_timer
  | Tim_chk_cb | Connect_timeout_cb | Notify_cb | Notify_req_cb | Notify_req_timeout_cb | Notify_on_timer | Tls_handshake_cb | Delay_timer_cb
  | Resume_cb | Lock_acquired_cb | Drive_cb | Runner_cb
  | Dns_resume_run | User_cb nat

datatype func_ptr = Null | Code callback | Raw uintptr

datatype wq_event = Trig | Check_hook func_ptr | Null_hook addr | Warn_null_func addr

datatype abort = Assert_null_func | Assert_poison_func

record wq =
  lks :: links
  func :: "addr \<Rightarrow> func_ptr"
  ws_head :: addr
  trig :: bool
  log :: "wq_event list"

text \<open>
  The build: \<open>NDEBUG\<close>, whether the compiler is MSVC and the pointers have 64 bits, and which of
  the two weak debug hooks the application defines.
\<close>

record build =
  ndebug :: bool
  msvc :: bool
  ptr64 :: bool
  check_hook :: bool
  null_hook :: bool

definition emit :: "wq_event \<Rightarrow> 'a wq_scheme \<Rightarrow> 'a wq_scheme" where
  "emit e s = s\<lparr>log := log s @ [e]\<rparr>"

section \<open>Operations\<close>

definition wq_is_debug_poison_ptr_uintptr :: "build \<Rightarrow> uintptr \<Rightarrow> bool" where
  "wq_is_debug_poison_ptr_uintptr b p =
     (if msvc b then
        if ptr64 b then p = 0xcdcdcdcdcdcdcdcd \<or> p = 0xcccccccccccccccc \<or> p = 0xfeeefeeefeeefeee \<or> p = 0xabababababababab
        else p = 0xcdcdcdcd \<or> p = 0xcccccccc \<or> p = 0xfeeefeee \<or> p = 0xabababab
      else False)"

text \<open>The code address of a library function is never one of the poison patterns.\<close>

fun wq_is_debug_poison_func_ptr :: "build \<Rightarrow> func_ptr \<Rightarrow> bool" where
  "wq_is_debug_poison_func_ptr b (Raw p) = wq_is_debug_poison_ptr_uintptr b p"
| "wq_is_debug_poison_func_ptr b _ = False"

definition wq_maybe_invoke_debug_hook :: "build \<Rightarrow> func_ptr \<Rightarrow> 'a wq_scheme \<Rightarrow> 'a wq_scheme" where
  "wq_maybe_invoke_debug_hook b fn s = (if check_hook b then emit (Check_hook fn) s else s)"

text \<open>The checks that \<open>post\<close>, the batch \<open>post\<close> and \<open>add_new_nolock\<close> run on a node before they enqueue it.\<close>

definition wq_validate :: "build \<Rightarrow> addr \<Rightarrow> 'a wq_scheme \<Rightarrow> abort + 'a wq_scheme" where
  "wq_validate b a s =
     (let fn = func s a; s1 = wq_maybe_invoke_debug_hook b fn s in
      if ndebug b then Inr s1
      else let s2 = (if fn = Null \<and> null_hook b then emit (Null_hook a) s1 else s1) in
        if fn = Null then Inl Assert_null_func
        else if wq_is_debug_poison_func_ptr b fn then Inl Assert_poison_func
        else Inr s2)"

definition enqueue :: "addr \<Rightarrow> 'a wq_scheme \<Rightarrow> 'a wq_scheme" where
  "enqueue a s = s\<lparr>lks := list_add_tail a (ws_head s) (list_del a (lks s))\<rparr>"

definition trig_once :: "'a wq_scheme \<Rightarrow> 'a wq_scheme" where
  "trig_once s = (if trig s then emit Trig s else s)"

definition post :: "build \<Rightarrow> addr \<Rightarrow> 'a wq_scheme \<Rightarrow> abort + 'a wq_scheme" where
  "post b a s = (case wq_validate b a s of Inl e \<Rightarrow> Inl e | Inr s1 \<Rightarrow> Inr (trig_once (enqueue a s1)))"

definition add_new_nolock :: "build \<Rightarrow> addr \<Rightarrow> 'a wq_scheme \<Rightarrow> abort + 'a wq_scheme" where
  "add_new_nolock b a s = (case wq_validate b a s of Inl e \<Rightarrow> Inl e | Inr s1 \<Rightarrow> Inr (enqueue a s1))"

text \<open>The splice of the batch \<open>post\<close>, write by write.\<close>

definition wq_splice :: "addr \<Rightarrow> addr \<Rightarrow> links \<Rightarrow> links" where
  "wq_splice batch_head head m =
     (let first = nxt m batch_head;
          last = prv m batch_head;
          m1 = set_prev first (prv m head) m;
          m2 = set_next (prv m1 head) first m1;
          m3 = set_next last head m2;
          m4 = set_prev head last m3
      in INIT_LIST_HEAD batch_head m4)"

definition validate_body ::
  "build \<Rightarrow> addr \<Rightarrow> abort + 'a wq_scheme \<Rightarrow> (abort + 'a wq_scheme) \<times> bool" where
  "validate_body b a r =
     (case r of Inl e \<Rightarrow> (Inl e, True)
      | Inr s \<Rightarrow> (case wq_validate b a s of Inl e \<Rightarrow> (Inl e, True) | Inr s' \<Rightarrow> (Inr s', False)))"

definition post_batch :: "build \<Rightarrow> addr \<Rightarrow> 'a wq_scheme \<Rightarrow> (abort + 'a wq_scheme) option" where
  "post_batch b batch_head s =
     (if list_empty batch_head (lks s) then Some (Inr s)
      else case list_for_each (\<lambda>r. case r of Inl _ \<Rightarrow> lks s | Inr s' \<Rightarrow> lks s') (validate_body b)
                  batch_head (nxt (lks s) batch_head) (Inr s) of
             None \<Rightarrow> None
           | Some (Inl e) \<Rightarrow> Some (Inl e)
           | Some (Inr s1) \<Rightarrow>
               Some (Inr (trig_once (s1\<lparr>lks := wq_splice batch_head (ws_head s1) (lks s1)\<rparr>))))"

definition get_work_node :: "'a wq_scheme \<Rightarrow> addr option \<times> 'a wq_scheme" where
  "get_work_node s =
     (if list_empty (ws_head s) (lks s) then (None, s)
      else let pnod = list_first_entry (ws_head s) (lks s)
           in (Some pnod, s\<lparr>lks := list_del pnod (lks s)\<rparr>))"

text \<open>\<open>call fn p\<close> is the effect of the indirect call \<open>fn(pnod)\<close>; the result carries the return value.\<close>

definition work_once ::
  "build \<Rightarrow> (func_ptr \<Rightarrow> addr \<Rightarrow> 'a wq_scheme \<Rightarrow> 'a wq_scheme) \<Rightarrow> 'a wq_scheme \<Rightarrow> abort + ('a wq_scheme \<times> int)" where
  "work_once b call s =
     (case get_work_node s of
        (None, s1) \<Rightarrow> Inr (s1, 0)
      | (Some pnod, s1) \<Rightarrow>
          (let fn = func s1 pnod in
           if fn \<noteq> Null then
             if \<not> ndebug b \<and> wq_is_debug_poison_func_ptr b fn then Inl Assert_poison_func
             else Inr (call fn pnod s1, 1)
           else Inr (emit (Warn_null_func pnod) s1, 1)))"

section \<open>Lemmas\<close>

lemma wq_simps [simp]:
  "lks (emit e s) = lks s" "func (emit e s) = func s" "ws_head (emit e s) = ws_head s" "trig (emit e s) = trig s"
  "log (emit e s) = log s @ [e]"
  "lks (trig_once s) = lks s" "func (trig_once s) = func s" "ws_head (trig_once s) = ws_head s"
  "trig (trig_once s) = trig s" "log (trig_once s) = log s @ (if trig s then [Trig] else [])"
  "func (enqueue a s) = func s" "ws_head (enqueue a s) = ws_head s" "trig (enqueue a s) = trig s"
  "log (enqueue a s) = log s" "lks (enqueue a s) = list_add_tail a (ws_head s) (list_del a (lks s))"
  by (simp_all add: emit_def trig_once_def enqueue_def)

text \<open>\<open>valid_func\<close>: the assertions of a debug build hold for this node.\<close>

definition valid_func :: "build \<Rightarrow> func_ptr \<Rightarrow> bool" where
  "valid_func b fn \<longleftrightarrow> fn \<noteq> Null \<and> \<not> wq_is_debug_poison_func_ptr b fn"

lemma wq_validate_ok:
  "ndebug b \<or> valid_func b (func s a) \<Longrightarrow>
   wq_validate b a s = Inr (wq_maybe_invoke_debug_hook b (func s a) s)"
  by (auto simp: wq_validate_def Let_def valid_func_def)

lemma wq_validate_Inr:
  "wq_validate b a s = Inr s' \<Longrightarrow>
   lks s' = lks s \<and> func s' = func s \<and> ws_head s' = ws_head s \<and> trig s' = trig s"
  by (auto simp: wq_validate_def Let_def wq_maybe_invoke_debug_hook_def split: if_splits)

text \<open>
  The components below run without a debug hook; then, for a node with a valid function pointer,
  \<open>add_new_nolock\<close> is \<open>enqueue\<close> and \<open>post\<close> is \<open>wq_post\<close> in every build.
\<close>

definition wq_post :: "addr \<Rightarrow> 'a wq_scheme \<Rightarrow> 'a wq_scheme" where
  "wq_post a s = trig_once (enqueue a s)"

lemma add_new_nolock_ok:
  "\<not> check_hook b \<Longrightarrow> ndebug b \<or> valid_func b (func s a) \<Longrightarrow> add_new_nolock b a s = Inr (enqueue a s)"
  by (simp add: add_new_nolock_def wq_validate_ok wq_maybe_invoke_debug_hook_def)

lemma post_ok:
  "\<not> check_hook b \<Longrightarrow> ndebug b \<or> valid_func b (func s a) \<Longrightarrow> post b a s = Inr (wq_post a s)"
  by (simp add: post_def wq_validate_ok wq_maybe_invoke_debug_hook_def wq_post_def)

lemma rep_enqueue:
  assumes "rep (lks s) R" and "node R a" and "ws_head s \<in> dom R" and "ws_head s \<noteq> a"
  shows "rep (lks (enqueue a s)) (r_append a (ws_head s) (r_detach a R))"
  using il.requeue [OF assms] by simp

lemma wq_splice_links:
  assumes "nxt m b \<noteq> q"
  shows "wq_splice b q m
    = INIT_LIST_HEAD b (raw_list_del (prv m b) q (raw_list_del (prv m q) (nxt m b) m))"
  using assms by (cases m) (simp add: wq_splice_def raw_list_del_def Let_def set_prev_def set_next_def)

lemma rep_wq_splice:
  assumes m: "rep m R" and q: "R q = Some xs" and b: "R b = Some ys" and ne: "ys \<noteq> []" and bq: "b \<noteq> q"
  shows "rep (wq_splice b q m) (r_splice b q R)"
proof -
  have "nxt m b = hd ys" "prv m b = last ys" "prv m q = last (q # xs)"
    using ring_first [OF rep_ring [OF m b]] ring_last [OF rep_ring [OF m b]]
      ring_last [OF rep_ring [OF m q]] ne by auto
  moreover have "hd ys \<noteq> q" using rep_disjoint [OF m b q bq] hd_in_set [OF ne] by auto
  ultimately show ?thesis using rep_splice [OF m q b ne bq] by (simp add: wq_splice_links)
qed

lemma get_work_node_Cons:
  assumes "rep (lks s) R" and "R (ws_head s) = Some (x # xs)"
  shows "get_work_node s = (Some x, s\<lparr>lks := list_del x (lks s)\<rparr>)"
  using il.pop_first(1,2) [OF assms] by (simp add: get_work_node_def Let_def)

lemma get_work_node_Nil:
  "rep (lks s) R \<Longrightarrow> R (ws_head s) = Some [] \<Longrightarrow> get_work_node s = (None, s)"
  by (simp add: get_work_node_def rep_list_empty)

section \<open>The executor interface\<close>

text \<open>
  What the synchronisation and I/O components rely on: adding a node appends it to the queue,
  wherever the node was, and touches no other list. The lemma of the locale is the effect of
  waking several detached nodes one after the other.
\<close>

locale executor =
  fixes lists :: "'s \<Rightarrow> rings \<Rightarrow> bool"
    and queue :: "'s \<Rightarrow> addr"
    and add :: "addr \<Rightarrow> 's \<Rightarrow> 's"
  assumes add: "lists s R \<Longrightarrow> node R x \<Longrightarrow> queue s \<in> dom R \<Longrightarrow> queue s \<noteq> x \<Longrightarrow>
      lists (add x s) (r_append x (queue s) (r_detach x R))"
    and queue_add: "queue (add x s) = queue s"
begin

lemma queue_fold_add: "queue (fold add xs s) = queue s"
  by (induction xs arbitrary: s) (simp_all add: queue_add)

text \<open>Adding a node appends it, and removes it from the list it was in.\<close>

lemma add_queue:
  assumes "R (queue s) = Some ys" and "queue s \<noteq> x"
  shows "r_append x (queue s) (r_detach x R) (queue s) = Some (remove1 x ys @ [x])"
  using assms by (simp add: ring_simps)

lemma add_other:
  assumes "h \<noteq> queue s" and "h \<noteq> x"
  shows "r_append x (queue s) (r_detach x R) h = map_option (remove1 x) (R h)"
  using assms by (simp add: ring_simps)

lemma fold_add_detached:
  assumes "lists s R" and "R (queue s) = Some ys" and "distinct xs"
    and "\<And>x. x \<in> set xs \<Longrightarrow> R x = Some [] \<and> x \<noteq> queue s"
    and "\<And>h zs. R h = Some zs \<Longrightarrow> set zs \<inter> set xs = {}"
  shows "\<exists>R'. lists (fold add xs s) R' \<and> R' (queue s) = Some (ys @ xs) \<and>
    (\<forall>h. h \<notin> set xs \<longrightarrow> h \<noteq> queue s \<longrightarrow> R' h = R h)"
  using assms
proof (induction xs arbitrary: s R ys)
  case Nil
  then show ?case by auto
next
  case (Cons x xs)
  let ?R = "r_append x (queue s) (r_detach x R)"
  have x: "R x = Some []" "x \<noteq> queue s" using Cons.prems(4) by auto
  have rest: "?R h = R h" if "h \<noteq> x" "h \<noteq> queue s" for h
    using that Cons.prems(5) [of h] by (cases "R h") (auto simp: ring_simps remove1_idem)
  have q: "?R (queue s) = Some (ys @ [x])"
    using add_queue [of R s ys x] x Cons.prems(2) Cons.prems(5) [OF Cons.prems(2)] by (simp add: remove1_idem)
  have "lists (add x s) ?R" using add [OF Cons.prems(1) node_detached [of R x]] x Cons.prems(2) by auto
  moreover have "?R (queue (add x s)) = Some (ys @ [x])" using q by (simp add: queue_add)
  moreover have "distinct xs" using Cons.prems(3) by simp
  moreover have "?R y = Some [] \<and> y \<noteq> queue (add x s)" if "y \<in> set xs" for y
    using that Cons.prems(3) Cons.prems(4) [of y] rest [of y] by (auto simp: queue_add)
  moreover have "set zs \<inter> set xs = {}" if "?R h = Some zs" for h zs
  proof (cases "h = queue s \<or> h = x")
    case True
    then have "zs = ys @ [x]" using that q by (auto simp: ring_simps)
    then show ?thesis using Cons.prems(3) Cons.prems(5) [OF Cons.prems(2)] by auto
  next
    case False
    then show ?thesis using that rest [of h] Cons.prems(5) [of h zs] by auto
  qed
  ultimately obtain R' where "lists (fold add xs (add x s)) R'"
    and "R' (queue (add x s)) = Some ((ys @ [x]) @ xs)"
    and "\<forall>h. h \<notin> set xs \<longrightarrow> h \<noteq> queue (add x s) \<longrightarrow> R' h = ?R h"
    using Cons.IH by blast
  then show ?case using rest by (intro exI [of _ R']) (auto simp: queue_add)
qed

end

interpretation exec: executor "\<lambda>s R. rep (lks s) R" ws_head enqueue
  by unfold_locales (auto intro: rep_add_tail rep_del simp: ring_simps)

interpretation exec_post: executor "\<lambda>s R. rep (lks s) R" ws_head wq_post
  by unfold_locales (auto intro: rep_add_tail rep_del simp: ring_simps wq_post_def)

section \<open>Closed stores\<close>

text \<open>
  A closed store around several list heads \<open>H\<close>: every other address is a detached node or a member
  of one of the lists.
\<close>

definition store_ok :: "links \<Rightarrow> addr set \<Rightarrow> rings \<Rightarrow> bool" where
  "store_ok m H R \<longleftrightarrow> rep m R \<and> (\<forall>h\<in>H. R h \<noteq> None) \<and> (\<forall>x. x \<notin> H \<longrightarrow> R x = Some [] \<or> (\<exists>h\<in>H. \<exists>xs. R h = Some xs \<and> x \<in> set xs))"

lemma store_ok_rep: "store_ok m H R \<Longrightarrow> rep m R"
  by (simp add: store_ok_def)

lemma store_ok_node: "store_ok m H R \<Longrightarrow> x \<notin> H \<Longrightarrow> node R x"
  by (auto simp: store_ok_def node_def)

lemma store_ok_member_off: "store_ok m H R \<Longrightarrow> R k = Some xs \<Longrightarrow> x \<in> set xs \<Longrightarrow> x \<notin> H"
  using rep_member_not_head [of m R k xs x] by (auto simp: store_ok_def)

lemma store_ok_del:
  assumes "store_ok m H R" and "x \<notin> H"
  shows "store_ok (list_del x m) H (r_detach x R)"
proof -
  have "r_detach x R y = Some [] \<or> (\<exists>h\<in>H. \<exists>xs. r_detach x R h = Some xs \<and> y \<in> set xs)" if "y \<notin> H" for y
  proof (cases "y = x")
    case False
    have "h \<noteq> x" if "h \<in> H" for h using that assms(2) by auto
    moreover have "R y = Some [] \<or> (\<exists>h\<in>H. \<exists>xs. R h = Some xs \<and> y \<in> set xs)" using assms(1) that by (auto simp: store_ok_def)
    ultimately show ?thesis using False by (fastforce simp: ring_simps)
  qed (simp add: ring_simps)
  moreover have "r_detach x R h \<noteq> None" if "h \<in> H" for h using assms that by (cases "h = x") (auto simp: store_ok_def ring_simps)
  ultimately show ?thesis using rep_del [OF store_ok_rep [OF assms(1)] store_ok_node [OF assms]] by (auto simp: store_ok_def)
qed

lemma store_ok_add_tail:
  assumes "store_ok m H R" and "x \<notin> H" and "R x = Some []" and "q \<in> H"
  shows "store_ok (list_add_tail x q m) H (r_append x q R)"
proof -
  obtain xs where q: "R q = Some xs" using assms(1,4) by (auto simp: store_ok_def)
  have qx: "q \<noteq> x" using assms(2,4) by auto
  have "r_append x q R y = Some [] \<or> (\<exists>h\<in>H. \<exists>xs. r_append x q R h = Some xs \<and> y \<in> set xs)" if "y \<notin> H" for y
  proof (cases "y = x")
    case True
    then show ?thesis using q qx assms(4) by (auto simp: ring_simps intro!: bexI [of _ q])
  next
    case False
    have hx: "h \<noteq> x" if "h \<in> H" for h using that assms(2) by auto
    have "\<exists>h\<in>H. \<exists>xs. r_append x q R h = Some xs \<and> y \<in> set xs" if "h \<in> H" "R h = Some zs" "y \<in> set zs" for h zs
      using that hx by (intro bexI [of _ h]) (auto simp: r_append_def)
    moreover have "y \<noteq> q" using that assms(4) by auto
    moreover have "R y = Some [] \<or> (\<exists>h\<in>H. \<exists>xs. R h = Some xs \<and> y \<in> set xs)" using assms(1) that by (auto simp: store_ok_def)
    ultimately show ?thesis using False by (elim disjE bexE exE conjE) (simp add: r_append_def, blast)
  qed
  moreover have "r_append x q R h \<noteq> None" if "h \<in> H" for h using assms that by (auto simp: store_ok_def r_append_def)
  ultimately show ?thesis using rep_add_tail [OF store_ok_rep [OF assms(1)] assms(3) q qx] by (auto simp: store_ok_def)
qed

lemma store_ok_requeue:
  assumes "store_ok m H R" and "x \<notin> H" and "q \<in> H"
  shows "store_ok (list_add_tail x q (list_del x m)) H (r_append x q (r_detach x R))"
  using store_ok_add_tail [OF store_ok_del [OF assms(1,2)] assms(2) r_detach_self assms(3)] .

lemma store_ok_splice:
  assumes "store_ok m H R" and "b \<in> H" and "q \<in> H" and "b \<noteq> q" and "R b = Some ys" and "ys \<noteq> []"
  shows "store_ok (wq_splice b q m) H (r_splice b q R)"
proof -
  obtain xs where q: "R q = Some xs" using assms(1,3) by (auto simp: store_ok_def)
  have "r_splice b q R y = Some [] \<or> (\<exists>h\<in>H. \<exists>xs. r_splice b q R h = Some xs \<and> y \<in> set xs)" if y: "y \<notin> H" for y
  proof -
    have "y \<noteq> b" "y \<noteq> q" using y assms(2,3) by auto
    moreover have "R y = Some [] \<or> (\<exists>h\<in>H. \<exists>xs. R h = Some xs \<and> y \<in> set xs)" using assms(1) y by (auto simp: store_ok_def)
    moreover have "\<exists>h\<in>H. \<exists>xs. r_splice b q R h = Some xs \<and> y \<in> set xs" if "h \<in> H" "R h = Some zs" "y \<in> set zs" for h zs
      using that q assms(3,4,5) by (intro bexI [of _ "if h = b then q else h"]) (auto simp: r_splice_def)
    ultimately show ?thesis by (elim disjE bexE exE conjE) (simp add: r_splice_def, blast)
  qed
  moreover have "r_splice b q R h \<noteq> None" if "h \<in> H" for h using that q assms by (auto simp: store_ok_def r_splice_def)
  ultimately show ?thesis using rep_wq_splice [OF store_ok_rep [OF assms(1)] q assms(5,6,4)] by (auto simp: store_ok_def)
qed

lemma store_ok_detached:
  "store_ok m H R \<Longrightarrow> list_empty x m \<Longrightarrow> x \<notin> H \<Longrightarrow> R x = Some []"
  unfolding store_ok_def by (blast dest: rep_list_empty_member)

lemma store_ok_fresh: "store_ok fresh_links H (\<lambda>_. Some [])"
  by (simp add: store_ok_def rep_fresh_links)

text \<open>
  A closed store around one queue: every other address is a detached node or queued.
\<close>

definition wq_world :: "'a wq_scheme \<Rightarrow> rings \<Rightarrow> addr list \<Rightarrow> bool" where
  "wq_world s R qs \<longleftrightarrow> rep (lks s) R \<and> R (ws_head s) = Some qs \<and> (\<forall>x. x \<noteq> ws_head s \<longrightarrow> R x = Some [] \<or> x \<in> set qs)"

lemma wq_world_upd: "wq_world s R qs \<Longrightarrow> lks s' = lks s \<Longrightarrow> ws_head s' = ws_head s \<Longrightarrow> wq_world s' R qs"
  by (simp add: wq_world_def)

lemma wq_world_distinct: "wq_world s R qs \<Longrightarrow> distinct (ws_head s # qs)"
  unfolding wq_world_def by (blast intro: rep_distinct)

lemma wq_world_detached: "wq_world s R qs \<Longrightarrow> list_empty x (lks s) \<Longrightarrow> x \<noteq> ws_head s \<Longrightarrow> x \<notin> set qs"
  unfolding wq_world_def by (blast dest: rep_list_empty_member)

lemma wq_world_enqueue:
  assumes W: "wq_world s R qs" and x: "x \<noteq> ws_head s"
  shows "\<exists>R'. wq_world (enqueue x s) R' (remove1 x qs @ [x])"
proof -
  note L = W [unfolded wq_world_def]
  let ?R = "r_append x (ws_head s) (r_detach x R)"
  have "node R x" using x L by (auto simp: node_def)
  then have "rep (lks (enqueue x s)) ?R" using rep_enqueue [of s R x] L x by auto
  moreover have "?R (ws_head s) = Some (remove1 x qs @ [x])" using L x by (auto simp: ring_simps)
  moreover have "?R y = Some [] \<or> y \<in> set (remove1 x qs @ [x])" if "y \<noteq> ws_head s" for y
    using that L rep_distinct [of "lks s" R "ws_head s" qs] by (cases "y = x") (auto simp: ring_simps)
  ultimately show ?thesis by (intro exI [of _ ?R]) (auto simp: wq_world_def)
qed

lemma wq_world_post: "wq_world s R qs \<Longrightarrow> x \<noteq> ws_head s \<Longrightarrow> \<exists>R'. wq_world (wq_post x s) R' (remove1 x qs @ [x])"
  using wq_world_enqueue [of s R qs x] wq_world_upd [of "enqueue x s" _ _ "trig_once (enqueue x s)"] by (auto simp: wq_post_def)

lemma wq_world_take:
  assumes W: "wq_world s R qs" and g: "get_work_node s = (Some p, s')"
  shows "\<exists>R' qs'. qs = p # qs' \<and> wq_world s' R' qs' \<and> s' = s\<lparr>lks := list_del p (lks s)\<rparr>"
proof -
  note L = W [unfolded wq_world_def]
  from g L get_work_node_Nil [of s R] obtain qs' where qs: "qs = p # qs'"
    using get_work_node_Cons [of s R] by (cases qs) auto
  have s': "s' = s\<lparr>lks := list_del p (lks s)\<rparr>" using g get_work_node_Cons [of s R p qs'] L qs by auto
  note pf = il.pop_first [of "lks s" R "ws_head s" p qs']
  have "r_detach p R x = Some [] \<or> x \<in> set qs'" if "x \<noteq> ws_head s" for x
    using that L qs by (cases "x = p") (auto simp: ring_simps)
  then show ?thesis using qs s' pf(3,4) L by (intro exI [of _ "r_detach p R"] exI [of _ qs']) (auto simp: wq_world_def)
qed

lemma wq_world_fresh: "lks s = fresh_links \<Longrightarrow> wq_world s (\<lambda>_. Some []) []"
  by (simp add: wq_world_def rep_fresh_links)

text \<open>A closed store around the queue and one more list, headed by \<open>l\<close>.\<close>

definition wq_world2 :: "'a wq_scheme \<Rightarrow> addr \<Rightarrow> rings \<Rightarrow> addr list \<Rightarrow> addr list \<Rightarrow> bool" where
  "wq_world2 s l R qs ws \<longleftrightarrow> rep (lks s) R \<and> R (ws_head s) = Some qs \<and> R l = Some ws \<and> ws_head s \<noteq> l \<and>
     (\<forall>x. x \<noteq> ws_head s \<longrightarrow> x \<noteq> l \<longrightarrow> R x = Some [] \<or> x \<in> set qs \<or> x \<in> set ws)"

lemma wq_world2_upd: "wq_world2 s l R qs ws \<Longrightarrow> lks s' = lks s \<Longrightarrow> ws_head s' = ws_head s \<Longrightarrow> wq_world2 s' l R qs ws"
  by (simp add: wq_world2_def)

lemma wq_world2_distinct: "wq_world2 s l R qs ws \<Longrightarrow> distinct (ws_head s # qs @ l # ws)"
  unfolding wq_world2_def using rep_distinct [of "lks s" R] rep_disjoint [of "lks s" R "ws_head s" qs l ws] by fastforce

lemma wq_world2_empty: "wq_world2 s l R qs ws \<Longrightarrow> list_empty l (lks s) \<longleftrightarrow> ws = []"
  by (auto simp: wq_world2_def rep_list_empty)

lemma wq_world2_detached:
  "wq_world2 s l R qs ws \<Longrightarrow> list_empty x (lks s) \<Longrightarrow> x \<notin> {ws_head s, l} \<Longrightarrow> R x = Some [] \<and> x \<notin> set qs \<and> x \<notin> set ws"
  unfolding wq_world2_def by (blast dest: rep_list_empty_member)

lemma wq_world2_enqueue:
  assumes W: "wq_world2 s l R qs ws" and x: "x \<notin> set ws" "x \<notin> {ws_head s, l}"
  shows "\<exists>R'. wq_world2 (enqueue x s) l R' (remove1 x qs @ [x]) ws"
proof -
  note L = W [unfolded wq_world2_def]
  let ?R = "r_append x (ws_head s) (r_detach x R)"
  have "node R x" using x L by (auto simp: node_def)
  then have "rep (lks (enqueue x s)) ?R" using rep_enqueue [of s R x] L x(2) by auto
  moreover have "?R (ws_head s) = Some (remove1 x qs @ [x])" "?R l = Some ws"
    using L x by (auto simp: ring_simps remove1_idem)
  moreover have "?R y = Some [] \<or> y \<in> set (remove1 x qs @ [x]) \<or> y \<in> set ws" if "y \<noteq> ws_head s" "y \<noteq> l" for y
    using that L rep_distinct [of "lks s" R "ws_head s" qs] by (cases "y = x") (auto simp: ring_simps)
  ultimately show ?thesis using L by (intro exI [of _ ?R]) (auto simp: wq_world2_def)
qed

lemma wq_world2_post:
  "wq_world2 s l R qs ws \<Longrightarrow> x \<notin> set ws \<Longrightarrow> x \<notin> {ws_head s, l} \<Longrightarrow> \<exists>R'. wq_world2 (wq_post x s) l R' (remove1 x qs @ [x]) ws"
  using wq_world2_enqueue [of s l R qs ws x] wq_world2_upd [of "enqueue x s" l _ _ ws "trig_once (enqueue x s)"]
  by (auto simp: wq_post_def)

lemma wq_world2_wait:
  assumes W: "wq_world2 s l R qs ws" and x: "R x = Some []" "x \<notin> {ws_head s, l}"
  shows "wq_world2 (s\<lparr>lks := list_add_tail x l (lks s)\<rparr>) l (r_append x l R) qs (ws @ [x])"
proof -
  note L = W [unfolded wq_world2_def]
  have "rep (list_add_tail x l (lks s)) (r_append x l R)" using L x rep_add_tail by auto
  then show ?thesis using L x unfolding wq_world2_def by (auto simp: ring_simps r_append_def)
qed

lemma wq_world2_take:
  assumes W: "wq_world2 s l R qs ws" and g: "get_work_node s = (Some p, s')"
  shows "\<exists>R' qs'. qs = p # qs' \<and> wq_world2 s' l R' qs' ws \<and> s' = s\<lparr>lks := list_del p (lks s)\<rparr>"
proof -
  note L = W [unfolded wq_world2_def]
  from g L get_work_node_Nil [of s R] obtain qs' where qs: "qs = p # qs'"
    using get_work_node_Cons [of s R] by (cases qs) auto
  have s': "s' = s\<lparr>lks := list_del p (lks s)\<rparr>" using g get_work_node_Cons [of s R p qs'] L qs by auto
  note pf = il.pop_first [of "lks s" R "ws_head s" p qs']
  have off: "p \<notin> set ws" "p \<noteq> l" using wq_world2_distinct [OF W] qs by auto
  have "r_detach p R x = Some [] \<or> x \<in> set qs' \<or> x \<in> set ws" if "x \<noteq> ws_head s" "x \<noteq> l" for x
    using that L qs by (cases "x = p") (auto simp: ring_simps)
  moreover have "r_detach p R l = Some ws" using L off by (simp add: ring_simps remove1_idem)
  ultimately show ?thesis using qs s' pf(3,4) L by (intro exI [of _ "r_detach p R"] exI [of _ qs']) (auto simp: wq_world2_def)
qed

lemma wq_world2_del:
  assumes W: "wq_world2 s l R qs ws" and x: "x \<in> set ws"
  shows "wq_world2 (s\<lparr>lks := list_del x (lks s)\<rparr>) l (r_detach x R) qs (remove1 x ws)"
proof -
  note L = W [unfolded wq_world2_def]
  have d: "x \<noteq> ws_head s" "x \<noteq> l" "x \<notin> set qs" "distinct ws" using wq_world2_distinct [OF W] x by auto
  have "rep (list_del x (lks s)) (r_detach x R)" using L x by (intro rep_del) (auto simp: node_def)
  moreover have "r_detach x R y = Some [] \<or> y \<in> set qs \<or> y \<in> set (remove1 x ws)" if "y \<noteq> ws_head s" "y \<noteq> l" for y
    using that L d by (cases "y = x") (auto simp: ring_simps)
  ultimately show ?thesis using L d by (auto simp: wq_world2_def ring_simps remove1_idem)
qed

lemma wq_world2_fresh: "lks s = fresh_links \<Longrightarrow> ws_head s \<noteq> l \<Longrightarrow> wq_world2 s l (\<lambda>_. Some []) [] []"
  by (simp add: wq_world2_def rep_fresh_links)

section \<open>Properties\<close>

text \<open>\<open>serve n\<close>: the nodes that the next \<open>n\<close> calls of \<open>get_work_node\<close> hand out.\<close>

fun serve :: "nat \<Rightarrow> 'a wq_scheme \<Rightarrow> addr list \<times> 'a wq_scheme" where
  "serve 0 s = ([], s)"
| "serve (Suc n) s =
     (case get_work_node s of
        (None, s1) \<Rightarrow> ([], s1)
      | (Some p, s1) \<Rightarrow> (case serve n s1 of (ps, s2) \<Rightarrow> (p # ps, s2)))"

lemma serve_all:
  assumes "rep (lks s) R" and "R (ws_head s) = Some xs"
  shows "fst (serve (length xs) s) = xs \<and> fst (get_work_node (snd (serve (length xs) s))) = None"
  using assms
proof (induction xs arbitrary: s R)
  case Nil
  then show ?case by (simp add: get_work_node_Nil)
next
  case (Cons x xs)
  let ?s = "s\<lparr>lks := list_del x (lks s)\<rparr>"
  have "rep (lks ?s) (r_detach x R)" "r_detach x R (ws_head ?s) = Some xs"
    using il.pop_first(3,4) [OF Cons.prems] by simp_all
  from Cons.IH [OF this] show ?case
    using get_work_node_Cons [OF Cons.prems] by (cases "serve (length xs) ?s") simp
qed

lemma each_until_validate:
  assumes "\<forall>a\<in>set ys. ndebug b \<or> valid_func b (func s a)"
  shows "\<exists>s'. each_until (validate_body b) ys (Inr s) = Inr s' \<and> lks s' = lks s \<and> func s' = func s \<and>
    ws_head s' = ws_head s \<and> trig s' = trig s \<and> log s' = log s @ (if check_hook b then map (Check_hook \<circ> func s) ys else [])"
  using assms
proof (induction ys arbitrary: s)
  case (Cons y ys)
  let ?s = "wq_maybe_invoke_debug_hook b (func s y) s"
  have "each_until (validate_body b) (y # ys) (Inr s) = each_until (validate_body b) ys (Inr ?s)"
    using wq_validate_ok [of b s y] Cons.prems by (auto simp: validate_body_def)
  moreover have "func ?s = func s" "lks ?s = lks s" "ws_head ?s = ws_head s" "trig ?s = trig s"
    "log ?s = log s @ (if check_hook b then [Check_hook (func s y)] else [])"
    by (simp_all add: wq_maybe_invoke_debug_hook_def)
  ultimately show ?case using Cons.IH [of ?s] Cons.prems by auto
qed simp

lemma post_batch_walk:
  assumes "rep (lks s) R" and "R b = Some ys"
  shows "list_for_each (\<lambda>r. case r of Inl _ \<Rightarrow> lks s | Inr s' \<Rightarrow> lks s') (validate_body bd) b (nxt (lks s) b) (Inr s)
    = Some (each_until (validate_body bd) ys (Inr s))"
proof -
  let ?lk = "\<lambda>r. case r of Inl _ \<Rightarrow> lks s | Inr s' \<Rightarrow> lks s'"
  let ?I = "\<lambda>r zs. ?lk r = lks s \<and> (\<exists>xs. R b = Some (xs @ zs))"
  have h: "nxt (lks s) b = hd (ys @ [b])" using ring_first [OF rep_ring [OF assms]] .
  show ?thesis unfolding h
  proof (rule list_for_each_eq [where I = ?I])
    show "?I (Inr s) ys" using assms by auto
  next
    fix r zs assume "?I r zs"
    then show "walk (nxt (?lk r)) zs b" using rep_walk [OF assms(1)] by auto
  next
    fix r z zs r' assume I: "?I r (z # zs)" and body: "validate_body bd z r = (r', False)"
    from body have "?lk r' = ?lk r"
      by (auto simp: validate_body_def split: sum.splits dest: wq_validate_Inr)
    moreover obtain xs where "R b = Some ((xs @ [z]) @ zs)" using I by auto
    ultimately show "?I r' zs \<and> nxt (?lk r') z = nxt (?lk r) z" using I by auto
  qed
qed

text \<open>
  \<open>workqueue::post\<close>. Posting a node that passes the debug checks puts it at the tail of the
  queue exactly once, wherever it was before (a node that is already queued moves to the tail, a
  node waiting in another list leaves that list), keeps all other lists and all function pointers,
  and calls \<open>trig\<close> once if it is installed.
\<close>

theorem post_to_tail:
  assumes "rep (lks s) R" and "node R a" and "R (ws_head s) = Some xs" and "ws_head s \<noteq> a"
    and "ndebug b \<or> valid_func b (func s a)"
  shows "\<exists>s' R'. post b a s = Inr s' \<and> ws_head s' = ws_head s \<and> rep (lks s') R' \<and>
    R' (ws_head s) = Some (remove1 a xs @ [a]) \<and>
    distinct (remove1 a xs @ [a]) \<and> func s' = func s \<and>
    (\<forall>h. h \<noteq> ws_head s \<longrightarrow> h \<noteq> a \<longrightarrow> R' h = map_option (remove1 a) (R h)) \<and>
    log s' = log s @ (if check_hook b then [Check_hook (func s a)] else []) @ (if trig s then [Trig] else [])"
proof -
  let ?s1 = "wq_maybe_invoke_debug_hook b (func s a) s"
  let ?R' = "r_append a (ws_head s) (r_detach a R)"
  have p: "post b a s = Inr (trig_once (enqueue a ?s1))"
    using assms(5) by (simp add: post_def wq_validate_ok)
  have s1: "lks ?s1 = lks s" "func ?s1 = func s" "ws_head ?s1 = ws_head s" "trig ?s1 = trig s"
    "log ?s1 = log s @ (if check_hook b then [Check_hook (func s a)] else [])"
    by (simp_all add: wq_maybe_invoke_debug_hook_def)
  have "rep (lks (trig_once (enqueue a ?s1))) ?R'"
    using exec.add [of s R a] assms s1 by auto
  moreover have "?R' (ws_head s) = Some (remove1 a xs @ [a])" using assms by (simp add: ring_simps)
  moreover have "distinct (remove1 a xs @ [a])" using rep_distinct [OF assms(1,3)] by simp
  ultimately show ?thesis
    using p s1
    by (intro exI [of _ "trig_once (enqueue a ?s1)"] exI [of _ ?R']) (simp add: ring_simps)
qed

definition demo_wq :: wq where
  "demo_wq = \<lparr>lks = two_node_links, func = (\<lambda>_. Code Resume_cb), ws_head = 10, trig = True, log = []\<rparr>"

definition release_build :: build where
  "release_build = \<lparr>ndebug = True, msvc = False, ptr64 = True, check_hook = False, null_hook = False\<rparr>"

theorem post_to_tail_witness:
  "\<exists>s' R'. post release_build 2 demo_wq = Inr s' \<and> rep (lks s') R' \<and> R' 10 = Some [3, 2] \<and> log s' = [Trig]"
proof -
  have "node two_node_rings 2" by (rule node_member [of _ 10 "[2, 3]"]) simp_all
  then show ?thesis
    using post_to_tail [of demo_wq two_node_rings 2 "[2, 3]" release_build] rep_two_nodes
    by (auto simp: demo_wq_def release_build_def)
qed

text \<open>
  the assertions of \<open>post\<close> and \<open>add_new_nolock\<close>. A release build never aborts; a debug build
  aborts exactly when the function pointer of the node is null or (with MSVC only) one of the four
  debug fill patterns.
\<close>

theorem post_abort_iff:
  "(post b a s = Inl e \<longleftrightarrow> \<not> ndebug b \<and> (func s a = Null \<and> e = Assert_null_func \<or>
      (\<exists>p. func s a = Raw p \<and> wq_is_debug_poison_ptr_uintptr b p) \<and> e = Assert_poison_func)) \<and>
   (add_new_nolock b a s = Inl e \<longleftrightarrow> post b a s = Inl e) \<and>
   (\<not> msvc b \<longrightarrow> \<not> wq_is_debug_poison_ptr_uintptr b p)"
  by (cases "func s a")
     (auto simp: post_def add_new_nolock_def wq_validate_def Let_def wq_is_debug_poison_ptr_uintptr_def)

theorem post_abort_iff_witness:
  "post release_build 2 (demo_wq\<lparr>func := (\<lambda>_. Null)\<rparr>) \<noteq> Inl Assert_null_func \<and>
   post (release_build\<lparr>ndebug := False\<rparr>) 2 (demo_wq\<lparr>func := (\<lambda>_. Null)\<rparr>) = Inl Assert_null_func \<and>
   \<not> wq_is_debug_poison_ptr_uintptr release_build 0xcdcdcdcdcdcdcdcd"
  using post_abort_iff [where b = release_build and a = 2 and s = "demo_wq\<lparr>func := (\<lambda>_. Null)\<rparr>" and e = Assert_null_func and p = "0xcdcdcdcdcdcdcdcd"]
    post_abort_iff [where b = "release_build\<lparr>ndebug := False\<rparr>" and a = 2 and s = "demo_wq\<lparr>func := (\<lambda>_. Null)\<rparr>" and e = Assert_null_func]
  by (simp add: release_build_def)

lemma post_batch_effect:
  assumes "rep (lks s) R" and "R (ws_head s) = Some xs" and "R h = Some ys" and "h \<noteq> ws_head s"
    and "\<forall>a\<in>set ys. ndebug b \<or> valid_func b (func s a)"
  shows "\<exists>s' R'. post_batch b h s = Some (Inr s') \<and> ws_head s' = ws_head s \<and> func s' = func s \<and> rep (lks s') R' \<and>
    R' (ws_head s) = Some (xs @ ys) \<and> R' h = Some [] \<and>
    (\<forall>k. k \<noteq> ws_head s \<longrightarrow> k \<noteq> h \<longrightarrow> R' k = R k) \<and>
    log s' = log s @ (if check_hook b then map (Check_hook \<circ> func s) ys else []) @
      (if trig s \<and> ys \<noteq> [] then [Trig] else [])"
proof (cases "ys = []")
  case True
  then show ?thesis using assms rep_list_empty [OF assms(1,3)] by (auto simp: post_batch_def)
next
  case False
  obtain s1 where e: "each_until (validate_body b) ys (Inr s) = Inr s1"
    and s1: "lks s1 = lks s" "func s1 = func s" "ws_head s1 = ws_head s" "trig s1 = trig s"
      "log s1 = log s @ (if check_hook b then map (Check_hook \<circ> func s) ys else [])"
    using each_until_validate [OF assms(5)] by auto
  let ?s = "trig_once (s1\<lparr>lks := wq_splice h (ws_head s1) (lks s1)\<rparr>)"
  have "post_batch b h s = Some (Inr ?s)"
    using False rep_list_empty [OF assms(1,3)] post_batch_walk [OF assms(1,3), of b] e
    by (simp add: post_batch_def)
  moreover have "rep (lks ?s) (r_splice h (ws_head s) R)"
    using rep_wq_splice [OF assms(1,2,3) False assms(4)] s1 by simp
  ultimately show ?thesis
    using assms(2,3,4) s1 False
    by (intro exI [of _ ?s] exI [of _ "r_splice h (ws_head s) R"]) (simp add: ring_simps)
qed

lemma each_until_validate_state:
  "each_until (validate_body b) ys (Inr s) = Inr s1 \<Longrightarrow> \<exists>l. s1 = s\<lparr>log := l\<rparr>"
proof (induction ys arbitrary: s)
  case Nil
  then show ?case by (intro exI [of _ "log s"]) simp
next
  case (Cons y ys)
  have v: "\<exists>l. t = s\<lparr>log := l\<rparr>" if "wq_validate b y s = Inr t" for t
    by (rule exI [of _ "log t"]) (use that in \<open>auto simp: wq_validate_def wq_maybe_invoke_debug_hook_def emit_def Let_def split: if_splits\<close>)
  show ?case
  proof (cases "wq_validate b y s")
    case (Inr t)
    then have "validate_body b y (Inr s) = (Inr t, False)" by (simp add: validate_body_def)
    then have "each_until (validate_body b) ys (Inr t) = Inr s1" using Cons.prems by simp
    from Cons.IH [OF this] v [OF Inr] show ?thesis by auto
  qed (use Cons.prems in \<open>simp add: validate_body_def\<close>)
qed

lemma post_batch_state:
  assumes "rep (lks s) R" and "R h = Some ys" and "post_batch b h s = Some (Inr s')"
  shows "s' = s\<lparr>lks := lks s', log := log s'\<rparr>"
proof (cases "list_empty h (lks s)")
  case False
  then obtain s1 where e: "each_until (validate_body b) ys (Inr s) = Inr s1"
    and s': "s' = trig_once (s1\<lparr>lks := wq_splice h (ws_head s1) (lks s1)\<rparr>)"
    using assms(3) post_batch_walk [OF assms(1,2), of b] by (auto simp: post_batch_def split: sum.splits)
  from each_until_validate_state [OF e] show ?thesis by (auto simp: s' trig_once_def emit_def)
qed (use assms(3) in \<open>simp add: post_batch_def\<close>)

text \<open>
  the batch \<open>post\<close>. A batch whose nodes pass the debug checks is spliced behind the queued nodes
  in its own order, the batch head is left empty, no other list changes, and \<open>trig\<close> is called once
  for the whole batch (not at all for an empty one).
\<close>

theorem post_batch_splices:
  assumes "rep (lks s) R" and "R (ws_head s) = Some xs" and "R h = Some ys" and "h \<noteq> ws_head s"
    and "\<forall>a\<in>set ys. ndebug b \<or> valid_func b (func s a)"
  shows "\<exists>s' R'. post_batch b h s = Some (Inr s') \<and> ws_head s' = ws_head s \<and> rep (lks s') R' \<and>
    R' (ws_head s) = Some (xs @ ys) \<and> R' h = Some [] \<and>
    (\<forall>k. k \<noteq> ws_head s \<longrightarrow> k \<noteq> h \<longrightarrow> R' k = R k) \<and>
    log s' = log s @ (if check_hook b then map (Check_hook \<circ> func s) ys else []) @
      (if trig s \<and> ys \<noteq> [] then [Trig] else [])"
  using post_batch_effect [OF assms] by blast

theorem post_batch_splices_witness:
  "\<exists>s' R'. post_batch release_build 10 (demo_wq\<lparr>ws_head := 20\<rparr>) = Some (Inr s') \<and> rep (lks s') R' \<and>
     R' 20 = Some [2, 3] \<and> R' 10 = Some [] \<and> log s' = [Trig]"
proof -
  have "two_node_rings 20 = Some []" by (simp add: two_node_rings_def r_append_def)
  then show ?thesis
    using post_batch_splices [of "demo_wq\<lparr>ws_head := 20\<rparr>" two_node_rings "[]" 10 "[2, 3]" release_build] rep_two_nodes
    by (auto simp: demo_wq_def release_build_def)
qed

text \<open>
  C1: first in, first out. Detached nodes posted one after the other behind the queued ones are
  handed out by \<open>get_work_node\<close> in exactly that order, and then the queue is empty.
\<close>

theorem workqueue_fifo:
  assumes "rep (lks s) R" and "R (ws_head s) = Some xs" and "distinct as"
    and "\<forall>a\<in>set as. R a = Some [] \<and> a \<noteq> ws_head s"
  shows "fst (serve (length (xs @ as)) (fold wq_post as s)) = xs @ as \<and>
    fst (get_work_node (snd (serve (length (xs @ as)) (fold wq_post as s)))) = None"
proof -
  have "set zs \<inter> set as = {}" if "R h = Some zs" for h zs
    using assms(1,4) that rep_member_not_head [OF assms(1) that] by fastforce
  then obtain R' where "rep (lks (fold wq_post as s)) R'" "R' (ws_head s) = Some (xs @ as)"
    using exec_post.fold_add_detached [OF assms(1,2,3)] assms(4) by blast
  then show ?thesis using serve_all [of "fold wq_post as s" R'] by (simp add: exec_post.queue_fold_add)
qed

theorem workqueue_fifo_witness:
  "fst (serve 4 (fold wq_post [5, 4] demo_wq)) = [2, 3, 5, 4]"
proof -
  have "(4 :: nat) = length ([2, 3] @ [5, 4 :: addr])" by simp
  moreover have "two_node_rings 5 = Some []" "two_node_rings 4 = Some []"
    by (simp_all add: two_node_rings_def r_append_def)
  ultimately show ?thesis
    using workqueue_fifo [of demo_wq two_node_rings "[2, 3]" "[5, 4]"] rep_two_nodes
    by (simp only:) (simp add: demo_wq_def)
qed

text \<open>
  \<open>work_once\<close>. It returns 0 and changes nothing exactly when the queue is empty; otherwise it
  returns 1, takes the first node off the queue and calls the function stored in it exactly once,
  with the node already detached (so the callback may post it again); a null function is only
  reported.
\<close>

theorem work_once_runs_first:
  assumes "rep (lks s) R" and "R (ws_head s) = Some xs"
  shows "(case xs of
      [] \<Rightarrow> work_once b call s = Inr (s, 0)
    | x # xs' \<Rightarrow> (\<exists>s1. rep (lks s1) (r_detach x R) \<and> r_detach x R (ws_head s1) = Some xs' \<and>
        r_detach x R x = Some [] \<and> s1 = s\<lparr>lks := lks s1\<rparr> \<and>
        work_once b call s =
          (if func s x = Null then Inr (emit (Warn_null_func x) s1, 1)
           else if \<not> ndebug b \<and> wq_is_debug_poison_func_ptr b (func s x) then Inl Assert_poison_func
           else Inr (call (func s x) x s1, 1))))"
proof (cases xs)
  case Nil
  then show ?thesis using get_work_node_Nil [OF assms(1)] assms(2) by (simp add: work_once_def)
next
  case (Cons x xs')
  with assms have R: "rep (lks s) R" "R (ws_head s) = Some (x # xs')" by simp_all
  show ?thesis
    using il.pop_first [OF R] get_work_node_Cons [OF R] Cons
    by (auto intro!: exI [of _ "s\<lparr>lks := list_del x (lks s)\<rparr>"] simp: work_once_def)
qed

theorem work_once_runs_first_witness:
  "\<exists>s1. rep (lks s1) (r_detach 2 two_node_rings) \<and> r_detach 2 two_node_rings 10 = Some [3] \<and>
     work_once release_build (\<lambda>fn p s. emit (Check_hook fn) s) demo_wq = Inr (emit (Check_hook (Code Resume_cb)) s1, 1)"
  using work_once_runs_first [of demo_wq two_node_rings "[2, 3]" release_build "\<lambda>fn p s. emit (Check_hook fn) s"] rep_two_nodes
  by (auto simp: demo_wq_def release_build_def ring_simps)

end
