(* ===== verification/Timer.thy ===== *)
theory Timer
  imports Workqueue "HOL-Library.Tree"
begin

text \<open>
  The timer queue of \<^verbatim>\<open>sync/timer.hpp\<close>: an intrusive pairing heap of \<open>Timer_worknode\<close>s ordered by
  \<open>expire\<close>.

  The heap is modelled at the level of the source's pointers (\<open>child\<close>, \<open>sibling\<close>, \<open>parent\<close>), with
  the recursion of \<open>two_pass_merge\<close> and the loops of \<open>cancel\<close> and \<open>tim_chk_cb\<close> as partial functions
  (a damaged heap may be walked forever). The abstraction is the binary tree of the child and
  sibling links. Times are nanoseconds of the steady clock.
\<close>

section \<open>Data\<close>

record heap_links =
  child :: "addr \<Rightarrow> addr option"
  sibling :: "addr \<Rightarrow> addr option"
  parent :: "addr \<Rightarrow> addr option"

definition set_child :: "addr \<Rightarrow> addr option \<Rightarrow> heap_links \<Rightarrow> heap_links" where
  "set_child a v h = h\<lparr>child := (child h)(a := v)\<rparr>"

definition set_sibling :: "addr \<Rightarrow> addr option \<Rightarrow> heap_links \<Rightarrow> heap_links" where
  "set_sibling a v h = h\<lparr>sibling := (sibling h)(a := v)\<rparr>"

definition set_parent :: "addr \<Rightarrow> addr option \<Rightarrow> heap_links \<Rightarrow> heap_links" where
  "set_parent a v h = h\<lparr>parent := (parent h)(a := v)\<rparr>"

lemmas heap_defs = set_child_def set_sibling_def set_parent_def

text \<open>\<open>tq_self\<close> is the address of the queue itself, which is a work node of the executor.\<close>

record timer = wq +
  expire :: "addr \<Rightarrow> int"
  hp :: heap_links
  owner_queue :: "addr \<Rightarrow> addr option"
  heap_root :: "addr option"
  tq_self :: addr

section \<open>The heap operations\<close>

fun heap_meld ::
  "(addr \<Rightarrow> int) \<Rightarrow> addr option \<Rightarrow> addr option \<Rightarrow> heap_links \<Rightarrow> addr option \<times> heap_links" where
  "heap_meld e None b h = (b, h)"
| "heap_meld e (Some x) None h = (Some x, h)"
| "heap_meld e (Some x) (Some y) h =
     (if e x \<le> e y
      then (Some x, set_parent y (Some x) (set_child x (Some y) (set_sibling y (child h x) h)))
      else (Some y, set_parent x (Some y) (set_child y (Some x) (set_sibling x (child h y) h))))"

text \<open>
  The last line of the source melds the results of two calls; C++ leaves open which of the two
  argument calls runs first, so the order is the parameter \<open>ltr\<close> (left to right).
\<close>

partial_function (option) two_pass_merge ::
  "bool \<Rightarrow> (addr \<Rightarrow> int) \<Rightarrow> addr option \<Rightarrow> heap_links \<Rightarrow> (addr option \<times> heap_links) option" where
  "two_pass_merge ltr e nd h =
     (case nd of None \<Rightarrow> Some (nd, h)
      | Some a \<Rightarrow> (case sibling h a of None \<Rightarrow> Some (nd, h)
        | Some b \<Rightarrow>
            (let rest = sibling h b;
                 h1 = set_parent b None (set_parent a None (set_sibling b None (set_sibling a None h)))
             in if ltr
                then (case heap_meld e (Some a) (Some b) h1 of (r1, h2) \<Rightarrow>
                       Option.bind (two_pass_merge ltr e rest h2)
                         (\<lambda>(r2, h3). Some (heap_meld e r1 r2 h3)))
                else Option.bind (two_pass_merge ltr e rest h1)
                       (\<lambda>(r2, h2). case heap_meld e (Some a) (Some b) h2 of (r1, h3) \<Rightarrow>
                          Some (heap_meld e r1 r2 h3)))))"

definition root_parent_null :: "addr option \<Rightarrow> heap_links \<Rightarrow> heap_links" where
  "root_parent_null r h = (case r of None \<Rightarrow> h | Some a \<Rightarrow> set_parent a None h)"

definition delete_min ::
  "bool \<Rightarrow> (addr \<Rightarrow> int) \<Rightarrow> addr \<Rightarrow> heap_links \<Rightarrow> (addr option \<times> heap_links) option" where
  "delete_min ltr e root h =
     Option.bind (two_pass_merge ltr e (child h root) h) (\<lambda>(nr, h'). Some (nr, root_parent_null nr h'))"

definition clear_links :: "addr \<Rightarrow> heap_links \<Rightarrow> heap_links" where
  "clear_links a h = set_parent a None (set_sibling a None (set_child a None h))"

text \<open>The loop of \<open>cancel\<close> that takes a node out of the child list of its parent.\<close>

partial_function (option) unlink_child ::
  "addr \<Rightarrow> addr \<Rightarrow> addr option \<Rightarrow> addr option \<Rightarrow> heap_links \<Rightarrow> heap_links option" where
  "unlink_child nd par prev cur h =
     (case cur of None \<Rightarrow> Some h
      | Some c \<Rightarrow>
          if c = nd
          then Some (case prev of Some p \<Rightarrow> set_sibling p (sibling h c) h | None \<Rightarrow> set_child par (sibling h c) h)
          else unlink_child nd par (Some c) (sibling h c) h)"

section \<open>The timer queue\<close>

definition Timer_check_queue_init :: "'a timer_scheme \<Rightarrow> 'a timer_scheme" where
  "Timer_check_queue_init s =
     s\<lparr>lks := INIT_LIST_HEAD (tq_self s) (lks s), heap_root := None,
       func := (func s)(tq_self s := Code Tim_chk_cb)\<rparr>"

definition post_delayed_work :: "int \<Rightarrow> addr \<Rightarrow> 32 word \<Rightarrow> 'a timer_scheme \<Rightarrow> 'a timer_scheme" where
  "post_delayed_work now dwork ms s =
     (let s1 = s\<lparr>expire := (expire s)(dwork := now + 1000000 * uint ms),
                 hp := clear_links dwork (hp s),
                 owner_queue := (owner_queue s)(dwork \<mapsto> tq_self s)\<rparr>
      in case heap_meld (expire s1) (heap_root s1) (Some dwork) (hp s1) of (r, h) \<Rightarrow>
           s1\<lparr>heap_root := r, hp := root_parent_null r h\<rparr>)"

definition tick_update :: "'a timer_scheme \<Rightarrow> 'a timer_scheme" where
  "tick_update s = (if heap_root s = None then s else wq_post (tq_self s) s)"

text \<open>
  The loop of \<open>tim_chk_cb\<close>: the state and whether a node was handed to the executor. A popped node
  without function is only reported on stderr.
\<close>

partial_function (option) tim_chk_loop ::
  "bool \<Rightarrow> int \<Rightarrow> 'a timer_scheme \<Rightarrow> bool \<Rightarrow> ('a timer_scheme \<times> bool) option" where
  "tim_chk_loop ltr now s trig_flg =
     (case heap_root s of
        None \<Rightarrow> Some (s, trig_flg)
      | Some dpos \<Rightarrow>
          if expire s dpos \<le> now
          then Option.bind (delete_min ltr (expire s) dpos (hp s)) (\<lambda>(nr, h).
             let s1 = s\<lparr>heap_root := nr, hp := clear_links dpos h, owner_queue := (owner_queue s)(dpos := None)\<rparr>
             in if func s1 dpos = Null then tim_chk_loop ltr now s1 trig_flg
                else tim_chk_loop ltr now (enqueue dpos s1) True)
          else Some (s, trig_flg))"

definition tim_chk_cb :: "bool \<Rightarrow> int \<Rightarrow> 'a timer_scheme \<Rightarrow> 'a timer_scheme option" where
  "tim_chk_cb ltr now s =
     Option.bind (tim_chk_loop ltr now s False)
       (\<lambda>(s', trig_flg). Some (if trig_flg then trig_once s' else s'))"

definition cancel :: "bool \<Rightarrow> addr option \<Rightarrow> 'a timer_scheme \<Rightarrow> 'a timer_scheme option" where
  "cancel ltr nodep s =
     (case nodep of None \<Rightarrow> Some s
      | Some nd \<Rightarrow>
          if owner_queue s nd \<noteq> Some (tq_self s) then Some s
          else
            Option.bind
              (if heap_root s = Some nd
               then delete_min ltr (expire s) nd (hp s)
               else
                 Option.bind
                   (case parent (hp s) nd of
                      None \<Rightarrow> Some (hp s)
                    | Some par \<Rightarrow> unlink_child nd par None (child (hp s) par) (hp s))
                   (\<lambda>h1. if child h1 nd \<noteq> None
                          then Option.bind (two_pass_merge ltr (expire s) (child h1 nd) h1) (\<lambda>(merged, h2).
                            case heap_meld (expire s) (heap_root s) merged (root_parent_null merged h2) of (r, h3) \<Rightarrow>
                              Some (r, root_parent_null r h3))
                          else Some (heap_root s, h1)))
              (\<lambda>(r, h). Some (s\<lparr>heap_root := r, hp := clear_links nd h,
                               owner_queue := (owner_queue s)(nd := None)\<rparr>)))"

text \<open>\<open>~Timer_worknode\<close>: a node that still belongs to a queue is cancelled there.\<close>

definition Timer_worknode_dtor :: "bool \<Rightarrow> addr \<Rightarrow> 'a timer_scheme \<Rightarrow> 'a timer_scheme option" where
  "Timer_worknode_dtor ltr nd s = (if owner_queue s nd = Some (tq_self s) then cancel ltr (Some nd) s else Some s)"

text \<open>
  \<open>DelayAwaiter::await_suspend\<close>; \<open>timer_callback\<close> resumes the stored coroutine handle if it is set.
\<close>

definition DelayAwaiter_await_suspend :: "int \<Rightarrow> addr \<Rightarrow> 32 word \<Rightarrow> 'a timer_scheme \<Rightarrow> 'a timer_scheme" where
  "DelayAwaiter_await_suspend now nd wait_ms s =
     post_delayed_work now nd wait_ms
       (s\<lparr>lks := INIT_LIST_HEAD nd (lks s), func := (func s)(nd := Code Delay_timer_cb)\<rparr>)"

section \<open>The abstraction: child-sibling trees\<close>

fun hrep :: "heap_links \<Rightarrow> addr option \<Rightarrow> addr option \<Rightarrow> addr tree \<Rightarrow> bool" where
  "hrep h q p Leaf \<longleftrightarrow> p = None"
| "hrep h q p (Node l a r) \<longleftrightarrow>
     p = Some a \<and> parent h a = q \<and> hrep h (Some a) (child h a) l \<and> hrep h q (sibling h a) r"

text \<open>A heap by its root, whatever the parent field of the root holds.\<close>

fun hroot :: "heap_links \<Rightarrow> addr option \<Rightarrow> addr tree \<Rightarrow> bool" where
  "hroot h p Leaf \<longleftrightarrow> p = None"
| "hroot h p (Node l a r) \<longleftrightarrow> p = Some a \<and> r = Leaf \<and> sibling h a = None \<and> hrep h (Some a) (child h a) l"

definition agree :: "addr set \<Rightarrow> heap_links \<Rightarrow> heap_links \<Rightarrow> bool" where
  "agree A h h' \<longleftrightarrow> (\<forall>a\<in>A. child h' a = child h a \<and> sibling h' a = sibling h a \<and> parent h' a = parent h a)"

lemma agree_refl [simp]: "agree A h h"
  by (simp add: agree_def)

lemma agree_trans: "agree A h h' \<Longrightarrow> agree A h' h'' \<Longrightarrow> agree A h h''"
  by (simp add: agree_def)

lemma agree_mono: "agree A h h' \<Longrightarrow> B \<subseteq> A \<Longrightarrow> agree B h h'"
  by (auto simp: agree_def)

lemma hrep_agree: "agree (set_tree t) h h' \<Longrightarrow> hrep h q p t \<Longrightarrow> hrep h' q p t"
proof (induction t arbitrary: q p)
  case (Node l a r)
  then have "agree (set_tree l) h h'" "agree (set_tree r) h h'" by (auto simp: agree_def)
  with Node show ?case by (auto simp: agree_def)
qed simp

lemma hroot_agree: "agree (set_tree t) h h' \<Longrightarrow> hroot h p t \<Longrightarrow> hroot h' p t"
  by (cases t) (auto simp: agree_def intro: hrep_agree [unfolded agree_def])

lemma hrep_unique: "hrep h q p t \<Longrightarrow> hrep h q' p t' \<Longrightarrow> t = t'"
proof (induction t arbitrary: q q' p t')
  case Leaf
  then show ?case by (cases t') auto
next
  case (Node l a r)
  then show ?case by (cases t') auto
qed

subsection \<open>The operations on trees\<close>

fun meld :: "(addr \<Rightarrow> int) \<Rightarrow> addr tree \<Rightarrow> addr tree \<Rightarrow> addr tree" where
  "meld e Leaf t = t"
| "meld e (Node l a r) Leaf = Node l a r"
| "meld e (Node l a r) (Node l' b r') =
     (if e a \<le> e b then Node (Node l' b l) a Leaf else Node (Node l a l') b Leaf)"

fun merge_pairs :: "(addr \<Rightarrow> int) \<Rightarrow> addr tree \<Rightarrow> addr tree" where
  "merge_pairs e (Node l a (Node l' b r)) = meld e (meld e (Node l a Leaf) (Node l' b Leaf)) (merge_pairs e r)"
| "merge_pairs e t = t"

fun pheap :: "(addr \<Rightarrow> int) \<Rightarrow> addr tree \<Rightarrow> bool" where
  "pheap e Leaf \<longleftrightarrow> True"
| "pheap e (Node l a r) \<longleftrightarrow> (\<forall>y\<in>set_tree l. e a \<le> e y) \<and> pheap e l \<and> pheap e r"

fun is_root :: "addr tree \<Rightarrow> bool" where
  "is_root Leaf \<longleftrightarrow> True"
| "is_root (Node l a r) \<longleftrightarrow> r = Leaf"

definition dtree :: "addr tree \<Rightarrow> bool" where
  "dtree t \<longleftrightarrow> distinct (inorder t)"

lemma dtree_simps [simp]:
  "dtree Leaf"
  "dtree (Node l a r) \<longleftrightarrow> dtree l \<and> dtree r \<and> a \<notin> set_tree l \<and> a \<notin> set_tree r \<and> set_tree l \<inter> set_tree r = {}"
  by (auto simp: dtree_def)

lemma set_meld: "is_root s \<Longrightarrow> is_root t \<Longrightarrow> set_tree (meld e s t) = set_tree s \<union> set_tree t"
  by (induction e s t rule: meld.induct) auto

lemma is_root_meld: "is_root s \<Longrightarrow> is_root t \<Longrightarrow> is_root (meld e s t)"
  by (induction e s t rule: meld.induct) auto

lemma dtree_meld:
  "is_root s \<Longrightarrow> is_root t \<Longrightarrow> dtree s \<Longrightarrow> dtree t \<Longrightarrow> set_tree s \<inter> set_tree t = {} \<Longrightarrow> dtree (meld e s t)"
  by (induction e s t rule: meld.induct) auto

lemma pheap_meld: "is_root s \<Longrightarrow> is_root t \<Longrightarrow> pheap e s \<Longrightarrow> pheap e t \<Longrightarrow> pheap e (meld e s t)"
proof (induction e s t rule: meld.induct)
  case (3 e l a r l' b r')
  then show ?case by (auto dest: order_trans)
qed auto

lemma merge_pairs_root: "is_root (merge_pairs e t)"
  by (induction e t rule: merge_pairs.induct) (auto intro!: is_root_meld)

lemma set_merge_pairs: "set_tree (merge_pairs e t) = set_tree t"
proof (induction e t rule: merge_pairs.induct)
  case (1 e l a l' b r)
  then show ?case by (subst merge_pairs.simps) (auto simp: set_meld is_root_meld merge_pairs_root simp del: meld.simps)
qed auto

lemma dtree_merge_pairs: "dtree t \<Longrightarrow> dtree (merge_pairs e t)"
proof (induction e t rule: merge_pairs.induct)
  case (1 e l a l' b r)
  then show ?case
    by (subst merge_pairs.simps)
       (auto simp: set_meld is_root_meld merge_pairs_root set_merge_pairs simp del: meld.simps intro!: dtree_meld)
qed auto

lemma pheap_merge_pairs: "pheap e t \<Longrightarrow> pheap e (merge_pairs e t)"
proof (induction e t rule: merge_pairs.induct)
  case (1 e l a l' b r)
  then show ?case
    by (subst merge_pairs.simps)
       (auto simp: is_root_meld merge_pairs_root simp del: meld.simps intro!: pheap_meld)
qed auto

subsection \<open>The pointer operations refine them\<close>

lemma hroot_is_root: "hroot h p t \<Longrightarrow> is_root t"
  by (cases t) auto

lemma heap_meld_refines:
  assumes "hroot h p s" and "hroot h q t" and "dtree s" and "dtree t" and "set_tree s \<inter> set_tree t = {}"
    and "heap_meld e p q h = (r, h')"
  shows "hroot h' r (meld e s t) \<and> agree (- (set_tree s \<union> set_tree t)) h h'"
proof (cases s)
  case Leaf
  then show ?thesis using assms by auto
next
  case s: (Node l a x)
  show ?thesis
  proof (cases t)
    case Leaf
    then show ?thesis using assms s by auto
  next
    case t: (Node l' b y)
    have ab: "a \<noteq> b" using assms s t by auto
    have k: "hrep h (Some a) (child h a) l" "hrep h (Some b) (child h b) l'" "p = Some a" "q = Some b"
      "sibling h a = None" "sibling h b = None" "x = Leaf" "y = Leaf" using assms s t by auto
    have "agree (set_tree l \<union> set_tree l') h h'"
      using assms s t k by (auto simp: agree_def heap_defs split: if_splits)
    then have "hrep h' (Some a) (child h a) l" "hrep h' (Some b) (child h b) l'"
      using k hrep_agree agree_mono by (metis Un_upper1 Un_upper2)+
    then show ?thesis using assms(6) k s t ab
      by (auto simp: agree_def heap_defs split: if_splits)
  qed
qed


text \<open>
  The two evaluation orders of the last line of \<open>two_pass_merge\<close>: \<open>f\<close> stands for the recursive
  call on the rest of the list, which is represented by \<open>r\<close> and gives the heap \<open>R\<close>.
\<close>

lemma meld_pair_then_rest:
  assumes ra: "hroot h (Some a) A" and rb: "hroot h (Some b) B" and d: "dtree A" "dtree B" "set_tree A \<inter> set_tree B = {}"
    and r: "hrep h q pr r" "(set_tree A \<union> set_tree B) \<inter> set_tree r = {}" and R: "set_tree R = set_tree r" "dtree R"
    and f: "\<And>h. hrep h q pr r \<Longrightarrow> \<exists>r2 h'. f pr h = Some (r2, h') \<and> hroot h' r2 R \<and> agree (- set_tree r) h h'"
  shows "\<exists>r3 h4. (case heap_meld e (Some a) (Some b) h of (r1, h2) \<Rightarrow>
      Option.bind (f pr h2) (\<lambda>(r2, h3). Some (heap_meld e r1 r2 h3))) = Some (r3, h4) \<and>
    hroot h4 r3 (meld e (meld e A B) R) \<and> agree (- (set_tree A \<union> set_tree B \<union> set_tree r)) h h4"
proof -
  let ?M = "meld e A B"
  have M: "set_tree ?M = set_tree A \<union> set_tree B" "dtree ?M"
    using hroot_is_root [OF ra] hroot_is_root [OF rb] d by (simp_all add: set_meld dtree_meld)
  obtain r1 h2 where m1: "heap_meld e (Some a) (Some b) h = (r1, h2)" by fastforce
  from heap_meld_refines [OF ra rb d m1]
  have r1: "hroot h2 r1 ?M" and off2: "agree (- (set_tree A \<union> set_tree B)) h h2" by auto
  have "hrep h2 q pr r" using r off2 by (auto intro!: hrep_agree [of _ h] elim!: agree_mono)
  then obtain r2 h3 where m2: "f pr h2 = Some (r2, h3)" and r2: "hroot h3 r2 R" and off3: "agree (- set_tree r) h2 h3"
    using f by blast
  have r1': "hroot h3 r1 ?M" using r1 off3 M r(2) by (auto intro!: hroot_agree [of _ h2] elim!: agree_mono)
  obtain r3 h4 where m3: "heap_meld e r1 r2 h3 = (r3, h4)" by fastforce
  have "hroot h4 r3 (meld e ?M R) \<and> agree (- (set_tree ?M \<union> set_tree R)) h3 h4"
    using heap_meld_refines [OF r1' r2 M(2) R(2) _ m3] M R r(2) by simp
  with m1 m2 m3 off2 off3 M R show ?thesis by (auto simp: agree_def)
qed

lemma meld_rest_then_pair:
  assumes ra: "hroot h (Some a) A" and rb: "hroot h (Some b) B" and d: "dtree A" "dtree B" "set_tree A \<inter> set_tree B = {}"
    and r: "hrep h q pr r" "(set_tree A \<union> set_tree B) \<inter> set_tree r = {}" and R: "set_tree R = set_tree r" "dtree R"
    and f: "\<And>h. hrep h q pr r \<Longrightarrow> \<exists>r2 h'. f pr h = Some (r2, h') \<and> hroot h' r2 R \<and> agree (- set_tree r) h h'"
  shows "\<exists>r3 h4. Option.bind (f pr h) (\<lambda>(r2, h2). case heap_meld e (Some a) (Some b) h2 of (r1, h3) \<Rightarrow>
      Some (heap_meld e r1 r2 h3)) = Some (r3, h4) \<and>
    hroot h4 r3 (meld e (meld e A B) R) \<and> agree (- (set_tree A \<union> set_tree B \<union> set_tree r)) h h4"
proof -
  let ?M = "meld e A B"
  have M: "set_tree ?M = set_tree A \<union> set_tree B" "dtree ?M"
    using hroot_is_root [OF ra] hroot_is_root [OF rb] d by (simp_all add: set_meld dtree_meld)
  obtain r2 h2 where m2: "f pr h = Some (r2, h2)" and r2: "hroot h2 r2 R" and off2: "agree (- set_tree r) h h2"
    using f [OF r(1)] by blast
  have "hroot h2 (Some a) A" "hroot h2 (Some b) B"
    using ra rb off2 r(2) by (auto intro!: hroot_agree [of _ h] elim!: agree_mono)
  moreover obtain r1 h3 where m1: "heap_meld e (Some a) (Some b) h2 = (r1, h3)" by fastforce
  ultimately have r1: "hroot h3 r1 ?M" and off3: "agree (- (set_tree A \<union> set_tree B)) h2 h3"
    using heap_meld_refines [OF _ _ d m1] by auto
  have r2': "hroot h3 r2 R" using r2 off3 r(2) R by (auto intro!: hroot_agree [of _ h2] elim!: agree_mono)
  obtain r3 h4 where m3: "heap_meld e r1 r2 h3 = (r3, h4)" by fastforce
  have "hroot h4 r3 (meld e ?M R) \<and> agree (- (set_tree ?M \<union> set_tree R)) h3 h4"
    using heap_meld_refines [OF r1 r2' M(2) R(2) _ m3] M R r(2) by simp
  with m1 m2 m3 off2 off3 M R show ?thesis by (auto simp: agree_def)
qed

lemma two_pass_merge_refines:
  assumes "hrep h q p t" and "dtree t"
  shows "\<exists>r h'. two_pass_merge ltr e p h = Some (r, h') \<and> hroot h' r (merge_pairs e t) \<and> agree (- set_tree t) h h'"
  using assms
proof (induction e t arbitrary: h q p rule: merge_pairs.induct)
  case (1 e l a l' b r)
  let ?A = "Node l a Leaf" and ?B = "Node l' b Leaf"
  have p: "p = Some a" "sibling h a = Some b" and ab: "a \<noteq> b" using "1.prems" by auto
  define h1 where "h1 = set_parent b None (set_parent a None (set_sibling b None (set_sibling a None h)))"
  have off1: "agree (- {a, b}) h h1" by (auto simp: agree_def h1_def heap_defs)
  have "hrep h1 (Some a) (child h a) l" "hrep h1 (Some b) (child h b) l'" "hrep h1 q (sibling h b) r"
    using "1.prems" off1 by (auto intro!: hrep_agree [of _ h] elim!: agree_mono)
  then have roots: "hroot h1 (Some a) ?A" "hroot h1 (Some b) ?B" "hrep h1 q (sibling h b) r"
    using ab by (auto simp: h1_def heap_defs)
  have d: "dtree ?A" "dtree ?B" "set_tree ?A \<inter> set_tree ?B = {}" "(set_tree ?A \<union> set_tree ?B) \<inter> set_tree r = {}" "dtree r"
    using "1.prems" by auto
  have f: "\<exists>r2 h'. two_pass_merge ltr e (sibling h b) g = Some (r2, h') \<and> hroot h' r2 (merge_pairs e r) \<and> agree (- set_tree r) g h'"
    if "hrep g q (sibling h b) r" for g using "1.IH" that d(5) by blast
  have unf: "two_pass_merge ltr e p h =
      (if ltr then case heap_meld e (Some a) (Some b) h1 of (r1, h2) \<Rightarrow>
          Option.bind (two_pass_merge ltr e (sibling h b) h2) (\<lambda>(r2, h3). Some (heap_meld e r1 r2 h3))
       else Option.bind (two_pass_merge ltr e (sibling h b) h1)
          (\<lambda>(r2, h2). case heap_meld e (Some a) (Some b) h2 of (r1, h3) \<Rightarrow> Some (heap_meld e r1 r2 h3)))"
    by (subst two_pass_merge.simps) (simp add: p Let_def h1_def del: heap_meld.simps)
  note rest = roots(1,2) d(1-3) roots(3) d(4) set_merge_pairs dtree_merge_pairs [OF d(5)] f
  have "\<exists>r3 h4. two_pass_merge ltr e p h = Some (r3, h4) \<and> hroot h4 r3 (meld e (meld e ?A ?B) (merge_pairs e r)) \<and>
      agree (- (set_tree ?A \<union> set_tree ?B \<union> set_tree r)) h1 h4"
    unfolding unf using meld_pair_then_rest [where f = "two_pass_merge ltr e" and e = e, OF rest]
      meld_rest_then_pair [where f = "two_pass_merge ltr e" and e = e, OF rest]
    by (cases ltr) (simp_all only: if_True if_False)
  then show ?case using off1 by (fastforce simp: agree_def)
qed (simp_all add: two_pass_merge.simps)


lemma agree_root_parent_null: "hroot h r t \<Longrightarrow> agree (- set_tree t) h (root_parent_null r h)"
  by (cases t) (auto simp: agree_def root_parent_null_def heap_defs)

lemma hroot_root_parent_null:
  "hroot h r t \<Longrightarrow> dtree t \<Longrightarrow> hrep (root_parent_null r h) None r t"
proof (cases t)
  case (Node l a s)
  assume a: "hroot h r t" "dtree t"
  with Node have "agree (set_tree l) h (root_parent_null r h)"
    by (auto simp: agree_def root_parent_null_def heap_defs)
  with a Node have "hrep (root_parent_null r h) (Some a) (child h a) l" using hrep_agree by auto
  with a Node show ?thesis by (simp add: root_parent_null_def heap_defs)
qed auto

lemma hrep_hroot: "is_root t \<Longrightarrow> hrep h q r t \<Longrightarrow> hroot h r t"
  by (cases t) auto

lemma delete_min_refines:
  assumes "hrep h q (child h a) l" and "dtree l"
  shows "\<exists>r h'. delete_min ltr e a h = Some (r, h') \<and> hrep h' None r (merge_pairs e l) \<and> agree (- set_tree l) h h'"
proof -
  obtain r h' where m: "two_pass_merge ltr e (child h a) h = Some (r, h')" "hroot h' r (merge_pairs e l)" "agree (- set_tree l) h h'"
    using two_pass_merge_refines [OF assms] by blast
  have "agree (- set_tree l) h' (root_parent_null r h')"
    using agree_root_parent_null [OF m(2)] by (simp add: set_merge_pairs)
  with m show ?thesis
    using hroot_root_parent_null [OF m(2) dtree_merge_pairs [OF assms(2)]] agree_trans
    by (auto simp: delete_min_def)
qed

subsection \<open>Removing an inner node\<close>

fun spine :: "addr tree \<Rightarrow> addr set" where
  "spine Leaf = {}"
| "spine (Node l a r) = insert a (spine r)"

text \<open>\<open>cut x t\<close>: the tree without \<open>x\<close> and its children; \<open>kids x t\<close>: the children of \<open>x\<close>.\<close>

fun cut :: "addr \<Rightarrow> addr tree \<Rightarrow> addr tree" where
  "cut x Leaf = Leaf"
| "cut x (Node l a r) = (if a = x then r else Node (cut x l) a (cut x r))"

fun kids :: "addr \<Rightarrow> addr tree \<Rightarrow> addr tree" where
  "kids x Leaf = Leaf"
| "kids x (Node l a r) = (if a = x then l else if x \<in> set_tree l then kids x l else kids x r)"

lemma spine_subset: "spine t \<subseteq> set_tree t"
  by (induction t) auto

lemma cut_idem [simp]: "x \<notin> set_tree t \<Longrightarrow> cut x t = t"
  by (induction t) auto

lemma kids_none [simp]: "x \<notin> set_tree t \<Longrightarrow> kids x t = Leaf"
  by (induction t) auto

lemma kids_subset: "set_tree (kids x t) \<subseteq> set_tree t"
  by (induction t) auto

lemma cut_kids_set:
  "dtree t \<Longrightarrow> x \<in> set_tree t \<Longrightarrow> set_tree (cut x t) = set_tree t - insert x (set_tree (kids x t)) \<and> x \<notin> set_tree (kids x t)"
proof (induction t)
  case (Node l a r)
  consider "a = x" | "a \<noteq> x" "x \<in> set_tree l" "x \<notin> set_tree r" | "a \<noteq> x" "x \<in> set_tree r" "x \<notin> set_tree l"
    using Node.prems by auto
  then show ?case
    using Node kids_subset [of x l] kids_subset [of x r] by cases auto
qed simp

lemma cut_subset: "set_tree (cut x t) \<subseteq> set_tree t"
  by (induction t) auto

lemma dtree_cut: "dtree t \<Longrightarrow> dtree (cut x t)"
proof (induction t)
  case (Node l a r)
  then show ?case using cut_subset [of x l] cut_subset [of x r] by auto
qed simp

lemma dtree_kids: "dtree t \<Longrightarrow> dtree (kids x t)"
  by (induction t) auto

lemma pheap_cut: "pheap e t \<Longrightarrow> pheap e (cut x t)"
proof (induction t)
  case (Node l a r)
  then show ?case using cut_subset [of x l] by auto
qed simp

lemma pheap_kids: "pheap e t \<Longrightarrow> pheap e (kids x t)"
  by (induction t) auto

lemma is_root_cut: "is_root t \<Longrightarrow> x \<notin> spine t \<Longrightarrow> is_root (cut x t)"
  by (cases t) auto

lemma hrep_kids: "hrep h q p t \<Longrightarrow> x \<in> set_tree t \<Longrightarrow> hrep h (Some x) (child h x) (kids x t)"
  by (induction t arbitrary: q p) auto

lemma kids_off_spine: "dtree t \<Longrightarrow> set_tree (kids x t) \<inter> spine t = {}"
proof (induction t)
  case (Node l a r)
  then show ?case using kids_subset [of x l] kids_subset [of x r] spine_subset [of r] by auto
qed simp

lemma unlink_child_after:
  assumes "hrep h (Some par) cur l" and "x \<in> spine l" and "dtree l" and "sibling h pr = cur" and "pr \<notin> set_tree l"
  shows "\<exists>h'. unlink_child x par (Some pr) cur h = Some h' \<and> hrep h' (Some par) (sibling h' pr) (cut x l) \<and>
    child h' = child h \<and> parent h' = parent h \<and> (\<forall>a. a \<notin> insert pr (spine l) \<longrightarrow> sibling h' a = sibling h a)"
  using assms
proof (induction l arbitrary: cur pr)
  case (Node k a r)
  show ?case
  proof (cases "a = x")
    case True
    let ?h = "set_sibling pr (sibling h x) h"
    have "agree (set_tree r) h ?h" using Node.prems by (auto simp: agree_def heap_defs)
    then have "hrep ?h (Some par) (sibling h x) r" using Node.prems True hrep_agree by auto
    then show ?thesis using Node.prems True by (auto simp: unlink_child.simps heap_defs)
  next
    case False
    then have "x \<in> spine r" using Node.prems by simp
    then obtain h' where h': "unlink_child x par (Some a) (sibling h a) h = Some h'"
      "hrep h' (Some par) (sibling h' a) (cut x r)" "child h' = child h" "parent h' = parent h"
      "\<forall>b. b \<notin> insert a (spine r) \<longrightarrow> sibling h' b = sibling h b"
      using Node.IH(2) [of "sibling h a" a] Node.prems by auto
    have "agree (set_tree k) h h'" using h' Node.prems spine_subset [of r] by (auto simp: agree_def)
    then have "hrep h' (Some a) (child h' a) k" using Node.prems h' hrep_agree by auto
    moreover have "x \<notin> set_tree k" using \<open>x \<in> spine r\<close> spine_subset [of r] Node.prems by auto
    moreover have "sibling h' pr = Some a" using h'(5) Node.prems spine_subset [of r] by auto
    moreover have "unlink_child x par (Some pr) cur h = Some h'"
      using False Node.prems h'(1) by (simp add: unlink_child.simps [of x par "Some pr"])
    ultimately show ?thesis using Node.prems h' False by (intro exI [of _ h']) auto
  qed
qed simp

lemma unlink_child_first:
  assumes "hrep h (Some par) (child h par) l" and "x \<in> spine l" and "dtree l" and "par \<notin> set_tree l"
  shows "\<exists>h'. unlink_child x par None (child h par) h = Some h' \<and> hrep h' (Some par) (child h' par) (cut x l) \<and>
    parent h' = parent h \<and> (\<forall>a. a \<noteq> par \<longrightarrow> child h' a = child h a) \<and> (\<forall>a. a \<notin> spine l \<longrightarrow> sibling h' a = sibling h a)"
proof (cases l)
  case Leaf
  then show ?thesis using assms by simp
next
  case (Node k a r)
  show ?thesis
  proof (cases "a = x")
    case True
    let ?h = "set_child par (sibling h x) h"
    have "agree (set_tree r) h ?h" using assms Node by (auto simp: agree_def heap_defs)
    then have "hrep ?h (Some par) (sibling h x) r" using assms Node True hrep_agree by auto
    then show ?thesis using assms Node True by (auto simp: unlink_child.simps heap_defs)
  next
    case False
    obtain h' where h': "unlink_child x par (Some a) (sibling h a) h = Some h'"
      "hrep h' (Some par) (sibling h' a) (cut x r)" "child h' = child h" "parent h' = parent h"
      "\<forall>b. b \<notin> insert a (spine r) \<longrightarrow> sibling h' b = sibling h b"
      using unlink_child_after [of h par "sibling h a" r x a] assms Node False by auto
    have "agree (set_tree k) h h'" using h' assms Node spine_subset [of r] by (auto simp: agree_def)
    then have "hrep h' (Some a) (child h' a) k" using assms Node h' hrep_agree by auto
    moreover have "x \<notin> set_tree k" using assms Node False spine_subset [of r] by auto
    moreover have "unlink_child x par None (child h par) h = Some h'"
      using False assms Node h'(1) by (simp add: unlink_child.simps [of x par None])
    ultimately show ?thesis using assms Node h' False by (intro exI [of _ h']) auto
  qed
qed


lemma unlink_child_refines:
  assumes "hrep h q p t" and "dtree t" and "x \<in> set_tree t" and "x \<notin> spine t"
  shows "\<exists>par h'. parent h x = Some par \<and> unlink_child x par None (child h par) h = Some h' \<and>
    hrep h' q p (cut x t) \<and> hrep h' (Some x) (child h' x) (kids x t) \<and> agree (- set_tree t) h h'"
  using assms
proof (induction t arbitrary: q p)
  case (Node l a r)
  consider "x \<in> spine l" | "x \<in> set_tree l" "x \<notin> spine l" | "x \<in> set_tree r" "x \<notin> spine r"
    using Node.prems by auto
  then show ?case
  proof cases
    case 1
    have xl: "x \<in> set_tree l" "x \<noteq> a" using 1 spine_subset [of l] Node.prems by auto
    have l: "hrep h (Some a) (child h a) l" "dtree l" "a \<notin> set_tree l" using Node.prems by auto
    obtain h' where h': "unlink_child x a None (child h a) h = Some h'" "hrep h' (Some a) (child h' a) (cut x l)"
      "parent h' = parent h" "\<forall>b. b \<noteq> a \<longrightarrow> child h' b = child h b" "\<forall>b. b \<notin> spine l \<longrightarrow> sibling h' b = sibling h b"
      using unlink_child_first [OF l(1) 1 l(2,3)] by blast
    have "agree (set_tree r) h h'" "agree (- set_tree (Node l a r)) h h'"
      using h' Node.prems spine_subset [of l] by (auto simp: agree_def)
    moreover have "agree (set_tree (kids x l)) h h'"
      using h' l(3) kids_subset [of x l] kids_off_spine [OF l(2), of x] by (auto simp: agree_def)
    then have "hrep h' (Some x) (child h' x) (kids x l)"
      using hrep_agree [OF _ hrep_kids [OF l(1) xl(1)]] h'(4) xl by auto
    moreover have "parent h x = Some a"
    proof -
      have "hrep h q' c k \<Longrightarrow> x \<in> spine k \<Longrightarrow> parent h x = q'" for q' c k by (induction k arbitrary: c) auto
      with l(1) 1 show ?thesis by blast
    qed
    moreover have "a \<notin> spine l" "x \<notin> set_tree r" using l(3) spine_subset [of l] xl Node.prems by auto
    ultimately show ?thesis
      using h' Node.prems xl by (intro exI [of _ a] exI [of _ h']) (auto intro: hrep_agree)
  next
    case 2
    obtain par h' where h': "parent h x = Some par" "unlink_child x par None (child h par) h = Some h'"
      "hrep h' (Some a) (child h a) (cut x l)" "hrep h' (Some x) (child h' x) (kids x l)" "agree (- set_tree l) h h'"
      using Node.IH(1) [of "Some a" "child h a"] Node.prems 2 by auto
    have "agree (set_tree r) h h'" "agree {a} h h'" "agree (- set_tree (Node l a r)) h h'"
      using h'(5) Node.prems by (auto simp: agree_def)
    moreover have "x \<notin> set_tree r" "x \<noteq> a" using 2 Node.prems by auto
    ultimately show ?thesis using h' Node.prems 2
      by (intro exI [of _ par] exI [of _ h']) (auto simp: agree_def intro: hrep_agree [unfolded agree_def])
  next
    case 3
    obtain par h' where h': "parent h x = Some par" "unlink_child x par None (child h par) h = Some h'"
      "hrep h' q (sibling h a) (cut x r)" "hrep h' (Some x) (child h' x) (kids x r)" "agree (- set_tree r) h h'"
      using Node.IH(2) [of q "sibling h a"] Node.prems 3 by auto
    have "agree (set_tree l) h h'" "agree {a} h h'" "agree (- set_tree (Node l a r)) h h'"
      using h'(5) Node.prems by (auto simp: agree_def)
    moreover have "x \<notin> set_tree l" "x \<noteq> a" using 3 Node.prems by auto
    ultimately show ?thesis using h' Node.prems 3
      by (intro exI [of _ par] exI [of _ h']) (auto simp: agree_def intro: hrep_agree [unfolded agree_def])
  qed
qed simp

section \<open>The invariant of the timer queue\<close>

definition theap :: "'a timer_scheme \<Rightarrow> addr tree \<Rightarrow> bool" where
  "theap s t \<longleftrightarrow> hrep (hp s) None (heap_root s) t \<and> is_root t \<and> dtree t \<and> pheap (expire s) t \<and>
     (\<forall>x. owner_queue s x = Some (tq_self s) \<longleftrightarrow> x \<in> set_tree t)"

text \<open>\<open>pending s S\<close>: the heap is well formed and ordered and holds exactly the nodes \<open>S\<close>, which are the nodes owned by the queue.\<close>

definition pending :: "'a timer_scheme \<Rightarrow> addr set \<Rightarrow> bool" where
  "pending s S \<longleftrightarrow> (\<exists>t. theap s t \<and> set_tree t = S)"

lemma pending_finite: "pending s S \<Longrightarrow> finite S"
  by (auto simp: pending_def)

lemma pending_root_None: "pending s S \<Longrightarrow> heap_root s = None \<longleftrightarrow> S = {}"
proof -
  assume "pending s S"
  then obtain t where "theap s t" "set_tree t = S" by (auto simp: pending_def)
  then show ?thesis by (cases t) (auto simp: theap_def)
qed

lemma pending_root_Some:
  assumes "pending s S" and "heap_root s = Some r"
  obtains l where "theap s (Node l r Leaf)" "S = insert r (set_tree l)" "r \<notin> set_tree l"
proof -
  obtain t where t: "theap s t" "set_tree t = S" using assms by (auto simp: pending_def)
  with assms(2) obtain l where "t = Node l r Leaf" by (cases t) (auto simp: theap_def)
  with t that show ?thesis by (auto simp: theap_def)
qed

lemma agree_clear_links: "a \<notin> A \<Longrightarrow> agree A h (clear_links a h)"
  by (auto simp: agree_def clear_links_def heap_defs)

lemma pop_refines:
  assumes "theap s (Node l a Leaf)"
  shows "\<exists>nr h. delete_min ltr (expire s) a (hp s) = Some (nr, h) \<and>
    theap (s\<lparr>heap_root := nr, hp := clear_links a h, owner_queue := (owner_queue s)(a := None)\<rparr>) (merge_pairs (expire s) l)"
proof -
  have l: "hrep (hp s) (Some a) (child (hp s) a) l" "dtree l" "a \<notin> set_tree l" "pheap (expire s) l"
    using assms by (auto simp: theap_def)
  obtain nr h where m: "delete_min ltr (expire s) a (hp s) = Some (nr, h)"
    "hrep h None nr (merge_pairs (expire s) l)" using delete_min_refines [OF l(1,2)] by blast
  have "hrep (clear_links a h) None nr (merge_pairs (expire s) l)"
    using hrep_agree [OF agree_clear_links m(2)] l(3) by (simp add: set_merge_pairs)
  with m l assms show ?thesis
    by (auto simp: theap_def merge_pairs_root dtree_merge_pairs pheap_merge_pairs set_merge_pairs)
qed

lemma cancel_root_pending:
  assumes "pending s S" and "heap_root s = Some x"
  shows "\<exists>s'. cancel ltr (Some x) s = Some s' \<and> pending s' (S - {x})"
proof -
  obtain l where l: "theap s (Node l x Leaf)" "S = insert x (set_tree l)" "x \<notin> set_tree l"
    using pending_root_Some [OF assms] .
  have "owner_queue s x = Some (tq_self s)" using l by (auto simp: theap_def)
  with pop_refines [OF l(1), of ltr] assms(2) l(2,3) show ?thesis
    by (fastforce simp: cancel_def pending_def set_merge_pairs)
qed

text \<open>The second half of \<open>cancel\<close>: the children of the removed node are melded back into the heap.\<close>

definition merge_back ::
  "bool \<Rightarrow> (addr \<Rightarrow> int) \<Rightarrow> addr option \<Rightarrow> addr \<Rightarrow> heap_links \<Rightarrow> (addr option \<times> heap_links) option" where
  "merge_back ltr e root x h1 =
     (if child h1 x \<noteq> None
      then Option.bind (two_pass_merge ltr e (child h1 x) h1) (\<lambda>(merged, h2).
        case heap_meld e root merged (root_parent_null merged h2) of (r, h3) \<Rightarrow> Some (r, root_parent_null r h3))
      else Some (root, h1))"

lemma meld_Leaf [simp]: "meld e t Leaf = t"
  by (cases t) auto

lemma merge_back_refines:
  assumes C: "hrep h1 None root C" "is_root C" "dtree C" and K: "hrep h1 (Some x) (child h1 x) K" "dtree K"
    and dj: "set_tree C \<inter> set_tree K = {}"
  shows "\<exists>r h'. merge_back ltr e root x h1 = Some (r, h') \<and> hrep h' None r (meld e C (merge_pairs e K))"
proof (cases K)
  case Leaf
  then show ?thesis using C K by (auto simp: merge_back_def)
next
  case (Node l a r0)
  let ?P = "merge_pairs e K"
  obtain m h2 where h2: "two_pass_merge ltr e (child h1 x) h1 = Some (m, h2)" "hroot h2 m ?P" "agree (- set_tree K) h1 h2"
    using two_pass_merge_refines [OF K] by blast
  have d: "dtree ?P" "set_tree C \<inter> set_tree ?P = {}" using K dj by (simp_all add: dtree_merge_pairs set_merge_pairs)
  let ?h3 = "root_parent_null m h2"
  have P: "hrep ?h3 None m ?P" using hroot_root_parent_null [OF h2(2) d(1)] .
  have "agree (- set_tree K) h1 ?h3"
    using agree_trans [OF h2(3)] agree_root_parent_null [OF h2(2)] by (simp add: set_merge_pairs)
  then have C3: "hrep ?h3 None root C" using C(1) dj by (blast intro: hrep_agree agree_mono)
  obtain r h4 where h4: "heap_meld e root m ?h3 = (r, h4)" by fastforce
  have "hrep (root_parent_null r h4) None r (meld e C ?P)"
    using heap_meld_refines [OF hrep_hroot [OF C(2) C3] hrep_hroot [OF merge_pairs_root P] C(3) d h4]
      hroot_root_parent_null dtree_meld [OF C(2) merge_pairs_root C(3) d] by blast
  with h2 h4 Node K show ?thesis by (auto simp: merge_back_def)
qed

lemma cancel_inner_eq:
  assumes "owner_queue s x = Some (tq_self s)" and "heap_root s \<noteq> Some x" and "parent (hp s) x = Some par"
    and "unlink_child x par None (child (hp s) par) (hp s) = Some h1"
    and "merge_back ltr (expire s) (heap_root s) x h1 = Some (r, h')"
  shows "cancel ltr (Some x) s
    = Some (s\<lparr>heap_root := r, hp := clear_links x h', owner_queue := (owner_queue s)(x := None)\<rparr>)"
  using assms by (simp add: cancel_def merge_back_def)

lemma cancel_inner_pending:
  assumes "theap s t" and "x \<in> set_tree t" and "heap_root s \<noteq> Some x"
  shows "\<exists>s'. cancel ltr (Some x) s = Some s' \<and> pending s' (set_tree t - {x})"
proof -
  let ?e = "expire s" and ?C = "cut x t" and ?K = "kids x t"
  let ?M = "meld ?e ?C (merge_pairs ?e ?K)"
  have t: "hrep (hp s) None (heap_root s) t" "is_root t" "dtree t" "pheap ?e t" "owner_queue s x = Some (tq_self s)"
    using assms by (auto simp: theap_def)
  have ns: "x \<notin> spine t" using assms t by (cases t) auto
  obtain par h1 where h1: "parent (hp s) x = Some par" "unlink_child x par None (child (hp s) par) (hp s) = Some h1"
    "hrep h1 None (heap_root s) ?C" "hrep h1 (Some x) (child h1 x) ?K"
    using unlink_child_refines [OF t(1,3) assms(2) ns] by blast
  have ck: "set_tree ?C = set_tree t - insert x (set_tree ?K)" "x \<notin> set_tree ?K" "set_tree ?K \<subseteq> set_tree t"
    using cut_kids_set [OF t(3) assms(2)] kids_subset by auto
  have C: "is_root ?C" "dtree ?C" "dtree ?K" "set_tree ?C \<inter> set_tree ?K = {}"
    using t ns ck by (auto simp: is_root_cut dtree_cut dtree_kids)
  obtain r h' where m: "merge_back ltr ?e (heap_root s) x h1 = Some (r, h')" "hrep h' None r ?M"
    using merge_back_refines [OF h1(3) C(1,2) h1(4) C(3,4)] by blast
  let ?s = "s\<lparr>heap_root := r, hp := clear_links x h', owner_queue := (owner_queue s)(x := None)\<rparr>"
  have sM: "set_tree ?M = set_tree t - {x}" using C ck by (auto simp: set_meld merge_pairs_root set_merge_pairs)
  have "hrep (clear_links x h') None r ?M" using hrep_agree [OF agree_clear_links m(2)] sM by blast
  moreover have "is_root ?M" "dtree ?M" "pheap ?e ?M"
    using C t by (simp_all add: is_root_meld merge_pairs_root dtree_meld dtree_merge_pairs set_merge_pairs
        pheap_meld pheap_cut pheap_kids pheap_merge_pairs)
  ultimately have "theap ?s ?M" using assms(1) sM by (auto simp: theap_def)
  then show ?thesis using cancel_inner_eq [OF t(5) assms(3) h1(1,2) m(1)] sM by (auto simp: pending_def)
qed

lemma cancel_pending:
  assumes "pending s S"
  shows "\<exists>s'. cancel ltr (Some x) s = Some s' \<and> pending s' (S - {x})"
proof (cases "x \<in> S")
  case True
  obtain t where "theap s t" "set_tree t = S" using assms by (auto simp: pending_def)
  with True cancel_root_pending [OF assms, of x ltr] cancel_inner_pending [of s t x ltr] show ?thesis by blast
next
  case False
  then have "owner_queue s x \<noteq> Some (tq_self s)" using assms by (auto simp: pending_def theap_def)
  with False assms show ?thesis by (simp add: cancel_def)
qed


lemma cancel_frame:
  "cancel ltr nd s = Some s' \<Longrightarrow> lks s' = lks s \<and> func s' = func s \<and> ws_head s' = ws_head s \<and> trig s' = trig s \<and>
    log s' = log s \<and> expire s' = expire s \<and> tq_self s' = tq_self s \<and> timer.more s' = timer.more s"
  by (auto simp: cancel_def split: option.splits if_splits Option.bind_splits)

lemma hrep_upd_expire: "pheap e t \<Longrightarrow> x \<notin> set_tree t \<Longrightarrow> pheap (e(x := v)) t"
  by (induction t) auto

lemma post_delayed_work_pending:
  assumes "pending s S" and "x \<notin> S"
  shows "pending (post_delayed_work now x ms s) (insert x S)"
proof -
  obtain t where t: "theap s t" "set_tree t = S" using assms by (auto simp: pending_def)
  let ?e = "(expire s)(x := now + 1000000 * uint ms)" and ?h = "clear_links x (hp s)" and ?N = "Node Leaf x Leaf"
  have "hrep ?h None (heap_root s) t" using t assms(2) by (auto simp: theap_def intro: hrep_agree agree_clear_links)
  then have r: "hroot ?h (heap_root s) t" using t by (auto simp: theap_def intro: hrep_hroot)
  have n: "hroot ?h (Some x) ?N" by (simp add: clear_links_def heap_defs)
  obtain r h where m: "heap_meld ?e (heap_root s) (Some x) ?h = (r, h)" by fastforce
  have d: "dtree t" "dtree ?N" "set_tree t \<inter> set_tree ?N = {}" "is_root t" "pheap ?e t" "pheap ?e ?N"
    using t assms(2) by (auto simp: theap_def hrep_upd_expire)
  let ?M = "meld ?e t ?N"
  have "hroot h r ?M" using heap_meld_refines [OF r n d(1-3) m] by blast
  moreover have M: "is_root ?M" "dtree ?M" "pheap ?e ?M" "set_tree ?M = insert x S"
    using d t(2) by (simp_all add: is_root_meld dtree_meld pheap_meld set_meld)
  ultimately have "hrep (root_parent_null r h) None r ?M" using hroot_root_parent_null by blast
  with M m t have "theap (post_delayed_work now x ms s) ?M"
    by (auto simp: theap_def post_delayed_work_def Let_def)
  with M show ?thesis by (auto simp: pending_def)
qed

lemma post_delayed_work_frame:
  "lks (post_delayed_work now x ms s) = lks s" "func (post_delayed_work now x ms s) = func s"
  "ws_head (post_delayed_work now x ms s) = ws_head s" "log (post_delayed_work now x ms s) = log s"
  "trig (post_delayed_work now x ms s) = trig s" "tq_self (post_delayed_work now x ms s) = tq_self s"
  "expire (post_delayed_work now x ms s) = (expire s)(x := now + 1000000 * uint ms)"
  "timer.more (post_delayed_work now x ms s) = timer.more s"
  by (simp_all add: post_delayed_work_def Let_def split: prod.splits)

section \<open>The priority queue interface\<close>

text \<open>
  What \<open>tim_chk_cb\<close> relies on: the root is a node with the earliest expiry, and popping it leaves the
  others. \<open>pops front pop n s\<close> is the sequence of the next \<open>n\<close> popped nodes.
\<close>

fun pops :: "('s \<Rightarrow> addr option) \<Rightarrow> ('s \<Rightarrow> 's option) \<Rightarrow> nat \<Rightarrow> 's \<Rightarrow> addr list option" where
  "pops front pop 0 s = Some []"
| "pops front pop (Suc n) s =
     (case front s of None \<Rightarrow> Some []
      | Some r \<Rightarrow> Option.bind (pop s) (\<lambda>s'. map_option (Cons r) (pops front pop n s')))"

locale deadline_queue =
  fixes holds :: "'s \<Rightarrow> addr set \<Rightarrow> bool"
    and front :: "'s \<Rightarrow> addr option"
    and key :: "'s \<Rightarrow> addr \<Rightarrow> int"
    and pop :: "'s \<Rightarrow> 's option"
  assumes front_None: "holds s S \<Longrightarrow> front s = None \<longleftrightarrow> S = {}"
    and front_Some: "holds s S \<Longrightarrow> front s = Some r \<Longrightarrow> r \<in> S \<and> (\<forall>y\<in>S. key s r \<le> key s y)"
    and pop: "holds s S \<Longrightarrow> front s = Some r \<Longrightarrow> \<exists>s'. pop s = Some s' \<and> holds s' (S - {r}) \<and> key s' = key s"
    and finite: "holds s S \<Longrightarrow> finite S"
begin

text \<open>If the root is not due, nothing is.\<close>

lemma nothing_due: "holds s S \<Longrightarrow> front s = Some r \<Longrightarrow> now < key s r \<Longrightarrow> y \<in> S \<Longrightarrow> now < key s y"
  using front_Some by fastforce

text \<open>Popping everything gives the nodes in the order of their expiry.\<close>

lemma pops_sorted:
  "holds s S \<Longrightarrow> card S = n \<Longrightarrow>
   \<exists>xs. pops front pop n s = Some xs \<and> set xs = S \<and> distinct xs \<and> sorted (map (key s) xs)"
proof (induction n arbitrary: s S)
  case 0
  then show ?case using finite by auto
next
  case (Suc n)
  then obtain r where r: "front s = Some r" using front_None by (cases "front s") auto
  obtain s' where s': "pop s = Some s'" "holds s' (S - {r})" "key s' = key s" using pop [OF Suc.prems(1) r] by blast
  have rS: "r \<in> S" "\<And>y. y \<in> S \<Longrightarrow> key s r \<le> key s y" using front_Some [OF Suc.prems(1) r] by auto
  then have "card (S - {r}) = n" using Suc.prems by simp
  then obtain xs where "pops front pop n s' = Some xs" "set xs = S - {r}" "distinct xs" "sorted (map (key s) xs)"
    using Suc.IH [OF s'(2)] s'(3) by auto
  with r s' rS show ?case by (intro exI [of _ "r # xs"]) auto
qed

end

text \<open>The pop of \<open>tim_chk_cb\<close>.\<close>

definition pop_root :: "bool \<Rightarrow> 'a timer_scheme \<Rightarrow> 'a timer_scheme option" where
  "pop_root ltr s = (case heap_root s of None \<Rightarrow> None | Some a \<Rightarrow>
     Option.bind (delete_min ltr (expire s) a (hp s)) (\<lambda>(nr, h).
       Some (s\<lparr>heap_root := nr, hp := clear_links a h, owner_queue := (owner_queue s)(a := None)\<rparr>)))"

lemma pop_root_pending:
  assumes "pending s S" and "heap_root s = Some r"
  shows "\<exists>s'. pop_root ltr s = Some s' \<and> pending s' (S - {r}) \<and> expire s' = expire s"
proof -
  obtain l where l: "theap s (Node l r Leaf)" "S = insert r (set_tree l)" "r \<notin> set_tree l"
    using pending_root_Some [OF assms] .
  from pop_refines [OF l(1), of ltr] assms(2) l(2,3) show ?thesis
    by (fastforce simp: pop_root_def pending_def set_merge_pairs)
qed

interpretation tq: deadline_queue pending heap_root expire "pop_root ltr" for ltr
proof unfold_locales
  fix s :: "'a timer_scheme" and S r
  assume p: "pending s S"
  show "finite S" using pending_finite [OF p] .
  show "heap_root s = None \<longleftrightarrow> S = {}" using pending_root_None [OF p] .
  assume r: "heap_root s = Some r"
  obtain l where "theap s (Node l r Leaf)" "S = insert r (set_tree l)" using pending_root_Some [OF p r] .
  then show "r \<in> S \<and> (\<forall>y\<in>S. expire s r \<le> expire s y)" by (simp add: theap_def)
  show "\<exists>s'. pop_root ltr s = Some s' \<and> pending s' (S - {r}) \<and> expire s' = expire s"
    using pop_root_pending [OF p r] .
qed

lemma pop_root_frame:
  "pop_root ltr s = Some s' \<Longrightarrow> lks s' = lks s \<and> func s' = func s \<and> ws_head s' = ws_head s \<and> trig s' = trig s \<and>
    log s' = log s \<and> tq_self s' = tq_self s \<and> expire s' = expire s"
  by (auto simp: pop_root_def split: option.splits Option.bind_splits)

lemma tim_chk_loop_step:
  "tim_chk_loop ltr now s flg =
     (case heap_root s of None \<Rightarrow> Some (s, flg)
      | Some a \<Rightarrow> if expire s a \<le> now
          then Option.bind (pop_root ltr s) (\<lambda>s1.
             if func s1 a = Null then tim_chk_loop ltr now s1 flg else tim_chk_loop ltr now (enqueue a s1) True)
          else Some (s, flg))"
  by (subst tim_chk_loop.simps) (auto simp: pop_root_def Let_def split: option.splits Option.bind_splits)

lemma pending_enqueue [simp]: "pending (enqueue a s) S \<longleftrightarrow> pending s S"
  by (simp add: pending_def theap_def enqueue_def)

lemma timer_enqueue_simps [simp]:
  "expire (enqueue a s) = expire s" "heap_root (enqueue a s) = heap_root s" "tq_self (enqueue a s) = tq_self s"
  by (simp_all add: enqueue_def)

lemma pending_trig_once [simp]: "pending (trig_once s) S \<longleftrightarrow> pending s S"
  by (simp add: pending_def theap_def trig_once_def emit_def)

lemma tim_chk_loop_fires:
  assumes "pending s S" and "card S = n" and "rep (lks s) R" and "R (ws_head s) = Some ys"
    and "\<And>x. x \<in> S \<Longrightarrow> R x = Some [] \<and> x \<noteq> ws_head s"
  shows "\<exists>s' R' fired. tim_chk_loop ltr now s flg = Some (s', flg \<or> filter (\<lambda>x. func s x \<noteq> Null) fired \<noteq> []) \<and>
    set fired = {x \<in> S. expire s x \<le> now} \<and> distinct fired \<and> sorted (map (expire s) fired) \<and>
    pending s' {x \<in> S. now < expire s x} \<and> rep (lks s') R' \<and> ws_head s' = ws_head s \<and>
    R' (ws_head s) = Some (ys @ filter (\<lambda>x. func s x \<noteq> Null) fired) \<and> func s' = func s \<and> trig s' = trig s \<and> log s' = log s"
  using assms
proof (induction n arbitrary: s S R ys flg)
  case 0
  then have "S = {}" "heap_root s = None"
    using pending_finite [OF 0(1)] pending_root_None [OF 0(1)] by auto
  with 0 show ?case by (subst tim_chk_loop_step) (auto intro!: exI [of _ "[]"] exI [of _ R])
next
  case (Suc n)
  then obtain r where r: "heap_root s = Some r"
    using pending_root_None [OF Suc.prems(1)] by (cases "heap_root s") auto
  show ?case
  proof (cases "expire s r \<le> now")
    case False
    then have "now < expire s y" if "y \<in> S" for y using tq.nothing_due [OF Suc.prems(1) r _ that] by simp
    then have "{x \<in> S. expire s x \<le> now} = {}" "{x \<in> S. now < expire s x} = S" by fastforce+
    with Suc.prems r False show ?thesis
      by (subst tim_chk_loop_step) (auto intro!: exI [of _ "[]"] exI [of _ R])
  next
    case True
    obtain s1 where s1: "pop_root ltr s = Some s1" "pending s1 (S - {r})" "expire s1 = expire s"
      using pop_root_pending [OF Suc.prems(1) r] by blast
    note fr = pop_root_frame [OF s1(1)]
    have rS: "r \<in> S" "\<And>y. y \<in> S \<Longrightarrow> expire s r \<le> expire s y" using tq.front_Some [OF Suc.prems(1) r] by auto
    have c: "card (S - {r}) = n" using Suc.prems(2) rS(1) by simp
    let ?live = "func s r \<noteq> Null"
    define s2 where "s2 = (if ?live then enqueue r s1 else s1)"
    define R2 where "R2 = (if ?live then r_append r (ws_head s) (r_detach r R) else R)"
    have loop: "tim_chk_loop ltr now s flg = tim_chk_loop ltr now s2 (flg \<or> ?live)"
      using r True s1(1) fr by (subst tim_chk_loop_step) (simp add: s2_def)
    have s2: "pending s2 (S - {r})" "expire s2 = expire s" "func s2 = func s" "ws_head s2 = ws_head s" "trig s2 = trig s" "log s2 = log s"
      using s1 fr by (simp_all add: s2_def)
    have "R r = Some []" "r \<noteq> ws_head s" using Suc.prems(5) rS(1) by auto
    moreover have "remove1 r ys = ys" using rep_detached_remove1 Suc.prems(3,4) calculation(1) by blast
    ultimately have R2: "rep (lks s2) R2" "R2 (ws_head s2) = Some (ys @ (if ?live then [r] else []))"
      using exec.add [of s1 R r] exec.add_queue [of R s ys r] Suc.prems(3,4) fr node_detached
      by (auto simp: s2_def R2_def)
    have "R2 x = Some [] \<and> x \<noteq> ws_head s2" if "x \<in> S - {r}" for x
      using that Suc.prems(5) [of x] s2(4) by (auto simp: R2_def ring_simps)
    from Suc.IH [OF s2(1) c R2 this, of "flg \<or> ?live"]
    obtain s' R' fired where IH: "tim_chk_loop ltr now s2 (flg \<or> ?live) = Some (s', (flg \<or> ?live) \<or> filter (\<lambda>x. func s x \<noteq> Null) fired \<noteq> [])"
      "set fired = {x \<in> S - {r}. expire s x \<le> now}" "distinct fired" "sorted (map (expire s) fired)"
      "pending s' {x \<in> S - {r}. now < expire s x}" "rep (lks s') R'" "ws_head s' = ws_head s"
      "R' (ws_head s) = Some ((ys @ (if ?live then [r] else [])) @ filter (\<lambda>x. func s x \<noteq> Null) fired)"
      "func s' = func s" "trig s' = trig s" "log s' = log s"
      unfolding s2(2-6) by blast
    have "{x \<in> S - {r}. now < expire s x} = {x \<in> S. now < expire s x}" using True by auto
    with IH loop rS True show ?thesis
      by (intro exI [of _ s'] exI [of _ R'] exI [of _ "r # fired"]) auto
  qed
qed

section \<open>Properties\<close>

definition demo_timer :: timer where
  "demo_timer = \<lparr>lks = fresh_links, func = (\<lambda>a. if a = 4 then Null else Code Delay_timer_cb), ws_head = 10,
     trig = True, log = [], expire = (\<lambda>_. 0), hp = \<lparr>child = (\<lambda>_. None), sibling = (\<lambda>_. None), parent = (\<lambda>_. None)\<rparr>,
     owner_queue = (\<lambda>_. None), heap_root = None, tq_self = 20\<rparr>"

text \<open>Three armed timers: node 1 at 30 ms, node 2 at 10 ms, node 3 at 20 ms.\<close>

definition demo_armed :: timer where
  "demo_armed = post_delayed_work 0 3 20 (post_delayed_work 0 2 10 (post_delayed_work 0 1 30 demo_timer))"

lemma pending_demo_armed: "pending demo_armed {1, 2, 3}"
proof -
  have "theap demo_timer Leaf" by (simp add: theap_def demo_timer_def)
  then have "pending demo_timer {}" by (auto simp: pending_def)
  then have "pending demo_armed (insert 3 (insert 2 (insert 1 {})))"
    unfolding demo_armed_def by (intro post_delayed_work_pending) auto
  moreover have "insert 3 (insert 2 (insert 1 {})) = {1, 2, 3 :: addr}" by auto
  ultimately show ?thesis by simp
qed

lemma demo_armed_simps:
  "lks demo_armed = fresh_links" "ws_head demo_armed = 10" "log demo_armed = []" "trig demo_armed"
  "func demo_armed 1 = Code Delay_timer_cb" "func demo_armed 2 = Code Delay_timer_cb" "func demo_armed 3 = Code Delay_timer_cb"
  "expire demo_armed 1 = 30000000" "expire demo_armed 2 = 10000000" "expire demo_armed 3 = 20000000"
  by (simp_all add: demo_armed_def post_delayed_work_frame demo_timer_def)

text \<open>
  \<open>post_delayed_work\<close>. Arming a node that is not in the queue keeps the pairing heap well formed
  and ordered, adds exactly that node, sets its expiry to the current time plus the delay, and
  leaves the expiry of the others and all lists alone.
\<close>

theorem timer_post_inserts:
  assumes "pending s S" and "x \<notin> S"
  shows "pending (post_delayed_work now x ms s) (insert x S) \<and>
    expire (post_delayed_work now x ms s) = (expire s)(x := now + 1000000 * uint ms) \<and>
    lks (post_delayed_work now x ms s) = lks s"
  using post_delayed_work_pending [OF assms] by (simp add: post_delayed_work_frame)

theorem timer_post_inserts_witness:
  "pending (post_delayed_work 5 7 1 demo_armed) {7, 1, 2, 3} \<and> expire (post_delayed_work 5 7 1 demo_armed) 7 = 1000005"
  using timer_post_inserts [OF pending_demo_armed, of 7 5 1] by simp

text \<open>
  \<open>cancel\<close>. For any node, in the heap or not, \<open>cancel\<close> returns (its loops and its recursion end),
  keeps the heap well formed and ordered, and removes exactly that node: the children of the
  node stay armed. The lists and expiries are unchanged.
\<close>

theorem timer_cancel_removes:
  assumes "pending s S"
  shows "\<exists>s'. cancel ltr (Some x) s = Some s' \<and> pending s' (S - {x}) \<and> expire s' = expire s \<and> lks s' = lks s \<and>
    owner_queue s' x \<noteq> Some (tq_self s')"
proof -
  obtain s' where s': "cancel ltr (Some x) s = Some s'" "pending s' (S - {x})" using cancel_pending [OF assms] by blast
  then have "owner_queue s' x \<noteq> Some (tq_self s')" by (auto simp: pending_def theap_def)
  with s' cancel_frame [OF s'(1)] show ?thesis by blast
qed

theorem timer_cancel_removes_witness:
  "\<exists>s'. cancel True (Some 2) demo_armed = Some s' \<and> pending s' {1, 3}"
proof -
  have "{1, 2, 3} - {2} = {1, 3 :: addr}" by auto
  with timer_cancel_removes [OF pending_demo_armed, of True 2] show ?thesis by auto
qed

text \<open>
  C10: \<open>tim_chk_cb\<close>. A check at time \<open>now\<close> terminates, takes exactly the due nodes off the heap in the
  order of their expiry, appends those with a callback to the executor queue in that order, leaves
  exactly the nodes that are not due, and wakes the executor once if it queued anything. It does not
  matter in which order C++ evaluates the arguments in \<open>two_pass_merge\<close>.
\<close>

theorem timer_fires_due_in_order:
  assumes "pending s S" and "rep (lks s) R" and "R (ws_head s) = Some ys"
    and "\<forall>x\<in>S. R x = Some [] \<and> x \<noteq> ws_head s"
  shows "\<exists>s' R' fired. tim_chk_cb ltr now s = Some s' \<and>
    set fired = {x \<in> S. expire s x \<le> now} \<and> distinct fired \<and> sorted (map (expire s) fired) \<and>
    pending s' {x \<in> S. now < expire s x} \<and>
    rep (lks s') R' \<and> R' (ws_head s) = Some (ys @ filter (\<lambda>x. func s x \<noteq> Null) fired) \<and>
    log s' = log s @ (if trig s \<and> filter (\<lambda>x. func s x \<noteq> Null) fired \<noteq> [] then [Trig] else [])"
proof -
  have d: "\<And>x. x \<in> S \<Longrightarrow> R x = Some [] \<and> x \<noteq> ws_head s" using assms(4) by blast
  obtain s' R' fired where f: "tim_chk_loop ltr now s False = Some (s', filter (\<lambda>x. func s x \<noteq> Null) fired \<noteq> [])"
    "set fired = {x \<in> S. expire s x \<le> now}" "distinct fired" "sorted (map (expire s) fired)"
    "pending s' {x \<in> S. now < expire s x}" "rep (lks s') R'"
    "R' (ws_head s) = Some (ys @ filter (\<lambda>x. func s x \<noteq> Null) fired)" "trig s' = trig s" "log s' = log s"
    using tim_chk_loop_fires [OF assms(1) refl assms(2,3) d, of ltr now False] by auto
  then show ?thesis
    by (intro exI [of _ "if filter (\<lambda>x. func s x \<noteq> Null) fired \<noteq> [] then trig_once s' else s'"]
        exI [of _ R'] exI [of _ fired]) (simp add: tim_chk_cb_def)
qed

theorem timer_fires_due_in_order_witness:
  "\<exists>s' R' fired. tim_chk_cb True 25000000 demo_armed = Some s' \<and> set fired = {2, 3} \<and>
     sorted (map (expire demo_armed) fired) \<and> pending s' {1} \<and> rep (lks s') R' \<and> log s' = [Trig]"
proof -
  have e: "{x \<in> {1, 2, 3}. expire demo_armed x \<le> 25000000} = {2, 3}" "{x \<in> {1, 2, 3}. 25000000 < expire demo_armed x} = {1}"
    using demo_armed_simps by auto
  have f: "filter (\<lambda>x. func demo_armed x \<noteq> Null) fired \<noteq> []" if "set fired = {2, 3}" for fired
    using that demo_armed_simps by (auto simp: filter_empty_conv)
  from timer_fires_due_in_order [OF pending_demo_armed, of "\<lambda>_. Some []" "[]" True 25000000]
  show ?thesis unfolding e using rep_fresh_links f by (fastforce simp: demo_armed_simps)
qed

end
