(* ===== verification/Semaphore.thy ===== *)
theory Semaphore
  imports Timer
begin

text \<open>
  The counting semaphore of \<^verbatim>\<open>sync/semaphore.hpp\<close> and its awaiters.

  The state extends the timer state (the timeout awaiter uses the timer queue of the same
  executor). \<open>req_sta\<close> is \<open>None\<close> while the field of the request is not initialised: the source gives
  it no initial value. Resuming the coroutine of an awaiter is recorded in \<open>resumed\<close>.
\<close>

section \<open>Data\<close>

datatype req_sta = REQ_OK | REQ_FAIL | REQ_TIME_OUT

record sem = timer +
  sem_self :: addr
  cur_val :: int
  max_val :: int
  acquire_list :: addr
  req_sta :: "addr \<Rightarrow> req_sta option"
  cancelled :: "addr \<Rightarrow> bool"
  armed :: "addr \<Rightarrow> bool"
  tn_of :: "addr \<Rightarrow> addr"
  tn_req :: "addr \<Rightarrow> addr option"
  resumed :: "addr list"

section \<open>Semaphore operations\<close>

definition Semaphore_init :: "int \<Rightarrow> int \<Rightarrow> 'a sem_scheme \<Rightarrow> 'a sem_scheme" where
  "Semaphore_init init_val mx s =
     s\<lparr>cur_val := init_val, max_val := mx,
       lks := INIT_LIST_HEAD (acquire_list s) (INIT_LIST_HEAD (sem_self s) (lks s)),
       func := (func s)(sem_self s := Code Sem_chk_cb)\<rparr>"

text \<open>The loop body of \<open>sem_chk_cb\<close>; the state of the loop is the semaphore and \<open>trig_flg\<close>.\<close>

definition sem_chk_body :: "addr \<Rightarrow> 'a sem_scheme \<times> bool \<Rightarrow> ('a sem_scheme \<times> bool) \<times> bool" where
  "sem_chk_body req st =
     (case st of (s, trig_flg) \<Rightarrow>
       if cancelled s req then ((s\<lparr>lks := list_del req (lks s)\<rparr>, trig_flg), False)
       else if cur_val s > 0 then
         ((enqueue req (s\<lparr>cur_val := cur_val s - 1, lks := list_del req (lks s),
                          req_sta := (req_sta s)(req \<mapsto> REQ_OK)\<rparr>), True), False)
       else ((s, trig_flg), False))"

definition sem_chk_cb :: "'a sem_scheme \<Rightarrow> 'a sem_scheme option" where
  "sem_chk_cb s =
     (let l = acquire_list s; m = lks s in
      if list_empty l m then Some s
      else Option.bind (list_for_each_safe (\<lambda>st. lks (fst st)) sem_chk_body l (nxt m l) (nxt m (nxt m l)) (s, False))
             (\<lambda>(s', trig_flg). Some (if trig_flg then trig_once s' else s')))"

definition sem_dtor_body :: "addr \<Rightarrow> 'a sem_scheme \<times> bool \<Rightarrow> ('a sem_scheme \<times> bool) \<times> bool" where
  "sem_dtor_body req st =
     (case st of (s, trig_flg) \<Rightarrow>
       ((enqueue req (s\<lparr>lks := list_del req (lks s), req_sta := (req_sta s)(req \<mapsto> REQ_FAIL)\<rparr>), True), False))"

definition Semaphore_dtor :: "'a sem_scheme \<Rightarrow> 'a sem_scheme option" where
  "Semaphore_dtor s =
     (let l = acquire_list s; m = lks s in
      if \<not> list_empty l m
      then Option.bind (list_for_each_safe (\<lambda>st. lks (fst st)) sem_dtor_body l (nxt m l) (nxt m (nxt m l)) (s, False))
             (\<lambda>(s', trig_flg). Some (if trig_flg then trig_once s' else s'))
      else Some s)"

definition cancel_waiter_body :: "addr \<Rightarrow> addr \<Rightarrow> 'a sem_scheme \<times> bool \<Rightarrow> ('a sem_scheme \<times> bool) \<times> bool" where
  "cancel_waiter_body req pos st =
     (case st of (s, removed) \<Rightarrow>
       if pos = req then ((s\<lparr>lks := list_del req (lks s)\<rparr>, True), True) else ((s, removed), False))"

definition cancel_waiter :: "addr \<Rightarrow> 'a sem_scheme \<Rightarrow> ('a sem_scheme \<times> bool) option" where
  "cancel_waiter req s =
     (let s1 = s\<lparr>cancelled := (cancelled s)(req := True)\<rparr>; l = acquire_list s1; m = lks s1 in
      if \<not> list_empty l m
      then list_for_each_safe (\<lambda>st. lks (fst st)) (cancel_waiter_body req) l (nxt m l) (nxt m (nxt m l)) (s1, False)
      else Some (s1, False))"

definition acquire :: "addr \<Rightarrow> 'a sem_scheme \<Rightarrow> 'a sem_scheme" where
  "acquire req s =
     (if cur_val s > 0 then enqueue req (s\<lparr>cur_val := cur_val s - 1\<rparr>)
      else s\<lparr>lks := list_add_tail req (acquire_list s) (lks s)\<rparr>)"

definition try_acquire :: "'a sem_scheme \<Rightarrow> bool \<times> 'a sem_scheme" where
  "try_acquire s = (if cur_val s > 0 then (True, s\<lparr>cur_val := cur_val s - 1\<rparr>) else (False, s))"

text \<open>\<open>release\<close> has two sections: the counter changes under the lock, then \<open>post\<close> takes it again.\<close>

definition release_locked :: "'a sem_scheme \<Rightarrow> bool \<times> 'a sem_scheme" where
  "release_locked s =
     (if cur_val s < max_val s
      then let s1 = s\<lparr>cur_val := cur_val s + 1\<rparr> in (\<not> list_empty (acquire_list s1) (lks s1), s1)
      else (False, s))"

definition release :: "'a sem_scheme \<Rightarrow> 'a sem_scheme" where
  "release s = (case release_locked s of (post_flg, s1) \<Rightarrow> if post_flg then wq_post (sem_self s1) s1 else s1)"

section \<open>Awaiters\<close>

text \<open>\<open>SemReqAwaiter\<close>: \<open>await_ready\<close> is \<open>try_acquire\<close>; the callback resumes the stored coroutine.\<close>

definition SemReqAwaiter_await_ready :: "'a sem_scheme \<Rightarrow> bool \<times> 'a sem_scheme" where
  "SemReqAwaiter_await_ready s = try_acquire s"

definition SemReqAwaiter_await_suspend :: "addr \<Rightarrow> 'a sem_scheme \<Rightarrow> 'a sem_scheme" where
  "SemReqAwaiter_await_suspend req s = acquire req (s\<lparr>func := (func s)(req := Code Sem_req_cb)\<rparr>)"

definition SemReqAwaiter_cb :: "addr \<Rightarrow> 'a sem_scheme \<Rightarrow> 'a sem_scheme" where
  "SemReqAwaiter_cb req s = s\<lparr>resumed := resumed s @ [req]\<rparr>"

text \<open>
  \<open>SemReqTimeoutAwaiter\<close>: \<open>tn_of req\<close> is its member \<open>mTimeout\<close>, a timer node of its own. \<open>await_ready\<close>
  returns its result and the value it leaves in \<open>mImmediateAcquired\<close>.
\<close>

definition timeout_await_ready :: "'a sem_scheme \<Rightarrow> bool \<times> bool \<times> 'a sem_scheme" where
  "timeout_await_ready s =
     (case try_acquire s of (succ, s1) \<Rightarrow> (succ, succ, s1))"

definition SemReqTimeoutAwaiter_dtor :: "bool \<Rightarrow> addr \<Rightarrow> 'a sem_scheme \<Rightarrow> 'a sem_scheme option" where
  "SemReqTimeoutAwaiter_dtor ltr req s = cancel ltr (Some (tn_of s req)) s"

definition timeout_await_suspend :: "int \<Rightarrow> addr \<Rightarrow> 32 word \<Rightarrow> 'a sem_scheme \<Rightarrow> 'a sem_scheme" where
  "timeout_await_suspend now req timeout_ms s =
     (let tn = tn_of s req;
          s1 = s\<lparr>tn_req := (tn_req s)(tn \<mapsto> req), armed := (armed s)(tn := True),
                 lks := INIT_LIST_HEAD tn (INIT_LIST_HEAD req (lks s)),
                 func := (func s)(tn := Code Sem_on_timer, req := Code Sem_req_timeout_cb)\<rparr>;
          s2 = (if timeout_ms \<noteq> 0xffffffff then post_delayed_work now tn timeout_ms s1 else s1)
      in acquire req s2)"

definition timeout_cb :: "bool \<Rightarrow> addr \<Rightarrow> 'a sem_scheme \<Rightarrow> 'a sem_scheme option" where
  "timeout_cb ltr req s =
     (let tn = tn_of s req in
      if \<not> armed s tn then Some s
      else Option.bind (cancel ltr (Some tn) (s\<lparr>armed := (armed s)(tn := False)\<rparr>))
             (\<lambda>s'. Some (s'\<lparr>resumed := resumed s' @ [req]\<rparr>)))"

definition on_timer :: "addr \<Rightarrow> 'a sem_scheme \<Rightarrow> 'a sem_scheme option" where
  "on_timer tn s =
     (if \<not> armed s tn then Some s
      else let s1 = s\<lparr>armed := (armed s)(tn := False)\<rparr> in
        (case tn_req s1 tn of
           None \<Rightarrow> Some s1
         | Some req \<Rightarrow> Option.bind (cancel_waiter req s1)
             (\<lambda>(s2, _). Some (s2\<lparr>req_sta := (req_sta s2)(req \<mapsto> REQ_TIME_OUT), resumed := resumed s2 @ [req]\<rparr>))))"

definition timeout_await_resume :: "bool \<Rightarrow> addr \<Rightarrow> 'a sem_scheme \<Rightarrow> bool option" where
  "timeout_await_resume mImmediateAcquired req s =
     (if mImmediateAcquired then Some True else map_option (\<lambda>st. st = REQ_OK) (req_sta s req))"

text \<open>\<open>wait_sem_try\<close>: no suspension, the result of \<open>try_acquire\<close>.\<close>

definition SemTryAwaiter_await_resume :: "'a sem_scheme \<Rightarrow> bool \<times> 'a sem_scheme" where
  "SemTryAwaiter_await_resume s = try_acquire s"

text \<open>The indirect call of \<open>work_once\<close> on the nodes of this component.\<close>

definition sem_call :: "bool \<Rightarrow> int \<Rightarrow> addr \<Rightarrow> 'a sem_scheme \<Rightarrow> 'a sem_scheme option" where
  "sem_call ltr now p s =
     (case func s p of
        Code Sem_chk_cb \<Rightarrow> sem_chk_cb s
      | Code Sem_req_cb \<Rightarrow> Some (SemReqAwaiter_cb p s)
      | Code Sem_req_timeout_cb \<Rightarrow> timeout_cb ltr p s
      | Code Sem_on_timer \<Rightarrow> on_timer p s
      | Code Tim_chk_cb \<Rightarrow> tim_chk_cb ltr now s
      | _ \<Rightarrow> Some s)"

section \<open>Lemmas\<close>

lemma sem_wq_simps [simp]:
  "acquire_list (enqueue a s) = acquire_list s" "cur_val (enqueue a s) = cur_val s" "max_val (enqueue a s) = max_val s"
  "cancelled (enqueue a s) = cancelled s" "req_sta (enqueue a s) = req_sta s" "sem_self (enqueue a s) = sem_self s"
  "resumed (enqueue a s) = resumed s" "armed (enqueue a s) = armed s" "tn_of (enqueue a s) = tn_of s" "tn_req (enqueue a s) = tn_req s"
  "acquire_list (trig_once s) = acquire_list s" "cur_val (trig_once s) = cur_val s" "max_val (trig_once s) = max_val s"
  "cancelled (trig_once s) = cancelled s" "req_sta (trig_once s) = req_sta s" "sem_self (trig_once s) = sem_self s"
  "resumed (trig_once s) = resumed s" "armed (trig_once s) = armed s" "tn_of (trig_once s) = tn_of s" "tn_req (trig_once s) = tn_req s"
  by (simp_all add: enqueue_def trig_once_def emit_def)

text \<open>The lists of a semaphore: the executor queue \<open>qs\<close> and the waiting requests \<open>ws\<close>.\<close>

definition sem_lists :: "'a sem_scheme \<Rightarrow> rings \<Rightarrow> addr list \<Rightarrow> addr list \<Rightarrow> bool" where
  "sem_lists s R qs ws \<longleftrightarrow> rep (lks s) R \<and> R (ws_head s) = Some qs \<and> R (acquire_list s) = Some ws \<and> ws_head s \<noteq> acquire_list s"

lemma sem_lists_waiter:
  assumes "sem_lists s R qs (ks @ x # ws)"
  shows "x \<noteq> ws_head s" "x \<noteq> acquire_list s" "node R x" "x \<notin> set qs" "x \<notin> set ks" "x \<notin> set ws"
proof -
  have l: "rep (lks s) R" "R (acquire_list s) = Some (ks @ x # ws)" "R (ws_head s) = Some qs" "ws_head s \<noteq> acquire_list s"
    using assms by (auto simp: sem_lists_def)
  show "x \<noteq> acquire_list s" "x \<notin> set ks" "x \<notin> set ws" using rep_distinct [OF l(1,2)] by auto
  show "x \<noteq> ws_head s" "x \<notin> set qs" using rep_disjoint [OF l(1,3,2,4)] by auto
  show "node R x" using l(2) by (rule node_member) simp
qed

lemma sem_lists_del:
  assumes "sem_lists s R qs (ks @ x # ws)"
  shows "sem_lists (s\<lparr>lks := list_del x (lks s)\<rparr>) (r_detach x R) qs (ks @ ws)"
  using sem_lists_waiter [OF assms] assms rep_del [of "lks s" R x]
  by (auto simp: sem_lists_def ring_simps remove1_idem)

lemma sem_lists_frame:
  assumes "sem_lists s R qs (ks @ x # ws)" and "h \<noteq> acquire_list s" and "h \<noteq> x"
  shows "r_detach x R h = R h"
proof (cases "R h")
  case (Some ys)
  then have "x \<notin> set ys" using assms rep_member_unique [of "lks s" R "acquire_list s" "ks @ x # ws" x h ys] by (auto simp: sem_lists_def)
  with Some assms(3) show ?thesis by (simp add: ring_simps remove1_idem)
qed (simp add: assms(3) ring_simps)

lemma sem_lists_grant:
  assumes "sem_lists s R qs (ks @ x # ws)"
  shows "sem_lists (enqueue x (s\<lparr>lks := list_del x (lks s)\<rparr>)) (r_append x (ws_head s) (r_detach x (r_detach x R))) (qs @ [x]) (ks @ ws)"
proof -
  let ?s = "s\<lparr>lks := list_del x (lks s)\<rparr>"
  have d: "sem_lists ?s (r_detach x R) qs (ks @ ws)" using sem_lists_del [OF assms] .
  note x = sem_lists_waiter [OF assms]
  have "rep (lks (enqueue x ?s)) (r_append x (ws_head ?s) (r_detach x (r_detach x R)))"
    using d x by (intro rep_enqueue node_detached) (auto simp: sem_lists_def ring_simps)
  with d x show ?thesis by (auto simp: sem_lists_def ring_simps remove1_idem)
qed

text \<open>What one turn of the loop of \<open>sem_chk_cb\<close> does to the lists.\<close>

lemma sem_chk_body_step:
  assumes L: "sem_lists s R qs (ks @ x # ws)" and b: "sem_chk_body x (s, flg) = ((s', flg'), brk)"
  shows "\<not> brk \<and> (\<exists>R'. (\<forall>h. h \<noteq> ws_head s \<longrightarrow> h \<noteq> acquire_list s \<longrightarrow> h \<noteq> x \<longrightarrow> R' h = R h) \<and>
      (cancelled s x \<longrightarrow> R' x = Some []) \<and> sem_lists s' R'
      (if \<not> cancelled s x \<and> cur_val s > 0 then qs @ [x] else qs)
      ((if \<not> cancelled s x \<and> \<not> cur_val s > 0 then ks @ [x] else ks) @ ws)) \<and>
    flg' = (flg \<or> \<not> cancelled s x \<and> cur_val s > 0) \<and>
    cur_val s' = (if \<not> cancelled s x \<and> cur_val s > 0 then cur_val s - 1 else cur_val s) \<and>
    req_sta s' = (if \<not> cancelled s x \<and> cur_val s > 0 then (req_sta s)(x \<mapsto> REQ_OK) else req_sta s) \<and>
    cancelled s' = cancelled s \<and> acquire_list s' = acquire_list s \<and> ws_head s' = ws_head s \<and> trig s' = trig s \<and> log s' = log s \<and>
    max_val s' = max_val s \<and> sem_self s' = sem_self s \<and> func s' = func s \<and> resumed s' = resumed s"
proof -
  let ?g = "s\<lparr>cur_val := cur_val s - 1, lks := list_del x (lks s), req_sta := (req_sta s)(x \<mapsto> REQ_OK)\<rparr>"
  have "sem_lists (enqueue x ?g) (r_append x (ws_head s) (r_detach x (r_detach x R))) (qs @ [x]) (ks @ ws)"
    using sem_lists_grant [OF L] by (simp add: sem_lists_def)
  moreover have "r_detach x R x = Some []" by (simp add: ring_simps)
  moreover have "r_append x (ws_head s) (r_detach x (r_detach x R)) h = R h" "r_detach x R h = R h"
    if "h \<noteq> ws_head s" "h \<noteq> acquire_list s" "h \<noteq> x" for h
    using that sem_lists_frame [OF L that(2,3)] by (simp_all add: ring_simps option.map_comp comp_def)
  ultimately show ?thesis using b sem_lists_del [OF L] L unfolding sem_chk_body_def
    by (auto split: if_splits)
qed

lemma sem_chk_each:
  assumes "sem_lists s R qs (ks @ ws)" and "0 \<le> cur_val s"
  shows "\<exists>s' R'. (\<forall>h. h \<noteq> ws_head s \<longrightarrow> h \<noteq> acquire_list s \<longrightarrow> h \<notin> set ws \<longrightarrow> R' h = R h) \<and>
    (\<forall>x\<in>set ws. cancelled s x \<longrightarrow> R' x = Some []) \<and>
    each_until sem_chk_body ws (s, flg) = (s', flg \<or> take (nat (cur_val s)) (filter (\<lambda>x. \<not> cancelled s x) ws) \<noteq> []) \<and>
    sem_lists s' R' (qs @ take (nat (cur_val s)) (filter (\<lambda>x. \<not> cancelled s x) ws))
      (ks @ drop (nat (cur_val s)) (filter (\<lambda>x. \<not> cancelled s x) ws)) \<and>
    cur_val s' = cur_val s - int (length (take (nat (cur_val s)) (filter (\<lambda>x. \<not> cancelled s x) ws))) \<and>
    (\<forall>x. req_sta s' x = (if x \<in> set (take (nat (cur_val s)) (filter (\<lambda>x. \<not> cancelled s x) ws)) then Some REQ_OK else req_sta s x)) \<and>
    cancelled s' = cancelled s \<and> acquire_list s' = acquire_list s \<and> ws_head s' = ws_head s \<and> trig s' = trig s \<and> log s' = log s \<and>
    max_val s' = max_val s \<and> sem_self s' = sem_self s \<and> func s' = func s \<and> resumed s' = resumed s"
  using assms
proof (induction ws arbitrary: s R qs ks flg)
  case Nil
  then show ?case by auto
next
  case (Cons x ws)
  obtain s1 f1 brk where b: "sem_chk_body x (s, flg) = ((s1, f1), brk)" by (metis prod.exhaust)
  note st = sem_chk_body_step [OF Cons.prems(1) b]
  let ?g = "\<not> cancelled s x \<and> cur_val s > 0" and ?k = "\<not> cancelled s x \<and> \<not> cur_val s > 0"
  obtain R1 where fr1: "\<forall>h. h \<noteq> ws_head s \<longrightarrow> h \<noteq> acquire_list s \<longrightarrow> h \<noteq> x \<longrightarrow> R1 h = R h"
    and dx: "cancelled s x \<longrightarrow> R1 x = Some []" and L: "sem_lists s1 R1 (if ?g then qs @ [x] else qs) ((if ?k then ks @ [x] else ks) @ ws)" using st by blast
  have c: "0 \<le> cur_val s1" using st Cons.prems(2) by auto
  have n: "?g \<Longrightarrow> nat (cur_val s) = Suc (nat (cur_val s - 1))" by arith
  have k: "?k \<Longrightarrow> cur_val s = 0" using Cons.prems(2) by simp
  have cn: "cancelled s1 = cancelled s" using st by simp
  from Cons.IH [OF L c, of f1] obtain s' R' where
    e: "each_until sem_chk_body ws (s1, f1) = (s', f1 \<or> take (nat (cur_val s1)) (filter (\<lambda>x. \<not> cancelled s x) ws) \<noteq> [])"
    and L': "sem_lists s' R' ((if ?g then qs @ [x] else qs) @ take (nat (cur_val s1)) (filter (\<lambda>x. \<not> cancelled s x) ws))
      ((if ?k then ks @ [x] else ks) @ drop (nat (cur_val s1)) (filter (\<lambda>x. \<not> cancelled s x) ws))"
    and v: "cur_val s' = cur_val s1 - int (length (take (nat (cur_val s1)) (filter (\<lambda>x. \<not> cancelled s x) ws)))"
    and q: "\<forall>x. req_sta s' x = (if x \<in> set (take (nat (cur_val s1)) (filter (\<lambda>x. \<not> cancelled s x) ws)) then Some REQ_OK else req_sta s1 x)"
    and f: "cancelled s' = cancelled s1 \<and> acquire_list s' = acquire_list s1 \<and> ws_head s' = ws_head s1 \<and> trig s' = trig s1 \<and> log s' = log s1 \<and>
      max_val s' = max_val s1 \<and> sem_self s' = sem_self s1 \<and> func s' = func s1 \<and> resumed s' = resumed s1"
    and fr2: "\<forall>h. h \<noteq> ws_head s1 \<longrightarrow> h \<noteq> acquire_list s1 \<longrightarrow> h \<notin> set ws \<longrightarrow> R' h = R1 h"
    and dw: "\<forall>x\<in>set ws. cancelled s x \<longrightarrow> R' x = Some []"
    unfolding cn by blast
  have fr: "\<forall>h. h \<noteq> ws_head s \<longrightarrow> h \<noteq> acquire_list s \<longrightarrow> h \<notin> set (x # ws) \<longrightarrow> R' h = R h"
    using fr1 fr2 st by auto
  have d: "\<forall>y\<in>set (x # ws). cancelled s y \<longrightarrow> R' y = Some []"
    using dx dw fr2 st sem_lists_waiter [OF Cons.prems(1)] by auto
  have e': "each_until sem_chk_body (x # ws) (s, flg) = (s', f1 \<or> take (nat (cur_val s1)) (filter (\<lambda>x. \<not> cancelled s x) ws) \<noteq> [])"
    using e b st by simp
  consider (g) ?g | (k) ?k | (c) "cancelled s x" by blast
  then show ?case
  proof cases
    case g
    then show ?thesis using fr d e' L' v q f st n by (intro exI [of _ s'] exI [of _ R']) auto
  next
    case k
    then show ?thesis using fr d e' L' v q f st \<open>?k \<Longrightarrow> cur_val s = 0\<close> by (intro exI [of _ s'] exI [of _ R']) auto
  next
    case c
    then show ?thesis using fr d e' L' v q f st by (intro exI [of _ s'] exI [of _ R']) auto
  qed
qed

text \<open>The three loops of the semaphore walk the waiting list; each visits every request once.\<close>

lemma sem_loop:
  assumes L: "sem_lists s R qs ws"
    and step: "\<And>s flg R qs ks x ys s' flg'. sem_lists s R qs (ks @ x # ys) \<Longrightarrow> body x (s, flg) = ((s', flg'), False) \<Longrightarrow>
      acquire_list s' = acquire_list s \<and> (\<exists>R' qs' ks'. sem_lists s' R' qs' (ks' @ ys))"
  shows "list_for_each_safe (\<lambda>st. lks (fst st)) body (acquire_list s) (nxt (lks s) (acquire_list s))
      (nxt (lks s) (nxt (lks s) (acquire_list s))) (s, flg) = Some (each_until body ws (s, flg))"
proof -
  let ?l = "acquire_list s"
  let ?I = "\<lambda>st ys. acquire_list (fst st) = ?l \<and> (\<exists>R qs ks. sem_lists (fst st) R qs (ks @ ys))"
  have h: "nxt (lks s) ?l = hd (ws @ [?l])"
    using L ring_first [OF rep_ring, of "lks s" R ?l ws] by (simp add: sem_lists_def)
  show ?thesis unfolding h
  proof (rule list_for_each_safe_eq [where I = ?I])
    show "?I (s, flg) ws" using L by (metis append_Nil fst_conv)
  next
    fix st ys assume "?I st ys"
    then show "walk (nxt (lks (fst st))) ys ?l" by (auto simp: sem_lists_def intro: rep_walk)
  next
    fix st x ys st' assume I: "?I st (x # ys)" and b: "body x st = (st', False)"
    from I obtain R qs ks where "sem_lists (fst st) R qs (ks @ x # ys)" by blast
    from step [OF this, of "snd st" "fst st'" "snd st'"] b I show "?I st' ys" by auto
  qed simp
qed

definition granted :: "'a sem_scheme \<Rightarrow> addr list \<Rightarrow> addr list" where
  "granted s ws = take (nat (cur_val s)) (filter (\<lambda>x. \<not> cancelled s x) ws)"

definition kept :: "'a sem_scheme \<Rightarrow> addr list \<Rightarrow> addr list" where
  "kept s ws = drop (nat (cur_val s)) (filter (\<lambda>x. \<not> cancelled s x) ws)"

lemma sem_list_empty: "sem_lists s R qs ws \<Longrightarrow> list_empty (acquire_list s) (lks s) \<longleftrightarrow> ws = []"
  by (auto simp: sem_lists_def rep_list_empty)

lemma sem_chk_cb_lists:
  assumes L: "sem_lists s R qs ws" and c: "0 \<le> cur_val s"
  shows "\<exists>s' R'. sem_chk_cb s = Some s' \<and> sem_lists s' R' (qs @ granted s ws) (kept s ws) \<and>
    (\<forall>h. h \<noteq> ws_head s \<longrightarrow> h \<noteq> acquire_list s \<longrightarrow> h \<notin> set ws \<longrightarrow> R' h = R h) \<and>
    (\<forall>x\<in>set ws. cancelled s x \<longrightarrow> R' x = Some []) \<and>
    cur_val s' = cur_val s - int (length (granted s ws)) \<and>
    (\<forall>x. req_sta s' x = (if x \<in> set (granted s ws) then Some REQ_OK else req_sta s x)) \<and>
    log s' = log s @ (if granted s ws \<noteq> [] \<and> trig s then [Trig] else []) \<and>
    cancelled s' = cancelled s \<and> acquire_list s' = acquire_list s \<and> ws_head s' = ws_head s \<and>
    max_val s' = max_val s \<and> sem_self s' = sem_self s \<and> func s' = func s \<and> resumed s' = resumed s"
proof (cases "ws = []")
  case True
  then show ?thesis using L sem_list_empty [OF L]
    by (intro exI [of _ s] exI [of _ R]) (simp add: sem_chk_cb_def Let_def granted_def kept_def)
next
  case False
  have loop: "list_for_each_safe (\<lambda>st. lks (fst st)) sem_chk_body (acquire_list s) (nxt (lks s) (acquire_list s))
      (nxt (lks s) (nxt (lks s) (acquire_list s))) (s, False) = Some (each_until sem_chk_body ws (s, False))"
    using L by (rule sem_loop) (blast dest: sem_chk_body_step)
  from sem_chk_each [of s R qs "[]" ws False] L c obtain s' R' where
    e: "each_until sem_chk_body ws (s, False) = (s', granted s ws \<noteq> [])" and
    r: "sem_lists s' R' (qs @ granted s ws) (kept s ws)"
      "\<forall>h. h \<noteq> ws_head s \<longrightarrow> h \<noteq> acquire_list s \<longrightarrow> h \<notin> set ws \<longrightarrow> R' h = R h"
      "\<forall>x\<in>set ws. cancelled s x \<longrightarrow> R' x = Some []"
      "cur_val s' = cur_val s - int (length (granted s ws))"
      "\<forall>x. req_sta s' x = (if x \<in> set (granted s ws) then Some REQ_OK else req_sta s x)"
      "log s' = log s" "trig s' = trig s"
      "cancelled s' = cancelled s" "acquire_list s' = acquire_list s" "ws_head s' = ws_head s"
      "max_val s' = max_val s" "sem_self s' = sem_self s" "func s' = func s" "resumed s' = resumed s"
    unfolding granted_def kept_def by auto
  have "sem_chk_cb s = Some (if granted s ws \<noteq> [] then trig_once s' else s')"
    using False loop e sem_list_empty [OF L] by (simp add: sem_chk_cb_def Let_def)
  moreover have "sem_lists (trig_once s') R' (qs @ granted s ws) (kept s ws)" using r(1) by (simp add: sem_lists_def)
  ultimately show ?thesis using r
    by (intro exI [of _ "if granted s ws \<noteq> [] then trig_once s' else s'"] exI [of _ R']) auto
qed

lemma sem_dtor_body_step:
  assumes L: "sem_lists s R qs (ks @ x # ws)" and b: "sem_dtor_body x (s, flg) = ((s', flg'), brk)"
  shows "\<not> brk \<and> flg' \<and> (\<exists>R'. sem_lists s' R' (qs @ [x]) (ks @ ws)) \<and> req_sta s' = (req_sta s)(x \<mapsto> REQ_FAIL) \<and>
    acquire_list s' = acquire_list s \<and> cur_val s' = cur_val s \<and> trig s' = trig s \<and> log s' = log s \<and> func s' = func s"
proof -
  have "sem_lists (enqueue x (s\<lparr>lks := list_del x (lks s), req_sta := (req_sta s)(x \<mapsto> REQ_FAIL)\<rparr>))
      (r_append x (ws_head s) (r_detach x (r_detach x R))) (qs @ [x]) (ks @ ws)"
    using sem_lists_grant [OF L] by (simp add: sem_lists_def)
  then show ?thesis using b by (auto simp: sem_dtor_body_def)
qed

lemma sem_dtor_each:
  assumes "sem_lists s R qs ws"
  shows "\<exists>s' R'. each_until sem_dtor_body ws (s, flg) = (s', flg \<or> ws \<noteq> []) \<and> sem_lists s' R' (qs @ ws) [] \<and>
    (\<forall>x. req_sta s' x = (if x \<in> set ws then Some REQ_FAIL else req_sta s x)) \<and>
    cur_val s' = cur_val s \<and> trig s' = trig s \<and> log s' = log s \<and> func s' = func s"
  using assms
proof (induction ws arbitrary: s R qs flg)
  case Nil
  then show ?case by auto
next
  case (Cons x ws)
  obtain s1 f1 brk where b: "sem_dtor_body x (s, flg) = ((s1, f1), brk)" by (metis prod.exhaust)
  from sem_dtor_body_step [of s R qs "[]" x ws flg, OF _ b] Cons.prems obtain R1 where
    "\<not> brk" f1 "req_sta s1 = (req_sta s)(x \<mapsto> REQ_FAIL)" "cur_val s1 = cur_val s" "trig s1 = trig s" "log s1 = log s" "func s1 = func s"
    and L: "sem_lists s1 R1 (qs @ [x]) ws" by auto
  with Cons.IH [OF L, of f1] b show ?case by auto
qed

lemma cancel_waiter_each:
  assumes "sem_lists s R qs (ks @ ws)"
  shows "each_until (cancel_waiter_body req) ws (s, flg) =
      (if req \<in> set ws then (s\<lparr>lks := list_del req (lks s)\<rparr>, True) else (s, flg)) \<and>
    sem_lists (if req \<in> set ws then s\<lparr>lks := list_del req (lks s)\<rparr> else s) (if req \<in> set ws then r_detach req R else R) qs (ks @ remove1 req ws)"
  using assms
proof (induction ws arbitrary: ks flg)
  case Nil
  then show ?case by auto
next
  case (Cons x ws)
  show ?case
  proof (cases "x = req")
    case True
    then show ?thesis using sem_lists_del [OF Cons.prems] by (auto simp: cancel_waiter_body_def)
  next
    case False
    have "sem_lists s R qs ((ks @ [x]) @ ws)" using Cons.prems by simp
    from Cons.IH [OF this, of flg] False show ?thesis by (auto simp: cancel_waiter_body_def split: if_splits)
  qed
qed

lemma cancel_waiter_lists:
  assumes L: "sem_lists s R qs ws"
  shows "\<exists>s'. cancel_waiter req s = Some (s', req \<in> set ws) \<and>
    sem_lists s' (if req \<in> set ws then r_detach req R else R) qs (remove1 req ws) \<and>
    s' = s\<lparr>cancelled := (cancelled s)(req := True), lks := (if req \<in> set ws then list_del req (lks s) else lks s)\<rparr>"
proof -
  let ?s = "s\<lparr>cancelled := (cancelled s)(req := True)\<rparr>"
  have L': "sem_lists ?s R qs ([] @ ws)" using L by (simp add: sem_lists_def)
  have loop: "list_for_each_safe (\<lambda>st. lks (fst st)) (cancel_waiter_body req) (acquire_list ?s) (nxt (lks ?s) (acquire_list ?s))
      (nxt (lks ?s) (nxt (lks ?s) (acquire_list ?s))) (?s, False) = Some (each_until (cancel_waiter_body req) ws (?s, False))"
    using L' by (intro sem_loop [of ?s R qs ws]) (auto simp: cancel_waiter_body_def split: if_splits, metis append.assoc append_Cons append_Nil)
  show ?thesis
  proof (cases "ws = []")
    case True
    then show ?thesis using L' sem_list_empty [OF L'] by (auto simp: cancel_waiter_def Let_def)
  next
    case False
    then show ?thesis using loop cancel_waiter_each [OF L', of req False] sem_list_empty [OF L']
      by (auto simp: cancel_waiter_def Let_def split: if_splits)
  qed
qed

section \<open>Interleavings\<close>

definition Sem_req_init :: "addr \<Rightarrow> 'a sem_scheme \<Rightarrow> 'a sem_scheme" where
  "Sem_req_init req s = s\<lparr>lks := INIT_LIST_HEAD req (lks s), cancelled := (cancelled s)(req := False),
     req_sta := (req_sta s)(req := None)\<rparr>"

inductive sem_step :: "'a sem_scheme \<times> nat \<times> nat \<Rightarrow> 'a sem_scheme \<times> nat \<times> nat \<Rightarrow> bool" where
  tryacq: "sem_step (s, n, r) (snd (try_acquire s), n, r)"
| suspend: "list_empty req (lks s) \<Longrightarrow> req \<notin> {ws_head s, acquire_list s, sem_self s} \<Longrightarrow>
    sem_step (s, n, r) (SemReqAwaiter_await_suspend req (Sem_req_init req s), n, r)"
| release: "release_locked s = (flg, s') \<Longrightarrow> sem_step (s, n, r) (s', if flg then Suc n else n, r)"
| post: "sem_step (s, Suc n, r) (wq_post (sem_self s) s, n, r)"
| cancel: "cancel_waiter req s = Some (s', removed) \<Longrightarrow> sem_step (s, n, r) (s', n, r)"
| take: "get_work_node s = (Some p, s') \<Longrightarrow> sem_step (s, n, r) (s', n, if p = sem_self s then Suc r else r)"
| check: "sem_chk_cb s = Some s' \<Longrightarrow> sem_step (s, n, Suc r) (s', n, r)"

inductive sem_reachable :: "'a sem_scheme \<times> nat \<times> nat \<Rightarrow> bool" where
  start: "lks s = fresh_links \<Longrightarrow> distinct [ws_head s, acquire_list s, sem_self s] \<Longrightarrow> 0 \<le> v \<Longrightarrow> v \<le> m \<Longrightarrow>
    sem_reachable (Semaphore_init v m s, 0, 0)"
| step: "sem_reachable c \<Longrightarrow> sem_step c c' \<Longrightarrow> sem_reachable c'"

inductive_cases sem_stepE: "sem_step (s, n, r) c"

definition sem_world :: "'a sem_scheme \<Rightarrow> rings \<Rightarrow> addr list \<Rightarrow> addr list \<Rightarrow> bool" where
  "sem_world s R qs ws \<longleftrightarrow> wq_world2 s (acquire_list s) R qs ws \<and>
     sem_self s \<noteq> ws_head s \<and> sem_self s \<noteq> acquire_list s \<and> sem_self s \<notin> set ws"

lemma sem_world_lists: "sem_world s R qs ws \<Longrightarrow> sem_lists s R qs ws"
  by (auto simp: sem_world_def wq_world2_def sem_lists_def)

definition sem_inv :: "'a sem_scheme \<times> nat \<times> nat \<Rightarrow> bool" where
  "sem_inv = (\<lambda>(s, n, r). \<exists>R qs ws. sem_world s R qs ws \<and> 0 \<le> cur_val s \<and> cur_val s \<le> max_val s \<and>
     (0 < cur_val s \<and> (\<exists>x\<in>set ws. \<not> cancelled s x) \<longrightarrow> sem_self s \<in> set qs \<or> 0 < n \<or> 0 < r))"

lemma sem_world_upd:
  assumes "sem_world s R qs ws" "lks s' = lks s" "ws_head s' = ws_head s" "acquire_list s' = acquire_list s" "sem_self s' = sem_self s"
  shows "sem_world s' R qs ws"
  using assms by (simp add: sem_world_def wq_world2_def)

lemma sem_world_enqueue:
  assumes "sem_world s R qs ws" and "x \<notin> set ws" "x \<notin> {ws_head s, acquire_list s}"
  shows "\<exists>R'. sem_world (enqueue x s) R' (remove1 x qs @ [x]) ws"
  using assms wq_world2_enqueue [of s "acquire_list s" R qs ws x] by (auto simp: sem_world_def)

lemma sem_world_wait:
  assumes "sem_world s R qs ws" and "R x = Some []" "x \<notin> {ws_head s, acquire_list s, sem_self s}"
  shows "sem_world (s\<lparr>lks := list_add_tail x (acquire_list s) (lks s)\<rparr>) (r_append x (acquire_list s) R) qs (ws @ [x])"
  using assms wq_world2_wait [of s "acquire_list s" R qs ws x] by (auto simp: sem_world_def)

lemma sem_world_cancel:
  assumes W: "sem_world s R qs ws" and c: "cancel_waiter req s = Some (s', removed)"
  shows "\<exists>R'. sem_world s' R' qs (remove1 req ws) \<and> cur_val s' = cur_val s \<and> max_val s' = max_val s \<and> sem_self s' = sem_self s \<and>
    cancelled s' = (cancelled s)(req := True)"
proof -
  have L: "sem_lists s R qs ws" using W by (rule sem_world_lists)
  from cancel_waiter_lists [OF this, of req] c
  have s': "s' = s\<lparr>cancelled := (cancelled s)(req := True), lks := (if req \<in> set ws then list_del req (lks s) else lks s)\<rparr>" by auto
  let ?R = "if req \<in> set ws then r_detach req R else R"
  have "wq_world2 s' (acquire_list s) ?R qs (remove1 req ws)"
    using W wq_world2_del [of s "acquire_list s" R qs ws req] by (auto simp: s' sem_world_def wq_world2_def remove1_idem)
  then show ?thesis using W set_remove1_subset [of req ws] by (intro exI [of _ ?R]) (auto simp: s' sem_world_def)
qed

lemma sem_world_take:
  assumes "sem_world s R qs ws" and "get_work_node s = (Some p, s')"
  shows "\<exists>R' qs'. qs = p # qs' \<and> sem_world s' R' qs' ws \<and> s' = s\<lparr>lks := list_del p (lks s)\<rparr>"
  using assms wq_world2_take [of s "acquire_list s" R qs ws p s'] by (auto simp: sem_world_def)

lemma sem_world_chk:
  assumes W: "sem_world s R qs ws" and c: "0 \<le> cur_val s"
  shows "\<exists>s' R'. sem_chk_cb s = Some s' \<and> sem_world s' R' (qs @ granted s ws) (kept s ws) \<and>
    cur_val s' = cur_val s - int (length (granted s ws)) \<and> cancelled s' = cancelled s \<and> max_val s' = max_val s \<and> sem_self s' = sem_self s"
proof -
  have L: "sem_lists s R qs ws" using W by (rule sem_world_lists)
  from sem_chk_cb_lists [OF L c] obtain s' R' where
    e: "sem_chk_cb s = Some s'" and l: "sem_lists s' R' (qs @ granted s ws) (kept s ws)"
    and fr: "\<forall>h. h \<noteq> ws_head s \<longrightarrow> h \<noteq> acquire_list s \<longrightarrow> h \<notin> set ws \<longrightarrow> R' h = R h"
    and d: "\<forall>x\<in>set ws. cancelled s x \<longrightarrow> R' x = Some []"
    and f: "cur_val s' = cur_val s - int (length (granted s ws))" "cancelled s' = cancelled s" "acquire_list s' = acquire_list s"
      "ws_head s' = ws_head s" "max_val s' = max_val s" "sem_self s' = sem_self s" by blast
  have u: "set (granted s ws) \<union> set (kept s ws) = {x \<in> set ws. \<not> cancelled s x}"
    unfolding granted_def kept_def by (metis append_take_drop_id set_append set_filter)
  have "R' x = Some [] \<or> x \<in> set (qs @ granted s ws) \<or> x \<in> set (kept s ws)" if "x \<noteq> ws_head s" "x \<noteq> acquire_list s" for x
    using that W fr d u unfolding sem_world_def wq_world2_def by (cases "x \<in> set ws") auto
  moreover have "set (kept s ws) \<subseteq> set ws" using u by auto
  ultimately show ?thesis using W e l f by (intro exI [of _ s'] exI [of _ R']) (auto simp: sem_world_def wq_world2_def sem_lists_def)
qed

lemma kept_granted: "0 \<le> cur_val s \<Longrightarrow> cur_val s - int (length (granted s ws)) > 0 \<Longrightarrow> kept s ws = []"
  by (auto simp: kept_def granted_def)

lemma sem_invE:
  assumes "sem_inv (s, n, r)"
  obtains R qs ws where "sem_world s R qs ws" and "0 \<le> cur_val s" and "cur_val s \<le> max_val s"
    and "0 < cur_val s \<and> (\<exists>x\<in>set ws. \<not> cancelled s x) \<longrightarrow> sem_self s \<in> set qs \<or> 0 < n \<or> 0 < r"
  using assms unfolding sem_inv_def by blast

lemma sem_invI:
  assumes "sem_world s R qs ws" and "0 \<le> cur_val s" and "cur_val s \<le> max_val s"
    and "0 < cur_val s \<and> (\<exists>x\<in>set ws. \<not> cancelled s x) \<longrightarrow> sem_self s \<in> set qs \<or> 0 < n \<or> 0 < r"
  shows "sem_inv (s, n, r)"
  using assms unfolding sem_inv_def by blast

lemma sem_inv_suspend:
  assumes I: "sem_inv (s, n, r)" and e: "list_empty req (lks s)" and q: "req \<notin> {ws_head s, acquire_list s, sem_self s}"
  shows "sem_inv (SemReqAwaiter_await_suspend req (Sem_req_init req s), n, r)"
proof -
  from I obtain R qs ws where W: "sem_world s R qs ws" and b: "0 \<le> cur_val s" "cur_val s \<le> max_val s"
    and wake: "0 < cur_val s \<and> (\<exists>x\<in>set ws. \<not> cancelled s x) \<longrightarrow> sem_self s \<in> set qs \<or> 0 < n \<or> 0 < r" by (rule sem_invE)
  let ?s = "(Sem_req_init req s)\<lparr>func := (func s)(req := Code Sem_req_cb)\<rparr>"
  have m: "rep (lks s) R" using W by (auto simp: sem_world_def wq_world2_def)
  have d: "R req = Some []" and nm: "req \<notin> set ws" "req \<notin> set qs"
    using wq_world2_detached [of s "acquire_list s" R qs ws req] W e q by (auto simp: sem_world_def)
  have W': "sem_world ?s R qs ws" using W
    by (rule sem_world_upd) (simp_all add: Sem_req_init_def INIT_LIST_HEAD_empty [OF m d])
  show ?thesis
  proof (cases "cur_val s > 0")
    case True
    have "sem_world (?s\<lparr>cur_val := cur_val s - 1\<rparr>) R qs ws" using W' by (rule sem_world_upd) simp_all
    from sem_world_enqueue [OF this, of req] nm q obtain R' where
      "sem_world (enqueue req (?s\<lparr>cur_val := cur_val s - 1\<rparr>)) R' (remove1 req qs @ [req]) ws" by (auto simp: Sem_req_init_def)
    then show ?thesis using True b wake nm
      by (intro sem_invI) (auto simp: SemReqAwaiter_await_suspend_def acquire_def Sem_req_init_def remove1_idem)
  next
    case False
    from sem_world_wait [OF W', of req] d q have
      "sem_world (?s\<lparr>lks := list_add_tail req (acquire_list ?s) (lks ?s)\<rparr>) (r_append req (acquire_list ?s) R) qs (ws @ [req])"
      by (auto simp: Sem_req_init_def)
    then show ?thesis using False b
      by (intro sem_invI) (auto simp: SemReqAwaiter_await_suspend_def acquire_def Sem_req_init_def)
  qed
qed

lemma sem_inv_step:
  assumes "sem_step c c'" and "sem_inv c"
  shows "sem_inv c'"
  using assms
proof (induction rule: sem_step.induct)
  case (tryacq s n r)
  then show ?case by (elim sem_invE, intro sem_invI) (auto simp: try_acquire_def intro: sem_world_upd)
next
  case (suspend req s n r)
  then show ?case by (intro sem_inv_suspend)
next
  case (release s flg s' n r)
  from release(2) obtain R qs ws where W: "sem_world s R qs ws" and b: "0 \<le> cur_val s" "cur_val s \<le> max_val s"
    and wake: "0 < cur_val s \<and> (\<exists>x\<in>set ws. \<not> cancelled s x) \<longrightarrow> sem_self s \<in> set qs \<or> 0 < n \<or> 0 < r" by (rule sem_invE)
  have "sem_world s' R qs ws" using W release(1)
    by (elim sem_world_upd) (auto simp: release_locked_def Let_def split: if_splits)
  moreover have "flg \<longleftrightarrow> cur_val s < max_val s \<and> ws \<noteq> []"
    using release(1) sem_list_empty [OF sem_world_lists [OF W]] by (auto simp: release_locked_def Let_def split: if_splits)
  ultimately show ?case using release(1) b wake
    by (intro sem_invI [of s' R qs ws]) (auto simp: release_locked_def Let_def split: if_splits)
next
  case (post s n r)
  from post obtain R qs ws where W: "sem_world s R qs ws" and b: "0 \<le> cur_val s" "cur_val s \<le> max_val s" by (rule sem_invE)
  have "sem_self s \<notin> set ws" "sem_self s \<notin> {ws_head s, acquire_list s}" using W by (auto simp: sem_world_def)
  from sem_world_enqueue [OF W this] obtain R' where
    "sem_world (enqueue (sem_self s) s) R' (remove1 (sem_self s) qs @ [sem_self s]) ws" by blast
  then have "sem_world (wq_post (sem_self s) s) R' (remove1 (sem_self s) qs @ [sem_self s]) ws"
    by (rule sem_world_upd) (simp_all add: wq_post_def)
  then show ?case using b by (intro sem_invI) (auto simp: wq_post_def)
next
  case (cancel req s s' removed n r)
  from cancel(2) obtain R qs ws where W: "sem_world s R qs ws" and b: "0 \<le> cur_val s" "cur_val s \<le> max_val s"
    and wake: "0 < cur_val s \<and> (\<exists>x\<in>set ws. \<not> cancelled s x) \<longrightarrow> sem_self s \<in> set qs \<or> 0 < n \<or> 0 < r" by (rule sem_invE)
  from sem_world_cancel [OF W cancel(1)] b wake show ?case
    by (elim exE conjE, intro sem_invI) (auto split: if_splits dest: notin_set_remove1)
next
  case (take s p s' n r)
  from take(2) obtain R qs ws where W: "sem_world s R qs ws" and b: "0 \<le> cur_val s" "cur_val s \<le> max_val s"
    and wake: "0 < cur_val s \<and> (\<exists>x\<in>set ws. \<not> cancelled s x) \<longrightarrow> sem_self s \<in> set qs \<or> 0 < n \<or> 0 < r" by (rule sem_invE)
  from sem_world_take [OF W take(1)] obtain R' qs' where t: "qs = p # qs'" "sem_world s' R' qs' ws" "s' = s\<lparr>lks := list_del p (lks s)\<rparr>" by blast
  with b wake show ?case by (intro sem_invI [OF t(2)]) auto
next
  case (check s s' n r)
  from check(2) obtain R qs ws where W: "sem_world s R qs ws" and b: "0 \<le> cur_val s" "cur_val s \<le> max_val s" by (rule sem_invE)
  have "int (length (granted s ws)) \<le> cur_val s" using b by (auto simp: granted_def)
  with sem_world_chk [OF W b(1)] check(1) b kept_granted [OF b(1), of ws] show ?case
    by (elim exE conjE, intro sem_invI) auto
qed

lemma sem_inv_start:
  assumes "lks s = fresh_links" and d: "distinct [ws_head s, acquire_list s, sem_self s]" and "0 \<le> v" and "v \<le> m"
  shows "sem_inv (Semaphore_init v m s, 0, 0)"
proof -
  have "lks (Semaphore_init v m s) = fresh_links" using assms(1)
    by (simp add: Semaphore_init_def INIT_LIST_HEAD_empty [OF rep_fresh_links])
  then have "sem_world (Semaphore_init v m s) (\<lambda>_. Some []) [] []" using d wq_world2_fresh [of "Semaphore_init v m s"]
    by (auto simp: sem_world_def Semaphore_init_def)
  then show ?thesis using assms by (intro sem_invI) (auto simp: Semaphore_init_def)
qed

lemma sem_reachable_inv: "sem_reachable c \<Longrightarrow> sem_inv c"
  by (induction rule: sem_reachable.induct) (auto intro: sem_inv_start sem_inv_step)

section \<open>Properties\<close>

text \<open>Three requests wait (3 is cancelled) on the list headed by 20; two tokens are free.\<close>

definition demo_sem0 :: sem where
  "demo_sem0 = \<lparr>lks = fresh_links, func = (\<lambda>_. Code Sem_req_cb), ws_head = 10, trig = True, log = [],
     expire = (\<lambda>_. 0), hp = \<lparr>child = (\<lambda>_. None), sibling = (\<lambda>_. None), parent = (\<lambda>_. None)\<rparr>,
     owner_queue = (\<lambda>_. None), heap_root = None, tq_self = 40,
     sem_self = 30, cur_val = 0, max_val = 4, acquire_list = 20, req_sta = (\<lambda>_. None), cancelled = (\<lambda>_. False),
     armed = (\<lambda>_. False), tn_of = (\<lambda>r. r + 100), tn_req = (\<lambda>_. None), resumed = []\<rparr>"

definition demo_sem :: sem where
  "demo_sem = demo_sem0\<lparr>lks := list_add_tail 4 20 (list_add_tail 3 20 (list_add_tail 2 20 fresh_links)),
     cur_val := 2, cancelled := (\<lambda>x. x = 3)\<rparr>"

definition demo_sem_rings :: rings where
  "demo_sem_rings = r_append 4 20 (r_append 3 20 (r_append 2 20 (\<lambda>_. Some [])))"

lemma demo_sem_lists: "sem_lists demo_sem demo_sem_rings [] [2, 3, 4]"
proof -
  have "rep (lks demo_sem) demo_sem_rings"
    unfolding demo_sem_def demo_sem_rings_def demo_sem0_def
    by (simp, rule rep_add_tail [where xs = "[2, 3]"], rule rep_add_tail [where xs = "[2]"], rule rep_add_tail [where xs = "[]"])
       (simp_all add: rep_fresh_links r_append_def)
  then show ?thesis by (simp add: sem_lists_def demo_sem_def demo_sem0_def demo_sem_rings_def r_append_def)
qed

text \<open>
  C11: \<open>sem_chk_cb\<close>. The check terminates and hands the free tokens to the waiting requests in the
  order they came: the first \<open>cur_val\<close> requests that are not cancelled move, in order, behind the
  queued work with status \<open>REQ_OK\<close>; cancelled requests leave the list without a token; the others keep
  waiting in order; the counter drops by exactly the number of grants; the executor is woken once
  when something was granted.
\<close>

theorem sem_chk_grants_in_order:
  assumes "sem_lists s R qs ws" and "0 \<le> cur_val s"
  shows "\<exists>s' R'. sem_chk_cb s = Some s' \<and> sem_lists s' R' (qs @ granted s ws) (kept s ws) \<and>
    granted s ws @ kept s ws = filter (\<lambda>x. \<not> cancelled s x) ws \<and>
    cur_val s' = cur_val s - int (length (granted s ws)) \<and> (kept s ws \<noteq> [] \<longrightarrow> cur_val s' = 0) \<and>
    (\<forall>x. req_sta s' x = (if x \<in> set (granted s ws) then Some REQ_OK else req_sta s x)) \<and>
    log s' = log s @ (if granted s ws \<noteq> [] \<and> trig s then [Trig] else [])"
proof -
  have "granted s ws @ kept s ws = filter (\<lambda>x. \<not> cancelled s x) ws" by (simp add: granted_def kept_def)
  moreover have "kept s ws \<noteq> [] \<Longrightarrow> cur_val s - int (length (granted s ws)) = 0"
    using assms(2) by (simp add: granted_def kept_def)
  ultimately show ?thesis using sem_chk_cb_lists [OF assms] by metis
qed

theorem sem_chk_grants_in_order_witness:
  "\<exists>s' R'. sem_chk_cb demo_sem = Some s' \<and> sem_lists s' R' [2, 4] [] \<and> cur_val s' = 0 \<and> req_sta s' 3 = None"
proof -
  have g: "granted demo_sem [2, 3, 4] = [2, 4]" "kept demo_sem [2, 3, 4] = []"
    by (simp_all add: granted_def kept_def demo_sem_def)
  have c: "0 \<le> cur_val demo_sem" "cur_val demo_sem = 2" "req_sta demo_sem 3 = None" by (simp_all add: demo_sem_def demo_sem0_def)
  from sem_chk_grants_in_order [OF demo_sem_lists c(1)] obtain s' R' where
    "sem_chk_cb demo_sem = Some s'" "sem_lists s' R' ([] @ [2, 4]) []" "cur_val s' = cur_val demo_sem - int (length [2 :: nat, 4])"
    "\<forall>x. req_sta s' x = (if x \<in> set [2, 4] then Some REQ_OK else req_sta demo_sem x)"
    unfolding g by blast
  then show ?thesis using c by (intro exI [of _ s'] exI [of _ R']) simp
qed

text \<open>
  C2: bounds of the counter and no lost wake-up. In every interleaving of the locked sections of
  \<open>try_acquire\<close>, \<open>acquire\<close>, \<open>release\<close>, \<open>cancel_waiter\<close>, \<open>work_once\<close> and \<open>sem_chk_cb\<close>, the counter stays
  between 0 and \<open>max_val\<close>; and whenever a token is free while a request that is not cancelled waits,
  the check is queued on the executor, or about to be posted by a \<open>release\<close>, or taken and about to run.
\<close>

theorem sem_no_lost_wakeup:
  assumes "sem_reachable (s, releasing, checking)"
  shows "0 \<le> cur_val s \<and> cur_val s \<le> max_val s \<and>
    (\<exists>qs ws. ring (lks s) (ws_head s) qs \<and> ring (lks s) (acquire_list s) ws \<and>
       (0 < cur_val s \<and> (\<exists>x\<in>set ws. \<not> cancelled s x) \<longrightarrow> sem_self s \<in> set qs \<or> 0 < releasing \<or> 0 < checking))"
proof -
  from sem_reachable_inv [OF assms] obtain R qs ws where "sem_world s R qs ws" and b: "0 \<le> cur_val s" "cur_val s \<le> max_val s"
    and wake: "0 < cur_val s \<and> (\<exists>x\<in>set ws. \<not> cancelled s x) \<longrightarrow> sem_self s \<in> set qs \<or> 0 < releasing \<or> 0 < checking"
    by (rule sem_invE)
  then have "ring (lks s) (ws_head s) qs" "ring (lks s) (acquire_list s) ws"
    by (auto simp: sem_world_def wq_world2_def intro: rep_ring)
  with b wake show ?thesis by blast
qed

theorem sem_no_lost_wakeup_witness:
  "\<exists>s :: sem. sem_reachable (s, 1, 0) \<and> cur_val s = 1 \<and> cur_val s \<le> max_val s \<and> acquire_list s = 20 \<and> \<not> list_empty 20 (lks s)"
proof -
  let ?s0 = "Semaphore_init 0 4 demo_sem0" and ?i = "\<lambda>s. SemReqAwaiter_await_suspend 2 (Sem_req_init 2 s)"
  have l: "lks ?s0 = fresh_links" by (simp add: Semaphore_init_def demo_sem0_def INIT_LIST_HEAD_empty [OF rep_fresh_links])
  have r0: "sem_reachable (?s0, 0, 0)" by (rule sem_reachable.start) (simp_all add: demo_sem0_def)
  have r1: "sem_reachable (?i ?s0, 0, 0)"
    by (rule sem_reachable.step [OF r0 sem_step.suspend]) (unfold l, simp_all add: list_empty_def fresh_links_def Semaphore_init_def demo_sem0_def)
  have c: "cur_val (?i ?s0) = 0" "max_val (?i ?s0) = 4" "acquire_list (?i ?s0) = 20"
    by (simp_all add: SemReqAwaiter_await_suspend_def acquire_def Sem_req_init_def Semaphore_init_def demo_sem0_def)
  have e: "\<not> list_empty 20 (lks (?i ?s0))"
    by (simp add: SemReqAwaiter_await_suspend_def acquire_def Sem_req_init_def l c list_add_tail_def raw_list_add_def set_next_def set_prev_def
        INIT_LIST_HEAD_def fresh_links_def Let_def list_empty_def) (simp add: Semaphore_init_def demo_sem0_def)
  have "sem_reachable ((?i ?s0)\<lparr>cur_val := 1\<rparr>, if True then Suc 0 else 0, 0)"
    by (rule sem_reachable.step [OF r1 sem_step.release]) (simp add: release_locked_def c e)
  then have r2: "sem_reachable ((?i ?s0)\<lparr>cur_val := 1\<rparr>, 1, 0)" by simp
  from sem_no_lost_wakeup [OF r2] r2 c e show ?thesis by (intro exI [of _ "(?i ?s0)\<lparr>cur_val := 1\<rparr>"]) simp
qed

lemma on_timer_effect:
  assumes "sem_lists s R qs ws" and "armed s tn" and "tn_req s tn = Some req" and "tn_of s req = tn"
  shows "\<exists>s' R'. on_timer tn s = Some s' \<and> sem_lists s' R' qs (remove1 req ws) \<and> cancelled s' req \<and> cur_val s' = cur_val s \<and>
    req_sta s' req = Some REQ_TIME_OUT \<and> resumed s' = resumed s @ [req] \<and> \<not> armed s' tn \<and> timeout_cb ltr req s' = Some s'"
proof -
  let ?s = "s\<lparr>armed := (armed s)(tn := False)\<rparr>"
  have "sem_lists ?s R qs ws" using assms(1) by (simp add: sem_lists_def)
  from cancel_waiter_lists [OF this, of req] obtain s' where
    c: "cancel_waiter req ?s = Some (s', req \<in> set ws)"
    and l: "sem_lists s' (if req \<in> set ws then r_detach req R else R) qs (remove1 req ws)"
    and s': "s' = ?s\<lparr>cancelled := (cancelled ?s)(req := True), lks := (if req \<in> set ws then list_del req (lks ?s) else lks ?s)\<rparr>"
    by blast
  let ?t = "s'\<lparr>req_sta := (req_sta s')(req \<mapsto> REQ_TIME_OUT), resumed := resumed s' @ [req]\<rparr>"
  have "on_timer tn s = Some ?t" using assms c by (simp add: on_timer_def)
  moreover have "sem_lists ?t (if req \<in> set ws then r_detach req R else R) qs (remove1 req ws)" using l by (simp add: sem_lists_def)
  ultimately show ?thesis using assms s' by (intro exI [of _ ?t] exI) (auto simp: timeout_cb_def Let_def)
qed

text \<open>
  a timed-out waiter. When the timer of a request that still waits fires first, \<open>on_timer\<close> takes the
  request off the waiting list, marks it cancelled and timed out and resumes its coroutine exactly once:
  the counter and the executor queue are unchanged, and the callback of the request does nothing
  if it should run later.
\<close>

theorem timeout_removes_waiter:
  assumes "sem_lists s R qs ws" and "req \<in> set ws" and "armed s tn" and "tn_req s tn = Some req" and "tn_of s req = tn"
  shows "\<exists>s' R'. on_timer tn s = Some s' \<and> sem_lists s' R' qs (remove1 req ws) \<and> req \<notin> set (remove1 req ws) \<and> req \<notin> set qs \<and>
    cancelled s' req \<and> cur_val s' = cur_val s \<and> timeout_await_resume False req s' = Some False \<and>
    resumed s' = resumed s @ [req] \<and> timeout_cb ltr req s' = Some s'"
proof -
  obtain ks vs where ws: "ws = ks @ req # vs" using split_list [OF assms(2)] by blast
  note n = sem_lists_waiter [OF assms(1) [unfolded ws]]
  from on_timer_effect [OF assms(1,3-5), of ltr] n show ?thesis
    unfolding ws by (auto simp: timeout_await_resume_def remove1_append)
qed

definition demo_armed_sem :: sem where
  "demo_armed_sem = demo_sem\<lparr>armed := (\<lambda>x. x = 102), tn_req := (\<lambda>x. if x = 102 then Some 2 else None)\<rparr>"

lemma demo_armed_sem_lists: "sem_lists demo_armed_sem demo_sem_rings [] [2, 3, 4]"
  using demo_sem_lists by (simp add: sem_lists_def demo_armed_sem_def)

lemma demo_armed_sem_simps:
  "armed demo_armed_sem 102" "tn_req demo_armed_sem 102 = Some 2" "tn_of demo_armed_sem 2 = 102" "cur_val demo_armed_sem = 2"
  "resumed demo_armed_sem = []"
  by (simp_all add: demo_armed_sem_def demo_sem_def demo_sem0_def)

theorem timeout_removes_waiter_witness:
  "\<exists>s' R'. on_timer 102 demo_armed_sem = Some s' \<and> sem_lists s' R' [] [3, 4] \<and> cur_val s' = 2 \<and> resumed s' = [2]"
  using timeout_removes_waiter [OF demo_armed_sem_lists, of 2 102 True] demo_armed_sem_simps by auto

text \<open>
  a timeout that fires after the grant. The request was already taken off the waiting list and given
  a token, but its callback still waits in the executor queue when \<open>on_timer\<close> runs. Then the
  coroutine is resumed with the answer \<open>false\<close>, the token is neither returned nor handed on (the
  counter keeps the decrement, although the comment in \<open>on_timer\<close> says tokens are not lost), and the node of
  the request stays in the executor queue while its owner runs on.
\<close>

theorem timeout_after_grant_loses_token:
  assumes "sem_lists s R qs ws" and "req \<in> set qs" and "req_sta s req = Some REQ_OK"
    and "armed s tn" and "tn_req s tn = Some req" and "tn_of s req = tn"
  shows "\<exists>s' R'. on_timer tn s = Some s' \<and> sem_lists s' R' qs ws \<and> req \<in> set qs \<and> cur_val s' = cur_val s \<and>
    timeout_await_resume False req s' = Some False \<and> resumed s' = resumed s @ [req] \<and> timeout_cb ltr req s' = Some s'"
proof -
  have "req \<notin> set ws" using assms(1,2) rep_disjoint [of "lks s" R "ws_head s" qs "acquire_list s" ws] by (auto simp: sem_lists_def)
  with on_timer_effect [OF assms(1,4-6), of ltr] assms(2) show ?thesis
    by (auto simp: timeout_await_resume_def remove1_idem)
qed

definition demo_granted_sem :: sem where
  "demo_granted_sem = demo_armed_sem\<lparr>lks := list_add_tail 2 10 fresh_links, req_sta := [2 \<mapsto> REQ_OK]\<rparr>"

lemma demo_granted_sem_lists: "sem_lists demo_granted_sem (r_append 2 10 (\<lambda>_. Some [])) [2] []"
  using rep_add_tail [OF rep_fresh_links, where x = 2 and q = 10]
  by (simp add: sem_lists_def demo_granted_sem_def demo_armed_sem_def demo_sem_def demo_sem0_def r_append_def)

theorem timeout_after_grant_loses_token_witness:
  "\<exists>s' R'. on_timer 102 demo_granted_sem = Some s' \<and> sem_lists s' R' [2] [] \<and> cur_val s' = cur_val demo_granted_sem \<and>
     timeout_await_resume False 2 s' = Some False"
  using timeout_after_grant_loses_token [OF demo_granted_sem_lists, of 2 102 True] demo_armed_sem_simps
  by (auto simp: demo_granted_sem_def)

text \<open>
  \<open>acquire\<close>. Without a free token the request is appended to the waiting list and nothing else changes.
  With one, the token is taken and the request queued on the executor behind the other work; this path
  sets no status (\<open>req_sta\<close> keeps whatever the fresh object holds, so a fresh
  \<open>SemReqTimeoutAwaiter\<close> would read an uninitialised field) and does not wake the executor.
\<close>

theorem acquire_branches:
  assumes "sem_lists s R qs ws" and "R req = Some []" and "req \<notin> {ws_head s, acquire_list s}"
  shows "(0 < cur_val s \<longrightarrow> (\<exists>R'. sem_lists (acquire req s) R' (qs @ [req]) ws) \<and> cur_val (acquire req s) = cur_val s - 1) \<and>
    (\<not> 0 < cur_val s \<longrightarrow> (\<exists>R'. sem_lists (acquire req s) R' qs (ws @ [req])) \<and> cur_val (acquire req s) = cur_val s) \<and>
    req_sta (acquire req s) = req_sta s \<and> log (acquire req s) = log s"
proof -
  note L = assms(1) [unfolded sem_lists_def]
  let ?s = "s\<lparr>cur_val := cur_val s - 1\<rparr>" and ?R = "r_append req (ws_head s) (r_detach req R)"
  have off: "req \<notin> set qs" "req \<notin> set ws" using rep_detached_off [of "lks s" R req] L assms(2) by blast+
  have "rep (lks (enqueue req ?s)) (r_append req (ws_head ?s) (r_detach req R))"
    using L assms(2,3) by (intro rep_enqueue node_detached) auto
  then have "sem_lists (enqueue req ?s) ?R (qs @ [req]) ws"
    using L assms(3) off by (auto simp: sem_lists_def ring_simps remove1_idem)
  moreover have "sem_lists (s\<lparr>lks := list_add_tail req (acquire_list s) (lks s)\<rparr>) (r_append req (acquire_list s) R) qs (ws @ [req])"
    using rep_add_tail [of "lks s" R req "acquire_list s" ws] L assms(2,3) by (auto simp: sem_lists_def ring_simps r_append_def)
  ultimately show ?thesis by (auto simp: acquire_def)
qed

theorem acquire_branches_witness:
  "(\<exists>R'. sem_lists (acquire 5 demo_sem) R' [5] [2, 3, 4]) \<and> cur_val (acquire 5 demo_sem) = 1 \<and> req_sta (acquire 5 demo_sem) 5 = None"
  using acquire_branches [OF demo_sem_lists, of 5] by (simp add: demo_sem_def demo_sem0_def demo_sem_rings_def r_append_def)

text \<open>
  the destructor. Every waiting request is moved, in order, to the executor queue with status
  \<open>REQ_FAIL\<close>, so each awaiting coroutine is resumed and reads \<open>false\<close>; no request stays on the list of the
  destroyed semaphore.
\<close>

theorem Semaphore_dtor_fails_waiters:
  assumes "sem_lists s R qs ws"
  shows "\<exists>s' R'. Semaphore_dtor s = Some s' \<and> sem_lists s' R' (qs @ ws) [] \<and>
    (\<forall>x. req_sta s' x = (if x \<in> set ws then Some REQ_FAIL else req_sta s x)) \<and>
    log s' = log s @ (if ws \<noteq> [] \<and> trig s then [Trig] else [])"
proof (cases "ws = []")
  case True
  then show ?thesis using assms sem_list_empty [OF assms] by (intro exI [of _ s] exI [of _ R]) (simp add: Semaphore_dtor_def Let_def)
next
  case False
  have loop: "list_for_each_safe (\<lambda>st. lks (fst st)) sem_dtor_body (acquire_list s) (nxt (lks s) (acquire_list s))
      (nxt (lks s) (nxt (lks s) (acquire_list s))) (s, False) = Some (each_until sem_dtor_body ws (s, False))"
    using assms by (rule sem_loop) (blast dest: sem_dtor_body_step)
  from sem_dtor_each [OF assms, of False] obtain s' R' where e: "each_until sem_dtor_body ws (s, False) = (s', ws \<noteq> [])"
    and r: "sem_lists s' R' (qs @ ws) []" "\<forall>x. req_sta s' x = (if x \<in> set ws then Some REQ_FAIL else req_sta s x)"
      "trig s' = trig s" "log s' = log s" by auto
  have "Semaphore_dtor s = Some (trig_once s')" using False loop e sem_list_empty [OF assms] by (simp add: Semaphore_dtor_def Let_def)
  moreover have "sem_lists (trig_once s') R' (qs @ ws) []" using r(1) by (simp add: sem_lists_def)
  ultimately show ?thesis using False r by auto
qed

theorem Semaphore_dtor_fails_waiters_witness:
  "\<exists>s' R'. Semaphore_dtor demo_sem = Some s' \<and> sem_lists s' R' [2, 3, 4] [] \<and> req_sta s' 3 = Some REQ_FAIL"
  using Semaphore_dtor_fails_waiters [OF demo_sem_lists] by auto

end
