(* ===== verification/Spin_Lock.thy ===== *)
theory Spin_Lock
  imports Prelude
begin

text \<open>
  The lock of \<^verbatim>\<open>task/lock.hpp\<close>: an atomic flag, taken by a \<open>test_and_set\<close> loop and given back by
  \<open>clear\<close>. Any number of threads run \<open>lock(); ...; unlock();\<close> in any interleaving of their atomic
  operations. This is what allows the other theories to take the code between \<open>lock()\<close> and
  \<open>unlock()\<close> as one step. (\<open>nolock\<close>, whose two operations do nothing, is for single threaded
  executors.)
\<close>

section \<open>Model\<close>

datatype pc = Outside | Spinning | Inside

record spin_sys =
  locked_flag :: bool
  pcs :: "nat \<Rightarrow> pc"

definition ATOMIC_FLAG_INIT :: spin_sys where
  "ATOMIC_FLAG_INIT = \<lparr>locked_flag = False, pcs = (\<lambda>_. Outside)\<rparr>"

text \<open>The atomic exchange: the old value, and the state with the flag set.\<close>

definition test_and_set :: "spin_sys \<Rightarrow> bool \<times> spin_sys" where
  "test_and_set s = (locked_flag s, s\<lparr>locked_flag := True\<rparr>)"

text \<open>One turn of the loop of \<open>lock()\<close> by thread \<open>t\<close>: the loop goes on while the old value was true.\<close>

definition lock_turn :: "nat \<Rightarrow> spin_sys \<Rightarrow> spin_sys" where
  "lock_turn t s = (case test_and_set s of (old, s') \<Rightarrow>
     s'\<lparr>pcs := (pcs s')(t := if old then Spinning else Inside)\<rparr>)"

definition unlock :: "nat \<Rightarrow> spin_sys \<Rightarrow> spin_sys" where
  "unlock t s = s\<lparr>locked_flag := False, pcs := (pcs s)(t := Outside)\<rparr>"

inductive spin_step :: "spin_sys \<Rightarrow> spin_sys \<Rightarrow> bool" where
  call_lock: "pcs s t = Outside \<Longrightarrow> spin_step s (s\<lparr>pcs := (pcs s)(t := Spinning)\<rparr>)"
| turn: "pcs s t = Spinning \<Longrightarrow> spin_step s (lock_turn t s)"
| call_unlock: "pcs s t = Inside \<Longrightarrow> spin_step s (unlock t s)"

inductive spin_reachable :: "spin_sys \<Rightarrow> bool" where
  start: "spin_reachable ATOMIC_FLAG_INIT"
| step: "spin_reachable s \<Longrightarrow> spin_step s s' \<Longrightarrow> spin_reachable s'"

inductive_cases spin_stepE: "spin_step s s'"

section \<open>Lemmas\<close>

lemmas spin_defs = test_and_set_def lock_turn_def unlock_def ATOMIC_FLAG_INIT_def

text \<open>The flag is set exactly while one thread is inside, and then no other thread is.\<close>

definition spin_inv :: "spin_sys \<Rightarrow> bool" where
  "spin_inv s \<longleftrightarrow> (\<forall>t u. pcs s t = Inside \<longrightarrow> pcs s u = Inside \<longrightarrow> t = u) \<and>
     (locked_flag s \<longleftrightarrow> (\<exists>t. pcs s t = Inside))"

lemma spin_step_inv: "spin_step s s' \<Longrightarrow> spin_inv s \<Longrightarrow> spin_inv s'"
proof (erule spin_stepE)
  fix t assume a: "spin_inv s" "s' = s\<lparr>pcs := (pcs s)(t := Spinning)\<rparr>" "pcs s t = Outside"
  then have "pcs s' v = Inside \<longleftrightarrow> pcs s v = Inside" for v by simp
  with a show ?thesis by (simp add: spin_inv_def)
next
  fix t assume a: "spin_inv s" "s' = lock_turn t s" "pcs s t = Spinning"
  then have "pcs s' v = Inside \<longleftrightarrow> pcs s v = Inside \<or> \<not> locked_flag s \<and> v = t" and "locked_flag s'" for v
    by (auto simp: spin_defs)
  with a(1) show ?thesis by (cases "locked_flag s") (simp_all add: spin_inv_def)
next
  fix t assume "spin_inv s" "s' = unlock t s" "pcs s t = Inside"
  then show ?thesis by (auto simp: spin_inv_def spin_defs)
qed

lemma spin_reachable_inv: "spin_reachable s \<Longrightarrow> spin_inv s"
proof (induction rule: spin_reachable.induct)
  case start
  show ?case by (simp add: spin_inv_def spin_defs)
next
  case (step s s')
  then show ?case by (blast intro: spin_step_inv)
qed

section \<open>Properties\<close>

text \<open>
  C12: mutual exclusion and no lost lock. In every reachable state at most one thread is between
  \<open>lock()\<close> and \<open>unlock()\<close>; the flag is set exactly when one is; and when none is, the next turn of
  any spinning thread gets the lock.
\<close>

theorem spinlock_mutual_exclusion:
  assumes "spin_reachable s"
  shows "(pcs s t = Inside \<and> pcs s u = Inside \<longrightarrow> t = u) \<and>
    (locked_flag s \<longleftrightarrow> (\<exists>v. pcs s v = Inside)) \<and>
    ((\<forall>v. pcs s v \<noteq> Inside) \<longrightarrow> pcs (lock_turn t s) t = Inside)"
  using spin_reachable_inv [OF assms] by (auto simp: spin_inv_def spin_defs)

definition demo_spin :: spin_sys where
  "demo_spin = lock_turn 0 (ATOMIC_FLAG_INIT\<lparr>pcs := (pcs ATOMIC_FLAG_INIT)(0 := Spinning)\<rparr>)"

lemma demo_spin_reachable: "spin_reachable demo_spin"
  unfolding demo_spin_def
  by (rule spin_reachable.step, rule spin_reachable.step, rule spin_reachable.start,
      rule spin_step.call_lock [of _ 0], simp add: spin_defs, rule spin_step.turn, simp)

theorem spinlock_mutual_exclusion_witness:
  "pcs demo_spin 0 = Inside \<and> locked_flag demo_spin \<and> pcs demo_spin 1 \<noteq> Inside"
  using spinlock_mutual_exclusion [OF demo_spin_reachable, of 0 1]
  by (auto simp: demo_spin_def spin_defs)

end
