(* ===== verification/Task_Worker.thy ===== *)
theory Task_Worker
  imports Workqueue
begin

text \<open>
  Coroutine tasks: the promise types and \<open>Task\<close> of \<^verbatim>\<open>task/task.hpp\<close>, the worker promise of
  \<^verbatim>\<open>task/worker.hpp\<close> and the aggregate awaiter of \<^verbatim>\<open>task/when_all.hpp\<close>.

  A coroutine frame is named by the address of its promise, which is also its work node. What a
  coroutine body computes is outside: a call of \<open>resume()\<close> is recorded and puts the coroutine in the
  phase \<open>Running\<close>; it leaves that phase by suspending or by reaching its final suspend point.
\<close>

section \<open>Data\<close>

datatype handle = Null_h | Noop_h | Co addr

datatype on_completed_t = Adapter | When_all_cb | User_completed nat

datatype phase = Initial | Suspended | Running | Final | Destroyed

record co = wq +
  phase :: "addr \<Rightarrow> phase"
  mPrevious :: "addr \<Rightarrow> handle"
  mOnCompleted :: "addr \<Rightarrow> on_completed_t option"
  mUserData :: "addr \<Rightarrow> addr option"
  mResult :: "addr \<Rightarrow> nat option"
  excutor :: "addr \<Rightarrow> bool"
  running_on_executor :: "addr \<Rightarrow> bool"
  completion_posted :: "addr \<Rightarrow> bool"
  user_on_completed :: "addr \<Rightarrow> on_completed_t option"
  ctl_count :: "addr \<Rightarrow> 64 word"
  ctl_previous :: "addr \<Rightarrow> handle"
  malloc_cnt :: int
  free_cnt :: int
  resumes :: "handle list"
  user_calls :: "(nat \<times> addr) list"
  destroys :: "addr list"

definition resume :: "handle \<Rightarrow> 'a co_scheme \<Rightarrow> 'a co_scheme" where
  "resume t s = (case t of
      Co h \<Rightarrow> s\<lparr>phase := (phase s)(h := Running), resumes := resumes s @ [Co h]\<rparr>
    | Noop_h \<Rightarrow> s
    | Null_h \<Rightarrow> s)"

text \<open>
  Creating a coroutine allocates its frame (\<open>promise_with_alloc::operator new\<close>), default-initialises the promise and
  suspends (\<open>initial_suspend\<close>); destroying it frees the frame. The two counters are those of \<open>sys_sta\<close>.
\<close>

definition create :: "addr \<Rightarrow> 'a co_scheme \<Rightarrow> 'a co_scheme" where
  "create h s = s\<lparr>malloc_cnt := malloc_cnt s + 1, phase := (phase s)(h := Initial),
     mPrevious := (mPrevious s)(h := Null_h), mOnCompleted := (mOnCompleted s)(h := None),
     mUserData := (mUserData s)(h := None), mResult := (mResult s)(h := None),
     excutor := (excutor s)(h := False), running_on_executor := (running_on_executor s)(h := False),
     completion_posted := (completion_posted s)(h := False), user_on_completed := (user_on_completed s)(h := None)\<rparr>"

definition destroy :: "addr \<Rightarrow> 'a co_scheme \<Rightarrow> 'a co_scheme" where
  "destroy h s = s\<lparr>phase := (phase s)(h := Destroyed), free_cnt := free_cnt s + 1, destroys := destroys s @ [h]\<rparr>"

definition done_h :: "addr \<Rightarrow> 'a co_scheme \<Rightarrow> bool" where
  "done_h h s \<longleftrightarrow> phase s h = Final"

section \<open>Results\<close>

text \<open>\<open>Uninitialized<T>\<close>: \<open>None\<close> is storage without a live value.\<close>

definition emplace :: "nat \<Rightarrow> nat option \<Rightarrow> nat option" where
  "emplace v m = Some v"

definition move :: "nat option \<Rightarrow> nat option \<times> nat option" where
  "move m = (m, None)"

definition return_value :: "addr \<Rightarrow> nat \<Rightarrow> 'a co_scheme \<Rightarrow> 'a co_scheme" where
  "return_value h v s = s\<lparr>mResult := (mResult s)(h := emplace v (mResult s h))\<rparr>"

definition promise_result :: "addr \<Rightarrow> 'a co_scheme \<Rightarrow> nat option \<times> 'a co_scheme" where
  "promise_result h s = (case move (mResult s h) of (v, m) \<Rightarrow> (v, s\<lparr>mResult := (mResult s)(h := m)\<rparr>))"

section \<open>The task object\<close>

text \<open>A \<open>Task\<close> is the handle it owns.\<close>

definition Task_move :: "handle \<Rightarrow> handle \<times> handle" where
  "Task_move that = (that, Null_h)"

definition Task_assign :: "handle \<Rightarrow> handle \<Rightarrow> handle \<times> handle" where
  "Task_assign this that = (that, this)"

definition Task_detach :: "handle \<Rightarrow> handle \<times> handle" where
  "Task_detach this = (this, Null_h)"

definition Task_dtor :: "handle \<Rightarrow> 'a co_scheme \<Rightarrow> 'a co_scheme" where
  "Task_dtor this s = (case this of Co h \<Rightarrow> destroy h s | _ \<Rightarrow> s)"

definition Task_Awaiter_await_suspend :: "addr \<Rightarrow> addr \<Rightarrow> 'a co_scheme \<Rightarrow> handle \<times> 'a co_scheme" where
  "Task_Awaiter_await_suspend h coroutine s = (Co h, s\<lparr>mPrevious := (mPrevious s)(h := Co coroutine)\<rparr>)"

definition Task_Awaiter_await_resume :: "addr \<Rightarrow> 'a co_scheme \<Rightarrow> nat option \<times> 'a co_scheme" where
  "Task_Awaiter_await_resume h s = promise_result h s"

section \<open>Workers\<close>

definition promise_post :: "bool \<Rightarrow> addr \<Rightarrow> 'a co_scheme \<Rightarrow> 'a co_scheme" where
  "promise_post wq_set h s =
     (let s1 = s\<lparr>excutor := (excutor s)(h := wq_set), func := (func s)(h := Code Wk_cb)\<rparr>
      in if wq_set then wq_post h s1 else s1)"

text \<open>\<open>wk_cb\<close>, cut at the return of \<open>coro.resume()\<close> and between its last two statements.\<close>

definition wk_cb_enter :: "addr \<Rightarrow> 'a co_scheme \<Rightarrow> 'a co_scheme" where
  "wk_cb_enter h s =
     (let s1 = s\<lparr>running_on_executor := (running_on_executor s)(h := True)\<rparr>
      in if \<not> done_h h s1 then resume (Co h) s1 else s1)"

definition wk_cb_return :: "addr \<Rightarrow> 'a co_scheme \<Rightarrow> 'a co_scheme" where
  "wk_cb_return h s = s\<lparr>running_on_executor := (running_on_executor s)(h := False)\<rparr>"

definition wk_cb_finish :: "addr \<Rightarrow> 'a co_scheme \<Rightarrow> 'a co_scheme" where
  "wk_cb_finish h s =
     (if done_h h s
      then destroy h (s\<lparr>completion_posted := (completion_posted s)(h := False),
                        user_on_completed := (user_on_completed s)(h := None)\<rparr>)
      else s)"

definition destroy_on_executor :: "addr \<Rightarrow> 'a co_scheme \<Rightarrow> 'a co_scheme" where
  "destroy_on_executor h s = destroy h s"

definition when_all_on_completed :: "addr \<Rightarrow> 'a co_scheme \<Rightarrow> 'a co_scheme" where
  "when_all_on_completed h s =
     (case mUserData s h of
        None \<Rightarrow> s
      | Some c \<Rightarrow>
          let n = ctl_count s c - 1; s1 = s\<lparr>ctl_count := (ctl_count s)(c := n)\<rparr>
          in if n = 0 then (if ctl_previous s1 c \<noteq> Null_h then resume (ctl_previous s1 c) s1 else s1) else s1)"

definition user_completed :: "on_completed_t \<Rightarrow> addr \<Rightarrow> 'a co_scheme \<Rightarrow> 'a co_scheme" where
  "user_completed cb h s =
     (case cb of User_completed n \<Rightarrow> s\<lparr>user_calls := user_calls s @ [(n, h)]\<rparr>
      | When_all_cb \<Rightarrow> when_all_on_completed h s
      | Adapter \<Rightarrow> s)"

definition on_completed_adapter :: "addr \<Rightarrow> 'a co_scheme \<Rightarrow> 'a co_scheme" where
  "on_completed_adapter h s =
     (let s1 = (case user_on_completed s h of Some cb \<Rightarrow> user_completed cb h s | None \<Rightarrow> s)
      in if \<not> completion_posted s1 h \<and> excutor s1 h \<and> \<not> running_on_executor s1 h
         then promise_post (excutor s1 h) h
                (s1\<lparr>completion_posted := (completion_posted s1)(h := True),
                    func := (func s1)(h := Code Destroy_on_executor)\<rparr>)
         else s1)"

definition prepare_for_post :: "addr \<Rightarrow> 'a co_scheme \<Rightarrow> 'a co_scheme" where
  "prepare_for_post h s =
     (let s1 = (if mOnCompleted s h \<noteq> Some Adapter
                then s\<lparr>user_on_completed := (user_on_completed s)(h := mOnCompleted s h),
                       mOnCompleted := (mOnCompleted s)(h := Some Adapter)\<rparr>
                else s)
      in s1\<lparr>completion_posted := (completion_posted s1)(h := False)\<rparr>)"

text \<open>\<open>post_to\<close> empties the task object and queues the coroutine; \<open>None\<close>: it dereferences a null task.\<close>

definition post_to :: "handle \<Rightarrow> 'a co_scheme \<Rightarrow> (handle \<times> 'a co_scheme) option" where
  "post_to tk s =
     (case tk of
        Co h \<Rightarrow>
          let s1 = s\<lparr>lks := INIT_LIST_HEAD h (lks s)\<rparr>;
              s2 = prepare_for_post h s1
          in Some (snd (Task_detach tk), promise_post True h s2)
      | _ \<Rightarrow> None)"

section \<open>Completion\<close>

definition call_on_completed :: "on_completed_t option \<Rightarrow> addr \<Rightarrow> 'a co_scheme \<Rightarrow> 'a co_scheme" where
  "call_on_completed cb h s =
     (case cb of None \<Rightarrow> s
      | Some Adapter \<Rightarrow> on_completed_adapter h s
      | Some When_all_cb \<Rightarrow> when_all_on_completed h s
      | Some (User_completed n) \<Rightarrow> s\<lparr>user_calls := user_calls s @ [(n, h)]\<rparr>)"

definition FinalAwaiter_await_suspend :: "addr \<Rightarrow> 'a co_scheme \<Rightarrow> handle \<times> 'a co_scheme" where
  "FinalAwaiter_await_suspend h s =
     (let previous = mPrevious s h; on_completed = mOnCompleted s h;
          s1 = call_on_completed on_completed h s
      in (if previous \<noteq> Null_h then previous else Noop_h, s1))"

definition PreviousAwaiter_await_suspend :: "handle \<Rightarrow> handle" where
  "PreviousAwaiter_await_suspend previous = (if previous \<noteq> Null_h then previous else Noop_h)"

text \<open>
  The body of \<open>h\<close> ends: the coroutine is suspended at its final suspend point, the awaiter runs and
  control is transferred to the handle it returns.
\<close>

definition co_return :: "addr \<Rightarrow> 'a co_scheme \<Rightarrow> 'a co_scheme" where
  "co_return h s =
     (case FinalAwaiter_await_suspend h (s\<lparr>phase := (phase s)(h := Final)\<rparr>) of (t, s1) \<Rightarrow> resume t s1)"

section \<open>Waiting for several tasks\<close>

text \<open>
  \<open>start h\<close> stands for the first run of the child, up to its first suspension or its end (the
  effect of the call \<open>hchild.resume()\<close>).
\<close>

definition when_all_child :: "(addr \<Rightarrow> 'a co_scheme \<Rightarrow> 'a co_scheme) \<Rightarrow> addr \<Rightarrow> handle \<Rightarrow> 'a co_scheme \<Rightarrow> 'a co_scheme" where
  "when_all_child start c child s =
     (case child of
        Co h \<Rightarrow> start h (s\<lparr>mPrevious := (mPrevious s)(h := Noop_h), mUserData := (mUserData s)(h := Some c),
                          mOnCompleted := (mOnCompleted s)(h := Some When_all_cb)\<rparr>)
      | _ \<Rightarrow> s)"

definition WhenAllAwaiter_init :: "addr \<Rightarrow> handle list \<Rightarrow> 'a co_scheme \<Rightarrow> 'a co_scheme" where
  "WhenAllAwaiter_init c tasks s =
     s\<lparr>ctl_count := (ctl_count s)(c := of_nat (length tasks)), ctl_previous := (ctl_previous s)(c := Null_h)\<rparr>"

definition when_all_await_suspend ::
  "(addr \<Rightarrow> 'a co_scheme \<Rightarrow> 'a co_scheme) \<Rightarrow> addr \<Rightarrow> handle list \<Rightarrow> handle \<Rightarrow> 'a co_scheme \<Rightarrow> handle \<times> 'a co_scheme" where
  "when_all_await_suspend start c tasks h s =
     (Noop_h, fold (when_all_child start c) tasks (s\<lparr>ctl_previous := (ctl_previous s)(c := h)\<rparr>))"

section \<open>Schedules of one worker\<close>

text \<open>
  What can happen to a posted worker \<open>h\<close>: an executor thread takes nodes and runs \<open>wk_cb\<close>, the running body
  suspends or ends, an awaiter resumes the suspended body from outside \<open>wk_cb\<close>, other nodes are
  posted. The program counter is that of the thread that is inside \<open>wk_cb\<close> of \<open>h\<close>. With
  \<open>single\<close>, one thread serves the executor: nothing else runs until \<open>wk_cb\<close> has returned.
\<close>

datatype wk_pc = Idle | In_resume | Returned | Flag_cleared

inductive wk_step :: "bool \<Rightarrow> addr \<Rightarrow> co \<times> wk_pc \<Rightarrow> co \<times> wk_pc \<Rightarrow> bool" for single h where
  take: "get_work_node s = (Some h, s1) \<Longrightarrow>
    wk_step single h (s, Idle) (wk_cb_enter h s1, if done_h h s1 then Returned else In_resume)"
| take_other: "get_work_node s = (Some p, s1) \<Longrightarrow> p \<noteq> h \<Longrightarrow> (single \<Longrightarrow> pc = Idle) \<Longrightarrow> wk_step single h (s, pc) (s1, pc)"
| post_other: "p \<noteq> h \<Longrightarrow> p \<noteq> ws_head s \<Longrightarrow> list_empty p (lks s) \<Longrightarrow> wk_step single h (s, pc) (wq_post p s, pc)"
| suspend: "phase s h = Running \<Longrightarrow>
    wk_step single h (s, pc) (s\<lparr>phase := (phase s)(h := Suspended)\<rparr>, if pc = In_resume then Returned else pc)"
| finish: "phase s h = Running \<Longrightarrow> wk_step single h (s, pc) (co_return h s, if pc = In_resume then Returned else pc)"
| resume_outside: "phase s h = Suspended \<Longrightarrow> (single \<Longrightarrow> pc = Idle) \<Longrightarrow> wk_step single h (s, pc) (resume (Co h) s, pc)"
| clear_flag: "wk_step single h (s, Returned) (wk_cb_return h s, Flag_cleared)"
| leave: "wk_step single h (s, Flag_cleared) (wk_cb_finish h s, Idle)"

text \<open>A fresh coroutine, its completion callback unset or one of the user, is posted to an executor.\<close>

inductive wk_reachable :: "bool \<Rightarrow> addr \<Rightarrow> co \<times> wk_pc \<Rightarrow> bool" for single h where
  start: "lks s = fresh_links \<Longrightarrow> h \<noteq> ws_head s \<Longrightarrow> h \<notin> set (destroys s) \<Longrightarrow>
    post_to (Co h) ((create h s)\<lparr>mOnCompleted := (mOnCompleted s)(h := map_option User_completed cb)\<rparr>) = Some (tk, s1) \<Longrightarrow>
    wk_reachable single h (s1, Idle)"
| step: "wk_reachable single h c \<Longrightarrow> wk_step single h c c' \<Longrightarrow> wk_reachable single h c'"

section \<open>Lemmas\<close>

lemma co_wq_simps [simp]:
  "phase (wq_post a s) = phase s" "mPrevious (wq_post a s) = mPrevious s" "mOnCompleted (wq_post a s) = mOnCompleted s"
  "excutor (wq_post a s) = excutor s" "running_on_executor (wq_post a s) = running_on_executor s"
  "completion_posted (wq_post a s) = completion_posted s" "user_on_completed (wq_post a s) = user_on_completed s"
  "destroys (wq_post a s) = destroys s" "func (wq_post a s) = func s" "ws_head (wq_post a s) = ws_head s"
  "mResult (wq_post a s) = mResult s" "resumes (wq_post a s) = resumes s" "ctl_count (wq_post a s) = ctl_count s"
  "malloc_cnt (wq_post a s) = malloc_cnt s" "free_cnt (wq_post a s) = free_cnt s"
  by (simp_all add: wq_post_def enqueue_def trig_once_def emit_def)

fun wk_phase_ok :: "phase \<Rightarrow> bool \<Rightarrow> wk_pc \<Rightarrow> bool \<Rightarrow> nat \<Rightarrow> bool" where
  "wk_phase_ok Initial q pc posted n \<longleftrightarrow> q \<and> pc = Idle \<and> \<not> posted \<and> n = 0"
| "wk_phase_ok Running q pc posted n \<longleftrightarrow> \<not> q \<and> pc \<in> {Idle, In_resume} \<and> \<not> posted \<and> n = 0"
| "wk_phase_ok Suspended q pc posted n \<longleftrightarrow> \<not> q \<and> pc \<noteq> In_resume \<and> \<not> posted \<and> n = 0"
| "wk_phase_ok Final q pc posted n \<longleftrightarrow> (if pc = Idle then q else \<not> q \<and> pc \<noteq> In_resume) \<and> n = 0"
| "wk_phase_ok Destroyed q pc posted n \<longleftrightarrow> \<not> q \<and> pc = Idle \<and> n = 1"

definition wk_inv :: "addr \<Rightarrow> co \<times> wk_pc \<Rightarrow> bool" where
  "wk_inv h = (\<lambda>(s, pc). \<exists>R qs. wq_world s R qs \<and> h \<noteq> ws_head s \<and>
     (running_on_executor s h \<longleftrightarrow> pc \<in> {In_resume, Returned}) \<and> excutor s h \<and> mOnCompleted s h = Some Adapter \<and>
     user_on_completed s h \<notin> {Some Adapter, Some When_all_cb} \<and> mPrevious s h = Null_h \<and>
     (h \<in> set qs \<longrightarrow> func s h = Code Wk_cb) \<and>
     wk_phase_ok (phase s h) (h \<in> set qs) pc (completion_posted s h) (count_list (destroys s) h))"

lemma wk_invI:
  assumes "wq_world s R qs" "h \<noteq> ws_head s"
    "running_on_executor s h \<longleftrightarrow> pc \<in> {In_resume, Returned}" "excutor s h" "mOnCompleted s h = Some Adapter"
    "user_on_completed s h \<notin> {Some Adapter, Some When_all_cb}" "mPrevious s h = Null_h"
    "h \<in> set qs \<Longrightarrow> func s h = Code Wk_cb"
    "wk_phase_ok (phase s h) (h \<in> set qs) pc (completion_posted s h) (count_list (destroys s) h)"
  shows "wk_inv h (s, pc)"
  using assms unfolding wk_inv_def by blast

lemma wk_invE:
  assumes "wk_inv h (s, pc)"
  obtains R qs where "wq_world s R qs" "h \<noteq> ws_head s"
    "running_on_executor s h \<longleftrightarrow> pc \<in> {In_resume, Returned}" "excutor s h" "mOnCompleted s h = Some Adapter"
    "user_on_completed s h \<notin> {Some Adapter, Some When_all_cb}" "mPrevious s h = Null_h"
    "h \<in> set qs \<longrightarrow> func s h = Code Wk_cb"
    "wk_phase_ok (phase s h) (h \<in> set qs) pc (completion_posted s h) (count_list (destroys s) h)"
  using assms unfolding wk_inv_def by blast

lemma co_return_detached:
  assumes "mOnCompleted s h = Some Adapter" and u: "user_on_completed s h \<notin> {Some Adapter, Some When_all_cb}" and "mPrevious s h = Null_h"
    and "excutor s h"
  shows "\<exists>s1. co_return h s =
    (if completion_posted s h \<or> running_on_executor s h then s1
     else wq_post h (s1\<lparr>completion_posted := (completion_posted s)(h := True), excutor := (excutor s)(h := True), func := (func s)(h := Code Wk_cb)\<rparr>)) \<and>
    lks s1 = lks s \<and> ws_head s1 = ws_head s \<and> func s1 = func s \<and> phase s1 = (phase s)(h := Final) \<and> mPrevious s1 = mPrevious s \<and>
    mOnCompleted s1 = mOnCompleted s \<and> excutor s1 = excutor s \<and> running_on_executor s1 = running_on_executor s \<and>
    completion_posted s1 = completion_posted s \<and> user_on_completed s1 = user_on_completed s \<and> destroys s1 = destroys s"
proof -
  let ?s = "s\<lparr>phase := (phase s)(h := Final)\<rparr>"
  define v where "v = (case user_on_completed ?s h of Some cb \<Rightarrow> user_completed cb h ?s | None \<Rightarrow> ?s)"
  have u: "lks v = lks s" "ws_head v = ws_head s" "func v = func s" "phase v = (phase s)(h := Final)" "mPrevious v = mPrevious s"
    "mOnCompleted v = mOnCompleted s" "excutor v = excutor s" "running_on_executor v = running_on_executor s"
    "completion_posted v = completion_posted s" "user_on_completed v = user_on_completed s" "destroys v = destroys s"
    unfolding v_def using u by (auto simp: user_completed_def split: option.splits on_completed_t.splits)
  have "on_completed_adapter h ?s = (if completion_posted s h \<or> running_on_executor s h then v
     else wq_post h (v\<lparr>completion_posted := (completion_posted s)(h := True), excutor := (excutor s)(h := True), func := (func s)(h := Code Wk_cb)\<rparr>))"
    using assms(4) unfolding on_completed_adapter_def v_def [symmetric] Let_def promise_post_def by (simp add: u)
  moreover have "co_return h s = on_completed_adapter h ?s"
    using assms(1,3) by (simp add: co_return_def FinalAwaiter_await_suspend_def call_on_completed_def Let_def resume_def)
  ultimately show ?thesis using u by (intro exI [of _ v]) simp
qed

lemma wk_inv_finish:
  assumes I: "wk_inv h (s, pc)" and r: "phase s h = Running"
  shows "wk_inv h (co_return h s, if pc = In_resume then Returned else pc)"
proof -
  from I obtain R qs where W: "wq_world s R qs" and h: "h \<noteq> ws_head s"
    and f: "running_on_executor s h \<longleftrightarrow> pc \<in> {In_resume, Returned}" "excutor s h" "mOnCompleted s h = Some Adapter"
      "user_on_completed s h \<notin> {Some Adapter, Some When_all_cb}" "mPrevious s h = Null_h"
    and p: "wk_phase_ok (phase s h) (h \<in> set qs) pc (completion_posted s h) (count_list (destroys s) h)" by (rule wk_invE)
  from p r have p: "h \<notin> set qs" "pc = Idle \<or> pc = In_resume" "\<not> completion_posted s h" "count_list (destroys s) h = 0" by auto
  from co_return_detached [OF f(3-5) f(2)] obtain s1 where
    e: "co_return h s = (if completion_posted s h \<or> running_on_executor s h then s1
     else wq_post h (s1\<lparr>completion_posted := (completion_posted s)(h := True), excutor := (excutor s)(h := True), func := (func s)(h := Code Wk_cb)\<rparr>))"
    and s1: "lks s1 = lks s" "ws_head s1 = ws_head s" "func s1 = func s" "phase s1 = (phase s)(h := Final)" "mPrevious s1 = mPrevious s"
      "mOnCompleted s1 = mOnCompleted s" "excutor s1 = excutor s" "running_on_executor s1 = running_on_executor s"
      "completion_posted s1 = completion_posted s" "user_on_completed s1 = user_on_completed s" "destroys s1 = destroys s" by blast
  show ?thesis
  proof (cases "pc = In_resume")
    case True
    then have "co_return h s = s1" using e f by simp
    moreover have "wq_world s1 R qs" using W s1(1,2) by (rule wq_world_upd)
    ultimately show ?thesis using True f h p s1 by (intro wk_invI) auto
  next
    case False
    then have pc: "pc = Idle" using p by simp
    let ?t = "s1\<lparr>completion_posted := (completion_posted s)(h := True), excutor := (excutor s)(h := True), func := (func s)(h := Code Wk_cb)\<rparr>"
    have "wq_world ?t R qs" using W by (rule wq_world_upd) (simp_all add: s1)
    from wq_world_post [OF this, of h] h s1 obtain R' where "wq_world (wq_post h ?t) R' (remove1 h qs @ [h])" by auto
    moreover have "co_return h s = wq_post h ?t" using e f p pc by simp
    ultimately show ?thesis using pc f h p s1 by (intro wk_invI) auto
  qed
qed

lemma wk_inv_take:
  assumes I: "wk_inv h (s, Idle)" and g: "get_work_node s = (Some h, s1)"
  shows "wk_inv h (wk_cb_enter h s1, if done_h h s1 then Returned else In_resume)"
proof -
  from I obtain R qs where W: "wq_world s R qs" and h: "h \<noteq> ws_head s"
    and f: "running_on_executor s h \<longleftrightarrow> Idle \<in> {In_resume, Returned}" "excutor s h" "mOnCompleted s h = Some Adapter"
      "user_on_completed s h \<notin> {Some Adapter, Some When_all_cb}" "mPrevious s h = Null_h"
    and p: "wk_phase_ok (phase s h) (h \<in> set qs) Idle (completion_posted s h) (count_list (destroys s) h)" by (rule wk_invE)
  from wq_world_take [OF W g] obtain R' qs' where t: "qs = h # qs'" "wq_world s1 R' qs'" "s1 = s\<lparr>lks := list_del h (lks s)\<rparr>" by blast
  have nq: "h \<notin> set qs'" using wq_world_distinct [OF W] t(1) by simp
  have W': "wq_world (wk_cb_enter h s1) R' qs'" using t(2) by (rule wq_world_upd) (simp_all add: wk_cb_enter_def Let_def resume_def)
  have "phase s h = Initial \<or> phase s h = Final" using p t(1) by (cases "phase s h") auto
  then show ?thesis using W' f h p nq t(1)
    by (intro wk_invI [OF W']) (auto simp: t(3) wk_cb_enter_def Let_def resume_def done_h_def)
qed

lemma wk_step_inv:
  assumes "wk_step True h c c'" and "wk_inv h c"
  shows "wk_inv h c'"
  using assms
proof (induction rule: wk_step.induct)
  case (take s s1)
  then show ?case by (intro wk_inv_take)
next
  case (take_other s p s1 pc)
  from take_other(4) obtain R qs where W: "wq_world s R qs" and h: "h \<noteq> ws_head s"
    and f: "running_on_executor s h \<longleftrightarrow> pc \<in> {In_resume, Returned}" "excutor s h" "mOnCompleted s h = Some Adapter"
      "user_on_completed s h \<notin> {Some Adapter, Some When_all_cb}" "mPrevious s h = Null_h" "h \<in> set qs \<longrightarrow> func s h = Code Wk_cb"
    and p: "wk_phase_ok (phase s h) (h \<in> set qs) pc (completion_posted s h) (count_list (destroys s) h)" by (rule wk_invE)
  from wq_world_take [OF W take_other(1)] obtain R' qs' where t: "qs = p # qs'" "wq_world s1 R' qs'" "s1 = s\<lparr>lks := list_del p (lks s)\<rparr>" by blast
  show ?case using f h p t(1) take_other(2) by (intro wk_invI [OF t(2)]) (auto simp: t(3))
next
  case (post_other p s pc)
  from post_other(4) obtain R qs where W: "wq_world s R qs" and h: "h \<noteq> ws_head s"
    and f: "running_on_executor s h \<longleftrightarrow> pc \<in> {In_resume, Returned}" "excutor s h" "mOnCompleted s h = Some Adapter"
      "user_on_completed s h \<notin> {Some Adapter, Some When_all_cb}" "mPrevious s h = Null_h" "h \<in> set qs \<longrightarrow> func s h = Code Wk_cb"
    and p: "wk_phase_ok (phase s h) (h \<in> set qs) pc (completion_posted s h) (count_list (destroys s) h)" by (rule wk_invE)
  from wq_world_post [OF W post_other(2)] obtain R' where W': "wq_world (wq_post p s) R' (remove1 p qs @ [p])" by blast
  have "h \<in> set (remove1 p qs @ [p]) \<longleftrightarrow> h \<in> set qs" using post_other(1) by simp
  with f h p show ?case by (intro wk_invI [OF W']) auto
next
  case (suspend s pc)
  from suspend show ?case by - (elim wk_invE, rule wk_invI, erule wq_world_upd, auto)
next
  case (finish s pc)
  then show ?case by (intro wk_inv_finish)
next
  case (resume_outside s pc)
  from resume_outside show ?case by - (elim wk_invE, rule wk_invI, erule wq_world_upd, auto simp: resume_def)
next
  case (clear_flag s)
  from clear_flag show ?case
    by - (elim wk_invE, rule wk_invI, erule wq_world_upd, simp_all add: wk_cb_return_def, cases "phase s h", auto)
next
  case (leave s)
  from leave show ?case
    by - (elim wk_invE, rule wk_invI, erule wq_world_upd, simp_all add: wk_cb_finish_def done_h_def destroy_def, cases "phase s h", auto)
qed

lemma wk_inv_start:
  assumes l: "lks s = fresh_links" and h: "h \<noteq> ws_head s" and d: "h \<notin> set (destroys s)"
    and p: "post_to (Co h) ((create h s)\<lparr>mOnCompleted := (mOnCompleted s)(h := map_option User_completed cb)\<rparr>) = Some (tk, s1)"
  shows "wk_inv h (s1, Idle)"
proof -
  let ?t = "(prepare_for_post h ((create h s)\<lparr>mOnCompleted := (mOnCompleted s)(h := map_option User_completed cb), lks := fresh_links\<rparr>))
    \<lparr>excutor := (excutor s)(h := True), func := (func s)(h := Code Wk_cb)\<rparr>"
  have u: "map_option User_completed cb \<noteq> Some Adapter" "map_option User_completed cb \<noteq> Some When_all_cb" by (cases cb; simp)+
  have init: "INIT_LIST_HEAD h fresh_links = fresh_links" by (rule INIT_LIST_HEAD_empty [OF rep_fresh_links]) simp
  have s1: "s1 = wq_post h ?t"
    using p l u by (auto simp: post_to_def promise_post_def prepare_for_post_def Let_def create_def init split: if_splits)
  have "wq_world ?t (\<lambda>_. Some []) []" by (rule wq_world_fresh) (simp add: prepare_for_post_def Let_def)
  from wq_world_post [OF this, of h] h obtain R' where W: "wq_world s1 R' [h]"
    by (auto simp: s1 prepare_for_post_def Let_def create_def)
  show ?thesis using h d u
    by (intro wk_invI [OF W]) (auto simp: s1 prepare_for_post_def Let_def create_def count_notin)
qed

lemma wk_reachable_inv: "wk_reachable True h c \<Longrightarrow> wk_inv h c"
  by (induction rule: wk_reachable.induct) (auto intro: wk_inv_start wk_step_inv)

text \<open>\<open>wa\<close>: the control block \<open>c\<close> waits for \<open>n\<close> more completions and \<open>p\<close> has been resumed \<open>r\<close> times.\<close>

definition wa :: "addr \<Rightarrow> addr \<Rightarrow> nat \<Rightarrow> nat \<Rightarrow> 'a co_scheme \<Rightarrow> bool" where
  "wa c p n r s \<longleftrightarrow> ctl_count s c = of_nat n \<and> n < 2 ^ 64 \<and> ctl_previous s c = Co p \<and> count_list (resumes s) (Co p) = r"

definition child_set_up :: "addr \<Rightarrow> addr \<Rightarrow> 'a co_scheme \<Rightarrow> bool" where
  "child_set_up c h s \<longleftrightarrow> mUserData s h = Some c \<and> mOnCompleted s h = Some When_all_cb \<and> mPrevious s h = Noop_h"

lemma word64_of_nat_zero: "n < 2 ^ 64 \<Longrightarrow> (of_nat n :: 64 word) = 0 \<longleftrightarrow> n = 0"
  using dvd_imp_le [of "2 ^ 64" n] by (auto simp: word_of_nat_eq_0_iff)

lemma wa_co_return:
  assumes "wa c p (Suc n) r s" and "child_set_up c h s"
  shows "wa c p n (if n = 0 then Suc r else r) (co_return h s) \<and> (\<forall>k. child_set_up c k (co_return h s) \<longleftrightarrow> child_set_up c k s)"
proof -
  have n: "(of_nat (Suc n) - 1 :: 64 word) = of_nat n" by simp
  have "(of_nat n :: 64 word) = 0 \<longleftrightarrow> n = 0" using assms(1) by (intro word64_of_nat_zero) (simp add: wa_def)
  then show ?thesis using assms n
    by (auto simp: wa_def child_set_up_def co_return_def FinalAwaiter_await_suspend_def call_on_completed_def when_all_on_completed_def resume_def Let_def)
qed

text \<open>
  The children of a \<open>when_all\<close> and how they run: those in \<open>sync\<close> end during their first run, the
  others suspend and end later.
\<close>

fun real_children :: "handle list \<Rightarrow> addr list" where
  "real_children [] = []"
| "real_children (Co h # ts) = h # real_children ts"
| "real_children (_ # ts) = real_children ts"

definition first_run :: "addr set \<Rightarrow> addr \<Rightarrow> 'a co_scheme \<Rightarrow> 'a co_scheme" where
  "first_run sync h s =
     (let s1 = resume (Co h) s in if h \<in> sync then co_return h s1 else s1\<lparr>phase := (phase s1)(h := Suspended)\<rparr>)"

lemma wa_child:
  assumes "wa c p n r s" and "h \<noteq> p" and "h \<in> sync \<Longrightarrow> 0 < n"
  shows "let s' = when_all_child (first_run sync) c (Co h) s; n' = (if h \<in> sync then n - 1 else n) in
    wa c p n' (if h \<in> sync \<and> n' = 0 then Suc r else r) s' \<and> child_set_up c h s' \<and> (\<forall>k. child_set_up c k s \<longrightarrow> child_set_up c k s')"
proof -
  let ?s = "s\<lparr>mPrevious := (mPrevious s)(h := Noop_h), mUserData := (mUserData s)(h := Some c), mOnCompleted := (mOnCompleted s)(h := Some When_all_cb)\<rparr>"
  let ?t = "resume (Co h) ?s"
  have w: "wa c p n r ?t" "child_set_up c h ?t" using assms(1,2) by (auto simp: wa_def child_set_up_def resume_def)
  have k: "child_set_up c k s \<Longrightarrow> child_set_up c k ?t" for k by (simp add: child_set_up_def resume_def)
  show ?thesis
  proof (cases "h \<in> sync")
    case True
    then obtain m where n: "n = Suc m" using assms(3) by (cases n) auto
    show ?thesis using wa_co_return [OF w(1) [unfolded n] w(2)] w k True n by (simp add: when_all_child_def first_run_def Let_def)
  next
    case False
    then show ?thesis using w k by (simp add: when_all_child_def first_run_def Let_def wa_def child_set_up_def)
  qed
qed

lemma wa_children:
  assumes "wa c p n r s" and "p \<notin> set (real_children ts)" and "distinct (real_children ts)" and "length (real_children ts) \<le> n"
    and "\<forall>k\<in>K. child_set_up c k s"
  shows "let s' = fold (when_all_child (first_run sync) c) ts s; m = card (sync \<inter> set (real_children ts)) in
    wa c p (n - m) (if 0 < m \<and> n - m = 0 then Suc r else r) s' \<and> (\<forall>k\<in>K \<union> set (real_children ts). child_set_up c k s')"
  using assms
proof (induction ts arbitrary: n r s K)
  case Nil
  then show ?case by simp
next
  case (Cons t ts)
  show ?case
  proof (cases t)
    case (Co h)
    let ?s = "when_all_child (first_run sync) c (Co h) s" and ?n = "if h \<in> sync then n - 1 else n"
    have a: "wa c p ?n (if h \<in> sync \<and> ?n = 0 then Suc r else r) ?s" "child_set_up c h ?s" "\<forall>k\<in>K. child_set_up c k ?s"
      using wa_child [OF Cons.prems(1), of h sync] Cons.prems Co by (auto simp: Let_def split: if_splits)
    have f: "finite (sync \<inter> set (real_children ts))" "h \<notin> set (real_children ts)" using Cons.prems(3) Co by auto
    let ?m = "card (sync \<inter> set (real_children ts))"
    have m: "card (sync \<inter> set (real_children (t # ts))) = (if h \<in> sync then Suc ?m else ?m)"
      using f Co by (auto simp: Int_insert_right)
    have le: "length (real_children ts) \<le> ?n" using Cons.prems(4) Co by auto
    have z: "?n = 0 \<Longrightarrow> ?m = 0" using le by (auto simp: card_eq_0_iff split: if_splits)
    from Cons.IH [OF a(1) _ _ le, of "insert h K"] a Cons.prems Co
    have "wa c p (?n - ?m) (if 0 < ?m \<and> ?n - ?m = 0 then Suc (if h \<in> sync \<and> ?n = 0 then Suc r else r) else (if h \<in> sync \<and> ?n = 0 then Suc r else r))
        (fold (when_all_child (first_run sync) c) ts ?s) \<and>
      (\<forall>k\<in>insert h K \<union> set (real_children ts). child_set_up c k (fold (when_all_child (first_run sync) c) ts ?s))"
      by (simp add: Let_def)
    moreover have "?n - ?m = n - card (sync \<inter> set (real_children (t # ts)))" using m by auto
    ultimately show ?thesis using m z Co by (auto simp: Let_def split: if_splits)
  qed (use Cons in \<open>auto simp: when_all_child_def\<close>)
qed

lemma wa_finish:
  assumes "wa c p n r s" and "distinct ys" and "length ys \<le> n" and "\<forall>y\<in>set ys. child_set_up c y s"
  shows "wa c p (n - length ys) (if ys \<noteq> [] \<and> n = length ys then Suc r else r) (fold co_return ys s)"
  using assms
proof (induction ys arbitrary: n r s)
  case Nil
  then show ?case by simp
next
  case (Cons y ys)
  from Cons.prems(3) obtain m where n: "n = Suc m" by (cases n) auto
  note st = wa_co_return [OF Cons.prems(1) [unfolded n], of y]
  from Cons.IH [of m "if m = 0 then Suc r else r" "co_return y s"] st Cons.prems n
  show ?case by (auto split: if_splits)
qed

section \<open>Properties\<close>

definition demo_co :: co where
  "demo_co = \<lparr>lks = fresh_links, func = (\<lambda>_. Null), ws_head = 10, trig = True, log = [],
     phase = (\<lambda>_. Initial), mPrevious = (\<lambda>_. Null_h), mOnCompleted = (\<lambda>_. None), mUserData = (\<lambda>_. None), mResult = (\<lambda>_. None),
     excutor = (\<lambda>_. False), running_on_executor = (\<lambda>_. False), completion_posted = (\<lambda>_. False), user_on_completed = (\<lambda>_. None),
     ctl_count = (\<lambda>_. 0), ctl_previous = (\<lambda>_. Null_h), malloc_cnt = 0, free_cnt = 0, resumes = [], user_calls = [], destroys = []\<rparr>"


text \<open>The demonstration worker 2 is posted, runs, suspends, and the first run returns.\<close>

definition demo_posted :: co where
  "demo_posted = promise_post True 2 (prepare_for_post 2 ((create 2 demo_co)\<lparr>mOnCompleted := (\<lambda>_. None)\<rparr>))"

lemma demo_posted_reachable: "wk_reachable single 2 (demo_posted, Idle)"
proof (rule wk_reachable.start [where s = demo_co and cb = None and tk = Null_h])
  have "INIT_LIST_HEAD 2 fresh_links = fresh_links" by (rule INIT_LIST_HEAD_empty [OF rep_fresh_links]) simp
  then show "post_to (Co 2) (create 2 demo_co\<lparr>mOnCompleted := (mOnCompleted demo_co)(2 := map_option User_completed None)\<rparr>) = Some (Null_h, demo_posted)"
    by (simp add: post_to_def demo_posted_def Task_detach_def Let_def create_def demo_co_def fun_upd_def)
qed (simp_all add: demo_co_def)

lemma demo_posted_simps:
  "phase demo_posted 2 = Initial" "running_on_executor demo_posted 2 = False" "mOnCompleted demo_posted 2 = Some Adapter"
  "user_on_completed demo_posted 2 = None" "mPrevious demo_posted 2 = Null_h" "excutor demo_posted 2" "completion_posted demo_posted 2 = False"
  "ws_head demo_posted = 10"
  by (simp_all add: demo_posted_def promise_post_def prepare_for_post_def create_def demo_co_def Let_def)

lemma demo_posted_world: "\<exists>R. wq_world demo_posted R [2]"
proof -
  let ?t = "(prepare_for_post 2 ((create 2 demo_co)\<lparr>mOnCompleted := (\<lambda>_. None)\<rparr>))\<lparr>excutor := (\<lambda>_. False)(2 := True), func := (\<lambda>_. Null)(2 := Code Wk_cb)\<rparr>"
  have t: "demo_posted = wq_post 2 ?t"
    by (simp add: demo_posted_def promise_post_def prepare_for_post_def create_def demo_co_def Let_def)
  have "wq_world ?t (\<lambda>_. Some []) []" by (rule wq_world_fresh) (simp add: prepare_for_post_def create_def demo_co_def Let_def)
  from wq_world_post [OF this, of 2] show ?thesis unfolding t by (simp add: prepare_for_post_def create_def demo_co_def Let_def)
qed

definition demo_taken :: co where
  "demo_taken = demo_posted\<lparr>lks := list_del 2 (lks demo_posted)\<rparr>"

lemma demo_taken: "get_work_node demo_posted = (Some 2, demo_taken)" and demo_taken_world: "\<exists>R. wq_world demo_taken R []"
proof -
  obtain R where W: "wq_world demo_posted R [2]" using demo_posted_world by blast
  then show g: "get_work_node demo_posted = (Some 2, demo_taken)"
    unfolding demo_taken_def using get_work_node_Cons [of demo_posted R 2 "[]"] by (simp add: wq_world_def)
  from wq_world_take [OF W g] show "\<exists>R. wq_world demo_taken R []" by auto
qed

definition demo_suspended :: co where
  "demo_suspended = (wk_cb_enter 2 demo_taken)\<lparr>phase := (phase (wk_cb_enter 2 demo_taken))(2 := Suspended)\<rparr>"

lemma demo_suspended_reachable: "wk_reachable single 2 (demo_suspended, Returned)"
proof -
  have nd: "\<not> done_h 2 demo_taken" by (simp add: done_h_def demo_taken_def demo_posted_simps)
  have "wk_reachable single 2 (wk_cb_enter 2 demo_taken, In_resume)"
    using wk_reachable.step [OF demo_posted_reachable wk_step.take [OF demo_taken]] nd by simp
  from wk_reachable.step [OF this wk_step.suspend] nd show ?thesis
    by (simp add: demo_suspended_def wk_cb_enter_def resume_def done_h_def Let_def)
qed


text \<open>
  the same life on an executor that several threads serve. There is a schedule in which the frame is
  destroyed while it is still queued: the body suspends, the first thread clears
  \<open>_running_on_executor\<close>, a second thread resumes the body, which ends and posts itself for destruction, and the
  first thread then sees \<open>done()\<close> and destroys the frame. The next \<open>work_once\<close> calls into freed memory.
\<close>

theorem worker_destroyed_while_queued:
  "\<exists>s qs. wk_reachable False 2 (s, Idle) \<and> phase s 2 = Destroyed \<and> ring (lks s) (ws_head s) qs \<and> 2 \<in> set qs"
proof -
  let ?c = "wk_cb_return 2 demo_suspended"
  let ?r = "resume (Co 2) ?c"
  have r1: "wk_reachable False 2 (?c, Flag_cleared)"
    by (rule wk_reachable.step [OF demo_suspended_reachable wk_step.clear_flag])
  have "phase ?c 2 = Suspended" by (simp add: wk_cb_return_def demo_suspended_def)
  then have r2: "wk_reachable False 2 (?r, Flag_cleared)" by (intro wk_reachable.step [OF r1 wk_step.resume_outside]) auto
  have ph: "phase ?r 2 = Running" by (simp add: resume_def)
  have r3: "wk_reachable False 2 (co_return 2 ?r, Flag_cleared)"
    using wk_reachable.step [OF r2 wk_step.finish [OF ph]] by simp
  have r4: "wk_reachable False 2 (wk_cb_finish 2 (co_return 2 ?r), Idle)" by (rule wk_reachable.step [OF r3 wk_step.leave])
  have f: "mOnCompleted ?r 2 = Some Adapter" "user_on_completed ?r 2 = None" "mPrevious ?r 2 = Null_h" "excutor ?r 2"
    "\<not> completion_posted ?r 2" "\<not> running_on_executor ?r 2" "ws_head ?r = 10" "lks ?r = lks demo_taken"
    by (simp_all add: resume_def wk_cb_return_def demo_suspended_def wk_cb_enter_def Let_def done_h_def demo_taken_def demo_posted_simps)
  from co_return_detached [of ?r 2] f obtain s1 where
    e: "co_return 2 ?r = wq_post 2 (s1\<lparr>completion_posted := (completion_posted ?r)(2 := True), excutor := (excutor ?r)(2 := True), func := (func ?r)(2 := Code Wk_cb)\<rparr>)"
      (is "_ = wq_post 2 ?u")
    and s1: "lks s1 = lks ?r" "ws_head s1 = ws_head ?r" "phase s1 = (phase ?r)(2 := Final)" by auto
  obtain R where "wq_world demo_taken R []" using demo_taken_world by blast
  then have "wq_world ?u R []" by (rule wq_world_upd) (simp_all add: s1 f demo_taken_def demo_posted_simps)
  from wq_world_post [OF this, of 2] obtain R' where W: "wq_world (co_return 2 ?r) R' [2]" unfolding e using s1 f by auto
  have "done_h 2 (co_return 2 ?r)" unfolding e by (simp add: done_h_def s1)
  then have "phase (wk_cb_finish 2 (co_return 2 ?r)) 2 = Destroyed" "lks (wk_cb_finish 2 (co_return 2 ?r)) = lks (co_return 2 ?r)"
    "ws_head (wk_cb_finish 2 (co_return 2 ?r)) = ws_head (co_return 2 ?r)"
    by (simp_all add: wk_cb_finish_def destroy_def)
  then show ?thesis using r4 W rep_ring [of "lks (co_return 2 ?r)" R' "ws_head (co_return 2 ?r)" "[2]"]
    by (intro exI [of _ "wk_cb_finish 2 (co_return 2 ?r)"] exI [of _ "[2]"]) (simp add: wq_world_def)
qed

text \<open>
  awaiting a task. \<open>co_await\<close> transfers control to the child and remembers the awaiting coroutine; when the
  child, after any run that leaves these fields of its promise alone, returns \<open>v\<close>, control goes back to the awaiting coroutine,
  once, and \<open>await_resume\<close> moves exactly \<open>v\<close> out of the promise.
\<close>

theorem task_await_returns_value:
  assumes "mPrevious s2 h = mPrevious (snd (Task_Awaiter_await_suspend h p s)) h" and "mOnCompleted s2 h = None" and "p \<noteq> h"
  shows "fst (Task_Awaiter_await_suspend h p s) = Co h \<and>
    (let s3 = co_return h (return_value h v s2) in
      resumes s3 = resumes s2 @ [Co p] \<and> phase s3 p = Running \<and> phase s3 h = Final \<and>
      fst (Task_Awaiter_await_resume h s3) = Some v \<and> mResult (snd (Task_Awaiter_await_resume h s3)) h = None)"
  using assms
  by (simp add: Task_Awaiter_await_suspend_def co_return_def FinalAwaiter_await_suspend_def call_on_completed_def resume_def
      return_value_def emplace_def Task_Awaiter_await_resume_def promise_result_def move_def Let_def)

theorem task_await_returns_value_witness:
  "let s3 = co_return 2 (return_value 2 7 (snd (Task_Awaiter_await_suspend 2 3 demo_co))) in
     resumes s3 = [Co 3] \<and> fst (Task_Awaiter_await_resume 2 s3) = Some 7"
  using task_await_returns_value [of "snd (Task_Awaiter_await_suspend 2 3 demo_co)" 2 3 demo_co 7]
  by (simp add: Let_def Task_Awaiter_await_suspend_def) (simp add: demo_co_def)

text \<open>
  C14: \<open>when_all\<close>. The children in \<open>sync\<close> end during their first run, those in \<open>ys\<close> end later, in any order. The
  awaiting coroutine is resumed exactly once, by the completion of the last child, and not before; but if one
  of the tasks is empty it is never resumed, because an empty task is counted and never completes.
\<close>

theorem when_all_resumes_once:
  assumes "distinct (real_children tasks)" and "p \<notin> set (real_children tasks)" and "real_children tasks \<noteq> []" and "length tasks < 2 ^ 64"
    and "distinct ys" and "set ys \<subseteq> set (real_children tasks) - sync"
  shows "let s1 = snd (when_all_await_suspend (first_run sync) c tasks (Co p) (WhenAllAwaiter_init c tasks s));
             s2 = fold co_return ys s1
    in count_list (resumes s2) (Co p) = count_list (resumes s) (Co p) +
         (if set ys = set (real_children tasks) - sync \<and> Null_h \<notin> set tasks \<and> Noop_h \<notin> set tasks then 1 else 0)"
proof -
  have len: "length (real_children ts) \<le> length ts \<and> (length (real_children ts) = length ts \<longleftrightarrow> Null_h \<notin> set ts \<and> Noop_h \<notin> set ts)" for ts
    by (induction ts rule: real_children.induct) auto
  let ?n = "length tasks" and ?C = "set (real_children tasks)" and ?r = "count_list (resumes s) (Co p)"
  let ?s0 = "(WhenAllAwaiter_init c tasks s)\<lparr>ctl_previous := (ctl_previous (WhenAllAwaiter_init c tasks s))(c := Co p)\<rparr>"
  have w0: "wa c p ?n ?r ?s0" using assms(4) by (simp add: wa_def WhenAllAwaiter_init_def)
  let ?s1 = "fold (when_all_child (first_run sync) c) tasks ?s0" and ?m = "card (sync \<inter> ?C)"
  have w1: "wa c p (?n - ?m) (if 0 < ?m \<and> ?n - ?m = 0 then Suc ?r else ?r) ?s1" and su: "\<forall>k\<in>?C. child_set_up c k ?s1"
    using wa_children [OF w0 assms(2,1), of "{}" sync] len [of tasks] by (auto simp: Let_def)
  have card: "card (?C - sync) + ?m = length (real_children tasks)"
    using card_Int_Diff [of ?C sync] distinct_card [OF assms(1)] by (simp add: Int_commute)
  have ylen: "length ys \<le> card (?C - sync)" and yeq: "length ys = card (?C - sync) \<longleftrightarrow> set ys = ?C - sync"
    using card_mono [of "?C - sync" "set ys"] card_subset_eq [of "?C - sync" "set ys"] assms(5,6) distinct_card [OF assms(5)] by auto
  have "\<forall>y\<in>set ys. child_set_up c y ?s1" using su assms(6) by auto
  moreover have "length ys \<le> ?n - ?m" using ylen card len [of tasks] by linarith
  ultimately have w2: "wa c p (?n - ?m - length ys)
      (if ys \<noteq> [] \<and> ?n - ?m = length ys then Suc (if 0 < ?m \<and> ?n - ?m = 0 then Suc ?r else ?r) else (if 0 < ?m \<and> ?n - ?m = 0 then Suc ?r else ?r))
      (fold co_return ys ?s1)"
    using wa_finish [OF w1 assms(5)] by blast
  have key: "?n - ?m = length ys \<longleftrightarrow> set ys = ?C - sync \<and> Null_h \<notin> set tasks \<and> Noop_h \<notin> set tasks"
    using yeq ylen card len [of tasks] by linarith
  have pos: "?n > 0" using assms(3) by (cases tasks) auto
  have le: "ys \<noteq> [] \<Longrightarrow> ?m < ?n" using ylen card len [of tasks] by (cases ys) auto
  have "(if ys \<noteq> [] \<and> ?n - ?m = length ys then Suc (if 0 < ?m \<and> ?n - ?m = 0 then Suc ?r else ?r) else (if 0 < ?m \<and> ?n - ?m = 0 then Suc ?r else ?r))
      = ?r + (if ?n - ?m = length ys then 1 else 0)"
    using pos le by (cases ys) auto
  then show ?thesis using w2 key by (simp add: wa_def when_all_await_suspend_def Let_def)
qed

theorem when_all_resumes_once_witness:
  "count_list (resumes (fold co_return [3] (snd (when_all_await_suspend (first_run {2}) 50 [Co 2, Co 3] (Co 9)
     (WhenAllAwaiter_init 50 [Co 2, Co 3] demo_co))))) (Co 9) = 1 \<and>
   count_list (resumes (fold co_return [3] (snd (when_all_await_suspend (first_run {2}) 50 [Co 2, Null_h, Co 3] (Co 9)
     (WhenAllAwaiter_init 50 [Co 2, Null_h, Co 3] demo_co))))) (Co 9) = 0"
proof -
  have d: "count_list (resumes demo_co) (Co 9) = 0" by (simp add: demo_co_def)
  show ?thesis
    using when_all_resumes_once [of "[Co 2, Co 3]" 9 "[3]" "{2}" 50 demo_co]
      when_all_resumes_once [of "[Co 2, Null_h, Co 3]" 9 "[3]" "{2}" 50 demo_co] d
    by (simp add: Let_def)
qed

end
