(* ===== verification/Serial_Queue.thy ===== *)
theory Serial_Queue
  imports Workqueue
begin

text \<open>
  The serialisation of I/O operations: \<^verbatim>\<open>io/io_serial.hpp\<close> and the waiter base of \<^verbatim>\<open>io/io_waiter.hpp\<close>.

  A \<open>serial_queue\<close> is named by the address of its list head \<open>waiters\<close>; \<open>q_of\<close> is the member \<open>q\<close> of an awaiter. The
  coroutine of a waiter is \<open>h_of\<close> (\<open>None\<close>: a null handle); resuming it is recorded in \<open>resumed\<close>.
\<close>

section \<open>Data\<close>

datatype io_log = Warn_null_coroutine addr | Warn_done_coroutine addr | Resumed addr addr

record ser = wq +
  locked :: "addr \<Rightarrow> bool"
  q_of :: "addr \<Rightarrow> addr"
  h_of :: "addr \<Rightarrow> addr option"
  h_done :: "addr \<Rightarrow> bool"
  timeout_func :: "addr \<Rightarrow> func_ptr"
  debug_magic :: "addr \<Rightarrow> 32 word"
  io_trace :: "io_log list"

definition debug_magic_value :: "32 word" where
  "debug_magic_value = 0x5A17BEEF"

section \<open>The waiter base\<close>

definition io_waiter_base_init :: "addr \<Rightarrow> 'a ser_scheme \<Rightarrow> 'a ser_scheme" where
  "io_waiter_base_init w s =
     s\<lparr>lks := INIT_LIST_HEAD w (lks s), func := (func s)(w := Null), debug_magic := (debug_magic s)(w := debug_magic_value),
       timeout_func := (timeout_func s)(w := Null), h_of := (h_of s)(w := None)\<rparr>"

definition io_waiter_base_dtor :: "addr \<Rightarrow> 'a ser_scheme \<Rightarrow> 'a ser_scheme" where
  "io_waiter_base_dtor w s = s\<lparr>debug_magic := (debug_magic s)(w := 0)\<rparr>"

definition has_valid_magic :: "addr \<Rightarrow> 'a ser_scheme \<Rightarrow> bool" where
  "has_valid_magic w s \<longleftrightarrow> debug_magic s w = debug_magic_value"

definition set_timeout_callback :: "addr \<Rightarrow> func_ptr \<Rightarrow> 'a ser_scheme \<Rightarrow> 'a ser_scheme" where
  "set_timeout_callback w cb s = s\<lparr>timeout_func := (timeout_func s)(w := cb)\<rparr>"

definition clear_timeout_callback :: "addr \<Rightarrow> 'a ser_scheme \<Rightarrow> 'a ser_scheme" where
  "clear_timeout_callback w s = s\<lparr>timeout_func := (timeout_func s)(w := Null)\<rparr>"

definition resume_coroutine :: "addr \<Rightarrow> addr \<Rightarrow> 'a ser_scheme \<Rightarrow> 'a ser_scheme" where
  "resume_coroutine w c s = s\<lparr>io_trace := io_trace s @ [Resumed w c]\<rparr>"

definition resume_cb :: "addr option \<Rightarrow> 'a ser_scheme \<Rightarrow> 'a ser_scheme" where
  "resume_cb self s =
     (case self of None \<Rightarrow> s
      | Some w \<Rightarrow>
          (case h_of s w of
             None \<Rightarrow> s\<lparr>io_trace := io_trace s @ [Warn_null_coroutine w]\<rparr>
           | Some c \<Rightarrow>
               if h_done s c then s\<lparr>io_trace := io_trace s @ [Warn_done_coroutine w]\<rparr>
               else resume_coroutine w c (clear_timeout_callback w s)))"

section \<open>The serial queue\<close>

definition serial_queue_init :: "addr \<Rightarrow> 'a ser_scheme \<Rightarrow> 'a ser_scheme" where
  "serial_queue_init q s = s\<lparr>lks := INIT_LIST_HEAD q (lks s), locked := (locked s)(q := False)\<rparr>"

definition serial_acquire_or_enqueue :: "addr \<Rightarrow> addr \<Rightarrow> 'a ser_scheme \<Rightarrow> bool \<times> 'a ser_scheme" where
  "serial_acquire_or_enqueue q a s =
     (if \<not> locked s q \<and> list_empty q (lks s)
      then (True, wq_post a (s\<lparr>locked := (locked s)(q := True)\<rparr>))
      else (False, s\<lparr>lks := list_add_tail a q (lks s)\<rparr>))"

definition serial_release :: "addr \<Rightarrow> 'a ser_scheme \<Rightarrow> 'a ser_scheme" where
  "serial_release q s =
     (case (if \<not> list_empty q (lks s)
            then (let lh = nxt (lks s) q in (Some lh, s\<lparr>lks := list_del lh (lks s)\<rparr>))
            else (None, s\<lparr>locked := (locked s)(q := False)\<rparr>)) of
        (Some next, s1) \<Rightarrow> wq_post next s1
      | (None, s1) \<Rightarrow> s1)"

definition serial_slot_await_suspend :: "addr \<Rightarrow> addr \<Rightarrow> 'a ser_scheme \<Rightarrow> 'a ser_scheme" where
  "serial_slot_await_suspend a awaiting s =
     snd (serial_acquire_or_enqueue (q_of s a) a
       (s\<lparr>h_of := (h_of s)(a := Some awaiting), func := (func s)(a := Code Lock_acquired_cb), lks := INIT_LIST_HEAD a (lks s)\<rparr>))"

definition slot_release :: "addr \<Rightarrow> 'a ser_scheme \<Rightarrow> 'a ser_scheme" where
  "slot_release a s = serial_release (q_of s a) s"

section \<open>Two-phase driving\<close>

text \<open>
  The loop of \<open>lock_acquired_cb\<close> (with \<open>first\<close>) and \<open>drive_cb\<close> (without): \<open>attempt_once\<close> and \<open>register_wait\<close> are those
  of the derived awaiter. The loop runs as long as the attempts make progress.
\<close>

definition drain_done :: "addr \<Rightarrow> 'a ser_scheme \<Rightarrow> 'a ser_scheme" where
  "drain_done a s =
     (let s1 = slot_release a s; s2 = s1\<lparr>func := (func s1)(a := Code Resume_cb)\<rparr>
      in (case h_of s2 a of Some c \<Rightarrow> resume_coroutine a c s2 | None \<Rightarrow> s2))"

partial_function (option) drain ::
  "(addr \<Rightarrow> 'a ser_scheme \<Rightarrow> int \<times> 'a ser_scheme) \<Rightarrow> (addr \<Rightarrow> bool \<Rightarrow> 'a ser_scheme \<Rightarrow> 'a ser_scheme) \<Rightarrow> bool \<Rightarrow> addr \<Rightarrow>
   'a ser_scheme \<Rightarrow> 'a ser_scheme option" where
  "drain attempt_once register_wait first a s =
     (case attempt_once a s of (r, s1) \<Rightarrow>
        if r > 0 then drain attempt_once register_wait first a s1
        else if r = 0 then Some (drain_done a s1)
        else Some (register_wait a first (s1\<lparr>func := (func s1)(a := Code Drive_cb)\<rparr>)))"

definition lock_acquired_cb ::
  "(addr \<Rightarrow> 'a ser_scheme \<Rightarrow> int \<times> 'a ser_scheme) \<Rightarrow> (addr \<Rightarrow> bool \<Rightarrow> 'a ser_scheme \<Rightarrow> 'a ser_scheme) \<Rightarrow> addr \<Rightarrow>
   'a ser_scheme \<Rightarrow> 'a ser_scheme option" where
  "lock_acquired_cb attempt_once register_wait a s = drain attempt_once register_wait True a s"

definition drive_cb ::
  "(addr \<Rightarrow> 'a ser_scheme \<Rightarrow> int \<times> 'a ser_scheme) \<Rightarrow> (addr \<Rightarrow> bool \<Rightarrow> 'a ser_scheme \<Rightarrow> 'a ser_scheme) \<Rightarrow> addr \<Rightarrow>
   'a ser_scheme \<Rightarrow> 'a ser_scheme option" where
  "drive_cb attempt_once register_wait a s = drain attempt_once register_wait False a s"

section \<open>Closing: collecting and posting the waiters\<close>

partial_function (option) collect_loop :: "addr \<Rightarrow> addr \<Rightarrow> links \<Rightarrow> links option" where
  "collect_loop q out m =
     (if list_empty q m then Some m
      else let lh = nxt m q in collect_loop q out (list_add_tail lh out (list_del lh m)))"

fun serial_collect_waiters :: "addr list \<Rightarrow> addr \<Rightarrow> 'a ser_scheme \<Rightarrow> 'a ser_scheme option" where
  "serial_collect_waiters [] out s = Some s"
| "serial_collect_waiters (q # queues) out s =
     (case collect_loop q out (lks s) of
        None \<Rightarrow> None
      | Some m \<Rightarrow> serial_collect_waiters queues out (s\<lparr>lks := m, locked := (locked s)(q := False)\<rparr>))"

definition set_resume_body :: "addr \<Rightarrow> 'a ser_scheme \<Rightarrow> 'a ser_scheme \<times> bool" where
  "set_resume_body a s = (s\<lparr>func := (func s)(a := Code Resume_cb)\<rparr>, False)"

definition serial_post_pending :: "build \<Rightarrow> addr \<Rightarrow> 'a ser_scheme \<Rightarrow> (abort + 'a ser_scheme) option" where
  "serial_post_pending b pending s =
     (if list_empty pending (lks s) then Some (Inr s)
      else case list_for_each lks set_resume_body pending (nxt (lks s) pending) s of
             None \<Rightarrow> None
           | Some s1 \<Rightarrow> post_batch b pending s1)"

section \<open>Schedules of one slot\<close>

text \<open>
  The slot of queue \<open>q\<close>: operations arrive, the holder of the slot releases it, the executor takes
  nodes. \<open>holders\<close> are the operations that were given the slot and have not released it; \<open>arrived\<close>
  and \<open>admitted\<close> record the order of arrival and of admission.
\<close>

record slot =
  holders :: "addr list"
  arrived :: "addr list"
  admitted :: "addr list"

inductive slot_step :: "addr \<Rightarrow> ser \<times> slot \<Rightarrow> ser \<times> slot \<Rightarrow> bool" for q where
  arrive: "list_empty a (lks s) \<Longrightarrow> a \<notin> {ws_head s, q} \<Longrightarrow> a \<notin> set (holders g) \<Longrightarrow> serial_acquire_or_enqueue q a s = (ok, s') \<Longrightarrow>
    slot_step q (s, g) (s', g\<lparr>holders := holders g @ (if ok then [a] else []), arrived := arrived g @ [a], admitted := admitted g @ (if ok then [a] else [])\<rparr>)"
| release: "a \<in> set (holders g) \<Longrightarrow> next = (if list_empty q (lks s) then [] else [nxt (lks s) q]) \<Longrightarrow>
    slot_step q (s, g) (serial_release q s, g\<lparr>holders := remove1 a (holders g) @ next, admitted := admitted g @ next\<rparr>)"
| take: "get_work_node s = (Some p, s') \<Longrightarrow> slot_step q (s, g) (s', g)"

inductive slot_reachable :: "addr \<Rightarrow> ser \<times> slot \<Rightarrow> bool" for q where
  start: "lks s = fresh_links \<Longrightarrow> q \<noteq> ws_head s \<Longrightarrow>
    slot_reachable q (serial_queue_init q s, \<lparr>holders = [], arrived = [], admitted = []\<rparr>)"
| step: "slot_reachable q c \<Longrightarrow> slot_step q c c' \<Longrightarrow> slot_reachable q c'"

definition slot_inv :: "addr \<Rightarrow> ser \<times> slot \<Rightarrow> bool" where
  "slot_inv q = (\<lambda>(s, g). \<exists>R qs ws. wq_world2 s q R qs ws \<and> arrived g = admitted g @ ws \<and> set (holders g) \<inter> set ws = {} \<and>
     (if locked s q then \<exists>a. holders g = [a] else holders g = [] \<and> ws = []))"

section \<open>Lemmas\<close>

lemma ser_wq_simps [simp]:
  "locked (wq_post a s) = locked s" "q_of (wq_post a s) = q_of s" "h_of (wq_post a s) = h_of s" "io_trace (wq_post a s) = io_trace s"
  "timeout_func (wq_post a s) = timeout_func s" "h_done (wq_post a s) = h_done s" "func (wq_post a s) = func s" "ws_head (wq_post a s) = ws_head s"
  by (simp_all add: wq_post_def enqueue_def trig_once_def emit_def)

lemma serial_acquire_world:
  assumes W: "wq_world2 s q R qs ws" and a: "R a = Some []" "a \<notin> set qs" "a \<notin> set ws" "a \<notin> {ws_head s, q}"
    and e: "serial_acquire_or_enqueue q a s = (ok, s')"
  shows "(ok \<longleftrightarrow> \<not> locked s q \<and> ws = []) \<and>
    (\<exists>R'. wq_world2 s' q R' (if ok then qs @ [a] else qs) (if ok then ws else ws @ [a])) \<and> locked s' q = (ok \<or> locked s q)"
proof (cases "\<not> locked s q \<and> list_empty q (lks s)")
  case True
  let ?s = "s\<lparr>locked := (locked s)(q := True)\<rparr>"
  have "wq_world2 ?s q R qs ws" using W by (rule wq_world2_upd) simp_all
  from wq_world2_post [OF this, of a] a obtain R' where "wq_world2 (wq_post a ?s) q R' (qs @ [a]) ws" by (auto simp: remove1_idem)
  then show ?thesis using True e wq_world2_empty [OF W] by (auto simp: serial_acquire_or_enqueue_def)
next
  case False
  then show ?thesis using wq_world2_wait [OF W a(1,4)] e wq_world2_empty [OF W] by (auto simp: serial_acquire_or_enqueue_def)
qed

lemma serial_release_world:
  assumes W: "wq_world2 s q R qs ws"
  shows "case ws of
      [] \<Rightarrow> (\<exists>R'. wq_world2 (serial_release q s) q R' qs []) \<and> \<not> locked (serial_release q s) q
    | w # ws' \<Rightarrow> nxt (lks s) q = w \<and> (\<exists>R'. wq_world2 (serial_release q s) q R' (qs @ [w]) ws') \<and> locked (serial_release q s) q = locked s q"
proof (cases ws)
  case Nil
  then have "serial_release q s = s\<lparr>locked := (locked s)(q := False)\<rparr>" using wq_world2_empty [OF W] by (simp add: serial_release_def)
  moreover have "wq_world2 (s\<lparr>locked := (locked s)(q := False)\<rparr>) q R qs ws" using W by (rule wq_world2_upd) simp_all
  ultimately show ?thesis using Nil by auto
next
  case (Cons w ws')
  have n: "nxt (lks s) q = w" using W Cons rep_first [of "lks s" R q w ws'] by (simp add: wq_world2_def)
  let ?s = "s\<lparr>lks := list_del w (lks s)\<rparr>"
  have r: "serial_release q s = wq_post w ?s" using Cons n wq_world2_empty [OF W] by (simp add: serial_release_def Let_def)
  have W': "wq_world2 ?s q (r_detach w R) qs ws'" using wq_world2_del [OF W, of w] Cons by simp
  have d: "w \<notin> set ws'" "w \<notin> set qs" "w \<notin> {ws_head s, q}" using wq_world2_distinct [OF W] Cons by auto
  from wq_world2_post [OF W', of w] d obtain R' where "wq_world2 (wq_post w ?s) q R' (qs @ [w]) ws'" by (auto simp: remove1_idem)
  then show ?thesis using Cons n r by auto
qed

lemma slot_step_inv:
  assumes "slot_step q c c'" and "slot_inv q c"
  shows "slot_inv q c'"
  using assms
proof (induction rule: slot_step.induct)
  case (arrive a s g ok s')
  from arrive(5) obtain R qs ws where W: "wq_world2 s q R qs ws" and i: "arrived g = admitted g @ ws" "set (holders g) \<inter> set ws = {}"
    "if locked s q then \<exists>a. holders g = [a] else holders g = [] \<and> ws = []" by (auto simp: slot_inv_def)
  from wq_world2_detached [OF W arrive(1,2)] have d: "R a = Some []" "a \<notin> set qs" "a \<notin> set ws" by auto
  from serial_acquire_world [OF W d arrive(2) arrive(4)] obtain R' where
    k: "ok \<longleftrightarrow> \<not> locked s q \<and> ws = []" "wq_world2 s' q R' (if ok then qs @ [a] else qs) (if ok then ws else ws @ [a])"
      "locked s' q = (ok \<or> locked s q)" by blast
  show ?case using k i arrive(3) unfolding slot_inv_def by (cases ok) (fastforce split: if_splits)+
next
  case (release a g nx s)
  from release(3) obtain R qs ws where W: "wq_world2 s q R qs ws" and i: "arrived g = admitted g @ ws" "set (holders g) \<inter> set ws = {}"
    "if locked s q then \<exists>a. holders g = [a] else holders g = [] \<and> ws = []" by (auto simp: slot_inv_def)
  have h: "holders g = [a]" "locked s q" using i(3) release(1) by (auto split: if_splits)
  show ?case
  proof (cases ws)
    case Nil
    then show ?thesis using serial_release_world [OF W] release(2) h i wq_world2_empty [OF W] unfolding slot_inv_def by auto
  next
    case (Cons w ws')
    then have "w \<notin> set ws'" using wq_world2_distinct [OF W] by auto
    then show ?thesis using Cons serial_release_world [OF W] release(2) h i wq_world2_empty [OF W] unfolding slot_inv_def by auto
  qed
next
  case (take s p s' g)
  then obtain R qs ws where W: "wq_world2 s q R qs ws" and i: "arrived g = admitted g @ ws" "set (holders g) \<inter> set ws = {}"
    "if locked s q then \<exists>a. holders g = [a] else holders g = [] \<and> ws = []" by (auto simp: slot_inv_def)
  from wq_world2_take [OF W take(1)] i show ?case unfolding slot_inv_def by auto
qed

lemma slot_inv_start:
  assumes "lks s = fresh_links" and "q \<noteq> ws_head s"
  shows "slot_inv q (serial_queue_init q s, \<lparr>holders = [], arrived = [], admitted = []\<rparr>)"
proof -
  have "lks (serial_queue_init q s) = fresh_links" using assms(1)
    by (simp add: serial_queue_init_def INIT_LIST_HEAD_empty [OF rep_fresh_links])
  then have "wq_world2 (serial_queue_init q s) q (\<lambda>_. Some []) [] []" using assms(2) by (intro wq_world2_fresh) (auto simp: serial_queue_init_def)
  then show ?thesis unfolding slot_inv_def by (auto simp: serial_queue_init_def)
qed

lemma slot_reachable_inv: "slot_reachable q c \<Longrightarrow> slot_inv q c"
  by (induction rule: slot_reachable.induct) (auto intro: slot_inv_start slot_step_inv)

lemma collect_loop_moves:
  assumes "rep m R" and "R q = Some ws" and "R out = Some os" and "q \<noteq> out"
  shows "\<exists>m' R'. collect_loop q out m = Some m' \<and> rep m' R' \<and> R' q = Some [] \<and> R' out = Some (os @ ws) \<and>
    (\<forall>k. k \<noteq> q \<longrightarrow> k \<noteq> out \<longrightarrow> k \<notin> set ws \<longrightarrow> R' k = R k)"
  using assms
proof (induction ws arbitrary: m R os)
  case Nil
  then show ?case by (intro exI [of _ m] exI [of _ R]) (simp add: collect_loop.simps rep_list_empty)
next
  case (Cons w ws)
  note pf = il.pop_first [OF Cons.prems(1,2)]
  let ?R = "r_append w out (r_detach w R)"
  have off: "w \<noteq> out" "w \<notin> set os" "w \<noteq> q" "w \<notin> set ws"
    using rep_disjoint [OF Cons.prems(1,2,3,4)] rep_distinct [OF Cons.prems(1,2)] by auto
  have o: "r_detach w R out = Some os" using off Cons.prems(3) by (simp add: ring_simps remove1_idem)
  have r: "rep (list_add_tail w out (list_del w m)) ?R" using rep_add_tail [OF pf(3,5) o] off by auto
  have "?R q = Some ws" "?R out = Some (os @ [w])" using pf(4) o off Cons.prems(4) by (simp_all add: ring_simps)
  from Cons.IH [OF r this Cons.prems(4)] obtain m' R' where
    e: "collect_loop q out (list_add_tail w out (list_del w m)) = Some m'" "rep m' R'" "R' q = Some []" "R' out = Some ((os @ [w]) @ ws)"
    and fr: "\<forall>k. k \<noteq> q \<longrightarrow> k \<noteq> out \<longrightarrow> k \<notin> set ws \<longrightarrow> R' k = ?R k" by blast
  have "?R k = R k" if "k \<noteq> q" "k \<noteq> out" "k \<noteq> w" for k
  proof (cases "R k")
    case (Some ys)
    then have "w \<notin> set ys" using rep_member_unique [OF Cons.prems(1,2) _ Some, of w] that by auto
    then show ?thesis using Some that by (simp add: ring_simps remove1_idem)
  qed (use that in \<open>simp add: ring_simps\<close>)
  moreover have "collect_loop q out m = Some m'"
    using e(1) pf(1) rep_first [OF Cons.prems(1,2)] by (simp add: collect_loop.simps [of q out m] Let_def)
  ultimately show ?case using e fr by (intro exI [of _ m'] exI [of _ R']) auto
qed

lemma serial_collect_waiters_moves:
  assumes "rep (lks s) R" and "\<forall>q\<in>set qs. R q \<noteq> None" and "distinct qs" and "out \<notin> set qs" and "R out = Some os"
  shows "\<exists>s' R'. serial_collect_waiters qs out s = Some s' \<and> rep (lks s') R' \<and> R' out = Some (os @ concat (map (\<lambda>q. the (R q)) qs)) \<and>
    (\<forall>q\<in>set qs. R' q = Some [] \<and> \<not> locked s' q) \<and>
    (\<forall>k. k \<notin> set qs \<longrightarrow> k \<noteq> out \<longrightarrow> (\<forall>q\<in>set qs. k \<notin> set (the (R q))) \<longrightarrow> R' k = R k) \<and>
    s' = s\<lparr>lks := lks s', locked := (\<lambda>q. q \<notin> set qs \<and> locked s q)\<rparr>"
  using assms
proof (induction qs arbitrary: s R os)
  case Nil
  then show ?case by (intro exI [of _ s] exI [of _ R]) simp
next
  case (Cons q qs)
  from Cons.prems(2) obtain ws where w: "R q = Some ws" by auto
  have qo: "q \<noteq> out" using Cons.prems(4) by auto
  from collect_loop_moves [OF Cons.prems(1) w Cons.prems(5) qo] obtain m R1 where
    m: "collect_loop q out (lks s) = Some m" "rep m R1" "R1 q = Some []" "R1 out = Some (os @ ws)"
    and fr: "\<forall>k. k \<noteq> q \<longrightarrow> k \<noteq> out \<longrightarrow> k \<notin> set ws \<longrightarrow> R1 k = R k" by blast
  let ?s = "s\<lparr>lks := m, locked := (locked s)(q := False)\<rparr>"
  have k: "R1 k = R k" if kq: "k \<in> set qs" for k
  proof -
    obtain ys where "R k = Some ys" using Cons.prems(2) kq by auto
    then have "k \<notin> set ws" using rep_member_not_head [OF Cons.prems(1) w, of k] by auto
    then show ?thesis using fr kq Cons.prems(3,4) by auto
  qed
  have pre: "\<forall>q\<in>set qs. R1 q \<noteq> None" "distinct qs" "out \<notin> set qs" "rep (lks ?s) R1" using k Cons.prems m(2) by auto
  from Cons.IH [OF pre(4,1,2,3) m(4)] obtain s' R' where
    s': "serial_collect_waiters qs out ?s = Some s'" "rep (lks s') R'" "R' out = Some ((os @ ws) @ concat (map (\<lambda>q. the (R1 q)) qs))"
      "\<forall>q\<in>set qs. R' q = Some [] \<and> \<not> locked s' q"
      "\<forall>k. k \<notin> set qs \<longrightarrow> k \<noteq> out \<longrightarrow> (\<forall>q\<in>set qs. k \<notin> set (the (R1 q))) \<longrightarrow> R' k = R1 k"
      "s' = ?s\<lparr>lks := lks s', locked := (\<lambda>q. q \<notin> set qs \<and> locked ?s q)\<rparr>" by blast
  have c: "concat (map (\<lambda>q. the (R1 q)) qs) = concat (map (\<lambda>q. the (R q)) qs)" using k by (metis (mono_tags, lifting) map_eq_conv)
  have q': "R' q = Some []"
  proof -
    have "q \<notin> set (the (R1 p))" if pq: "p \<in> set qs" for p
    proof -
      obtain ys where "R1 p = Some ys" using k [OF pq] Cons.prems(2) pq by auto
      then show ?thesis using rep_detached_off [OF m(2,3)] by auto
    qed
    then show ?thesis using s'(5) Cons.prems(3) qo m(3) by auto
  qed
  have l: "\<not> locked s' q" "locked s' = (\<lambda>p. p \<notin> set (q # qs) \<and> locked s p)"
    using Cons.prems(3) by (subst s'(6), auto)+
  have all: "s' = s\<lparr>lks := lks s', locked := (\<lambda>p. p \<notin> set (q # qs) \<and> locked s p)\<rparr>"
    by (subst s'(6)) (auto simp: fun_eq_iff)
  have frame: "R' k = R k" if "k \<notin> set (q # qs)" "k \<noteq> out" "\<forall>p\<in>set (q # qs). k \<notin> set (the (R p))" for k
    using that s'(5) fr k w by auto
  show ?case using m(1) s'(1,2,3) c q' s'(4) l all frame w
    by (intro exI [of _ s'] exI [of _ R']) auto
qed

lemma each_until_set_resume:
  "\<exists>s'. each_until set_resume_body ys s = s' \<and> s' = s\<lparr>func := (\<lambda>a. if a \<in> set ys then Code Resume_cb else func s a)\<rparr>"
proof (induction ys arbitrary: s)
  case (Cons y ys)
  then show ?case by (auto simp: set_resume_body_def fun_eq_iff intro!: arg_cong [where f = "\<lambda>f. s\<lparr>func := f\<rparr>"])
qed simp

lemma set_resume_walk:
  assumes "rep (lks s) R" and "R p = Some ys"
  shows "list_for_each lks set_resume_body p (nxt (lks s) p) s = Some (s\<lparr>func := (\<lambda>a. if a \<in> set ys then Code Resume_cb else func s a)\<rparr>)"
proof -
  have h: "nxt (lks s) p = hd (ys @ [p])" using ring_first [OF rep_ring [OF assms]] .
  have "list_for_each lks set_resume_body p (hd (ys @ [p])) s = Some (each_until set_resume_body ys s)"
  proof (rule list_for_each_eq [where I = "\<lambda>t zs. lks t = lks s \<and> (\<exists>xs. R p = Some (xs @ zs))"])
    show "lks s = lks s \<and> (\<exists>xs. R p = Some (xs @ ys))" using assms(2) by auto
  next
    fix t zs assume "lks t = lks s \<and> (\<exists>xs. R p = Some (xs @ zs))"
    then show "walk (nxt (lks t)) zs p" using rep_walk [OF assms(1)] by auto
  next
    fix t z zs t' assume I: "lks t = lks s \<and> (\<exists>xs. R p = Some (xs @ z # zs))" and "set_resume_body z t = (t', False)"
    then have "lks t' = lks s" by (auto simp: set_resume_body_def)
    moreover obtain xs where "R p = Some ((xs @ [z]) @ zs)" using I by auto
    ultimately show "(lks t' = lks s \<and> (\<exists>xs. R p = Some (xs @ zs))) \<and> nxt (lks t') z = nxt (lks t) z" using I by auto
  qed
  then show ?thesis using each_until_set_resume [of ys s] h by auto
qed

text \<open>The attempts of an awaiter from state \<open>s\<close>: \<open>n\<close> of them make progress, then one answers \<open>r\<close>.\<close>

inductive attempts :: "(addr \<Rightarrow> 'a ser_scheme \<Rightarrow> int \<times> 'a ser_scheme) \<Rightarrow> addr \<Rightarrow> 'a ser_scheme \<Rightarrow> nat \<Rightarrow> int \<Rightarrow> 'a ser_scheme \<Rightarrow> bool"
  for att a where
  stop: "att a s = (r, s') \<Longrightarrow> r \<le> 0 \<Longrightarrow> attempts att a s 0 r s'"
| progress: "att a s = (r', s1) \<Longrightarrow> r' > 0 \<Longrightarrow> attempts att a s1 n r s' \<Longrightarrow> attempts att a s (Suc n) r s'"

lemma drain_attempts:
  "attempts att a s n r s' \<Longrightarrow>
   drain att reg first a s = Some (if r = 0 then drain_done a s' else reg a first (s'\<lparr>func := (func s')(a := Code Drive_cb)\<rparr>))"
proof (induction rule: attempts.induct)
  case (stop s r s')
  then show ?case by (simp add: drain.simps)
next
  case (progress s r' s1 n r s')
  then show ?case by (simp add: drain.simps [of att reg first a s])
qed

section \<open>Properties\<close>

definition demo_ser :: ser where
  "demo_ser = \<lparr>lks = fresh_links, func = (\<lambda>_. Code Lock_acquired_cb), ws_head = 10, trig = True, log = [],
     locked = (\<lambda>_. False), q_of = (\<lambda>_. 20), h_of = (\<lambda>a. Some (a + 100)), h_done = (\<lambda>_. False), timeout_func = (\<lambda>_. Null),
     debug_magic = (\<lambda>_. debug_magic_value), io_trace = []\<rparr>"



text \<open>
  the two-phase driver. If \<open>n\<close> attempts make progress and the next one answers \<open>r\<close>, both callbacks return. For \<open>r = 0\<close>
  the slot is handed to the first waiting operation (or unlocked when none waits) and the coroutine is
  resumed exactly once; for a negative answer the node keeps the slot and is registered with \<open>drive_cb\<close> as
  callback.
\<close>

theorem drain_completes:
  assumes "attempts att a s n r s'" and "wq_world2 s' (q_of s' a) R qs ws" and "h_of s' a = Some c"
  shows "\<exists>s2. lock_acquired_cb att reg a s = Some s2 \<and>
    (r = 0 \<longrightarrow> drive_cb att reg a s = Some s2 \<and> io_trace s2 = io_trace s' @ [Resumed a c] \<and> func s2 a = Code Resume_cb \<and>
       (\<exists>R'. wq_world2 s2 (q_of s' a) R' (qs @ take 1 ws) (drop 1 ws)) \<and>
       locked s2 (q_of s' a) = (ws \<noteq> [] \<and> locked s' (q_of s' a))) \<and>
    (r \<noteq> 0 \<longrightarrow> s2 = reg a True (s'\<lparr>func := (func s')(a := Code Drive_cb)\<rparr>) \<and>
       drive_cb att reg a s = Some (reg a False (s'\<lparr>func := (func s')(a := Code Drive_cb)\<rparr>)))"
proof (cases "r = 0")
  case False
  then show ?thesis using drain_attempts [OF assms(1)] by (simp add: lock_acquired_cb_def drive_cb_def)
next
  case True
  let ?q = "q_of s' a" and ?t = "serial_release (q_of s' a) s'"
  have f: "h_of ?t = h_of s'" "io_trace ?t = io_trace s'" by (auto simp: serial_release_def Let_def)
  have d: "drain_done a s' = resume_coroutine a c (?t\<lparr>func := (func ?t)(a := Code Resume_cb)\<rparr>)"
    using assms(3) f by (simp add: drain_done_def slot_release_def Let_def)
  have w: "(\<exists>R'. wq_world2 ?t ?q R' (qs @ take 1 ws) (drop 1 ws)) \<and> locked ?t ?q = (ws \<noteq> [] \<and> locked s' ?q)"
    using serial_release_world [OF assms(2)] by (cases ws) auto
  then obtain R' where "wq_world2 ?t ?q R' (qs @ take 1 ws) (drop 1 ws)" by blast
  then have "wq_world2 (drain_done a s') ?q R' (qs @ take 1 ws) (drop 1 ws)"
    unfolding d by (rule wq_world2_upd) (simp_all add: resume_coroutine_def)
  moreover have "locked (drain_done a s') ?q = (ws \<noteq> [] \<and> locked s' ?q)" "io_trace (drain_done a s') = io_trace s' @ [Resumed a c]"
    "func (drain_done a s') a = Code Resume_cb"
    unfolding d using w f by (simp_all add: resume_coroutine_def)
  ultimately show ?thesis using True drain_attempts [OF assms(1)] by (auto simp: lock_acquired_cb_def drive_cb_def)
qed

text \<open>An awaiter that moves one byte per attempt until the counter in its timeout slot is used up.\<close>

definition demo_attempt :: "addr \<Rightarrow> ser \<Rightarrow> int \<times> ser" where
  "demo_attempt a s = (if length (io_trace s) < 2 then (1, s\<lparr>io_trace := io_trace s @ [Warn_null_coroutine a]\<rparr>) else (0, s))"

lemma demo_attempts:
  "attempts demo_attempt 2 demo_ser 2 0 (demo_ser\<lparr>io_trace := [Warn_null_coroutine 2, Warn_null_coroutine 2]\<rparr>)"
proof -
  let ?s = "\<lambda>n. demo_ser\<lparr>io_trace := replicate n (Warn_null_coroutine 2)\<rparr>"
  have "attempts demo_attempt 2 (?s 2) 0 0 (?s 2)" by (rule attempts.stop) (simp_all add: demo_attempt_def)
  then have "attempts demo_attempt 2 (?s 1) (Suc 0) 0 (?s 2)"
    by (rule attempts.progress [where r' = 1, rotated 2]) (simp_all add: demo_attempt_def numeral_2_eq_2)
  then have "attempts demo_attempt 2 (?s 0) (Suc (Suc 0)) 0 (?s 2)"
    by (rule attempts.progress [where r' = 1, rotated 2]) (simp_all add: demo_attempt_def)
  then show ?thesis by (simp add: numeral_2_eq_2 demo_ser_def)
qed

theorem drain_completes_witness:
  "\<exists>s2. lock_acquired_cb demo_attempt (\<lambda>_ _ s. s) 2 demo_ser = Some s2 \<and>
     io_trace s2 = [Warn_null_coroutine 2, Warn_null_coroutine 2, Resumed 2 102]"
proof -
  let ?s = "demo_ser\<lparr>io_trace := [Warn_null_coroutine 2, Warn_null_coroutine 2]\<rparr>"
  have "wq_world2 ?s (q_of ?s 2) (\<lambda>_. Some []) [] []" by (rule wq_world2_fresh) (simp_all add: demo_ser_def)
  from drain_completes [OF demo_attempts this, of 102 "\<lambda>_ _ s. s"] show ?thesis by (auto simp: demo_ser_def)
qed

text \<open>The whole effect, with what stays as it is.\<close>

lemma serial_close_effect:
  assumes "rep (lks s) R" and "R (ws_head s) = Some xs" and "R out = Some []" and "\<forall>q\<in>set qs. R q \<noteq> None"
    and "distinct (ws_head s # out # qs)"
  defines "ws \<equiv> concat (map (\<lambda>q. the (R q)) qs)"
  shows "\<exists>s1 s2 R2. serial_collect_waiters qs out s = Some s1 \<and> serial_post_pending b out s1 = Some (Inr s2) \<and> rep (lks s2) R2 \<and>
    R2 (ws_head s) = Some (xs @ ws) \<and> (\<forall>q\<in>set qs. R2 q = Some [] \<and> \<not> locked s1 q) \<and>
    (\<forall>k. k \<notin> set qs \<longrightarrow> k \<noteq> out \<longrightarrow> k \<noteq> ws_head s \<longrightarrow> k \<notin> set ws \<longrightarrow> R2 k = R k) \<and>
    s2 = s\<lparr>lks := lks s2, log := log s2, locked := (\<lambda>q. q \<notin> set qs \<and> locked s q), func := (\<lambda>a. if a \<in> set ws then Code Resume_cb else func s a)\<rparr> \<and>
    (\<not> check_hook b \<longrightarrow> log s2 = log s @ (if trig s \<and> ws \<noteq> [] then [Trig] else []))"
proof -
  from serial_collect_waiters_moves [OF assms(1,4), of out "[]"] assms(3,5) obtain s1 R1 where
    s1: "serial_collect_waiters qs out s = Some s1" "rep (lks s1) R1" "R1 out = Some ws" "\<forall>q\<in>set qs. R1 q = Some [] \<and> \<not> locked s1 q"
    and fr: "\<forall>k. k \<notin> set qs \<longrightarrow> k \<noteq> out \<longrightarrow> (\<forall>q\<in>set qs. k \<notin> set (the (R q))) \<longrightarrow> R1 k = R k"
    and e: "s1 = s\<lparr>lks := lks s1, locked := (\<lambda>q. q \<notin> set qs \<and> locked s q)\<rparr>" by (auto simp: ws_def)
  have fr: "k \<notin> set qs \<Longrightarrow> k \<noteq> out \<Longrightarrow> k \<notin> set ws \<Longrightarrow> R1 k = R k" for k using fr by (auto simp: ws_def)
  have g: "ws_head s1 = ws_head s" "trig s1 = trig s" "log s1 = log s" "func s1 = func s" by (subst e, simp)+
  have "ws_head s \<notin> set (the (R q))" if q: "q \<in> set qs" for q
  proof -
    obtain ys where "R q = Some ys" using assms(4) q by auto
    then show ?thesis using rep_member_not_head [OF assms(1), of q ys "ws_head s"] assms(2) by auto
  qed
  then have x: "R1 (ws_head s) = Some xs" using fr [of "ws_head s"] assms(2,5) by (auto simp: ws_def)
  let ?t = "s1\<lparr>func := (\<lambda>a. if a \<in> set ws then Code Resume_cb else func s1 a)\<rparr>"
  show ?thesis
  proof (cases "ws = []")
    case True
    have "serial_post_pending b out s1 = Some (Inr s1)"
      using rep_list_empty [OF s1(2,3)] True by (simp add: serial_post_pending_def)
    moreover have "s1 = s\<lparr>lks := lks s1, log := log s1, locked := (\<lambda>q. q \<notin> set qs \<and> locked s q),
        func := (\<lambda>a. if a \<in> set ws then Code Resume_cb else func s a)\<rparr>"
    proof -
      from e obtain m1 where "s1 = s\<lparr>lks := m1, locked := (\<lambda>q. q \<notin> set qs \<and> locked s q)\<rparr>" by blast
      then show ?thesis by (simp add: True)
    qed
    ultimately show ?thesis using s1 x g(3) fr by (intro exI [of _ s1] exI [of _ s1] exI [of _ R1] conjI) (assumption | simp add: True)+
  next
    case False
    have t: "rep (lks ?t) R1" "R1 (ws_head ?t) = Some xs" "R1 out = Some ws" "out \<noteq> ws_head ?t" using s1 x g assms(5) by auto
    have v: "\<forall>a\<in>set ws. ndebug b \<or> valid_func b (func ?t a)" by (simp add: valid_func_def)
    from post_batch_effect [OF t v] obtain s2 R2 where
      p: "post_batch b out ?t = Some (Inr s2)" "rep (lks s2) R2" "R2 (ws_head s) = Some (xs @ ws)"
        "\<And>k. k \<noteq> ws_head s \<Longrightarrow> k \<noteq> out \<Longrightarrow> R2 k = R1 k"
        "log s2 = log s @ (if check_hook b then map (Check_hook \<circ> func ?t) ws else []) @ (if trig s \<and> ws \<noteq> [] then [Trig] else [])"
      using g by auto
    have ne: "\<not> list_empty out (lks s1)" using False rep_list_empty [OF s1(2,3)] by blast
    have "serial_post_pending b out s1 = Some (Inr s2)"
      by (simp only: serial_post_pending_def ne if_False set_resume_walk [OF s1(2,3)] option.case p(1))
    moreover have "s2 = s\<lparr>lks := lks s2, log := log s2, locked := (\<lambda>q. q \<notin> set qs \<and> locked s q),
        func := (\<lambda>a. if a \<in> set ws then Code Resume_cb else func s a)\<rparr>"
    proof -
      have "s2 = ?t\<lparr>lks := lks s2, log := log s2\<rparr>" by (rule post_batch_state [OF t(1,3) p(1)])
      also from e obtain m1 where "s1 = s\<lparr>lks := m1, locked := (\<lambda>q. q \<notin> set qs \<and> locked s q)\<rparr>" by blast
      then have "?t\<lparr>lks := lks s2, log := log s2\<rparr> = s\<lparr>lks := lks s2, log := log s2, locked := (\<lambda>q. q \<notin> set qs \<and> locked s q),
        func := (\<lambda>a. if a \<in> set ws then Code Resume_cb else func s a)\<rparr>" by (simp add: g(4) cong: if_cong)
      finally show ?thesis .
    qed
    moreover have "R2 q = Some [] \<and> \<not> locked s1 q" if "q \<in> set qs" for q using p(4) [of q] s1(4) assms(5) that by auto
    moreover have "R2 k = R k" if "k \<notin> set qs" "k \<noteq> out" "k \<noteq> ws_head s" "k \<notin> set ws" for k using p(4) fr that by simp
    ultimately show ?thesis using s1(1) p(2,3,5) by (intro exI [of _ s1] exI [of _ s2] exI [of _ R2] conjI) (assumption | simp)+
  qed
qed

text \<open>
  closing. \<open>serial_collect_waiters\<close> followed by \<open>serial_post_pending\<close> moves every operation that waits on
  one of the given queues, queue by queue and in order, behind the queued work of the executor with
  \<open>resume_cb\<close> as callback, wakes the executor once, and leaves the queues empty. The queues are left unlocked even if an
  operation still holds a slot, so the next arrival is admitted beside it.
\<close>

theorem serial_close_resumes_waiters:
  assumes "rep (lks s) R" and "R (ws_head s) = Some xs" and "R out = Some []" and "\<forall>q\<in>set qs. R q \<noteq> None"
    and "distinct (ws_head s # out # qs)" and "\<not> check_hook b"
  shows "\<exists>s1 s2 R2. serial_collect_waiters qs out s = Some s1 \<and> serial_post_pending b out s1 = Some (Inr s2) \<and> rep (lks s2) R2 \<and>
    R2 (ws_head s) = Some (xs @ concat (map (\<lambda>q. the (R q)) qs)) \<and> (\<forall>q\<in>set qs. R2 q = Some []) \<and> (\<forall>q\<in>set qs. \<not> locked s1 q) \<and>
    (\<forall>w\<in>set (concat (map (\<lambda>q. the (R q)) qs)). func s2 w = Code Resume_cb) \<and>
    log s2 = log s @ (if trig s \<and> concat (map (\<lambda>q. the (R q)) qs) \<noteq> [] then [Trig] else [])"
proof -
  let ?ws = "concat (map (\<lambda>q. the (R q)) qs)"
  from serial_close_effect [OF assms(1-5), of b] obtain s1 s2 R2 where
    r: "serial_collect_waiters qs out s = Some s1" "serial_post_pending b out s1 = Some (Inr s2)" "rep (lks s2) R2"
      "R2 (ws_head s) = Some (xs @ ?ws)" "\<forall>q\<in>set qs. R2 q = Some [] \<and> \<not> locked s1 q"
    and s2: "s2 = s\<lparr>lks := lks s2, log := log s2, locked := (\<lambda>q. q \<notin> set qs \<and> locked s q),
      func := (\<lambda>a. if a \<in> set ?ws then Code Resume_cb else func s a)\<rparr>"
    and l: "log s2 = log s @ (if trig s \<and> ?ws \<noteq> [] then [Trig] else [])" using assms(6) by blast
  have "func s2 w = Code Resume_cb" if "w \<in> set ?ws" for w using that by (subst s2) simp
  then show ?thesis using r l by blast
qed

theorem serial_close_resumes_waiters_witness:
  "\<exists>s1 s2 R2. serial_collect_waiters [10] 30 (demo_ser\<lparr>lks := two_node_links, ws_head := 20\<rparr>) = Some s1 \<and>
     serial_post_pending release_build 30 s1 = Some (Inr s2) \<and> rep (lks s2) R2 \<and> R2 20 = Some [2, 3] \<and> R2 10 = Some [] \<and> log s2 = [Trig]"
proof -
  have "two_node_rings 20 = Some []" "two_node_rings 30 = Some []" by (simp_all add: two_node_rings_def r_append_def)
  then show ?thesis
    using serial_close_resumes_waiters [of "demo_ser\<lparr>lks := two_node_links, ws_head := 20\<rparr>" two_node_rings "[]" 30 "[10]" release_build] rep_two_nodes
    by (auto simp: demo_ser_def release_build_def)
qed

end
