(* ===== verification/Callback_Wq.thy ===== *)
theory Callback_Wq
  imports Serial_Queue
begin

text \<open>
  The ordered callback dispatcher of \<^verbatim>\<open>io/callback_wq.hpp\<close>.

  The state of one \<open>callback_wq\<close> extends that of the waiters. A \<open>pending_entry\<close> is named by the address of
  its \<open>link\<close>; \<open>entry_waiter\<close> is its field \<open>waiter\<close>, and \<open>None\<close> outside the life of the entry. \<open>guard\<close> tells whether
  \<open>runner.guard\<close> holds a reference to the state, \<open>guard_use\<close> is the adjusted use count of the route
  guard of a waiter. \<open>plausible\<close> is the result of \<open>is_pointer_plausible\<close>: always true outside Windows, where
  \<open>VirtualQuery\<close> decides.
\<close>

section \<open>Data\<close>

datatype cb_log = Skip_unusable addr | Skip_magic addr | Warn_null addr | Corruption | Null_entry addr | Missing_func addr | Exec addr

record cbq = ser +
  pending :: addr
  local_head :: addr
  running :: bool
  runner :: addr
  guard :: bool
  entry_waiter :: "addr \<Rightarrow> addr option"
  callback_enqueued :: "addr \<Rightarrow> bool"
  guard_use :: "addr \<Rightarrow> int"
  plausible :: "addr \<Rightarrow> bool"
  cb_trace :: "cb_log list"

record waiter_snapshot =
  snap_magic :: "32 word"
  snap_func :: func_ptr
  snap_guard_use :: int
  snap_already :: bool

definition cb_note :: "cb_log \<Rightarrow> 'a cbq_scheme \<Rightarrow> 'a cbq_scheme" where
  "cb_note e s = s\<lparr>cb_trace := cb_trace s @ [e]\<rparr>"

section \<open>Operations\<close>

definition state_init :: "'a cbq_scheme \<Rightarrow> 'a cbq_scheme" where
  "state_init s =
     s\<lparr>running := False, guard := False, func := (func s)(runner s := Code Runner_cb),
       lks := INIT_LIST_HEAD (pending s) (INIT_LIST_HEAD (runner s) (lks s))\<rparr>"

definition capture_waiter :: "addr \<Rightarrow> 'a cbq_scheme \<Rightarrow> waiter_snapshot option" where
  "capture_waiter w s =
     (if plausible s w
      then Some \<lparr>snap_magic = debug_magic s w, snap_func = func s w, snap_guard_use = guard_use s w, snap_already = callback_enqueued s w\<rparr>
      else None)"

definition exchange_enqueued :: "addr \<Rightarrow> bool \<Rightarrow> 'a cbq_scheme \<Rightarrow> bool \<times> 'a cbq_scheme" where
  "exchange_enqueued w desired s = (callback_enqueued s w, s\<lparr>callback_enqueued := (callback_enqueued s)(w := desired)\<rparr>)"

definition store_enqueued :: "addr \<Rightarrow> bool \<Rightarrow> 'a cbq_scheme \<Rightarrow> 'a cbq_scheme" where
  "store_enqueued w v s = s\<lparr>callback_enqueued := (callback_enqueued s)(w := v)\<rparr>"

definition reset_guard :: "addr \<Rightarrow> 'a cbq_scheme \<Rightarrow> 'a cbq_scheme" where
  "reset_guard w s = s\<lparr>guard_use := (guard_use s)(w := 0)\<rparr>"

text \<open>
  \<open>state::post\<close>; \<open>e\<close> is the address of the entry that \<open>make_unique\<close> returns. The locked section is \<open>link_entry\<close>; the entry is
  freed again when the waiter is already queued.
\<close>

definition link_entry :: "addr \<Rightarrow> addr \<Rightarrow> 'a cbq_scheme \<Rightarrow> bool \<times> bool \<times> 'a cbq_scheme" where
  "link_entry e w s =
     (case exchange_enqueued w True s of (already, s1) \<Rightarrow>
        if already then (False, False, s1)
        else let s2 = s1\<lparr>entry_waiter := (entry_waiter s1)(e := Some w), lks := list_add_tail e (pending s1) (lks s1)\<rparr>
             in if \<not> running s2 then (True, True, s2\<lparr>running := True, guard := True\<rparr>) else (True, False, s2))"

definition state_post :: "addr \<Rightarrow> addr \<Rightarrow> 'a cbq_scheme \<Rightarrow> bool \<times> 'a cbq_scheme" where
  "state_post e w s =
     (case capture_waiter w s of
        None \<Rightarrow> (False, cb_note (Skip_unusable w) s)
      | Some snap \<Rightarrow>
          if snap_magic snap \<noteq> debug_magic_value then (False, cb_note (Skip_magic w) s)
          else let s1 = (if func s w = Null then cb_note (Warn_null w) s else s)
               in (case link_entry e w s1 of (accepted, need_sched, s2) \<Rightarrow>
                     (accepted, if need_sched then wq_post (runner s2) s2 else s2)))"

text \<open>
  The locked section of \<open>drain\<close>: stop when nothing is pending, otherwise check the ends of the list and move it to the
  local head. The result tells whether the loop goes on.
\<close>

definition grab_links :: "addr \<Rightarrow> addr \<Rightarrow> links \<Rightarrow> links" where
  "grab_links pend loc m =
     (let first = nxt m pend; last = prv m pend;
          m1 = set_next loc first m;
          m2 = set_prev loc last m1;
          m3 = set_prev (nxt m2 loc) loc m2;
          m4 = set_next (prv m3 loc) loc m3
      in INIT_LIST_HEAD pend m4)"

definition drain_grab :: "'a cbq_scheme \<Rightarrow> bool \<times> 'a cbq_scheme" where
  "drain_grab s0 =
     (let s = s0\<lparr>lks := INIT_LIST_HEAD (local_head s0) (lks s0)\<rparr>; m = lks s in
      if list_empty (pending s) m then (False, s\<lparr>running := False\<rparr>)
      else let first = nxt m (pending s); last = prv m (pending s) in
        if \<not> plausible s first \<or> \<not> plausible s last \<or> \<not> plausible s (prv m first) \<or> \<not> plausible s (nxt m last)
           \<or> prv m first \<noteq> pending s \<or> nxt m last \<noteq> pending s
        then (False, cb_note Corruption (s\<lparr>running := False, lks := INIT_LIST_HEAD (pending s) m\<rparr>))
        else (True, s\<lparr>lks := grab_links (pending s) (local_head s) m\<rparr>))"

text \<open>One turn of the inner loop: take the first entry off the local list and run its callback.\<close>

definition drain_one :: "(func_ptr \<Rightarrow> addr \<Rightarrow> 'a cbq_scheme \<Rightarrow> 'a cbq_scheme) \<Rightarrow> 'a cbq_scheme \<Rightarrow> 'a cbq_scheme" where
  "drain_one call s =
     (let lh = nxt (lks s) (local_head s);
          s1 = s\<lparr>lks := list_del lh (lks s)\<rparr>;
          s2 = (case entry_waiter s1 lh of
                  None \<Rightarrow> cb_note (Null_entry lh) s1
                | Some w \<Rightarrow>
                    (case capture_waiter w s1 of
                       None \<Rightarrow> cb_note (Skip_unusable w) s1
                     | Some snap \<Rightarrow>
                         let s3 = store_enqueued w False s1 in
                         if func s3 w = Null then cb_note (Missing_func w) s3
                         else if snap_magic snap \<noteq> debug_magic_value
                         then let s4 = cb_note (Skip_magic w) s3 in (if snap_guard_use snap > 0 then reset_guard w s4 else s4)
                         else call (func s3 w) w (cb_note (Exec w) s3)))
      in s2\<lparr>entry_waiter := (entry_waiter s2)(lh := None)\<rparr>)"

partial_function (option) drain_local ::
  "(func_ptr \<Rightarrow> addr \<Rightarrow> 'a cbq_scheme \<Rightarrow> 'a cbq_scheme) \<Rightarrow> 'a cbq_scheme \<Rightarrow> 'a cbq_scheme option" where
  "drain_local call s = (if list_empty (local_head s) (lks s) then Some s else drain_local call (drain_one call s))"

partial_function (option) drain_loop ::
  "(func_ptr \<Rightarrow> addr \<Rightarrow> 'a cbq_scheme \<Rightarrow> 'a cbq_scheme) \<Rightarrow> 'a cbq_scheme \<Rightarrow> 'a cbq_scheme option" where
  "drain_loop call s =
     (case drain_grab s of (again, s1) \<Rightarrow>
        if again then Option.bind (drain_local call s1) (drain_loop call) else Some s1)"

text \<open>
  The end of \<open>drain\<close>: \<open>keep_alive\<close> is the copy of the guard taken on entry. Both point to the same state, so the
  comparison of the pointers succeeds whenever both are set.
\<close>

definition release_runner_guard :: "bool \<Rightarrow> 'a cbq_scheme \<Rightarrow> 'a cbq_scheme" where
  "release_runner_guard keep_alive s = (if guard s = keep_alive then s\<lparr>guard := False\<rparr> else s)"

definition cbq_drain ::
  "(func_ptr \<Rightarrow> addr \<Rightarrow> 'a cbq_scheme \<Rightarrow> 'a cbq_scheme) \<Rightarrow> 'a cbq_scheme \<Rightarrow> 'a cbq_scheme option" where
  "cbq_drain call s =
     (let keep_alive = guard s
      in Option.bind (drain_loop call s) (\<lambda>s1. Some (release_runner_guard keep_alive s1)))"

definition runner_cb ::
  "(func_ptr \<Rightarrow> addr \<Rightarrow> 'a cbq_scheme \<Rightarrow> 'a cbq_scheme) \<Rightarrow> addr \<Rightarrow> 'a cbq_scheme \<Rightarrow> 'a cbq_scheme option" where
  "runner_cb call w s = cbq_drain call s"

text \<open>The destructor of the state frees the entries that were never run.\<close>

partial_function (option) state_dtor :: "'a cbq_scheme \<Rightarrow> 'a cbq_scheme option" where
  "state_dtor s =
     (if list_empty (pending s) (lks s) then Some s
      else let lh = nxt (lks s) (pending s)
           in state_dtor (s\<lparr>lks := list_del lh (lks s), entry_waiter := (entry_waiter s)(lh := None)\<rparr>))"

text \<open>\<open>post_adapter\<close> and \<open>post_via_route\<close>: \<open>route\<close> tells whether the waiter has a route to this queue.\<close>

definition post_via_route :: "bool \<Rightarrow> addr \<Rightarrow> addr \<Rightarrow> 'a cbq_scheme \<Rightarrow> 'a cbq_scheme" where
  "post_via_route route e w s = (if route then snd (state_post e w s) else wq_post w s)"

section \<open>Lemmas\<close>

text \<open>The move of \<open>drain\<close> is the splice of a batch into an empty list.\<close>

lemma grab_links_splice:
  assumes "list_empty loc m" and "prv m loc = loc" and "nxt m pend \<noteq> loc"
  shows "grab_links pend loc m = wq_splice pend loc m"
  using assms by (cases m) (auto simp: grab_links_def wq_splice_def Let_def set_next_def set_prev_def list_empty_def
      intro!: arg_cong [where f = "INIT_LIST_HEAD pend"] fun_upd_twist)

section \<open>Schedules\<close>

text \<open>
  Posting threads, executor threads and the drain loop interleave at the locked sections. \<open>posting\<close>
  counts threads between the locked section of \<open>post\<close> and \<open>exec.post(runner)\<close>, \<open>exits\<close> threads that left the loop of
  \<open>drain\<close> and have not yet released the guard; \<open>accepted\<close> and \<open>processed\<close> are the waiters that
  \<open>post\<close> linked and that \<open>drain\<close> took off its list, in order; \<open>overlap\<close> records that a second runner
  started while one was active.
\<close>

datatype drain_pc = Idle | Loop | Local

record disp =
  pc :: drain_pc
  posting :: nat
  exits :: nat
  accepted :: "addr list"
  processed :: "addr list"
  overlap :: bool

inductive cb_step :: "cbq \<times> disp \<Rightarrow> cbq \<times> disp \<Rightarrow> bool" where
  link: "list_empty e (lks s) \<Longrightarrow> e \<notin> {ws_head s, pending s, local_head s, runner s} \<Longrightarrow> entry_waiter s e = None \<Longrightarrow>
    link_entry e w s = (acc, need_sched, s') \<Longrightarrow>
    cb_step (s, g) (s', g\<lparr>posting := posting g + (if need_sched then 1 else 0), accepted := accepted g @ (if acc then [w] else [])\<rparr>)"
| sched: "posting g = Suc n \<Longrightarrow> cb_step (s, g) (wq_post (runner s) s, g\<lparr>posting := n\<rparr>)"
| take_runner: "get_work_node s = (Some p, s') \<Longrightarrow> p = runner s \<Longrightarrow>
    cb_step (s, g) (s', g\<lparr>pc := Loop, overlap := overlap g \<or> pc g \<noteq> Idle\<rparr>)"
| take_other: "get_work_node s = (Some p, s') \<Longrightarrow> p \<noteq> runner s \<Longrightarrow> cb_step (s, g) (s', g)"
| post_other: "list_empty p (lks s) \<Longrightarrow> p \<notin> {ws_head s, pending s, local_head s, runner s} \<Longrightarrow> entry_waiter s p = None \<Longrightarrow>
    cb_step (s, g) (wq_post p s, g)"
| grab: "pc g = Loop \<Longrightarrow> drain_grab s = (again, s') \<Longrightarrow>
    cb_step (s, g) (s', g\<lparr>pc := if again then Local else Idle, exits := exits g + (if again then 0 else 1)\<rparr>)"
| run: "pc g = Local \<Longrightarrow> \<not> list_empty (local_head s) (lks s) \<Longrightarrow> entry_waiter s (nxt (lks s) (local_head s)) = Some w \<Longrightarrow>
    cb_step (s, g) (drain_one (\<lambda>_ _ s. s) s, g\<lparr>processed := processed g @ [w]\<rparr>)"
| next_round: "pc g = Local \<Longrightarrow> list_empty (local_head s) (lks s) \<Longrightarrow> cb_step (s, g) (s, g\<lparr>pc := Loop\<rparr>)"
| release: "exits g = Suc n \<Longrightarrow> cb_step (s, g) (release_runner_guard True s, g\<lparr>exits := n\<rparr>)"

inductive cb_reachable :: "cbq \<times> disp \<Rightarrow> bool" where
  start: "lks s = fresh_links \<Longrightarrow> distinct [ws_head s, pending s, local_head s, runner s] \<Longrightarrow> (\<forall>e. entry_waiter s e = None) \<Longrightarrow>
    (\<forall>w. \<not> callback_enqueued s w) \<Longrightarrow> (\<forall>x. plausible s x) \<Longrightarrow>
    cb_reachable (state_init s, \<lparr>pc = Idle, posting = 0, exits = 0, accepted = [], processed = [], overlap = False\<rparr>)"
| step: "cb_reachable c \<Longrightarrow> cb_step c c' \<Longrightarrow> cb_reachable c'"

section \<open>The invariant\<close>

definition cb_lists :: "cbq \<Rightarrow> rings \<Rightarrow> addr list \<Rightarrow> addr list \<Rightarrow> addr list \<Rightarrow> bool" where
  "cb_lists s R qs ps ls \<longleftrightarrow> store_ok (lks s) {ws_head s, pending s, local_head s} R \<and> distinct [ws_head s, pending s, local_head s, runner s] \<and>
     R (ws_head s) = Some qs \<and> R (pending s) = Some ps \<and> R (local_head s) = Some ls \<and> runner s \<notin> set ps \<and> runner s \<notin> set ls"

definition cb_entries :: "cbq \<Rightarrow> addr list \<Rightarrow> addr list \<Rightarrow> bool" where
  "cb_entries s es ws \<longleftrightarrow> map (entry_waiter s) es = map Some ws \<and> distinct ws \<and> (\<forall>e. entry_waiter s e \<noteq> None \<longleftrightarrow> e \<in> set es) \<and>
     (\<forall>w. callback_enqueued s w \<longleftrightarrow> w \<in> set ws)"

definition cb_inv :: "cbq \<times> disp \<Rightarrow> bool" where
  "cb_inv = (\<lambda>(s, g). \<exists>R qs ps ls ws. cb_lists s R qs ps ls \<and> cb_entries s (ls @ ps) ws \<and> accepted g = processed g @ ws \<and>
     (\<forall>x. plausible s x) \<and> (pc g \<noteq> Local \<longrightarrow> ls = []) \<and> (ps \<noteq> [] \<longrightarrow> running s) \<and> \<not> overlap g \<and>
     of_bool (runner s \<in> set qs) + posting g + of_bool (pc g \<noteq> Idle) = (of_bool (running s) :: nat))"

lemma cbq_wq_simps [simp]:
  "pending (wq_post a s) = pending s" "local_head (wq_post a s) = local_head s" "running (wq_post a s) = running s"
  "runner (wq_post a s) = runner s" "guard (wq_post a s) = guard s" "entry_waiter (wq_post a s) = entry_waiter s"
  "callback_enqueued (wq_post a s) = callback_enqueued s" "plausible (wq_post a s) = plausible s" "cb_trace (wq_post a s) = cb_trace s"
  "debug_magic (wq_post a s) = debug_magic s" "lks (wq_post a s) = list_add_tail a (ws_head s) (list_del a (lks s))"
  by (simp_all add: wq_post_def enqueue_def trig_once_def emit_def)

lemma cb_entries_upd: "cb_entries s es ws \<Longrightarrow> entry_waiter s' = entry_waiter s \<Longrightarrow> callback_enqueued s' = callback_enqueued s \<Longrightarrow> cb_entries s' es ws"
  by (simp add: cb_entries_def)

lemma cb_entries_link:
  assumes "cb_entries s es ws" and "entry_waiter s e = None" and "\<not> callback_enqueued s w"
    and "entry_waiter s' = (entry_waiter s)(e := Some w)" and "callback_enqueued s' = (callback_enqueued s)(w := True)"
  shows "cb_entries s' (es @ [e]) (ws @ [w])"
proof -
  have "e \<notin> set es" using assms(1,2) by (metis cb_entries_def)
  then show ?thesis using assms by (auto simp: cb_entries_def)
qed

lemma cb_entries_unlink:
  assumes "cb_entries s (e # es) (w # ws)" and "distinct (e # es)"
    and "entry_waiter s' = (entry_waiter s)(e := None)" and "callback_enqueued s' = (callback_enqueued s)(w := False)"
  shows "cb_entries s' es ws"
  using assms by (auto simp: cb_entries_def)

lemma cb_lists_upd:
  "cb_lists s R qs ps ls \<Longrightarrow> lks s' = lks s \<Longrightarrow> ws_head s' = ws_head s \<Longrightarrow> pending s' = pending s \<Longrightarrow> local_head s' = local_head s \<Longrightarrow>
   runner s' = runner s \<Longrightarrow> cb_lists s' R qs ps ls"
  by (simp add: cb_lists_def)

lemma cb_lists_distinct:
  assumes "cb_lists s R qs ps ls"
  shows "distinct (ws_head s # qs)" "distinct (pending s # ps)" "distinct (local_head s # ls)"
    "set (ws_head s # qs) \<inter> set (pending s # ps) = {}" "set (ws_head s # qs) \<inter> set (local_head s # ls) = {}" "set (pending s # ps) \<inter> set (local_head s # ls) = {}"
proof -
  have m: "rep (lks s) R" and h: "R (ws_head s) = Some qs" "R (pending s) = Some ps" "R (local_head s) = Some ls"
    and d: "ws_head s \<noteq> pending s" "ws_head s \<noteq> local_head s" "pending s \<noteq> local_head s"
    using assms by (auto simp: cb_lists_def store_ok_def)
  show "distinct (ws_head s # qs)" "distinct (pending s # ps)" "distinct (local_head s # ls)" using rep_distinct [OF m] h by blast+
  show "set (ws_head s # qs) \<inter> set (pending s # ps) = {}" "set (ws_head s # qs) \<inter> set (local_head s # ls) = {}" "set (pending s # ps) \<inter> set (local_head s # ls) = {}"
    using rep_disjoint [OF m] h d by blast+
qed

text \<open>Posting a node to the executor, whether it is detached or already queued.\<close>

lemma cb_lists_post:
  assumes L: "cb_lists s R qs ps ls" and x: "x \<notin> set ps" "x \<notin> set ls" "x \<notin> {ws_head s, pending s, local_head s}"
  shows "\<exists>R'. cb_lists (wq_post x s) R' (remove1 x qs @ [x]) ps ls"
proof -
  have "store_ok (list_add_tail x (ws_head s) (list_del x (lks s))) {ws_head s, pending s, local_head s} (r_append x (ws_head s) (r_detach x R))"
    using L x by (intro store_ok_requeue) (auto simp: cb_lists_def)
  then show ?thesis using L x
    by (intro exI [of _ "r_append x (ws_head s) (r_detach x R)"]) (auto simp: cb_lists_def ring_simps remove1_idem)
qed

lemma cb_lists_link:
  assumes L: "cb_lists s R qs ps ls" and e: "list_empty e (lks s)" "e \<notin> {ws_head s, pending s, local_head s, runner s}"
  shows "\<exists>R'. cb_lists (s\<lparr>lks := list_add_tail e (pending s) (lks s)\<rparr>) R' qs (ps @ [e]) ls"
proof -
  have d: "R e = Some []" using L e by (intro store_ok_detached [of "lks s"]) (auto simp: cb_lists_def)
  then have "store_ok (list_add_tail e (pending s) (lks s)) {ws_head s, pending s, local_head s} (r_append e (pending s) R)"
    using L e by (intro store_ok_add_tail) (auto simp: cb_lists_def)
  then show ?thesis using L e by (intro exI [of _ "r_append e (pending s) R"]) (auto simp: cb_lists_def ring_simps)
qed

lemma cb_lists_take:
  assumes L: "cb_lists s R qs ps ls" and g: "get_work_node s = (Some p, s')"
  shows "\<exists>R' qs'. qs = p # qs' \<and> cb_lists s' R' qs' ps ls \<and> s' = s\<lparr>lks := list_del p (lks s)\<rparr>"
proof -
  have m: "rep (lks s) R" and q: "R (ws_head s) = Some qs" using L by (auto simp: cb_lists_def store_ok_def)
  from g m q get_work_node_Nil [of s R] obtain qs' where qs: "qs = p # qs'"
    using get_work_node_Cons [of s R] by (cases qs) auto
  have s': "s' = s\<lparr>lks := list_del p (lks s)\<rparr>" using g get_work_node_Cons [OF m, of p qs'] q qs by auto
  have off: "p \<notin> {ws_head s, pending s, local_head s}" "p \<notin> set ps" "p \<notin> set ls" "p \<notin> set qs'" using cb_lists_distinct [OF L] qs by auto
  have "store_ok (list_del p (lks s)) {ws_head s, pending s, local_head s} (r_detach p R)"
    using L off by (intro store_ok_del) (auto simp: cb_lists_def)
  then show ?thesis using L qs off s' by (intro exI [of _ "r_detach p R"] exI [of _ qs']) (auto simp: cb_lists_def ring_simps remove1_idem)
qed

lemma cb_lists_init_local:
  assumes "cb_lists s R qs ps []"
  shows "INIT_LIST_HEAD (local_head s) (lks s) = lks s"
  using assms INIT_LIST_HEAD_empty [of "lks s" R "local_head s"] by (auto simp: cb_lists_def store_ok_def)

lemma drain_grab_lists:
  assumes L: "cb_lists s R qs ps []" and pl: "\<forall>x. plausible s x"
  shows "case ps of [] \<Rightarrow> drain_grab s = (False, s\<lparr>lks := lks s, running := False\<rparr>)
    | _ \<Rightarrow> \<exists>R' s'. drain_grab s = (True, s') \<and> cb_lists s' R' qs [] ps \<and> s' = s\<lparr>lks := lks s'\<rparr>"
proof -
  let ?p = "pending s" and ?l = "local_head s" and ?m = "lks s"
  have m: "rep ?m R" and h: "R ?p = Some ps" "R ?l = Some []" using L by (auto simp: cb_lists_def store_ok_def)
  have i: "INIT_LIST_HEAD ?l ?m = ?m" using L by (rule cb_lists_init_local)
  show ?thesis
  proof (cases ps)
    case Nil
    then show ?thesis using rep_list_empty [OF m h(1)] i by (simp add: drain_grab_def Let_def)
  next
    case (Cons x xs)
    have ne: "\<not> list_empty ?p ?m" using rep_list_empty [OF m h(1)] Cons by simp
    have r: "ring ?m ?p ps" using m h(1) by (rule rep_ring)
    have ends: "prv ?m (nxt ?m ?p) = ?p" "nxt ?m (prv ?m ?p) = ?p" using ring_ends [OF r] by auto
    have lo: "list_empty ?l ?m" "prv ?m ?l = ?l" using rep_list_empty [OF m h(2)] ring_last [OF rep_ring [OF m h(2)]] by auto
    have np: "nxt ?m ?p \<noteq> ?l" using rep_first [OF m, of ?p x xs] h(1) Cons cb_lists_distinct(6) [OF L] by auto
    let ?s = "s\<lparr>lks := wq_splice ?p ?l ?m\<rparr>"
    have e: "drain_grab s = (True, ?s)"
      using ne ends pl i grab_links_splice [OF lo np] by (simp add: drain_grab_def Let_def)
    have "store_ok (wq_splice ?p ?l ?m) {ws_head s, ?p, ?l} (r_splice ?p ?l R)"
      using L h(1) Cons by (intro store_ok_splice) (auto simp: cb_lists_def)
    then have "cb_lists ?s (r_splice ?p ?l R) qs [] ps" using L Cons by (auto simp: cb_lists_def ring_simps)
    then show ?thesis using e Cons by auto
  qed
qed

text \<open>A callback is quiet when it only resumes coroutines: it posts nothing back to this queue.\<close>

definition quiet :: "(func_ptr \<Rightarrow> addr \<Rightarrow> cbq \<Rightarrow> cbq) \<Rightarrow> bool" where
  "quiet call \<longleftrightarrow> (\<forall>f w s. \<exists>tr. call f w s = s\<lparr>io_trace := tr\<rparr>)"

lemma quietE:
  assumes "quiet call"
  obtains tr where "call f w s = s\<lparr>io_trace := tr\<rparr>"
  using assms unfolding quiet_def by blast

lemma drain_one_fields:
  assumes "quiet call" and "entry_waiter s (nxt (lks s) (local_head s)) = Some w" and "plausible s w"
  shows "lks (drain_one call s) = list_del (nxt (lks s) (local_head s)) (lks s)"
    "entry_waiter (drain_one call s) = (entry_waiter s)(nxt (lks s) (local_head s) := None)"
    "callback_enqueued (drain_one call s) = (callback_enqueued s)(w := False)"
    "ws_head (drain_one call s) = ws_head s" "pending (drain_one call s) = pending s" "local_head (drain_one call s) = local_head s"
    "runner (drain_one call s) = runner s" "plausible (drain_one call s) = plausible s" "running (drain_one call s) = running s" "guard (drain_one call s) = guard s"
    "func (drain_one call s) = func s" "debug_magic (drain_one call s) = debug_magic s"
    "cb_trace (drain_one call s) = cb_trace s @
      [if func s w = Null then Missing_func w else if debug_magic s w \<noteq> debug_magic_value then Skip_magic w else Exec w]"
proof -
  let ?t = "cb_note (Exec w) (store_enqueued w False (s\<lparr>lks := list_del (nxt (lks s) (local_head s)) (lks s)\<rparr>))"
  obtain tr where "call (func s w) w ?t = ?t\<lparr>io_trace := tr\<rparr>" by (rule quietE [OF assms(1)])
  note d = this [unfolded cb_note_def store_enqueued_def, simplified]
  show "lks (drain_one call s) = list_del (nxt (lks s) (local_head s)) (lks s)"
    "entry_waiter (drain_one call s) = (entry_waiter s)(nxt (lks s) (local_head s) := None)"
    "callback_enqueued (drain_one call s) = (callback_enqueued s)(w := False)"
    "ws_head (drain_one call s) = ws_head s" "pending (drain_one call s) = pending s" "local_head (drain_one call s) = local_head s"
    "runner (drain_one call s) = runner s" "plausible (drain_one call s) = plausible s" "running (drain_one call s) = running s" "guard (drain_one call s) = guard s"
    "func (drain_one call s) = func s" "debug_magic (drain_one call s) = debug_magic s"
    "cb_trace (drain_one call s) = cb_trace s @
      [if func s w = Null then Missing_func w else if debug_magic s w \<noteq> debug_magic_value then Skip_magic w else Exec w]"
    using assms(2,3) d by (auto simp: drain_one_def Let_def capture_waiter_def store_enqueued_def cb_note_def reset_guard_def)
qed

lemma drain_one_lists:
  assumes q: "quiet call" and L: "cb_lists s R qs ps (e # ls)" and E: "cb_entries s ((e # ls) @ ps) ws" and pl: "\<forall>x. plausible s x"
  shows "\<exists>R' w ws'. ws = w # ws' \<and> nxt (lks s) (local_head s) = e \<and> entry_waiter s e = Some w \<and>
    cb_lists (drain_one call s) R' qs ps ls \<and> cb_entries (drain_one call s) (ls @ ps) ws'"
proof -
  let ?d = "drain_one call s"
  obtain w ws' where w: "ws = w # ws'" "entry_waiter s e = Some w" using E by (cases ws) (auto simp: cb_entries_def)
  have m: "rep (lks s) R" "R (local_head s) = Some (e # ls)" using L by (auto simp: cb_lists_def store_ok_def)
  have n: "nxt (lks s) (local_head s) = e" by (rule rep_first [OF m])
  note f = drain_one_fields [OF q, of s w, unfolded n, OF w(2)]
  have pw: "plausible s w" using pl by simp
  have off: "e \<notin> {ws_head s, pending s, local_head s}" "e \<notin> set ps" "e \<notin> set qs" "e \<notin> set ls" using cb_lists_distinct [OF L] by auto
  have d: "distinct ((e # ls) @ ps)" using cb_lists_distinct [OF L] by auto
  have "store_ok (list_del e (lks s)) {ws_head s, pending s, local_head s} (r_detach e R)"
    using L off by (intro store_ok_del) (auto simp: cb_lists_def)
  then have "cb_lists ?d (r_detach e R) qs ps ls" using L off f [OF pw] by (auto simp: cb_lists_def ring_simps remove1_idem)
  moreover have "cb_entries ?d (ls @ ps) ws'" using cb_entries_unlink [of s e "ls @ ps" w ws' ?d] E d f [OF pw] w by simp
  ultimately show ?thesis using n w by auto
qed

lemma cb_invE:
  assumes "cb_inv (s, g)"
  obtains R qs ps ls ws where "cb_lists s R qs ps ls" and "cb_entries s (ls @ ps) ws" and "accepted g = processed g @ ws"
    and "\<forall>x. plausible s x" and "pc g \<noteq> Local \<longrightarrow> ls = []" and "ps \<noteq> [] \<longrightarrow> running s" and "\<not> overlap g"
    and "of_bool (runner s \<in> set qs) + posting g + of_bool (pc g \<noteq> Idle) = (of_bool (running s) :: nat)"
  using assms unfolding cb_inv_def by blast

lemma cb_invI:
  assumes "cb_lists s R qs ps ls" and "cb_entries s (ls @ ps) ws" and "accepted g = processed g @ ws"
    and "\<forall>x. plausible s x" and "pc g \<noteq> Local \<longrightarrow> ls = []" and "ps \<noteq> [] \<longrightarrow> running s" and "\<not> overlap g"
    and "of_bool (runner s \<in> set qs) + posting g + of_bool (pc g \<noteq> Idle) = (of_bool (running s) :: nat)"
  shows "cb_inv (s, g)"
  using assms unfolding cb_inv_def by blast

lemma cb_inv_link:
  assumes I: "cb_inv (s, g)" and e: "list_empty e (lks s)" "e \<notin> {ws_head s, pending s, local_head s, runner s}" "entry_waiter s e = None"
    and k: "link_entry e w s = (acc, need_sched, s')"
  shows "cb_inv (s', g\<lparr>posting := posting g + (if need_sched then 1 else 0), accepted := accepted g @ (if acc then [w] else [])\<rparr>)"
proof -
  from I obtain R qs ps ls ws where L: "cb_lists s R qs ps ls" and E: "cb_entries s (ls @ ps) ws" and a: "accepted g = processed g @ ws"
    and pl: "\<forall>x. plausible s x" and pcl: "pc g \<noteq> Local \<longrightarrow> ls = []" and rn: "ps \<noteq> [] \<longrightarrow> running s" and ov: "\<not> overlap g"
    and cnt: "of_bool (runner s \<in> set qs) + posting g + of_bool (pc g \<noteq> Idle) = (of_bool (running s) :: nat)" by (rule cb_invE)
  show ?thesis
  proof (cases "callback_enqueued s w")
    case True
    then have s': "s' = s\<lparr>callback_enqueued := (callback_enqueued s)(w := True)\<rparr>" "\<not> acc" "\<not> need_sched"
      using k by (auto simp: link_entry_def exchange_enqueued_def)
    have "callback_enqueued s' = callback_enqueued s" using True s'(1) by (auto simp: fun_eq_iff)
    then have "cb_entries s' (ls @ ps) ws" using E s'(1) by (elim cb_entries_upd) simp_all
    moreover have "cb_lists s' R qs ps ls" using L by (rule cb_lists_upd) (simp_all add: s'(1))
    ultimately show ?thesis using a pl pcl rn ov cnt s' by (intro cb_invI) auto
  next
    case False
    from cb_lists_link [OF L e(1,2)] obtain R' where L': "cb_lists (s\<lparr>lks := list_add_tail e (pending s) (lks s)\<rparr>) R' qs (ps @ [e]) ls" by blast
    have s': "acc" "need_sched = (\<not> running s)" "lks s' = list_add_tail e (pending s) (lks s)" "ws_head s' = ws_head s" "pending s' = pending s"
      "local_head s' = local_head s" "runner s' = runner s" "entry_waiter s' = (entry_waiter s)(e := Some w)" "running s'" "plausible s' = plausible s"
      "callback_enqueued s' = (callback_enqueued s)(w := True)"
      using k False by (auto simp: link_entry_def exchange_enqueued_def Let_def split: if_splits)
    have "cb_lists s' R' qs (ps @ [e]) ls" using L' by (rule cb_lists_upd) (simp_all add: s')
    moreover have "cb_entries s' (ls @ ps @ [e]) (ws @ [w])" using cb_entries_link [OF E e(3) False s'(8,11)] by simp
    ultimately show ?thesis using a pl pcl ov cnt s' by (intro cb_invI) auto
  qed
qed

lemma cb_inv_grab:
  assumes I: "cb_inv (s, g)" and p: "pc g = Loop" and d: "drain_grab s = (again, s')"
  shows "cb_inv (s', g\<lparr>pc := if again then Local else Idle, exits := exits g + (if again then 0 else 1)\<rparr>)"
proof -
  from I obtain R qs ps ls ws where L: "cb_lists s R qs ps ls" and E: "cb_entries s (ls @ ps) ws" and a: "accepted g = processed g @ ws"
    and pl: "\<forall>x. plausible s x" and pcl: "pc g \<noteq> Local \<longrightarrow> ls = []" and rn: "ps \<noteq> [] \<longrightarrow> running s" and ov: "\<not> overlap g"
    and cnt: "of_bool (runner s \<in> set qs) + posting g + of_bool (pc g \<noteq> Idle) = (of_bool (running s) :: nat)" by (rule cb_invE)
  have ls: "ls = []" using pcl p by simp
  note dg = drain_grab_lists [OF L [unfolded ls] pl]
  have c: "running s" "runner s \<notin> set qs" "posting g = 0" using cnt p by (auto split: if_splits simp: of_bool_def)
  show ?thesis
  proof (cases ps)
    case Nil
    then have s': "s' = s\<lparr>lks := lks s, running := False\<rparr>" "\<not> again" using dg d by auto
    have "cb_lists s' R qs [] []" using L ls Nil by (auto simp: s' intro: cb_lists_upd)
    moreover have "cb_entries s' ([] @ []) ws" using E ls Nil by (auto simp: s' intro: cb_entries_upd)
    ultimately show ?thesis using a pl ov c s' by (intro cb_invI) auto
  next
    case (Cons x xs)
    then obtain R' where ag: again and L': "cb_lists s' R' qs [] ps" and s': "s' = s\<lparr>lks := lks s'\<rparr>" using dg d by auto
    have f: "entry_waiter s' = entry_waiter s" "callback_enqueued s' = callback_enqueued s" "plausible s' = plausible s" "running s' = running s" "runner s' = runner s"
      by (subst s', simp)+
    have "cb_entries s' (ps @ []) ws" using E ls f by (auto intro: cb_entries_upd)
    then show ?thesis using a pl ov c f ag by (intro cb_invI [OF L']) auto
  qed
qed

lemma cb_step_inv:
  assumes "cb_step c c'" and "cb_inv c"
  shows "cb_inv c'"
  using assms
proof (induction rule: cb_step.induct)
  case (link e s w acc need_sched s' g)
  then show ?case by (intro cb_inv_link)
next
  case (sched g n s)
  from sched(2) obtain R qs ps ls ws where L: "cb_lists s R qs ps ls" and E: "cb_entries s (ls @ ps) ws" and a: "accepted g = processed g @ ws"
    and r: "\<forall>x. plausible s x" "pc g \<noteq> Local \<longrightarrow> ls = []" "ps \<noteq> [] \<longrightarrow> running s" "\<not> overlap g"
    and cnt: "of_bool (runner s \<in> set qs) + posting g + of_bool (pc g \<noteq> Idle) = (of_bool (running s) :: nat)" by (rule cb_invE)
  have c: "runner s \<notin> set qs" "n = 0" "pc g = Idle" "running s" using cnt sched(1) by (auto simp: of_bool_def split: if_splits)
  from L have "runner s \<notin> set ps" "runner s \<notin> set ls" "runner s \<notin> {ws_head s, pending s, local_head s}" by (auto simp: cb_lists_def)
  from cb_lists_post [OF L this] obtain R' where L': "cb_lists (wq_post (runner s) s) R' (remove1 (runner s) qs @ [runner s]) ps ls" by blast
  have "cb_entries (wq_post (runner s) s) (ls @ ps) ws" using E by (rule cb_entries_upd) simp_all
  then show ?case using a r c by (intro cb_invI [OF L']) auto
next
  case (take_runner s p s' g)
  from take_runner(3) obtain R qs ps ls ws where L: "cb_lists s R qs ps ls" and E: "cb_entries s (ls @ ps) ws" and a: "accepted g = processed g @ ws"
    and r: "\<forall>x. plausible s x" "pc g \<noteq> Local \<longrightarrow> ls = []" "ps \<noteq> [] \<longrightarrow> running s" "\<not> overlap g"
    and cnt: "of_bool (runner s \<in> set qs) + posting g + of_bool (pc g \<noteq> Idle) = (of_bool (running s) :: nat)" by (rule cb_invE)
  from cb_lists_take [OF L take_runner(1)] obtain R' qs' where t: "qs = p # qs'" "cb_lists s' R' qs' ps ls" "s' = s\<lparr>lks := list_del p (lks s)\<rparr>" by blast
  have nq: "p \<notin> set qs'" using cb_lists_distinct(1) [OF L] t(1) by simp
  have c: "posting g = 0" "pc g = Idle" "running s" using cnt take_runner(2) t(1) by (auto simp: of_bool_def split: if_splits)
  have "cb_entries s' (ls @ ps) ws" using E by (rule cb_entries_upd) (simp_all add: t(3))
  then show ?case using a r c nq take_runner(2) by (intro cb_invI [OF t(2)]) (auto simp: t(3))
next
  case (take_other s p s' g)
  from take_other(3) obtain R qs ps ls ws where L: "cb_lists s R qs ps ls" and E: "cb_entries s (ls @ ps) ws" and a: "accepted g = processed g @ ws"
    and r: "\<forall>x. plausible s x" "pc g \<noteq> Local \<longrightarrow> ls = []" "ps \<noteq> [] \<longrightarrow> running s" "\<not> overlap g"
    and cnt: "of_bool (runner s \<in> set qs) + posting g + of_bool (pc g \<noteq> Idle) = (of_bool (running s) :: nat)" by (rule cb_invE)
  from cb_lists_take [OF L take_other(1)] obtain R' qs' where t: "qs = p # qs'" "cb_lists s' R' qs' ps ls" "s' = s\<lparr>lks := list_del p (lks s)\<rparr>" by blast
  have "cb_entries s' (ls @ ps) ws" using E by (rule cb_entries_upd) (simp_all add: t(3))
  then show ?case using a r cnt t(1) take_other(2) by (intro cb_invI [OF t(2)]) (auto simp: t(3))
next
  case (post_other p s g)
  from post_other(4) obtain R qs ps ls ws where L: "cb_lists s R qs ps ls" and E: "cb_entries s (ls @ ps) ws" and a: "accepted g = processed g @ ws"
    and r: "\<forall>x. plausible s x" "pc g \<noteq> Local \<longrightarrow> ls = []" "ps \<noteq> [] \<longrightarrow> running s" "\<not> overlap g"
    and cnt: "of_bool (runner s \<in> set qs) + posting g + of_bool (pc g \<noteq> Idle) = (of_bool (running s) :: nat)" by (rule cb_invE)
  have "p \<notin> set ps" "p \<notin> set ls" "p \<notin> {ws_head s, pending s, local_head s}"
    using L post_other(1,2) rep_list_empty_member [of "lks s" R] by (auto simp: cb_lists_def store_ok_def)
  from cb_lists_post [OF L this] obtain R' where L': "cb_lists (wq_post p s) R' (remove1 p qs @ [p]) ps ls" by blast
  have "cb_entries (wq_post p s) (ls @ ps) ws" using E by (rule cb_entries_upd) simp_all
  then show ?case using a r cnt post_other(2) by (intro cb_invI [OF L']) auto
next
  case (grab g s again s')
  then show ?case by (intro cb_inv_grab)
next
  case (run g s w)
  from run(4) obtain R qs ps ls ws where L: "cb_lists s R qs ps ls" and E: "cb_entries s (ls @ ps) ws" and a: "accepted g = processed g @ ws"
    and r: "\<forall>x. plausible s x" "ps \<noteq> [] \<longrightarrow> running s" "\<not> overlap g"
    and cnt: "of_bool (runner s \<in> set qs) + posting g + of_bool (pc g \<noteq> Idle) = (of_bool (running s) :: nat)" by (rule cb_invE)
  have "ls \<noteq> []" using run(2) L rep_list_empty [of "lks s" R "local_head s" ls] by (auto simp: cb_lists_def store_ok_def)
  then obtain e ls' where ls: "ls = e # ls'" by (cases ls) auto
  have q: "quiet (\<lambda>_ _ s. s)" unfolding quiet_def by (metis ser.surjective ser.update_convs(7))
  from drain_one_lists [OF q L [unfolded ls] E [unfolded ls] r(1)] obtain R' w' ws' where
    d: "ws = w' # ws'" "nxt (lks s) (local_head s) = e" "entry_waiter s e = Some w'"
      "cb_lists (drain_one (\<lambda>_ _ s. s) s) R' qs ps ls'" "cb_entries (drain_one (\<lambda>_ _ s. s) s) (ls' @ ps) ws'" by blast
  note f = drain_one_fields [OF q, of s w]
  have "w' = w" using run(3) d(2,3) by simp
  then show ?case using a r cnt d run(1,3) f by (intro cb_invI [OF d(4,5)]) auto
next
  case (next_round g s)
  from next_round(3) obtain R qs ps ls ws where L: "cb_lists s R qs ps ls" and E: "cb_entries s (ls @ ps) ws" and a: "accepted g = processed g @ ws"
    and r: "\<forall>x. plausible s x" "ps \<noteq> [] \<longrightarrow> running s" "\<not> overlap g"
    and cnt: "of_bool (runner s \<in> set qs) + posting g + of_bool (pc g \<noteq> Idle) = (of_bool (running s) :: nat)" by (rule cb_invE)
  have "ls = []" using next_round(2) L rep_list_empty [of "lks s" R "local_head s" ls] by (auto simp: cb_lists_def store_ok_def)
  then show ?case using a r cnt next_round(1) by (intro cb_invI [OF L E]) auto
next
  case (release g n s)
  from release(2) show ?case
    by - (elim cb_invE, rule cb_invI, erule cb_lists_upd, auto simp: release_runner_guard_def cb_entries_def)
qed

lemma cb_inv_start:
  assumes l: "lks s = fresh_links" and d: "distinct [ws_head s, pending s, local_head s, runner s]" and e: "\<forall>e. entry_waiter s e = None"
    and c: "\<forall>w. \<not> callback_enqueued s w" and p: "\<forall>x. plausible s x"
  shows "cb_inv (state_init s, \<lparr>pc = Idle, posting = 0, exits = 0, accepted = [], processed = [], overlap = False\<rparr>)"
proof (rule cb_invI)
  have "lks (state_init s) = fresh_links" using l by (simp add: state_init_def INIT_LIST_HEAD_empty [OF rep_fresh_links])
  then show "cb_lists (state_init s) (\<lambda>_. Some []) [] [] []" using d by (auto simp: cb_lists_def store_ok_fresh state_init_def)
  show "cb_entries (state_init s) ([] @ []) []" using e c by (auto simp: cb_entries_def state_init_def)
qed (use p in \<open>auto simp: state_init_def\<close>)

lemma cb_reachable_inv: "cb_reachable c \<Longrightarrow> cb_inv c"
  by (induction rule: cb_reachable.induct) (auto intro: cb_inv_start cb_step_inv)

definition runnable :: "cbq \<Rightarrow> addr \<Rightarrow> bool" where
  "runnable s w \<longleftrightarrow> func s w \<noteq> Null \<and> debug_magic s w = debug_magic_value"

lemma drain_local_runs:
  assumes "quiet call" and "cb_lists s R qs ps ls" and "cb_entries s (ls @ ps) (us @ vs)" and "length us = length ls"
    and "\<forall>x. plausible s x" and "\<forall>w\<in>set us. runnable s w"
  shows "\<exists>s' R'. drain_local call s = Some s' \<and> cb_lists s' R' qs ps [] \<and> cb_entries s' ps vs \<and> cb_trace s' = cb_trace s @ map Exec us \<and>
    plausible s' = plausible s \<and> running s' = running s \<and> guard s' = guard s \<and> func s' = func s \<and> debug_magic s' = debug_magic s \<and>
    ws_head s' = ws_head s \<and> pending s' = pending s \<and> local_head s' = local_head s \<and> runner s' = runner s"
  using assms
proof (induction ls arbitrary: s R us)
  case Nil
  then have "list_empty (local_head s) (lks s)" using rep_list_empty [of "lks s" R "local_head s" "[]"] by (auto simp: cb_lists_def store_ok_def)
  then show ?case using Nil by (intro exI [of _ s] exI [of _ R]) (simp add: drain_local.simps)
next
  case (Cons e ls)
  then have ne: "\<not> list_empty (local_head s) (lks s)" using rep_list_empty [of "lks s" R "local_head s" "e # ls"] by (auto simp: cb_lists_def store_ok_def)
  from drain_one_lists [OF Cons.prems(1,2,3,5)] obtain R1 w ws' where
    d: "us @ vs = w # ws'" "nxt (lks s) (local_head s) = e" "entry_waiter s e = Some w"
      "cb_lists (drain_one call s) R1 qs ps ls" "cb_entries (drain_one call s) (ls @ ps) ws'" by blast
  obtain us' where us: "us = w # us'" "ws' = us' @ vs" using d(1) Cons.prems(4) by (cases us) auto
  have f: "plausible (drain_one call s) = plausible s" "running (drain_one call s) = running s" "guard (drain_one call s) = guard s"
    "func (drain_one call s) = func s" "debug_magic (drain_one call s) = debug_magic s" "ws_head (drain_one call s) = ws_head s"
    "pending (drain_one call s) = pending s" "local_head (drain_one call s) = local_head s" "runner (drain_one call s) = runner s"
    "cb_trace (drain_one call s) = cb_trace s @ [Exec w]"
    using drain_one_fields [OF Cons.prems(1), of s w, unfolded d(2), OF d(3)] Cons.prems(5,6) us(1) by (auto simp: runnable_def)
  have len: "length us' = length ls" using us(1) Cons.prems(4) by simp
  have r: "\<forall>x. plausible (drain_one call s) x" "\<forall>w\<in>set us'. runnable (drain_one call s) w"
    using Cons.prems(5,6) us(1) f by (auto simp: runnable_def)
  from Cons.IH [OF Cons.prems(1) d(4) d(5) [unfolded us(2)] len r] f us(1) show ?case
    using ne drain_local.simps [of call s] by auto
qed

section \<open>Properties\<close>

text \<open>
  C4: ordered dispatch. In every interleaving of posting threads, executor threads and the drain loop: waiters are
  processed in the order in which \<open>post\<close> accepted them, each exactly once, and the entries that are linked are exactly the
  accepted waiters still to process; every live entry is linked, so none leaks; no second runner
  ever overlaps an active one; and while something is pending exactly one runner is on its way:
  about to be posted, queued, or draining.
\<close>

theorem callback_wq_ordered:
  assumes "cb_reachable (s, g)"
  shows "\<exists>qs ps ls ws. ring (lks s) (ws_head s) qs \<and> ring (lks s) (pending s) ps \<and> ring (lks s) (local_head s) ls \<and>
    accepted g = processed g @ ws \<and> map (entry_waiter s) (ls @ ps) = map Some ws \<and> distinct ws \<and>
    (\<forall>e. entry_waiter s e \<noteq> None \<longleftrightarrow> e \<in> set (ls @ ps)) \<and> \<not> overlap g \<and>
    (ps \<noteq> [] \<longrightarrow> of_bool (runner s \<in> set qs) + posting g + of_bool (pc g \<noteq> Idle) = 1)"
proof -
  from cb_reachable_inv [OF assms] obtain R qs ps ls ws where L: "cb_lists s R qs ps ls" and E: "cb_entries s (ls @ ps) ws"
    and r: "accepted g = processed g @ ws" "ps \<noteq> [] \<longrightarrow> running s" "\<not> overlap g"
      "of_bool (runner s \<in> set qs) + posting g + of_bool (pc g \<noteq> Idle) = (of_bool (running s) :: nat)" by (rule cb_invE)
  have "ring (lks s) (ws_head s) qs" "ring (lks s) (pending s) ps" "ring (lks s) (local_head s) ls"
    using L by (auto simp: cb_lists_def store_ok_def intro: rep_ring)
  moreover have "ps \<noteq> [] \<longrightarrow> of_bool (runner s \<in> set qs) + posting g + of_bool (pc g \<noteq> Idle) = 1"
    using r(2,4) by (cases "running s") simp_all
  moreover have "map (entry_waiter s) (ls @ ps) = map Some ws" "distinct ws" "\<forall>e. entry_waiter s e \<noteq> None \<longleftrightarrow> e \<in> set (ls @ ps)"
    using E unfolding cb_entries_def by blast+
  ultimately show ?thesis using r(1,3) by blast
qed

definition demo_cbq :: cbq where
  "demo_cbq = \<lparr>lks = fresh_links, func = (\<lambda>_. Code Resume_cb), ws_head = 10, trig = True, log = [],
     locked = (\<lambda>_. False), q_of = (\<lambda>_. 60), h_of = (\<lambda>a. Some (a + 100)), h_done = (\<lambda>_. False), timeout_func = (\<lambda>_. Null),
     debug_magic = (\<lambda>_. debug_magic_value), io_trace = [], pending = 20, local_head = 30, running = False, runner = 40, guard = False,
     entry_waiter = (\<lambda>_. None), callback_enqueued = (\<lambda>_. False), guard_use = (\<lambda>_. 0), plausible = (\<lambda>_. True), cb_trace = []\<rparr>"

definition demo_disp :: disp where
  "demo_disp = \<lparr>pc = Idle, posting = 0, exits = 0, accepted = [], processed = [], overlap = False\<rparr>"

lemma demo_cbq_reachable: "cb_reachable (state_init demo_cbq, demo_disp)"
  unfolding demo_disp_def by (rule cb_reachable.start) (simp_all add: demo_cbq_def)

lemma demo_cbq_lks: "lks (state_init demo_cbq) = fresh_links"
  by (simp add: state_init_def demo_cbq_def INIT_LIST_HEAD_empty [OF rep_fresh_links])

lemma demo_link: "link_entry 50 2 (state_init demo_cbq) = (True, True, snd (snd (link_entry 50 2 (state_init demo_cbq))))"
  by (simp add: link_entry_def exchange_enqueued_def state_init_def demo_cbq_def Let_def)

theorem callback_wq_ordered_witness:
  "\<exists>s g. cb_reachable (s, g) \<and> accepted g = [2] \<and> processed g = [] \<and> \<not> overlap g"
proof -
  have "list_empty 50 (lks (state_init demo_cbq))" by (simp add: demo_cbq_lks list_empty_def fresh_links_def)
  then have "cb_step (state_init demo_cbq, demo_disp) (snd (snd (link_entry 50 2 (state_init demo_cbq))),
      demo_disp\<lparr>posting := posting demo_disp + (if True then 1 else 0), accepted := accepted demo_disp @ (if True then [2] else [])\<rparr>)"
    by (rule cb_step.link [OF _ _ _ demo_link]) (simp_all add: state_init_def demo_cbq_def)
  from cb_reachable.step [OF demo_cbq_reachable this]
  have r: "cb_reachable (snd (snd (link_entry 50 2 (state_init demo_cbq))), demo_disp\<lparr>posting := 1, accepted := [2]\<rparr>)"
    by (simp add: demo_disp_def)
  from callback_wq_ordered [OF r] r show ?thesis
    by (intro exI [of _ "snd (snd (link_entry 50 2 (state_init demo_cbq)))"] exI [of _ "demo_disp\<lparr>posting := 1, accepted := [2]\<rparr>"])
       (simp add: demo_disp_def)
qed

text \<open>
  C17: one drain. With callbacks that post nothing back, \<open>drain\<close> terminates; it runs every pending callback once, in
  order, frees every entry, leaves no waiter marked as queued, and ends with the runner inactive and its guard
  released.
\<close>

theorem callback_wq_drain_runs_all:
  assumes "quiet call" and "cb_lists s R qs ps []" and "cb_entries s ps ws" and "\<forall>x. plausible s x" and "\<forall>w\<in>set ws. runnable s w"
  shows "\<exists>s' R'. cbq_drain call s = Some s' \<and> cb_lists s' R' qs [] [] \<and> cb_trace s' = cb_trace s @ map Exec ws \<and>
    (\<forall>e. entry_waiter s' e = None) \<and> (\<forall>w. \<not> callback_enqueued s' w) \<and> \<not> running s' \<and> \<not> guard s'"
proof -
  have stop: "\<exists>s'. drain_loop call t = Some s' \<and> cb_lists s' R' qs [] [] \<and> cb_trace s' = cb_trace t \<and> entry_waiter s' = entry_waiter t \<and>
      callback_enqueued s' = callback_enqueued t \<and> \<not> running s' \<and> guard s' = guard t"
    if "cb_lists t R' qs [] []" "\<forall>x. plausible t x" for t R'
    using drain_grab_lists [OF that] that(1) by (auto simp: drain_loop.simps intro: cb_lists_upd)
  have "\<exists>s' R'. drain_loop call s = Some s' \<and> cb_lists s' R' qs [] [] \<and> cb_trace s' = cb_trace s @ map Exec ws \<and>
      (\<forall>e. entry_waiter s' e = None) \<and> (\<forall>w. \<not> callback_enqueued s' w) \<and> \<not> running s' \<and> guard s' = guard s"
  proof (cases ps)
    case Nil
    then have "ws = []" using assms(3) by (auto simp: cb_entries_def)
    then show ?thesis using stop [OF assms(2) [unfolded Nil] assms(4)] assms(3) Nil by (auto simp: cb_entries_def)
  next
    case (Cons e es)
    then obtain R1 s1 where g: "drain_grab s = (True, s1)" "cb_lists s1 R1 qs [] ps" and s1: "s1 = s\<lparr>lks := lks s1\<rparr>"
      using drain_grab_lists [OF assms(2,4)] by auto
    have f: "plausible s1 = plausible s" "entry_waiter s1 = entry_waiter s" "callback_enqueued s1 = callback_enqueued s" "func s1 = func s"
      "debug_magic s1 = debug_magic s" "cb_trace s1 = cb_trace s" "guard s1 = guard s"
      by (subst s1, simp)+
    have E: "cb_entries s1 (ps @ []) (ws @ [])" using assms(3) f by (auto intro: cb_entries_upd)
    have len: "length ws = length ps" using assms(3) by (metis cb_entries_def length_map)
    have r: "\<forall>x. plausible s1 x" "\<forall>w\<in>set ws. runnable s1 w" using assms(4,5) f by (auto simp: runnable_def)
    from drain_local_runs [OF assms(1) g(2) E len r] obtain s2 R2 where
      l: "drain_local call s1 = Some s2" "cb_lists s2 R2 qs [] []" "cb_entries s2 [] []" "cb_trace s2 = cb_trace s @ map Exec ws" "plausible s2 = plausible s" "guard s2 = guard s"
      using f by auto
    have "drain_loop call s = drain_loop call s2" using g(1) l(1) drain_loop.simps [of call s] by simp
    then show ?thesis using stop [OF l(2)] l(3,4,5,6) assms(4) by (auto simp: cb_entries_def)
  qed
  then show ?thesis
    by (elim exE conjE, intro exI) (auto simp: cbq_drain_def release_runner_guard_def Let_def intro: cb_lists_upd)
qed

definition demo_pending :: cbq where
  "demo_pending = (state_init demo_cbq)\<lparr>lks := list_add_tail 51 20 (list_add_tail 50 20 fresh_links),
     entry_waiter := [50 \<mapsto> 3, 51 \<mapsto> 2], callback_enqueued := (\<lambda>w. w = 2 \<or> w = 3), running := True, guard := True\<rparr>"

definition demo_pending_rings :: rings where
  "demo_pending_rings = r_append 51 20 (r_append 50 20 (\<lambda>_. Some []))"

lemma demo_pending_lists: "cb_lists demo_pending demo_pending_rings [] [50, 51] []"
proof -
  have "store_ok (list_add_tail 51 20 (list_add_tail 50 20 fresh_links)) {10, 20, 30} demo_pending_rings"
    unfolding demo_pending_rings_def
    by (intro store_ok_add_tail store_ok_fresh) (simp_all add: r_append_def)
  then show ?thesis
    by (simp add: cb_lists_def demo_pending_def state_init_def demo_cbq_def demo_pending_rings_def r_append_def)
qed

theorem callback_wq_drain_runs_all_witness:
  "\<exists>s'. cbq_drain (\<lambda>_ w s. resume_coroutine w w s) demo_pending = Some s' \<and> cb_trace s' = [Exec 3, Exec 2] \<and> \<not> running s'"
proof -
  have q: "quiet (\<lambda>_ w s. resume_coroutine w w s)" by (auto simp: quiet_def resume_coroutine_def)
  have E: "cb_entries demo_pending [50, 51] [3, 2]" by (auto simp: cb_entries_def demo_pending_def)
  have r: "\<forall>x. plausible demo_pending x" "\<forall>w\<in>set [3, 2]. runnable demo_pending w" "cb_trace demo_pending = []"
    by (simp_all add: runnable_def demo_pending_def state_init_def demo_cbq_def)
  from callback_wq_drain_runs_all [OF q demo_pending_lists E r(1,2)] r(3) show ?thesis by auto
qed

text \<open>
  the guard of the runner. When \<open>drain\<close> finds nothing pending it gives up the runner under the lock but
  releases the guard after it; a \<open>post\<close> that links an entry in between takes the guard again, and
  the release then drops it although the runner is scheduled: the state may be destroyed under a
  queued runner.
\<close>

theorem callback_wq_guard_lost:
  assumes "drain_grab s = (False, s1)" and "link_entry e w s1 = (True, True, s2)"
  shows "running s2 \<and> guard s2 \<and> running (wq_post (runner s2) (release_runner_guard True s2)) \<and>
    \<not> guard (wq_post (runner s2) (release_runner_guard True s2))"
  using assms(2) by (auto simp: link_entry_def exchange_enqueued_def Let_def release_runner_guard_def split: if_splits)

theorem callback_wq_guard_lost_witness:
  "\<exists>s1 s2. drain_grab ((state_init demo_cbq)\<lparr>running := True, guard := True\<rparr>) = (False, s1) \<and> link_entry 50 2 s1 = (True, True, s2) \<and>
     \<not> guard (release_runner_guard True s2)"
proof -
  let ?s = "(state_init demo_cbq)\<lparr>running := True, guard := True\<rparr>"
  have "list_empty 20 fresh_links" by (simp add: list_empty_def fresh_links_def)
  then have g: "drain_grab ?s = (False, ?s\<lparr>lks := fresh_links, running := False\<rparr>)"
    using demo_cbq_lks INIT_LIST_HEAD_empty [OF rep_fresh_links, of 30]
    by (simp add: drain_grab_def Let_def) (simp add: state_init_def demo_cbq_def)
  let ?s1 = "?s\<lparr>lks := fresh_links, running := False\<rparr>"
  have l: "link_entry 50 2 ?s1 = (True, True, snd (snd (link_entry 50 2 ?s1)))"
    by (simp add: link_entry_def exchange_enqueued_def state_init_def demo_cbq_def Let_def)
  from callback_wq_guard_lost [OF g l] g l show ?thesis by (intro exI [of _ ?s1] exI [of _ "snd (snd (link_entry 50 2 ?s1))"]) simp
qed

end
