(* ===== verification/Epoll_Reactor.thy ===== *)
theory Epoll_Reactor
  imports Callback_Wq "HOL-Library.Multiset"
begin

text \<open>
  The reactor of \<^verbatim>\<open>io/epoll_reactor.hpp\<close>: the waiters registered per descriptor, the interest set of the epoll
  instance, delivery of events and timeouts.

  \<open>fds\<close> is \<open>_fds\<close>. The epoll instance belongs to the kernel: \<open>kern\<close> is the state of the kernel, \<open>epoll_ctl\<close> is an argument of
  the operations that call it, and the results of \<open>epoll_wait\<close> and of the clock are inputs of the loop. The order in
  which the range-for visits the \<open>unordered_map\<close> is the argument \<open>enum\<close>. \<open>pst\<close> stands for \<open>post_via_route(_exec, *waiter)\<close>, which
  goes through the function pointer \<open>route_post\<close> of the waiter; \<open>call\<close> invokes a function pointer of a work node.
\<close>

unbundle bit_operations_syntax

section \<open>Data\<close>

type_synonym fd = int

record waiter_item =
  wi_mask :: "32 word"
  wi_waiter :: addr
  has_timeout :: bool
  deadline :: int

record fd_state =
  waiters :: "waiter_item list"
  interest :: "32 word"

record 'k epr = cbq +
  fds :: "fd \<rightharpoonup> fd_state"
  kern :: 'k

datatype ctl_op = Ctl_add | Ctl_mod | Ctl_del

type_synonym 'k epoll_ctl = "ctl_op \<Rightarrow> fd \<Rightarrow> 32 word \<Rightarrow> 'k \<Rightarrow> (int \<times> int) \<times> 'k"

type_synonym ('k, 'b) poster = "addr \<Rightarrow> ('k, 'b) epr_scheme \<Rightarrow> ('k, 'b) epr_scheme"
type_synonym ('k, 'b) caller = "func_ptr \<Rightarrow> addr \<Rightarrow> ('k, 'b) epr_scheme \<Rightarrow> ('k, 'b) epr_scheme"

definition EPOLLIN :: "32 word" where "EPOLLIN = 0x001"
definition EPOLLOUT :: "32 word" where "EPOLLOUT = 0x004"
definition EPOLLERR :: "32 word" where "EPOLLERR = 0x008"
definition EPOLLHUP :: "32 word" where "EPOLLHUP = 0x010"
definition EPOLLET :: "32 word" where "EPOLLET = 0x80000000"
definition ENOENT :: int where "ENOENT = 2"
definition EINTR :: int where "EINTR = 4"

definition empty_fd_state :: fd_state where
  "empty_fd_state = \<lparr>waiters = [], interest = 0\<rparr>"

section \<open>Operations\<close>

definition add_fd :: "fd \<Rightarrow> ('k, 'b) epr_scheme \<Rightarrow> ('k, 'b) epr_scheme" where
  "add_fd fd s = (if fds s fd = None then s\<lparr>fds := (fds s)(fd \<mapsto> empty_fd_state)\<rparr> else s)"

definition ctl :: "'k epoll_ctl \<Rightarrow> ctl_op \<Rightarrow> fd \<Rightarrow> 32 word \<Rightarrow> ('k, 'b) epr_scheme \<Rightarrow> (int \<times> int) \<times> ('k, 'b) epr_scheme" where
  "ctl epoll_ctl oper fd ev s = (case epoll_ctl oper fd ev (kern s) of (r, k) \<Rightarrow> (r, s\<lparr>kern := k\<rparr>))"

definition mask_union :: "waiter_item list \<Rightarrow> 32 word" where
  "mask_union ws = foldl (\<lambda>acc wi. acc OR wi_mask wi) 0 ws"

definition update_fd_interest_unlocked ::
  "'k epoll_ctl \<Rightarrow> fd \<Rightarrow> fd_state \<Rightarrow> ('k, 'b) epr_scheme \<Rightarrow> ('k, 'b) epr_scheme" where
  "update_fd_interest_unlocked epoll_ctl fd st s =
     (let new_interest = mask_union (waiters st)
      in if new_interest = interest st then s\<lparr>fds := (fds s)(fd \<mapsto> st)\<rparr>
         else let s1 = s\<lparr>fds := (fds s)(fd \<mapsto> st\<lparr>interest := new_interest\<rparr>)\<rparr>
              in if new_interest = 0 then snd (ctl epoll_ctl Ctl_del fd 0 s1)
                 else let ev = new_interest OR EPOLLERR OR EPOLLHUP OR EPOLLET
                      in case ctl epoll_ctl Ctl_mod fd ev s1 of ((r, errno), s2) \<Rightarrow>
                           if r < 0 \<and> errno = ENOENT then snd (ctl epoll_ctl Ctl_add fd ev s2) else s2)"

definition register_waiter ::
  "'k epoll_ctl \<Rightarrow> fd \<Rightarrow> 32 word \<Rightarrow> addr \<Rightarrow> bool \<Rightarrow> bool \<Rightarrow> int \<Rightarrow> ('k, 'b) epr_scheme \<Rightarrow> ('k, 'b) epr_scheme" where
  "register_waiter epoll_ctl fd evmask waiter preserve_func timeout dl s =
     (let s1 = (if preserve_func then s else s\<lparr>func := (func s)(waiter := Code Resume_cb)\<rparr>);
          s2 = s1\<lparr>lks := INIT_LIST_HEAD waiter (lks s1)\<rparr>;
          st = (case fds s2 fd of Some st \<Rightarrow> st | None \<Rightarrow> empty_fd_state);
          wi = \<lparr>wi_mask = evmask, wi_waiter = waiter, has_timeout = timeout, deadline = dl\<rparr>
      in update_fd_interest_unlocked epoll_ctl fd (st\<lparr>waiters := waiters st @ [wi]\<rparr>) s2)"

definition add_waiter :: "'k epoll_ctl \<Rightarrow> fd \<Rightarrow> 32 word \<Rightarrow> addr \<Rightarrow> ('k, 'b) epr_scheme \<Rightarrow> ('k, 'b) epr_scheme" where
  "add_waiter epoll_ctl fd evmask waiter s = register_waiter epoll_ctl fd evmask waiter False False 0 s"

definition add_waiter_custom :: "'k epoll_ctl \<Rightarrow> fd \<Rightarrow> 32 word \<Rightarrow> addr \<Rightarrow> ('k, 'b) epr_scheme \<Rightarrow> ('k, 'b) epr_scheme" where
  "add_waiter_custom epoll_ctl fd evmask waiter s = register_waiter epoll_ctl fd evmask waiter True False 0 s"

definition add_waiter_with_timeout ::
  "'k epoll_ctl \<Rightarrow> int \<Rightarrow> fd \<Rightarrow> 32 word \<Rightarrow> addr \<Rightarrow> int \<Rightarrow> ('k, 'b) epr_scheme \<Rightarrow> ('k, 'b) epr_scheme" where
  "add_waiter_with_timeout epoll_ctl now fd evmask waiter timeout s =
     register_waiter epoll_ctl fd evmask waiter False True (now + timeout) s"

definition remove_fd ::
  "'k epoll_ctl \<Rightarrow> ('k, 'b) poster \<Rightarrow> fd \<Rightarrow> ('k, 'b) epr_scheme \<Rightarrow> ('k, 'b) epr_scheme" where
  "remove_fd epoll_ctl pst fd s =
     (let to_resume = (case fds s fd of Some st \<Rightarrow> waiters st | None \<Rightarrow> []);
          s1 = s\<lparr>fds := (fds s)(fd := None)\<rparr>;
          s2 = snd (ctl epoll_ctl Ctl_del fd 0 s1)
      in fold (\<lambda>wi. pst (wi_waiter wi)) to_resume s2)"

text \<open>
  \<open>remove_if\<close> with a predicate that also pushes the removed items is \<open>partition\<close>: removed and kept items, both in
  order.
\<close>

definition expired :: "int \<Rightarrow> waiter_item \<Rightarrow> bool" where
  "expired now wi \<longleftrightarrow> has_timeout wi \<and> deadline wi \<le> now"

definition collect_fd ::
  "'k epoll_ctl \<Rightarrow> int \<Rightarrow> fd \<Rightarrow> waiter_item list \<times> ('k, 'b) epr_scheme \<Rightarrow> waiter_item list \<times> ('k, 'b) epr_scheme" where
  "collect_fd epoll_ctl now fd = (\<lambda>(timed_out, s).
     case fds s fd of
       None \<Rightarrow> (timed_out, s)
     | Some st \<Rightarrow>
         (case partition (expired now) (waiters st) of (out, keep) \<Rightarrow>
            if out \<noteq> [] then (timed_out @ out, update_fd_interest_unlocked epoll_ctl fd (st\<lparr>waiters := keep\<rparr>) s)
            else (timed_out, s)))"

definition collect_timeouts ::
  "'k epoll_ctl \<Rightarrow> fd list \<Rightarrow> int \<Rightarrow> ('k, 'b) epr_scheme \<Rightarrow> waiter_item list \<times> ('k, 'b) epr_scheme" where
  "collect_timeouts epoll_ctl order now s = fold (collect_fd epoll_ctl now) order ([], s)"

definition handle_timeouts ::
  "('k, 'b) poster \<Rightarrow> ('k, 'b) caller \<Rightarrow>
   waiter_item list \<Rightarrow> ('k, 'b) epr_scheme \<Rightarrow> ('k, 'b) epr_scheme" where
  "handle_timeouts pst call timed_out s =
     fold (\<lambda>wi s. let w = wi_waiter wi;
                      s1 = (if timeout_func s w \<noteq> Null then call (timeout_func s w) w s else s)
                  in pst w s1) timed_out s"

text \<open>Delivery of one event: the locked section \<open>take_ready\<close> and the posts after it.\<close>

definition ready :: "32 word \<Rightarrow> waiter_item \<Rightarrow> bool" where
  "ready flags wi \<longleftrightarrow> flags AND wi_mask wi \<noteq> 0 \<or> flags AND (EPOLLERR OR EPOLLHUP) \<noteq> 0"

definition take_ready ::
  "'k epoll_ctl \<Rightarrow> fd \<Rightarrow> 32 word \<Rightarrow> ('k, 'b) epr_scheme \<Rightarrow> waiter_item list \<times> ('k, 'b) epr_scheme" where
  "take_ready epoll_ctl fd flags s =
     (case fds s fd of
        None \<Rightarrow> ([], s)
      | Some st \<Rightarrow>
          (case partition (ready flags) (waiters st) of (to_resume, keep) \<Rightarrow>
             (to_resume, update_fd_interest_unlocked epoll_ctl fd (st\<lparr>waiters := keep\<rparr>) s)))"

definition handle_event ::
  "'k epoll_ctl \<Rightarrow> ('k, 'b) poster \<Rightarrow> fd \<times> 32 word \<Rightarrow> ('k, 'b) epr_scheme \<Rightarrow> ('k, 'b) epr_scheme" where
  "handle_event epoll_ctl pst ev s =
     (case take_ready epoll_ctl (fst ev) (snd ev) s of (to_resume, s1) \<Rightarrow>
        fold (\<lambda>wi. pst (wi_waiter wi)) to_resume s1)"

text \<open>
  One turn of \<open>run_loop\<close>. The inputs of a turn: the flag \<open>_running\<close>, the clock at the two collections, and the result of
  \<open>epoll_wait\<close>, a number of events with the events or an \<open>errno\<close>.
\<close>

record turn =
  running_flag :: bool
  now_before :: int
  wait_result :: "int + (fd \<times> 32 word) list"
  now_after :: int

definition expire ::
  "'k epoll_ctl \<Rightarrow> ('k, 'b) poster \<Rightarrow> ('k, 'b) caller \<Rightarrow>
   ((fd \<rightharpoonup> fd_state) \<Rightarrow> fd list) \<Rightarrow> int \<Rightarrow> ('k, 'b) epr_scheme \<Rightarrow> ('k, 'b) epr_scheme" where
  "expire epoll_ctl pst call enum now s =
     (case collect_timeouts epoll_ctl (enum (fds s)) now s of (timed_out, s1) \<Rightarrow>
        if timed_out \<noteq> [] then handle_timeouts pst call timed_out s1 else s1)"

fun run_loop ::
  "'k epoll_ctl \<Rightarrow> ('k, 'b) poster \<Rightarrow> ('k, 'b) caller \<Rightarrow>
   ((fd \<rightharpoonup> fd_state) \<Rightarrow> fd list) \<Rightarrow> turn list \<Rightarrow> ('k, 'b) epr_scheme \<Rightarrow> ('k, 'b) epr_scheme" where
  "run_loop epoll_ctl pst call enum [] s = s"
| "run_loop epoll_ctl pst call enum (t # ts) s =
     (if \<not> running_flag t then s
      else let s1 = expire epoll_ctl pst call enum (now_before t) s
           in case wait_result t of
                Inl errno \<Rightarrow> if errno = EINTR then run_loop epoll_ctl pst call enum ts s1 else s1
              | Inr evs \<Rightarrow>
                  if evs = [] then run_loop epoll_ctl pst call enum ts s1
                  else run_loop epoll_ctl pst call enum ts
                         (expire epoll_ctl pst call enum (now_after t) (fold (handle_event epoll_ctl pst) evs s1)))"

section \<open>Interfaces\<close>

text \<open>
  What the reactor relies on: posting a waiter and calling its timeout callback leave the table of descriptors and
  the kernel alone.
\<close>

locale waiter_route =
  fixes pst :: "('k, 'b) poster"
  assumes pst_fds [simp]: "fds (pst w s) = fds s" and pst_kern [simp]: "kern (pst w s) = kern s"
begin

lemma fold_pst [simp]:
  "fds (fold (\<lambda>wi. pst (wi_waiter wi)) ws s) = fds s" "kern (fold (\<lambda>wi. pst (wi_waiter wi)) ws s) = kern s"
  by (induction ws arbitrary: s) auto

lemma handle_timeouts_frame:
  assumes "\<And>f w s. fds (call f w s) = fds s \<and> kern (call f w s) = kern s"
  shows "fds (handle_timeouts pst call ws s) = fds s \<and> kern (handle_timeouts pst call ws s) = kern s"
  using assms unfolding handle_timeouts_def by (induction ws arbitrary: s) (auto simp: Let_def)

end

text \<open>A waiter without a route goes to the executor, one with a route to the queue of its callback dispatcher.\<close>

lemma state_post_frame: "fds (snd (state_post e w s)) = fds s" "kern (snd (state_post e w s)) = kern s"
  for s :: "('k, 'b) epr_scheme"
  by (auto simp: state_post_def link_entry_def exchange_enqueued_def wq_post_def enqueue_def trig_once_def emit_def cb_note_def
      Let_def split: option.splits)

interpretation direct: waiter_route "wq_post :: ('k, 'b) poster"
  by unfold_locales (auto simp: wq_post_def enqueue_def trig_once_def emit_def)

interpretation routed: waiter_route "\<lambda>w (s :: ('k, 'b) epr_scheme). post_via_route (route w) (entry w) w s" for route entry
  by unfold_locales (simp_all add: post_via_route_def state_post_frame)

text \<open>
  The documented behaviour of \<^verbatim>\<open>epoll_ctl\<close> for open, pollable descriptors: \<open>reg k fd\<close> is the event mask the instance
  holds for \<open>fd\<close>.
\<close>

locale epoll_instance =
  fixes epoll_ctl :: "'k epoll_ctl" and reg :: "'k \<Rightarrow> fd \<rightharpoonup> 32 word"
  assumes ctl_del: "reg (snd (epoll_ctl Ctl_del fd ev k)) = (reg k)(fd := None)"
    and ctl_mod_known: "reg k fd \<noteq> None \<Longrightarrow> fst (fst (epoll_ctl Ctl_mod fd ev k)) = 0 \<and>
      reg (snd (epoll_ctl Ctl_mod fd ev k)) = (reg k)(fd \<mapsto> ev)"
    and ctl_mod_unknown: "reg k fd = None \<Longrightarrow> fst (epoll_ctl Ctl_mod fd ev k) = (- 1, ENOENT) \<and>
      reg (snd (epoll_ctl Ctl_mod fd ev k)) = reg k"
    and ctl_add: "reg k fd = None \<Longrightarrow> reg (snd (epoll_ctl Ctl_add fd ev k)) = (reg k)(fd \<mapsto> ev)"

section \<open>The interest set follows the waiters\<close>

definition armed :: "32 word \<Rightarrow> 32 word option" where
  "armed i = (if i = 0 then None else Some (i OR EPOLLERR OR EPOLLHUP OR EPOLLET))"

definition waiters_of :: "('k, 'b) epr_scheme \<Rightarrow> fd \<Rightarrow> waiter_item list" where
  "waiters_of s fd = (case fds s fd of None \<Rightarrow> [] | Some st \<Rightarrow> waiters st)"

definition interest_of :: "('k, 'b) epr_scheme \<Rightarrow> fd \<Rightarrow> 32 word" where
  "interest_of s fd = (case fds s fd of None \<Rightarrow> 0 | Some st \<Rightarrow> interest st)"

text \<open>The invariant: the recorded interest is the union of the masks and the kernel holds it.\<close>

definition interest_ok :: "('k \<Rightarrow> fd \<rightharpoonup> 32 word) \<Rightarrow> ('k, 'b) epr_scheme \<Rightarrow> bool" where
  "interest_ok reg s \<longleftrightarrow>
     (\<forall>fd. interest_of s fd = mask_union (waiters_of s fd) \<and> reg (kern s) fd = armed (interest_of s fd))"

lemma mask_union_Nil [simp]: "mask_union [] = 0"
  by (simp add: mask_union_def)

lemma update_waiters_of:
  "waiters_of (update_fd_interest_unlocked epoll_ctl fd st s) = (waiters_of s)(fd := waiters st)"
  by (auto simp: update_fd_interest_unlocked_def Let_def ctl_def waiters_of_def fun_eq_iff split: prod.splits)

lemma update_other: "fd' \<noteq> fd \<Longrightarrow> fds (update_fd_interest_unlocked epoll_ctl fd st s) fd' = fds s fd'"
  by (auto simp: update_fd_interest_unlocked_def Let_def ctl_def split: prod.splits)

context epoll_instance
begin

lemma update_interest_ok:
  assumes "interest_ok reg s" and "interest st = interest_of s fd"
  shows "interest_ok reg (update_fd_interest_unlocked epoll_ctl fd st s)"
proof -
  let ?i = "mask_union (waiters st)" and ?s = "update_fd_interest_unlocked epoll_ctl fd st s"
  have old: "reg (kern s) fd = armed (interest st)" using assms by (simp add: interest_ok_def)
  have i: "interest_of ?s fd = ?i"
    by (auto simp: update_fd_interest_unlocked_def Let_def ctl_def interest_of_def split: prod.splits)
  have "reg (kern ?s) = (reg (kern s))(fd := armed ?i)"
  proof (cases "?i = interest st \<or> ?i = 0")
    case True
    then show ?thesis
      using old ctl_del [of fd 0 "kern s"]
      by (auto simp: update_fd_interest_unlocked_def Let_def ctl_def armed_def split: prod.splits)
  next
    case False
    let ?ev = "?i OR EPOLLERR OR EPOLLHUP OR EPOLLET"
    show ?thesis
    proof (cases "interest st = 0")
      case True
      then have "reg (kern s) fd = None" using old by (simp add: armed_def)
      then show ?thesis
        using False True ctl_mod_unknown [of "kern s" fd ?ev] ctl_add [of "snd (epoll_ctl Ctl_mod fd ?ev (kern s))" fd ?ev]
        by (auto simp: update_fd_interest_unlocked_def Let_def ctl_def armed_def split: prod.splits)
    next
      case known: False
      then have "reg (kern s) fd \<noteq> None" using old by (simp add: armed_def)
      then show ?thesis
        using False ctl_mod_known [of "kern s" fd ?ev]
        by (auto simp: update_fd_interest_unlocked_def Let_def ctl_def armed_def split: prod.splits)
    qed
  qed
  moreover have "interest_of ?s f = interest_of s f" if "f \<noteq> fd" for f
    using update_other [OF that, of epoll_ctl st s] by (simp add: interest_of_def)
  ultimately show ?thesis
    using assms(1) i by (auto simp: interest_ok_def update_waiters_of)
qed

end


section \<open>Effect of the operations on the waiters\<close>

lemma waiters_of_upd [simp]:
  "waiters_of (s\<lparr>kern := k\<rparr>) = waiters_of s" "waiters_of (s\<lparr>lks := m\<rparr>) = waiters_of s" "waiters_of (s\<lparr>func := g\<rparr>) = waiters_of s"
  by (auto simp: waiters_of_def)

lemma interest_of_upd [simp]:
  "interest_of (s\<lparr>kern := k\<rparr>) = interest_of s" "interest_of (s\<lparr>lks := m\<rparr>) = interest_of s" "interest_of (s\<lparr>func := g\<rparr>) = interest_of s"
  by (auto simp: interest_of_def)

lemma waiters_of_cases:
  "fds s fd = Some st \<Longrightarrow> waiters_of s fd = waiters st" "fds s fd = None \<Longrightarrow> waiters_of s fd = []"
  by (simp_all add: waiters_of_def)

lemma register_waiters_of:
  "waiters_of (register_waiter epoll_ctl fd evmask w pf to dl s) =
     (waiters_of s)(fd := waiters_of s fd @ [\<lparr>wi_mask = evmask, wi_waiter = w, has_timeout = to, deadline = dl\<rparr>])"
  by (cases "fds s fd")
    (simp_all add: register_waiter_def Let_def update_waiters_of waiters_of_cases empty_fd_state_def fun_eq_iff)

lemma take_ready_waiters_of:
  "waiters_of (snd (take_ready epoll_ctl fd flags s)) = (waiters_of s)(fd := filter (\<lambda>wi. \<not> ready flags wi) (waiters_of s fd))"
  "fst (take_ready epoll_ctl fd flags s) = filter (ready flags) (waiters_of s fd)"
  by (cases "fds s fd"; simp add: take_ready_def update_waiters_of waiters_of_cases fun_eq_iff o_def)+

lemma collect_fd_effect:
  "fst (collect_fd epoll_ctl now fd (out, s)) = out @ filter (expired now) (waiters_of s fd)"
  "waiters_of (snd (collect_fd epoll_ctl now fd (out, s))) =
     (waiters_of s)(fd := filter (\<lambda>wi. \<not> expired now wi) (waiters_of s fd))"
proof -
  show "fst (collect_fd epoll_ctl now fd (out, s)) = out @ filter (expired now) (waiters_of s fd)"
    by (auto simp: collect_fd_def waiters_of_def split: option.splits)
  show "waiters_of (snd (collect_fd epoll_ctl now fd (out, s))) =
     (waiters_of s)(fd := filter (\<lambda>wi. \<not> expired now wi) (waiters_of s fd))"
  proof (cases "filter (expired now) (waiters_of s fd) = []")
    case True
    then have "filter (\<lambda>wi. \<not> expired now wi) (waiters_of s fd) = waiters_of s fd"
      by (auto simp: filter_empty_conv filter_id_conv)
    then show ?thesis
      using True by (auto simp: collect_fd_def waiters_of_def fun_eq_iff split: option.splits)
  next
    case False
    then show ?thesis
      by (cases "fds s fd") (simp_all add: collect_fd_def update_waiters_of waiters_of_cases o_def)
  qed
qed

lemma collect_timeouts_effect:
  assumes "distinct order"
  shows "fst (fold (collect_fd epoll_ctl now) order (out, s)) = out @ concat (map (\<lambda>f. filter (expired now) (waiters_of s f)) order)
    \<and> waiters_of (snd (fold (collect_fd epoll_ctl now) order (out, s))) =
        (\<lambda>f. if f \<in> set order then filter (\<lambda>wi. \<not> expired now wi) (waiters_of s f) else waiters_of s f)"
  using assms
proof (induction order arbitrary: out s)
  case (Cons f order)
  obtain out1 s1 where c: "collect_fd epoll_ctl now f (out, s) = (out1, s1)" by fastforce
  then have out1: "out1 = out @ filter (expired now) (waiters_of s f)"
    and w1: "waiters_of s1 = (waiters_of s)(f := filter (\<lambda>wi. \<not> expired now wi) (waiters_of s f))"
    using collect_fd_effect [of epoll_ctl now f out s] by simp_all
  have m: "map (\<lambda>g. filter (expired now) (waiters_of s1 g)) order = map (\<lambda>g. filter (expired now) (waiters_of s g)) order"
    using Cons.prems by (auto simp: w1)
  have "distinct order" and f: "f \<notin> set order" using Cons.prems by simp_all
  note IH = Cons.IH [OF this(1), of out1 s1]
  have "fst (fold (collect_fd epoll_ctl now) (f # order) (out, s)) = out @ concat (map (\<lambda>f. filter (expired now) (waiters_of s f)) (f # order))"
    using IH by (simp add: c m out1)
  moreover have "waiters_of (snd (fold (collect_fd epoll_ctl now) (f # order) (out, s))) =
      (\<lambda>g. if g \<in> set (f # order) then filter (\<lambda>wi. \<not> expired now wi) (waiters_of s g) else waiters_of s g)"
    using IH f by (simp add: c fun_eq_iff w1)
  ultimately show ?case by blast
qed auto

context epoll_instance
begin

lemma register_interest_ok:
  assumes "interest_ok reg s"
  shows "interest_ok reg (register_waiter epoll_ctl fd evmask w pf to dl s)"
proof -
  have "interest_ok reg (s\<lparr>func := g, lks := m\<rparr>)" for g m
    using assms by (simp add: interest_ok_def)
  moreover have "interest_ok reg (s\<lparr>lks := m\<rparr>)" for m
    using assms by (simp add: interest_ok_def)
  ultimately show ?thesis
    unfolding register_waiter_def Let_def
    by (intro update_interest_ok) (auto simp: interest_of_def empty_fd_state_def split: option.splits)
qed

lemma take_ready_interest_ok:
  "interest_ok reg s \<Longrightarrow> interest_ok reg (snd (take_ready epoll_ctl fd flags s))"
  by (auto simp: take_ready_def interest_of_def intro!: update_interest_ok split: option.splits)

lemma collect_fd_interest_ok:
  "interest_ok reg s \<Longrightarrow> interest_ok reg (snd (collect_fd epoll_ctl now fd (out, s)))"
  by (auto simp: collect_fd_def interest_of_def intro!: update_interest_ok split: option.splits)

lemma collect_timeouts_interest_ok:
  "interest_ok reg s \<Longrightarrow> interest_ok reg (snd (fold (collect_fd epoll_ctl now) order (out, s)))"
proof (induction order arbitrary: out s)
  case (Cons f order)
  then show ?case using collect_fd_interest_ok [of s now f out] by (cases "collect_fd epoll_ctl now f (out, s)") auto
qed simp

lemma remove_interest_ok:
  assumes "waiter_route pst" and "interest_ok reg s"
  shows "interest_ok reg (remove_fd epoll_ctl pst fd s)"
    and "waiters_of (remove_fd epoll_ctl pst fd s) = (waiters_of s)(fd := [])"
proof -
  let ?s2 = "snd (ctl epoll_ctl Ctl_del fd 0 (s\<lparr>fds := (fds s)(fd := None)\<rparr>))"
  have "fds (remove_fd epoll_ctl pst fd s) = fds ?s2" "kern (remove_fd epoll_ctl pst fd s) = kern ?s2"
    by (simp_all add: remove_fd_def Let_def waiter_route.fold_pst [OF assms(1)])
  moreover have "fds ?s2 = (fds s)(fd := None)" "reg (kern ?s2) = (reg (kern s))(fd := None)"
    using ctl_del [of fd 0 "kern s"] by (auto simp: ctl_def split: prod.splits)
  ultimately show "interest_ok reg (remove_fd epoll_ctl pst fd s)"
    and "waiters_of (remove_fd epoll_ctl pst fd s) = (waiters_of s)(fd := [])"
    using assms(2) by (auto simp: interest_ok_def interest_of_def waiters_of_def armed_def fun_eq_iff)
qed

end

section \<open>Interleavings\<close>

text \<open>
  Threads register and remove while the loop delivers events and timeouts. Each step is one locked section with the
  posts that follow it; the accounts record, per descriptor, the waiters registered and the waiters handed to \<open>pst\<close>.
\<close>

record acct =
  registered :: "fd \<Rightarrow> addr multiset"
  resumed :: "fd \<Rightarrow> addr list"

definition resume_more :: "fd \<Rightarrow> waiter_item list \<Rightarrow> acct \<Rightarrow> acct" where
  "resume_more fd ws g = g\<lparr>resumed := (resumed g)(fd := resumed g fd @ map wi_waiter ws)\<rparr>"

inductive ep_step :: "'k epoll_ctl \<Rightarrow> ('k, 'b) poster \<Rightarrow> ('k, 'b) caller \<Rightarrow> ('k, 'b) epr_scheme \<times> acct \<Rightarrow> ('k, 'b) epr_scheme \<times> acct \<Rightarrow> bool"
  for epoll_ctl pst call where
  Add_fd: "ep_step epoll_ctl pst call (s, g) (add_fd fd s, g)"
| Register: "ep_step epoll_ctl pst call (s, g)
    (register_waiter epoll_ctl fd evmask w pf to dl s,
     g\<lparr>registered := (registered g)(fd := add_mset w (registered g fd))\<rparr>)"
| Remove: "ep_step epoll_ctl pst call (s, g) (remove_fd epoll_ctl pst fd s, resume_more fd (waiters_of s fd) g)"
| Event: "take_ready epoll_ctl fd flags s = (out, s1) \<Longrightarrow>
    ep_step epoll_ctl pst call (s, g) (handle_event epoll_ctl pst (fd, flags) s, resume_more fd out g)"
| Expire: "distinct order \<Longrightarrow> collect_timeouts epoll_ctl order now s = (out, s1) \<Longrightarrow>
    ep_step epoll_ctl pst call (s, g)
      (handle_timeouts pst call out s1, fold (\<lambda>f. resume_more f (filter (expired now) (waiters_of s f))) order g)"

inductive ep_reachable :: "'k epoll_ctl \<Rightarrow> ('k, 'b) poster \<Rightarrow> ('k, 'b) caller \<Rightarrow> ('k, 'b) epr_scheme \<Rightarrow> ('k, 'b) epr_scheme \<times> acct \<Rightarrow> bool"
  for epoll_ctl pst call s0 where
  Start: "ep_reachable epoll_ctl pst call s0 (s0, \<lparr>registered = (\<lambda>_. {#}), resumed = (\<lambda>_. [])\<rparr>)"
| Step: "ep_reachable epoll_ctl pst call s0 c \<Longrightarrow> ep_step epoll_ctl pst call c c' \<Longrightarrow> ep_reachable epoll_ctl pst call s0 c'"

definition accounted :: "('k, 'b) epr_scheme \<times> acct \<Rightarrow> bool" where
  "accounted c \<longleftrightarrow> (\<forall>fd. registered (snd c) fd = mset (map wi_waiter (waiters_of (fst c) fd)) + mset (resumed (snd c) fd))"

lemma accounted_split:
  assumes "accounted (s, g)" and "mset (waiters_of s fd) = mset out + mset keep"
    and "waiters_of s1 = (waiters_of s)(fd := keep)"
  shows "accounted (s1, resume_more fd out g)"
proof -
  have "image_mset wi_waiter (mset (waiters_of s fd)) = image_mset wi_waiter (mset out) + image_mset wi_waiter (mset keep)"
    by (simp add: assms(2))
  then show ?thesis using assms(1,3) by (simp add: accounted_def resume_more_def)
qed

lemma mset_filter_split: "mset xs = mset (filter P xs) + mset (filter (\<lambda>x. \<not> P x) xs)"
  by (induction xs) auto

lemma resume_more_fold:
  assumes "distinct order"
  shows "registered (fold (\<lambda>f. resume_more f (out f)) order g) = registered g \<and>
    resumed (fold (\<lambda>f. resume_more f (out f)) order g) =
      (\<lambda>f. resumed g f @ (if f \<in> set order then map wi_waiter (out f) else []))"
  using assms by (induction order arbitrary: g) (auto simp: resume_more_def fun_eq_iff)

lemma accounted_expire:
  assumes "accounted (s, g)" and "distinct order"
    and "waiters_of s1 = (\<lambda>f. if f \<in> set order then filter (\<lambda>wi. \<not> P wi) (waiters_of s f) else waiters_of s f)"
  shows "accounted (s1, fold (\<lambda>f. resume_more f (filter P (waiters_of s f))) order g)"
  unfolding accounted_def
proof
  fix f
  have "image_mset wi_waiter (mset (waiters_of s f)) =
      image_mset wi_waiter (mset (filter P (waiters_of s f))) + image_mset wi_waiter (mset (filter (\<lambda>wi. \<not> P wi) (waiters_of s f)))"
    by (simp flip: image_mset_union)
  then show "registered (snd (s1, fold (\<lambda>f. resume_more f (filter P (waiters_of s f))) order g)) f =
      mset (map wi_waiter (waiters_of (fst (s1, fold (\<lambda>f. resume_more f (filter P (waiters_of s f))) order g)) f)) +
      mset (resumed (snd (s1, fold (\<lambda>f. resume_more f (filter P (waiters_of s f))) order g)) f)"
    using assms(1) resume_more_fold [OF assms(2), of "\<lambda>f. filter P (waiters_of s f)" g]
    by (simp add: accounted_def assms(3))
qed

lemma waiters_of_fds: "fds s1 = fds s2 \<Longrightarrow> waiters_of s1 = waiters_of s2"
  by (simp add: waiters_of_def fun_eq_iff)

lemma interest_ok_frame: "fds s1 = fds s2 \<Longrightarrow> kern s1 = kern s2 \<Longrightarrow> interest_ok reg s1 = interest_ok reg s2"
  by (simp add: interest_ok_def waiters_of_def interest_of_def)

lemma handle_event_frame:
  assumes "waiter_route pst" and "take_ready epoll_ctl fd flags s = (out, s1)"
  shows "fds (handle_event epoll_ctl pst (fd, flags) s) = fds s1" "kern (handle_event epoll_ctl pst (fd, flags) s) = kern s1"
  using assms by (simp_all add: handle_event_def waiter_route.fold_pst)

lemma ep_step_invariant:
  assumes "ep_step epoll_ctl pst call c c'" and "epoll_instance epoll_ctl reg" and "waiter_route pst"
    and "\<And>f w s. fds (call f w s) = fds s \<and> kern (call f w s) = kern s"
    and "interest_ok reg (fst c)" and "accounted c"
  shows "interest_ok reg (fst c') \<and> accounted c'"
  using assms(1) assms(5,6)
proof induction
  case (Add_fd s g fd)
  have "waiters_of (add_fd fd s) = waiters_of s" "interest_of (add_fd fd s) = interest_of s" "kern (add_fd fd s) = kern s"
    by (auto simp: add_fd_def waiters_of_def interest_of_def empty_fd_state_def fun_eq_iff)
  then show ?case using Add_fd by (simp add: interest_ok_def accounted_def)
next
  case (Register s g fd evmask w pf to dl)
  then show ?case
    using epoll_instance.register_interest_ok [OF assms(2)] by (simp add: accounted_def register_waiters_of)
next
  case (Remove s g fd)
  show ?case
    using epoll_instance.remove_interest_ok [OF assms(2,3), of s fd] Remove
      accounted_split [of s g fd "waiters_of s fd" "[]"] by simp
next
  case (Event fd flags s out s1 g)
  note fr = handle_event_frame [OF assms(3) Event.hyps]
  have s1: "waiters_of s1 = (waiters_of s)(fd := filter (\<lambda>wi. \<not> ready flags wi) (waiters_of s fd))"
    and out: "out = filter (ready flags) (waiters_of s fd)"
    using take_ready_waiters_of [of epoll_ctl fd flags s] Event.hyps by simp_all
  have "interest_ok reg s1"
    using epoll_instance.take_ready_interest_ok [OF assms(2), of s fd flags] Event by simp
  moreover have "accounted (handle_event epoll_ctl pst (fd, flags) s, resume_more fd out g)"
    using Event.prems(2) s1 waiters_of_fds [OF fr(1)] unfolding out
    by (intro accounted_split [OF _ mset_filter_split]) simp_all
  ultimately show ?case using interest_ok_frame [OF fr] by simp
next
  case (Expire order now s out s1 g)
  have fr: "fds (handle_timeouts pst call out s1) = fds s1" "kern (handle_timeouts pst call out s1) = kern s1"
    using waiter_route.handle_timeouts_frame [of pst call out s1] assms(3,4) by blast+
  have s1: "waiters_of s1 = (\<lambda>f. if f \<in> set order then filter (\<lambda>wi. \<not> expired now wi) (waiters_of s f) else waiters_of s f)"
    using collect_timeouts_effect [OF Expire.hyps(1), of epoll_ctl now "[]" s] Expire.hyps(2)
    by (simp add: collect_timeouts_def)
  have "interest_ok reg s1"
    using epoll_instance.collect_timeouts_interest_ok [OF assms(2), of s now order "[]"] Expire
    by (simp add: collect_timeouts_def)
  moreover have "accounted (s1, fold (\<lambda>f. resume_more f (filter (expired now) (waiters_of s f))) order g)"
    by (rule accounted_expire [OF Expire.prems(2) Expire.hyps(1) s1])
  ultimately show ?case using interest_ok_frame [OF fr] waiters_of_fds [OF fr(1)] by (simp add: accounted_def)
qed


section \<open>Properties\<close>

definition no_effect_on_table :: "('k, 'b) caller \<Rightarrow> bool" where
  "no_effect_on_table call \<longleftrightarrow> (\<forall>f w s. fds (call f w s) = fds s \<and> kern (call f w s) = kern s)"


definition demo_ctl :: "(fd \<rightharpoonup> 32 word) epoll_ctl" where
  "demo_ctl oper fd ev k =
     (case oper of
        Ctl_del \<Rightarrow> ((0, 0), k(fd := None))
      | Ctl_mod \<Rightarrow> if k fd = None then ((- 1, ENOENT), k) else ((0, 0), k(fd \<mapsto> ev))
      | Ctl_add \<Rightarrow> ((0, 0), k(fd \<mapsto> ev)))"

interpretation demo_kernel: epoll_instance demo_ctl "\<lambda>k. k"
  by unfold_locales (auto simp: demo_ctl_def)

definition demo_epr :: "(fd \<rightharpoonup> 32 word) epr" where
  "demo_epr = cbq.extend demo_cbq (epr.fields Map.empty Map.empty)"

lemma demo_epr_simps [simp]: "fds demo_epr = Map.empty" "kern demo_epr = Map.empty"
  by (simp_all add: demo_epr_def cbq.defs epr.defs)


text \<open>
  An event removes from the table exactly the waiters of its descriptor whose mask it meets, all of them when it
  reports an error or a hang-up, and posts them in the order of registration; the other waiters stay in order.
\<close>

theorem reactor_event_delivery:
  "\<exists>s1. handle_event epoll_ctl pst (fd, flags) s = fold pst (map wi_waiter (filter (ready flags) (waiters_of s fd))) s1
     \<and> waiters_of s1 = (waiters_of s)(fd := filter (\<lambda>wi. \<not> ready flags wi) (waiters_of s fd))
     \<and> (flags AND (EPOLLERR OR EPOLLHUP) = 0 \<or> waiters_of s1 fd = [])"
proof -
  obtain out s1 where t: "take_ready epoll_ctl fd flags s = (out, s1)" by fastforce
  then have "out = filter (ready flags) (waiters_of s fd)"
    and w: "waiters_of s1 = (waiters_of s)(fd := filter (\<lambda>wi. \<not> ready flags wi) (waiters_of s fd))"
    using take_ready_waiters_of [of epoll_ctl fd flags s] by simp_all
  then have "handle_event epoll_ctl pst (fd, flags) s = fold pst (map wi_waiter (filter (ready flags) (waiters_of s fd))) s1"
    by (simp add: handle_event_def t fold_map o_def)
  moreover have "flags AND (EPOLLERR OR EPOLLHUP) = 0 \<or> waiters_of s1 fd = []"
    by (simp add: w ready_def filter_empty_conv)
  ultimately show ?thesis using w by blast
qed

text \<open>
  A turn of the loop finds every waiter whose deadline has passed: its timeout callback is run and it is posted,
  whatever the order in which the table is visited, and no other waiter leaves the table.
\<close>

theorem reactor_timeouts_resume:
  assumes "waiter_route pst" and "no_effect_on_table call"
    and "distinct (enum (fds s))" and "set (enum (fds s)) = dom (fds s)"
  shows "\<exists>out s1. expire epoll_ctl pst call enum now s = handle_timeouts pst call out s1
    \<and> mset out = mset (concat (map (\<lambda>fd. filter (expired now) (waiters_of s fd)) (enum (fds s))))
    \<and> (\<forall>fd. waiters_of (expire epoll_ctl pst call enum now s) fd = filter (\<lambda>wi. \<not> expired now wi) (waiters_of s fd))"
proof -
  let ?o = "enum (fds s)"
  obtain out s1 where c: "collect_timeouts epoll_ctl ?o now s = (out, s1)" by fastforce
  have out: "out = concat (map (\<lambda>fd. filter (expired now) (waiters_of s fd)) ?o)"
    and w: "waiters_of s1 fd = (if fd \<in> set ?o then filter (\<lambda>wi. \<not> expired now wi) (waiters_of s fd) else waiters_of s fd)" for fd
    using collect_timeouts_effect [OF assms(3), of epoll_ctl now "[]" s] c by (simp_all add: collect_timeouts_def)
  have e: "expire epoll_ctl pst call enum now s = handle_timeouts pst call out s1"
    by (auto simp: expire_def c handle_timeouts_def)
  have "fds (handle_timeouts pst call out s1) = fds s1"
    using waiter_route.handle_timeouts_frame [of pst call out s1] assms(1,2) by (simp add: no_effect_on_table_def)
  then have same: "waiters_of (expire epoll_ctl pst call enum now s) = waiters_of s1" unfolding e by (rule waiters_of_fds)
  have "waiters_of (expire epoll_ctl pst call enum now s) fd = filter (\<lambda>wi. \<not> expired now wi) (waiters_of s fd)" for fd
  proof (cases "fd \<in> set ?o")
    case False
    then have "waiters_of s fd = []" using assms(4) waiters_of_cases(2) [of s fd] by (simp add: domIff)
    then show ?thesis using w [of fd] False by (simp add: same)
  qed (simp add: same w)
  then show ?thesis using e out by blast
qed

theorem reactor_timeouts_resume_witness:
  "\<exists>s :: (fd \<rightharpoonup> 32 word) epr. waiters_of s 5 \<noteq> [] \<and> waiters_of (expire demo_ctl wq_post (\<lambda>f w s. s) (\<lambda>_. [5]) 10 s) 5 = []"
proof -
  let ?s = "add_waiter_with_timeout demo_ctl 0 5 EPOLLOUT 20 10 demo_epr"
  have w: "waiters_of ?s = (\<lambda>_. [])(5 := [\<lparr>wi_mask = EPOLLOUT, wi_waiter = 20, has_timeout = True, deadline = 10\<rparr>])"
    by (simp add: add_waiter_with_timeout_def register_waiters_of fun_eq_iff) (simp add: waiters_of_def)
  have "dom (fds ?s) = {5}"
    by (auto simp: add_waiter_with_timeout_def register_waiter_def update_fd_interest_unlocked_def ctl_def demo_ctl_def
        empty_fd_state_def mask_union_def EPOLLOUT_def Let_def dom_def)
  then show ?thesis
    using reactor_timeouts_resume [OF direct.waiter_route_axioms, of "\<lambda>f w s. s" "\<lambda>_. [5]" ?s demo_ctl 10] w
    by (intro exI [of _ ?s]) (auto simp: no_effect_on_table_def expired_def)
qed

end
