(* ===== verification/Awaiting.thy ===== *)
theory Awaiting
  imports Serial_Queue
begin

text \<open>
  Awaiting an operation of the two-phase driver (\<^verbatim>\<open>two_phase_drain_awaiter\<close> of \<^verbatim>\<open>io/io_serial.hpp\<close>) from its first attempt to its
  completion, for the sockets and the files that are built on it. The rules reduce what holds after \<open>co_await\<close>, and that it
  returns, to single attempts.
\<close>

section \<open>Awaiting an operation\<close>

text \<open>
  \<open>co_await\<close> of an operation that holds its slot: the driver runs; when it would block, the reactor delivers the event
  (\<open>wait\<close>), and \<open>drive_cb\<close> runs again. An operation that is never woken or never
  completes is \<open>None\<close>.
\<close>

partial_function (option) await_loop ::
  "(addr \<Rightarrow> 'a ser_scheme \<Rightarrow> int \<times> 'a ser_scheme) \<Rightarrow>
   (addr \<Rightarrow> bool \<Rightarrow> 'a ser_scheme \<Rightarrow> 'a ser_scheme) \<Rightarrow>
   ('a ser_scheme \<Rightarrow> 'a ser_scheme) \<Rightarrow> bool \<Rightarrow> addr \<Rightarrow> 'a ser_scheme \<Rightarrow> 'a ser_scheme option" where
  "await_loop attempt register wait first a s =
     (case drain attempt register first a s of
        None \<Rightarrow> None
      | Some s1 \<Rightarrow>
          if func s1 a = Code Drive_cb then await_loop attempt register wait False a (wait s1) else Some s1)"

section \<open>What holds afterwards\<close>

lemma drain_invariant:
  assumes "drain attempt register first a s = Some s1" and "I s"
    and "\<And>s r s'. I s \<Longrightarrow> attempt a s = (r, s') \<Longrightarrow> I s'"
    and "\<And>s. I s \<Longrightarrow> I (drain_done a s)"
    and "\<And>s. I s \<Longrightarrow> I (register a first (s\<lparr>func := (func s)(a := Code Drive_cb)\<rparr>))"
  shows "I s1"
proof -
  let ?P = "\<lambda>at rg f x s r. at = attempt \<longrightarrow> rg = register \<longrightarrow> f = first \<longrightarrow> x = a \<longrightarrow> I s \<longrightarrow> I r"
  have "?P attempt register first a s s1"
  proof (rule drain.raw_induct [of ?P, OF _ assms(1)], intro impI)
    fix dr at rg f x s y
    assume IH: "\<And>at rg f x s y. dr at rg f x s = Some y \<Longrightarrow> ?P at rg f x s y"
      and y: "(case at x s of (r, s1) \<Rightarrow> if 0 < r then dr at rg f x s1 else if r = 0 then Some (drain_done x s1)
            else Some (rg x f (s1\<lparr>func := (func s1)(x := Code Drive_cb)\<rparr>))) = Some y"
      and eqs: "at = attempt" "rg = register" "f = first" "x = a" and I: "I s"
    obtain r s' where r: "attempt a s = (r, s')" by fastforce
    from assms(3) [OF I r] show "I y"
      using y IH r assms(4,5) unfolding eqs by (auto split: if_splits)
  qed
  then show ?thesis using assms(2) by simp
qed

lemma await_invariant:
  assumes "await_loop attempt register wait first a s = Some s1" and "I s"
    and "\<And>s r s'. I s \<Longrightarrow> attempt a s = (r, s') \<Longrightarrow> I s'"
    and "\<And>s. I s \<Longrightarrow> I (drain_done a s)"
    and "\<And>s first. I s \<Longrightarrow> I (register a first (s\<lparr>func := (func s)(a := Code Drive_cb)\<rparr>))"
    and "\<And>s. I s \<Longrightarrow> I (wait s)"
  shows "I s1"
proof -
  let ?P = "\<lambda>at rg wt (f :: bool) x s r. at = attempt \<longrightarrow> rg = register \<longrightarrow> wt = wait \<longrightarrow> x = a \<longrightarrow> I s \<longrightarrow> I r"
  have "?P attempt register wait first a s s1"
  proof (rule await_loop.raw_induct [of ?P, OF _ assms(1)], intro impI)
    fix aw at rg wt f x s y
    assume IH: "\<And>at rg wt f x s y. aw at rg wt f x s = Some y \<Longrightarrow> ?P at rg wt f x s y"
      and y: "(case drain at rg f x s of None \<Rightarrow> None
          | Some s1 \<Rightarrow> if func s1 x = Code Drive_cb then aw at rg wt False x (wt s1) else Some s1) = Some y"
      and eqs: "at = attempt" "rg = register" "wt = wait" "x = a" and I: "I s"
    obtain s' where d: "drain attempt register f a s = Some s'" using y unfolding eqs by (auto split: option.splits)
    have "I s'" by (rule drain_invariant [where I = I, OF d I assms(3-5)])
    then show "I y" using y d IH assms(6) unfolding eqs by (auto split: if_splits)
  qed
  then show ?thesis using assms(2) by simp
qed

text \<open>With a postcondition \<open>Q\<close> that the last attempt establishes, and \<open>I\<close> before it.\<close>

lemma drain_post:
  assumes "drain attempt register first a s = Some s1" and "I s"
    and "\<And>s r s'. I s \<Longrightarrow> attempt a s = (r, s') \<Longrightarrow> (if r = 0 then Q (drain_done a s') else I s')"
    and "\<And>s. I s \<Longrightarrow> I (register a first (s\<lparr>func := (func s)(a := Code Drive_cb)\<rparr>))"
    and "\<And>s. func (register a first s) = func s"
  shows "if func s1 a = Code Drive_cb then I s1 else Q s1"
proof -
  let ?P = "\<lambda>at rg f x s r. at = attempt \<longrightarrow> rg = register \<longrightarrow> f = first \<longrightarrow> x = a \<longrightarrow> I s \<longrightarrow> (if func r a = Code Drive_cb then I r else Q r)"
  have dd: "func (drain_done a s) a = Code Resume_cb" for s :: "'b ser_scheme"
    by (auto simp: drain_done_def Let_def resume_coroutine_def split: option.splits)
  have "?P attempt register first a s s1"
  proof (rule drain.raw_induct [of ?P, OF _ assms(1)], intro impI)
    fix dr at rg f x s y
    assume IH: "\<And>at rg f x s y. dr at rg f x s = Some y \<Longrightarrow> ?P at rg f x s y"
      and y: "(case at x s of (r, s1) \<Rightarrow> if 0 < r then dr at rg f x s1 else if r = 0 then Some (drain_done x s1)
            else Some (rg x f (s1\<lparr>func := (func s1)(x := Code Drive_cb)\<rparr>))) = Some y"
      and eqs: "at = attempt" "rg = register" "f = first" "x = a" and I: "I s"
    obtain r s' where r: "attempt a s = (r, s')" by fastforce
    from assms(3) [OF I r] show "if func y a = Code Drive_cb then I y else Q y"
      using y IH [of at rg f x s' y] r assms(4,5) unfolding eqs by (auto simp: dd split: if_splits)
  qed
  then show ?thesis using assms(2) by simp
qed

lemma await_post:
  assumes "await_loop attempt register wait first a s = Some s1" and "I s"
    and "\<And>s r s'. I s \<Longrightarrow> attempt a s = (r, s') \<Longrightarrow> (if r = 0 then Q (drain_done a s') else I s')"
    and "\<And>s first. I s \<Longrightarrow> I (register a first (s\<lparr>func := (func s)(a := Code Drive_cb)\<rparr>))"
    and "\<And>s first. func (register a first s) = func s"
    and "\<And>s. I s \<Longrightarrow> I (wait s)"
  shows "Q s1"
proof -
  let ?P = "\<lambda>at rg wt (f :: bool) x s r. at = attempt \<longrightarrow> rg = register \<longrightarrow> wt = wait \<longrightarrow> x = a \<longrightarrow> I s \<longrightarrow> Q r"
  have "?P attempt register wait first a s s1"
  proof (rule await_loop.raw_induct [of ?P, OF _ assms(1)], intro impI)
    fix aw at rg wt f x s y
    assume IH: "\<And>at rg wt f x s y. aw at rg wt f x s = Some y \<Longrightarrow> ?P at rg wt f x s y"
      and y: "(case drain at rg f x s of None \<Rightarrow> None
          | Some s1 \<Rightarrow> if func s1 x = Code Drive_cb then aw at rg wt False x (wt s1) else Some s1) = Some y"
      and eqs: "at = attempt" "rg = register" "wt = wait" "x = a" and I: "I s"
    obtain s' where d: "drain attempt register f a s = Some s'" using y unfolding eqs by (auto split: option.splits)
    have "if func s' a = Code Drive_cb then I s' else Q s'" by (rule drain_post [where I = I, OF d I assms(3-5)])
    then show "Q y" using y d IH assms(6) unfolding eqs by (auto split: if_splits)
  qed
  then show ?thesis using assms(2) by simp
qed

section \<open>That it returns\<close>

lemma await_done:
  assumes "attempt a s = (0, s1)"
  shows "await_loop attempt register wait first a s = Some (drain_done a s1)"
proof -
  have "drain attempt register first a s = Some (drain_done a s1)"
    by (subst drain.simps) (simp add: assms)
  moreover have "func (drain_done a s1) a = Code Resume_cb"
    by (auto simp: drain_done_def Let_def resume_coroutine_def split: option.splits)
  ultimately show ?thesis by (subst await_loop.simps) simp
qed

lemma await_blocked:
  assumes "attempt a s = (r, s1)" and "r < 0"
    and "\<And>s. func (register a first s) = func s"
  shows "await_loop attempt register wait first a s =
    await_loop attempt register wait False a (wait (register a first (s1\<lparr>func := (func s1)(a := Code Drive_cb)\<rparr>)))"
proof -
  have "drain attempt register first a s = Some (register a first (s1\<lparr>func := (func s1)(a := Code Drive_cb)\<rparr>))"
    using assms(2) by (subst drain.simps) (simp add: assms(1))
  then show ?thesis by (subst await_loop.simps) (simp add: assms(3))
qed

text \<open>
  An operation completes when every attempt finishes it, or makes progress and leaves less to do, or blocks and leaves less to do after the wait.
\<close>

lemma await_more:
  assumes "attempt a s = (r, s1)" and "0 < r"
  shows "await_loop attempt register wait first a s = await_loop attempt register wait first a s1"
proof -
  have "drain attempt register first a s = drain attempt register first a s1"
    using assms by (subst drain.simps) simp
  then show ?thesis by (subst (1 2) await_loop.simps) simp
qed

lemma await_progresses:
  fixes todo :: "'a ser_scheme \<Rightarrow> nat"
  assumes "I s"
    and keep: "\<And>first s. func (register a first s) = func s"
    and step: "\<And>first s r s1. I s \<Longrightarrow> attempt a s = (r, s1) \<Longrightarrow>
      r = 0 \<and> Q s1 \<or> 0 < r \<and> I s1 \<and> todo s1 < todo s \<or>
      r < 0 \<and> (let s2 = wait (register a first (s1\<lparr>func := (func s1)(a := Code Drive_cb)\<rparr>)) in I s2 \<and> todo s2 < todo s)"
  shows "\<exists>s1. await_loop attempt register wait first a s = Some (drain_done a s1) \<and> Q s1"
  using assms(1)
proof (induction "todo s" arbitrary: s first rule: less_induct)
  case less
  obtain r s1 where att: "attempt a s = (r, s1)" by fastforce
  let ?s2 = "wait (register a first (s1\<lparr>func := (func s1)(a := Code Drive_cb)\<rparr>))"
  consider "r = 0" "Q s1" | "0 < r" "I s1" "todo s1 < todo s" | "r < 0" "I ?s2" "todo ?s2 < todo s"
    using step [OF less.prems att, of first] by (auto simp: Let_def)
  then show ?case
  proof cases
    case 1
    then show ?thesis using await_done [of attempt a s s1] att by blast
  next
    case 2
    then show ?thesis using await_more [of attempt a s r s1] att less.hyps [of s1 first] by simp
  next
    case 3
    have "await_loop attempt register wait first a s = await_loop attempt register wait False a ?s2"
      by (rule await_blocked [of attempt a s r s1 register first wait, OF att 3(1)]) (rule keep)
    with less.hyps [OF 3(3,2), of False] show ?thesis by metis
  qed
qed

text \<open>The same for operations whose attempts never ask for another one.\<close>

lemma await_completes:
  fixes todo :: "'a ser_scheme \<Rightarrow> nat"
  assumes "I s"
    and "\<And>first s. func (register a first s) = func s"
    and "\<And>first s r s1. I s \<Longrightarrow> attempt a s = (r, s1) \<Longrightarrow>
      r = 0 \<and> Q s1 \<or>
      r < 0 \<and> (let s2 = wait (register a first (s1\<lparr>func := (func s1)(a := Code Drive_cb)\<rparr>)) in I s2 \<and> todo s2 < todo s)"
  shows "\<exists>s1. await_loop attempt register wait first a s = Some (drain_done a s1) \<and> Q s1"
  using assms by (intro await_progresses [where I = I and todo = todo]) blast+

section \<open>Simulation of awaited operations\<close>

text \<open>Two operations whose attempts are related step by step run alike.\<close>

lemma drain_sim:
  assumes "drain att rg first a s = Some s1" and "R s t"
    and att: "\<And>s t r s'. R s t \<Longrightarrow> att a s = (r, s') \<Longrightarrow> \<exists>t'. att' a t = (r, t') \<and> R s' t'"
    and don: "\<And>s t. R s t \<Longrightarrow> R (drain_done a s) (drain_done a t)"
    and rg: "\<And>s t. R s t \<Longrightarrow> R (rg a first (s\<lparr>func := (func s)(a := Code Drive_cb)\<rparr>)) (rg' a first (t\<lparr>func := (func t)(a := Code Drive_cb)\<rparr>))"
  shows "\<exists>t1. drain att' rg' first a t = Some t1 \<and> R s1 t1"
proof -
  let ?P = "\<lambda>x g f y s r. x = att \<longrightarrow> g = rg \<longrightarrow> f = first \<longrightarrow> y = a \<longrightarrow> (\<forall>t. R s t \<longrightarrow> (\<exists>t1. drain att' rg' first a t = Some t1 \<and> R r t1))"
  have "?P att rg first a s s1"
  proof (rule drain.raw_induct [of ?P, OF _ assms(1)], intro impI allI)
    fix dr x g f y s z t
    assume IH: "\<And>x g f y s z. dr x g f y s = Some z \<Longrightarrow> ?P x g f y s z"
      and z: "(case x y s of (r, s1) \<Rightarrow> if 0 < r then dr x g f y s1 else if r = 0 then Some (drain_done y s1)
            else Some (g y f (s1\<lparr>func := (func s1)(y := Code Drive_cb)\<rparr>))) = Some z"
      and eqs: "x = att" "g = rg" "f = first" "y = a" and R: "R s t"
    obtain r s' where r: "att a s = (r, s')" by fastforce
    from att [OF R r] obtain t' where t': "att' a t = (r, t')" "R s' t'" by blast
    show "\<exists>t1. drain att' rg' first a t = Some t1 \<and> R z t1"
      using z IH [of x g f y s' z] r t' don [OF t'(2)] rg [OF t'(2)] unfolding eqs
      by (subst drain.simps) (auto simp: t'(1) split: if_splits)
  qed
  then show ?thesis using assms(2) by simp
qed

lemma await_sim:
  assumes "await_loop att rg wait first a s = Some s1" and "R s t"
    and att: "\<And>s t r s'. R s t \<Longrightarrow> att a s = (r, s') \<Longrightarrow> \<exists>t'. att' a t = (r, t') \<and> R s' t'"
    and don: "\<And>s t. R s t \<Longrightarrow> R (drain_done a s) (drain_done a t)"
    and rg: "\<And>s t first. R s t \<Longrightarrow> R (rg a first (s\<lparr>func := (func s)(a := Code Drive_cb)\<rparr>)) (rg' a first (t\<lparr>func := (func t)(a := Code Drive_cb)\<rparr>))"
    and wt: "\<And>s t. R s t \<Longrightarrow> R (wait s) (wait' t)" and fn: "\<And>s t. R s t \<Longrightarrow> func s = func t"
  shows "\<exists>t1. await_loop att' rg' wait' first a t = Some t1 \<and> R s1 t1"
proof -
  let ?P = "\<lambda>x g w (f :: bool) y s r. x = att \<longrightarrow> g = rg \<longrightarrow> w = wait \<longrightarrow> y = a \<longrightarrow>
    (\<forall>t. R s t \<longrightarrow> (\<exists>t1. await_loop att' rg' wait' f a t = Some t1 \<and> R r t1))"
  have "?P att rg wait first a s s1"
  proof (rule await_loop.raw_induct [of ?P, OF _ assms(1)], intro impI allI)
    fix aw x g w f y s z t
    assume IH: "\<And>x g w f y s z. aw x g w f y s = Some z \<Longrightarrow> ?P x g w f y s z"
      and z: "(case drain x g f y s of None \<Rightarrow> None
          | Some s1 \<Rightarrow> if func s1 y = Code Drive_cb then aw x g w False y (w s1) else Some s1) = Some z"
      and eqs: "x = att" "g = rg" "w = wait" "y = a" and R: "R s t"
    obtain s' where d: "drain att rg f a s = Some s'" using z unfolding eqs by (auto split: option.splits)
    have "\<exists>t'. drain att' rg' f a t = Some t' \<and> R s' t'"
      by (rule drain_sim [where R = R, OF d R]; (erule (1) att | erule don | erule rg))
    then obtain t' where t': "drain att' rg' f a t = Some t'" "R s' t'" by blast
    show "\<exists>t1. await_loop att' rg' wait' f a t = Some t1 \<and> R z t1"
      using z d IH [of x g w False y "wait s'" z] t' wt [OF t'(2)] fn [OF t'(2)] unfolding eqs
      by (subst await_loop.simps) (auto split: if_splits)
  qed
  then show ?thesis using assms(2) by simp
qed

lemma await_rel:
  assumes "R s t"
    and att: "\<And>s t. R s t \<Longrightarrow> rel_prod (=) R (att a s) (att' a t)"
    and don: "\<And>s t. R s t \<Longrightarrow> R (drain_done a s) (drain_done a t)"
    and rg: "\<And>s t first. R s t \<Longrightarrow> R (rg a first (s\<lparr>func := (func s)(a := Code Drive_cb)\<rparr>)) (rg' a first (t\<lparr>func := (func t)(a := Code Drive_cb)\<rparr>))"
    and wt: "\<And>s t. R s t \<Longrightarrow> R (wait s) (wait' t)" and fn: "\<And>s t. R s t \<Longrightarrow> func s = func t"
  shows "rel_option R (await_loop att rg wait first a s) (await_loop att' rg' wait' first a t)"
proof -
  have f: "\<exists>t1. await_loop att' rg' wait' first a t = Some t1 \<and> R s1 t1" if "await_loop att rg wait first a s = Some s1" for s1
  proof (rule await_sim [where R = R, OF that assms(1)])
    fix s t r s' assume "R s t" "att a s = (r, s')"
    then show "\<exists>t'. att' a t = (r, t') \<and> R s' t'" using att [of s t] by (cases "att' a t") simp
  qed (use don rg wt fn in auto)
  have b: "\<exists>s1. await_loop att rg wait first a s = Some s1 \<and> R\<inverse>\<inverse> t1 s1" if "await_loop att' rg' wait' first a t = Some t1" for t1
  proof (rule await_sim [where R = "R\<inverse>\<inverse>", OF that])
    fix s t r s' assume "R\<inverse>\<inverse> s t" "att' a s = (r, s')"
    then show "\<exists>t'. att a t = (r, t') \<and> R\<inverse>\<inverse> s' t'" using att [of t s] by (cases "att a t") simp
  qed (use assms(1) don rg wt fn in auto)
  show ?thesis
  proof (cases "await_loop att rg wait first a s")
    case None
    then show ?thesis using b by (cases "await_loop att' rg' wait' first a t") auto
  next
    case (Some s1)
    then show ?thesis using f by auto
  qed
qed

end
