(* ===== verification/Socket_Interface.thy ===== *)
theory Socket_Interface
  imports Prelude
begin

text \<open>
  The contract between a stream socket and the protocol code that is a template over it
  (\<^verbatim>\<open>template <lockable lock, class Socket>\<close> in \<^verbatim>\<open>net/websocket.hpp\<close>).

  A socket is three operations over a state \<open>'s\<close>. \<open>recv len s\<close> is a completed \<open>co_await sock.recv(buf, len)\<close>:
  its value, the bytes it stored from \<open>buf\<close> on, and the state after it; \<open>None\<close> is an operation that never resumes.
  \<open>send_all data s\<close> is the value of \<open>co_await sock.send_all(data, size)\<close> and the state after it. \<open>inb s\<close> are the
  bytes the peer has sent or will send and that were not received yet, \<open>outb s\<close> the bytes handed to the peer.
\<close>

type_synonym bytes = "8 word list"
type_synonym 's recv_op = "nat \<Rightarrow> 's \<Rightarrow> (int \<times> bytes \<times> 's) option"
type_synonym 's send_op = "bytes \<Rightarrow> 's \<Rightarrow> (int \<times> 's) option"

text \<open>Storing \<open>d\<close> at \<open>buf + i\<close>.\<close>

definition buf_write :: "nat \<Rightarrow> bytes \<Rightarrow> bytes \<Rightarrow> bytes" where
  "buf_write i d buf = take i buf @ d @ drop (i + length d) buf"

lemma buf_write_length [simp]: "i + length d \<le> length buf \<Longrightarrow> length (buf_write i d buf) = length buf"
  by (simp add: buf_write_def)

lemma take_buf_write [simp]: "i \<le> length buf \<Longrightarrow> take (i + length d) (buf_write i d buf) = take i buf @ d"
  by (simp add: buf_write_def)

text \<open>
  A \<open>stream_sock\<close> delivers the bytes of the peer in order, at most as many as asked for, and sends a prefix of
  what it is given; it may fail, block or send short at any time.
\<close>

locale stream_sock =
  fixes recv :: "'s recv_op" and send_all :: "'s send_op"
    and inb :: "'s \<Rightarrow> bytes" and outb :: "'s \<Rightarrow> bytes"
  assumes recv_data: "recv len s = Some (n, d, s1) \<Longrightarrow> 0 < n \<Longrightarrow>
      int (length d) = n \<and> length d \<le> len \<and> inb s = d @ inb s1"
    and recv_none: "recv len s = Some (n, d, s1) \<Longrightarrow> n \<le> 0 \<Longrightarrow> inb s1 = inb s"
    and recv_quiet: "recv len s = Some (n, d, s1) \<Longrightarrow> outb s1 = outb s"
    and send_prefix: "send_all b s = Some (n, s1) \<Longrightarrow>
      \<exists>k\<le>length b. outb s1 = outb s @ take k b \<and> (n = int k \<or> n < 0 \<and> k = 0)"
    and send_keeps: "send_all b s = Some (n, s1) \<Longrightarrow> inb s1 = inb s"

text \<open>
  A \<open>reliable_sock\<close> is a connection without failures: every operation completes, bytes arrive as long as there are
  any, their end is reported as 0, and everything given to \<open>send_all\<close> is sent.
\<close>

locale reliable_sock = stream_sock recv send_all inb outb
  for recv :: "'s recv_op" and send_all :: "'s send_op"
    and inb :: "'s \<Rightarrow> bytes" and outb :: "'s \<Rightarrow> bytes" +
  assumes recv_live: "0 < len \<Longrightarrow> inb s \<noteq> [] \<Longrightarrow> \<exists>n d s1. recv len s = Some (n, d, s1) \<and> 0 < n"
    and recv_end: "0 < len \<Longrightarrow> inb s = [] \<Longrightarrow> \<exists>d s1. recv len s = Some (0, d, s1)"
    and send_live: "\<exists>s1. send_all b s = Some (int (length b), s1)"

end
