(* ===== verification/Stream_Socket.thy ===== *)
theory Stream_Socket
  imports Epoll_Reactor Awaiting Socket_Interface
begin

text \<open>
  Sockets: \<^verbatim>\<open>net/stream_socket_base.hpp\<close> (\<open>socket_core\<close>, \<open>connect_awaiter\<close>, \<open>stream_socket_base\<close>, \<open>datagram_socket_base\<close>).

  The state of one socket extends that of its reactor and callback queue; \<open>EWOULDBLOCK\<close> is \<open>EAGAIN\<close>, as on Linux; an awaiter is named by the address of its
  work node, and \<open>raw\<close>, \<open>saw\<close>, \<open>drw\<close>, \<open>dsw\<close> and \<open>caw\<close> hold the members of the recv, send, datagram recv, datagram send and connect
  awaiters. The system calls that \<^verbatim>\<open>net/os_compat.hpp\<close> forwards to are the fields of \<open>os\<close>, functions of the kernel state;
  a failing call also gives the value of \<open>errno\<close>.
\<close>

section \<open>Data\<close>

record 'k os =
  os_ctl :: "'k epoll_ctl"
  os_socket :: "int \<Rightarrow> int \<Rightarrow> int \<Rightarrow> 'k \<Rightarrow> fd \<times> 'k"
  os_set_non_block :: "fd \<Rightarrow> 'k \<Rightarrow> 'k"
  os_getsockname :: "fd \<Rightarrow> 'k \<Rightarrow> int option"
  os_close :: "fd \<Rightarrow> 'k \<Rightarrow> 'k"
  os_shutdown_wr :: "fd \<Rightarrow> 'k \<Rightarrow> 'k"
  os_connect :: "fd \<Rightarrow> bytes \<Rightarrow> 'k \<Rightarrow> (int \<times> int) \<times> 'k"
  os_so_error :: "fd \<Rightarrow> 'k \<Rightarrow> int \<times> int"
  os_recv :: "fd \<Rightarrow> nat \<Rightarrow> 'k \<Rightarrow> (int \<times> int \<times> bytes) \<times> 'k"
  os_send :: "fd \<Rightarrow> bytes \<Rightarrow> 'k \<Rightarrow> (int \<times> int) \<times> 'k"
  os_writev :: "fd \<Rightarrow> bytes list \<Rightarrow> 'k \<Rightarrow> (int \<times> int) \<times> 'k"
  os_recvfrom :: "fd \<Rightarrow> nat \<Rightarrow> 'k \<Rightarrow> (int \<times> int \<times> bytes \<times> bytes) \<times> 'k"
  os_sendto :: "fd \<Rightarrow> bytes list \<Rightarrow> bytes option \<Rightarrow> 'k \<Rightarrow> (int \<times> int) \<times> 'k"

definition EAGAIN :: int where "EAGAIN = 11"
definition EPIPE :: int where "EPIPE = 32"
definition ECONNRESET :: int where "ECONNRESET = 104"
definition ENOTCONN :: int where "ENOTCONN = 107"
definition ETIMEDOUT :: int where "ETIMEDOUT = 110"
definition EINPROGRESS :: int where "EINPROGRESS = 115"
definition ECANCELED :: int where "ECANCELED = 125"
definition AF_INET :: int where "AF_INET = 2"
definition invalid_fd :: fd where "invalid_fd = - 1"

record recv_aw =
  rv_full :: bool
  rv_buf :: bytes
  rv_len :: nat
  recvd :: nat
  rv_err :: int

record send_aw =
  sd_full :: bool
  sd_buf :: bytes
  sd_len :: nat
  sd_vec :: "bytes list"
  use_vec :: bool
  sent :: nat
  sd_err :: int

record dgram_recv =
  dr_buf :: bytes
  dr_len :: nat
  out_addr :: bytes
  nread :: int

record dgram_send =
  ds_use_vec :: bool
  ds_dest :: "bytes option"
  ds_buf :: bytes
  ds_vec :: "bytes list"
  nsent :: int

record connect_aw =
  c_ret :: int
  c_timed_out :: bool

record 'k sock = "'k epr" +
  sk_fd :: fd
  sk_closed :: bool
  sk_family :: int
  send_q :: addr
  recv_q :: addr
  rx_eof :: bool
  tx_shutdown :: bool
  sk_errno :: int
  raw :: "addr \<Rightarrow> recv_aw"
  saw :: "addr \<Rightarrow> send_aw"
  drw :: "addr \<Rightarrow> dgram_recv"
  dsw :: "addr \<Rightarrow> dgram_send"
  caw :: "addr \<Rightarrow> connect_aw"

section \<open>The socket core\<close>

definition init_fd :: "'k os \<Rightarrow> ('k, 'b) sock_scheme \<Rightarrow> ('k, 'b) sock_scheme" where
  "init_fd os s =
     (let s1 = add_fd (sk_fd s) (s\<lparr>kern := os_set_non_block os (sk_fd s) (kern s)\<rparr>)
      in (serial_queue_init (recv_q s1) (serial_queue_init (send_q s1) s1))\<lparr>sk_closed := False\<rparr>)"

definition determine_family :: "'k os \<Rightarrow> ('k, 'b) sock_scheme \<Rightarrow> ('k, 'b) sock_scheme" where
  "determine_family os s =
     s\<lparr>sk_family := (case os_getsockname os (sk_fd s) (kern s) of Some f \<Rightarrow> f | None \<Rightarrow> AF_INET)\<rparr>"

datatype socket_error = Socket_failed | Invalid_fd

definition socket_core_create ::
  "'k os \<Rightarrow> int \<Rightarrow> int \<Rightarrow> int \<Rightarrow> ('k, 'b) sock_scheme \<Rightarrow> socket_error + ('k, 'b) sock_scheme" where
  "socket_core_create os domain type protocol s =
     (case os_socket os domain type protocol (kern s) of (fd, k) \<Rightarrow>
        let s1 = s\<lparr>kern := k, sk_family := domain, sk_fd := fd\<rparr>
        in if fd = invalid_fd then Inl Socket_failed else Inr (init_fd os s1))"

definition socket_core_adopt :: "'k os \<Rightarrow> fd \<Rightarrow> ('k, 'b) sock_scheme \<Rightarrow> socket_error + ('k, 'b) sock_scheme" where
  "socket_core_adopt os fd s =
     (if fd = invalid_fd then Inl Invalid_fd else Inr (init_fd os (determine_family os (s\<lparr>sk_fd := fd\<rparr>))))"

text \<open>\<open>close_fd\<close>; \<open>pend\<close> is the address of the local list head.\<close>

definition close_fd ::
  "'k os \<Rightarrow> build \<Rightarrow> (addr \<Rightarrow> ('k, 'b) sock_scheme \<Rightarrow> ('k, 'b) sock_scheme) \<Rightarrow> addr \<Rightarrow> ('k, 'b) sock_scheme \<Rightarrow>
   (abort + ('k, 'b) sock_scheme) option" where
  "close_fd os b pst pend s =
     (if sk_fd s = invalid_fd then Some (Inr s)
      else let s1 = remove_fd (os_ctl os) pst (sk_fd s) (s\<lparr>sk_closed := True\<rparr>);
               s2 = s1\<lparr>lks := INIT_LIST_HEAD pend (lks s1)\<rparr>
           in case serial_collect_waiters [send_q s2, recv_q s2] pend s2 of
                None \<Rightarrow> None
              | Some s3 \<Rightarrow>
                 (case serial_post_pending b pend s3 of
                    None \<Rightarrow> None
                  | Some (Inl e) \<Rightarrow> Some (Inl e)
                  | Some (Inr s4) \<Rightarrow> Some (Inr (s4\<lparr>kern := os_close os (sk_fd s4) (kern s4), sk_fd := invalid_fd\<rparr>))))"

definition sock_close ::
  "'k os \<Rightarrow> build \<Rightarrow> (addr \<Rightarrow> ('k, 'b) sock_scheme \<Rightarrow> ('k, 'b) sock_scheme) \<Rightarrow> addr \<Rightarrow> ('k, 'b) sock_scheme \<Rightarrow>
   (abort + ('k, 'b) sock_scheme) option" where
  "sock_close os b pst pend s =
     (case close_fd os b pst pend s of
        None \<Rightarrow> None
      | Some (Inl e) \<Rightarrow> Some (Inl e)
      | Some (Inr s1) \<Rightarrow> Some (Inr (s1\<lparr>rx_eof := False, tx_shutdown := False\<rparr>)))"

definition shutdown_tx :: "'k os \<Rightarrow> ('k, 'b) sock_scheme \<Rightarrow> ('k, 'b) sock_scheme" where
  "shutdown_tx os s =
     (if sk_fd s \<noteq> invalid_fd \<and> \<not> tx_shutdown s
      then s\<lparr>kern := os_shutdown_wr os (sk_fd s) (kern s), tx_shutdown := True\<rparr> else s)"

section \<open>Connecting\<close>

definition connect_timeout_cb :: "addr \<Rightarrow> ('k, 'b) sock_scheme \<Rightarrow> ('k, 'b) sock_scheme" where
  "connect_timeout_cb a s =
     clear_timeout_callback a (s\<lparr>caw := (caw s)(a := (caw s a)\<lparr>c_timed_out := True, c_ret := - 1\<rparr>)\<rparr>)"

text \<open>\<open>provider.build\<close> gives the target address, or fails.\<close>

definition connect_suspend ::
  "'k os \<Rightarrow> (addr \<Rightarrow> ('k, 'b) sock_scheme \<Rightarrow> ('k, 'b) sock_scheme) \<Rightarrow> int \<Rightarrow> bytes option \<Rightarrow> addr \<Rightarrow> addr \<Rightarrow>
   ('k, 'b) sock_scheme \<Rightarrow> ('k, 'b) sock_scheme" where
  "connect_suspend os pst now build_addr a h s =
     (let s1 = s\<lparr>h_of := (h_of s)(a := Some h), func := (func s)(a := Code Resume_cb), lks := INIT_LIST_HEAD a (lks s)\<rparr>;
          finish = (\<lambda>r s. pst a (s\<lparr>caw := (caw s)(a := (caw s a)\<lparr>c_ret := r\<rparr>)\<rparr>))
      in case build_addr of
           None \<Rightarrow> finish (- 1) s1
         | Some address \<Rightarrow>
            (case os_connect os (sk_fd s1) address (kern s1) of ((r, e), k) \<Rightarrow>
               let s2 = s1\<lparr>kern := k, sk_errno := (if r < 0 then e else sk_errno s1)\<rparr>
               in if r = 0 then finish 0 s2
                  else if r < 0 \<and> e \<noteq> EINPROGRESS \<and> e \<noteq> EAGAIN then finish (- 1) s2
                  else let s3 = set_timeout_callback a (Code Connect_timeout_cb) (s2\<lparr>caw := (caw s2)(a := (caw s2 a)\<lparr>c_timed_out := False\<rparr>)\<rparr>)
                       in add_waiter_with_timeout (os_ctl os) now (sk_fd s3) EPOLLOUT a 10000 s3))"

definition connect_resume :: "'k os \<Rightarrow> addr \<Rightarrow> ('k, 'b) sock_scheme \<Rightarrow> int \<times> ('k, 'b) sock_scheme" where
  "connect_resume os a s0 =
     (let s = clear_timeout_callback a s0; c = caw s a
      in if c_timed_out c then (- 1, s\<lparr>caw := (caw s)(a := c\<lparr>c_timed_out := False\<rparr>), sk_errno := ETIMEDOUT\<rparr>)
         else if c_ret c = 0
         then (case os_so_error os (sk_fd s) (kern s) of (rc, err) \<Rightarrow>
                 if rc = 0 \<and> err = 0 then (0, s) else (- 1, s\<lparr>sk_errno := err\<rparr>))
         else (c_ret c, s))"

section \<open>Receiving from a stream\<close>

definition recv_awaiter_init ::
  "addr \<Rightarrow> bytes \<Rightarrow> nat \<Rightarrow> bool \<Rightarrow> ('k, 'b) sock_scheme \<Rightarrow> ('k, 'b) sock_scheme" where
  "recv_awaiter_init a buf len f s =
     s\<lparr>q_of := (q_of s)(a := recv_q s),
       raw := (raw s)(a := \<lparr>rv_full = f, rv_buf = buf, rv_len = len, recvd = 0, rv_err = 0\<rparr>)\<rparr>"

definition recv_register_wait :: "'k os \<Rightarrow> addr \<Rightarrow> bool \<Rightarrow> ('k, 'b) sock_scheme \<Rightarrow> ('k, 'b) sock_scheme" where
  "recv_register_wait os a first s = add_waiter_custom (os_ctl os) (sk_fd s) EPOLLIN a s"

definition recv_attempt_once :: "'k os \<Rightarrow> addr \<Rightarrow> ('k, 'b) sock_scheme \<Rightarrow> int \<times> ('k, 'b) sock_scheme" where
  "recv_attempt_once os a s =
     (let aw = raw s a
      in if recvd aw \<ge> rv_len aw then (0, s)
         else case os_recv os (sk_fd s) (rv_len aw - recvd aw) (kern s) of ((n, e, d), k) \<Rightarrow>
           let s1 = s\<lparr>kern := k, sk_errno := (if n < 0 then e else sk_errno s)\<rparr>
           in if n > 0
              then let aw1 = aw\<lparr>recvd := recvd aw + nat n, rv_buf := buf_write (recvd aw) (take (nat n) d) (rv_buf aw)\<rparr>
                   in (if \<not> rv_full aw then 0 else if recvd aw1 = rv_len aw1 then 0 else 1, s1\<lparr>raw := (raw s1)(a := aw1)\<rparr>)
              else if n = 0 then (0, s1\<lparr>rx_eof := True\<rparr>)
              else if e = EAGAIN then (if \<not> rv_full aw \<and> recvd aw > 0 then 0 else - 1, s1)
              else (0, if recvd aw = 0 then s1\<lparr>raw := (raw s1)(a := aw\<lparr>rv_err := n\<rparr>)\<rparr> else s1))"

definition recv_await_resume :: "addr \<Rightarrow> ('k, 'b) sock_scheme \<Rightarrow> int" where
  "recv_await_resume a s =
     (let aw = raw s a in if rv_err aw < 0 \<and> recvd aw = 0 then rv_err aw else int (recvd aw))"

section \<open>Sending to a stream\<close>

definition send_awaiter_init ::
  "addr \<Rightarrow> bytes \<Rightarrow> bool \<Rightarrow> ('k, 'b) sock_scheme \<Rightarrow> ('k, 'b) sock_scheme" where
  "send_awaiter_init a buf f s =
     s\<lparr>q_of := (q_of s)(a := send_q s),
       saw := (saw s)(a := \<lparr>sd_full = f, sd_buf = buf, sd_len = length buf, sd_vec = [], use_vec = False, sent = 0, sd_err = 0\<rparr>)\<rparr>"

definition sendv_awaiter_init ::
  "addr \<Rightarrow> bytes list \<Rightarrow> bool \<Rightarrow> ('k, 'b) sock_scheme \<Rightarrow> ('k, 'b) sock_scheme" where
  "sendv_awaiter_init a iov f s =
     s\<lparr>q_of := (q_of s)(a := send_q s),
       saw := (saw s)(a := \<lparr>sd_full = f, sd_buf = [], sd_len = sum_list (map length iov), sd_vec = iov, use_vec = True,
                           sent = 0, sd_err = 0\<rparr>)\<rparr>"

definition send_register_wait :: "'k os \<Rightarrow> addr \<Rightarrow> bool \<Rightarrow> ('k, 'b) sock_scheme \<Rightarrow> ('k, 'b) sock_scheme" where
  "send_register_wait os a first s = add_waiter_custom (os_ctl os) (sk_fd s) EPOLLOUT a s"

fun advance_iov :: "nat \<Rightarrow> bytes list \<Rightarrow> bytes list" where
  "advance_iov remain [] = []"
| "advance_iov remain (v # vec) =
     (if remain = 0 then v # vec
      else if remain \<ge> length v then advance_iov (remain - length v) vec
      else drop remain v # vec)"

definition send_failed :: "addr \<Rightarrow> int \<Rightarrow> int \<Rightarrow> ('k, 'b) sock_scheme \<Rightarrow> int \<times> ('k, 'b) sock_scheme" where
  "send_failed a n e s =
     (let s1 = (if e = EPIPE \<or> e = ECONNRESET \<or> e = ENOTCONN then s\<lparr>tx_shutdown := True\<rparr> else s)
      in (0, s1\<lparr>saw := (saw s1)(a := (saw s1 a)\<lparr>sd_err := n\<rparr>)\<rparr>))"

text \<open>
  The two loops of \<open>attempt_once\<close>. Every turn that goes on has sent at least one byte, so they end whatever the kernel
  answers.
\<close>

function send_loop :: "'k os \<Rightarrow> addr \<Rightarrow> ('k, 'b) sock_scheme \<Rightarrow> int \<times> ('k, 'b) sock_scheme" where
  "send_loop os a s =
     (let aw = saw s a
      in if sent aw < sd_len aw
         then case os_send os (sk_fd s) (drop (sent aw) (sd_buf aw)) (kern s) of ((n, e), k) \<Rightarrow>
           let s1 = s\<lparr>kern := k, sk_errno := (if n < 0 then e else sk_errno s)\<rparr>
           in if n > 0
              then let s2 = s1\<lparr>saw := (saw s1)(a := aw\<lparr>sent := sent aw + nat n\<rparr>)\<rparr>
                   in if sent aw + nat n = sd_len aw then (0, s2) else send_loop os a s2
              else if n = 0 then (0, s1)
              else if e = EAGAIN then (if sd_full aw then - 1 else 0, s1)
              else send_failed a n e s1
         else (0, s))"
  by auto
termination
  by (relation "measure (\<lambda>(os, a, s). sd_len (saw s a) - sent (saw s a))") auto

lemma advance_iov_decreases:
  "0 < n \<Longrightarrow> vec \<noteq> [] \<Longrightarrow>
   sum_list (map length (advance_iov n vec)) + length (advance_iov n vec) < sum_list (map length vec) + length vec"
proof (induction n vec rule: advance_iov.induct)
  case (2 remain v vec)
  then show ?case
    by (cases "remain - length v = 0"; cases vec) auto
qed simp

function sendv_loop :: "'k os \<Rightarrow> addr \<Rightarrow> ('k, 'b) sock_scheme \<Rightarrow> int \<times> ('k, 'b) sock_scheme" where
  "sendv_loop os a s =
     (let aw = saw s a
      in if sd_vec aw \<noteq> []
         then case os_writev os (sk_fd s) (sd_vec aw) (kern s) of ((n, e), k) \<Rightarrow>
           let s1 = s\<lparr>kern := k, sk_errno := (if n < 0 then e else sk_errno s)\<rparr>
           in if n > 0
              then let s2 = s1\<lparr>saw := (saw s1)(a := aw\<lparr>sent := sent aw + nat n, sd_vec := advance_iov (nat n) (sd_vec aw)\<rparr>)\<rparr>
                   in if sd_vec (saw s2 a) = [] then (0, s2) else sendv_loop os a s2
              else if n = 0 then (0, s1)
              else if e = EAGAIN then (if sd_full aw then - 1 else 0, s1)
              else send_failed a n e s1
         else (0, s))"
  by auto
termination
  by (relation "measure (\<lambda>(os, a, s). sum_list (map length (sd_vec (saw s a))) + length (sd_vec (saw s a)))")
    (auto intro: advance_iov_decreases)

declare send_loop.simps [simp del] sendv_loop.simps [simp del]

definition send_attempt_once :: "'k os \<Rightarrow> addr \<Rightarrow> ('k, 'b) sock_scheme \<Rightarrow> int \<times> ('k, 'b) sock_scheme" where
  "send_attempt_once os a s = (if \<not> use_vec (saw s a) then send_loop os a s else sendv_loop os a s)"

definition send_await_resume :: "addr \<Rightarrow> ('k, 'b) sock_scheme \<Rightarrow> int" where
  "send_await_resume a s =
     (let aw = saw s a in if sd_err aw < 0 \<and> sent aw = 0 then sd_err aw else int (sent aw))"

section \<open>Datagrams\<close>

definition recvfrom_awaiter_init :: "addr \<Rightarrow> bytes \<Rightarrow> nat \<Rightarrow> ('k, 'b) sock_scheme \<Rightarrow> ('k, 'b) sock_scheme" where
  "recvfrom_awaiter_init a buf len s =
     s\<lparr>q_of := (q_of s)(a := recv_q s), drw := (drw s)(a := \<lparr>dr_buf = buf, dr_len = len, out_addr = [], nread = - 1\<rparr>)\<rparr>"

definition dgram_send_awaiter_init ::
  "addr \<Rightarrow> bytes \<Rightarrow> bytes option \<Rightarrow> ('k, 'b) sock_scheme \<Rightarrow> ('k, 'b) sock_scheme" where
  "dgram_send_awaiter_init a buf dest s =
     s\<lparr>q_of := (q_of s)(a := send_q s),
       dsw := (dsw s)(a := \<lparr>ds_use_vec = False, ds_dest = dest, ds_buf = buf, ds_vec = [], nsent = 0\<rparr>)\<rparr>"

definition dgram_sendv_awaiter_init ::
  "addr \<Rightarrow> bytes list \<Rightarrow> bytes option \<Rightarrow> ('k, 'b) sock_scheme \<Rightarrow> ('k, 'b) sock_scheme" where
  "dgram_sendv_awaiter_init a iov dest s =
     s\<lparr>q_of := (q_of s)(a := send_q s),
       dsw := (dsw s)(a := \<lparr>ds_use_vec = True, ds_dest = dest, ds_buf = [], ds_vec = iov, nsent = 0\<rparr>)\<rparr>"

definition recvfrom_register_wait :: "'k os \<Rightarrow> addr \<Rightarrow> bool \<Rightarrow> ('k, 'b) sock_scheme \<Rightarrow> ('k, 'b) sock_scheme" where
  "recvfrom_register_wait os a first s = add_waiter_custom (os_ctl os) (sk_fd s) EPOLLIN a s"

definition dgram_send_register_wait :: "'k os \<Rightarrow> addr \<Rightarrow> bool \<Rightarrow> ('k, 'b) sock_scheme \<Rightarrow> ('k, 'b) sock_scheme" where
  "dgram_send_register_wait os a first s = add_waiter_custom (os_ctl os) (sk_fd s) EPOLLOUT a s"

definition recvfrom_attempt_once :: "'k os \<Rightarrow> addr \<Rightarrow> ('k, 'b) sock_scheme \<Rightarrow> int \<times> ('k, 'b) sock_scheme" where
  "recvfrom_attempt_once os a s =
     (case os_recvfrom os (sk_fd s) (dr_len (drw s a)) (kern s) of ((n, e, d, from), k) \<Rightarrow>
        let aw = (drw s a)\<lparr>nread := n\<rparr>;
            s1 = s\<lparr>kern := k, sk_errno := (if n < 0 then e else sk_errno s)\<rparr>
        in if n \<ge> 0 then (0, s1\<lparr>drw := (drw s)(a := aw\<lparr>dr_buf := buf_write 0 (take (nat n) d) (dr_buf aw), out_addr := from\<rparr>)\<rparr>)
           else (if e = EAGAIN then - 1 else 0, s1\<lparr>drw := (drw s)(a := aw)\<rparr>))"

definition recvfrom_await_resume :: "addr \<Rightarrow> ('k, 'b) sock_scheme \<Rightarrow> int \<times> ('k, 'b) sock_scheme" where
  "recvfrom_await_resume a s =
     (if nread (drw s a) < 0 \<and> sk_closed s then (- 1, s\<lparr>sk_errno := ECANCELED\<rparr>) else (nread (drw s a), s))"

definition dgram_send_attempt_once :: "'k os \<Rightarrow> addr \<Rightarrow> ('k, 'b) sock_scheme \<Rightarrow> int \<times> ('k, 'b) sock_scheme" where
  "dgram_send_attempt_once os a s =
     (let aw = dsw s a
      in case (if \<not> ds_use_vec aw
               then (case ds_dest aw of Some d \<Rightarrow> os_sendto os (sk_fd s) [ds_buf aw] (Some d) (kern s)
                     | None \<Rightarrow> os_send os (sk_fd s) (ds_buf aw) (kern s))
               else (case ds_dest aw of Some d \<Rightarrow> os_sendto os (sk_fd s) (ds_vec aw) (Some d) (kern s)
                     | None \<Rightarrow> os_writev os (sk_fd s) (ds_vec aw) (kern s))) of ((n, e), k) \<Rightarrow>
           (if n \<ge> 0 then 0 else if e = EAGAIN then - 1 else 0,
            s\<lparr>kern := k, sk_errno := (if n < 0 then e else sk_errno s), dsw := (dsw s)(a := aw\<lparr>nsent := n\<rparr>)\<rparr>))"

definition dgram_send_await_resume :: "addr \<Rightarrow> ('k, 'b) sock_scheme \<Rightarrow> int \<times> ('k, 'b) sock_scheme" where
  "dgram_send_await_resume a s =
     (if nsent (dsw s a) < 0 \<and> sk_closed s then (- 1, s\<lparr>sk_errno := ECANCELED\<rparr>) else (nsent (dsw s a), s))"

section \<open>Operations as coroutines see them\<close>

definition wait_for ::
  "'k os \<Rightarrow> (32 word \<Rightarrow> 'k \<Rightarrow> 'k) \<Rightarrow> 32 word \<Rightarrow> ('k, 'b) sock_scheme \<Rightarrow> ('k, 'b) sock_scheme" where
  "wait_for os idle flags s =
     handle_event (os_ctl os) wq_post (sk_fd s, flags) (s\<lparr>kern := idle flags (kern s)\<rparr>)"

definition sock_recv ::
  "'k os \<Rightarrow> (32 word \<Rightarrow> 'k \<Rightarrow> 'k) \<Rightarrow> addr \<Rightarrow> nat \<Rightarrow> ('k, 'b) sock_scheme \<Rightarrow> (int \<times> bytes \<times> ('k, 'b) sock_scheme) option" where
  "sock_recv os idle a len s =
     map_option (\<lambda>s1. (recv_await_resume a s1, take (recvd (raw s1 a)) (rv_buf (raw s1 a)), s1))
       (await_loop (recv_attempt_once os) (recv_register_wait os) (wait_for os idle EPOLLIN) True a
          (recv_awaiter_init a (replicate len 0) len False s))"

definition sock_recv_all ::
  "'k os \<Rightarrow> (32 word \<Rightarrow> 'k \<Rightarrow> 'k) \<Rightarrow> addr \<Rightarrow> nat \<Rightarrow> ('k, 'b) sock_scheme \<Rightarrow> (int \<times> bytes \<times> ('k, 'b) sock_scheme) option" where
  "sock_recv_all os idle a len s =
     map_option (\<lambda>s1. (recv_await_resume a s1, take (recvd (raw s1 a)) (rv_buf (raw s1 a)), s1))
       (await_loop (recv_attempt_once os) (recv_register_wait os) (wait_for os idle EPOLLIN) True a
          (recv_awaiter_init a (replicate len 0) len True s))"

definition sock_send_all ::
  "'k os \<Rightarrow> (32 word \<Rightarrow> 'k \<Rightarrow> 'k) \<Rightarrow> addr \<Rightarrow> bytes \<Rightarrow> ('k, 'b) sock_scheme \<Rightarrow> (int \<times> ('k, 'b) sock_scheme) option" where
  "sock_send_all os idle a b s =
     map_option (\<lambda>s1. (send_await_resume a s1, s1))
       (await_loop (send_attempt_once os) (send_register_wait os) (wait_for os idle EPOLLOUT) True a
          (send_awaiter_init a b True s))"

section \<open>Frame lemmas\<close>

lemma wq_post_sock [simp]:
  "kern (wq_post w s) = kern s" "raw (wq_post w s) = raw s" "saw (wq_post w s) = saw s" "sk_fd (wq_post w s) = sk_fd s"
  for s :: "('k, 'b) sock_scheme"
  by (simp_all add: wq_post_def enqueue_def trig_once_def emit_def)

lemma drain_done_sock [simp]:
  "kern (drain_done a s) = kern s" "raw (drain_done a s) = raw s" "saw (drain_done a s) = saw s" "sk_fd (drain_done a s) = sk_fd s"
  for s :: "('k, 'b) sock_scheme"
  by (auto simp: drain_done_def slot_release_def serial_release_def resume_coroutine_def Let_def split: option.splits)

lemma update_sock [simp]:
  "raw (update_fd_interest_unlocked c fd st s) = raw s" "saw (update_fd_interest_unlocked c fd st s) = saw s"
  "sk_fd (update_fd_interest_unlocked c fd st s) = sk_fd s" "func (update_fd_interest_unlocked c fd st s) = func s"
  for s :: "('k, 'b) sock_scheme"
  by (auto simp: update_fd_interest_unlocked_def ctl_def Let_def split: prod.splits)

lemma add_waiter_custom_sock [simp]:
  "raw (add_waiter_custom c fd m w s) = raw s" "saw (add_waiter_custom c fd m w s) = saw s"
  "sk_fd (add_waiter_custom c fd m w s) = sk_fd s" "func (add_waiter_custom c fd m w s) = func s"
  for s :: "('k, 'b) sock_scheme"
  by (simp_all add: add_waiter_custom_def register_waiter_def Let_def)

lemma fold_post_sock [simp]:
  "kern (fold (\<lambda>wi. wq_post (wi_waiter wi)) ws s) = kern s" "raw (fold (\<lambda>wi. wq_post (wi_waiter wi)) ws s) = raw s"
  "saw (fold (\<lambda>wi. wq_post (wi_waiter wi)) ws s) = saw s" "sk_fd (fold (\<lambda>wi. wq_post (wi_waiter wi)) ws s) = sk_fd s"
  for s :: "('k, 'b) sock_scheme"
  by (induction ws arbitrary: s) simp_all

lemma wait_for_sock [simp]:
  "raw (wait_for os idle flags s) = raw s" "saw (wait_for os idle flags s) = saw s" "sk_fd (wait_for os idle flags s) = sk_fd s"
  for s :: "('k, 'b) sock_scheme"
  by (auto simp: wait_for_def handle_event_def take_ready_def split: option.splits prod.splits)

section \<open>The kernel's side of a connection\<close>

text \<open>
  The documented behaviour of \<^verbatim>\<open>recv(2)\<close> and \<^verbatim>\<open>send(2)\<close> on a stream: \<open>kin\<close> are the bytes of the peer not received yet, \<open>kout\<close>
  the bytes accepted for the peer. Calls to \<open>epoll_ctl\<close> and waiting consume and produce no bytes.
\<close>

locale kernel_stream =
  fixes os :: "'k os" and idle :: "32 word \<Rightarrow> 'k \<Rightarrow> 'k" and kin kout :: "'k \<Rightarrow> bytes"
  assumes ctl_bytes [simp]: "kin (snd (os_ctl os oper fd ev k)) = kin k" "kout (snd (os_ctl os oper fd ev k)) = kout k"
    and idle_bytes [simp]: "kin (idle flags k) = kin k" "kout (idle flags k) = kout k"
    and recv_bytes: "os_recv os fd len k = ((n, e, d), k1) \<Longrightarrow> 0 < n \<Longrightarrow>
      int (length d) = n \<and> length d \<le> len \<and> kin k = d @ kin k1"
    and recv_nothing: "os_recv os fd len k = ((n, e, d), k1) \<Longrightarrow> n \<le> 0 \<Longrightarrow> kin k1 = kin k"
    and recv_kout: "os_recv os fd len k = ((n, e, d), k1) \<Longrightarrow> kout k1 = kout k"
    and send_bytes: "os_send os fd b k = ((n, e), k1) \<Longrightarrow> 0 < n \<Longrightarrow> nat n \<le> length b \<and> kout k1 = kout k @ take (nat n) b"
    and send_nothing: "os_send os fd b k = ((n, e), k1) \<Longrightarrow> n \<le> 0 \<Longrightarrow> kout k1 = kout k"
    and send_kin: "os_send os fd b k = ((n, e), k1) \<Longrightarrow> kin k1 = kin k"
begin

lemma ctl_kern [simp]:
  "kin (kern (snd (ctl (os_ctl os) oper fd ev s))) = kin (kern s)" "kout (kern (snd (ctl (os_ctl os) oper fd ev s))) = kout (kern s)"
  using ctl_bytes [of oper fd ev "kern s"] by (auto simp: ctl_def simp del: ctl_bytes split: prod.splits)

lemma update_kern [simp]:
  "kin (kern (update_fd_interest_unlocked (os_ctl os) fd st s)) = kin (kern s)"
  "kout (kern (update_fd_interest_unlocked (os_ctl os) fd st s)) = kout (kern s)"
proof -
  have c: "kin (kern s2) = kin (kern s1) \<and> kout (kern s2) = kout (kern s1)"
    if "ctl (os_ctl os) oper fd ev s1 = (r, s2)" for oper ev s1 r s2
    using ctl_kern [of oper fd ev s1] that by simp_all
  show "kin (kern (update_fd_interest_unlocked (os_ctl os) fd st s)) = kin (kern s)"
    "kout (kern (update_fd_interest_unlocked (os_ctl os) fd st s)) = kout (kern s)"
    by (auto simp: update_fd_interest_unlocked_def Let_def dest!: c split: prod.splits)
qed

lemma add_waiter_custom_kern [simp]:
  "kin (kern (add_waiter_custom (os_ctl os) fd m w s)) = kin (kern s)" "kout (kern (add_waiter_custom (os_ctl os) fd m w s)) = kout (kern s)"
  by (simp_all add: add_waiter_custom_def register_waiter_def Let_def)

lemma wait_for_kern [simp]:
  "kin (kern (wait_for os idle flags s)) = kin (kern s)" "kout (kern (wait_for os idle flags s)) = kout (kern s)"
  by (auto simp: wait_for_def handle_event_def take_ready_def split: option.splits prod.splits)

definition recv_inv :: "addr \<Rightarrow> nat \<Rightarrow> bool \<Rightarrow> bytes \<Rightarrow> bytes \<Rightarrow> ('k, 'b) sock_scheme \<Rightarrow> bool" where
  "recv_inv a len f bi bo s \<longleftrightarrow>
     rv_full (raw s a) = f \<and> rv_len (raw s a) = len \<and> length (rv_buf (raw s a)) = len \<and> recvd (raw s a) \<le> len \<and> rv_err (raw s a) \<le> 0 \<and>
     bi = take (recvd (raw s a)) (rv_buf (raw s a)) @ kin (kern s) \<and> bo = kout (kern s)"

lemma recv_attempt_inv:
  assumes "recv_inv a len f bi bo s" and "recv_attempt_once os a s = (r, s1)"
  shows "recv_inv a len f bi bo s1"
proof (cases "recvd (raw s a) \<ge> rv_len (raw s a)")
  case True
  then show ?thesis using assms by (auto simp: recv_attempt_once_def)
next
  case False
  obtain n e d k where c: "os_recv os (sk_fd s) (rv_len (raw s a) - recvd (raw s a)) (kern s) = ((n, e, d), k)"
    by (metis prod_cases3 surj_pair)
  show ?thesis
  proof (cases "0 < n")
    case True
    then have d: "nat n = length d" "length d \<le> len - recvd (raw s a)" "kin (kern s) = d @ kin k" "kout k = kout (kern s)"
      using recv_bytes [OF c] recv_kout [OF c] assms(1) by (auto simp: recv_inv_def)
    then show ?thesis
      using assms True False c by (auto simp: recv_attempt_once_def recv_inv_def Let_def)
  next
    case n: False
    then have "kin k = kin (kern s)" "kout k = kout (kern s)" using recv_nothing [OF c] recv_kout [OF c] by simp_all
    then show ?thesis
      using assms n False c by (auto simp: recv_attempt_once_def recv_inv_def Let_def split: if_splits)
  qed
qed

lemma await_recv_inv:
  assumes "await_loop (recv_attempt_once os) (recv_register_wait os) (wait_for os idle flags) first a s = Some s1"
    and "recv_inv a len f bi bo s"
  shows "recv_inv a len f bi bo s1"
  using assms
  by (rule await_invariant) (erule (1) recv_attempt_inv, simp_all add: recv_register_wait_def recv_inv_def)

end

context kernel_stream
begin

definition send_inv :: "addr \<Rightarrow> bytes \<Rightarrow> bytes \<Rightarrow> bytes \<Rightarrow> ('k, 'b) sock_scheme \<Rightarrow> bool" where
  "send_inv a b bi bo s \<longleftrightarrow>
     \<not> use_vec (saw s a) \<and> sd_full (saw s a) \<and> sd_buf (saw s a) = b \<and> sd_len (saw s a) = length b \<and> sent (saw s a) \<le> length b \<and>
     sd_err (saw s a) \<le> 0 \<and> kin (kern s) = bi \<and> kout (kern s) = bo @ take (sent (saw s a)) b"

lemma send_loop_inv:
  assumes "send_inv a b bi bo s" and "send_loop os a s = (r, s1)"
  shows "send_inv a b bi bo s1"
  using assms
proof (induction "length b - sent (saw s a)" arbitrary: s rule: less_induct)
  case less
  show ?case
  proof (cases "sent (saw s a) < sd_len (saw s a)")
    case False
    then have "send_loop os a s = (0, s)" by (subst send_loop.simps) (simp add: Let_def)
    then show ?thesis using less.prems by simp
  next
    case True
    obtain n e k where c: "os_send os (sk_fd s) (drop (sent (saw s a)) (sd_buf (saw s a))) (kern s) = ((n, e), k)"
      by (metis surj_pair)
    note kin = send_kin [OF c]
    let ?s1 = "s\<lparr>kern := k, sk_errno := (if n < 0 then e else sk_errno s)\<rparr>"
    show ?thesis
    proof (cases "0 < n")
      case n: True
      let ?s2 = "?s1\<lparr>saw := (saw ?s1)(a := (saw s a)\<lparr>sent := sent (saw s a) + nat n\<rparr>)\<rparr>"
      have le: "sent (saw s a) + nat n \<le> length b" and out: "kout k = kout (kern s) @ take (nat n) (drop (sent (saw s a)) b)"
        using send_bytes [OF c n] less.prems(1) by (auto simp: send_inv_def)
      have s2: "send_inv a b bi bo ?s2"
        using less.prems(1) kin le out by (simp add: send_inv_def take_add)
      have "send_loop os a s = (if sent (saw s a) + nat n = sd_len (saw s a) then (0, ?s2) else send_loop os a ?s2)"
        using True n c by (subst send_loop.simps) (simp add: Let_def)
      moreover have "length b - sent (saw ?s2 a) < length b - sent (saw s a)"
        using n True less.prems(1) by (simp add: send_inv_def)
      ultimately show ?thesis using less.hyps [OF _ s2] less.prems(2) s2 by (simp split: if_splits)
    next
      case n: False
      then have out: "kout k = kout (kern s)" using send_nothing [OF c] by simp
      have "send_loop os a s =
         (if n = 0 then (0, ?s1) else if e = EAGAIN then (if sd_full (saw s a) then - 1 else 0, ?s1) else send_failed a n e ?s1)"
        using True n c by (subst send_loop.simps) (simp add: Let_def)
      then show ?thesis
        using less.prems n kin out by (auto simp: send_failed_def send_inv_def Let_def split: if_splits)
    qed
  qed
qed

lemma send_attempt_inv:
  assumes "send_inv a b bi bo s" and "send_attempt_once os a s = (r, s1)"
  shows "send_inv a b bi bo s1"
proof -
  have "\<not> use_vec (saw s a)" using assms(1) by (simp add: send_inv_def)
  then show ?thesis using assms send_loop_inv by (simp add: send_attempt_once_def)
qed

lemma await_send_inv:
  assumes "await_loop (send_attempt_once os) (send_register_wait os) (wait_for os idle flags) first a s = Some s1"
    and "send_inv a b bi bo s"
  shows "send_inv a b bi bo s1"
  using assms
  by (rule await_invariant) (erule (1) send_attempt_inv, simp_all add: send_register_wait_def send_inv_def)

lemma sock_recv_sound:
  assumes "sock_recv os idle a len s = Some (n, d, s1)"
  shows "kin (kern s) = d @ kin (kern s1)" and "kout (kern s1) = kout (kern s)" and "length d \<le> len"
    and "n = int (length d) \<or> n < 0 \<and> d = []"
proof -
  let ?s0 = "recv_awaiter_init a (replicate len 0) len False s"
  have "recv_inv a len False (kin (kern s)) (kout (kern s)) ?s0"
    by (simp add: recv_inv_def recv_awaiter_init_def)
  moreover obtain "await_loop (recv_attempt_once os) (recv_register_wait os) (wait_for os idle EPOLLIN) True a ?s0 = Some s1"
    and n: "n = recv_await_resume a s1" "d = take (recvd (raw s1 a)) (rv_buf (raw s1 a))"
    using assms by (auto simp: sock_recv_def)
  ultimately have "recv_inv a len False (kin (kern s)) (kout (kern s)) s1" by (blast intro: await_recv_inv)
  then show "kin (kern s) = d @ kin (kern s1)" and "kout (kern s1) = kout (kern s)" and "length d \<le> len"
    and "n = int (length d) \<or> n < 0 \<and> d = []"
    using n by (auto simp: recv_inv_def recv_await_resume_def Let_def)
qed

lemma sock_send_sound:
  assumes "sock_send_all os idle a b s = Some (n, s1)"
  shows "kin (kern s1) = kin (kern s)"
    and "\<exists>k\<le>length b. kout (kern s1) = kout (kern s) @ take k b \<and> (n = int k \<or> n < 0 \<and> k = 0)"
proof -
  let ?s0 = "send_awaiter_init a b True s"
  have "send_inv a b (kin (kern s)) (kout (kern s)) ?s0"
    by (simp add: send_inv_def send_awaiter_init_def)
  moreover obtain "await_loop (send_attempt_once os) (send_register_wait os) (wait_for os idle EPOLLOUT) True a ?s0 = Some s1"
    and n: "n = send_await_resume a s1"
    using assms by (auto simp: sock_send_all_def)
  ultimately have "send_inv a b (kin (kern s)) (kout (kern s)) s1" by (blast intro: await_send_inv)
  then show "kin (kern s1) = kin (kern s)"
    and "\<exists>k\<le>length b. kout (kern s1) = kout (kern s) @ take k b \<and> (n = int k \<or> n < 0 \<and> k = 0)"
    using n by (auto simp: send_inv_def send_await_resume_def Let_def)
qed

end

text \<open>A stream socket over such a kernel is a socket in the sense of the protocol code.\<close>

sublocale kernel_stream \<subseteq> sk: stream_sock "sock_recv os idle a" "sock_send_all os idle a'" "\<lambda>s. kin (kern s)" "\<lambda>s. kout (kern s)" for a a'
proof
  fix len s n d s1
  assume r: "sock_recv os idle a len s = Some (n, d, s1)"
  show "0 < n \<Longrightarrow> int (length d) = n \<and> length d \<le> len \<and> kin (kern s) = d @ kin (kern s1)"
    using sock_recv_sound [OF r] by auto
  show "n \<le> 0 \<Longrightarrow> kin (kern s1) = kin (kern s)" and "kout (kern s1) = kout (kern s)"
    using sock_recv_sound [OF r] by auto
next
  fix b s n s1
  assume r: "sock_send_all os idle a' b s = Some (n, s1)"
  show "\<exists>k\<le>length b. kout (kern s1) = kout (kern s) @ take k b \<and> (n = int k \<or> n < 0 \<and> k = 0)"
    and "kin (kern s1) = kin (kern s)"
    using sock_send_sound [OF r] by auto
qed

section \<open>Connections without failures\<close>

lemma update_kern_pred:
  assumes "\<And>oper fd ev k. P k \<Longrightarrow> P (snd (c oper fd ev k))" and "P (kern s)"
  shows "P (kern (update_fd_interest_unlocked c fd st s))"
proof -
  have c: "P (kern (snd (ctl c oper fd ev s1)))" if "P (kern s1)" for oper ev and s1 :: "('a, 'b) epr_scheme"
    using assms(1) [OF that, of oper fd ev] by (simp add: ctl_def case_prod_beta)
  show ?thesis
    using assms(2) by (simp add: update_fd_interest_unlocked_def Let_def case_prod_beta c)
qed

text \<open>
  A kernel that reports no errors: \<^verbatim>\<open>recv\<close> gives bytes, or 0 at the end of the stream, or would block; after the wait for
  an event (\<open>woken\<close>) the next call does not block.
\<close>

locale reliable_kernel = kernel_stream os idle kin kout
  for os :: "'k os" and idle :: "32 word \<Rightarrow> 'k \<Rightarrow> 'k" and kin kout :: "'k \<Rightarrow> bytes" +
  fixes woken :: "32 word \<Rightarrow> 'k \<Rightarrow> bool"
  assumes woken_idle: "woken flags (idle flags k)"
    and woken_ctl: "woken flags k \<Longrightarrow> woken flags (snd (os_ctl os oper fd ev k))"
    and recv_outcome: "os_recv os fd len k = ((n, e, d), k1) \<Longrightarrow> 0 < len \<Longrightarrow>
      0 < n \<or> n = 0 \<and> kin k = [] \<or> n < 0 \<and> e = EAGAIN \<and> \<not> woken EPOLLIN k"
    and send_outcome: "os_send os fd b k = ((n, e), k1) \<Longrightarrow> b \<noteq> [] \<Longrightarrow>
      0 < n \<or> n < 0 \<and> e = EAGAIN \<and> \<not> woken EPOLLOUT k"
begin

lemma woken_wait: "woken flags (kern (wait_for os idle flags s))"
  by (auto simp: wait_for_def handle_event_def take_ready_def woken_idle split: option.splits
      intro!: update_kern_pred [where P = "woken flags"] woken_ctl)

lemma recv_ready:
  assumes "recv_inv a len False bi bo s" and "0 < len" and "recvd (raw s a) = 0"
    and "recv_attempt_once os a s = (r, s1)"
  shows "r = 0 \<and> (0 < recvd (raw s1 a) \<or> bi = [] \<and> recvd (raw s1 a) = 0 \<and> rv_err (raw s1 a) = rv_err (raw s a)) \<or>
    r = - 1 \<and> raw s1 = raw s \<and> \<not> woken EPOLLIN (kern s)"
proof -
  obtain n e d k where c: "os_recv os (sk_fd s) len (kern s) = ((n, e, d), k)"
    by (metis prod_cases3 surj_pair)
  show ?thesis
    using recv_outcome [OF c assms(2)] c assms
    by (auto simp: recv_attempt_once_def recv_inv_def Let_def split: if_splits)
qed

lemma sock_recv_completes:
  assumes "0 < len"
  shows "\<exists>n d s1. sock_recv os idle a len s = Some (n, d, s1) \<and> (if kin (kern s) = [] then n = 0 else 0 < n)"
proof -
  let ?aw = "\<lambda>first. await_loop (recv_attempt_once os) (recv_register_wait os) (wait_for os idle EPOLLIN) first a"
  let ?bi = "kin (kern s)" and ?bo = "kout (kern s)"
  let ?I = "\<lambda>s0. recv_inv a len False ?bi ?bo s0 \<and> recvd (raw s0 a) = 0 \<and> rv_err (raw s0 a) = 0"
  let ?R = "\<lambda>s1. if ?bi = [] then recv_await_resume a s1 = 0 else 0 < recv_await_resume a s1"
  have fin: "\<exists>s2. ?aw first s0 = Some s2 \<and> ?R s2"
    if I: "?I s0" and att: "recv_attempt_once os a s0 = (0, s1)" for first s0 s1
  proof -
    have "recv_inv a len False ?bi ?bo s1" using recv_attempt_inv I att by blast
    then have "?R (drain_done a s1)"
      using recv_ready [OF _ assms _ att] I by (auto simp: recv_await_resume_def recv_inv_def Let_def)
    then show ?thesis using await_done [of "recv_attempt_once os" a s0 s1, OF att] by blast
  qed
  have "\<exists>s2. ?aw True (recv_awaiter_init a (replicate len 0) len False s) = Some s2 \<and> ?R s2"
  proof -
    let ?s0 = "recv_awaiter_init a (replicate len 0) len False s"
    have I: "?I ?s0" by (simp add: recv_inv_def recv_awaiter_init_def)
    obtain r s1 where att: "recv_attempt_once os a ?s0 = (r, s1)" by fastforce
    show ?thesis
    proof (cases "r = 0")
      case True
      then show ?thesis using fin [OF I] att by simp
    next
      case False
      then have r: "r = - 1" "raw s1 = raw ?s0" using recv_ready [OF _ assms _ att] I by blast+
      let ?s2 = "wait_for os idle EPOLLIN (recv_register_wait os a True (s1\<lparr>func := (func s1)(a := Code Drive_cb)\<rparr>))"
      have "?I ?s2"
        using I recv_attempt_inv [OF _ att] r by (auto simp: recv_inv_def recv_register_wait_def)
      moreover obtain r' s3 where att2: "recv_attempt_once os a ?s2 = (r', s3)" by fastforce
      moreover have "r' = 0"
        using recv_ready [OF _ assms _ att2] calculation(1) woken_wait by blast
      ultimately obtain s4 where "?aw False ?s2 = Some s4 \<and> ?R s4" using fin by blast
      moreover have "?aw True ?s0 = ?aw False ?s2"
        using r by (intro await_blocked [of "recv_attempt_once os" a ?s0 r s1, OF att]) (simp_all add: recv_register_wait_def)
      ultimately show ?thesis by auto
    qed
  qed
  then show ?thesis by (auto simp: sock_recv_def)
qed

end

context reliable_kernel
begin

lemma send_loop_progress:
  assumes "send_inv a b bi bo s" and "send_loop os a s = (r, s1)"
  shows "sd_err (saw s1 a) = sd_err (saw s a) \<and>
    (r = 0 \<and> sent (saw s1 a) = length b \<or>
     r = - 1 \<and> sent (saw s a) \<le> sent (saw s1 a) \<and> (woken EPOLLOUT (kern s) \<longrightarrow> sent (saw s a) < sent (saw s1 a)))"
  using assms
proof (induction "length b - sent (saw s a)" arbitrary: s rule: less_induct)
  case less
  have inv: "sent (saw s a) \<le> length b" "sd_len (saw s a) = length b" "sd_buf (saw s a) = b" "sd_full (saw s a)"
    using less.prems(1) by (simp_all add: send_inv_def)
  show ?case
  proof (cases "sent (saw s a) < length b")
    case False
    then have "send_loop os a s = (0, s)" using inv by (subst send_loop.simps) (simp add: Let_def)
    then show ?thesis using less.prems inv False by simp
  next
    case True
    obtain n e k where c: "os_send os (sk_fd s) (drop (sent (saw s a)) b) (kern s) = ((n, e), k)"
      by (metis surj_pair)
    let ?s1 = "s\<lparr>kern := k, sk_errno := (if n < 0 then e else sk_errno s)\<rparr>"
    show ?thesis
    proof (cases "0 < n")
      case n: True
      let ?s2 = "?s1\<lparr>saw := (saw ?s1)(a := (saw s a)\<lparr>sent := sent (saw s a) + nat n\<rparr>)\<rparr>"
      have step: "send_loop os a s = (if sent (saw s a) + nat n = length b then (0, ?s2) else send_loop os a ?s2)"
        using True n c inv by (subst send_loop.simps) (simp add: Let_def)
      have inv2: "send_inv a b bi bo ?s2"
        using less.prems(1) send_kin [OF c] send_bytes [OF c n] by (auto simp: send_inv_def take_add)
      show ?thesis
      proof (cases "sent (saw s a) + nat n = length b")
        case eq: True
        then show ?thesis using step less.prems(2) by auto
      next
        case ne: False
        have "send_loop os a ?s2 = (r, s1)" using step less.prems(2) ne by simp
        moreover have "length b - sent (saw ?s2 a) < length b - sent (saw s a)" using n True by simp
        ultimately show ?thesis using less.hyps [OF _ inv2] n by fastforce
      qed
    next
      case n: False
      then have "n < 0" "e = EAGAIN" "\<not> woken EPOLLOUT (kern s)" using send_outcome [OF c] True by auto
      moreover have "send_loop os a s = (- 1, ?s1)"
        using True n c inv calculation by (subst send_loop.simps) (simp add: Let_def)
      ultimately show ?thesis using less.prems(2) by auto
    qed
  qed
qed

lemma await_send_completes:
  assumes "send_inv a b bi bo s" and "sd_err (saw s a) = 0" and "woken EPOLLOUT (kern s)"
  shows "\<exists>s1. await_loop (send_attempt_once os) (send_register_wait os) (wait_for os idle EPOLLOUT) first a s = Some s1
    \<and> sent (saw s1 a) = length b \<and> sd_err (saw s1 a) = 0"
  using assms
proof (induction "length b - sent (saw s a)" arbitrary: s first rule: less_induct)
  case less
  obtain r s1 where att: "send_attempt_once os a s = (r, s1)" by fastforce
  then have "send_loop os a s = (r, s1)" using less.prems(1) by (simp add: send_attempt_once_def send_inv_def)
  from send_loop_progress [OF less.prems(1) this] less.prems(2,3)
  consider "r = 0" "sent (saw s1 a) = length b" "sd_err (saw s1 a) = 0"
    | "r = - 1" "sent (saw s a) < sent (saw s1 a)" "sd_err (saw s1 a) = 0" by auto
  then show ?case
  proof cases
    case 1
    then show ?thesis using await_done [of "send_attempt_once os" a s s1] att by auto
  next
    case 2
    let ?s2 = "wait_for os idle EPOLLOUT (send_register_wait os a first (s1\<lparr>func := (func s1)(a := Code Drive_cb)\<rparr>))"
    have "send_inv a b bi bo s1" by (rule send_attempt_inv [OF less.prems(1) att])
    then have "send_inv a b bi bo ?s2" and le: "sent (saw s1 a) \<le> length b"
      by (simp_all add: send_inv_def send_register_wait_def)
    moreover have "length b - sent (saw ?s2 a) < length b - sent (saw s a)"
      using 2 le by (simp add: send_register_wait_def)
    moreover have "sd_err (saw ?s2 a) = 0" using 2 by (simp add: send_register_wait_def)
    ultimately obtain s3 where "await_loop (send_attempt_once os) (send_register_wait os) (wait_for os idle EPOLLOUT) False a ?s2 = Some s3
      \<and> sent (saw s3 a) = length b \<and> sd_err (saw s3 a) = 0"
      using less.hyps woken_wait by blast
    moreover have "await_loop (send_attempt_once os) (send_register_wait os) (wait_for os idle EPOLLOUT) first a s =
        await_loop (send_attempt_once os) (send_register_wait os) (wait_for os idle EPOLLOUT) False a ?s2"
      using 2 by (intro await_blocked [of "send_attempt_once os" a s r s1, OF att]) (simp_all add: send_register_wait_def)
    ultimately show ?thesis by simp
  qed
qed

lemma sock_send_completes: "\<exists>s1. sock_send_all os idle a b s = Some (int (length b), s1)"
proof -
  let ?s0 = "send_awaiter_init a b True s"
  let ?aw = "\<lambda>first. await_loop (send_attempt_once os) (send_register_wait os) (wait_for os idle EPOLLOUT) first a"
  have inv: "send_inv a b (kin (kern s)) (kout (kern s)) ?s0" "sd_err (saw ?s0 a) = 0"
    by (simp_all add: send_inv_def send_awaiter_init_def)
  obtain r s1 where att: "send_attempt_once os a ?s0 = (r, s1)" by fastforce
  then have "send_loop os a ?s0 = (r, s1)" by (simp add: send_attempt_once_def send_awaiter_init_def)
  from send_loop_progress [OF inv(1) this] inv(2)
  consider "r = 0" "sent (saw s1 a) = length b" "sd_err (saw s1 a) = 0" | "r = - 1" "sd_err (saw s1 a) = 0" by auto
  then have "\<exists>s2. ?aw True ?s0 = Some s2 \<and> sent (saw s2 a) = length b \<and> sd_err (saw s2 a) = 0"
  proof cases
    case 1
    then show ?thesis using await_done [of "send_attempt_once os" a ?s0 s1] att by auto
  next
    case 2
    let ?s2 = "wait_for os idle EPOLLOUT (send_register_wait os a True (s1\<lparr>func := (func s1)(a := Code Drive_cb)\<rparr>))"
    have "send_inv a b (kin (kern s)) (kout (kern s)) s1" by (rule send_attempt_inv [OF inv(1) att])
    then have "send_inv a b (kin (kern s)) (kout (kern s)) ?s2" "sd_err (saw ?s2 a) = 0"
      using 2 by (simp_all add: send_inv_def send_register_wait_def)
    from await_send_completes [OF this woken_wait]
    show ?thesis
      using 2 await_blocked [of "send_attempt_once os" a ?s0 r s1, OF att]
      by (simp add: send_register_wait_def)
  qed
  then obtain s2 where "?aw True ?s0 = Some s2" "sent (saw s2 a) = length b" "sd_err (saw s2 a) = 0" by blast
  then show ?thesis by (intro exI [of _ s2]) (simp add: sock_send_all_def send_await_resume_def Let_def)
qed

end

sublocale reliable_kernel \<subseteq> rsk: reliable_sock "sock_recv os idle a" "sock_send_all os idle a'" "\<lambda>s. kin (kern s)" "\<lambda>s. kout (kern s)" for a a'
proof
  fix len :: nat and s :: "('k, 'z) sock_scheme"
  assume len: "0 < len"
  show "kin (kern s) \<noteq> [] \<Longrightarrow> \<exists>n d s1. sock_recv os idle a len s = Some (n, d, s1) \<and> 0 < n"
    using sock_recv_completes [OF len, of a s] by auto
  show "kin (kern s) = [] \<Longrightarrow> \<exists>d s1. sock_recv os idle a len s = Some (0, d, s1)"
    using sock_recv_completes [OF len, of a s] by auto
next
  show "\<exists>s1. sock_send_all os idle a' b s = Some (int (length b), s1)" for b s
    by (rule sock_send_completes)
qed

context reliable_kernel
begin

lemmas socket_reliable = rsk.reliable_sock_axioms

end

section \<open>A concrete kernel\<close>

text \<open>
  A connection whose input arrives in non-empty segments with pauses between them (\<open>None\<close>: the next call would block)
  and whose output is accepted two bytes at a time.
\<close>

record seg_kernel =
  inq :: "(8 word \<times> bytes) option list"
  outq :: bytes
  busy :: bool

fun seg_bytes :: "(8 word \<times> bytes) option list \<Rightarrow> bytes" where
  "seg_bytes [] = []"
| "seg_bytes (None # q) = seg_bytes q"
| "seg_bytes (Some (x, xs) # q) = x # xs @ seg_bytes q"

fun seg_take :: "nat \<Rightarrow> (8 word \<times> bytes) option list \<Rightarrow> (int \<times> int \<times> bytes) \<times> (8 word \<times> bytes) option list" where
  "seg_take len [] = ((0, 0, []), [])"
| "seg_take len (None # q) = ((- 1, EAGAIN, []), None # q)"
| "seg_take len (Some (x, xs) # q) =
     ((int (length (take len (x # xs))), 0, take len (x # xs)),
      (case drop len (x # xs) of [] \<Rightarrow> q | y # ys \<Rightarrow> Some (y, ys) # q))"

definition seg_idle :: "32 word \<Rightarrow> seg_kernel \<Rightarrow> seg_kernel" where
  "seg_idle flags k =
     (if flags = EPOLLIN then k\<lparr>inq := dropWhile (\<lambda>x. x = None) (inq k)\<rparr>
      else if flags = EPOLLOUT then k\<lparr>busy := False\<rparr> else k)"

definition seg_woken :: "32 word \<Rightarrow> seg_kernel \<Rightarrow> bool" where
  "seg_woken flags k \<longleftrightarrow>
     (flags = EPOLLIN \<longrightarrow> (\<forall>q. inq k \<noteq> None # q)) \<and> (flags = EPOLLOUT \<longrightarrow> \<not> busy k)"

definition seg_os :: "seg_kernel os" where
  "seg_os =
     \<lparr>os_ctl = (\<lambda>oper fd ev k. ((0, 0), k)), os_socket = (\<lambda>d t p k. (5, k)), os_set_non_block = (\<lambda>fd k. k),
      os_getsockname = (\<lambda>fd k. Some AF_INET), os_close = (\<lambda>fd k. k), os_shutdown_wr = (\<lambda>fd k. k),
      os_connect = (\<lambda>fd ad k. ((- 1, EINPROGRESS), k)), os_so_error = (\<lambda>fd k. (0, 0)),
      os_recv = (\<lambda>fd len k. case seg_take len (inq k) of (r, q) \<Rightarrow> (r, k\<lparr>inq := q\<rparr>)),
      os_send = (\<lambda>fd b k. if busy k then ((- 1, EAGAIN), k)
                          else ((int (min 2 (length b)), 0), k\<lparr>outq := outq k @ take 2 b, busy := True\<rparr>)),
      os_writev = (\<lambda>fd v k. ((0, 0), k)), os_recvfrom = (\<lambda>fd len k. ((0, 0, [], []), k)), os_sendto = (\<lambda>fd v d k. ((0, 0), k))\<rparr>"

lemma seg_take_sound:
  assumes "seg_take len q = ((n, e, d), q1)"
  shows "seg_bytes q = d @ seg_bytes q1 \<and> length d \<le> len \<and> (0 \<le> n \<longrightarrow> n = int (length d)) \<and> (n \<le> 0 \<longrightarrow> d = [])
    \<and> (0 < len \<longrightarrow> 0 < n \<or> n = 0 \<and> seg_bytes q = [] \<or> n < 0 \<and> e = EAGAIN \<and> (\<exists>q2. q = None # q2))"
  using assms
proof (induction len q rule: seg_take.induct)
  case (3 len x xs q)
  have d: "d = take len (x # xs)" "n = int (length d)" "e = 0"
    and q1: "q1 = (case drop len (x # xs) of [] \<Rightarrow> q | y # ys \<Rightarrow> Some (y, ys) # q)" using 3 by auto
  have q: "seg_bytes q1 = drop len (x # xs) @ seg_bytes q"
    by (cases "drop len (x # xs)") (simp_all only: q1 list.case seg_bytes.simps append.simps)
  have "seg_bytes (Some (x, xs) # q) = (x # xs) @ seg_bytes q" by simp
  also have "\<dots> = d @ seg_bytes q1" unfolding q d(1) by (metis append.assoc append_take_drop_id)
  finally show ?case using d by (auto simp: min_def)
qed auto

interpretation seg: reliable_kernel seg_os seg_idle "\<lambda>k. seg_bytes (inq k)" outq seg_woken
proof
  have idle: "seg_bytes (dropWhile (\<lambda>x. x = None) q) = seg_bytes q" for q
    by (induction q rule: seg_bytes.induct) auto
  have nd: "dropWhile (\<lambda>x. x = None) q \<noteq> None # q'" for q q' :: "(8 word \<times> bytes) option list"
    by (simp add: dropWhile_eq_Cons_conv)
  show "seg_bytes (inq (seg_idle flags k)) = seg_bytes (inq k)" for flags k
    by (simp add: seg_idle_def idle)
  show "seg_woken flags (seg_idle flags k)" for flags k
    using nd [of "inq k"] by (auto simp: seg_woken_def seg_idle_def EPOLLIN_def EPOLLOUT_def)
  fix fd len k n e d k1
  assume "os_recv seg_os fd len k = ((n, e, d), k1)"
  then have t: "seg_take len (inq k) = ((n, e, d), inq k1)" "outq k1 = outq k"
    by (auto simp: seg_os_def split: prod.splits)
  note s = seg_take_sound [OF t(1)]
  show "0 < n \<Longrightarrow> int (length d) = n \<and> length d \<le> len \<and> seg_bytes (inq k) = d @ seg_bytes (inq k1)"
    and "n \<le> 0 \<Longrightarrow> seg_bytes (inq k1) = seg_bytes (inq k)" and "outq k1 = outq k"
    and "0 < len \<Longrightarrow> 0 < n \<or> n = 0 \<and> seg_bytes (inq k) = [] \<or> n < 0 \<and> e = EAGAIN \<and> \<not> seg_woken EPOLLIN k"
    using s t(2) by (auto simp: seg_woken_def)
qed (auto simp: seg_os_def seg_idle_def seg_woken_def min_def split: if_splits)

definition demo_sock :: "(8 word \<times> bytes) option list \<Rightarrow> seg_kernel sock" where
  "demo_sock q =
     epr.extend (cbq.extend demo_cbq (epr.fields Map.empty \<lparr>inq = q, outq = [], busy = False\<rparr>))
       (sock.fields 5 False AF_INET 30 31 False False 0
          (\<lambda>_. \<lparr>rv_full = False, rv_buf = [], rv_len = 0, recvd = 0, rv_err = 0\<rparr>)
          (\<lambda>_. \<lparr>sd_full = False, sd_buf = [], sd_len = 0, sd_vec = [], use_vec = False, sent = 0, sd_err = 0\<rparr>)
          (\<lambda>_. \<lparr>dr_buf = [], dr_len = 0, out_addr = [], nread = - 1\<rparr>)
          (\<lambda>_. \<lparr>ds_use_vec = False, ds_dest = None, ds_buf = [], ds_vec = [], nsent = 0\<rparr>)
          (\<lambda>_. \<lparr>c_ret = 0, c_timed_out = False\<rparr>))"

lemma demo_sock_kern [simp]: "kern (demo_sock q) = \<lparr>inq = q, outq = [], busy = False\<rparr>"
  by (simp add: demo_sock_def epr.defs cbq.defs sock.defs)

section \<open>Properties\<close>

text \<open>
  C6: Over any kernel that behaves as documented, \<open>recv\<close> gives the next bytes of the stream, at most as many as asked
  for, and loses none; \<open>send_all\<close> hands a prefix of its argument to the kernel and returns its length, or a negative error
  when nothing was sent. (It may return less than the length when an error follows a partial write.)
\<close>

theorem stream_io_in_order:
  assumes "kernel_stream os idle kin kout"
    and "sock_recv os idle a len s = Some (n, d, s1)"
    and "sock_send_all os idle a' b s1 = Some (m, s2)"
  shows "kin (kern s) = d @ kin (kern s2) \<and> length d \<le> len \<and> (n = int (length d) \<or> n < 0 \<and> d = []) \<and>
    (\<exists>k\<le>length b. kout (kern s2) = kout (kern s) @ take k b \<and> (m = int k \<or> m < 0 \<and> k = 0))"
  using kernel_stream.sock_recv_sound [OF assms(1,2)] kernel_stream.sock_send_sound [OF assms(1,3)] by simp

theorem stream_io_in_order_witness:
  "\<exists>n d s1 m s2. sock_recv seg_os seg_idle 40 4 (demo_sock [None, Some (1, [2])]) = Some (n, d, s1) \<and>
     sock_send_all seg_os seg_idle 41 [7, 8, 9] s1 = Some (m, s2) \<and> length d \<le> 4 \<and> [1, 2] = d @ seg_bytes (inq (kern s2))"
proof -
  obtain n d s1 where r: "sock_recv seg_os seg_idle 40 4 (demo_sock [None, Some (1, [2])]) = Some (n, d, s1)"
    using seg.sock_recv_completes [of 4] by (metis zero_less_numeral)
  obtain m s2 where w: "sock_send_all seg_os seg_idle 41 [7, 8, 9] s1 = Some (m, s2)"
    using seg.sock_send_completes by blast
  show ?thesis
    using stream_io_in_order [OF seg.kernel_stream_axioms r w] r w by auto
qed



end
