(* ===== verification/Websocket.thy ===== *)
theory Websocket
  imports Stream_Socket
begin

text \<open>
  Frames and messages of \<^verbatim>\<open>net/websocket.hpp\<close>: \<open>read_frame\<close>, \<open>send_frame\<close>, \<open>read_message\<close> and the \<open>send_*\<close> helpers.

  The functions of the source are coroutines over a socket of any type; here they take the socket's operations as
  arguments (\<^verbatim>\<open>recv\<close>, \<^verbatim>\<open>send_all\<close>) and pass its state. \<open>frame_result\<close> and \<open>message_result\<close> are sums: \<open>Inl\<close> is \<open>ok = false\<close>
  with \<open>error\<close>, \<open>Inr\<close> is \<open>ok = true\<close> with \<open>value\<close>. \<open>std::random_device\<close> is the argument \<open>rnd\<close>.
\<close>

unbundle bit_operations_syntax

section \<open>Data\<close>

text \<open>
  The enumeration has a fixed underlying type, so \<open>static_cast<opcode>\<close> of any nibble is a value of it:
  \<open>Reserved\<close> holds those without an enumerator.
\<close>

datatype opcode = Continuation | Text | Binary | Close_frame | Ping | Pong | Reserved "8 word"

fun opcode_byte :: "opcode \<Rightarrow> 8 word" where
  "opcode_byte Continuation = 0x0"
| "opcode_byte Text = 0x1"
| "opcode_byte Binary = 0x2"
| "opcode_byte Close_frame = 0x8"
| "opcode_byte Ping = 0x9"
| "opcode_byte Pong = 0xA"
| "opcode_byte (Reserved w) = w"

definition opcode_of :: "8 word \<Rightarrow> opcode" where
  "opcode_of w =
     (if w = 0x0 then Continuation else if w = 0x1 then Text else if w = 0x2 then Binary
      else if w = 0x8 then Close_frame else if w = 0x9 then Ping else if w = 0xA then Pong else Reserved w)"

record frame =
  fin :: bool
  rsv1 :: bool
  rsv2 :: bool
  rsv3 :: bool
  fr_op :: opcode
  masked :: bool
  masking_key :: "32 word"
  fr_payload :: bytes

record frame_read_options =
  max_frame_size :: "64 word"
  require_masked_client :: bool
  auto_unmask :: bool

record message =
  msg_op :: opcode
  msg_payload :: bytes
  msg_closed :: bool
  close_code :: "16 word"
  close_reason :: bytes

record message_read_options = frame_read_options +
  respond_to_ping :: bool

record send_options =
  so_fin :: bool
  so_mask :: bool
  so_masking_key :: "32 word option"

text \<open>The error numbers of Linux that the functions return negated.\<close>

definition EPROTO :: int where "EPROTO = 71"
definition EMSGSIZE :: int where "EMSGSIZE = 90"

section \<open>Reading a frame\<close>

text \<open>The loop that fills an array of \<open>len\<close> bytes; it occurs five times in \<open>read_frame\<close>.\<close>

function recv_loop ::
  "'s recv_op \<Rightarrow> nat \<Rightarrow> nat \<Rightarrow> bytes \<Rightarrow> 's \<Rightarrow> ((int + bytes) \<times> 's) option" where
  "recv_loop recv len idx buf s =
     (if idx < len
      then case recv (len - idx) s of
             None \<Rightarrow> None
           | Some (n, d, s1) \<Rightarrow>
               if n \<le> 0 then Some (Inl (if n = 0 then - ECONNRESET else n), s1)
               else recv_loop recv len (idx + nat n) (buf_write idx (take (nat n) d) buf) s1
      else Some (Inr buf, s))"
  by auto
termination
  by (relation "measure (\<lambda>(recv, len, idx, buf, s). len - idx)") auto

declare recv_loop.simps [simp del]

definition recv_array :: "'s recv_op \<Rightarrow> nat \<Rightarrow> 's \<Rightarrow> ((int + bytes) \<times> 's) option" where
  "recv_array recv len s = recv_loop recv len 0 (replicate len 0) s"

text \<open>Sequencing with the early \<open>co_return\<close> of an error.\<close>

definition and_then ::
  "((int + 'a) \<times> 's) option \<Rightarrow> ('a \<Rightarrow> 's \<Rightarrow> ((int + 'b) \<times> 's) option) \<Rightarrow> ((int + 'b) \<times> 's) option" where
  "and_then m f =
     (case m of
        None \<Rightarrow> None
      | Some (Inl e, s) \<Rightarrow> Some (Inl e, s)
      | Some (Inr x, s) \<Rightarrow> f x s)"

definition len16_of :: "bytes \<Rightarrow> 64 word" where
  "len16_of b = push_bit 8 (ucast (b ! 0)) OR ucast (b ! 1)"

definition acc_byte :: "64 word \<Rightarrow> 8 word \<Rightarrow> 64 word" where
  "acc_byte acc byte = push_bit 8 acc OR ucast byte"

definition len64_of :: "bytes \<Rightarrow> 64 word" where
  "len64_of b = foldl acc_byte 0 b"

definition read_payload_len :: "'s recv_op \<Rightarrow> 64 word \<Rightarrow> 's \<Rightarrow> ((int + 64 word) \<times> 's) option" where
  "read_payload_len recv len7 s =
     (if len7 = 126 then and_then (recv_array recv 2 s) (\<lambda>ext16 s1. Some (Inr (len16_of ext16), s1))
      else if len7 = 127 then and_then (recv_array recv 8 s) (\<lambda>ext64 s1. Some (Inr (len64_of ext64), s1))
      else Some (Inr len7, s))"

definition key_of :: "bytes \<Rightarrow> 32 word" where
  "key_of b = push_bit 24 (ucast (b ! 0)) OR push_bit 16 (ucast (b ! 1)) OR push_bit 8 (ucast (b ! 2)) OR ucast (b ! 3)"

definition read_mask_key ::
  "'s recv_op \<Rightarrow> 'o frame_read_options_scheme \<Rightarrow> bool \<Rightarrow> 's \<Rightarrow> ((int + 32 word) \<times> 's) option" where
  "read_mask_key recv opts has_mask s =
     (if has_mask then and_then (recv_array recv 4 s) (\<lambda>mask_buf s1. Some (Inr (key_of mask_buf), s1))
      else if require_masked_client opts then Some (Inl (- EPROTO), s)
      else Some (Inr 0, s))"

definition key_bytes :: "32 word \<Rightarrow> bytes" where
  "key_bytes k =
     [ucast (drop_bit 24 k AND 0xFF), ucast (drop_bit 16 k AND 0xFF), ucast (drop_bit 8 k AND 0xFF), ucast (k AND 0xFF)]"

definition xor_mask :: "bytes \<Rightarrow> bytes \<Rightarrow> bytes" where
  "xor_mask mask_bytes p = map2 (\<lambda>i b. b XOR mask_bytes ! (i mod 4)) [0..<length p] p"

definition frame_value :: "'o frame_read_options_scheme \<Rightarrow> 8 word \<Rightarrow> bool \<Rightarrow> 32 word \<Rightarrow> bytes \<Rightarrow> frame" where
  "frame_value opts b0 has_mask key p =
     \<lparr>fin = b0 AND 0x80 \<noteq> 0, rsv1 = b0 AND 0x40 \<noteq> 0, rsv2 = b0 AND 0x20 \<noteq> 0, rsv3 = b0 AND 0x10 \<noteq> 0,
      fr_op = opcode_of (b0 AND 0x0F), masked = has_mask, masking_key = (if has_mask then key else 0),
      fr_payload = (if has_mask \<and> auto_unmask opts then xor_mask (key_bytes key) p else p)\<rparr>"

definition read_frame ::
  "'s recv_op \<Rightarrow> 'o frame_read_options_scheme \<Rightarrow> 's \<Rightarrow> ((int + frame) \<times> 's) option" where
  "read_frame recv opts s =
     and_then (recv_array recv 2 s) (\<lambda>header_buf s1.
       let b0 = header_buf ! 0; b1 = header_buf ! 1; has_mask = (b1 AND 0x80 \<noteq> 0)
       in if b0 AND 0x40 \<noteq> 0 \<or> b0 AND 0x20 \<noteq> 0 \<or> b0 AND 0x10 \<noteq> 0 then Some (Inl (- EPROTO), s1)
          else and_then (read_payload_len recv (ucast (b1 AND 0x7F)) s1) (\<lambda>payload_len s2.
            if payload_len > max_frame_size opts then Some (Inl (- EMSGSIZE), s2)
            else and_then (read_mask_key recv opts has_mask s2) (\<lambda>key s3.
              and_then (recv_array recv (unat payload_len) s3) (\<lambda>p s4.
                Some (Inr (frame_value opts b0 has_mask key p), s4)))))"

section \<open>Sending a frame\<close>

definition length_bytes :: "8 word \<Rightarrow> 64 word \<Rightarrow> bytes" where
  "length_bytes mask_bit n =
     (if n \<le> 125 then [mask_bit OR ucast n]
      else if n \<le> 0xFFFF then [mask_bit OR 126, ucast (drop_bit 8 n AND 0xFF), ucast (n AND 0xFF)]
      else (mask_bit OR 127) # map (\<lambda>i. ucast (drop_bit (56 - i * 8) n AND 0xFF)) [0..<8])"

definition frame_header :: "opcode \<Rightarrow> 64 word \<Rightarrow> send_options \<Rightarrow> 32 word \<Rightarrow> bytes" where
  "frame_header oc n opts key =
     [(if so_fin opts then 0x80 else 0x00) OR opcode_byte oc]
     @ length_bytes (if so_mask opts then 0x80 else 0x00) n
     @ (if so_mask opts then key_bytes key else [])"

definition send_frame ::
  "'s send_op \<Rightarrow> 32 word \<Rightarrow> opcode \<Rightarrow> bytes \<Rightarrow> send_options \<Rightarrow> 's \<Rightarrow> 's option" where
  "send_frame send_all rnd oc p opts s =
     (let key = (case so_masking_key opts of Some k \<Rightarrow> k | None \<Rightarrow> rnd)
      in case send_all (frame_header oc (of_nat (length p)) opts key) s of
           None \<Rightarrow> None
         | Some (n, s1) \<Rightarrow>
             if n < 0 then Some s1
             else if p = [] then Some s1
             else map_option snd (send_all (if so_mask opts then xor_mask (key_bytes key) p else p) s1))"

section \<open>Reading a message\<close>

definition default_message :: message where
  "default_message = \<lparr>msg_op = Text, msg_payload = [], msg_closed = False, close_code = 1000, close_reason = []\<rparr>"

definition plain_send :: send_options where
  "plain_send = \<lparr>so_fin = True, so_mask = False, so_masking_key = None\<rparr>"

definition close_message :: "bytes \<Rightarrow> message" where
  "close_message p =
     (let m = default_message\<lparr>msg_closed := True\<rparr>
      in if length p \<ge> 2
         then m\<lparr>close_code := push_bit 8 (ucast (p ! 0)) OR ucast (p ! 1),
                close_reason := (if length p > 2 then drop 2 p else [])\<rparr>
         else m)"

text \<open>
  The \<open>for (;;)\<close> loop; \<open>cur\<close>, \<open>started\<close> and \<open>buffer\<close> are its locals. A peer that sends pings for ever keeps it
  running, hence \<open>partial_function\<close>.
\<close>

partial_function (option) read_message_loop ::
  "'s recv_op \<Rightarrow> 's send_op \<Rightarrow> 32 word \<Rightarrow> 'o message_read_options_scheme \<Rightarrow> opcode \<Rightarrow> bool \<Rightarrow> bytes \<Rightarrow> 's \<Rightarrow>
   ((int + message) \<times> 's) option" where
  "read_message_loop recv send_all rnd opts cur started buffer s =
     (case read_frame recv opts s of
        None \<Rightarrow> None
      | Some (res, s1) \<Rightarrow>
         (case res of
            Inl e \<Rightarrow> Some (Inl e, s1)
          | Inr fr \<Rightarrow>
              if fr_op fr = Ping then
                (if respond_to_ping opts
                 then case send_frame send_all rnd Pong (fr_payload fr) plain_send s1 of
                        None \<Rightarrow> None
                      | Some s2 \<Rightarrow> read_message_loop recv send_all rnd opts cur started buffer s2
                 else read_message_loop recv send_all rnd opts cur started buffer s1)
              else if fr_op fr = Pong then read_message_loop recv send_all rnd opts cur started buffer s1
              else if fr_op fr = Close_frame then Some (Inr (close_message (fr_payload fr)), s1)
              else if \<not> started \<and> fr_op fr = Continuation \<or> started \<and> fr_op fr \<noteq> Continuation
              then Some (Inl (- EPROTO), s1)
              else let cur1 = (if started then cur else fr_op fr);
                       buffer1 = (if started then buffer @ fr_payload fr else fr_payload fr)
                   in if fin fr then Some (Inr (default_message\<lparr>msg_op := cur1, msg_payload := buffer1\<rparr>), s1)
                      else read_message_loop recv send_all rnd opts cur1 True buffer1 s1))"

definition read_message ::
  "'s recv_op \<Rightarrow> 's send_op \<Rightarrow> 32 word \<Rightarrow> 'o message_read_options_scheme \<Rightarrow> 's \<Rightarrow> ((int + message) \<times> 's) option" where
  "read_message recv send_all rnd opts s = read_message_loop recv send_all rnd opts Continuation False [] s"

section \<open>Sending messages\<close>

definition send_text :: "'s send_op \<Rightarrow> 32 word \<Rightarrow> bytes \<Rightarrow> send_options \<Rightarrow> 's \<Rightarrow> 's option" where
  "send_text send_all rnd text opts s = send_frame send_all rnd Text text opts s"

definition send_binary :: "'s send_op \<Rightarrow> 32 word \<Rightarrow> bytes \<Rightarrow> send_options \<Rightarrow> 's \<Rightarrow> 's option" where
  "send_binary send_all rnd data opts s = send_frame send_all rnd Binary data opts s"

definition send_close :: "'s send_op \<Rightarrow> 32 word \<Rightarrow> 16 word \<Rightarrow> bytes \<Rightarrow> send_options \<Rightarrow> 's \<Rightarrow> 's option" where
  "send_close send_all rnd code reason opts s =
     send_frame send_all rnd Close_frame ([ucast (drop_bit 8 code AND 0xFF), ucast (code AND 0xFF)] @ reason) opts s"

definition send_pong :: "'s send_op \<Rightarrow> 32 word \<Rightarrow> bytes \<Rightarrow> send_options \<Rightarrow> 's \<Rightarrow> 's option" where
  "send_pong send_all rnd p opts s = send_frame send_all rnd Pong p opts s"

definition send_ping :: "'s send_op \<Rightarrow> 32 word \<Rightarrow> bytes \<Rightarrow> send_options \<Rightarrow> 's \<Rightarrow> 's option" where
  "send_ping send_all rnd p opts s = send_frame send_all rnd Ping p opts s"

section \<open>Byte order and masking\<close>

lemma byte_mask: "(0xFF :: 'a::len word) = mask 8"
  by (simp add: mask_eq_exp_minus_1)

lemma ucast_byte: "(ucast (w AND 0xFF) :: 8 word) = ucast w" for w :: "'a::len word"
  by (rule bit_word_eqI) (auto simp: byte_mask bit_simps dest: bit_imp_le_length)

lemma key_of_bytes [simp]: "key_of (key_bytes k) = k"
proof (rule bit_word_eqI)
  fix n assume n: "n < LENGTH(32)"
  consider "n < 8" | "8 \<le> n" "n < 16" | "16 \<le> n" "n < 24" | "24 \<le> n" by linarith
  then show "bit (key_of (key_bytes k)) n = bit k n"
    using n by cases (auto simp: key_of_def key_bytes_def ucast_byte bit_simps)
qed

lemma bit_acc_byte: "bit (acc_byte acc b) n = (if n < 8 then bit b n else n < 64 \<and> bit acc (n - 8))"
  by (auto simp: acc_byte_def bit_simps dest: bit_imp_le_length)

lemma acc_byte_drop:
  assumes "m + 8 \<le> 64"
  shows "acc_byte (drop_bit (m + 8) n) (ucast (drop_bit m n)) = drop_bit m n"
  by (rule bit_word_eqI) (auto simp: bit_acc_byte bit_simps add.commute)

lemma len64_prefix:
  "j \<le> 8 \<Longrightarrow> foldl acc_byte 0 (map (\<lambda>i. ucast (drop_bit (56 - i * 8) n)) [0..<j]) = drop_bit (64 - 8 * j) n"
proof (induction j)
  case 0
  have "drop_bit 64 n = 0" by (rule bit_word_eqI) (auto simp: bit_simps dest: bit_imp_le_length)
  then show ?case by simp
next
  case (Suc j)
  then have "64 - 8 * j = (56 - j * 8) + 8" and "64 - 8 * Suc j = 56 - j * 8" by simp_all
  with Suc acc_byte_drop [of "56 - j * 8" n] show ?case
    by (simp del: upt_Suc add: upt_Suc_append mult.commute)
qed

lemma len64_of_bytes [simp]: "len64_of (map (\<lambda>i. ucast (drop_bit (56 - i * 8) n AND 0xFF)) [0..<8]) = n"
  using len64_prefix [of 8 n] by (simp add: len64_of_def ucast_byte)

text \<open>The accumulation of the extended length in machine words is the big-endian value of the bytes.\<close>

definition be_value :: "bytes \<Rightarrow> nat" where
  "be_value b = foldl (\<lambda>a x. 256 * a + unat x) 0 b"

lemma unat_acc_byte:
  assumes "unat acc < 2 ^ 56"
  shows "unat (acc_byte acc b) = 256 * unat acc + unat b"
proof -
  have b: "unat b < 256" using unsigned_less [of b] by simp
  have "acc_byte acc b = push_bit 8 acc + ucast b"
    unfolding acc_byte_def
    by (rule disjunctive_add [symmetric]) (auto simp: bit_simps dest: bit_imp_le_length)
  moreover have "unat (push_bit 8 acc) = 256 * unat acc"
    using assms by (simp add: push_bit_eq_mult unat_mult_lem [THEN iffD1] unat_word_ariths)
  moreover have "unat (ucast b :: 64 word) = unat b"
    using b by (simp add: unsigned_ucast_eq take_bit_eq_mod)
  ultimately show ?thesis using assms b by (simp add: unat_word_ariths)
qed

lemma be_value_snoc: "be_value (b @ [x]) = 256 * be_value b + unat x"
  by (simp add: be_value_def)

lemma be_value_bound: "be_value b < 256 ^ length b"
proof (induction b rule: rev_induct)
  case Nil
  show ?case by (simp add: be_value_def)
next
  case (snoc x b)
  have "unat x < 256" using unsigned_less [of x] by simp
  with snoc show ?case by (simp add: be_value_snoc)
qed

lemma len64_of_be_value: "length b \<le> 8 \<Longrightarrow> unat (len64_of b) = be_value b"
proof (induction b rule: rev_induct)
  case Nil
  show ?case by (simp add: len64_of_def be_value_def)
next
  case (snoc x b)
  have "be_value b < 256 ^ length b" by (rule be_value_bound)
  also have "\<dots> \<le> 256 ^ 7" using snoc.prems by (intro power_increasing) auto
  finally have "unat (len64_of b) < 2 ^ 56" using snoc by simp
  then show ?case
    using snoc by (simp add: be_value_snoc unat_acc_byte len64_of_def)
qed

lemma len16_of_be_value: "length b = 2 \<Longrightarrow> unat (len16_of b) = be_value b"
proof -
  assume "length b = 2"
  then obtain x y where b: "b = [x, y]" by (auto simp: numeral_2_eq_2 length_Suc_conv)
  have "len16_of b = len64_of b"
    by (simp add: b len16_of_def len64_of_def acc_byte_def)
  then show ?thesis by (simp add: len64_of_be_value b)
qed

lemma xor_mask_length [simp]: "length (xor_mask m p) = length p"
  by (simp add: xor_mask_def)

lemma xor_mask_nth: "i < length p \<Longrightarrow> xor_mask m p ! i = p ! i XOR m ! (i mod 4)"
  by (simp add: xor_mask_def)

lemma xor_mask_involution [simp]: "xor_mask m (xor_mask m p) = p"
  by (rule nth_equalityI) (simp_all add: xor_mask_nth xor.assoc)

section \<open>Receiving exactly\<close>

text \<open>
  What \<open>recv_loop\<close> does over any stream: it consumes a prefix, exactly the bytes asked for when it succeeds and
  fewer when it fails, with a negative error.
\<close>

context stream_sock
begin

lemma recv_loop_sound:
  assumes "recv_loop recv len idx buf s = Some (r, s1)" and "length buf = len" and "idx \<le> len"
  shows "outb s1 = outb s \<and> (\<exists>d. inb s = d @ inb s1 \<and>
    (case r of Inl e \<Rightarrow> e < 0 \<and> length d < len - idx | Inr b \<Rightarrow> length d = len - idx \<and> b = take idx buf @ d))"
  using assms
proof (induction "len - idx" arbitrary: idx buf s rule: less_induct)
  case less
  show ?case
  proof (cases "idx < len")
    case False
    then show ?thesis using less.prems by (auto simp: recv_loop.simps)
  next
    case True
    obtain n d s2 where r: "recv (len - idx) s = Some (n, d, s2)"
      using True less.prems(1) by (auto simp: recv_loop.simps split: option.splits)
    note q = recv_quiet [OF r]
    show ?thesis
    proof (cases "n \<le> 0")
      case n: True
      then show ?thesis
        using True less.prems recv_none [OF r n] q r
        by (auto simp: recv_loop.simps ECONNRESET_def split: if_splits)
    next
      case False
      then have n: "int (length d) = n" "length d \<le> len - idx" "inb s = d @ inb s2" "0 < n"
        using recv_data [OF r] by auto
      let ?buf = "buf_write idx d buf"
      have step: "recv_loop recv len (idx + length d) ?buf s2 = Some (r, s1)"
        using True False less.prems(1) r n by (auto simp: recv_loop.simps [of _ _ idx])
      have "length ?buf = len" "idx + length d \<le> len" "len - (idx + length d) < len - idx"
        using less.prems n True by auto
      from less.hyps [OF this(3) step this(1,2)] show ?thesis
        using q n less.prems by (cases r) auto
    qed
  qed
qed

lemma recv_array_sound:
  assumes "recv_array recv len s = Some (r, s1)"
  shows "outb s1 = outb s \<and> (\<exists>d. inb s = d @ inb s1 \<and>
    (case r of Inl e \<Rightarrow> e < 0 \<and> length d < len | Inr b \<Rightarrow> length d = len \<and> b = d))"
  using recv_loop_sound [OF assms [unfolded recv_array_def]] by (auto split: sum.splits)

end

context reliable_sock
begin

lemma recv_loop_returns: "\<exists>r s1. recv_loop recv len idx buf s = Some (r, s1)"
proof (induction "len - idx" arbitrary: idx buf s rule: less_induct)
  case less
  show ?case
  proof (cases "idx < len")
    case True
    then have pos: "0 < len - idx" by simp
    show ?thesis
    proof (cases "inb s = []")
      case e: True
      then show ?thesis using recv_end [OF pos e] True by (auto simp: recv_loop.simps)
    next
      case False
      then obtain n d s2 where r: "recv (len - idx) s = Some (n, d, s2)" "0 < n"
        using recv_live [OF pos] by blast
      have "len - (idx + nat n) < len - idx" using r pos by simp
      from less.hyps [OF this] show ?thesis
        using True r by (auto simp: recv_loop.simps [of _ _ idx])
    qed
  qed (simp add: recv_loop.simps)
qed

lemma recv_loop_error:
  "recv_loop recv len idx buf s = Some (Inl e, s1) \<Longrightarrow> e = - ECONNRESET \<and> inb s1 = []"
proof (induction "len - idx" arbitrary: idx buf s rule: less_induct)
  case less
  have lt: "idx < len" using less.prems by (auto simp: recv_loop.simps split: if_splits)
  then have pos: "0 < len - idx" by simp
  show ?case
  proof (cases "inb s = []")
    case e: True
    then obtain d s2 where r: "recv (len - idx) s = Some (0, d, s2)" using recv_end [OF pos] by blast
    then show ?thesis using less.prems lt recv_none [OF r] e by (auto simp: recv_loop.simps)
  next
    case False
    then obtain n d s2 where r: "recv (len - idx) s = Some (n, d, s2)" "0 < n"
      using recv_live [OF pos] by blast
    have d: "len - (idx + nat n) < len - idx" using r pos by simp
    from less.prems have "recv_loop recv len (idx + nat n) (buf_write idx (take (nat n) d) buf) s2 = Some (Inl e, s1)"
      using lt r by (auto simp: recv_loop.simps [of _ _ idx])
    from less.hyps [OF d this] show ?thesis .
  qed
qed

lemma recv_array_exact:
  obtains s1 where "outb s1 = outb s"
    and "recv_array recv len s =
           (if len \<le> length (inb s) then Some (Inr (take len (inb s)), s1) else Some (Inl (- ECONNRESET), s1))"
    and "inb s1 = drop len (inb s)"
proof -
  obtain r s1 where r: "recv_array recv len s = Some (r, s1)"
    using recv_loop_returns unfolding recv_array_def by blast
  note sound = recv_array_sound [OF r]
  show thesis
  proof (cases r)
    case (Inl e)
    then have "e = - ECONNRESET \<and> inb s1 = []"
      using r recv_loop_error unfolding recv_array_def by blast
    moreover have "outb s1 = outb s" "length (inb s) < len" using sound Inl calculation by auto
    ultimately show thesis using r Inl by (intro that [of s1]) auto
  next
    case (Inr b)
    then have "outb s1 = outb s" "inb s = b @ inb s1" "length b = len" using sound by auto
    then show thesis using r Inr by (intro that [of s1]) auto
  qed
qed

end

section \<open>Frames as byte strings\<close>

text \<open>
  The reference decoder: what a frame at the head of a byte string is, read by position with natural numbers and
  no loop. \<open>len7\<close> are the seven bits of the length, \<open>ext\<close> the number of bytes of the extended length.
\<close>

definition ext_len :: "nat \<Rightarrow> nat" where
  "ext_len len7 = (if len7 = 126 then 2 else if len7 = 127 then 8 else 0)"

definition decode_frame :: "'o frame_read_options_scheme \<Rightarrow> bytes \<Rightarrow> (int + frame) \<times> bytes" where
  "decode_frame opts bs =
     (let b0 = bs ! 0; b1 = bs ! 1; m = (b1 AND 0x80 \<noteq> 0); len7 = unat (b1 AND 0x7F); ext = ext_len len7;
          n = (if ext = 0 then len7 else be_value (take ext (drop 2 bs)));
          body = 2 + ext; key = (if m then 4 else 0)
      in if length bs < 2 then (Inl (- ECONNRESET), [])
         else if b0 AND 0x70 \<noteq> 0 then (Inl (- EPROTO), drop 2 bs)
         else if length bs < body then (Inl (- ECONNRESET), [])
         else if n > unat (max_frame_size opts) then (Inl (- EMSGSIZE), drop body bs)
         else if \<not> m \<and> require_masked_client opts then (Inl (- EPROTO), drop body bs)
         else if length bs < body + key + n then (Inl (- ECONNRESET), [])
         else (Inr (frame_value opts b0 m (if m then key_of (take 4 (drop body bs)) else 0) (take n (drop (body + key) bs))),
               drop (body + key + n) bs))"

lemma and_then_simps [simp]:
  "and_then None f = None"
  "and_then (Some (Inl e, s)) f = Some (Inl e, s)"
  "and_then (Some (Inr x, s)) f = f x s"
  by (simp_all add: and_then_def)

lemma rsv_bits: "b0 AND 0x70 = 0 \<longleftrightarrow> b0 AND 0x40 = 0 \<and> b0 AND 0x20 = 0 \<and> b0 AND 0x10 = 0" for b0 :: "8 word"
proof -
  have "(0x70 :: 8 word) = 0x40 OR 0x20 OR 0x10" by simp
  then show ?thesis by (simp only: bit.conj_disj_distrib or_eq_0_iff)
qed

lemma unat_ucast64: "unat (ucast (b :: 8 word) :: 64 word) = unat b"
proof -
  have "unat b < 256" using unsigned_less [of b] by simp
  then show ?thesis by (simp add: unsigned_ucast_eq take_bit_eq_mod)
qed

lemma ucast64_len: "(ucast (b :: 8 word) :: 64 word) = 126 \<longleftrightarrow> unat b = 126" "(ucast b :: 64 word) = 127 \<longleftrightarrow> unat b = 127"
  by (simp_all add: word_unat_eq_iff unat_ucast64)

lemma decode_frame_body:
  assumes len: "2 \<le> length bs" and b0: "bs ! 0 AND 0x70 = 0"
    and body: "2 + ext_len (unat (bs ! 1 AND 0x7F)) \<le> length bs"
    and n: "n = (if ext_len (unat (bs ! 1 AND 0x7F)) = 0 then unat (bs ! 1 AND 0x7F)
                 else be_value (take (ext_len (unat (bs ! 1 AND 0x7F))) (drop 2 bs)))"
  defines "m \<equiv> bs ! 1 AND 0x80 \<noteq> 0" and "r \<equiv> drop (2 + ext_len (unat (bs ! 1 AND 0x7F))) bs"
  shows "decode_frame opts bs =
      (if n > unat (max_frame_size opts) then (Inl (- EMSGSIZE), r)
       else if \<not> m \<and> require_masked_client opts then (Inl (- EPROTO), r)
       else if length r < (if m then 4 else 0) + n then (Inl (- ECONNRESET), [])
       else (Inr (frame_value opts (bs ! 0) m (if m then key_of (take 4 r) else 0) (take n (drop (if m then 4 else 0) r))),
             drop ((if m then 4 else 0) + n) r))"
proof -
  define e where "e = ext_len (unat (bs ! 1 AND 0x7F))"
  have r: "r = drop (2 + e) bs" and body: "2 + e \<le> length bs" using body by (simp_all add: e_def r_def)
  have short: "length bs < 2 + (e + (k + n)) \<longleftrightarrow> length r < k + n" for k using body by (auto simp: r)
  have drops: "drop k r = drop (2 + e + k) bs" for k by (simp add: r add.commute add.left_commute)
  have guards: "\<not> length bs < 2" "\<not> length bs < 2 + e" using len body by auto
  show ?thesis
    unfolding decode_frame_def Let_def e_def [symmetric] n [folded e_def, symmetric] m_def [symmetric]
    by (simp only: guards if_False b0 simp_thms short drops r [symmetric] add.assoc)
qed

context reliable_sock
begin

lemma read_payload_len_exact:
  fixes b :: "8 word"
  obtains s1 w where "outb s1 = outb s" and "inb s1 = drop (ext_len (unat b)) (inb s)"
    and "read_payload_len recv (ucast b) s =
           (if ext_len (unat b) \<le> length (inb s) then Some (Inr w, s1) else Some (Inl (- ECONNRESET), s1))"
    and "ext_len (unat b) \<le> length (inb s) \<longrightarrow>
           unat w = (if ext_len (unat b) = 0 then unat b else be_value (take (ext_len (unat b)) (inb s)))"
proof (cases "ext_len (unat b) = 0")
  case True
  then have "unat b \<noteq> 126" "unat b \<noteq> 127" by (auto simp: ext_len_def)
  then show thesis
    using True by (intro that [of s "ucast b"]) (auto simp: read_payload_len_def ucast64_len unat_ucast64)
next
  case False
  obtain s1 where s1: "outb s1 = outb s"
      "recv_array recv (ext_len (unat b)) s =
         (if ext_len (unat b) \<le> length (inb s) then Some (Inr (take (ext_len (unat b)) (inb s)), s1)
          else Some (Inl (- ECONNRESET), s1))"
      "inb s1 = drop (ext_len (unat b)) (inb s)"
    by (rule recv_array_exact)
  let ?w = "if unat b = 126 then len16_of (take 2 (inb s)) else len64_of (take 8 (inb s))"
  show thesis
    using False s1
    by (intro that [of s1 ?w])
      (auto simp: read_payload_len_def ucast64_len ext_len_def len16_of_be_value len64_of_be_value split: if_splits)
qed

lemma read_mask_key_exact:
  obtains s1 where "outb s1 = outb s" and "inb s1 = drop (if m then 4 else 0) (inb s)"
    and "read_mask_key recv opts m s =
           (if m then if 4 \<le> length (inb s) then Some (Inr (key_of (take 4 (inb s))), s1) else Some (Inl (- ECONNRESET), s1)
            else if require_masked_client opts then Some (Inl (- EPROTO), s1) else Some (Inr 0, s1))"
proof (cases m)
  case True
  obtain s1 where "outb s1 = outb s"
      "recv_array recv 4 s = (if 4 \<le> length (inb s) then Some (Inr (take 4 (inb s)), s1) else Some (Inl (- ECONNRESET), s1))"
      "inb s1 = drop 4 (inb s)"
    by (rule recv_array_exact)
  with True show thesis by (intro that [of s1]) (auto simp: read_mask_key_def)
next
  case False
  then show thesis by (intro that [of s]) (auto simp: read_mask_key_def)
qed

lemma read_frame_decode:
  obtains s1 where "read_frame recv opts s = Some (fst (decode_frame opts (inb s)), s1)"
    and "inb s1 = snd (decode_frame opts (inb s))" and "outb s1 = outb s"
proof -
  let ?bs = "inb s" let ?b0 = "?bs ! 0" let ?b1 = "?bs ! 1"
  let ?m = "?b1 AND 0x80 \<noteq> 0" and ?l = "?b1 AND 0x7F" let ?e = "ext_len (unat ?l)"
  obtain s1 where s1: "outb s1 = outb s" "inb s1 = drop 2 ?bs"
      "recv_array recv 2 s = (if 2 \<le> length ?bs then Some (Inr (take 2 ?bs), s1) else Some (Inl (- ECONNRESET), s1))"
    by (rule recv_array_exact)
  obtain s2 w where s2: "outb s2 = outb s1" "inb s2 = drop ?e (inb s1)"
      "read_payload_len recv (ucast ?l) s1 =
         (if ?e \<le> length (inb s1) then Some (Inr w, s2) else Some (Inl (- ECONNRESET), s2))"
      "?e \<le> length (inb s1) \<longrightarrow> unat w = (if ?e = 0 then unat ?l else be_value (take ?e (inb s1)))"
    by (rule read_payload_len_exact [of s1 ?l])
  obtain s3 where s3: "outb s3 = outb s2" "inb s3 = drop (if ?m then 4 else 0) (inb s2)"
      "read_mask_key recv opts ?m s2 =
         (if ?m then if 4 \<le> length (inb s2) then Some (Inr (key_of (take 4 (inb s2))), s3) else Some (Inl (- ECONNRESET), s3)
            else if require_masked_client opts then Some (Inl (- EPROTO), s3) else Some (Inr 0, s3))"
    by (rule read_mask_key_exact)
  obtain s4 where s4: "outb s4 = outb s3" "inb s4 = drop (unat w) (inb s3)"
      "recv_array recv (unat w) s3 = (if unat w \<le> length (inb s3) then Some (Inr (take (unat w) (inb s3)), s4) else Some (Inl (- ECONNRESET), s4))"
    by (rule recv_array_exact)
  note frame = read_frame_def decode_frame_def Let_def rsv_bits word_less_nat_alt
  show thesis
  proof (cases "2 \<le> length ?bs \<and> ?b0 AND 0x70 = 0 \<and> ?e \<le> length (inb s1)")
    case False
    show thesis
    proof (cases "2 \<le> length ?bs \<and> ?b0 AND 0x70 = 0")
      case True
      with False s1(2) have "length ?bs < 2 + ?e" by auto
      with False True show thesis using s1 s2(1-3) by (intro that [of s2]) (simp_all add: frame)
    next
      case False
      then show thesis using s1 by (intro that [of s1]) (auto simp: frame)
    qed
  next
    case True
    then have w: "unat w = (if ?e = 0 then unat ?l else be_value (take ?e (drop 2 ?bs)))"
      using s1(2) s2(4) by simp
    have len: "2 \<le> length ?bs" "2 + ?e \<le> length ?bs" and b0: "?b0 AND 0x70 = 0"
      and sec: "inb s2 = drop (2 + ?e) ?bs"
      using True s1(2) s2(2) by (auto simp: add.commute)
    have dec: "decode_frame opts ?bs =
      (if unat w > unat (max_frame_size opts) then (Inl (- EMSGSIZE), inb s2)
       else if \<not> ?m \<and> require_masked_client opts then (Inl (- EPROTO), inb s2)
       else if length (inb s2) < (if ?m then 4 else 0) + unat w then (Inl (- ECONNRESET), [])
       else (Inr (frame_value opts ?b0 ?m (if ?m then key_of (take 4 (inb s2)) else 0) (take (unat w) (drop (if ?m then 4 else 0) (inb s2)))),
             drop ((if ?m then 4 else 0) + unat w) (inb s2)))"
      unfolding sec by (rule decode_frame_body [OF len(1) b0 len(2) w])
    have rf: "read_frame recv opts s =
      (if unat w > unat (max_frame_size opts) then Some (Inl (- EMSGSIZE), s2)
       else and_then (read_mask_key recv opts ?m s2) (\<lambda>key s3.
              and_then (recv_array recv (unat w) s3) (\<lambda>p s4. Some (Inr (frame_value opts ?b0 ?m key p), s4))))"
      using True s1 s2(3) len by (simp add: frame)
    show thesis
    proof (cases "unat w > unat (max_frame_size opts)")
      case True
      then show thesis using dec rf s1(1) s2(1) by (intro that [of s2]) simp_all
    next
      case ok: False
      show thesis
      proof (cases "(?m \<and> length (inb s2) < 4) \<or> (\<not> ?m \<and> require_masked_client opts)")
        case True
        then show thesis using dec rf ok s1(1) s2(1) s3 by (intro that [of s3]) (auto split: if_splits)
      next
        case False
        then show thesis using dec rf ok s1(1) s2(1) s3 s4
          by (intro that [of s4]) (auto simp: add.commute split: if_splits)
      qed
    qed
  qed
qed

end

section \<open>What is sent is what is read\<close>

definition encode_frame :: "opcode \<Rightarrow> bytes \<Rightarrow> send_options \<Rightarrow> 32 word \<Rightarrow> bytes" where
  "encode_frame oc p opts key =
     frame_header oc (of_nat (length p)) opts key @ (if so_mask opts then xor_mask (key_bytes key) p else p)"

definition canonical :: "opcode \<Rightarrow> bool" where
  "canonical oc \<longleftrightarrow> opcode_byte oc AND 0xF0 = 0 \<and> opcode_of (opcode_byte oc) = oc"

lemma canonical_named [simp]: "oc \<in> {Continuation, Text, Binary, Close_frame, Ping, Pong} \<Longrightarrow> canonical oc"
  by (auto simp: canonical_def opcode_of_def)

lemma opcode_first_byte:
  assumes "x AND 0xF0 = (0 :: 8 word)"
  shows "((if f then 0x80 else 0x00) OR x) AND 0x70 = 0"
    and "((if f then 0x80 else 0x00) OR x) AND 0x80 \<noteq> 0 \<longleftrightarrow> f"
    and "((if f then 0x80 else 0x00) OR x) AND 0x0F = x"
proof -
  have "x AND 0x70 = (x AND 0xF0) AND 0x70" "x AND 0x80 = (x AND 0xF0) AND 0x80" by (simp_all add: and.assoc)
  then have z: "x AND 0x70 = 0" "x AND 0x80 = 0" using assms by simp_all
  have "x = x AND (0xF0 OR 0x0F)" by (rule bit_word_eqI) (simp add: byte_mask bit_simps)
  then have l: "x AND 0x0F = x" using assms by (simp only: bit.conj_disj_distrib) simp
  show "((if f then 0x80 else 0x00) OR x) AND 0x70 = 0"
    and "((if f then 0x80 else 0x00) OR x) AND 0x80 \<noteq> 0 \<longleftrightarrow> f"
    and "((if f then 0x80 else 0x00) OR x) AND 0x0F = x"
    using z l by (simp_all add: bit.conj_disj_distrib2)
qed

lemma length_first_byte:
  assumes "x AND 0x7F = (x :: 8 word)"
  shows "((if m then 0x80 else 0x00) OR x) AND 0x80 \<noteq> 0 \<longleftrightarrow> m"
    and "((if m then 0x80 else 0x00) OR x) AND 0x7F = x"
proof -
  have "x AND 0x80 = (x AND 0x7F) AND 0x80" using assms by simp
  then have "x AND 0x80 = 0" by (simp add: and.assoc)
  then show "((if m then 0x80 else 0x00) OR x) AND 0x80 \<noteq> 0 \<longleftrightarrow> m"
    and "((if m then 0x80 else 0x00) OR x) AND 0x7F = x"
    using assms by (simp_all add: bit.conj_disj_distrib2)
qed

lemma small_length_byte:
  assumes "n \<le> 125" 
  shows "(ucast (n :: 64 word) :: 8 word) AND 0x7F = ucast n" "unat (ucast n :: 8 word) = unat n"
proof -
  have n: "unat n \<le> 125" using assms by (simp add: word_le_nat_alt)
  then show u: "unat (ucast n :: 8 word) = unat n"
    by (simp add: unsigned_ucast_eq take_bit_eq_mod)
  have "take_bit 7 (ucast n :: 8 word) = ucast n"
    using n u by (simp add: word_unat_eq_iff unsigned_take_bit_eq take_bit_nat_eq_self)
  moreover have "(0x7F :: 8 word) = mask 7" by (simp add: mask_eq_exp_minus_1)
  ultimately show "(ucast (n :: 64 word) :: 8 word) AND 0x7F = ucast n"
    by (metis take_bit_eq_mask)
qed

lemma len16_of_bytes:
  assumes "n \<le> 0xFFFF"
  shows "len16_of [ucast (drop_bit 8 n AND 0xFF), ucast (n AND 0xFF)] = n"
proof (rule bit_word_eqI)
  have "n = take_bit 16 n"
    using assms by (simp add: take_bit_eq_mod word_le_nat_alt word_arith_nat_mod)
  then have b: "bit n k \<Longrightarrow> k < 16" for k
    by (metis bit_take_bit_iff)
  fix k assume k: "k < LENGTH(64)"
  show "bit (len16_of [ucast (drop_bit 8 n AND 0xFF), ucast (n AND 0xFF)]) k = bit n k"
    using k b [of k] by (auto simp: len16_of_def ucast_byte bit_simps)
qed

text \<open>The length field: the seven bits and the extended length decode to the length.\<close>

lemma length_bytes_decode:
  fixes m :: bool and n :: "64 word"
  defines "lb \<equiv> length_bytes (if m then 0x80 else 0x00) n"
  shows "hd lb AND 0x80 \<noteq> 0 \<longleftrightarrow> m"
    and "length lb = 1 + ext_len (unat (hd lb AND 0x7F))"
    and "unat n = (if ext_len (unat (hd lb AND 0x7F)) = 0 then unat (hd lb AND 0x7F) else be_value (tl lb))"
proof -
  consider "n \<le> 125" | "\<not> n \<le> 125" "n \<le> 0xFFFF" | "\<not> n \<le> 125" "\<not> n \<le> 0xFFFF" by blast
  then have "(hd lb AND 0x80 \<noteq> 0 \<longleftrightarrow> m) \<and> length lb = 1 + ext_len (unat (hd lb AND 0x7F)) \<and>
     unat n = (if ext_len (unat (hd lb AND 0x7F)) = 0 then unat (hd lb AND 0x7F) else be_value (tl lb))"
  proof cases
    case 1
    then have "unat n \<le> 125" by (simp add: word_le_nat_alt)
    moreover have "hd lb = (if m then 0x80 else 0x00) OR ucast n" "length lb = 1"
      using 1 by (simp_all add: lb_def length_bytes_def)
    ultimately show ?thesis
      using length_first_byte [OF small_length_byte(1) [OF 1]] small_length_byte(2) [OF 1]
      by (simp add: ext_len_def)
  next
    case 2
    have "hd lb = (if m then 0x80 else 0x00) OR 126" "tl lb = [ucast (drop_bit 8 n AND 0xFF), ucast (n AND 0xFF)]" "length lb = 3"
      using 2 by (simp_all add: lb_def length_bytes_def)
    then show ?thesis
      using length_first_byte [of 126 m] len16_of_bytes [OF 2(2)] len16_of_be_value [of "tl lb"]
      by (simp add: ext_len_def)
  next
    case 3
    have "hd lb = (if m then 0x80 else 0x00) OR 127"
      "tl lb = map (\<lambda>i. ucast (drop_bit (56 - i * 8) n AND 0xFF)) [0..<8]" "length lb = 9"
      using 3 by (simp_all add: lb_def length_bytes_def)
    then show ?thesis
      using length_first_byte [of 127 m] len64_of_bytes [of n] len64_of_be_value [of "tl lb"]
      by (simp add: ext_len_def del: len64_of_bytes)
  qed
  then show "hd lb AND 0x80 \<noteq> 0 \<longleftrightarrow> m"
    and "length lb = 1 + ext_len (unat (hd lb AND 0x7F))"
    and "unat n = (if ext_len (unat (hd lb AND 0x7F)) = 0 then unat (hd lb AND 0x7F) else be_value (tl lb))"
    by blast+
qed


lemma decode_encode:
  assumes oc: "canonical oc" and len: "length p < 2 ^ 64" and fits: "length p \<le> unat (max_frame_size ro)"
    and m: "so_mask so \<or> \<not> require_masked_client ro"
  shows "decode_frame ro (encode_frame oc p so key @ rest) =
    (Inr \<lparr>fin = so_fin so, rsv1 = False, rsv2 = False, rsv3 = False, fr_op = oc, masked = so_mask so,
          masking_key = (if so_mask so then key else 0),
          fr_payload = (if so_mask so \<and> \<not> auto_unmask ro then xor_mask (key_bytes key) p else p)\<rparr>, rest)"
proof -
  define n :: "64 word" where "n = of_nat (length p)"
  define lb where "lb = length_bytes (if so_mask so then 0x80 else 0x00) n"
  define b0 where "b0 = (if so_fin so then 0x80 else 0x00) OR opcode_byte oc"
  define ks where "ks = (if so_mask so then key_bytes key else [])"
  define body where "body = (if so_mask so then xor_mask (key_bytes key) p else p)"
  define e where "e = ext_len (unat (hd lb AND 0x7F))"
  have un: "unat n = length p" using len by (simp add: n_def unsigned_of_nat take_bit_eq_mod)
  note lbd = length_bytes_decode [where m = "so_mask so" and n = n, folded lb_def, folded e_def]
  obtain b1 ext where lb: "lb = b1 # ext" using lbd(2) by (cases lb) auto
  have ext: "length ext = e" using lbd(2) lb by simp
  define bs where "bs = encode_frame oc p so key @ rest"
  have bs: "bs = b0 # b1 # ext @ ks @ body @ rest"
    by (simp add: bs_def encode_frame_def frame_header_def b0_def lb_def [symmetric] n_def [symmetric] lb ks_def body_def)
  note first = opcode_first_byte [OF oc [unfolded canonical_def, THEN conjunct1], of "so_fin so", folded b0_def]
  have e: "ext_len (unat (bs ! 1 AND 0x7F)) = e" by (simp add: bs e_def lb)
  have mb: "bs ! 1 AND 0x80 \<noteq> 0 \<longleftrightarrow> so_mask so" using lbd(1) by (simp add: bs lb)
  have ks: "length ks = (if so_mask so then 4 else 0)" by (simp add: ks_def key_bytes_def)
  have r: "drop (2 + e) bs = ks @ body @ rest" by (simp add: bs ext)
  have nn: "length p = (if e = 0 then unat (bs ! 1 AND 0x7F) else be_value (take e (drop 2 bs)))"
    using lbd(3) un ext by (simp add: bs lb)
  have "decode_frame ro bs = (Inr (frame_value ro b0 (so_mask so) (if so_mask so then key else 0) body), rest)"
  proof -
    have "2 \<le> length bs" "bs ! 0 AND 0x70 = 0" "2 + ext_len (unat (bs ! 1 AND 0x7F)) \<le> length bs"
      using first(1) ext by (simp_all only: e) (simp_all add: bs)
    note D = decode_frame_body [OF this, unfolded e, OF nn, of ro, unfolded mb r]
    have b: "length (ks @ body @ rest) = (if so_mask so then 4 else 0) + length p + length rest"
      by (simp add: ks body_def)
    show ?thesis
      using D fits m b by (cases "so_mask so") (simp_all add: ks_def key_bytes_def [of key, THEN arg_cong, of length], simp_all add: bs body_def key_bytes_def)
  qed
  moreover have "frame_value ro b0 (so_mask so) (if so_mask so then key else 0) body =
     \<lparr>fin = so_fin so, rsv1 = False, rsv2 = False, rsv3 = False, fr_op = oc, masked = so_mask so,
          masking_key = (if so_mask so then key else 0),
          fr_payload = (if so_mask so \<and> \<not> auto_unmask ro then xor_mask (key_bytes key) p else p)\<rparr>"
    using first oc by (auto simp: frame_value_def rsv_bits canonical_def body_def)
  ultimately show ?thesis by (simp add: bs_def)
qed

lemma decode_frame_consumes:
  "decode_frame opts bs = (Inr f, rest) \<Longrightarrow> length rest < length bs"
  by (auto simp: decode_frame_def Let_def split: if_splits)

lemma decode_frame_bound:
  assumes "decode_frame opts bs = (Inr f, rest)"
  shows "length (fr_payload f) \<le> unat (max_frame_size opts)"
  using assms by (auto simp: decode_frame_def Let_def frame_value_def split: if_splits)

section \<open>Messages\<close>

text \<open>
  The reference reader of a message over a byte string: the result, the bytes left and the bytes of the pongs sent.
\<close>

definition pong_bytes :: "'o message_read_options_scheme \<Rightarrow> bytes \<Rightarrow> bytes" where
  "pong_bytes opts p = (if respond_to_ping opts then encode_frame Pong p plain_send 0 else [])"

function decode_message ::
  "'o message_read_options_scheme \<Rightarrow> opcode \<Rightarrow> bool \<Rightarrow> bytes \<Rightarrow> bytes \<Rightarrow> (int + message) \<times> bytes \<times> bytes" where
  "decode_message opts cur started buffer bs =
     (case decode_frame opts bs of
        (Inl e, rest) \<Rightarrow> (Inl e, rest, [])
      | (Inr fr, rest) \<Rightarrow>
          if fr_op fr = Ping then
            (case decode_message opts cur started buffer rest of (r, rest1, out) \<Rightarrow> (r, rest1, pong_bytes opts (fr_payload fr) @ out))
          else if fr_op fr = Pong then decode_message opts cur started buffer rest
          else if fr_op fr = Close_frame then (Inr (close_message (fr_payload fr)), rest, [])
          else if (fr_op fr = Continuation) \<noteq> started then (Inl (- EPROTO), rest, [])
          else let cur1 = (if started then cur else fr_op fr);
                   buffer1 = (if started then buffer @ fr_payload fr else fr_payload fr)
               in if fin fr then (Inr (default_message\<lparr>msg_op := cur1, msg_payload := buffer1\<rparr>), rest, [])
                  else decode_message opts cur1 True buffer1 rest)"
  by pat_completeness auto
termination
  by (relation "measure (\<lambda>(opts, cur, started, buffer, bs). length bs)")
    (simp_all add: decode_frame_consumes [OF sym])

declare decode_message.simps [simp del]

context reliable_sock
begin

lemma send_all_exact:
  obtains s1 where "send_all b s = Some (int (length b), s1)" and "outb s1 = outb s @ b" and "inb s1 = inb s"
proof -
  obtain s1 where s1: "send_all b s = Some (int (length b), s1)" using send_live by blast
  from send_prefix [OF this] send_keeps [OF this] show thesis by (intro that [of s1] s1) auto
qed

lemma send_frame_exact:
  obtains s1 where "send_frame send_all rnd oc p opts s = Some s1" and "inb s1 = inb s"
    and "outb s1 = outb s @ encode_frame oc p opts (case so_masking_key opts of Some k \<Rightarrow> k | None \<Rightarrow> rnd)"
proof -
  let ?key = "case so_masking_key opts of Some k \<Rightarrow> k | None \<Rightarrow> rnd"
  obtain s1 where s1: "send_all (frame_header oc (of_nat (length p)) opts ?key) s =
      Some (int (length (frame_header oc (of_nat (length p)) opts ?key)), s1)"
    "outb s1 = outb s @ frame_header oc (of_nat (length p)) opts ?key" "inb s1 = inb s"
    by (rule send_all_exact)
  let ?body = "if so_mask opts then xor_mask (key_bytes ?key) p else p"
  obtain s2 where s2: "send_all ?body s1 = Some (int (length ?body), s2)" "outb s2 = outb s1 @ ?body" "inb s2 = inb s1"
    by (rule send_all_exact)
  show thesis
  proof (cases "p = []")
    case True
    then show thesis using s1 by (intro that [of s1]) (auto simp: send_frame_def encode_frame_def xor_mask_def)
  next
    case False
    then show thesis using s1 s2 by (intro that [of s2]) (simp_all add: send_frame_def encode_frame_def)
  qed
qed

lemma plain_key: "encode_frame oc p plain_send k = encode_frame oc p plain_send 0"
  by (simp add: encode_frame_def frame_header_def plain_send_def)

lemma read_message_decode:
  "\<exists>s1. read_message_loop recv send_all rnd opts cur started buffer s = Some (fst (decode_message opts cur started buffer (inb s)), s1)
     \<and> inb s1 = fst (snd (decode_message opts cur started buffer (inb s)))
     \<and> outb s1 = outb s @ snd (snd (decode_message opts cur started buffer (inb s)))"
proof (induction "length (inb s)" arbitrary: cur started buffer s rule: less_induct)
  case less
  obtain s1 where s1: "read_frame recv opts s = Some (fst (decode_frame opts (inb s)), s1)"
    "inb s1 = snd (decode_frame opts (inb s))" "outb s1 = outb s"
    by (rule read_frame_decode)
  obtain res rest where d: "decode_frame opts (inb s) = (res, rest)" by fastforce
  note unf = read_message_loop.simps [where s = s] decode_message.simps [where bs = "inb s"]
  show ?case
  proof (cases res)
    case (Inl e)
    then show ?thesis using s1 d by (simp add: unf)
  next
    case (Inr fr)
    then have lt: "length (inb s1) < length (inb s)" using decode_frame_consumes d s1(2) by simp
    obtain s2 where s2: "send_frame send_all rnd Pong (fr_payload fr) plain_send s1 = Some s2" "inb s2 = inb s1"
      "outb s2 = outb s1 @ encode_frame Pong (fr_payload fr) plain_send 0"
      by (rule send_frame_exact [of rnd Pong "fr_payload fr" plain_send s1]) (metis plain_key)
    note IH1 = less.hyps [OF lt] and IH2 = less.hyps [of s2, unfolded s2(2), OF lt]
    consider "fr_op fr = Ping" | "fr_op fr = Pong" | "fr_op fr = Close_frame"
      | "fr_op fr \<notin> {Ping, Pong, Close_frame}" "(fr_op fr = Continuation) \<noteq> started"
      | "fr_op fr \<notin> {Ping, Pong, Close_frame}" "(fr_op fr = Continuation) = started" "fin fr"
      | "fr_op fr \<notin> {Ping, Pong, Close_frame}" "(fr_op fr = Continuation) = started" "\<not> fin fr" by blast
    then show ?thesis
    proof cases
      case 1
      then show ?thesis
        using s1 d Inr s2 IH1 [of cur started buffer] IH2 [of cur started buffer]
        by (cases "respond_to_ping opts") (fastforce simp: unf pong_bytes_def split: prod.splits)+
    next
      case 2
      then show ?thesis using s1 d Inr IH1 [of cur started buffer] by (fastforce simp: unf)
    next
      case 6
      then show ?thesis
        using s1 d Inr IH1 [of "if started then cur else fr_op fr" True "if started then buffer @ fr_payload fr else fr_payload fr"]
        by (cases started) (simp_all add: unf Let_def)
    qed (use s1 d Inr in \<open>auto simp: unf Let_def\<close>)
  qed
qed

end

section \<open>Frames over any socket\<close>

lemma and_then_Inr:
  "and_then m f = Some (Inr y, s2) \<longleftrightarrow> (\<exists>x s1. m = Some (Inr x, s1) \<and> f x s1 = Some (Inr y, s2))"
  by (auto simp: and_then_def split: option.splits sum.splits)

lemma opcode_byte_of [simp]: "opcode_byte (opcode_of w) = w"
  by (simp add: opcode_of_def)

lemma canonical_opcode_of [simp]: "canonical (opcode_of (b AND 0x0F))"
  by (simp add: canonical_def and.assoc)

definition frame_ok :: "'o frame_read_options_scheme \<Rightarrow> frame \<Rightarrow> bool" where
  "frame_ok opts f \<longleftrightarrow> \<not> rsv1 f \<and> \<not> rsv2 f \<and> \<not> rsv3 f \<and> canonical (fr_op f) \<and>
     length (fr_payload f) \<le> unat (max_frame_size opts) \<and> (require_masked_client opts \<longrightarrow> masked f) \<and>
     (\<not> masked f \<longrightarrow> masking_key f = 0)"

context stream_sock
begin

lemma recv_array_Inr:
  "recv_array recv len s = Some (Inr b, s1) \<Longrightarrow> length b = len \<and> inb s = b @ inb s1 \<and> outb s1 = outb s"
  using recv_array_sound [of len s "Inr b" s1] by auto

lemma read_payload_len_Inr:
  "read_payload_len recv len7 s = Some (Inr n, s1) \<Longrightarrow> (\<exists>d. inb s = d @ inb s1) \<and> outb s1 = outb s"
  by (auto simp: read_payload_len_def and_then_Inr split: if_splits dest!: recv_array_Inr)

lemma read_mask_key_Inr:
  "read_mask_key recv opts m s = Some (Inr k, s1) \<Longrightarrow>
    (\<exists>d. inb s = d @ inb s1) \<and> outb s1 = outb s \<and> (require_masked_client opts \<longrightarrow> m)"
  by (auto simp: read_mask_key_def and_then_Inr split: if_splits dest!: recv_array_Inr)

lemma read_frame_sound:
  assumes "read_frame recv opts s = Some (Inr f, s1)"
  shows "frame_ok opts f \<and> (\<exists>d. inb s = d @ inb s1) \<and> outb s1 = outb s"
proof -
  obtain hb sa n sb key sc p where hb: "recv_array recv 2 s = Some (Inr hb, sa)"
    and rsv: "hb ! 0 AND 0x40 = 0" "hb ! 0 AND 0x20 = 0" "hb ! 0 AND 0x10 = 0"
    and n: "read_payload_len recv (ucast (hb ! 1 AND 0x7F)) sa = Some (Inr n, sb)" "\<not> n > max_frame_size opts"
    and key: "read_mask_key recv opts (hb ! 1 AND 0x80 \<noteq> 0) sb = Some (Inr key, sc)"
    and p: "recv_array recv (unat n) sc = Some (Inr p, s1)"
    and f: "f = frame_value opts (hb ! 0) (hb ! 1 AND 0x80 \<noteq> 0) key p"
    using assms unfolding read_frame_def Let_def by (auto simp: and_then_Inr split: if_splits)
  have "length p \<le> unat (max_frame_size opts)"
    using recv_array_Inr [OF p] n(2) by (simp add: word_less_nat_alt)
  then have "frame_ok opts f"
    using rsv read_mask_key_Inr [OF key] by (auto simp: frame_ok_def f frame_value_def)
  then show ?thesis
    using recv_array_Inr [OF hb] read_payload_len_Inr [OF n(1)] read_mask_key_Inr [OF key] recv_array_Inr [OF p]
    by (metis append.assoc)
qed

end

section \<open>Messages in fragments\<close>

text \<open>The arguments of one call of \<open>send_frame\<close>.\<close>

record wire =
  w_op :: opcode
  w_payload :: bytes
  w_opts :: send_options
  w_key :: "32 word"

definition encode_wire :: "wire \<Rightarrow> bytes" where
  "encode_wire w = encode_frame (w_op w) (w_payload w) (w_opts w) (w_key w)"

definition sendable :: "'o frame_read_options_scheme \<Rightarrow> wire \<Rightarrow> bool" where
  "sendable ro w \<longleftrightarrow> canonical (w_op w) \<and> length (w_payload w) < 2 ^ 64 \<and> length (w_payload w) \<le> unat (max_frame_size ro) \<and>
     (if so_mask (w_opts w) then auto_unmask ro else \<not> require_masked_client ro)"

text \<open>
  A fragmented message: a first frame that is not a continuation, continuations after it, pings and pongs anywhere
  before the last frame, and \<open>fin\<close> on the last frame only.
\<close>

fun fragments :: "bool \<Rightarrow> wire list \<Rightarrow> bool" where
  "fragments started [] = False"
| "fragments started (w # ws) =
     (if w_op w = Ping \<or> w_op w = Pong then fragments started ws
      else w_op w \<noteq> Close_frame \<and> (w_op w = Continuation) = started \<and>
        (if so_fin (w_opts w) then ws = [] else fragments True ws))"

definition data_frames :: "wire list \<Rightarrow> wire list" where
  "data_frames ws = filter (\<lambda>w. w_op w \<noteq> Ping \<and> w_op w \<noteq> Pong) ws"

definition pongs :: "'o message_read_options_scheme \<Rightarrow> wire list \<Rightarrow> bytes" where
  "pongs opts ws = concat (map (\<lambda>w. pong_bytes opts (w_payload w)) (filter (\<lambda>w. w_op w = Ping) ws))"

lemma decode_wire:
  assumes "sendable ro w"
  shows "decode_frame ro (encode_wire w @ rest) =
    (Inr \<lparr>fin = so_fin (w_opts w), rsv1 = False, rsv2 = False, rsv3 = False, fr_op = w_op w, masked = so_mask (w_opts w),
          masking_key = (if so_mask (w_opts w) then w_key w else 0), fr_payload = w_payload w\<rparr>, rest)"
  using assms decode_encode [of "w_op w" "w_payload w" ro "w_opts w" "w_key w" rest]
  by (simp add: sendable_def encode_wire_def split: if_splits)

lemma decode_message_fragments:
  assumes "fragments started ws" and "\<And>w. w \<in> set ws \<Longrightarrow> sendable opts w"
  shows "decode_message opts cur started buffer (concat (map encode_wire ws) @ rest) =
    (Inr (default_message\<lparr>msg_op := (if started then cur else w_op (hd (data_frames ws))),
            msg_payload := (if started then buffer else []) @ concat (map w_payload (data_frames ws))\<rparr>), rest, pongs opts ws)"
  using assms
proof (induction ws arbitrary: started cur buffer)
  case (Cons w ws)
  have "sendable opts w" using Cons.prems by simp
  note d = decode_wire [OF this, of "concat (map encode_wire ws) @ rest"]
  have all: "\<And>x. x \<in> set ws \<Longrightarrow> sendable opts x" using Cons.prems by simp
  consider "w_op w = Ping" "fragments started ws" | "w_op w = Pong" "fragments started ws"
    | "w_op w \<notin> {Ping, Pong, Close_frame}" "(w_op w = Continuation) = started" "so_fin (w_opts w)" "ws = []"
    | "w_op w \<notin> {Ping, Pong, Close_frame}" "(w_op w = Continuation) = started" "\<not> so_fin (w_opts w)" "fragments True ws"
    using Cons.prems(1) by (auto split: if_splits)
  then show ?case
  proof cases
    case 1
    then show ?thesis
      using Cons.IH [OF 1(2) all] d by (subst decode_message.simps) (simp add: data_frames_def pongs_def)
  next
    case 2
    then show ?thesis
      using Cons.IH [OF 2(2) all] d by (subst decode_message.simps) (simp add: data_frames_def pongs_def)
  next
    case 3
    then show ?thesis
      using d by (subst decode_message.simps) (simp add: data_frames_def pongs_def Let_def)
  next
    case 4
    then show ?thesis
      using Cons.IH [OF 4(4) all] d by (subst decode_message.simps) (simp add: data_frames_def pongs_def Let_def)
  qed
qed simp

section \<open>Properties\<close>

text \<open>
  C35: Whatever the socket does, a frame that \<open>read_frame\<close> accepts has no reserved bit set, an opcode of four bits, a
  payload within \<open>max_frame_size\<close> and is masked when the options require it; the bytes read are a prefix of the stream and
  nothing is sent.
\<close>

theorem frame_well_formed:
  assumes "stream_sock recv send_all inb outb" and "read_frame recv opts s = Some (Inr f, s1)"
  shows "frame_ok opts f \<and> (\<exists>d. inb s = d @ inb s1) \<and> outb s1 = outb s"
  by (rule stream_sock.read_frame_sound [OF assms])

text \<open>
  C32: On a connection without failures \<open>read_frame\<close> returns, and its result depends only on the bytes of the peer and not on
  how they arrive: it is that of the reference decoder, errors included, and leaves the same bytes.
\<close>

theorem frame_segmentation_independent:
  assumes "reliable_sock recv send_all inb outb"
  shows "\<exists>s1. read_frame recv opts s = Some (fst (decode_frame opts (inb s)), s1)
    \<and> inb s1 = snd (decode_frame opts (inb s)) \<and> outb s1 = outb s"
  by (rule reliable_sock.read_frame_decode [OF assms, of opts s]) blast

text \<open>
  C33: What \<open>send_frame\<close> sends on one connection, \<open>read_frame\<close> on another connection that carries these bytes reads back:
  opcode, final flag, mask flag, key and payload, for every length of the payload up to the limit of the reader.
\<close>

theorem frame_roundtrip:
  assumes "reliable_sock recvA sendA inA outA" and "reliable_sock recvB sendB inB outB"
    and "canonical oc" and "length p < 2 ^ 64" and "length p \<le> unat (max_frame_size ro)"
    and "if so_mask so then auto_unmask ro else \<not> require_masked_client ro"
  shows "\<exists>bs a1. send_frame sendA rnd oc p so a = Some a1 \<and> outA a1 = outA a @ bs \<and> inA a1 = inA a \<and>
    (\<forall>b rest. inB b = bs @ rest \<longrightarrow>
      (\<exists>b1. read_frame recvB ro b = Some (Inr \<lparr>fin = so_fin so, rsv1 = False, rsv2 = False, rsv3 = False, fr_op = oc, masked = so_mask so,
             masking_key = (if so_mask so then case so_masking_key so of Some k \<Rightarrow> k | None \<Rightarrow> rnd else 0), fr_payload = p\<rparr>, b1)
         \<and> inB b1 = rest))"
proof -
  let ?key = "case so_masking_key so of Some k \<Rightarrow> k | None \<Rightarrow> rnd"
  let ?bs = "encode_frame oc p so ?key"
  obtain a1 where a1: "send_frame sendA rnd oc p so a = Some a1" "inA a1 = inA a" "outA a1 = outA a @ ?bs"
    by (rule reliable_sock.send_frame_exact [OF assms(1), of rnd oc p so a]) blast
  let ?f = "\<lparr>fin = so_fin so, rsv1 = False, rsv2 = False, rsv3 = False, fr_op = oc, masked = so_mask so,
             masking_key = (if so_mask so then ?key else 0), fr_payload = p\<rparr>"
  have d: "decode_frame ro (?bs @ rest) = (Inr ?f, rest)" for rest
    using decode_encode [OF assms(3-5), of so ?key rest] assms(6) by (simp split: if_splits)
  have "\<exists>b1. read_frame recvB ro b = Some (Inr ?f, b1) \<and> inB b1 = rest" if b: "inB b = ?bs @ rest" for b rest
    by (rule reliable_sock.read_frame_decode [OF assms(2), of ro b]) (simp add: b d)
  then show ?thesis using a1 by blast
qed

text \<open>
  C34: A message sent in fragments, with pings and pongs between them, is read back as one message: the opcode of the
  first fragment, the payloads joined, every ping answered by a pong with its payload when the options say so, and the bytes after
  the last fragment left in the stream.
\<close>

theorem message_reassembled:
  assumes "reliable_sock recv send_all inb outb" and "fragments False ws" and "\<And>w. w \<in> set ws \<Longrightarrow> sendable opts w"
    and "inb s = concat (map encode_wire ws) @ rest"
  shows "\<exists>s1. read_message recv send_all rnd opts s =
      Some (Inr (default_message\<lparr>msg_op := w_op (hd (data_frames ws)), msg_payload := concat (map w_payload (data_frames ws))\<rparr>), s1)
    \<and> inb s1 = rest \<and> outb s1 = outb s @ pongs opts ws"
  using reliable_sock.read_message_decode [OF assms(1), of rnd opts Continuation False "[]" s]
    decode_message_fragments [OF assms(2,3), of Continuation "[]" rest]
  by (simp add: read_message_def assms(4))

definition demo_ro :: message_read_options where
  "demo_ro = \<lparr>max_frame_size = 125, require_masked_client = False, auto_unmask = True, respond_to_ping = True\<rparr>"

lemma demo_ro_simps [simp]: "max_frame_size demo_ro = 125" "\<not> require_masked_client demo_ro" "auto_unmask demo_ro" "respond_to_ping demo_ro"
  by (simp_all add: demo_ro_def)

lemmas seg_reliable = seg.rsk.reliable_sock_axioms

text \<open>The socket of the examples holds a text frame with one byte, in two segments with a pause between them.\<close>

definition demo_text :: "seg_kernel sock" where
  "demo_text = demo_sock [Some (0x81, [0x01]), None, Some (0x41, [])]"

lemma demo_text_bytes: "seg_bytes (inq (kern demo_text)) = encode_frame Text [0x41] plain_send 0 @ []"
  by (simp add: demo_text_def encode_frame_def frame_header_def plain_send_def length_bytes_def)

lemma demo_text_decode: "\<exists>f. decode_frame demo_ro (seg_bytes (inq (kern demo_text))) = (Inr f, [])"
  unfolding demo_text_bytes by (subst decode_encode) (simp_all add: plain_send_def)

theorem frame_well_formed_witness:
  "\<exists>f s1. read_frame (sock_recv seg_os seg_idle 40) demo_ro demo_text = Some (Inr f, s1) \<and> frame_ok demo_ro f"
proof -
  obtain f s1 where r: "read_frame (sock_recv seg_os seg_idle 40) demo_ro demo_text = Some (Inr f, s1)"
    using seg.rsk.read_frame_decode [of 40 demo_ro demo_text] demo_text_decode by (metis fst_conv)
  show ?thesis using frame_well_formed [OF seg.sk.stream_sock_axioms r] r by blast
qed

theorem frame_roundtrip_witness:
  "\<exists>bs a1. send_frame (sock_send_all seg_os seg_idle 41) 0 Text [0x41] \<lparr>so_fin = True, so_mask = True, so_masking_key = Some 0x01020304\<rparr>
      (demo_sock []) = Some a1 \<and> outq (kern a1) = bs \<and> bs \<noteq> []"
proof -
  let ?so = "\<lparr>so_fin = True, so_mask = True, so_masking_key = Some 0x01020304\<rparr>"
  obtain bs a1 where "send_frame (sock_send_all seg_os seg_idle 41) 0 Text [0x41] ?so (demo_sock []) = Some a1"
      "outq (kern a1) = [] @ bs"
    and r: "\<forall>b :: seg_kernel sock. \<forall>rest. seg_bytes (inq (kern b)) = bs @ rest \<longrightarrow>
      (\<exists>b1. read_frame (sock_recv seg_os seg_idle 40) demo_ro b = Some (Inr \<lparr>fin = True, rsv1 = False, rsv2 = False, rsv3 = False,
        fr_op = Text, masked = True, masking_key = 0x01020304, fr_payload = [0x41]\<rparr>, b1) \<and> seg_bytes (inq (kern b1)) = rest)"
    using frame_roundtrip [OF seg_reliable [of 41 41] seg_reliable [of 40 40], of Text "[0x41]" demo_ro ?so 0 "demo_sock []"] by auto
  moreover have "bs \<noteq> []"
  proof
    assume "bs = []"
    then obtain b1 where "read_frame (sock_recv seg_os seg_idle 40) demo_ro (demo_sock []) = Some (Inr \<lparr>fin = True, rsv1 = False, rsv2 = False,
        rsv3 = False, fr_op = Text, masked = True, masking_key = 0x01020304, fr_payload = [0x41]\<rparr>, b1)"
      using r [rule_format, of "demo_sock []" "[]"] by auto
    then show False
      using seg.rsk.read_frame_decode [of 40 demo_ro "demo_sock []"] by (simp add: decode_frame_def)
  qed
  ultimately show ?thesis by auto
qed

theorem frame_segmentation_independent_witness:
  "\<exists>f s1. read_frame (sock_recv seg_os seg_idle 40) demo_ro demo_text = Some (Inr f, s1) \<and> seg_bytes (inq (kern s1)) = []"
proof -
  obtain f where d: "decode_frame demo_ro (seg_bytes (inq (kern demo_text))) = (Inr f, [])" using demo_text_decode by blast
  obtain s1 where "read_frame (sock_recv seg_os seg_idle 40) demo_ro demo_text = Some (fst (decode_frame demo_ro (seg_bytes (inq (kern demo_text)))), s1)"
      "seg_bytes (inq (kern s1)) = snd (decode_frame demo_ro (seg_bytes (inq (kern demo_text))))"
    using frame_segmentation_independent [OF seg_reliable [of 40 40], of demo_ro demo_text] by blast
  then show ?thesis unfolding d fst_conv snd_conv by blast
qed

theorem message_reassembled_witness:
  "\<exists>m s1. read_message (sock_recv seg_os seg_idle 40) (sock_send_all seg_os seg_idle 41) 0 demo_ro demo_text = Some (Inr m, s1)
     \<and> msg_op m = Text \<and> msg_payload m = [0x41]"
proof -
  let ?ws = "[\<lparr>w_op = Text, w_payload = [0x41], w_opts = plain_send, w_key = 0\<rparr>]"
  have "seg_bytes (inq (kern demo_text)) = concat (map encode_wire ?ws) @ []"
    by (simp add: demo_text_bytes encode_wire_def)
  from message_reassembled [OF seg_reliable [of 40 41] _ _ this, of demo_ro 0] show ?thesis
    by (auto simp: plain_send_def sendable_def data_frames_def)
qed

end
