(* ===== verification/Handshake.thy ===== *)
theory Handshake
  imports Websocket
begin

text \<open>
  The opening handshake of \<^verbatim>\<open>net/websocket.hpp\<close>: the string helpers, the request context filled by the callbacks of
  llhttp, and \<open>accept\<close>.

  A \<open>std::string\<close> is a \<open>string\<close>; the socket carries bytes (\<open>chars\<close>, \<open>bytes_of\<close>). llhttp and the digest of OpenSSL are not part of the
  sources: \<open>exec p data\<close> stands for \<open>llhttp_execute\<close> on a parser in state \<open>p\<close>, the callbacks it makes in order, its result and the
  new state, and \<open>digest\<close> for the base64 text of the SHA-1 of its argument, \<open>None\<close> when a call of the library fails. The C locale
  is assumed for \<open>tolower\<close> and \<open>isspace\<close>.
\<close>

section \<open>Strings\<close>

definition chars :: "bytes \<Rightarrow> string" where
  "chars bs = map (\<lambda>b. char_of (unat b)) bs"

definition bytes_of :: "string \<Rightarrow> bytes" where
  "bytes_of cs = map of_char cs"

definition tolower_char :: "char \<Rightarrow> char" where
  "tolower_char c = (let n = of_char c :: nat in if 65 \<le> n \<and> n \<le> 90 then char_of (n + 32) else c)"

definition isspace_char :: "char \<Rightarrow> bool" where
  "isspace_char c = (let n = of_char c :: nat in n = 32 \<or> 9 \<le> n \<and> n \<le> 13)"

definition to_lower :: "string \<Rightarrow> string" where
  "to_lower s = map tolower_char s"

text \<open>The two index loops of \<open>trim\<close>.\<close>

function trim_begin :: "string \<Rightarrow> nat \<Rightarrow> nat \<Rightarrow> nat" where
  "trim_begin input b e = (if b < e \<and> isspace_char (input ! b) then trim_begin input (b + 1) e else b)"
  by auto
termination by (relation "measure (\<lambda>(input, b, e). e - b)") auto

function trim_end :: "string \<Rightarrow> nat \<Rightarrow> nat \<Rightarrow> nat" where
  "trim_end input b e = (if e > b \<and> isspace_char (input ! (e - 1)) then trim_end input b (e - 1) else e)"
  by auto
termination by (relation "measure (\<lambda>(input, b, e). e)") auto

declare trim_begin.simps [simp del] trim_end.simps [simp del]

definition trim :: "string \<Rightarrow> string" where
  "trim input =
     (let b = trim_begin input 0 (length input); e = trim_end input b (length input)
      in take (e - b) (drop b input))"

fun to_digits :: "nat \<Rightarrow> string" where
  "to_digits n = (if n < 10 then [char_of (48 + n)] else to_digits (n div 10) @ [char_of (48 + n mod 10)])"

declare to_digits.simps [simp del]

definition to_string :: "int \<Rightarrow> string" where
  "to_string i = (if i < 0 then ''-'' @ to_digits (nat (- i)) else to_digits (nat i))"

definition crlf :: string where
  "crlf = [CHR 0x0D, CHR 0x0A]"

definition nl :: string where
  "nl = [CHR 0x0A]"

definition build_http_response :: "int \<Rightarrow> string \<Rightarrow> string \<Rightarrow> string" where
  "build_http_response status_code reason body =
     ''HTTP/1.1 '' @ to_string status_code @ '' '' @ reason @ crlf @
     ''Content-Type: '' @ ''text/plain; charset=utf-8'' @ crlf @
     ''Content-Length: '' @ to_string (int (length body)) @ crlf @ ''Connection: close'' @ crlf @ crlf @ body"

definition ws_guid :: string where
  "ws_guid = ''258EAFA5-E914-47DA-95CA-C5AB0DC85B11''"

definition compute_accept_key :: "(string \<Rightarrow> string option) \<Rightarrow> string \<Rightarrow> string" where
  "compute_accept_key digest client_key = (case digest (client_key @ ws_guid) of None \<Rightarrow> [] | Some out \<Rightarrow> out)"

text \<open>\<open>find(',', start)\<close>, with the length for \<open>npos\<close>.\<close>

definition find_comma :: "string \<Rightarrow> nat \<Rightarrow> nat" where
  "find_comma v start = start + length (takeWhile (\<lambda>c. c \<noteq> CHR '','') (drop start v))"

function connection_loop :: "string \<Rightarrow> nat \<Rightarrow> bool" where
  "connection_loop v start =
     (if start < length v
      then let e = find_comma v start; token = to_lower (trim (take (e - start) (drop start v)))
           in if token = ''upgrade'' then True else connection_loop v (e + 1)
      else False)"
  by auto
termination by (relation "measure (\<lambda>(v, start). length v - start)") (auto simp: find_comma_def)

definition connection_contains_upgrade :: "string \<Rightarrow> bool" where
  "connection_contains_upgrade v = connection_loop v 0"

function csv_loop :: "string \<Rightarrow> nat \<Rightarrow> string list \<Rightarrow> string list" where
  "csv_loop v start out =
     (if start < length v
      then let e = find_comma v start in csv_loop v (e + 1) (out @ [trim (take (e - start) (drop start v))])
      else out)"
  by auto
termination by (relation "measure (\<lambda>(v, start, out). length v - start)") (auto simp: find_comma_def)

declare connection_loop.simps [simp del] csv_loop.simps [simp del]

definition parse_header_csv :: "string \<Rightarrow> string list" where
  "parse_header_csv v = csv_loop v 0 []"

fun pick_subprotocol :: "string list \<Rightarrow> string list \<Rightarrow> string" where
  "pick_subprotocol [] server_protocols = []"
| "pick_subprotocol (sp # client_protocols) server_protocols =
     (case find (\<lambda>supported. to_lower sp = to_lower supported) server_protocols of
        Some supported \<Rightarrow> supported
      | None \<Rightarrow> pick_subprotocol client_protocols server_protocols)"

section \<open>The request context\<close>

record http_request_context =
  hc_method :: string
  hc_url :: string
  hc_headers :: "string \<rightharpoonup> string"
  current_field :: string
  current_value :: string
  hc_body :: string
  raw_data :: string
  headers_complete :: bool
  message_complete :: bool

definition ctx_reset :: http_request_context where
  "ctx_reset =
     \<lparr>hc_method = [], hc_url = [], hc_headers = Map.empty, current_field = [], current_value = [], hc_body = [], raw_data = [],
      headers_complete = False, message_complete = False\<rparr>"

datatype http_event =
    On_message_begin | On_method string | On_url string | On_header_field string | On_header_value string
  | On_header_value_complete | On_headers_complete | On_body string | On_message_complete

definition store_header :: "http_request_context \<Rightarrow> http_request_context" where
  "store_header c =
     (if current_field c \<noteq> [] then c\<lparr>hc_headers := (hc_headers c)(to_lower (current_field c) \<mapsto> current_value c)\<rparr> else c)"

fun http_callback :: "http_event \<Rightarrow> http_request_context \<Rightarrow> http_request_context" where
  "http_callback On_message_begin c = ctx_reset"
| "http_callback (On_method d) c = c\<lparr>hc_method := hc_method c @ d\<rparr>"
| "http_callback (On_url d) c = c\<lparr>hc_url := hc_url c @ d\<rparr>"
| "http_callback (On_header_field d) c = c\<lparr>current_field := current_field c @ d\<rparr>"
| "http_callback (On_header_value d) c = c\<lparr>current_value := current_value c @ d\<rparr>"
| "http_callback On_header_value_complete c = (store_header c)\<lparr>current_field := [], current_value := []\<rparr>"
| "http_callback On_headers_complete c =
     (if current_field c \<noteq> [] then (store_header c)\<lparr>current_field := [], current_value := []\<rparr> else c)\<lparr>headers_complete := True\<rparr>"
| "http_callback (On_body d) c = c\<lparr>hc_body := hc_body c @ d\<rparr>"
| "http_callback On_message_complete c = c\<lparr>message_complete := True\<rparr>"

section \<open>Accepting a connection\<close>

datatype llhttp_errno = HPE_OK | HPE_PAUSED_UPGRADE | HPE_error string

record server_options =
  subprotocols :: "string list"
  allowed_origins :: "string list"
  check_origin :: bool
  close_on_failure :: bool
  max_request_size :: nat

record accept_result =
  ar_ok :: bool
  status_code :: int
  reason :: string
  selected_subprotocol :: string
  request :: http_request_context

text \<open>The locals of \<open>accept\<close> that live across the receive loop.\<close>

record accept_state =
  st_ctx :: http_request_context
  total_bytes :: nat
  parse_error :: bool
  parse_error_reason :: string
  client_closed_early :: bool
  st_status :: int
  st_reason :: string

definition accept_init :: accept_state where
  "accept_init =
     \<lparr>st_ctx = ctx_reset, total_bytes = 0, parse_error = False, parse_error_reason = [], client_closed_early = False,
      st_status = 400, st_reason = ''Bad Request''\<rparr>"

function accept_loop ::
  "'s recv_op \<Rightarrow> ('p \<Rightarrow> string \<Rightarrow> http_event list \<times> llhttp_errno \<times> 'p) \<Rightarrow> server_options \<Rightarrow> 'p \<Rightarrow> accept_state \<Rightarrow> 's \<Rightarrow>
   (accept_state \<times> 's) option" where
  "accept_loop recv exec opts p st s =
     (if message_complete (st_ctx st) \<or> parse_error st then Some (st, s)
      else case recv 4096 s of
             None \<Rightarrow> None
           | Some (n, d, s1) \<Rightarrow>
               if n < 0 then
                 Some (st\<lparr>parse_error := True, parse_error_reason := ''socket read error'', st_status := 500, st_reason := ''Socket Error''\<rparr>, s1)
               else if n = 0 then
                 Some (st\<lparr>parse_error := True, client_closed_early := True, parse_error_reason := ''client closed connection'',
                         st_status := 0, st_reason := ''client closed connection''\<rparr>, s1)
               else let data = chars (take (nat n) d);
                        st1 = st\<lparr>st_ctx := (st_ctx st)\<lparr>raw_data := raw_data (st_ctx st) @ data\<rparr>, total_bytes := total_bytes st + nat n\<rparr>
                    in if total_bytes st1 > max_request_size opts then
                         Some (st1\<lparr>parse_error := True, parse_error_reason := ''request header too large'', st_status := 431,
                                  st_reason := ''Request Header Fields Too Large''\<rparr>, s1)
                       else case exec p data of (evs, err, p1) \<Rightarrow>
                         let st2 = st1\<lparr>st_ctx := fold http_callback evs (st_ctx st1)\<rparr>
                         in (case err of
                               HPE_PAUSED_UPGRADE \<Rightarrow> Some (st2\<lparr>st_ctx := (st_ctx st2)\<lparr>message_complete := True\<rparr>\<rparr>, s1)
                             | HPE_error name \<Rightarrow>
                                 Some (st2\<lparr>parse_error := True, parse_error_reason := name, st_status := 400, st_reason := ''Bad Request''\<rparr>, s1)
                             | HPE_OK \<Rightarrow> accept_loop recv exec opts p1 st2 s1))"
  by auto
termination
  by (relation "measure (\<lambda>(recv, exec, opts, p, st, s). max_request_size opts + 1 - total_bytes st)") (auto simp: Let_def)

declare accept_loop.simps [simp del]

definition handshake_fail ::
  "'s send_op \<Rightarrow> ('s \<Rightarrow> 's) \<Rightarrow> bool \<Rightarrow> int \<Rightarrow> string \<Rightarrow> string \<Rightarrow> http_request_context \<Rightarrow> 's \<Rightarrow> (accept_result \<times> 's) option" where
  "handshake_fail send_all close do_close code why body ctx s =
     (case send_all (bytes_of (build_http_response code why body)) s of
        None \<Rightarrow> None
      | Some (_, s1) \<Rightarrow>
          Some (\<lparr>ar_ok = False, status_code = code, reason = why, selected_subprotocol = [], request = ctx\<rparr>,
                if do_close then close s1 else s1))"

definition headers_ok :: "http_request_context \<Rightarrow> bool" where
  "headers_ok ctx =
     (case (hc_headers ctx ''upgrade'', hc_headers ctx ''connection'', hc_headers ctx ''sec-websocket-version'', hc_headers ctx ''sec-websocket-key'') of
        (Some u, Some c, Some v, Some k) \<Rightarrow> to_lower u = ''websocket'' \<and> connection_contains_upgrade c \<and> trim v = ''13''
      | _ \<Rightarrow> False)"

definition origin_ok :: "server_options \<Rightarrow> http_request_context \<Rightarrow> bool" where
  "origin_ok opts ctx =
     (check_origin opts \<and> allowed_origins opts \<noteq> [] \<longrightarrow>
      (case hc_headers ctx ''origin'' of
         None \<Rightarrow> False
       | Some org \<Rightarrow> list_ex (\<lambda>allowed. to_lower org = to_lower allowed) (allowed_origins opts)))"

definition select_protocol :: "server_options \<Rightarrow> http_request_context \<Rightarrow> string" where
  "select_protocol opts ctx =
     (let client_protocols = (case hc_headers ctx ''sec-websocket-protocol'' of Some h \<Rightarrow> parse_header_csv h | None \<Rightarrow> [])
      in if subprotocols opts \<noteq> [] \<and> client_protocols \<noteq> [] then pick_subprotocol client_protocols (subprotocols opts) else [])"

definition switching_response :: "string \<Rightarrow> string \<Rightarrow> string" where
  "switching_response accept_key selected_proto =
     ''HTTP/1.1 101 Switching Protocols'' @ crlf @ ''Upgrade: websocket'' @ crlf @ ''Connection: Upgrade'' @ crlf @
     ''Sec-WebSocket-Accept: '' @ accept_key @ crlf @
     (if selected_proto \<noteq> [] then ''Sec-WebSocket-Protocol: '' @ selected_proto @ crlf else []) @ crlf"

definition accept_incomplete ::
  "'s send_op \<Rightarrow> ('s \<Rightarrow> 's) \<Rightarrow> server_options \<Rightarrow> accept_state \<Rightarrow> 's \<Rightarrow> (accept_result \<times> 's) option" where
  "accept_incomplete send_all close opts st s =
     (let why = (if parse_error_reason st \<noteq> [] then parse_error_reason st else st_reason st);
          body = ''WebSocket handshake failed: '' @
                   (if parse_error_reason st = [] then ''incomplete request'' else parse_error_reason st) @ nl;
          res = \<lparr>ar_ok = False, status_code = st_status st, reason = why, selected_subprotocol = [], request = st_ctx st\<rparr>;
          finish = (\<lambda>s. (res, if close_on_failure opts \<or> client_closed_early st then close s else s))
      in if \<not> client_closed_early st \<and> st_status st \<noteq> 0
         then map_option (\<lambda>(_, s1). finish s1) (send_all (bytes_of (build_http_response (st_status st) why body)) s)
         else Some (finish s))"

definition ws_accept ::
  "'s recv_op \<Rightarrow> 's send_op \<Rightarrow> ('s \<Rightarrow> 's) \<Rightarrow> ('p \<Rightarrow> string \<Rightarrow> http_event list \<times> llhttp_errno \<times> 'p) \<Rightarrow> (string \<Rightarrow> string option) \<Rightarrow>
   server_options \<Rightarrow> 'p \<Rightarrow> 's \<Rightarrow> (accept_result \<times> 's) option" where
  "ws_accept recv send_all close exec digest opts p0 s =
     (case accept_loop recv exec opts p0 accept_init s of
        None \<Rightarrow> None
      | Some (st, s1) \<Rightarrow>
         (let ctx = st_ctx st; fail = (\<lambda>code why body. handshake_fail send_all close (close_on_failure opts) code why body ctx s1)
          in if parse_error st \<or> \<not> message_complete ctx then accept_incomplete send_all close opts st s1
             else if to_lower (hc_method ctx) \<noteq> ''get'' then fail 405 ''Method Not Allowed'' (''WebSocket requires GET'' @ nl)
             else if \<not> headers_ok ctx then fail 400 ''Bad Request'' (''Missing or invalid WebSocket headers'' @ nl)
             else if \<not> origin_ok opts ctx then fail 403 ''Forbidden'' (''Origin not allowed'' @ nl)
             else let proto = select_protocol opts ctx;
                      accept_key = compute_accept_key digest (the (hc_headers ctx ''sec-websocket-key''))
                  in if accept_key = [] then fail 500 ''Internal Server Error'' (''Failed to compute accept key'' @ nl)
                     else case send_all (bytes_of (switching_response accept_key proto)) s1 of
                            None \<Rightarrow> None
                          | Some (n, s2) \<Rightarrow>
                              if n < 0
                              then Some (\<lparr>ar_ok = False, status_code = 500, reason = ''Socket Error'', selected_subprotocol = [], request = ctx\<rparr>,
                                         if close_on_failure opts then close s2 else s2)
                              else Some (\<lparr>ar_ok = True, status_code = 101, reason = ''Switching Protocols'', selected_subprotocol = proto,
                                          request = ctx\<rparr>, s2)))"

section \<open>Header values\<close>

text \<open>Reference definitions: trimming by \<open>dropWhile\<close> at both ends, splitting at commas.\<close>

definition strip :: "string \<Rightarrow> string" where
  "strip s = rev (dropWhile isspace_char (rev (dropWhile isspace_char s)))"

lemma trim_begin_length: "b \<le> length s \<Longrightarrow> trim_begin s b (length s) = b + length (takeWhile isspace_char (drop b s))"
proof (induction s b "length s" rule: trim_begin.induct)
  case (1 s b)
  show ?case
  proof (cases "b < length s")
    case True
    then have "drop b s = s ! b # drop (Suc b) s" by (simp add: Cons_nth_drop_Suc)
    then show ?thesis using 1 True by (subst trim_begin.simps) simp
  next
    case False
    then show ?thesis using 1 by (subst trim_begin.simps) simp
  qed
qed

lemma trim_end_strip:
  "b \<le> e \<Longrightarrow> e \<le> length s \<Longrightarrow> take (trim_end s b e - b) (drop b s) = rev (dropWhile isspace_char (rev (take (e - b) (drop b s))))"
proof (induction s b e rule: trim_end.induct)
  case (1 s b e)
  show ?case
  proof (cases "b < e")
    case True
    then have "take (e - b) (drop b s) = take (e - 1 - b) (drop b s) @ [s ! (e - 1)]"
      using "1.prems" take_Suc_conv_app_nth [of "e - 1 - b" "drop b s"] by (simp add: Suc_diff_Suc [symmetric])
    then show ?thesis using 1 True by (subst trim_end.simps) auto
  next
    case False
    then show ?thesis using 1 by (subst trim_end.simps) simp
  qed
qed

lemma trim_eq_strip: "trim s = strip s"
proof -
  let ?b = "length (takeWhile isspace_char s)"
  have b: "trim_begin s 0 (length s) = ?b" using trim_begin_length [of 0 s] by simp
  have "?b \<le> length s" by (rule length_takeWhile_le)
  from trim_end_strip [OF this order_refl] show ?thesis
    by (simp add: trim_def Let_def b strip_def dropWhile_eq_drop)
qed

text \<open>The pieces between the commas; a comma at the very end starts no piece.\<close>

function split_commas :: "string \<Rightarrow> string list" where
  "split_commas v =
     (if v = [] then [] else takeWhile (\<lambda>c. c \<noteq> CHR '','') v # split_commas (drop (Suc (length (takeWhile (\<lambda>c. c \<noteq> CHR '','') v))) v))"
  by auto
termination by (relation "measure length") auto

declare split_commas.simps [simp del]

lemma take_find_comma: "take (find_comma v i - i) (drop i v) = takeWhile (\<lambda>c. c \<noteq> CHR '','') (drop i v)"
  by (simp add: find_comma_def takeWhile_eq_take [symmetric])

lemma connection_loop_split: "connection_loop v i = (\<exists>t \<in> set (split_commas (drop i v)). to_lower (trim t) = ''upgrade'')"
proof (induction v i rule: connection_loop.induct)
  case (1 v i)
  then show ?case
    by (subst connection_loop.simps, subst split_commas.simps)
      (auto simp: Let_def take_find_comma, auto simp: find_comma_def add.commute)
qed

lemma csv_loop_split: "csv_loop v i out = out @ map trim (split_commas (drop i v))"
proof (induction v i out rule: csv_loop.induct)
  case (1 v i out)
  then show ?case
    by (subst csv_loop.simps, subst split_commas.simps)
      (auto simp: Let_def take_find_comma, auto simp: find_comma_def add.commute)
qed


section \<open>The receive loop\<close>

text \<open>The loop counts what it receives, stops at the limit, and leaves a consistent state.\<close>

context stream_sock
begin

lemma accept_loop_bounded:
  assumes "accept_loop recv exec opts p st s = Some (st1, s1)" and "total_bytes st \<le> max_request_size opts"
  shows "\<exists>d. inb s = d @ inb s1 \<and> total_bytes st1 = total_bytes st + length d \<and> outb s1 = outb s \<and>
    total_bytes st1 \<le> max_request_size opts + 4096 \<and> (total_bytes st1 \<le> max_request_size opts \<or> parse_error st1 \<and> st_status st1 = 431)"
  using assms
proof (induction "max_request_size opts + 1 - total_bytes st" arbitrary: p st s rule: less_induct)
  case less
  show ?case
  proof (cases "message_complete (st_ctx st) \<or> parse_error st")
    case True
    then show ?thesis using less.prems by (subst (asm) accept_loop.simps) auto
  next
    case False
    obtain n d s2 where r: "recv 4096 s = Some (n, d, s2)"
      using False less.prems(1) by (subst (asm) accept_loop.simps) (auto split: option.splits)
    note out = recv_quiet [OF r]
    show ?thesis
    proof (cases "0 < n")
      case n: False
      then have "inb s2 = inb s" using recv_none [OF r] by simp
      moreover have "s1 = s2 \<and> total_bytes st1 = total_bytes st"
        using False n r less.prems(1) by (subst (asm) accept_loop.simps) (auto split: if_splits)
      ultimately show ?thesis using out less.prems(2) by auto
    next
      case n: True
      then have d: "nat n = length d" "length d \<le> 4096" "inb s = d @ inb s2" using recv_data [OF r] by auto
      let ?st1 = "st\<lparr>st_ctx := (st_ctx st)\<lparr>raw_data := raw_data (st_ctx st) @ chars d\<rparr>, total_bytes := total_bytes st + length d\<rparr>"
      obtain evs err p1 where e: "exec p (chars d) = (evs, err, p1)" by (metis prod_cases3)
      let ?st2 = "?st1\<lparr>st_ctx := fold http_callback evs (st_ctx ?st1)\<rparr>"
      have step: "accept_loop recv exec opts p st s =
        (if total_bytes ?st1 > max_request_size opts then
           Some (?st1\<lparr>parse_error := True, parse_error_reason := ''request header too large'', st_status := 431,
                                  st_reason := ''Request Header Fields Too Large''\<rparr>, s2)
         else case err of
                HPE_PAUSED_UPGRADE \<Rightarrow> Some (?st2\<lparr>st_ctx := (st_ctx ?st2)\<lparr>message_complete := True\<rparr>\<rparr>, s2)
              | HPE_error name \<Rightarrow>
                  Some (?st2\<lparr>parse_error := True, parse_error_reason := name, st_status := 400, st_reason := ''Bad Request''\<rparr>, s2)
              | HPE_OK \<Rightarrow> accept_loop recv exec opts p1 ?st2 s2)"
        using False n d r e by (subst accept_loop.simps) (cases err; simp add: Let_def)
      show ?thesis
      proof (cases "total_bytes ?st1 \<le> max_request_size opts \<and> err = HPE_OK")
        case True
        have "max_request_size opts + 1 - total_bytes ?st2 < max_request_size opts + 1 - total_bytes st"
          using True n d by auto
        from less.hyps [OF this, of p1 s2] show ?thesis
          using True step less.prems(1) d out by auto
      next
        case stop: False
        have "s1 = s2 \<and> total_bytes st1 = total_bytes st + length d \<and>
            (total_bytes st1 \<le> max_request_size opts \<or> parse_error st1 \<and> st_status st1 = 431)"
          using stop step less.prems(1) by (auto split: llhttp_errno.splits if_splits)
        then show ?thesis using d out less.prems(2) by auto
      qed
    qed
  qed
qed

end

context reliable_sock
begin

lemma accept_loop_returns: "\<exists>st1 s1. accept_loop recv exec opts p st s = Some (st1, s1)"
proof (induction "max_request_size opts + 1 - total_bytes st" arbitrary: p st s rule: less_induct)
  case less
  obtain n d s2 where r: "recv 4096 s = Some (n, d, s2)"
    using recv_live [of 4096 s] recv_end [of 4096 s] by (cases "inb s = []") auto
  show ?case
  proof (cases "0 < n")
    case False
    then show ?thesis using r by (subst accept_loop.simps) auto
  next
    case True
    obtain evs err p1 where e: "exec p (chars (take (nat n) d)) = (evs, err, p1)" by (metis prod_cases3)
    show ?thesis
    proof (cases "total_bytes st + nat n \<le> max_request_size opts \<and> err = HPE_OK")
      case False
      then show ?thesis using r True e by (subst accept_loop.simps) (auto simp: Let_def split: llhttp_errno.splits)
    next
      case ok: True
      let ?st2 = "st\<lparr>total_bytes := total_bytes st + nat n,
        st_ctx := fold http_callback evs ((st_ctx st)\<lparr>raw_data := raw_data (st_ctx st) @ chars (take (nat n) d)\<rparr>)\<rparr>"
      have "max_request_size opts + 1 - total_bytes ?st2 < max_request_size opts + 1 - total_bytes st" using ok True by auto
      from less.hyps [OF this, of p1 s2] show ?thesis
        using ok r True e by (subst accept_loop.simps) (auto simp: Let_def)
    qed
  qed
qed

end

section \<open>The decision\<close>

text \<open>
  What \<open>accept\<close> has to require of a complete request, over the reference definitions: the headers of RFC 6455, an origin of
  the configured list, and the subprotocol, the first that both sides name in the order of the client.
\<close>

definition valid_upgrade :: "http_request_context \<Rightarrow> bool" where
  "valid_upgrade ctx \<longleftrightarrow>
     (\<exists>u c v k. hc_headers ctx ''upgrade'' = Some u \<and> hc_headers ctx ''connection'' = Some c \<and>
        hc_headers ctx ''sec-websocket-version'' = Some v \<and> hc_headers ctx ''sec-websocket-key'' = Some k \<and>
        to_lower u = ''websocket'' \<and> ''upgrade'' \<in> set (map (\<lambda>t. to_lower (strip t)) (split_commas c)) \<and> strip v = ''13'')"

definition allowed_origin :: "server_options \<Rightarrow> http_request_context \<Rightarrow> bool" where
  "allowed_origin opts ctx \<longleftrightarrow> \<not> check_origin opts \<or> allowed_origins opts = [] \<or>
     (\<exists>org. hc_headers ctx ''origin'' = Some org \<and> to_lower org \<in> to_lower ` set (allowed_origins opts))"

definition agreed_protocol :: "server_options \<Rightarrow> http_request_context \<Rightarrow> string" where
  "agreed_protocol opts ctx =
     (case hc_headers ctx ''sec-websocket-protocol'' of
        None \<Rightarrow> []
      | Some h \<Rightarrow> case [sv. t \<leftarrow> split_commas h, sv \<leftarrow> subprotocols opts, to_lower (strip t) = to_lower sv] of [] \<Rightarrow> [] | p # _ \<Rightarrow> p)"

definition acceptable :: "(string \<Rightarrow> string option) \<Rightarrow> server_options \<Rightarrow> accept_state \<Rightarrow> bool" where
  "acceptable digest opts st \<longleftrightarrow>
     \<not> parse_error st \<and> message_complete (st_ctx st) \<and> to_lower (hc_method (st_ctx st)) = ''get'' \<and> valid_upgrade (st_ctx st) \<and>
     allowed_origin opts (st_ctx st) \<and> compute_accept_key digest (the (hc_headers (st_ctx st) ''sec-websocket-key'')) \<noteq> []"

definition ws_response :: "(string \<Rightarrow> string option) \<Rightarrow> server_options \<Rightarrow> accept_state \<Rightarrow> string" where
  "ws_response digest opts st =
     switching_response (compute_accept_key digest (the (hc_headers (st_ctx st) ''sec-websocket-key''))) (agreed_protocol opts (st_ctx st))"

text \<open>The tests of the code decide this specification.\<close>

lemma connection_contains_upgrade_split:
  "connection_contains_upgrade c \<longleftrightarrow> ''upgrade'' \<in> set (map (\<lambda>t. to_lower (strip t)) (split_commas c))"
  by (auto simp: connection_contains_upgrade_def connection_loop_split trim_eq_strip image_iff) metis

lemma headers_ok_valid: "headers_ok ctx = valid_upgrade ctx"
  by (auto simp: headers_ok_def valid_upgrade_def trim_eq_strip connection_contains_upgrade_split split: option.splits)

lemma origin_ok_allowed: "origin_ok opts ctx = allowed_origin opts ctx"
  by (auto simp: origin_ok_def allowed_origin_def list_ex_iff image_iff split: option.splits)

lemma pick_subprotocol_first:
  "pick_subprotocol cs ss = (case [sv. c \<leftarrow> cs, sv \<leftarrow> ss, to_lower c = to_lower sv] of [] \<Rightarrow> [] | p # _ \<Rightarrow> p)"
proof (induction cs)
  case (Cons c cs)
  let ?m = "[sv. sv \<leftarrow> ss, to_lower c = to_lower sv]"
  have f: "find P ss = (case [sv. sv \<leftarrow> ss, P sv] of [] \<Rightarrow> None | p # _ \<Rightarrow> Some p)" for P
    by (induction ss) auto
  show ?case
  proof (cases ?m)
    case Nil
    then show ?thesis using Cons.IH by (simp add: f del: concat_eq_Nil_conv)
  next
    case (Cons p ps)
    then show ?thesis by (simp add: f)
  qed
qed simp

lemma select_protocol_agreed: "select_protocol opts ctx = agreed_protocol opts ctx"
proof (cases "hc_headers ctx ''sec-websocket-protocol''")
  case (Some h)
  have "parse_header_csv h = map strip (split_commas h)"
    by (simp add: parse_header_csv_def csv_loop_split trim_eq_strip)
  moreover have "[sv. c \<leftarrow> map strip ts, sv \<leftarrow> ss, to_lower c = to_lower sv] = [sv. t \<leftarrow> ts, sv \<leftarrow> ss, to_lower (strip t) = to_lower sv]" for ts ss
    by (induction ts) simp_all
  moreover have e: "concat (map (\<lambda>t. []) ts) = []" for ts by (induction ts) simp_all
  ultimately show ?thesis
    using Some by (auto simp: select_protocol_def agreed_protocol_def pick_subprotocol_first e)
qed (simp add: select_protocol_def agreed_protocol_def)

lemmas decision_specs = headers_ok_valid origin_ok_allowed select_protocol_agreed

context reliable_sock
begin

lemma handshake_fail_exact:
  assumes "\<And>s. outb (close s) = outb s \<and> inb (close s) = inb s"
  shows "\<exists>s1. handshake_fail send_all close dc code why body ctx s =
      Some (\<lparr>ar_ok = False, status_code = code, reason = why, selected_subprotocol = [], request = ctx\<rparr>, s1) \<and>
      inb s1 = inb s \<and> outb s1 = outb s @ bytes_of (build_http_response code why body)"
proof -
  obtain s1 where "send_all (bytes_of (build_http_response code why body)) s = Some (int (length (bytes_of (build_http_response code why body))), s1)"
    "outb s1 = outb s @ bytes_of (build_http_response code why body)" "inb s1 = inb s"
    by (rule send_all_exact)
  then show ?thesis using assms by (intro exI [of _ "if dc then close s1 else s1"]) (simp add: handshake_fail_def)
qed

text \<open>Every outcome of \<open>accept\<close> that is not an acceptance sends one error response, or none when the client has gone.\<close>

lemma ws_accept_outcome:
  assumes close: "\<And>s. outb (close s) = outb s \<and> inb (close s) = inb s"
    and loop: "accept_loop recv exec opts p0 accept_init s = Some (st, s1)"
  shows "\<exists>r s2. ws_accept recv send_all close exec digest opts p0 s = Some (r, s2) \<and> inb s2 = inb s1 \<and> request r = st_ctx st \<and>
    (if acceptable digest opts st
     then ar_ok r \<and> status_code r = 101 \<and> selected_subprotocol r = agreed_protocol opts (st_ctx st) \<and>
       outb s2 = outb s1 @ bytes_of (ws_response digest opts st)
     else \<not> ar_ok r \<and> selected_subprotocol r = [] \<and>
       (if (parse_error st \<or> \<not> message_complete (st_ctx st)) \<and> (client_closed_early st \<or> st_status st = 0) then outb s2 = outb s1
        else \<exists>body. outb s2 = outb s1 @ bytes_of (build_http_response (status_code r) (reason r) body)))"
    (is "\<exists>r s2. ?P r s2")
proof (cases "parse_error st \<or> \<not> message_complete (st_ctx st)")
  case True
  then have no: "\<not> acceptable digest opts st" by (auto simp: acceptable_def)
  have w: "ws_accept recv send_all close exec digest opts p0 s = accept_incomplete send_all close opts st s1"
    using True by (simp add: ws_accept_def loop Let_def)
  show ?thesis
  proof (cases "client_closed_early st \<or> st_status st = 0")
    case quiet: True
    let ?s2 = "if close_on_failure opts \<or> client_closed_early st then close s1 else s1"
    have "(\<not> client_closed_early st \<and> st_status st \<noteq> 0) = False" using quiet by auto
    then obtain r where "accept_incomplete send_all close opts st s1 = Some (r, ?s2)"
        "\<not> ar_ok r" "selected_subprotocol r = []" "request r = st_ctx st"
      by (simp add: accept_incomplete_def Let_def)
    then have "?P r ?s2" using True quiet no close w by auto
    then show ?thesis by blast
  next
    case loud: False
    let ?why = "if parse_error_reason st \<noteq> [] then parse_error_reason st else st_reason st"
    let ?body = "''WebSocket handshake failed: '' @ (if parse_error_reason st = [] then ''incomplete request'' else parse_error_reason st) @ nl"
    obtain s2 where s2: "send_all (bytes_of (build_http_response (st_status st) ?why ?body)) s1 =
        Some (int (length (bytes_of (build_http_response (st_status st) ?why ?body))), s2)"
      "outb s2 = outb s1 @ bytes_of (build_http_response (st_status st) ?why ?body)" "inb s2 = inb s1"
      by (rule send_all_exact)
    let ?r = "\<lparr>ar_ok = False, status_code = st_status st, reason = ?why, selected_subprotocol = [], request = st_ctx st\<rparr>"
    have "accept_incomplete send_all close opts st s1 = Some (?r, if close_on_failure opts \<or> client_closed_early st then close s2 else s2)"
      using loud s2(1) unfolding accept_incomplete_def Let_def by simp
    then have "?P ?r (if close_on_failure opts \<or> client_closed_early st then close s2 else s2)"
      using True no loud w close s2 by auto
    then show ?thesis by blast
  qed
next
  case False
  let ?ctx = "st_ctx st"
  have bad: "\<exists>r s2. ?P r s2"
    if w: "ws_accept recv send_all close exec digest opts p0 s = handshake_fail send_all close (close_on_failure opts) code why body ?ctx s1"
      and no: "\<not> acceptable digest opts st" for code why body
  proof -
    obtain s2 where "handshake_fail send_all close (close_on_failure opts) code why body ?ctx s1 =
        Some (\<lparr>ar_ok = False, status_code = code, reason = why, selected_subprotocol = [], request = ?ctx\<rparr>, s2)"
      "inb s2 = inb s1" "outb s2 = outb s1 @ bytes_of (build_http_response code why body)"
      using handshake_fail_exact [OF close] by blast
    then have "?P \<lparr>ar_ok = False, status_code = code, reason = why, selected_subprotocol = [], request = ?ctx\<rparr> s2"
      using w no False by auto
    then show ?thesis by blast
  qed
  note unf = ws_accept_def loop Let_def decision_specs
  show ?thesis
  proof (cases "acceptable digest opts st")
    case True
    obtain s2 where s2: "send_all (bytes_of (ws_response digest opts st)) s1 = Some (int (length (bytes_of (ws_response digest opts st))), s2)"
      "outb s2 = outb s1 @ bytes_of (ws_response digest opts st)" "inb s2 = inb s1"
      by (rule send_all_exact)
    then have "ws_accept recv send_all close exec digest opts p0 s =
      Some (\<lparr>ar_ok = True, status_code = 101, reason = ''Switching Protocols'', selected_subprotocol = agreed_protocol opts ?ctx, request = ?ctx\<rparr>, s2)"
      using True by (simp add: unf acceptable_def ws_response_def)
    then show ?thesis using True s2 by auto
  next
    case no: False
    then consider "to_lower (hc_method ?ctx) \<noteq> ''get''" | "to_lower (hc_method ?ctx) = ''get''" "\<not> valid_upgrade ?ctx"
      | "to_lower (hc_method ?ctx) = ''get''" "valid_upgrade ?ctx" "\<not> allowed_origin opts ?ctx"
      | "to_lower (hc_method ?ctx) = ''get''" "valid_upgrade ?ctx" "allowed_origin opts ?ctx"
        "compute_accept_key digest (the (hc_headers ?ctx ''sec-websocket-key'')) = []"
      using False by (auto simp: acceptable_def)
    then show ?thesis
    proof cases
      case 1
      then show ?thesis using False no by (intro bad [of 405 "''Method Not Allowed''" "''WebSocket requires GET'' @ nl"]) (simp_all add: unf)
    next
      case 2
      then show ?thesis
        using False no by (intro bad [of 400 "''Bad Request''" "''Missing or invalid WebSocket headers'' @ nl"]) (simp_all add: unf)
    next
      case 3
      then show ?thesis using False no by (intro bad [of 403 "''Forbidden''" "''Origin not allowed'' @ nl"]) (simp_all add: unf)
    next
      case 4
      then show ?thesis
        using False no by (intro bad [of 500 "''Internal Server Error''" "''Failed to compute accept key'' @ nl"]) (simp_all add: unf)
    qed
  qed
qed

end

section \<open>Properties\<close>


definition demo_events :: "http_event list" where
  "demo_events =
     [On_message_begin, On_method ''GET'', On_url ''/'',
      On_header_field ''Upgrade'', On_header_value ''WebSocket'', On_header_value_complete,
      On_header_field ''Connection'', On_header_value ''keep-alive, Upgrade'', On_header_value_complete,
      On_header_field ''Sec-WebSocket-Version'', On_header_value '' 13'', On_header_value_complete,
      On_header_field ''Sec-WebSocket-Key'', On_header_value ''abc'', On_header_value_complete, On_headers_complete]"

definition demo_exec :: "unit \<Rightarrow> string \<Rightarrow> http_event list \<times> llhttp_errno \<times> unit" where
  "demo_exec p data = (demo_events, HPE_PAUSED_UPGRADE, ())"

definition demo_opts :: server_options where
  "demo_opts = \<lparr>subprotocols = [], allowed_origins = [], check_origin = False, close_on_failure = True, max_request_size = 16384\<rparr>"

lemma demo_ctx:
  "to_lower (hc_method (fold http_callback demo_events c)) = ''get''" "headers_ok (fold http_callback demo_events c)"
  "hc_headers (fold http_callback demo_events c) ''sec-websocket-key'' = Some ''abc''"
proof -
  have f: "fold http_callback demo_events c = fold http_callback (tl demo_events) ctx_reset"
    by (simp add: demo_events_def)
  show "to_lower (hc_method (fold http_callback demo_events c)) = ''get''" unfolding f by code_simp
  show "headers_ok (fold http_callback demo_events c)" unfolding f by code_simp
  show "hc_headers (fold http_callback demo_events c) ''sec-websocket-key'' = Some ''abc''" unfolding f by code_simp
qed



text \<open>
  C37: Over any socket \<open>accept\<close> reads at most 4096 bytes beyond \<open>max_request_size\<close>; when it reads more than \<open>max_request_size\<close> the request
  is refused with status 431; the bytes read are a prefix of the stream and nothing is sent while reading.
\<close>

theorem handshake_bounded:
  assumes "stream_sock recv send_all inb outb" and "accept_loop recv exec opts p0 accept_init s = Some (st, s1)"
  shows "\<exists>d. inb s = d @ inb s1 \<and> length d \<le> max_request_size opts + 4096 \<and> outb s1 = outb s \<and>
    (length d \<le> max_request_size opts \<or> parse_error st \<and> st_status st = 431)"
  using stream_sock.accept_loop_bounded [OF assms] by (auto simp: accept_init_def)

theorem handshake_bounded_witness:
  "\<exists>st s1 d. accept_loop (sock_recv seg_os seg_idle 40) demo_exec demo_opts () accept_init (demo_sock [Some (0x47, [])]) = Some (st, s1) \<and>
     [0x47] = d @ seg_bytes (inq (kern s1)) \<and> length d \<le> 16384 + 4096"
proof -
  obtain st s1 where l: "accept_loop (sock_recv seg_os seg_idle 40) demo_exec demo_opts () accept_init (demo_sock [Some (0x47, [])]) = Some (st, s1)"
    using seg.rsk.accept_loop_returns [of 40 demo_exec demo_opts "()" accept_init "demo_sock [Some (0x47, [])]"] by blast
  from handshake_bounded [OF seg.sk.stream_sock_axioms l] show ?thesis
    using l by (auto simp: demo_opts_def)
qed

text \<open>
  The comma-separated header values: \<open>parse_header_csv\<close> and \<open>connection_contains_upgrade\<close>, written with index loops over the
  text, agree with splitting at the commas and stripping white space at both ends of each piece.
\<close>

theorem header_lists_equivalent:
  "parse_header_csv v = map strip (split_commas v) \<and>
   connection_contains_upgrade v = (''upgrade'' \<in> set (map (\<lambda>t. to_lower (strip t)) (split_commas v)))"
  by (simp add: parse_header_csv_def csv_loop_split trim_eq_strip connection_contains_upgrade_split)

lemma raw_data_callbacks:
  "raw_data (fold http_callback evs c) = (if On_message_begin \<in> set evs then [] else raw_data c)"
proof (induction evs arbitrary: c)
  case (Cons ev evs)
  have "raw_data (http_callback ev c) = (if ev = On_message_begin then [] else raw_data c)"
    by (cases ev) (simp_all add: ctx_reset_def store_header_def)
  then show ?case using Cons by auto
qed simp

text \<open>
  The loop appends a chunk to \<open>raw_data\<close> before it parses it, and the callback at the beginning of a message resets the context: the chunk
  that begins the request is lost from \<open>raw_data\<close>.
\<close>

lemma handshake_drops_raw_data:
  assumes "recv 4096 s = Some (n, d, s1)" and "0 < n" and "nat n \<le> max_request_size opts"
    and "exec p0 (chars (take (nat n) d)) = (evs, HPE_PAUSED_UPGRADE, p1)" and "On_message_begin \<in> set evs"
  shows "\<exists>st. accept_loop recv exec opts p0 accept_init s = Some (st, s1) \<and> raw_data (st_ctx st) = []"
  using assms by (subst accept_loop.simps) (simp add: accept_init_def ctx_reset_def raw_data_callbacks)

end
