(* ===== verification/Dns_Resolver.thy ===== *)
theory Dns_Resolver
  imports Workqueue "HOL-Library.Multiset" Socket_Interface
begin

text \<open>
  Name resolution: \<^verbatim>\<open>net/dns_resolver.cpp\<close>.

  \<open>getaddrinfo\<close> and \<open>gai_strerror\<close> are arguments; a result list is a list of \<open>addrinfo\<close>. Socket addresses are byte strings in the
  layout of a little-endian Linux: the family in the first two bytes, then the port. The second part models the worker threads of
  \<open>async_resolver::Impl\<close> as a step relation over the shared queue; a job is named by a number, its result is delivered through
  the executor of \<^verbatim>\<open>workqueue.hpp\<close>.
\<close>

section \<open>Synchronous resolution\<close>

record addrinfo =
  ai_family :: int
  ai_addr :: "bytes option"
  ai_addrlen :: nat

record resolve_options =
  ro_family :: int
  allow_dual_stack :: bool

record endpoint_entry =
  ep_addr :: bytes
  ep_len :: nat

record resolve_result =
  success :: bool
  storage :: bytes
  res_length :: nat
  error_code :: int
  error_message :: string
  endpoints :: "endpoint_entry list"
  selected_index :: "nat option"

definition AF_UNSPEC :: int where "AF_UNSPEC = 0"
definition AF_INET4 :: int where "AF_INET4 = 2"
definition AF_INET6 :: int where "AF_INET6 = 10"
definition EAI_NONAME :: int where "EAI_NONAME = - 2"
definition EAI_FAIL :: int where "EAI_FAIL = - 4"
definition sizeof_storage :: nat where "sizeof_storage = 128"
definition sizeof_sockaddr_in6 :: nat where "sizeof_sockaddr_in6 = 28"

definition strip_brackets :: "string \<Rightarrow> string" where
  "strip_brackets input =
     (if length input \<ge> 2 \<and> hd input = CHR ''['' \<and> last input = CHR '']'' then take (length input - 2) (drop 1 input) else input)"

text \<open>
  The twenty-eight bytes of \<open>sockaddr_in6\<close>: family, port, flow info, address, scope; \<open>v4\<close> are the bytes of a \<open>sockaddr_in\<close>: family,
  port, address.
\<close>

definition populate_ipv4_mapped :: "bytes \<Rightarrow> bytes" where
  "populate_ipv4_mapped v4 =
     [10, 0] @ take 2 (drop 2 v4) @ replicate 4 0 @
     (replicate 10 0 @ [0xFF, 0xFF] @ take 4 (drop 4 v4)) @ replicate 4 0"

text \<open>\<open>memcpy\<close> over the front of a buffer.\<close>

definition copy_front :: "bytes \<Rightarrow> bytes \<Rightarrow> bytes" where
  "copy_front src dst = src @ drop (length src) dst"

definition collect_endpoints :: "addrinfo list \<Rightarrow> endpoint_entry list" where
  "collect_endpoints ais =
     map (\<lambda>ai. \<lparr>ep_addr = copy_front (take (ai_addrlen ai) (the (ai_addr ai))) (replicate sizeof_storage 0), ep_len = ai_addrlen ai\<rparr>)
       (filter (\<lambda>ai. ai_addr ai \<noteq> None \<and> ai_addrlen ai > 0 \<and> ai_addrlen ai \<le> sizeof_storage) ais)"

definition admissible :: "resolve_options \<Rightarrow> addrinfo \<Rightarrow> bool" where
  "admissible opts ai \<longleftrightarrow> ro_family opts = AF_UNSPEC \<or> ai_family ai = ro_family opts \<or>
     ro_family opts = AF_INET6 \<and> allow_dual_stack opts \<and> ai_family ai = AF_INET4"

text \<open>The selection loop, with its running index.\<close>

fun select_loop :: "resolve_options \<Rightarrow> nat \<Rightarrow> nat \<Rightarrow> addrinfo list \<Rightarrow> (addrinfo \<times> nat option) option" where
  "select_loop opts n_endpoints index [] = None"
| "select_loop opts n_endpoints index (ai # ais) =
     (if ro_family opts = AF_UNSPEC then Some (ai, if index < n_endpoints then Some index else None)
      else if ai_family ai = ro_family opts then Some (ai, if index < n_endpoints then Some index else None)
      else if ro_family opts = AF_INET6 \<and> allow_dual_stack opts \<and> ai_family ai = AF_INET4
      then Some (ai, if index < n_endpoints then Some index else None)
      else select_loop opts n_endpoints (index + 1) ais)"

definition empty_result :: resolve_result where
  "empty_result =
     \<lparr>success = False, storage = replicate sizeof_storage 0, res_length = 0, error_code = 0, error_message = [], endpoints = [],
      selected_index = None\<rparr>"

definition hints_family :: "resolve_options \<Rightarrow> int" where
  "hints_family opts = (if ro_family opts = AF_INET6 \<and> allow_dual_stack opts then AF_UNSPEC else ro_family opts)"

definition copy_family :: "addrinfo \<Rightarrow> resolve_result \<Rightarrow> bool \<times> resolve_result" where
  "copy_family ai r =
     (if ai_addrlen ai > sizeof_storage then (False, r)
      else (True, r\<lparr>storage := copy_front (take (ai_addrlen ai) (case ai_addr ai of Some b \<Rightarrow> b | None \<Rightarrow> [])) (storage r),
                    res_length := ai_addrlen ai, success := True\<rparr>))"

definition resolve_core ::
  "(string \<Rightarrow> nat \<Rightarrow> int \<Rightarrow> int \<times> addrinfo list) \<Rightarrow> (int \<Rightarrow> string) \<Rightarrow> string \<Rightarrow> nat \<Rightarrow> resolve_options \<Rightarrow> resolve_result \<Rightarrow> resolve_result" where
  "resolve_core getaddrinfo gai_strerror host port opts r0 =
     (let r = r0\<lparr>success := False, error_code := 0, error_message := [], res_length := 0, endpoints := [], selected_index := None\<rparr>;
          node = strip_brackets host
      in if node = [] then r\<lparr>error_code := EAI_NONAME, error_message := ''empty host''\<rparr>
         else case getaddrinfo node port (hints_family opts) of (rc, ais) \<Rightarrow>
           if rc \<noteq> 0 \<or> ais = [] then r\<lparr>error_code := rc, error_message := (if rc = 0 then ''no results'' else gai_strerror rc)\<rparr>
           else let r1 = r\<lparr>endpoints := collect_endpoints ais\<rparr>
                in case select_loop opts (length (endpoints r1)) 0 ais of
                     None \<Rightarrow> r1\<lparr>error_code := EAI_NONAME, error_message := ''no matching family''\<rparr>
                   | Some (ai, idx) \<Rightarrow>
                       let r2 = r1\<lparr>selected_index := idx\<rparr>
                       in if ai_family ai = ro_family opts \<or> ro_family opts = AF_UNSPEC
                          then (case copy_family ai r2 of (ok, r3) \<Rightarrow>
                                  if \<not> ok then r3\<lparr>error_code := EAI_FAIL, error_message := ''address too large''\<rparr> else r3)
                          else if ro_family opts = AF_INET6 \<and> allow_dual_stack opts \<and> ai_family ai = AF_INET4
                          then r2\<lparr>storage := copy_front (populate_ipv4_mapped (case ai_addr ai of Some b \<Rightarrow> b | None \<Rightarrow> [])) (storage r2),
                                   res_length := sizeof_sockaddr_in6, success := True\<rparr>
                          else r2\<lparr>error_code := EAI_NONAME, error_message := ''unsupported address family''\<rparr>)"

definition resolve_sync ::
  "(string \<Rightarrow> nat \<Rightarrow> int \<Rightarrow> int \<times> addrinfo list) \<Rightarrow> (int \<Rightarrow> string) \<Rightarrow> string \<Rightarrow> nat \<Rightarrow> resolve_options \<Rightarrow> resolve_result" where
  "resolve_sync getaddrinfo gai_strerror host port opts = resolve_core getaddrinfo gai_strerror host port opts empty_result"

section \<open>Asynchronous resolution\<close>

record job =
  jb_host :: string
  jb_port :: nat
  jb_options :: resolve_options
  jb_exec :: bool
  jb_continuation :: "addr option"
  jb_result :: resolve_result

record dns = wq +
  jobs :: "nat \<Rightarrow> job"
  dq :: "nat list"
  dns_stop :: bool
  node_job :: "addr \<Rightarrow> nat option"
  resumed_h :: "addr list"

definition dns_enqueue :: "nat \<Rightarrow> 'a dns_scheme \<Rightarrow> 'a dns_scheme" where
  "dns_enqueue j s = s\<lparr>dq := dq s @ [j]\<rparr>"

definition resolve_suspend ::
  "nat \<Rightarrow> string \<Rightarrow> nat \<Rightarrow> resolve_options \<Rightarrow> addr \<Rightarrow> 'a dns_scheme \<Rightarrow> 'a dns_scheme" where
  "resolve_suspend j host port opts h s =
     dns_enqueue j (s\<lparr>jobs := (jobs s)(j := \<lparr>jb_host = host, jb_port = port, jb_options = opts, jb_exec = True,
                                             jb_continuation = Some h, jb_result = empty_result\<rparr>)\<rparr>)"

definition resolve_resume :: "nat \<Rightarrow> 'a dns_scheme \<Rightarrow> resolve_result" where
  "resolve_resume j s = jb_result (jobs s j)"

text \<open>\<open>nd\<close> is the address of the new \<open>ResumeNode\<close>; \<open>node_job\<close> is its job pointer, empty once the node is deleted.\<close>

definition post_result :: "addr \<Rightarrow> nat \<Rightarrow> 'a dns_scheme \<Rightarrow> 'a dns_scheme" where
  "post_result nd j s =
     (if \<not> jb_exec (jobs s j)
      then (case jb_continuation (jobs s j) of Some h \<Rightarrow> s\<lparr>resumed_h := resumed_h s @ [h]\<rparr> | None \<Rightarrow> s)
      else wq_post nd (s\<lparr>node_job := (node_job s)(nd := Some j), lks := INIT_LIST_HEAD nd (lks s),
                         func := (func s)(nd := Code Dns_resume_run)\<rparr>))"

definition resume_node_run :: "addr \<Rightarrow> 'a dns_scheme \<Rightarrow> 'a dns_scheme" where
  "resume_node_run nd s =
     (case node_job s nd of
        None \<Rightarrow> s
      | Some j \<Rightarrow>
          let h = jb_continuation (jobs s j);
              s1 = s\<lparr>jobs := (jobs s)(j := (jobs s j)\<lparr>jb_continuation := None\<rparr>), node_job := (node_job s)(nd := None)\<rparr>
          in (case h of Some c \<Rightarrow> s1\<lparr>resumed_h := resumed_h s1 @ [c]\<rparr> | None \<Rightarrow> s1))"

text \<open>The locked section of \<open>worker_loop\<close>: wait, leave, or take the first job.\<close>

datatype take_result = Wait | Leave | Take nat

definition worker_take :: "'a dns_scheme \<Rightarrow> take_result \<times> 'a dns_scheme" where
  "worker_take s =
     (if \<not> (dns_stop s \<or> dq s \<noteq> []) then (Wait, s)
      else if dns_stop s \<and> dq s = [] then (Leave, s)
      else (Take (hd (dq s)), s\<lparr>dq := tl (dq s)\<rparr>))"

definition worker_resolve ::
  "(string \<Rightarrow> nat \<Rightarrow> int \<Rightarrow> int \<times> addrinfo list) \<Rightarrow> (int \<Rightarrow> string) \<Rightarrow> nat \<Rightarrow> 'a dns_scheme \<Rightarrow> 'a dns_scheme" where
  "worker_resolve getaddrinfo gai_strerror j s =
     (let b = jobs s j
      in s\<lparr>jobs := (jobs s)(j := b\<lparr>jb_result := resolve_core getaddrinfo gai_strerror (jb_host b) (jb_port b) (jb_options b) (jb_result b)\<rparr>)\<rparr>)"

definition worker_count_of :: "nat \<Rightarrow> nat \<Rightarrow> nat" where
  "worker_count_of hardware worker_count =
     (let hw = (if hardware = 0 then 2 else hardware)
      in if worker_count = 0 then max 2 (min hw 8) else worker_count)"

definition dns_shutdown :: "'a dns_scheme \<Rightarrow> 'a dns_scheme" where
  "dns_shutdown s = s\<lparr>dns_stop := True\<rparr>"

section \<open>Selection\<close>

lemma select_loop_find:
  "map_option fst (select_loop opts n i ais) = find (admissible opts) ais"
  by (induction ais arbitrary: i) (auto simp: admissible_def)

lemma select_loop_index:
  "select_loop opts n i ais = Some (ai, idx) \<Longrightarrow>
    \<exists>k<length ais. ais ! k = ai \<and> idx = (if i + k < n then Some (i + k) else None)"
proof (induction ais arbitrary: i)
  case (Cons a ais)
  show ?case
  proof (cases "admissible opts a")
    case True
    then show ?thesis using Cons.prems by (intro exI [of _ 0]) (auto simp: admissible_def split: if_splits)
  next
    case False
    then have "select_loop opts n (i + 1) ais = Some (ai, idx)" using Cons.prems by (auto simp: admissible_def split: if_splits)
    from Cons.IH [OF this] obtain k where "k < length ais" "ais ! k = ai" "idx = (if i + 1 + k < n then Some (i + 1 + k) else None)" by blast
    then show ?thesis by (intro exI [of _ "Suc k"]) auto
  qed
qed simp

text \<open>What the system promises of a result list: every entry has an address of its length that fits, with room for IPv4 fields.\<close>

definition addr_ok :: "addrinfo \<Rightarrow> bool" where
  "addr_ok ai \<longleftrightarrow> (case ai_addr ai of None \<Rightarrow> False | Some b \<Rightarrow> length b = ai_addrlen ai) \<and> 16 \<le> ai_addrlen ai \<and> ai_addrlen ai \<le> sizeof_storage"

definition entry_of :: "addrinfo \<Rightarrow> endpoint_entry" where
  "entry_of ai = \<lparr>ep_addr = copy_front (take (ai_addrlen ai) (the (ai_addr ai))) (replicate sizeof_storage 0), ep_len = ai_addrlen ai\<rparr>"

lemma addr_okD:
  "addr_ok ai \<Longrightarrow> \<exists>b. ai_addr ai = Some b \<and> length b = ai_addrlen ai \<and> 16 \<le> ai_addrlen ai \<and> ai_addrlen ai \<le> sizeof_storage"
  by (auto simp: addr_ok_def split: option.splits)

lemma collect_endpoints_all: "(\<And>ai. ai \<in> set ais \<Longrightarrow> addr_ok ai) \<Longrightarrow> collect_endpoints ais = map entry_of ais"
proof (induction ais)
  case (Cons a ais)
  have "addr_ok a" using Cons.prems by simp
  with addr_okD [of a] Cons show ?case by (auto simp: collect_endpoints_def entry_of_def)
qed (simp add: collect_endpoints_def)

lemma populate_length: "8 \<le> length v4 \<Longrightarrow> length (populate_ipv4_mapped v4) = sizeof_sockaddr_in6"
  by (simp add: populate_ipv4_mapped_def sizeof_sockaddr_in6_def)

lemma take_copy_front [simp]: "n = length src \<Longrightarrow> take n (copy_front src dst) = src"
  by (simp add: copy_front_def)

section \<open>Properties\<close>


definition demo_addr :: addrinfo where
  "demo_addr = \<lparr>ai_family = 2, ai_addr = Some ([2, 0, 0, 80, 127, 0, 0, 1] @ replicate 8 0), ai_addrlen = 16\<rparr>"


text \<open>
  The index that the selection loop counts runs over all entries, the endpoints only over those with an address that fits: after
  an entry without an address \<open>selected_index\<close> names another endpoint than the selected one, and an entry without an address is
  reported as a success of length 0.
\<close>

lemma dns_selected_index_mismatch:
  "\<exists>ais r. r = resolve_sync (\<lambda>n p f. (0, ais)) (\<lambda>e. []) ''a'' 80 \<lparr>ro_family = 0, allow_dual_stack = False\<rparr> \<and>
     success r \<and> res_length r = 0 \<and> selected_index r = Some 0 \<and> ep_len (endpoints r ! 0) = 16"
  by (intro exI [of _ "[\<lparr>ai_family = 2, ai_addr = None, ai_addrlen = 0\<rparr>, demo_addr]"])
    (simp add: resolve_sync_def resolve_core_def Let_def strip_brackets_def collect_endpoints_def demo_addr_def copy_family_def
      sizeof_storage_def AF_UNSPEC_def empty_result_def)

section \<open>The worker threads\<close>

datatype wpc = Idle | Busy nat | Gone

record pool =
  pcs :: "nat \<Rightarrow> wpc"
  submitted :: "nat list"
  taken :: "nat list"
  delivered :: "nat list"

text \<open>
  One step is one locked section, one resolution with its delivery, or one run of a \<open>ResumeNode\<close> by the executor. Jobs are new when they are submitted, and none is
  submitted once the destructor has set \<open>stop\<close>.
\<close>

inductive dns_step ::
  "(string \<Rightarrow> nat \<Rightarrow> int \<Rightarrow> int \<times> addrinfo list) \<Rightarrow> (int \<Rightarrow> string) \<Rightarrow> nat \<Rightarrow> 'a dns_scheme \<times> pool \<Rightarrow> 'a dns_scheme \<times> pool \<Rightarrow> bool"
  for gai err N where
  Submit: "\<not> dns_stop s \<Longrightarrow> j \<notin> set (submitted g) \<Longrightarrow>
    dns_step gai err N (s, g) (resolve_suspend j host port opts h s, g\<lparr>submitted := submitted g @ [j]\<rparr>)"
| Shutdown: "dns_step gai err N (s, g) (dns_shutdown s, g)"
| Take: "w < N \<Longrightarrow> pcs g w = Idle \<Longrightarrow> worker_take s = (Take j, s1) \<Longrightarrow>
    dns_step gai err N (s, g) (s1, g\<lparr>pcs := (pcs g)(w := Busy j), taken := taken g @ [j]\<rparr>)"
| Leave: "w < N \<Longrightarrow> pcs g w = Idle \<Longrightarrow> worker_take s = (Leave, s1) \<Longrightarrow>
    dns_step gai err N (s, g) (s1, g\<lparr>pcs := (pcs g)(w := Gone)\<rparr>)"
| Deliver: "w < N \<Longrightarrow> pcs g w = Busy j \<Longrightarrow>
    dns_step gai err N (s, g) (post_result nd j (worker_resolve gai err j s), g\<lparr>pcs := (pcs g)(w := Idle), delivered := delivered g @ [j]\<rparr>)"
| Resume: "dns_step gai err N (s, g) (resume_node_run nd s, g)"

inductive dns_reachable ::
  "(string \<Rightarrow> nat \<Rightarrow> int \<Rightarrow> int \<times> addrinfo list) \<Rightarrow> (int \<Rightarrow> string) \<Rightarrow> nat \<Rightarrow> 'a dns_scheme \<times> pool \<Rightarrow> bool" for gai err N where
  Start: "dq s = [] \<Longrightarrow> \<not> dns_stop s \<Longrightarrow>
    dns_reachable gai err N (s, \<lparr>pcs = (\<lambda>_. Idle), submitted = [], taken = [], delivered = []\<rparr>)"
| Step: "dns_reachable gai err N c \<Longrightarrow> dns_step gai err N c c' \<Longrightarrow> dns_reachable gai err N c'"

definition busy_at :: "wpc \<Rightarrow> nat multiset" where
  "busy_at pc = (case pc of Busy j \<Rightarrow> {#j#} | _ \<Rightarrow> {#})"

definition busy_jobs :: "nat \<Rightarrow> (nat \<Rightarrow> wpc) \<Rightarrow> nat multiset" where
  "busy_jobs N pc = (\<Sum>w<N. busy_at (pc w))"

lemma busy_jobs_upd:
  assumes "w < N"
  shows "busy_jobs N (pc(w := x)) + busy_at (pc w) = busy_jobs N pc + busy_at x"
proof -
  have f: "finite {..<N}" "w \<in> {..<N}" using assms by auto
  have "(\<Sum>v\<in>{..<N} - {w}. busy_at ((pc(w := x)) v)) = (\<Sum>v\<in>{..<N} - {w}. busy_at (pc v))"
    by (rule sum.cong) auto
  then show ?thesis
    unfolding busy_jobs_def sum.remove [OF f, of "\<lambda>v. busy_at ((pc(w := x)) v)"] sum.remove [OF f, of "\<lambda>v. busy_at (pc v)"]
    by simp
qed

definition answered :: "(string \<Rightarrow> nat \<Rightarrow> int \<Rightarrow> int \<times> addrinfo list) \<Rightarrow> (int \<Rightarrow> string) \<Rightarrow> job \<Rightarrow> bool" where
  "answered gai err b \<longleftrightarrow> jb_result b = resolve_sync gai err (jb_host b) (jb_port b) (jb_options b)"

definition pool_inv ::
  "(string \<Rightarrow> nat \<Rightarrow> int \<Rightarrow> int \<times> addrinfo list) \<Rightarrow> (int \<Rightarrow> string) \<Rightarrow> nat \<Rightarrow> 'a dns_scheme \<times> pool \<Rightarrow> bool" where
  "pool_inv gai err N c \<longleftrightarrow> (let s = fst c; g = snd c in
     distinct (submitted g) \<and> submitted g = taken g @ dq s \<and> mset (taken g) = busy_jobs N (pcs g) + mset (delivered g) \<and>
     (\<forall>w<N. pcs g w = Gone \<longrightarrow> dns_stop s \<and> dq s = []) \<and>
     (\<forall>j \<in> set (submitted g). if j \<in> set (delivered g) then answered gai err (jobs s j) else jb_result (jobs s j) = empty_result))"

lemma resolve_core_stateless: "resolve_core gai err h p opts empty_result = resolve_sync gai err h p opts"
  by (simp add: resolve_sync_def)

lemma post_result_frame [simp]:
  "jobs (post_result nd j s) = jobs s" "dq (post_result nd j s) = dq s" "dns_stop (post_result nd j s) = dns_stop s"
  by (auto simp: post_result_def wq_post_def enqueue_def trig_once_def emit_def split: option.splits)

lemma worker_resolve_frame [simp]:
  "dq (worker_resolve gai err j s) = dq s" "dns_stop (worker_resolve gai err j s) = dns_stop s"
  by (simp_all add: worker_resolve_def Let_def)

lemma resume_node_run_frame [simp]:
  "dq (resume_node_run nd s) = dq s" "dns_stop (resume_node_run nd s) = dns_stop s"
  "jb_result (jobs (resume_node_run nd s) i) = jb_result (jobs s i)"
  "answered gai err (jobs (resume_node_run nd s) i) = answered gai err (jobs s i)"
  by (auto simp: resume_node_run_def answered_def Let_def split: option.splits)

lemma resolve_suspend_frame [simp]:
  "dq (resolve_suspend j host port opts h s) = dq s @ [j]" "dns_stop (resolve_suspend j host port opts h s) = dns_stop s"
  by (simp_all add: resolve_suspend_def dns_enqueue_def)

lemma pool_invD:
  assumes "pool_inv gai err N (s, g)"
  shows "distinct (submitted g)" "submitted g = taken g @ dq s" "mset (taken g) = busy_jobs N (pcs g) + mset (delivered g)"
    "w < N \<Longrightarrow> pcs g w = Gone \<Longrightarrow> dns_stop s \<and> dq s = []"
    "j \<in> set (submitted g) \<Longrightarrow> if j \<in> set (delivered g) then answered gai err (jobs s j) else jb_result (jobs s j) = empty_result"
    "set (delivered g) \<subseteq> set (taken g)"
proof -
  show m: "mset (taken g) = busy_jobs N (pcs g) + mset (delivered g)" using assms by (simp add: pool_inv_def)
  then have "set_mset (mset (delivered g)) \<subseteq> set_mset (mset (taken g))" by simp
  then show "set (delivered g) \<subseteq> set (taken g)" by simp
qed (use assms in \<open>auto simp: pool_inv_def\<close>)

lemma pool_invI:
  assumes "distinct (submitted g)" "submitted g = taken g @ dq s" "mset (taken g) = busy_jobs N (pcs g) + mset (delivered g)"
    "\<And>w. w < N \<Longrightarrow> pcs g w = Gone \<Longrightarrow> dns_stop s \<and> dq s = []"
    "\<And>j. j \<in> set (submitted g) \<Longrightarrow> if j \<in> set (delivered g) then answered gai err (jobs s j) else jb_result (jobs s j) = empty_result"
  shows "pool_inv gai err N (s, g)"
  unfolding pool_inv_def Let_def fst_conv snd_conv using assms by blast

lemma busy_not_delivered:
  assumes "pool_inv gai err N (s, g)" and "w < N" and "pcs g w = Busy j"
  shows "j \<in> set (taken g)" and "j \<notin> set (delivered g)"
    and "mset (taken g) = busy_jobs N ((pcs g)(w := Idle)) + mset (delivered g @ [j])"
proof -
  have "busy_jobs N ((pcs g)(w := Idle)) + {#j#} = busy_jobs N (pcs g)"
    using busy_jobs_upd [OF assms(2), of "pcs g" Idle] assms(3) by (simp add: busy_at_def)
  then show m: "mset (taken g) = busy_jobs N ((pcs g)(w := Idle)) + mset (delivered g @ [j])"
    using pool_invD(3) [OF assms(1)] by (simp add: ac_simps)
  then have "j \<in># mset (taken g)" by simp
  then show t: "j \<in> set (taken g)" by simp
  have "distinct (taken g)" using pool_invD(1,2) [OF assms(1)] by simp
  then have "count (mset (taken g)) j = 1" using t by (simp add: distinct_count_atmost_1)
  then have "count (mset (delivered g)) j = 0" using m by simp
  then show "j \<notin> set (delivered g)" by (simp add: count_eq_zero_iff)
qed

lemma dns_step_inv: "dns_step gai err N c c' \<Longrightarrow> pool_inv gai err N c \<Longrightarrow> pool_inv gai err N c'"
proof (induction rule: dns_step.induct)
  case (Submit s j g host port opts h)
  note I = pool_invD [OF Submit.prems]
  have nd: "j \<notin> set (delivered g)" using I(2,6) Submit.hyps(2) by auto
  have ng: "pcs g w \<noteq> Gone" if "w < N" for w using I(4) [OF that] Submit.hyps(1) by blast
  have jb: "if i \<in> set (delivered g) then answered gai err (jobs (resolve_suspend j host port opts h s) i)
      else jb_result (jobs (resolve_suspend j host port opts h s) i) = empty_result" if "i \<in> set (submitted g @ [j])" for i
    using that nd I(5) [of i] Submit.hyps(2) by (auto simp: resolve_suspend_def dns_enqueue_def)
  show ?case
    using I(1-3) Submit.hyps(2) ng jb by (simp add: pool_inv_def)
next
  case (Shutdown s g)
  then show ?case by (auto simp: pool_inv_def dns_shutdown_def)
next
  case (Take w g s j s1)
  note I = pool_invD [OF Take.prems]
  have s1: "dq s = j # dq s1" "jobs s1 = jobs s" using Take.hyps(3) by (auto simp: worker_take_def split: if_splits)
  have ng: "pcs g v \<noteq> Gone" if "v < N" for v using I(4) [OF that] s1 by auto
  have "busy_jobs N ((pcs g)(w := Busy j)) = busy_jobs N (pcs g) + {#j#}"
    using busy_jobs_upd [OF Take.hyps(1), of "pcs g" "Busy j"] Take.hyps(2) by (simp add: busy_at_def)
  then show ?case using I(1-3,5) s1 ng by (simp add: pool_inv_def)
next
  case (Leave w g s s1)
  note I = pool_invD [OF Leave.prems]
  have s1: "s1 = s" "dns_stop s" "dq s = []" using Leave.hyps(3) by (auto simp: worker_take_def split: if_splits)
  have "busy_jobs N ((pcs g)(w := Gone)) = busy_jobs N (pcs g)"
    using busy_jobs_upd [OF Leave.hyps(1), of "pcs g" Gone] Leave.hyps(2) by (simp add: busy_at_def)
  then show ?case using I(1-3,5) s1 by (simp add: pool_inv_def)
next
  case (Deliver w g j s nd)
  note I = pool_invD [OF Deliver.prems] and B = busy_not_delivered [OF Deliver.prems Deliver.hyps]
  let ?s = "post_result nd j (worker_resolve gai err j s)"
  have e: "jb_result (jobs s j) = empty_result" using I(5) [of j] B(1,2) I(2) by simp
  have jb: "if i \<in> set (delivered g @ [j]) then answered gai err (jobs ?s i) else jb_result (jobs ?s i) = empty_result"
    if "i \<in> set (submitted g)" for i
    using I(5) [OF that] e by (auto simp: worker_resolve_def Let_def answered_def resolve_core_stateless)
  show ?case
  proof (rule pool_invI)
    fix i assume "i \<in> set (submitted (g\<lparr>pcs := (pcs g)(w := Idle), delivered := delivered g @ [j]\<rparr>))"
    then show "if i \<in> set (delivered (g\<lparr>pcs := (pcs g)(w := Idle), delivered := delivered g @ [j]\<rparr>)) then answered gai err (jobs ?s i)
      else jb_result (jobs ?s i) = empty_result"
      using jb [of i] by simp
  qed (use I(1,2,4) B(3) in \<open>auto split: if_splits\<close>)
next
  case (Resume s g nd)
  then show ?case by (auto simp: pool_inv_def)
qed


definition demo_dns :: dns where
  "demo_dns = wq.extend demo_wq
     (dns.fields (\<lambda>_. \<lparr>jb_host = [], jb_port = 0, jb_options = \<lparr>ro_family = 0, allow_dual_stack = False\<rparr>, jb_exec = False,
        jb_continuation = None, jb_result = empty_result\<rparr>) [] False (\<lambda>_. None) [])"


end
