(* ===== verification/Notify.thy ===== *)
theory Notify
  imports Timer
begin

text \<open>
  The broadcast primitive of \<^verbatim>\<open>sync/inotify.hpp\<close>: \<open>Notify\<close> and its awaiters.

  The state extends that of the timer queue of the same executor. A \<open>notify_req\<close> is named by its work node; its second list
  node \<open>notify_node\<close>, by which it is registered, has an address of its own: \<open>notify_node r\<close>, and \<open>owner n\<close> is the request of a node
  (\<open>container_of\<close>). Resuming a coroutine is recorded in \<open>notified\<close>. The template argument \<open>lock\<close> matters here, because
  \<open>inotify_num\<close> posts while it holds the lock that \<open>post\<close> takes again.
\<close>

section \<open>Data\<close>

datatype lock_kind = Spin_lock | No_lock

record notify = timer +
  ntf_self :: addr
  ntf_list :: addr
  mNotify_one :: int
  mNotify_all :: int
  notify_node :: "addr \<Rightarrow> addr"
  owner :: "addr \<Rightarrow> addr"
  req_cancelled :: "addr \<Rightarrow> bool"
  tmo_node :: "addr \<Rightarrow> addr"
  tmo_armed :: "addr \<Rightarrow> bool"
  tmo_req :: "addr \<Rightarrow> addr option"
  mRegistered :: "addr \<Rightarrow> bool"
  notified :: "addr list"

text \<open>
  \<open>lock()\<close> by the thread that holds the lock: \<open>SpinLock\<close> tests and sets a flag that only this thread would clear, \<open>nolock\<close>
  does nothing.
\<close>

partial_function (option) spin :: "bool \<Rightarrow> bool option" where
  "spin flag = (if flag then spin flag else Some True)"

definition lock_again :: "lock_kind \<Rightarrow> bool option" where
  "lock_again lk = (case lk of Spin_lock \<Rightarrow> spin True | No_lock \<Rightarrow> Some True)"

section \<open>Notify\<close>

text \<open>The loop of \<open>inotify_num\<close> from node \<open>pos\<close> with its successor \<open>n\<close>, the remaining number and the number woken.\<close>

partial_function (option) num_loop ::
  "lock_kind \<Rightarrow> int \<Rightarrow> addr \<Rightarrow> addr \<Rightarrow> addr \<Rightarrow> int \<Rightarrow> int \<Rightarrow> 'a notify_scheme \<Rightarrow> (int \<times> 'a notify_scheme) option" where
  "num_loop lk req_cnt head pos n curcnt ret s =
     (if pos = head then Some (ret, s)
      else if req_cancelled s (owner s pos) then num_loop lk req_cnt head n (nxt (lks s) n) curcnt ret s
      else if req_cnt > 0 \<and> curcnt \<le> 0 then Some (ret, s)
      else (case lock_again lk of
              None \<Rightarrow> None
            | Some _ \<Rightarrow>
                let s1 = wq_post (owner s pos) s
                in num_loop lk req_cnt head n (nxt (lks s1) n) (if req_cnt > 0 then curcnt - 1 else curcnt) (ret + 1) s1))"

definition inotify_num :: "lock_kind \<Rightarrow> int \<Rightarrow> 'a notify_scheme \<Rightarrow> (int \<times> 'a notify_scheme) option" where
  "inotify_num lk req_cnt s =
     (let l = ntf_list s in num_loop lk req_cnt l (nxt (lks s) l) (nxt (lks s) (nxt (lks s) l)) req_cnt 0 s)"

text \<open>
  \<open>inotify_cb\<close> in two parts: what it wakes, with whether the counter for all is reset too, and the reset, between which other threads
  may run.
\<close>

definition inotify_wake :: "lock_kind \<Rightarrow> 'a notify_scheme \<Rightarrow> (int \<times> bool \<times> 'a notify_scheme) option" where
  "inotify_wake lk s =
     (if mNotify_all s > 0 then map_option (\<lambda>(cnt, s1). (cnt, True, s1)) (inotify_num lk (- 1) s)
      else map_option (\<lambda>(cnt, s1). (cnt, False, s1)) (inotify_num lk (mNotify_one s) s))"

definition inotify_reset :: "int \<Rightarrow> bool \<Rightarrow> 'a notify_scheme \<Rightarrow> 'a notify_scheme" where
  "inotify_reset cnt every s =
     (let s1 = (if every then s\<lparr>mNotify_all := 0, mNotify_one := 0\<rparr> else s\<lparr>mNotify_one := 0\<rparr>)
      in if cnt > 0 then trig_once s1 else s1)"

definition inotify_cb :: "lock_kind \<Rightarrow> 'a notify_scheme \<Rightarrow> 'a notify_scheme option" where
  "inotify_cb lk s =
     (if list_empty (ntf_list s) (lks s) then Some s
      else map_option (\<lambda>(cnt, every, s1). inotify_reset cnt every s1) (inotify_wake lk s))"

definition Notify_init :: "'a notify_scheme \<Rightarrow> 'a notify_scheme" where
  "Notify_init s =
     s\<lparr>mNotify_one := 0, mNotify_all := 0, lks := INIT_LIST_HEAD (ntf_list s) (INIT_LIST_HEAD (ntf_self s) (lks s)),
       func := (func s)(ntf_self s := Code Notify_cb)\<rparr>"

definition notify_all :: "'a notify_scheme \<Rightarrow> 'a notify_scheme" where
  "notify_all s = wq_post (ntf_self s) (s\<lparr>mNotify_all := mNotify_all s + 1\<rparr>)"

definition notify_one :: "'a notify_scheme \<Rightarrow> 'a notify_scheme" where
  "notify_one s = wq_post (ntf_self s) (s\<lparr>mNotify_one := mNotify_one s + 1\<rparr>)"

definition regist :: "addr \<Rightarrow> 'a notify_scheme \<Rightarrow> 'a notify_scheme" where
  "regist r s = s\<lparr>lks := list_add_tail (notify_node s r) (ntf_list s) (lks s)\<rparr>"

definition unregist :: "addr \<Rightarrow> 'a notify_scheme \<Rightarrow> 'a notify_scheme" where
  "unregist r s = s\<lparr>lks := list_del (notify_node s r) (lks s)\<rparr>"

section \<open>Awaiters\<close>

definition NotifyReqAwaiter_await_suspend :: "addr \<Rightarrow> 'a notify_scheme \<Rightarrow> 'a notify_scheme" where
  "NotifyReqAwaiter_await_suspend r s =
     regist r (s\<lparr>lks := INIT_LIST_HEAD r (lks s), func := (func s)(r := Code Notify_req_cb)\<rparr>)"

definition NotifyReqAwaiter_cb :: "addr \<Rightarrow> 'a notify_scheme \<Rightarrow> 'a notify_scheme" where
  "NotifyReqAwaiter_cb r s = s\<lparr>notified := notified s @ [r]\<rparr>"

definition NotifyReqAwaiter_dtor :: "addr \<Rightarrow> 'a notify_scheme \<Rightarrow> 'a notify_scheme" where
  "NotifyReqAwaiter_dtor r s = unregist r s"

text \<open>\<open>NotifyReqTimeoutAwaiter\<close>: \<open>tmo_node r\<close> is its member \<open>mTimeout\<close>; the fields of that node are \<open>tmo_armed\<close> and \<open>tmo_req\<close>.\<close>

definition notify_timeout_suspend :: "int \<Rightarrow> addr \<Rightarrow> 32 word \<Rightarrow> 'a notify_scheme \<Rightarrow> 'a notify_scheme" where
  "notify_timeout_suspend now r timeout_ms s =
     (let tn = tmo_node s r;
          s1 = s\<lparr>tmo_req := (tmo_req s)(tn \<mapsto> r), tmo_armed := (tmo_armed s)(tn := True),
                 lks := INIT_LIST_HEAD tn (INIT_LIST_HEAD r (lks s)),
                 func := (func s)(tn := Code Notify_on_timer, r := Code Notify_req_timeout_cb)\<rparr>;
          s2 = (if timeout_ms \<noteq> 0xffffffff then post_delayed_work now tn timeout_ms s1 else s1);
          s3 = regist r s2
      in s3\<lparr>mRegistered := (mRegistered s3)(r := True)\<rparr>)"

definition notify_timeout_cb :: "bool \<Rightarrow> addr \<Rightarrow> 'a notify_scheme \<Rightarrow> 'a notify_scheme option" where
  "notify_timeout_cb ltr r s =
     (let tn = tmo_node s r in
      if \<not> tmo_armed s tn then Some s
      else map_option (\<lambda>s1. s1\<lparr>notified := notified s1 @ [r]\<rparr>)
             (cancel ltr (Some tn) (s\<lparr>tmo_armed := (tmo_armed s)(tn := False)\<rparr>)))"

definition notify_on_timer :: "addr \<Rightarrow> 'a notify_scheme \<Rightarrow> 'a notify_scheme" where
  "notify_on_timer tn s =
     (if \<not> tmo_armed s tn then s
      else let s1 = s\<lparr>tmo_armed := (tmo_armed s)(tn := False)\<rparr>
           in (case tmo_req s1 tn of
                 None \<Rightarrow> s1
               | Some r \<Rightarrow> s1\<lparr>req_cancelled := (req_cancelled s1)(r := True), notified := notified s1 @ [r]\<rparr>))"

definition notify_timeout_resume :: "addr \<Rightarrow> 'a notify_scheme \<Rightarrow> bool" where
  "notify_timeout_resume r s \<longleftrightarrow> \<not> req_cancelled s r"

definition notify_timeout_dtor :: "bool \<Rightarrow> addr \<Rightarrow> 'a notify_scheme \<Rightarrow> 'a notify_scheme option" where
  "notify_timeout_dtor ltr r s =
     map_option (\<lambda>s1. if mRegistered s1 r then (unregist r s1)\<lparr>mRegistered := (mRegistered s1)(r := False)\<rparr> else s1)
       (cancel ltr (Some (tmo_node s r)) s)"

definition NotifyTryAwaiter_resume :: bool where
  "NotifyTryAwaiter_resume = False"

section \<open>The loop over the requests\<close>

lemma spin_True: "spin True = None"
proof -
  have "spin f = Some y \<Longrightarrow> \<not> f" for f y
    by (rule spin.raw_induct [of "\<lambda>f y. \<not> f"]) (auto split: if_splits)
  then show ?thesis by (cases "spin True") auto
qed

lemma notify_wq_simps [simp]:
  "ntf_self (wq_post a s) = ntf_self s" "ntf_list (wq_post a s) = ntf_list s" "mNotify_one (wq_post a s) = mNotify_one s"
  "mNotify_all (wq_post a s) = mNotify_all s" "owner (wq_post a s) = owner s" "req_cancelled (wq_post a s) = req_cancelled s"
  "ws_head (wq_post a s) = ws_head s" "notified (wq_post a s) = notified s" "notify_node (wq_post a s) = notify_node s"
  for s :: "'a notify_scheme"
  by (simp_all add: wq_post_def enqueue_def trig_once_def emit_def)

lemma fold_post_simps [simp]:
  "ntf_list (fold wq_post xs s) = ntf_list s" "owner (fold wq_post xs s) = owner s" "req_cancelled (fold wq_post xs s) = req_cancelled s"
  "ws_head (fold wq_post xs s) = ws_head s" "mNotify_one (fold wq_post xs s) = mNotify_one s"
  "mNotify_all (fold wq_post xs s) = mNotify_all s" "notified (fold wq_post xs s) = notified s"
  for s :: "'a notify_scheme"
  by (induction xs arbitrary: s) simp_all

text \<open>
  \<open>notify_world s R qs ns\<close>: the executor's queue is \<open>qs\<close>, the registered nodes are \<open>ns\<close>, of different requests whose work nodes are
  not registered themselves.
\<close>

definition notify_world :: "'a notify_scheme \<Rightarrow> rings \<Rightarrow> addr list \<Rightarrow> addr list \<Rightarrow> bool" where
  "notify_world s R qs ns \<longleftrightarrow> wq_world2 s (ntf_list s) R qs ns \<and> inj_on (owner s) (set ns) \<and>
     owner s ` set ns \<inter> ({ws_head s, ntf_list s} \<union> set ns) = {}"

definition live :: "'a notify_scheme \<Rightarrow> addr list \<Rightarrow> addr list" where
  "live s ns = filter (\<lambda>n. \<not> req_cancelled s (owner s n)) ns"

definition chosen :: "int \<Rightarrow> 'a notify_scheme \<Rightarrow> addr list \<Rightarrow> addr list" where
  "chosen cnt s ns = map (owner s) (if cnt > 0 then take (nat cnt) (live s ns) else live s ns)"

lemma notify_world_post:
  assumes W: "notify_world s R qs ns" and n: "n \<in> set ns"
  shows "\<exists>R'. notify_world (wq_post (owner s n) s) R' (remove1 (owner s n) qs @ [owner s n]) ns"
proof -
  have "owner s n \<notin> set ns" "owner s n \<notin> {ws_head s, ntf_list s}" using W imageI [OF n, of "owner s"] unfolding notify_world_def by auto
  with W wq_world2_post [of s "ntf_list s" R qs ns "owner s n"] show ?thesis by (auto simp: notify_world_def)
qed

lemma notify_walk: "notify_world s R qs (ks @ ns) \<Longrightarrow> walk (nxt (lks s)) ns (ntf_list s)"
  by (rule rep_walk [of _ R _ ks]) (auto simp: notify_world_def wq_world2_def)

lemma live_simps [simp]:
  "live s [] = []" "live s (n # ns) = (if req_cancelled s (owner s n) then live s ns else n # live s ns)"
  "live (wq_post a s) ns = live s ns"
  by (simp_all add: live_def)

text \<open>Without a lock to take again, the loop posts the first live requests in the order of registration.\<close>

lemma num_loop_posts:
  assumes "notify_world s R qs (ks @ ns)" and "0 < cnt \<longrightarrow> 0 \<le> cur"
  shows "num_loop No_lock cnt (ntf_list s) (hd (ns @ [ntf_list s])) (nxt (lks s) (hd (ns @ [ntf_list s]))) cur ret s =
    (let ws = map (owner s) (if cnt > 0 then take (nat cur) (live s ns) else live s ns)
     in Some (ret + int (length ws), fold wq_post ws s))"
  using assms
proof (induction ns arbitrary: s R qs ks cur ret)
  case Nil
  then show ?case by (subst num_loop.simps) simp
next
  case (Cons n ns)
  let ?l = "ntf_list s"
  have w: "n \<noteq> ?l" "nxt (lks s) n = hd (ns @ [?l])" using notify_walk [OF Cons.prems(1)] by simp_all
  have W: "notify_world s R qs ((ks @ [n]) @ ns)" using Cons.prems(1) by simp
  show ?case
  proof (cases "req_cancelled s (owner s n)")
    case True
    have "num_loop No_lock cnt ?l n (nxt (lks s) n) cur ret s =
        num_loop No_lock cnt ?l (hd (ns @ [?l])) (nxt (lks s) (hd (ns @ [?l]))) cur ret s"
      using w True by (subst num_loop.simps) simp
    then show ?thesis using Cons.IH [OF W Cons.prems(2), of ret] w True by simp
  next
    case False
    show ?thesis
    proof (cases "cnt > 0 \<and> cur \<le> 0")
      case True
      then show ?thesis using w False by (subst num_loop.simps) simp
    next
      case go: False
      let ?s1 = "wq_post (owner s n) s" and ?c = "if cnt > 0 then cur - 1 else cur"
      obtain R1 where W1: "notify_world ?s1 R1 (remove1 (owner s n) qs @ [owner s n]) ((ks @ [n]) @ ns)"
        using notify_world_post [OF Cons.prems(1), of n] by auto
      have "num_loop No_lock cnt ?l n (nxt (lks s) n) cur ret s =
          num_loop No_lock cnt ?l (hd (ns @ [?l])) (nxt (lks ?s1) (hd (ns @ [?l]))) ?c (ret + 1) ?s1"
        using w False go by (subst num_loop.simps) (auto simp: lock_again_def Let_def)
      moreover have "0 < cnt \<longrightarrow> 0 \<le> ?c" using go by auto
      moreover have "0 < cnt \<Longrightarrow> nat cur = Suc (nat (cur - 1))" using go by arith
      ultimately show ?thesis using Cons.IH [OF W1, of ?c "ret + 1"] False w(2) by (simp add: Let_def)
    qed
  qed
qed

lemma inotify_num_posts:
  assumes "notify_world s R qs ns"
  shows "inotify_num No_lock cnt s = Some (int (length (chosen cnt s ns)), fold wq_post (chosen cnt s ns) s)"
proof -
  have h: "nxt (lks s) (ntf_list s) = hd (ns @ [ntf_list s])"
    using assms ring_first [OF rep_ring, of "lks s" R "ntf_list s" ns] by (simp add: notify_world_def wq_world2_def)
  show ?thesis
    using num_loop_posts [of s R qs "[]" ns cnt cnt 0] assms
    by (simp add: inotify_num_def Let_def h chosen_def)
qed

text \<open>A spin lock is taken a second time at the first live request.\<close>

lemma num_loop_spins:
  assumes "notify_world s R qs (ks @ ns)" and "0 < cnt \<longrightarrow> 0 < cur"
  shows "num_loop Spin_lock cnt (ntf_list s) (hd (ns @ [ntf_list s])) (nxt (lks s) (hd (ns @ [ntf_list s]))) cur ret s =
    (if live s ns = [] then Some (ret, s) else None)"
  using assms(1)
proof (induction ns arbitrary: ks)
  case Nil
  then show ?case by (subst num_loop.simps) simp
next
  case (Cons n ns)
  let ?l = "ntf_list s"
  have w: "n \<noteq> ?l" "nxt (lks s) n = hd (ns @ [?l])" using notify_walk [OF Cons.prems] by simp_all
  have "notify_world s R qs ((ks @ [n]) @ ns)" using Cons.prems by simp
  note IH = Cons.IH [OF this]
  show ?case
  proof (cases "req_cancelled s (owner s n)")
    case True
    then show ?thesis using w IH by (subst num_loop.simps) simp
  next
    case False
    then show ?thesis using w assms(2) by (subst num_loop.simps) (auto simp: lock_again_def spin_True)
  qed
qed

lemma fold_requeue:
  "distinct xs \<Longrightarrow> distinct qs \<Longrightarrow> fold (\<lambda>x q. remove1 x q @ [x]) xs qs = filter (\<lambda>x. x \<notin> set xs) qs @ xs"
proof (induction xs arbitrary: qs)
  case (Cons x xs)
  then have "distinct (remove1 x qs @ [x])" by simp
  moreover have "filter (\<lambda>y. y \<notin> set xs) (remove1 x qs) = filter (\<lambda>y. y \<noteq> x \<and> y \<notin> set xs) qs"
    using Cons.prems by (auto simp: distinct_remove1_removeAll removeAll_filter_not_eq intro!: filter_cong)
  ultimately show ?case using Cons by simp
qed simp

lemma notify_world_fold_post:
  assumes "notify_world s R qs ns" and "set xs \<subseteq> set ns"
  shows "\<exists>R'. notify_world (fold wq_post (map (owner s) xs) s) R' (fold (\<lambda>x q. remove1 x q @ [x]) (map (owner s) xs) qs) ns"
  using assms
proof (induction xs arbitrary: s R qs)
  case (Cons x xs)
  obtain R1 where "notify_world (wq_post (owner s x) s) R1 (remove1 (owner s x) qs @ [owner s x]) ns"
    using notify_world_post [OF Cons.prems(1)] Cons.prems(2) by auto
  from Cons.IH [OF this] Cons.prems(2) show ?case by simp
qed auto

section \<open>Resumption of a request with a timeout\<close>

text \<open>
  The callbacks of one such request, in whatever order the executor and the timer run them. Both exchange \<open>armed\<close> for \<open>false\<close>, so
  the first decides and the others return.
\<close>

datatype tmo_event = Timer_fires | Notification

definition tmo_step :: "bool \<Rightarrow> addr \<Rightarrow> tmo_event \<Rightarrow> 'a notify_scheme \<Rightarrow> 'a notify_scheme option" where
  "tmo_step ltr r ev s =
     (case ev of Timer_fires \<Rightarrow> Some (notify_on_timer (tmo_node s r) s) | Notification \<Rightarrow> notify_timeout_cb ltr r s)"

fun tmo_run :: "bool \<Rightarrow> addr \<Rightarrow> tmo_event list \<Rightarrow> 'a notify_scheme \<Rightarrow> 'a notify_scheme option" where
  "tmo_run ltr r [] s = Some s"
| "tmo_run ltr r (ev # evs) s = Option.bind (tmo_step ltr r ev s) (tmo_run ltr r evs)"

lemma tmo_run_disarmed: "\<not> tmo_armed s (tmo_node s r) \<Longrightarrow> tmo_run ltr r evs s = Some s"
  by (induction evs) (auto simp: tmo_step_def notify_on_timer_def notify_timeout_cb_def split: tmo_event.splits)

lemma cancel_notify_frame:
  "cancel ltr nd s = Some s1 \<Longrightarrow> notified s1 = notified s \<and> req_cancelled s1 = req_cancelled s \<and> tmo_armed s1 = tmo_armed s \<and> tmo_node s1 = tmo_node s"
  by (auto simp: cancel_def Let_def split: option.splits if_splits prod.splits bind_splits)

section \<open>Properties\<close>

text \<open>
  C15: What one run of \<open>inotify_cb\<close> does when the lock may be taken again (\<open>nolock\<close>). Without registered requests nothing changes: the
  counters stay, so notifications that nobody awaited count for the next run. Otherwise it terminates and posts the first live
  requests in the order of registration, at the tail of the executor's queue, all of them after \<open>notify_all\<close> or when no
  \<open>notify_one\<close> is counted, else as many as are counted; the requests stay registered, the counters are reset and the
  executor is triggered once more.
\<close>

theorem notify_wakes_in_order:
  assumes "notify_world s R qs ns"
  shows "if ns = [] then inotify_cb No_lock s = Some s
    else (\<exists>s' R'. inotify_cb No_lock s = Some s' \<and>
      (let ws = chosen (if mNotify_all s > 0 then - 1 else mNotify_one s) s ns
       in notify_world s' R' (filter (\<lambda>x. x \<notin> set ws) qs @ ws) ns \<and>
          log s' = log s @ replicate (if trig s \<and> ws \<noteq> [] then Suc (length ws) else 0) Trig) \<and>
      mNotify_one s' = 0 \<and> mNotify_all s' \<le> 0)"
proof (cases "ns = []")
  case True
  then show ?thesis using assms wq_world2_empty [of s "ntf_list s" R qs ns] by (auto simp: inotify_cb_def notify_world_def)
next
  case False
  let ?c = "if mNotify_all s > 0 then - 1 else mNotify_one s"
  let ?ws = "chosen ?c s ns"
  let ?xs = "if ?c > 0 then take (nat ?c) (live s ns) else live s ns"
  have ne: "\<not> list_empty (ntf_list s) (lks s)"
    using False assms wq_world2_empty [of s "ntf_list s" R qs ns] by (auto simp: notify_world_def)
  have d: "distinct qs" "distinct ns" using assms wq_world2_distinct by (fastforce simp: notify_world_def)+
  have sub: "set ?xs \<subseteq> set ns" by (auto simp: live_def dest: in_set_takeD)
  have "distinct ?xs" using d by (simp add: live_def)
  then have dw: "distinct ?ws"
    using assms sub by (auto simp: chosen_def distinct_map notify_world_def intro: inj_on_subset)
  obtain R1 where W1: "notify_world (fold wq_post ?ws s) R1 (filter (\<lambda>x. x \<notin> set ?ws) qs @ ?ws) ns"
    using notify_world_fold_post [OF assms sub] fold_requeue [OF dw d(1)] unfolding chosen_def by auto
  have lg: "log (fold wq_post xs t) = log t @ replicate (if trig t then length xs else 0) Trig \<and> trig (fold wq_post xs t) = trig t"
    for xs and t :: "'a notify_scheme"
    by (induction xs arbitrary: t)
      (auto simp: wq_post_def trig_once_def emit_def enqueue_def replicate_append_same)
  let ?s' = "inotify_reset (int (length ?ws)) (mNotify_all s > 0) (fold wq_post ?ws s)"
  have "inotify_cb No_lock s = Some ?s'"
    using ne inotify_num_posts [OF assms, of ?c] by (auto simp: inotify_cb_def inotify_wake_def)
  moreover have "notify_world ?s' R1 (filter (\<lambda>x. x \<notin> set ?ws) qs @ ?ws) ns"
    using W1 by (auto simp: inotify_reset_def Let_def trig_once_def emit_def notify_world_def wq_world2_def)
  moreover have "log ?s' = log s @ replicate (if trig s \<and> ?ws \<noteq> [] then Suc (length ?ws) else 0) Trig"
    using lg [of ?ws s] by (auto simp: inotify_reset_def Let_def trig_once_def emit_def replicate_append_same)
  moreover have "mNotify_one ?s' = 0 \<and> mNotify_all ?s' \<le> 0"
    by (auto simp: inotify_reset_def Let_def trig_once_def emit_def)
  ultimately show ?thesis using False unfolding Let_def by auto
qed

text \<open>
  With \<open>SpinLock\<close>, the lock of every executor of the repository, \<open>inotify_cb\<close> returns only when it has nobody to wake: for a
  registered, live request it takes the lock it holds a second time and spins for ever.
\<close>

theorem notify_spinlock_deadlock:
  assumes "notify_world s R qs ns"
  shows "inotify_cb Spin_lock s = None \<longleftrightarrow> live s ns \<noteq> []"
proof (cases "ns = []")
  case True
  then show ?thesis using assms wq_world2_empty [of s "ntf_list s" R qs ns] by (auto simp: inotify_cb_def notify_world_def)
next
  case False
  have ne: "\<not> list_empty (ntf_list s) (lks s)"
    using False assms wq_world2_empty [of s "ntf_list s" R qs ns] by (auto simp: notify_world_def)
  have h: "nxt (lks s) (ntf_list s) = hd (ns @ [ntf_list s])"
    using assms ring_first [OF rep_ring, of "lks s" R "ntf_list s" ns] by (simp add: notify_world_def wq_world2_def)
  have "inotify_num Spin_lock cnt s = (if live s ns = [] then Some (0, s) else None)" for cnt
    using num_loop_spins [of s R qs "[]" ns cnt cnt 0] assms by (simp add: inotify_num_def Let_def h)
  then show ?thesis using ne by (simp add: inotify_cb_def inotify_wake_def)
qed

text \<open>
  A request with a timeout is resumed at most once, whatever the order of its timer and its notifications, and exactly once when
  its timer fires or it is notified; its result is the first event: false for the timer, true for a notification. The callbacks
  return.
\<close>

theorem notify_timeout_resumed_once:
  assumes "pending s S" and "tmo_armed s (tmo_node s r)" and "tmo_req s (tmo_node s r) = Some r" and "\<not> req_cancelled s r"
  shows "\<exists>s1. tmo_run ltr r evs s = Some s1 \<and>
    (case evs of [] \<Rightarrow> s1 = s
     | ev # _ \<Rightarrow> notified s1 = notified s @ [r] \<and> notify_timeout_resume r s1 = (ev = Notification))"
proof (cases evs)
  case (Cons ev evs')
  have "\<exists>t. tmo_step ltr r ev s = Some t"
  proof (cases ev)
    case Notification
    let ?s = "s\<lparr>tmo_armed := (tmo_armed s)(tmo_node s r := False)\<rparr>"
    have "pending ?s S" using assms(1) by (simp add: pending_def theap_def)
    then show ?thesis using cancel_pending [of ?s S ltr "tmo_node s r"] Notification assms(2)
      by (auto simp: tmo_step_def notify_timeout_cb_def Let_def)
  qed (simp add: tmo_step_def)
  then obtain t where t: "tmo_step ltr r ev s = Some t" by blast
  have d: "tmo_node t = tmo_node s \<and> \<not> tmo_armed t (tmo_node t r) \<and> notified t = notified s @ [r] \<and> (req_cancelled t r = (ev = Timer_fires))"
    using t assms(2-4)
    by (cases ev) (auto simp: tmo_step_def notify_on_timer_def notify_timeout_cb_def Let_def dest!: cancel_notify_frame)
  then have "tmo_run ltr r evs s = Some t" using t tmo_run_disarmed [of t r ltr evs'] Cons by auto
  then show ?thesis using d Cons by (cases ev) (auto simp: notify_timeout_resume_def)
qed simp

section \<open>A notification between the two halves of the callback\<close>

text \<open>
  A \<open>notify_one\<close> that another thread makes after \<open>inotify_cb\<close> has read the counter and before it resets it is forgotten, but its run
  of the callback is queued; that run finds no counted notification and wakes every live request.
\<close>

lemma notify_late_count_wakes_all:
  assumes W: "notify_world s R qs ns" and self: "ntf_self s \<notin> set ns" "ntf_self s \<notin> {ws_head s, ntf_list s}" "mNotify_all s = 0"
    and "inotify_wake No_lock s = Some (cnt, every, s1)" and s2: "s2 = inotify_reset cnt every (notify_one s1)"
  shows "\<exists>R' qs'. notify_world s2 R' (qs' @ [ntf_self s]) ns \<and> mNotify_one s2 = 0 \<and>
    (\<exists>s3. inotify_wake No_lock s2 = Some (int (length (live s ns)), False, s3))"
proof -
  let ?ws = "chosen (mNotify_one s) s ns"
  have s1: "s1 = fold wq_post ?ws s" "\<not> every"
    using assms(5) self(3) inotify_num_posts [OF W, of "mNotify_one s"] by (auto simp: inotify_wake_def)
  have sub: "set (if mNotify_one s > 0 then take (nat (mNotify_one s)) (live s ns) else live s ns) \<subseteq> set ns"
    by (auto simp: live_def dest: in_set_takeD)
  obtain R1 qs1 where W1: "notify_world s1 R1 qs1 ns"
    using notify_world_fold_post [OF W sub] s1 unfolding chosen_def by auto
  have f: "ntf_self s1 = ntf_self s" "ntf_list s1 = ntf_list s" "ws_head s1 = ws_head s" "mNotify_all s1 = 0" "live s1 ns = live s ns"
  proof -
    have "ntf_self (fold wq_post xs t) = ntf_self t" for xs and t :: "'a notify_scheme" by (induction xs arbitrary: t) simp_all
    then show "ntf_self s1 = ntf_self s" "ntf_list s1 = ntf_list s" "ws_head s1 = ws_head s" "mNotify_all s1 = 0" "live s1 ns = live s ns"
      using self(3) by (simp_all add: s1 live_def)
  qed
  let ?t = "s1\<lparr>mNotify_one := mNotify_one s1 + 1\<rparr>"
  have "wq_world2 ?t (ntf_list s1) R1 qs1 ns" using W1 by (auto simp: notify_world_def wq_world2_def)
  from wq_world2_post [OF this, of "ntf_self s"] self f obtain R2 where
    "wq_world2 (wq_post (ntf_self s) ?t) (ntf_list s1) R2 (remove1 (ntf_self s) qs1 @ [ntf_self s]) ns" by auto
  then have W2: "notify_world s2 R2 (remove1 (ntf_self s) qs1 @ [ntf_self s]) ns"
    using W1 s1(2) f(1)
    by (auto simp: s2 notify_one_def inotify_reset_def Let_def trig_once_def emit_def notify_world_def wq_world2_def)
  have c: "mNotify_one s2 = 0" "mNotify_all s2 = 0" "live s2 ns = live s ns"
    using s1(2) f(4,5) by (auto simp: s2 notify_one_def inotify_reset_def Let_def trig_once_def emit_def live_def)
  have "inotify_wake No_lock s2 = Some (int (length (live s ns)), False, fold wq_post (chosen 0 s2 ns) s2)"
    using inotify_num_posts [OF W2, of 0] c by (simp add: inotify_wake_def chosen_def)
  then show ?thesis using W2 c by blast
qed

section \<open>Examples\<close>

text \<open>Two requests 1 and 2 with the nodes 21 and 22 are registered at the list 20.\<close>

definition demo_notify :: notify where
  "demo_notify = timer.extend (demo_armed\<lparr>lks := list_add_tail 22 20 (list_add_tail 21 20 fresh_links)\<rparr>)
     (notify.fields 30 20 1 0 (\<lambda>r. r + 20) (\<lambda>n. n - 20) (\<lambda>_. False) (\<lambda>r. r) (\<lambda>_. True) Some (\<lambda>_. True) [])"

lemma demo_notify_simps [simp]:
  "ntf_list demo_notify = 20" "ws_head demo_notify = 10" "owner demo_notify n = n - 20" "\<not> req_cancelled demo_notify r" "mNotify_one demo_notify = 1"
  "mNotify_all demo_notify = 0" "tmo_node demo_notify r = r" "tmo_armed demo_notify r" "tmo_req demo_notify r = Some r" "notified demo_notify = []"
  "lks demo_notify = list_add_tail 22 20 (list_add_tail 21 20 fresh_links)"
  by (simp_all add: demo_notify_def timer.defs notify.defs demo_armed_def post_delayed_work_frame demo_timer_def)

lemma demo_notify_world: "\<exists>R. notify_world demo_notify R [] [21, 22]"
proof -
  let ?s0 = "demo_notify\<lparr>lks := fresh_links\<rparr>"
  have "wq_world2 ?s0 20 (\<lambda>_. Some []) [] []" by (rule wq_world2_fresh) simp_all
  from wq_world2_wait [OF this, of 21]
  have w: "wq_world2 (?s0\<lparr>lks := list_add_tail 21 20 fresh_links\<rparr>) 20 (r_append 21 20 (\<lambda>_. Some [])) [] [21]" by simp
  from wq_world2_wait [OF this, of 22]
  have "wq_world2 demo_notify 20 (r_append 22 20 (r_append 21 20 (\<lambda>_. Some []))) [] [21, 22]"
    by (simp add: r_append_def wq_world2_def)
  then show ?thesis by (auto simp: notify_world_def inj_on_def)
qed

theorem notify_wakes_in_order_witness:
  "\<exists>s' R'. inotify_cb No_lock demo_notify = Some s' \<and> notify_world s' R' [1] [21, 22]"
proof -
  obtain R where W: "notify_world demo_notify R [] [21, 22]" using demo_notify_world by blast
  have "chosen 1 demo_notify [21, 22] = [1]" by (simp add: chosen_def live_def)
  with notify_wakes_in_order [OF W] show ?thesis by (auto simp: Let_def)
qed

theorem notify_spinlock_deadlock_witness: "inotify_cb Spin_lock demo_notify = None"
proof -
  obtain R where W: "notify_world demo_notify R [] [21, 22]" using demo_notify_world by blast
  with notify_spinlock_deadlock [OF W] show ?thesis by (simp add: live_def)
qed

theorem notify_timeout_resumed_once_witness:
  "\<exists>s1. tmo_run True 2 [Timer_fires, Notification, Timer_fires] demo_notify = Some s1 \<and> notified s1 = [2] \<and> \<not> notify_timeout_resume 2 s1"
proof -
  have "pending demo_notify {1, 2, 3}"
    using pending_demo_armed by (simp add: demo_notify_def timer.defs notify.defs pending_def theap_def)
  from notify_timeout_resumed_once [OF this, of 2 True "[Timer_fires, Notification, Timer_fires]"] show ?thesis by auto
qed

end
