(* ===== verification/File_Io.thy ===== *)
theory File_Io
  imports Stream_Socket
begin

text \<open>
  File handles: \<^verbatim>\<open>io/file_io.hpp\<close> (the Linux part), \<^verbatim>\<open>io/file_open.hpp\<close> and \<open>open_file\<close> of \<^verbatim>\<open>io/fd_base.hpp\<close>.

  The state of one file extends that of its reactor, executor and callback queue. The \<open>off_t\<close> variables that \<open>pread\<close> and \<open>pwrite\<close>
  advance belong to the caller and may be shared: \<open>offs\<close> is their store, an awaiter holds the address of one (\<open>None\<close>: \<open>use_offset\<close> is
  false). \<open>fl_errno\<close> is \<open>errno\<close>. The system calls are the fields of \<open>file_os\<close>, functions of the kernel state; a failing call also
  gives the value of \<open>errno\<close>.
\<close>

unbundle bit_operations_syntax

section \<open>Data\<close>

record 'k file_os =
  fo_ctl :: "'k epoll_ctl"
  fo_open :: "string \<Rightarrow> int \<Rightarrow> nat \<Rightarrow> 'k \<Rightarrow> fd \<times> 'k"
  fo_getfl :: "fd \<Rightarrow> 'k \<Rightarrow> int"
  fo_setfl :: "fd \<Rightarrow> int \<Rightarrow> 'k \<Rightarrow> 'k"
  fo_close :: "fd \<Rightarrow> 'k \<Rightarrow> 'k"
  fo_read :: "fd \<Rightarrow> nat \<Rightarrow> 'k \<Rightarrow> (int \<times> int \<times> bytes) \<times> 'k"
  fo_pread :: "fd \<Rightarrow> nat \<Rightarrow> int \<Rightarrow> 'k \<Rightarrow> (int \<times> int \<times> bytes) \<times> 'k"
  fo_write :: "fd \<Rightarrow> bytes \<Rightarrow> 'k \<Rightarrow> (int \<times> int) \<times> 'k"
  fo_pwrite :: "fd \<Rightarrow> bytes \<Rightarrow> int \<Rightarrow> 'k \<Rightarrow> (int \<times> int) \<times> 'k"

definition O_RDONLY :: int where "O_RDONLY = 0"
definition O_WRONLY :: int where "O_WRONLY = 1"
definition O_CREAT :: int where "O_CREAT = 0x40"
definition O_TRUNC :: int where "O_TRUNC = 0x200"
definition O_NONBLOCK :: int where "O_NONBLOCK = 0x800"
definition O_CLOEXEC :: int where "O_CLOEXEC = 0x80000"

record read_aw =
  rd_buf :: bytes
  rd_len :: nat
  nrd :: int
  rd_pofs :: "addr option"

record write_aw =
  wr_buf :: bytes
  wr_len :: nat
  wr_done :: nat
  wr_pofs :: "addr option"

record 'k file_obj = "'k epr" +
  fl_fd :: fd
  fl_closed :: bool
  read_q :: addr
  write_q :: addr
  fl_errno :: int
  offs :: "addr \<Rightarrow> int"
  rdw :: "addr \<Rightarrow> read_aw"
  wrw :: "addr \<Rightarrow> write_aw"

section \<open>The handle\<close>

datatype file_error = Invalid_file | Open_failed

definition file_handle_init :: "'k file_os \<Rightarrow> fd \<Rightarrow> ('k, 'b) file_obj_scheme \<Rightarrow> file_error + ('k, 'b) file_obj_scheme" where
  "file_handle_init os fd s =
     (let s0 = s\<lparr>fl_fd := fd, fl_closed := False\<rparr>
      in if fd < 0 then Inl Invalid_file
         else let flags = fo_getfl os fd (kern s0);
                  s1 = (if flags \<ge> 0 then s0\<lparr>kern := fo_setfl os fd (flags OR O_NONBLOCK) (kern s0)\<rparr> else s0);
                  s2 = add_fd fd s1
              in Inr (serial_queue_init (write_q s2) (serial_queue_init (read_q s2) s2)))"

definition file_closed :: "('k, 'b) file_obj_scheme \<Rightarrow> bool" where
  "file_closed s \<longleftrightarrow> fl_closed s \<or> fl_fd s < 0"

text \<open>\<open>pend\<close> is the address of the local list head \<open>pending\<close>.\<close>

definition file_close ::
  "'k file_os \<Rightarrow> build \<Rightarrow> (addr \<Rightarrow> ('k, 'b) file_obj_scheme \<Rightarrow> ('k, 'b) file_obj_scheme) \<Rightarrow> addr \<Rightarrow> ('k, 'b) file_obj_scheme \<Rightarrow>
   (abort + ('k, 'b) file_obj_scheme) option" where
  "file_close os b pst pend s =
     (if fl_fd s < 0 then Some (Inr s)
      else let s1 = remove_fd (fo_ctl os) pst (fl_fd s) (s\<lparr>fl_closed := True\<rparr>);
               s2 = s1\<lparr>lks := INIT_LIST_HEAD pend (lks s1)\<rparr>
           in case serial_collect_waiters [read_q s2, write_q s2] pend s2 of
                None \<Rightarrow> None
              | Some s3 \<Rightarrow>
                 (case serial_post_pending b pend s3 of
                    None \<Rightarrow> None
                  | Some (Inl e) \<Rightarrow> Some (Inl e)
                  | Some (Inr s4) \<Rightarrow> Some (Inr (s4\<lparr>kern := fo_close os (fl_fd s4) (kern s4), fl_fd := - 1\<rparr>))))"

section \<open>Reading\<close>

definition read_awaiter_init :: "addr \<Rightarrow> nat \<Rightarrow> addr option \<Rightarrow> ('k, 'b) file_obj_scheme \<Rightarrow> ('k, 'b) file_obj_scheme" where
  "read_awaiter_init a len pofs s =
     s\<lparr>q_of := (q_of s)(a := read_q s),
       rdw := (rdw s)(a := \<lparr>rd_buf = replicate len 0, rd_len = len, nrd = - 1, rd_pofs = pofs\<rparr>)\<rparr>"

text \<open>Without a valid descriptor \<open>try_read\<close> gives -1 and leaves \<open>errno\<close> as it is.\<close>

definition try_read :: "'k file_os \<Rightarrow> addr \<Rightarrow> ('k, 'b) file_obj_scheme \<Rightarrow> int \<times> ('k, 'b) file_obj_scheme" where
  "try_read os a s =
     (let aw = rdw s a
      in if fl_fd s < 0 then (- 1, s)
         else case (case rd_pofs aw of
                      Some p \<Rightarrow> fo_pread os (fl_fd s) (rd_len aw) (offs s p) (kern s)
                    | None \<Rightarrow> fo_read os (fl_fd s) (rd_len aw) (kern s)) of ((r, e, d), k) \<Rightarrow>
           let s1 = s\<lparr>kern := k, fl_errno := (if r < 0 then e else fl_errno s),
                      rdw := (rdw s)(a := aw\<lparr>rd_buf := (if r > 0 then buf_write 0 (take (nat r) d) (rd_buf aw) else rd_buf aw)\<rparr>)\<rparr>
           in (case rd_pofs aw of
                 Some p \<Rightarrow> (r, if r > 0 then s1\<lparr>offs := (offs s1)(p := offs s1 p + r)\<rparr> else s1)
               | None \<Rightarrow> (r, s1)))"

definition read_attempt_once :: "'k file_os \<Rightarrow> addr \<Rightarrow> ('k, 'b) file_obj_scheme \<Rightarrow> int \<times> ('k, 'b) file_obj_scheme" where
  "read_attempt_once os a s =
     (case try_read os a s of (r, s1) \<Rightarrow>
        let s2 = s1\<lparr>rdw := (rdw s1)(a := (rdw s1 a)\<lparr>nrd := r\<rparr>)\<rparr>
        in if r \<ge> 0 then (0, s2) else if fl_errno s2 = EAGAIN then (- 1, s2) else (0, s2))"

definition read_register_wait :: "'k file_os \<Rightarrow> addr \<Rightarrow> bool \<Rightarrow> ('k, 'b) file_obj_scheme \<Rightarrow> ('k, 'b) file_obj_scheme" where
  "read_register_wait os a first s = add_waiter_custom (fo_ctl os) (fl_fd s) EPOLLIN a s"

definition read_await_resume :: "addr \<Rightarrow> ('k, 'b) file_obj_scheme \<Rightarrow> int \<times> ('k, 'b) file_obj_scheme" where
  "read_await_resume a s =
     (if nrd (rdw s a) < 0 \<and> file_closed s then (- 1, s\<lparr>fl_errno := ECANCELED\<rparr>) else (nrd (rdw s a), s))"

section \<open>Writing\<close>

definition write_awaiter_init :: "addr \<Rightarrow> bytes \<Rightarrow> addr option \<Rightarrow> ('k, 'b) file_obj_scheme \<Rightarrow> ('k, 'b) file_obj_scheme" where
  "write_awaiter_init a buf pofs s =
     s\<lparr>q_of := (q_of s)(a := write_q s),
       wrw := (wrw s)(a := \<lparr>wr_buf = buf, wr_len = length buf, wr_done = 0, wr_pofs = pofs\<rparr>)\<rparr>"

text \<open>The loop goes on only after it has written at least one byte, so it ends whatever the kernel answers.\<close>

function try_write :: "'k file_os \<Rightarrow> addr \<Rightarrow> ('k, 'b) file_obj_scheme \<Rightarrow> bool \<times> ('k, 'b) file_obj_scheme" where
  "try_write os a s =
     (let aw = wrw s a
      in if wr_done aw < wr_len aw
         then case (case wr_pofs aw of
                      Some p \<Rightarrow> fo_pwrite os (fl_fd s) (drop (wr_done aw) (wr_buf aw)) (offs s p) (kern s)
                    | None \<Rightarrow> fo_write os (fl_fd s) (drop (wr_done aw) (wr_buf aw)) (kern s)) of ((n, e), k) \<Rightarrow>
           let s1 = s\<lparr>kern := k, fl_errno := (if n < 0 then e else fl_errno s)\<rparr>;
               s2 = (case wr_pofs aw of
                       Some p \<Rightarrow> if n > 0 then s1\<lparr>offs := (offs s1)(p := offs s1 p + n)\<rparr> else s1
                     | None \<Rightarrow> s1)
           in if n > 0 then try_write os a (s2\<lparr>wrw := (wrw s2)(a := aw\<lparr>wr_done := wr_done aw + nat n\<rparr>)\<rparr>)
              else if n < 0 \<and> fl_errno s2 = EAGAIN then (False, s2)
              else (True, s2)
         else (True, s))"
  by auto
termination
  by (relation "measure (\<lambda>(os, a, s). wr_len (wrw s a) - wr_done (wrw s a))") auto

declare try_write.simps [simp del]

definition write_attempt_once :: "'k file_os \<Rightarrow> addr \<Rightarrow> ('k, 'b) file_obj_scheme \<Rightarrow> int \<times> ('k, 'b) file_obj_scheme" where
  "write_attempt_once os a s = (case try_write os a s of (ok, s1) \<Rightarrow> (if ok then 0 else - 1, s1))"

definition write_register_wait :: "'k file_os \<Rightarrow> addr \<Rightarrow> bool \<Rightarrow> ('k, 'b) file_obj_scheme \<Rightarrow> ('k, 'b) file_obj_scheme" where
  "write_register_wait os a first s = add_waiter_custom (fo_ctl os) (fl_fd s) EPOLLOUT a s"

definition write_await_resume :: "addr \<Rightarrow> ('k, 'b) file_obj_scheme \<Rightarrow> int \<times> ('k, 'b) file_obj_scheme" where
  "write_await_resume a s =
     (if wr_done (wrw s a) = 0 \<and> file_closed s then (- 1, s\<lparr>fl_errno := ECANCELED\<rparr>) else (int (wr_done (wrw s a)), s))"

section \<open>Opening\<close>

datatype open_mode = Read_only | Write_trunc

definition open_flags :: "open_mode \<Rightarrow> int" where
  "open_flags mode =
     (case mode of
        Read_only \<Rightarrow> O_RDONLY OR O_CLOEXEC OR O_NONBLOCK
      | Write_trunc \<Rightarrow> O_WRONLY OR O_CREAT OR O_TRUNC OR O_CLOEXEC OR O_NONBLOCK)"

text \<open>\<open>std::nullopt\<close> is \<open>Inl Open_failed\<close>. 420 is the mode 0644.\<close>

definition open_file_handle ::
  "'k file_os \<Rightarrow> string \<Rightarrow> open_mode \<Rightarrow> ('k, 'b) file_obj_scheme \<Rightarrow> file_error + ('k, 'b) file_obj_scheme" where
  "open_file_handle os path mode s =
     (case fo_open os path (open_flags mode) 420 (kern s) of (fd, k) \<Rightarrow>
        if fd < 0 then Inl Open_failed else file_handle_init os fd (s\<lparr>kern := k\<rparr>))"

definition open_file ::
  "'k file_os \<Rightarrow> string \<Rightarrow> int \<Rightarrow> nat \<Rightarrow> ('k, 'b) epr_scheme \<Rightarrow> file_error + fd \<times> ('k, 'b) epr_scheme" where
  "open_file os path flags mode s =
     (case fo_open os path (flags OR O_CLOEXEC OR O_NONBLOCK) mode (kern s) of (fd, k) \<Rightarrow>
        if fd < 0 then Inl Open_failed else Inr (fd, add_fd fd (s\<lparr>kern := k\<rparr>)))"

section \<open>Operations as coroutines see them\<close>

definition file_wait ::
  "'k file_os \<Rightarrow> (32 word \<Rightarrow> 'k \<Rightarrow> 'k) \<Rightarrow> 32 word \<Rightarrow> ('k, 'b) file_obj_scheme \<Rightarrow> ('k, 'b) file_obj_scheme" where
  "file_wait os idle flags s = handle_event (fo_ctl os) wq_post (fl_fd s, flags) (s\<lparr>kern := idle flags (kern s)\<rparr>)"

definition file_read_op ::
  "'k file_os \<Rightarrow> (32 word \<Rightarrow> 'k \<Rightarrow> 'k) \<Rightarrow> addr \<Rightarrow> addr option \<Rightarrow> nat \<Rightarrow> ('k, 'b) file_obj_scheme \<Rightarrow>
   (int \<times> bytes \<times> ('k, 'b) file_obj_scheme) option" where
  "file_read_op os idle a pofs len s =
     map_option (\<lambda>s1. case read_await_resume a s1 of (n, s2) \<Rightarrow> (n, take (nat n) (rd_buf (rdw s2 a)), s2))
       (await_loop (read_attempt_once os) (read_register_wait os) (file_wait os idle EPOLLIN) True a
          (read_awaiter_init a len pofs s))"

definition file_write_op ::
  "'k file_os \<Rightarrow> (32 word \<Rightarrow> 'k \<Rightarrow> 'k) \<Rightarrow> addr \<Rightarrow> addr option \<Rightarrow> bytes \<Rightarrow> ('k, 'b) file_obj_scheme \<Rightarrow>
   (int \<times> ('k, 'b) file_obj_scheme) option" where
  "file_write_op os idle a pofs b s =
     map_option (write_await_resume a)
       (await_loop (write_attempt_once os) (write_register_wait os) (file_wait os idle EPOLLOUT) True a
          (write_awaiter_init a b pofs s))"

section \<open>Frame lemmas\<close>

lemma wq_post_file [simp]:
  "kern (wq_post w s) = kern s" "rdw (wq_post w s) = rdw s" "wrw (wq_post w s) = wrw s" "fl_fd (wq_post w s) = fl_fd s"
  "offs (wq_post w s) = offs s" "fl_closed (wq_post w s) = fl_closed s"
  for s :: "('k, 'b) file_obj_scheme"
  by (simp_all add: wq_post_def enqueue_def trig_once_def emit_def)

lemma drain_done_file [simp]:
  "kern (drain_done a s) = kern s" "rdw (drain_done a s) = rdw s" "wrw (drain_done a s) = wrw s" "fl_fd (drain_done a s) = fl_fd s"
  "offs (drain_done a s) = offs s" "fl_closed (drain_done a s) = fl_closed s"
  for s :: "('k, 'b) file_obj_scheme"
  by (auto simp: drain_done_def slot_release_def serial_release_def resume_coroutine_def Let_def split: option.splits)

lemma update_file [simp]:
  "rdw (update_fd_interest_unlocked c fd st s) = rdw s" "wrw (update_fd_interest_unlocked c fd st s) = wrw s"
  "fl_fd (update_fd_interest_unlocked c fd st s) = fl_fd s" "offs (update_fd_interest_unlocked c fd st s) = offs s"
  "fl_closed (update_fd_interest_unlocked c fd st s) = fl_closed s"
  for s :: "('k, 'b) file_obj_scheme"
  by (auto simp: update_fd_interest_unlocked_def ctl_def Let_def split: prod.splits)

lemma add_waiter_custom_func [simp]: "func (add_waiter_custom c fd m w s) = func s"
  by (auto simp: add_waiter_custom_def register_waiter_def update_fd_interest_unlocked_def ctl_def Let_def split: prod.splits)

lemma add_waiter_custom_file [simp]:
  "rdw (add_waiter_custom c fd m w s) = rdw s" "wrw (add_waiter_custom c fd m w s) = wrw s"
  "fl_fd (add_waiter_custom c fd m w s) = fl_fd s" "offs (add_waiter_custom c fd m w s) = offs s"
  "fl_closed (add_waiter_custom c fd m w s) = fl_closed s"
  for s :: "('k, 'b) file_obj_scheme"
  by (simp_all add: add_waiter_custom_def register_waiter_def Let_def)

lemma fold_post_file [simp]:
  "kern (fold (\<lambda>wi. wq_post (wi_waiter wi)) ws s) = kern s" "rdw (fold (\<lambda>wi. wq_post (wi_waiter wi)) ws s) = rdw s"
  "wrw (fold (\<lambda>wi. wq_post (wi_waiter wi)) ws s) = wrw s" "fl_fd (fold (\<lambda>wi. wq_post (wi_waiter wi)) ws s) = fl_fd s"
  "offs (fold (\<lambda>wi. wq_post (wi_waiter wi)) ws s) = offs s" "fl_closed (fold (\<lambda>wi. wq_post (wi_waiter wi)) ws s) = fl_closed s"
  for s :: "('k, 'b) file_obj_scheme"
  by (induction ws arbitrary: s) simp_all

lemma file_wait_file [simp]:
  "rdw (file_wait os idle flags s) = rdw s" "wrw (file_wait os idle flags s) = wrw s" "fl_fd (file_wait os idle flags s) = fl_fd s"
  "offs (file_wait os idle flags s) = offs s" "fl_closed (file_wait os idle flags s) = fl_closed s"
  for s :: "('k, 'b) file_obj_scheme"
  by (auto simp: file_wait_def handle_event_def take_ready_def split: option.splits prod.splits)

section \<open>The contents of a file\<close>

text \<open>Writing \<open>d\<close> at \<open>i\<close>; a gap behind the end is filled with zeros.\<close>

definition overwrite :: "nat \<Rightarrow> bytes \<Rightarrow> bytes \<Rightarrow> bytes" where
  "overwrite i d c = (if d = [] then c else take i (c @ replicate (i - length c) 0) @ d @ drop (i + length d) c)"

lemma overwrite_Nil [simp]: "overwrite i [] c = c"
  by (simp add: overwrite_def)

lemma overwrite_append: "overwrite (i + length x) y (overwrite i x c) = overwrite i (x @ y) c"
proof (cases "x = [] \<or> y = []")
  case False
  have "length (take i (c @ replicate (i - length c) 0)) = i" by simp
  then show ?thesis using False by (auto simp: overwrite_def ac_simps)
qed auto

lemma overwrite_read: "take (length d) (drop i (overwrite i d c)) = d"
proof (cases "d = []")
  case False
  have "length (take i (c @ replicate (i - length c) 0)) = i" by simp
  then show ?thesis using False by (simp add: overwrite_def)
qed simp

lemma overwrite_length: "d \<noteq> [] \<Longrightarrow> i + length d \<le> length (overwrite i d c)"
  by (simp add: overwrite_def)

text \<open>
  The documented behaviour of \<^verbatim>\<open>pread(2)\<close> and \<^verbatim>\<open>pwrite(2)\<close> on the open descriptor \<open>f\<close> of a file without failures: they transfer
  a part of what is asked for at the given offset, \<open>pread\<close> gives 0 only at or behind the end, and a call that would block does not
  once the descriptor is ready (\<open>woken\<close>).
\<close>

locale seekable_file =
  fixes os :: "'k file_os" and idle :: "32 word \<Rightarrow> 'k \<Rightarrow> 'k" and f :: fd and content :: "'k \<Rightarrow> bytes"
    and woken :: "32 word \<Rightarrow> 'k \<Rightarrow> bool"
  assumes open_fd: "0 \<le> f"
    and ctl_content: "content (snd (fo_ctl os oper fd ev k)) = content k"
    and idle_content: "content (idle flags k) = content k"
    and woken_idle: "woken flags (idle flags k)"
    and woken_ctl: "woken flags k \<Longrightarrow> woken flags (snd (fo_ctl os oper fd ev k))"
    and pwrite_outcome: "fo_pwrite os f b ofs k = ((n, e), k1) \<Longrightarrow> b \<noteq> [] \<Longrightarrow> 0 \<le> ofs \<Longrightarrow>
      0 < n \<and> nat n \<le> length b \<and> content k1 = overwrite (nat ofs) (take (nat n) b) (content k) \<or>
      n < 0 \<and> e = EAGAIN \<and> content k1 = content k \<and> \<not> woken EPOLLOUT k"
    and pread_outcome: "fo_pread os f len ofs k = ((n, e, d), k1) \<Longrightarrow> 0 < len \<Longrightarrow> 0 \<le> ofs \<Longrightarrow>
      content k1 = content k \<and>
      (int (length d) = n \<and> length d \<le> len \<and> d = take (length d) (drop (nat ofs) (content k)) \<and>
         (n = 0 \<longrightarrow> length (content k) \<le> nat ofs) \<or>
       n < 0 \<and> e = EAGAIN \<and> \<not> woken EPOLLIN k)"
begin

lemma wait_content [simp]: "content (kern (file_wait os idle flags s)) = content (kern s)"
  by (auto simp: file_wait_def handle_event_def take_ready_def idle_content split: option.splits prod.splits
      intro!: update_kern_pred [where P = "\<lambda>k. content k = content (kern s)"] simp: ctl_content)

lemma register_content [simp]: "content (kern (add_waiter_custom (fo_ctl os) fd m w s)) = content (kern s)"
  by (auto simp: add_waiter_custom_def register_waiter_def Let_def ctl_content
      intro!: update_kern_pred [where P = "\<lambda>k. content k = content (kern s)"])

lemma woken_wait: "woken flags (kern (file_wait os idle flags s))"
  by (auto simp: file_wait_def handle_event_def take_ready_def woken_idle split: option.splits
      intro!: update_kern_pred [where P = "woken flags"] woken_ctl)

definition write_inv :: "addr \<Rightarrow> addr \<Rightarrow> bytes \<Rightarrow> (addr \<Rightarrow> int) \<Rightarrow> bytes \<Rightarrow> ('k, 'b) file_obj_scheme \<Rightarrow> bool" where
  "write_inv a p b os0 c0 s \<longleftrightarrow> fl_fd s = f \<and> \<not> fl_closed s \<and> wr_buf (wrw s a) = b \<and> wr_len (wrw s a) = length b \<and> wr_pofs (wrw s a) = Some p \<and>
     wr_done (wrw s a) \<le> length b \<and> offs s = os0(p := os0 p + int (wr_done (wrw s a))) \<and>
     content (kern s) = overwrite (nat (os0 p)) (take (wr_done (wrw s a)) b) c0"

lemma try_write_progress:
  assumes "write_inv a p b os0 c0 s" and "0 \<le> os0 p" and "try_write os a s = (ok, s1)"
  shows "write_inv a p b os0 c0 s1 \<and>
    (if ok then wr_done (wrw s1 a) = length b
     else wr_done (wrw s a) \<le> wr_done (wrw s1 a) \<and> (woken EPOLLOUT (kern s) \<longrightarrow> wr_done (wrw s a) < wr_done (wrw s1 a)))"
  using assms(1,3)
proof (induction "length b - wr_done (wrw s a)" arbitrary: s rule: less_induct)
  case less
  let ?d = "wr_done (wrw s a)"
  have inv: "fl_fd s = f" "wr_buf (wrw s a) = b" "wr_len (wrw s a) = length b" "wr_pofs (wrw s a) = Some p" "?d \<le> length b"
    "offs s = os0(p := os0 p + int ?d)" "content (kern s) = overwrite (nat (os0 p)) (take ?d b) c0"
    using less.prems(1) by (simp_all add: write_inv_def)
  show ?case
  proof (cases "?d < length b")
    case False
    then have "try_write os a s = (True, s)" using inv by (subst try_write.simps) (simp add: Let_def)
    then show ?thesis using less.prems inv False by simp
  next
    case True
    obtain n e k where c: "fo_pwrite os f (drop ?d b) (os0 p + int ?d) (kern s) = ((n, e), k)" by (metis surj_pair)
    from pwrite_outcome [OF c] True assms(2)
    consider (wrote) "0 < n" "nat n \<le> length b - ?d" "content k = overwrite (nat (os0 p + int ?d)) (take (nat n) (drop ?d b)) (content (kern s))"
      | (block) "n < 0" "e = EAGAIN" "content k = content (kern s)" "\<not> woken EPOLLOUT (kern s)" by auto
    then show ?thesis
    proof cases
      case wrote
      let ?s2 = "s\<lparr>kern := k, fl_errno := fl_errno s, offs := os0(p := os0 p + int ?d + n), wrw := (wrw s)(a := (wrw s a)\<lparr>wr_done := ?d + nat n\<rparr>)\<rparr>"
      have step: "try_write os a s = try_write os a ?s2"
        using True wrote inv c by (subst try_write.simps) (simp add: Let_def)
      have "nat (os0 p + int ?d) = nat (os0 p) + length (take ?d b)" using assms(2) inv(5) by simp
      then have "content k = overwrite (nat (os0 p)) (take (?d + nat n) b) c0"
        using wrote(3) inv(7) by (simp only: overwrite_append take_add)
      then have "write_inv a p b os0 c0 ?s2"
        using less.prems(1) wrote(1,2) True by (simp add: write_inv_def add.assoc)
      moreover have "length b - wr_done (wrw ?s2 a) < length b - wr_done (wrw s a)" using wrote True by simp
      ultimately have "write_inv a p b os0 c0 s1 \<and> (if ok then wr_done (wrw s1 a) = length b else wr_done (wrw ?s2 a) \<le> wr_done (wrw s1 a))"
        using less.hyps [of ?s2] less.prems(2) step by (auto split: if_splits)
      then show ?thesis using wrote(1) by (auto split: if_splits)
    next
      case block
      have "try_write os a s = (False, s\<lparr>kern := k, fl_errno := e\<rparr>)"
        using True block inv c by (subst try_write.simps) (simp add: Let_def)
      then show ?thesis using less.prems block by (auto simp: write_inv_def)
    qed
  qed
qed

lemma file_pwrite_completes:
  assumes "fl_fd s = f" and "\<not> fl_closed s" and "0 \<le> offs s p"
  shows "\<exists>s1. file_write_op os idle a (Some p) b s = Some (int (length b), s1) \<and> fl_fd s1 = f \<and> \<not> fl_closed s1 \<and>
    content (kern s1) = overwrite (nat (offs s p)) b (content (kern s)) \<and> offs s1 = (offs s)(p := offs s p + int (length b))"
proof -
  let ?I = "write_inv a p b (offs s) (content (kern s))"
  let ?todo = "\<lambda>s. 2 * (length b - wr_done (wrw s a)) + (if woken EPOLLOUT (kern s) then 0 else 1)"
  let ?Q = "\<lambda>s1. ?I s1 \<and> wr_done (wrw s1 a) = length b"
  have "\<exists>s1. await_loop (write_attempt_once os) (write_register_wait os) (file_wait os idle EPOLLOUT) True a (write_awaiter_init a b (Some p) s)
      = Some (drain_done a s1) \<and> ?Q s1"
  proof (rule await_completes [where I = ?I and todo = ?todo and Q = ?Q])
    show "?I (write_awaiter_init a b (Some p) s)" using assms by (simp add: write_inv_def write_awaiter_init_def)
    show "func (write_register_wait os a first s) = func s" for first s by (simp add: write_register_wait_def)
    fix first s0 r s1
    assume I: "?I s0" and "write_attempt_once os a s0 = (r, s1)"
    then obtain ok where t: "try_write os a s0 = (ok, s1)" and r: "r = (if ok then 0 else - 1)"
      by (auto simp: write_attempt_once_def split: prod.splits)
    note pr = try_write_progress [OF I assms(3) t]
    let ?s2 = "file_wait os idle EPOLLOUT (write_register_wait os a first (s1\<lparr>func := (func s1)(a := Code Drive_cb)\<rparr>))"
    have "?I ?s2" using pr by (simp add: write_inv_def write_register_wait_def)
    moreover have "?todo ?s2 < ?todo s0" if "\<not> ok"
    proof -
      have "wr_done (wrw s1 a) \<le> length b" using pr by (simp add: write_inv_def)
      moreover have "wr_done (wrw ?s2 a) = wr_done (wrw s1 a)" by (simp add: write_register_wait_def)
      ultimately show ?thesis using pr that woken_wait [of EPOLLOUT] by auto
    qed
    ultimately show "r = 0 \<and> ?Q s1 \<or> r < 0 \<and> (let s2 = ?s2 in ?I s2 \<and> ?todo s2 < ?todo s0)"
      using pr r unfolding Let_def by (cases ok) simp_all
  qed
  then obtain s1 where "file_write_op os idle a (Some p) b s = Some (write_await_resume a (drain_done a s1))" and Q: "?Q s1"
    unfolding file_write_op_def by (elim exE conjE) simp
  moreover have "write_await_resume a (drain_done a s1) = (int (length b), drain_done a s1)"
    using Q open_fd by (simp add: write_await_resume_def write_inv_def file_closed_def)
  ultimately have "file_write_op os idle a (Some p) b s = Some (int (length b), drain_done a s1)" by simp
  moreover have "fl_fd (drain_done a s1) = f \<and> \<not> fl_closed (drain_done a s1) \<and>
      content (kern (drain_done a s1)) = overwrite (nat (offs s p)) b (content (kern s)) \<and>
      offs (drain_done a s1) = (offs s)(p := offs s p + int (length b))"
    using Q by (simp add: write_inv_def)
  ultimately show ?thesis by blast
qed

end

context seekable_file
begin

definition read_inv :: "addr \<Rightarrow> addr \<Rightarrow> nat \<Rightarrow> (addr \<Rightarrow> int) \<Rightarrow> bytes \<Rightarrow> ('k, 'b) file_obj_scheme \<Rightarrow> bool" where
  "read_inv a p len os0 c0 s \<longleftrightarrow> fl_fd s = f \<and> \<not> fl_closed s \<and> rd_len (rdw s a) = len \<and> length (rd_buf (rdw s a)) = len \<and>
     rd_pofs (rdw s a) = Some p \<and> offs s = os0 \<and> content (kern s) = c0"

definition read_done :: "addr \<Rightarrow> addr \<Rightarrow> nat \<Rightarrow> (addr \<Rightarrow> int) \<Rightarrow> bytes \<Rightarrow> ('k, 'b) file_obj_scheme \<Rightarrow> bool" where
  "read_done a p len os0 c0 s \<longleftrightarrow> fl_fd s = f \<and> \<not> fl_closed s \<and> content (kern s) = c0 \<and>
     (let n = nrd (rdw s a); d = take (nat n) (rd_buf (rdw s a))
      in 0 \<le> n \<and> int (length d) = n \<and> length d \<le> len \<and> d = take (length d) (drop (nat (os0 p)) c0) \<and>
         (n = 0 \<longrightarrow> length c0 \<le> nat (os0 p)) \<and> offs s = os0(p := os0 p + n))"

lemma read_attempt_outcome:
  assumes "read_inv a p len os0 c0 s" and "0 \<le> os0 p" and "0 < len" and "read_attempt_once os a s = (r, s1)"
  shows "r = 0 \<and> read_done a p len os0 c0 s1 \<or> r < 0 \<and> read_inv a p len os0 c0 s1 \<and> \<not> woken EPOLLIN (kern s)"
proof -
  have inv: "fl_fd s = f" "\<not> fl_fd s < 0" "rd_len (rdw s a) = len" "rd_pofs (rdw s a) = Some p" "offs s = os0"
    "length (rd_buf (rdw s a)) = len" "content (kern s) = c0" "\<not> fl_closed s"
    using assms(1) open_fd by (simp_all add: read_inv_def)
  obtain n e d k where c: "fo_pread os f len (os0 p) (kern s) = ((n, e, d), k)" by (metis prod_cases3 surj_pair)
  note o = pread_outcome [OF c assms(3,2)]
  have t: "try_read os a s =
      (n, let s1 = s\<lparr>kern := k, fl_errno := (if n < 0 then e else fl_errno s),
                    rdw := (rdw s)(a := (rdw s a)\<lparr>rd_buf := (if n > 0 then buf_write 0 (take (nat n) d) (rd_buf (rdw s a)) else rd_buf (rdw s a))\<rparr>)\<rparr>
          in if n > 0 then s1\<lparr>offs := os0(p := os0 p + n)\<rparr> else s1)"
    using inv c by (simp add: try_read_def Let_def)
  show ?thesis
  proof (cases "n < 0")
    case True
    then have "e = EAGAIN" "\<not> woken EPOLLIN (kern s)" "content k = c0" using o inv(7) by auto
    then show ?thesis using assms(4) True inv by (auto simp: read_attempt_once_def t Let_def read_inv_def)
  next
    case False
    then have d: "int (length d) = n" "length d \<le> len" "d = take (length d) (drop (nat (os0 p)) c0)"
        "n = 0 \<longrightarrow> length c0 \<le> nat (os0 p)" "content k = c0"
      using o inv(7) by auto
    have nd: "nat n = length d" using d(1) by simp
    show ?thesis
    proof (cases "n = 0")
      case True
      then show ?thesis using assms(4) inv d by (auto simp: read_attempt_once_def t Let_def read_done_def)
    next
      case pos: False
      have b: "take (nat n) (buf_write 0 (take (nat n) d) (rd_buf (rdw s a))) = d"
        using nd by (simp add: buf_write_def)
      show ?thesis
        using assms(4) inv d nd False pos b by (auto simp: read_attempt_once_def t Let_def read_done_def)
    qed
  qed
qed

lemma file_pread_completes:
  assumes "fl_fd s = f" and "\<not> fl_closed s" and "0 \<le> offs s p" and "0 < len"
  shows "\<exists>n d s1. file_read_op os idle a (Some p) len s = Some (n, d, s1) \<and> int (length d) = n \<and> length d \<le> len \<and>
    d = take (length d) (drop (nat (offs s p)) (content (kern s))) \<and> (n = 0 \<longrightarrow> length (content (kern s)) \<le> nat (offs s p)) \<and>
    offs s1 = (offs s)(p := offs s p + n) \<and> content (kern s1) = content (kern s) \<and> fl_fd s1 = f \<and> \<not> fl_closed s1"
proof -
  let ?I = "read_inv a p len (offs s) (content (kern s))" and ?Q = "read_done a p len (offs s) (content (kern s))"
  let ?todo = "\<lambda>s. if woken EPOLLIN (kern s) then 0 else 1 :: nat"
  have "\<exists>s1. await_loop (read_attempt_once os) (read_register_wait os) (file_wait os idle EPOLLIN) True a (read_awaiter_init a len (Some p) s)
      = Some (drain_done a s1) \<and> ?Q s1"
  proof (rule await_completes [where I = ?I and todo = ?todo and Q = ?Q])
    show "?I (read_awaiter_init a len (Some p) s)" using assms by (simp add: read_inv_def read_awaiter_init_def)
    show "func (read_register_wait os a first s) = func s" for first s by (simp add: read_register_wait_def)
    fix first s0 r s1
    assume I: "?I s0" and att: "read_attempt_once os a s0 = (r, s1)"
    let ?s2 = "file_wait os idle EPOLLIN (read_register_wait os a first (s1\<lparr>func := (func s1)(a := Code Drive_cb)\<rparr>))"
    have "?I s1 \<Longrightarrow> ?I ?s2" by (simp add: read_inv_def read_register_wait_def)
    then show "r = 0 \<and> ?Q s1 \<or> r < 0 \<and> (let s2 = ?s2 in ?I s2 \<and> ?todo s2 < ?todo s0)"
      using read_attempt_outcome [OF I assms(3,4) att] woken_wait [of EPOLLIN] unfolding Let_def by auto
  qed
  then obtain s1 where r: "file_read_op os idle a (Some p) len s =
      Some (case read_await_resume a (drain_done a s1) of (n, s2) \<Rightarrow> (n, take (nat n) (rd_buf (rdw s2 a)), s2))" and Q: "?Q s1"
    unfolding file_read_op_def by (elim exE conjE) simp
  have "read_await_resume a (drain_done a s1) = (nrd (rdw s1 a), drain_done a s1)"
    using Q by (simp add: read_await_resume_def read_done_def Let_def)
  then have "file_read_op os idle a (Some p) len s = Some (nrd (rdw s1 a), take (nat (nrd (rdw s1 a))) (rd_buf (rdw s1 a)), drain_done a s1)"
    using r by simp
  moreover have "fl_fd (drain_done a s1) = fl_fd s1" "fl_closed (drain_done a s1) = fl_closed s1" "offs (drain_done a s1) = offs s1"
    "kern (drain_done a s1) = kern s1" by simp_all
  ultimately show ?thesis using Q unfolding read_done_def Let_def by metis
qed

end

section \<open>Properties\<close>

text \<open>
  C25: On a file without failures \<open>pwrite\<close> returns after everything is written, however often the kernel writes less or would block:
  the file then holds the data at the offset and is unchanged elsewhere, and the offset has moved behind it. A later \<open>pread\<close> from
  the old offset returns and reads it back: a non-empty piece that agrees with the data, by whose length the offset of the reader moves.
\<close>

theorem file_pwrite_pread:
  assumes "seekable_file os idle f content woken" and "fl_fd s = f" and "\<not> fl_closed s" and "0 \<le> offs s p" and "data \<noteq> []"
  shows "\<exists>s1. file_write_op os idle a (Some p) data s = Some (int (length data), s1) \<and>
    content (kern s1) = overwrite (nat (offs s p)) data (content (kern s)) \<and> offs s1 = (offs s)(p := offs s p + int (length data)) \<and>
    (\<forall>b q len. offs s1 q = offs s p \<and> 0 < len \<longrightarrow>
      (\<exists>n d s2. file_read_op os idle b (Some q) len s1 = Some (n, d, s2) \<and> 0 < n \<and> int (length d) = n \<and> length d \<le> len \<and>
         take (length data) d = take (length d) data \<and> offs s2 = (offs s1)(q := offs s1 q + n) \<and> content (kern s2) = content (kern s1)))"
proof -
  obtain s1 where w: "file_write_op os idle a (Some p) data s = Some (int (length data), s1)" "fl_fd s1 = f" "\<not> fl_closed s1"
    "content (kern s1) = overwrite (nat (offs s p)) data (content (kern s))" "offs s1 = (offs s)(p := offs s p + int (length data))"
    using seekable_file.file_pwrite_completes [OF assms(1-4), of a data] by blast
  have "\<exists>n d s2. file_read_op os idle b (Some q) len s1 = Some (n, d, s2) \<and> 0 < n \<and> int (length d) = n \<and> length d \<le> len \<and>
         take (length data) d = take (length d) data \<and> offs s2 = (offs s1)(q := offs s1 q + n) \<and> content (kern s2) = content (kern s1)"
    if q: "offs s1 q = offs s p" "0 < len" for b q len
  proof -
    obtain n d s2 where r: "file_read_op os idle b (Some q) len s1 = Some (n, d, s2)" "int (length d) = n" "length d \<le> len"
      "d = take (length d) (drop (nat (offs s p)) (content (kern s1)))" "n = 0 \<longrightarrow> length (content (kern s1)) \<le> nat (offs s p)"
      "offs s2 = (offs s1)(q := offs s1 q + n)" "content (kern s2) = content (kern s1)"
      using seekable_file.file_pread_completes [OF assms(1) w(2,3), of q len b] q assms(4) by auto
    have "nat (offs s p) + length data \<le> length (content (kern s1))"
      unfolding w(4) by (rule overwrite_length [OF assms(5)])
    moreover have "0 < length data" using assms(5) by simp
    ultimately have "n \<noteq> 0" using r(5) by linarith
    then have "0 < n" using r(2) by simp
    moreover have "take (length data) d = take (length d) data"
    proof -
      have "take (length data) d = take (length d) (take (length data) (drop (nat (offs s p)) (content (kern s1))))"
        by (subst r(4)) (simp add: min.commute)
      then show ?thesis unfolding w(4) overwrite_read .
    qed
    ultimately show ?thesis using r by blast
  qed
  then show ?thesis using w by blast
qed

section \<open>Errors\<close>

text \<open>
  An error of \<^verbatim>\<open>write\<close> before anything is written ends the operation, and \<open>await_resume\<close> returns the number of bytes written: the caller
  sees 0, not an error.
\<close>

lemma file_write_error_hidden:
  assumes "fo_write os (fl_fd s) b (kern s) = ((n, e), k)" and "n < 0" and "e \<noteq> EAGAIN" and "b \<noteq> []" and "\<not> file_closed s"
  shows "\<exists>s1. file_write_op os idle a None b s = Some (0, s1)"
proof -
  let ?s0 = "write_awaiter_init a b None s"
  have "write_attempt_once os a ?s0 = (0, ?s0\<lparr>kern := k, fl_errno := e\<rparr>)"
    using assms by (simp add: write_attempt_once_def, subst try_write.simps) (simp add: write_awaiter_init_def Let_def)
  then show ?thesis
    using assms(5) await_done [of "write_attempt_once os" a ?s0]
    by (simp add: file_write_op_def write_await_resume_def write_awaiter_init_def file_closed_def)
qed

text \<open>
  \<open>try_read\<close> on a closed handle returns -1 without a system call, and \<open>attempt_once\<close> then looks at whatever \<open>errno\<close> is left: with
  \<open>EAGAIN\<close> from an earlier call the operation is taken to block, and waits on the descriptor -1.
\<close>

lemma file_read_closed_blocks:
  assumes "fl_fd s < 0" and "fl_errno s = EAGAIN"
  shows "\<exists>s1. read_attempt_once os a s = (- 1, s1) \<and> fl_fd s1 < 0"
  using assms by (simp add: read_attempt_once_def try_read_def Let_def)

section \<open>A concrete file\<close>

text \<open>A file in memory that takes two bytes at a time, then blocks until it is waited for, and gives at most three bytes.\<close>

record ram_kernel =
  ram :: bytes
  ram_busy :: bool

definition ram_idle :: "32 word \<Rightarrow> ram_kernel \<Rightarrow> ram_kernel" where
  "ram_idle flags k = k\<lparr>ram_busy := False\<rparr>"

definition ram_woken :: "32 word \<Rightarrow> ram_kernel \<Rightarrow> bool" where
  "ram_woken flags k \<longleftrightarrow> \<not> ram_busy k"

definition ram_os :: "ram_kernel file_os" where
  "ram_os =
     \<lparr>fo_ctl = (\<lambda>oper fd ev k. ((0, 0), k)), fo_open = (\<lambda>path flags mode k. (5, k)), fo_getfl = (\<lambda>fd k. 0), fo_setfl = (\<lambda>fd v k. k),
      fo_close = (\<lambda>fd k. k), fo_read = (\<lambda>fd len k. ((0, 0, []), k)),
      fo_pread = (\<lambda>fd len ofs k. let d = take (min 3 len) (drop (nat ofs) (ram k)) in ((int (length d), 0, d), k)),
      fo_write = (\<lambda>fd b k. ((0, 0), k)),
      fo_pwrite = (\<lambda>fd b ofs k. if ram_busy k then ((- 1, EAGAIN), k)
                               else ((int (min 2 (length b)), 0), \<lparr>ram = overwrite (nat ofs) (take 2 b) (ram k), ram_busy = True\<rparr>))\<rparr>"

interpretation ramf: seekable_file ram_os ram_idle 5 ram ram_woken
proof
  fix b ofs k n e k1
  assume "fo_pwrite ram_os 5 b ofs k = ((n, e), k1)" and "b \<noteq> []"
  then show "0 < n \<and> nat n \<le> length b \<and> ram k1 = overwrite (nat ofs) (take (nat n) b) (ram k) \<or>
      n < 0 \<and> e = EAGAIN \<and> ram k1 = ram k \<and> \<not> ram_woken EPOLLOUT k"
    by (cases "length b \<le> 2") (auto simp: ram_os_def ram_woken_def min_def split: if_splits)
next
  fix len ofs k n e d k1
  assume "fo_pread ram_os 5 len ofs k = ((n, e, d), k1)" and "0 < len"
  then show "ram k1 = ram k \<and> (int (length d) = n \<and> length d \<le> len \<and> d = take (length d) (drop (nat ofs) (ram k)) \<and>
         (n = 0 \<longrightarrow> length (ram k) \<le> nat ofs) \<or> n < 0 \<and> e = EAGAIN \<and> \<not> ram_woken EPOLLIN k)"
    by (auto simp: ram_os_def Let_def min_def split: if_splits)
qed (auto simp: ram_os_def ram_idle_def ram_woken_def)

definition demo_file :: "ram_kernel file_obj" where
  "demo_file = epr.extend (cbq.extend demo_cbq (epr.fields Map.empty \<lparr>ram = [1, 2], ram_busy = False\<rparr>))
     (file_obj.fields 5 False 50 60 0 (\<lambda>_. 1) (\<lambda>_. \<lparr>rd_buf = [], rd_len = 0, nrd = 0, rd_pofs = None\<rparr>)
       (\<lambda>_. \<lparr>wr_buf = [], wr_len = 0, wr_done = 0, wr_pofs = None\<rparr>))"

theorem file_pwrite_pread_witness:
  "\<exists>s1 n d s2. file_write_op ram_os ram_idle 40 (Some 70) [7, 8, 9] demo_file = Some (3, s1) \<and> ram (kern s1) = [1, 7, 8, 9] \<and>
     file_read_op ram_os ram_idle 41 (Some 71) 2 s1 = Some (n, d, s2) \<and> d = take (length d) [7, 8, 9] \<and> d \<noteq> []"
proof -
  have s: "fl_fd demo_file = 5" "\<not> fl_closed demo_file" "offs demo_file p = 1" "ram (kern demo_file) = [1, 2]" for p
    by (simp_all add: demo_file_def epr.defs cbq.defs file_obj.defs)
  have "overwrite 1 [7, 8, 9] [1, 2] = [1, 7, 8, 9]" by (simp add: overwrite_def)
  with file_pwrite_pread [OF ramf.seekable_file_axioms s(1,2), of 70 "[7, 8, 9]" 40] s obtain s1 where
    w: "file_write_op ram_os ram_idle 40 (Some 70) [7, 8, 9] demo_file = Some (3, s1)" "ram (kern s1) = [1, 7, 8, 9]"
      "offs s1 = (offs demo_file)(70 := 4)"
    and rd: "\<forall>b q len. offs s1 q = offs demo_file 70 \<and> 0 < len \<longrightarrow>
      (\<exists>n d s2. file_read_op ram_os ram_idle b (Some q) len s1 = Some (n, d, s2) \<and> 0 < n \<and> int (length d) = n \<and> length d \<le> len \<and>
         take (length [7, 8, 9 :: 8 word]) d = take (length d) [7, 8, 9] \<and> offs s2 = (offs s1)(q := offs s1 q + n) \<and> ram (kern s2) = ram (kern s1))"
    by auto
  have "offs s1 71 = offs demo_file 70" using w(3) s(3) by simp
  then have "offs s1 71 = offs demo_file 70 \<and> 0 < (2 :: nat)" by simp
  from rd [rule_format, OF this, of 41] obtain n d s2 where
    r: "file_read_op ram_os ram_idle 41 (Some 71) 2 s1 = Some (n, d, s2)" "0 < n" "int (length d) = n" "length d \<le> 2"
      "take (length [7, 8, 9 :: 8 word]) d = take (length d) [7, 8, 9]" by fast
  have "d = take (length d) [7, 8, 9]" using r(4,5) by simp
  moreover have "d \<noteq> []" using r(2,3) by auto
  ultimately show ?thesis using w(1,2) r(1) by blast
qed

end
