(* ===== verification/Usb_Device.thy ===== *)
theory Usb_Device
  imports Callback_Wq
begin

text \<open>
  Bulk transfers of \<^verbatim>\<open>io/usb_device.hpp\<close>: the pool of transfer slots and its awaiters.

  The state is that of one pool. A slot is named by the address of its \<open>link\<close>, an awaiter by its work node; \<open>bulk\<close> holds the members of the
  awaiters, \<open>xfer\<close> the fields of the \<open>libusb_transfer\<close> of a slot. libusb is not part of the sources: \<open>lib\<close> is its state,
  \<open>lib_submit\<close> and \<open>lib_cancel\<close> are arguments, the completion of a transfer is an input. \<open>pst\<close> stands for
  \<open>post_via_route(_dev.exec(), *this)\<close>; \<open>usb_trace\<close> records the awaiters handed to it with their results. A section under \<open>_lock\<close> is
  one definition.
\<close>

unbundle bit_operations_syntax

section \<open>Data\<close>

datatype slot_state = Slot_idle | Slot_reserved | Slot_in_flight | Slot_completed

datatype transfer_status =
  Transfer_completed | Transfer_error | Transfer_timed_out | Transfer_cancelled | Transfer_stall | Transfer_no_device | Transfer_overflow

record xfer =
  xf_flags :: "8 word"
  xf_endpoint :: "8 word"
  xf_buffer :: addr
  xf_length :: int
  xf_timeout :: "32 word"

record bulk_aw =
  ba_endpoint :: "8 word"
  ba_buffer :: addr
  ba_length :: int
  ba_timeout :: "32 word"
  ba_zero :: bool
  ba_cancelled :: bool
  ba_waiting :: bool
  ba_submitted :: bool
  ba_slot :: "addr option"
  ba_result :: int

record 'k usb = cbq +
  free_slots :: addr
  waiting_list :: addr
  slot_status :: "addr \<Rightarrow> slot_state"
  slot_owner :: "addr \<Rightarrow> addr option"
  transfer_of :: "addr \<Rightarrow> xfer"
  bulk :: "addr \<Rightarrow> bulk_aw"
  lib :: 'k
  usb_trace :: "(addr \<times> int) list"

definition LIBUSB_ERROR_IO :: int where "LIBUSB_ERROR_IO = - 1"
definition LIBUSB_ERROR_NO_DEVICE :: int where "LIBUSB_ERROR_NO_DEVICE = - 4"
definition LIBUSB_ERROR_TIMEOUT :: int where "LIBUSB_ERROR_TIMEOUT = - 7"
definition LIBUSB_ERROR_OVERFLOW :: int where "LIBUSB_ERROR_OVERFLOW = - 8"
definition LIBUSB_ERROR_PIPE :: int where "LIBUSB_ERROR_PIPE = - 9"
definition LIBUSB_ERROR_INTERRUPTED :: int where "LIBUSB_ERROR_INTERRUPTED = - 10"
definition LIBUSB_ERROR_OTHER :: int where "LIBUSB_ERROR_OTHER = - 99"
definition ADD_ZERO_PACKET :: "8 word" where "ADD_ZERO_PACKET = 8"

definition translate_status :: "transfer_status \<Rightarrow> int \<Rightarrow> int" where
  "translate_status st actual_length =
     (case st of
        Transfer_completed \<Rightarrow> actual_length
      | Transfer_timed_out \<Rightarrow> LIBUSB_ERROR_TIMEOUT
      | Transfer_stall \<Rightarrow> LIBUSB_ERROR_PIPE
      | Transfer_no_device \<Rightarrow> LIBUSB_ERROR_NO_DEVICE
      | Transfer_overflow \<Rightarrow> LIBUSB_ERROR_OVERFLOW
      | Transfer_cancelled \<Rightarrow> LIBUSB_ERROR_INTERRUPTED
      | Transfer_error \<Rightarrow> LIBUSB_ERROR_IO)"

section \<open>The pool\<close>

definition upd_bulk :: "addr \<Rightarrow> (bulk_aw \<Rightarrow> bulk_aw) \<Rightarrow> ('k, 'b) usb_scheme \<Rightarrow> ('k, 'b) usb_scheme" where
  "upd_bulk w g s = s\<lparr>bulk := (bulk s)(w := g (bulk s w))\<rparr>"

fun add_slots :: "addr list \<Rightarrow> ('k, 'b) usb_scheme \<Rightarrow> ('k, 'b) usb_scheme" where
  "add_slots [] s = s"
| "add_slots (x # xs) s =
     add_slots xs (s\<lparr>slot_status := (slot_status s)(x := Slot_idle), slot_owner := (slot_owner s)(x := None),
                     lks := list_add_tail x (free_slots s) (INIT_LIST_HEAD x (lks s))\<rparr>)"

definition transfer_pool_init :: "addr list \<Rightarrow> ('k, 'b) usb_scheme \<Rightarrow> ('k, 'b) usb_scheme" where
  "transfer_pool_init slots s =
     add_slots slots (s\<lparr>lks := INIT_LIST_HEAD (waiting_list s) (INIT_LIST_HEAD (free_slots s) (lks s))\<rparr>)"

definition acquire_or_enqueue :: "addr \<Rightarrow> ('k, 'b) usb_scheme \<Rightarrow> addr option \<times> ('k, 'b) usb_scheme" where
  "acquire_or_enqueue w s =
     (if \<not> list_empty (free_slots s) (lks s)
      then let x = nxt (lks s) (free_slots s)
           in (Some x, s\<lparr>lks := list_del x (lks s), slot_status := (slot_status s)(x := Slot_reserved)\<rparr>)
      else (None, upd_bulk w (ba_waiting_update (\<lambda>_. True)) (s\<lparr>lks := list_add_tail w (waiting_list s) (lks s)\<rparr>)))"

text \<open>The locked part of \<open>release_slot\<close>: the waiter that gets the slot, if any.\<close>

definition pool_release_locked :: "addr \<Rightarrow> ('k, 'b) usb_scheme \<Rightarrow> addr option \<times> ('k, 'b) usb_scheme" where
  "pool_release_locked x s =
     (let s1 = s\<lparr>slot_status := (slot_status s)(x := Slot_idle)\<rparr>
      in if \<not> list_empty (waiting_list s1) (lks s1)
         then let w = nxt (lks s1) (waiting_list s1);
                  s2 = upd_bulk w (ba_waiting_update (\<lambda>_. False)) (s1\<lparr>lks := INIT_LIST_HEAD w (list_del w (lks s1))\<rparr>)
              in (Some w, s2\<lparr>slot_status := (slot_status s2)(x := Slot_reserved)\<rparr>)
         else (None, s1\<lparr>lks := list_add_tail x (free_slots s1) (lks s1)\<rparr>))"

definition remove_waiter :: "addr \<Rightarrow> ('k, 'b) usb_scheme \<Rightarrow> bool \<times> ('k, 'b) usb_scheme" where
  "remove_waiter w s =
     (if nxt (lks s) w = w then (False, s)
      else (True, s\<lparr>lks := INIT_LIST_HEAD w (list_del w (lks s))\<rparr>))"

definition fill_transfer :: "bulk_aw \<Rightarrow> xfer" where
  "fill_transfer b =
     \<lparr>xf_flags = (if ba_zero b then 0 OR ADD_ZERO_PACKET else 0), xf_endpoint = ba_endpoint b, xf_buffer = ba_buffer b,
      xf_length = ba_length b, xf_timeout = ba_timeout b\<rparr>"

definition slot_submit ::
  "(addr \<Rightarrow> xfer \<Rightarrow> 'k \<Rightarrow> int \<times> 'k) \<Rightarrow> addr \<Rightarrow> addr \<Rightarrow> ('k, 'b) usb_scheme \<Rightarrow> int \<times> ('k, 'b) usb_scheme" where
  "slot_submit lib_submit x w s =
     (let s1 = s\<lparr>transfer_of := (transfer_of s)(x := fill_transfer (bulk s w)), slot_owner := (slot_owner s)(x := Some w),
                 slot_status := (slot_status s)(x := Slot_in_flight)\<rparr>
      in case lib_submit x (transfer_of s1 x) (lib s1) of (rc, k) \<Rightarrow>
           (rc, if rc < 0 then s1\<lparr>lib := k, slot_owner := (slot_owner s1)(x := None), slot_status := (slot_status s1)(x := Slot_idle)\<rparr>
                else s1\<lparr>lib := k\<rparr>))"

definition slot_cancel :: "(addr \<Rightarrow> 'k \<Rightarrow> 'k) \<Rightarrow> addr \<Rightarrow> ('k, 'b) usb_scheme \<Rightarrow> ('k, 'b) usb_scheme" where
  "slot_cancel lib_cancel x s = (if slot_status s x = Slot_in_flight then s\<lparr>lib := lib_cancel x (lib s)\<rparr> else s)"

section \<open>The awaiter\<close>

definition bulk_awaiter_init ::
  "addr \<Rightarrow> 8 word \<Rightarrow> addr \<Rightarrow> int \<Rightarrow> 32 word \<Rightarrow> bool \<Rightarrow> ('k, 'b) usb_scheme \<Rightarrow> ('k, 'b) usb_scheme" where
  "bulk_awaiter_init w endpoint buffer len timeout_ms zero s =
     s\<lparr>lks := INIT_LIST_HEAD w (lks s),
       bulk := (bulk s)(w := \<lparr>ba_endpoint = endpoint, ba_buffer = buffer, ba_length = len, ba_timeout = timeout_ms, ba_zero = zero,
                             ba_cancelled = False, ba_waiting = False, ba_submitted = False, ba_slot = None,
                             ba_result = LIBUSB_ERROR_OTHER\<rparr>)\<rparr>"

definition post_completion ::
  "(addr \<Rightarrow> ('k, 'b) usb_scheme \<Rightarrow> ('k, 'b) usb_scheme) \<Rightarrow> addr \<Rightarrow> ('k, 'b) usb_scheme \<Rightarrow> ('k, 'b) usb_scheme" where
  "post_completion pst w s =
     (if ba_cancelled (bulk s w) then s
      else pst w (s\<lparr>func := (func s)(w := Code Resume_cb), usb_trace := usb_trace s @ [(w, ba_result (bulk s w))]\<rparr>))"

text \<open>
  \<open>start_with_slot\<close> and \<open>release_slot\<close> call each other; here the recursion is in the former, with the locked part of the latter.
\<close>

partial_function (option) start_with_slot ::
  "(addr \<Rightarrow> xfer \<Rightarrow> 'k \<Rightarrow> int \<times> 'k) \<Rightarrow> (addr \<Rightarrow> ('k, 'b) usb_scheme \<Rightarrow> ('k, 'b) usb_scheme) \<Rightarrow> addr \<Rightarrow> addr \<Rightarrow>
   ('k, 'b) usb_scheme \<Rightarrow> ('k, 'b) usb_scheme option" where
  "start_with_slot lib_submit pst x w s =
     (if ba_cancelled (bulk s w)
      then (case pool_release_locked x s of (None, s1) \<Rightarrow> Some s1 | (Some nx, s1) \<Rightarrow> start_with_slot lib_submit pst x nx s1)
      else (case slot_submit lib_submit x w (upd_bulk w (ba_slot_update (\<lambda>_. Some x)) s) of (rc, s1) \<Rightarrow>
              if rc < 0
              then let s2 = post_completion pst w (upd_bulk w (\<lambda>b. b\<lparr>ba_slot := None, ba_result := rc\<rparr>) s1)
                   in (case pool_release_locked x s2 of (None, s3) \<Rightarrow> Some s3 | (Some nx, s3) \<Rightarrow> start_with_slot lib_submit pst x nx s3)
              else Some (upd_bulk w (ba_submitted_update (\<lambda>_. True)) s1)))"

definition release_slot ::
  "(addr \<Rightarrow> xfer \<Rightarrow> 'k \<Rightarrow> int \<times> 'k) \<Rightarrow> (addr \<Rightarrow> ('k, 'b) usb_scheme \<Rightarrow> ('k, 'b) usb_scheme) \<Rightarrow> addr \<Rightarrow>
   ('k, 'b) usb_scheme \<Rightarrow> ('k, 'b) usb_scheme option" where
  "release_slot lib_submit pst x s =
     (case pool_release_locked x s of (None, s1) \<Rightarrow> Some s1 | (Some nx, s1) \<Rightarrow> start_with_slot lib_submit pst x nx s1)"

definition bulk_await_suspend ::
  "(addr \<Rightarrow> xfer \<Rightarrow> 'k \<Rightarrow> int \<times> 'k) \<Rightarrow> (addr \<Rightarrow> ('k, 'b) usb_scheme \<Rightarrow> ('k, 'b) usb_scheme) \<Rightarrow> addr \<Rightarrow> addr \<Rightarrow>
   ('k, 'b) usb_scheme \<Rightarrow> ('k, 'b) usb_scheme option" where
  "bulk_await_suspend lib_submit pst w h s =
     (case acquire_or_enqueue w (s\<lparr>h_of := (h_of s)(w := Some h)\<rparr>) of
        (Some x, s1) \<Rightarrow> start_with_slot lib_submit pst x w s1
      | (None, s1) \<Rightarrow> Some s1)"

definition bulk_await_resume :: "addr \<Rightarrow> ('k, 'b) usb_scheme \<Rightarrow> int" where
  "bulk_await_resume w s = ba_result (bulk s w)"

definition awaiter_on_transfer_complete ::
  "(addr \<Rightarrow> xfer \<Rightarrow> 'k \<Rightarrow> int \<times> 'k) \<Rightarrow> (addr \<Rightarrow> ('k, 'b) usb_scheme \<Rightarrow> ('k, 'b) usb_scheme) \<Rightarrow> addr \<Rightarrow> int \<Rightarrow> addr \<Rightarrow>
   ('k, 'b) usb_scheme \<Rightarrow> ('k, 'b) usb_scheme option" where
  "awaiter_on_transfer_complete lib_submit pst w res x s =
     release_slot lib_submit pst x
       (post_completion pst w (upd_bulk w (\<lambda>b. b\<lparr>ba_submitted := False, ba_slot := None, ba_result := res\<rparr>) s))"

definition slot_on_transfer_complete ::
  "(addr \<Rightarrow> xfer \<Rightarrow> 'k \<Rightarrow> int \<times> 'k) \<Rightarrow> (addr \<Rightarrow> ('k, 'b) usb_scheme \<Rightarrow> ('k, 'b) usb_scheme) \<Rightarrow> addr \<Rightarrow> transfer_status \<Rightarrow>
   int \<Rightarrow> ('k, 'b) usb_scheme \<Rightarrow> ('k, 'b) usb_scheme option" where
  "slot_on_transfer_complete lib_submit pst x st actual_length s =
     (let aw = slot_owner s x;
          s1 = s\<lparr>slot_status := (slot_status s)(x := Slot_completed), slot_owner := (slot_owner s)(x := None)\<rparr>;
          res = translate_status st actual_length
      in case aw of None \<Rightarrow> Some s1 | Some w \<Rightarrow> awaiter_on_transfer_complete lib_submit pst w res x s1)"

definition bulk_awaiter_dtor :: "(addr \<Rightarrow> 'k \<Rightarrow> 'k) \<Rightarrow> addr \<Rightarrow> ('k, 'b) usb_scheme \<Rightarrow> ('k, 'b) usb_scheme" where
  "bulk_awaiter_dtor lib_cancel w s =
     (let s1 = (upd_bulk w (ba_cancelled_update (\<lambda>_. True)) s)\<lparr>h_of := (h_of s)(w := None)\<rparr>
      in case ba_slot (bulk s1 w) of
           Some x \<Rightarrow> if ba_submitted (bulk s1 w) then slot_cancel lib_cancel x s1 else s1
         | None \<Rightarrow>
             if ba_waiting (bulk s1 w)
             then (case remove_waiter w s1 of (ok, s2) \<Rightarrow> if ok then upd_bulk w (ba_waiting_update (\<lambda>_. False)) s2 else s2)
             else s1)"

section \<open>The device\<close>

text \<open>
  \<open>devs d\<close> are the members of the \<open>usb_device\<close> at \<open>d\<close>; a pool keeps a reference \<open>_dev\<close> to the device it was made for, \<open>pool_dev\<close>.
\<close>

datatype usb_error = Null_device_handle | No_slots | No_executor | Usb_error int

record udev =
  dev_exec :: "addr option"
  dev_handle :: "addr option"
  dev_tx :: "addr option"
  dev_rx :: "addr option"

record usb_heap =
  devs :: "addr \<Rightarrow> udev"
  pool_dev :: "addr \<Rightarrow> addr"

definition usb_device_new ::
  "addr \<Rightarrow> addr \<Rightarrow> addr option \<Rightarrow> nat \<Rightarrow> nat \<Rightarrow> addr \<Rightarrow> addr \<Rightarrow> usb_heap \<Rightarrow> usb_error + usb_heap" where
  "usb_device_new d exec raw_handle tx_slots rx_slots tx rx s =
     (if raw_handle = None then Inl Null_device_handle
      else if tx_slots = 0 \<or> rx_slots = 0 then Inl No_slots
      else Inr (s\<lparr>devs := (devs s)(d := \<lparr>dev_exec = Some exec, dev_handle = raw_handle, dev_tx = Some tx, dev_rx = Some rx\<rparr>),
                  pool_dev := (pool_dev s)(tx := d, rx := d)\<rparr>))"

definition moved_from :: udev where
  "moved_from = \<lparr>dev_exec = None, dev_handle = None, dev_tx = None, dev_rx = None\<rparr>"

definition usb_device_move :: "addr \<Rightarrow> addr \<Rightarrow> usb_heap \<Rightarrow> usb_heap" where
  "usb_device_move d other s = s\<lparr>devs := (devs s)(d := devs s other, other := moved_from)\<rparr>"

definition usb_device_move_assign :: "addr \<Rightarrow> addr \<Rightarrow> usb_heap \<Rightarrow> usb_heap" where
  "usb_device_move_assign d other s = (if d \<noteq> other then usb_device_move d other s else s)"

definition usb_device_exec :: "addr \<Rightarrow> usb_heap \<Rightarrow> usb_error + addr" where
  "usb_device_exec d s = (case dev_exec (devs s d) of None \<Rightarrow> Inl No_executor | Some e \<Rightarrow> Inr e)"

definition kernel_driver_active :: "int \<Rightarrow> usb_error + bool" where
  "kernel_driver_active rc = (if rc < 0 then Inl (Usb_error rc) else Inr (rc = 1))"

text \<open>The pool and the flag of a bulk transfer, or the error when the device has no pool.\<close>

definition bulk_transfer_in :: "addr \<Rightarrow> usb_heap \<Rightarrow> int + addr \<times> bool" where
  "bulk_transfer_in d s = (case dev_rx (devs s d) of None \<Rightarrow> Inl LIBUSB_ERROR_NO_DEVICE | Some p \<Rightarrow> Inr (p, False))"

definition bulk_transfer_out :: "addr \<Rightarrow> usb_heap \<Rightarrow> int + addr \<times> bool" where
  "bulk_transfer_out d s = (case dev_tx (devs s d) of None \<Rightarrow> Inl LIBUSB_ERROR_NO_DEVICE | Some p \<Rightarrow> Inr (p, True))"

text \<open>The handle that \<open>submit\<close> gives to libusb: that of the device the pool refers to.\<close>

definition submit_handle :: "addr \<Rightarrow> usb_heap \<Rightarrow> addr option" where
  "submit_handle p s = dev_handle (devs s (pool_dev s p))"

section \<open>The reference: handing a slot over\<close>

text \<open>
  The slot \<open>x\<close> is offered to the waiters in their order: those that are gone are skipped, those whose submission fails are finished with the
  error, the first whose submission succeeds keeps it. The result: the new owner, the waiters left, the finished ones and libusb.
\<close>

fun give ::
  "(addr \<Rightarrow> xfer \<Rightarrow> 'k \<Rightarrow> int \<times> 'k) \<Rightarrow> (addr \<Rightarrow> bool) \<Rightarrow> (addr \<Rightarrow> xfer) \<Rightarrow> addr \<Rightarrow> addr list \<Rightarrow> 'k \<Rightarrow>
   addr option \<times> addr list \<times> (addr \<times> int) list \<times> 'k" where
  "give lib_submit gone req x [] k = (None, [], [], k)"
| "give lib_submit gone req x (w # ws) k =
     (if gone w then give lib_submit gone req x ws k
      else case lib_submit x (req w) k of (rc, k1) \<Rightarrow>
        if rc < 0 then (case give lib_submit gone req x ws k1 of (ow, rest, failed, k2) \<Rightarrow> (ow, rest, (w, rc) # failed, k2))
        else (Some w, ws, [], k1))"

definition reqs :: "('k, 'b) usb_scheme \<Rightarrow> addr \<Rightarrow> xfer" where
  "reqs s w = fill_transfer (bulk s w)"

definition gone :: "('k, 'b) usb_scheme \<Rightarrow> addr \<Rightarrow> bool" where
  "gone s w \<longleftrightarrow> ba_cancelled (bulk s w)"

text \<open>
  The invariant of a pool with the slots \<open>S\<close> and the awaiters \<open>A\<close>: \<open>fs\<close> are free, \<open>T\<close> are in flight and linked with their awaiter both ways,
  \<open>ws\<close> wait, and only while no slot is free.
\<close>

definition linked :: "addr set \<Rightarrow> ('k, 'b) usb_scheme \<Rightarrow> addr \<Rightarrow> bool" where
  "linked A s x \<longleftrightarrow> slot_status s x = Slot_in_flight \<and>
     (\<exists>w\<in>A. slot_owner s x = Some w \<and> ba_slot (bulk s w) = Some x \<and> ba_submitted (bulk s w))"

definition slot_pool :: "addr set \<Rightarrow> addr set \<Rightarrow> ('k, 'b) usb_scheme \<Rightarrow> rings \<Rightarrow> addr list \<Rightarrow> addr list \<Rightarrow> addr set \<Rightarrow> bool" where
  "slot_pool S A s R fs ws T \<longleftrightarrow>
     R (free_slots s) = Some fs \<and> R (waiting_list s) = Some ws \<and> set fs \<subseteq> S \<and> T \<subseteq> S \<and> set ws \<subseteq> A \<and> (ws \<noteq> [] \<longrightarrow> fs = []) \<and>
     (\<forall>x\<in>S - set fs. R x = Some []) \<and> (\<forall>x\<in>set fs. slot_status s x = Slot_idle \<and> slot_owner s x = None) \<and>
     (\<forall>x\<in>T. linked A s x) \<and>
     (\<forall>w\<in>A. \<forall>x. ba_slot (bulk s w) = Some x \<longrightarrow> x \<in> T \<and> slot_owner s x = Some w) \<and>
     (\<forall>w\<in>A. ba_waiting (bulk s w) \<longleftrightarrow> w \<in> set ws) \<and> (\<forall>w\<in>set ws. ba_slot (bulk s w) = None)"

lemma linked_upd:
  assumes "linked A s x" and "slot_status s' x = slot_status s x" and "slot_owner s' x = slot_owner s x"
    and "\<And>w. ba_slot (bulk s w) = Some x \<Longrightarrow> bulk s' w = bulk s w"
  shows "linked A s' x"
  using assms unfolding linked_def by metis

lemma pool_linked: "slot_pool S A s R fs ws T \<Longrightarrow> x \<in> T \<Longrightarrow> linked A s x"
  by (simp add: slot_pool_def)

definition slot_pool_inv ::
  "(('k, 'b) usb_scheme \<Rightarrow> rings \<Rightarrow> bool) \<Rightarrow> addr set \<Rightarrow> addr set \<Rightarrow> ('k, 'b) usb_scheme \<Rightarrow> addr list \<Rightarrow> addr list \<Rightarrow> addr set \<Rightarrow> bool" where
  "slot_pool_inv world S A s fs ws T \<longleftrightarrow> (\<exists>R. world s R \<and> slot_pool S A s R fs ws T)"

text \<open>
  \<open>handed good x s fs T ws g s'\<close>: from \<open>s\<close>, with the slot \<open>x\<close> in hand, the offer to \<open>ws\<close> with the result \<open>g\<close> of \<open>give\<close> leads to \<open>s'\<close>.
\<close>

definition handed ::
  "(('k, 'b) usb_scheme \<Rightarrow> addr list \<Rightarrow> addr list \<Rightarrow> addr set \<Rightarrow> bool) \<Rightarrow> addr \<Rightarrow> ('k, 'b) usb_scheme \<Rightarrow> addr list \<Rightarrow> addr set \<Rightarrow> addr list \<Rightarrow>
   addr option \<times> addr list \<times> (addr \<times> int) list \<times> 'k \<Rightarrow> ('k, 'b) usb_scheme \<Rightarrow> bool" where
  "handed good x s fs T ws g s' \<longleftrightarrow>
     (case g of (ow, rest, failed, k) \<Rightarrow>
        good s' (if ow = None then fs @ [x] else fs) rest (if ow = None then T else insert x T) \<and>
        lib s' = k \<and> usb_trace s' = usb_trace s @ failed \<and> (ow \<noteq> None \<longrightarrow> slot_owner s' x = ow) \<and>
        (\<forall>(v, rc)\<in>set failed. ba_result (bulk s' v) = rc) \<and> (\<forall>v. v \<notin> set ws \<longrightarrow> bulk s' v = bulk s v))"

lemma handed_from:
  assumes "handed good x s1 fs T ws g s'" and "usb_trace s1 = usb_trace s" and "set ws \<subseteq> set ws'" and "\<And>v. v \<notin> set ws' \<Longrightarrow> bulk s1 v = bulk s v"
  shows "handed good x s fs T ws' g s'"
  using assms by (cases g) (auto simp: handed_def)

lemma handed_fail:
  assumes "handed good x s1 fs T ws (ow, rest, failed, k) s'" and "usb_trace s1 = usb_trace s @ [(w, rc)]" and "ba_result (bulk s1 w) = rc"
    and "w \<notin> set ws" and "\<And>v. v \<noteq> w \<Longrightarrow> bulk s1 v = bulk s v"
  shows "handed good x s fs T (w # ws) (ow, rest, (w, rc) # failed, k) s'"
  using assms by (auto simp: handed_def)

text \<open>The part of the state that the lists and the route depend on.\<close>

definition route_part :: "('k, 'b) usb_scheme \<Rightarrow> links \<times> addr list \<times> (addr \<Rightarrow> bool)" where
  "route_part s = (lks s, [free_slots s, waiting_list s, ws_head s, pending s, runner s], callback_enqueued s)"

text \<open>
  What the pool asks of the route: it leaves the pool's members alone, and the pool's lists as long as the posted awaiter is in none of
  them; its own invariant \<open>world\<close> is kept by the operations of the pool.
\<close>

locale usb_route =
  fixes pst :: "addr \<Rightarrow> ('k, 'b) usb_scheme \<Rightarrow> ('k, 'b) usb_scheme"
    and S A :: "addr set"
    and world :: "('k, 'b) usb_scheme \<Rightarrow> rings \<Rightarrow> bool"
  assumes pst_frame [simp]: "free_slots (pst w s) = free_slots s" "waiting_list (pst w s) = waiting_list s"
      "slot_status (pst w s) = slot_status s" "slot_owner (pst w s) = slot_owner s" "transfer_of (pst w s) = transfer_of s"
      "bulk (pst w s) = bulk s" "lib (pst w s) = lib s" "usb_trace (pst w s) = usb_trace s"
    and world_rep: "world s R \<Longrightarrow> rep (lks s) R"
    and world_heads: "world s R \<Longrightarrow> free_slots s \<noteq> waiting_list s \<and> free_slots s \<notin> S \<union> A \<and> waiting_list s \<notin> S \<union> A \<and> S \<inter> A = {}"
    and world_upd: "world s R \<Longrightarrow> route_part s' = route_part s \<Longrightarrow> world s' R"
    and world_del: "world s R \<Longrightarrow> n \<in> S \<union> A \<Longrightarrow> world (s\<lparr>lks := list_del n (lks s)\<rparr>) (r_detach n R)"
    and world_add: "world s R \<Longrightarrow> n \<in> S \<union> A \<Longrightarrow> R n = Some [] \<Longrightarrow> q \<in> {free_slots s, waiting_list s} \<Longrightarrow>
      world (s\<lparr>lks := list_add_tail n q (lks s)\<rparr>) (r_append n q R)"
    and world_empty: "world s R \<Longrightarrow> n \<in> A \<Longrightarrow> list_empty n (lks s) \<Longrightarrow> R n = Some []"
    and world_post: "world s R \<Longrightarrow> w \<in> A \<Longrightarrow> R (free_slots s) = Some fs \<Longrightarrow> R (waiting_list s) = Some ws \<Longrightarrow> set fs \<subseteq> S \<Longrightarrow> set ws \<subseteq> A - {w} \<Longrightarrow>
      \<exists>R'. world (pst w s) R' \<and> R' (free_slots s) = Some fs \<and> R' (waiting_list s) = Some ws \<and> (\<forall>x\<in>S. R x = Some [] \<longrightarrow> R' x = Some [])"
begin

lemma release_take:
  assumes W: "world s R" and P: "slot_pool S A s R fs (w # ws) T" and x: "x \<in> S - set fs - T"
  shows "\<exists>s' R'. pool_release_locked x s = (Some w, s') \<and> world s' R' \<and> slot_pool S A s' R' fs ws T \<and> w \<in> A \<and> w \<notin> set ws \<and>
    ba_slot (bulk s' w) = None \<and> lib s' = lib s \<and> usb_trace s' = usb_trace s \<and> reqs s' = reqs s \<and> gone s' = gone s \<and>
    slot_owner s' = slot_owner s \<and> (\<forall>v. v \<noteq> w \<longrightarrow> bulk s' v = bulk s v)"
proof -
  note P' = P [unfolded slot_pool_def]
  note rp = world_rep [OF W] and hs = world_heads [OF W]
  have n: "nxt (lks s) (waiting_list s) = w" "\<not> list_empty (waiting_list s) (lks s)"
    using rep_first [OF rp] rep_list_empty [OF rp] P' by auto
  have d: "distinct (waiting_list s # w # ws)" using rep_distinct [OF rp] P' by blast
  have wA: "w \<in> A" "ba_slot (bulk s w) = None" using P' by auto
  let ?s1 = "s\<lparr>lks := list_del w (lks s)\<rparr>" and ?R = "r_detach w R"
  let ?b = "(bulk s)(w := (bulk s w)\<lparr>ba_waiting := False\<rparr>)" and ?st = "(slot_status s)(x := Slot_reserved)"
  let ?s' = "s\<lparr>lks := list_del w (lks s), slot_status := ?st, bulk := ?b\<rparr>"
  have W1: "world ?s1 ?R" using world_del [OF W] wA by simp
  have i: "INIT_LIST_HEAD w (list_del w (lks s)) = list_del w (lks s)"
    using INIT_LIST_HEAD_empty [OF world_rep [OF W1] r_detach_self] by simp
  have "pool_release_locked x s = (Some w, ?s')" using n i by (simp add: pool_release_locked_def Let_def upd_bulk_def)
  moreover have "world ?s' ?R" by (rule world_upd [OF W1]) (simp add: route_part_def)
  moreover have "slot_pool S A ?s' ?R fs ws T"
  proof -
    have fs: "fs = []" using P' by auto
    have fw: "free_slots s \<noteq> w" "waiting_list s \<noteq> w" using hs wA by auto
    have "?R y = Some []" if "y \<in> S" for y using that P' fs hs wA by (cases "y = w") (auto simp: ring_simps)
    moreover have "?R (free_slots s) = Some []" "?R (waiting_list s) = Some ws" using fw P' fs by (auto simp: ring_simps)
    moreover have "linked A ?s' y" if "y \<in> T" for y
      by (rule linked_upd [OF pool_linked [OF P that]]) (use that x wA(2) in auto)
    ultimately show ?thesis using P' fs d x wA unfolding slot_pool_def by (intro conjI; simp)
  qed
  moreover have "reqs ?s' = reqs s" "gone ?s' = gone s" by (auto simp: reqs_def gone_def fill_transfer_def fun_eq_iff)
  ultimately show ?thesis using wA d by (intro exI [of _ ?s'] exI [of _ ?R]) auto
qed

lemma release_free:
  assumes W: "world s R" and P: "slot_pool S A s R fs [] T" and x: "x \<in> S - set fs - T" "slot_owner s x = None"
  shows "\<exists>s' R'. pool_release_locked x s = (None, s') \<and> world s' R' \<and> slot_pool S A s' R' (fs @ [x]) [] T \<and> lib s' = lib s \<and>
    usb_trace s' = usb_trace s \<and> bulk s' = bulk s"
proof -
  note P' = P [unfolded slot_pool_def]
  note rp = world_rep [OF W] and hs = world_heads [OF W]
  have e: "list_empty (waiting_list s) (lks s)" using rep_list_empty [OF rp] P' by auto
  have rx: "R x = Some []" using P' x by auto
  let ?R = "r_append x (free_slots s) R"
  let ?s' = "s\<lparr>lks := list_add_tail x (free_slots s) (lks s), slot_status := (slot_status s)(x := Slot_idle)\<rparr>"
  have "pool_release_locked x s = (None, ?s')" using e by (simp add: pool_release_locked_def Let_def)
  moreover have "world ?s' ?R" by (rule world_upd [OF world_add [OF W _ rx, of "free_slots s"]]) (use x in \<open>simp_all add: route_part_def\<close>)
  moreover have "slot_pool S A ?s' ?R (fs @ [x]) [] T"
  proof -
    have fx: "free_slots s \<noteq> x" "waiting_list s \<noteq> x" using hs x by auto
    have "?R y = Some []" if "y \<in> S - set (fs @ [x])" for y using that P' hs fx by (auto simp: r_append_def)
    moreover have "?R (free_slots s) = Some (fs @ [x])" "?R (waiting_list s) = Some []" using fx P' hs by (auto simp: r_append_def)
    moreover have "linked A ?s' y" if "y \<in> T" for y
      by (rule linked_upd [OF pool_linked [OF P that]]) (use that x in auto)
    ultimately show ?thesis using P' x unfolding slot_pool_def by (intro conjI; simp)
  qed
  ultimately show ?thesis by (intro exI [of _ ?s'] exI [of _ ?R]) auto
qed

lemma finish:
  assumes W: "world s R" and P: "slot_pool S A s R fs ws T" and w: "w \<in> A" "w \<notin> set ws"
  shows "\<exists>R'. world (post_completion pst w s) R' \<and> slot_pool S A (post_completion pst w s) R' fs ws T"
proof (cases "ba_cancelled (bulk s w)")
  case False
  let ?s = "s\<lparr>func := (func s)(w := Code Resume_cb), usb_trace := usb_trace s @ [(w, ba_result (bulk s w))]\<rparr>"
  note P' = P [unfolded slot_pool_def]
  have W1: "world ?s R" by (rule world_upd [OF W]) (simp add: route_part_def)
  from P' w world_post [OF W1 w(1), of fs ws] obtain R' where
    R: "world (pst w ?s) R'" "R' (free_slots s) = Some fs" "R' (waiting_list s) = Some ws" "\<forall>x\<in>S. R x = Some [] \<longrightarrow> R' x = Some []" by auto
  have "linked A (pst w ?s) y" if "y \<in> T" for y by (rule linked_upd [OF pool_linked [OF P that]]) simp_all
  then have "slot_pool S A (pst w ?s) R' fs ws T" using P' R unfolding slot_pool_def by (intro conjI; simp)
  then show ?thesis using R(1) False by (auto simp: post_completion_def)
qed (use W P in \<open>auto simp: post_completion_def\<close>)

lemma post_completion_frame:
  "lib (post_completion pst w s) = lib s" "slot_owner (post_completion pst w s) = slot_owner s"
  "bulk (post_completion pst w s) = bulk s" "reqs (post_completion pst w s) = reqs s" "gone (post_completion pst w s) = gone s"
  "usb_trace (post_completion pst w s) = usb_trace s @ (if gone s w then [] else [(w, ba_result (bulk s w))])"
  by (auto simp: post_completion_def reqs_def gone_def fun_eq_iff)

text \<open>The two ends of a submission.\<close>

lemma submit_fails:
  assumes W: "world s R" and P: "slot_pool S A s R fs ws T" and x: "x \<in> S - set fs - T" and w: "w \<in> A" "w \<notin> set ws"
    and b: "ba_slot (bulk s w) = None" and rc: "lib_submit x (reqs s w) (lib s) = (rc, k)" "rc < 0"
  shows "\<exists>s1 s2 R'. slot_submit lib_submit x w (upd_bulk w (ba_slot_update (\<lambda>_. Some x)) s) = (rc, s1) \<and>
    s2 = post_completion pst w (upd_bulk w (\<lambda>b. b\<lparr>ba_slot := None, ba_result := rc\<rparr>) s1) \<and> world s2 R' \<and> slot_pool S A s2 R' fs ws T \<and> lib s2 = k \<and>
    usb_trace s2 = usb_trace s @ (if gone s w then [] else [(w, rc)]) \<and> reqs s2 = reqs s \<and> gone s2 = gone s \<and> slot_owner s2 x = None \<and>
    ba_slot (bulk s2 w) = None \<and> ba_result (bulk s2 w) = rc \<and> (\<forall>v. v \<noteq> w \<longrightarrow> bulk s2 v = bulk s v)"
proof -
  note P' = P [unfolded slot_pool_def]
  let ?s1 = "snd (slot_submit lib_submit x w (upd_bulk w (ba_slot_update (\<lambda>_. Some x)) s))"
  let ?t = "s\<lparr>transfer_of := (transfer_of s)(x := reqs s w), slot_owner := (slot_owner s)(x := None), slot_status := (slot_status s)(x := Slot_idle),
              lib := k, bulk := (bulk s)(w := (bulk s w)\<lparr>ba_slot := None, ba_result := rc\<rparr>)\<rparr>"
  have f: "fill_transfer (bulk s w\<lparr>ba_slot := Some x\<rparr>) = reqs s w" by (simp add: reqs_def fill_transfer_def)
  have e: "slot_submit lib_submit x w (upd_bulk w (ba_slot_update (\<lambda>_. Some x)) s) = (rc, ?s1)"
    "upd_bulk w (\<lambda>b. b\<lparr>ba_slot := None, ba_result := rc\<rparr>) ?s1 = ?t"
    using rc f by (simp_all add: slot_submit_def upd_bulk_def Let_def)
  have "world ?t R" by (rule world_upd [OF W]) (simp add: route_part_def)
  moreover have "linked A ?t y" if "y \<in> T" for y
    by (rule linked_upd [OF pool_linked [OF P that]]) (use that x b in auto)
  then have "slot_pool S A ?t R fs ws T" using P' x w b unfolding slot_pool_def by (intro conjI; simp) blast
  ultimately obtain R' where "world (post_completion pst w ?t) R'" "slot_pool S A (post_completion pst w ?t) R' fs ws T"
    using finish [of ?t R fs ws T w] w by blast
  moreover have "reqs ?t = reqs s" "gone ?t = gone s" by (auto simp: reqs_def gone_def fill_transfer_def fun_eq_iff)
  ultimately show ?thesis
    using e by (intro exI [of _ ?s1] exI [of _ "post_completion pst w ?t"] exI [of _ R']) (simp add: post_completion_frame)
qed

lemma submit_works:
  assumes W: "world s R" and P: "slot_pool S A s R fs ws T" and x: "x \<in> S - set fs - T" and w: "w \<in> A" "w \<notin> set ws"
    and b: "ba_slot (bulk s w) = None" and rc: "lib_submit x (reqs s w) (lib s) = (rc, k)" "\<not> rc < 0"
  shows "\<exists>s1 s2. slot_submit lib_submit x w (upd_bulk w (ba_slot_update (\<lambda>_. Some x)) s) = (rc, s1) \<and>
    s2 = upd_bulk w (ba_submitted_update (\<lambda>_. True)) s1 \<and> world s2 R \<and> slot_pool S A s2 R fs ws (insert x T) \<and> lib s2 = k \<and>
    usb_trace s2 = usb_trace s \<and> slot_owner s2 x = Some w \<and> (\<forall>v. v \<noteq> w \<longrightarrow> bulk s2 v = bulk s v)"
proof -
  note P' = P [unfolded slot_pool_def]
  let ?s1 = "snd (slot_submit lib_submit x w (upd_bulk w (ba_slot_update (\<lambda>_. Some x)) s))"
  let ?t = "s\<lparr>transfer_of := (transfer_of s)(x := reqs s w), slot_owner := (slot_owner s)(x := Some w),
              slot_status := (slot_status s)(x := Slot_in_flight), lib := k,
              bulk := (bulk s)(w := (bulk s w)\<lparr>ba_slot := Some x, ba_submitted := True\<rparr>)\<rparr>"
  have f: "fill_transfer (bulk s w\<lparr>ba_slot := Some x\<rparr>) = reqs s w" by (simp add: reqs_def fill_transfer_def)
  have e: "slot_submit lib_submit x w (upd_bulk w (ba_slot_update (\<lambda>_. Some x)) s) = (rc, ?s1)"
    "upd_bulk w (ba_submitted_update (\<lambda>_. True)) ?s1 = ?t"
    using rc f by (simp_all add: slot_submit_def upd_bulk_def Let_def)
  have "world ?t R" by (rule world_upd [OF W]) (simp add: route_part_def)
  moreover have "linked A ?t y" if "y \<in> T" for y
    by (rule linked_upd [OF pool_linked [OF P that]]) (use that x b in auto)
  moreover have "linked A ?t x" using w(1) by (simp add: linked_def)
  ultimately have "world ?t R \<and> slot_pool S A ?t R fs ws (insert x T)"
    using P' x w b unfolding slot_pool_def by (intro conjI; simp) blast+
  then show ?thesis using e by (intro exI [of _ ?s1] exI [of _ ?t]) simp
qed

text \<open>The recursion of \<open>start_with_slot\<close> and \<open>release_slot\<close> returns and does what \<open>give\<close> says.\<close>

lemma start_step:
  assumes rel: "\<And>s R. world s R \<Longrightarrow> slot_pool S A s R fs ws T \<Longrightarrow> slot_owner s x = None \<Longrightarrow>
      \<exists>s'. release_slot lib_submit pst x s = Some s' \<and> handed (slot_pool_inv world S A) x s fs T ws (give lib_submit (gone s) (reqs s) x ws (lib s)) s'"
    and W: "world s R" and P: "slot_pool S A s R fs ws T" and x: "x \<in> S - set fs - T" "slot_owner s x = None"
    and w: "w \<in> A" "w \<notin> set ws" and b: "ba_slot (bulk s w) = None"
  shows "\<exists>s'. start_with_slot lib_submit pst x w s = Some s' \<and>
    handed (slot_pool_inv world S A) x s fs T (w # ws) (give lib_submit (gone s) (reqs s) x (w # ws) (lib s)) s'"
proof (cases "gone s w")
  case True
  then have "start_with_slot lib_submit pst x w s = release_slot lib_submit pst x s"
    by (subst start_with_slot.simps) (simp add: gone_def release_slot_def)
  moreover obtain s' where r: "release_slot lib_submit pst x s = Some s'"
    and h: "handed (slot_pool_inv world S A) x s fs T ws (give lib_submit (gone s) (reqs s) x ws (lib s)) s'" using rel [OF W P x(2)] by blast
  ultimately show ?thesis using True handed_from [OF h, of s "w # ws"] by auto
next
  case False
  obtain rc k where rc: "lib_submit x (reqs s w) (lib s) = (rc, k)" by fastforce
  show ?thesis
  proof (cases "rc < 0")
    case True
    from submit_fails [where lib_submit = lib_submit, OF W P x(1) w b rc True] obtain s1 s2 R2 where
      a: "slot_submit lib_submit x w (upd_bulk w (ba_slot_update (\<lambda>_. Some x)) s) = (rc, s1)"
      "s2 = post_completion pst w (upd_bulk w (\<lambda>b. b\<lparr>ba_slot := None, ba_result := rc\<rparr>) s1)"
      "world s2 R2" "slot_pool S A s2 R2 fs ws T" "lib s2 = k" "usb_trace s2 = usb_trace s @ (if gone s w then [] else [(w, rc)])"
      "reqs s2 = reqs s" "gone s2 = gone s" "slot_owner s2 x = None" "ba_result (bulk s2 w) = rc" "\<forall>v. v \<noteq> w \<longrightarrow> bulk s2 v = bulk s v"
      by blast
    have "start_with_slot lib_submit pst x w s = release_slot lib_submit pst x s2"
      using False True a(1,2) by (subst start_with_slot.simps) (simp add: gone_def release_slot_def Let_def)
    moreover obtain ow rest failed k' where g: "give lib_submit (gone s) (reqs s) x ws k = (ow, rest, failed, k')" by (rule prod_cases4)
    moreover from rel [OF a(3,4,9)] g a(5,7,8) obtain s' where
      "release_slot lib_submit pst x s2 = Some s'" "handed (slot_pool_inv world S A) x s2 fs T ws (ow, rest, failed, k') s'" by auto
    ultimately show ?thesis using a False True rc w(2) by (auto intro: handed_fail)
  next
    case ok: False
    from submit_works [where lib_submit = lib_submit, OF W P x(1) w b rc ok] obtain s1 s2 where
      a: "slot_submit lib_submit x w (upd_bulk w (ba_slot_update (\<lambda>_. Some x)) s) = (rc, s1)"
      "s2 = upd_bulk w (ba_submitted_update (\<lambda>_. True)) s1" "world s2 R" "slot_pool S A s2 R fs ws (insert x T)" "lib s2 = k"
      "usb_trace s2 = usb_trace s" "slot_owner s2 x = Some w" "\<forall>v. v \<noteq> w \<longrightarrow> bulk s2 v = bulk s v" by blast
    have "start_with_slot lib_submit pst x w s = Some s2"
      using False ok a(1,2) by (subst start_with_slot.simps) (simp add: gone_def)
    moreover have "slot_pool_inv world S A s2 fs ws (insert x T)" using a(3,4) by (auto simp: slot_pool_inv_def)
    ultimately show ?thesis using a False ok rc by (auto simp: handed_def)
  qed
qed

lemma release_gives:
  assumes "world s R" and "slot_pool S A s R fs ws T" and "x \<in> S - set fs - T" and "slot_owner s x = None"
  shows "\<exists>s'. release_slot lib_submit pst x s = Some s' \<and>
    handed (slot_pool_inv world S A) x s fs T ws (give lib_submit (gone s) (reqs s) x ws (lib s)) s'"
  using assms
proof (induction ws arbitrary: s R)
  case Nil
  from release_free [OF Nil.prems] show ?case by (auto simp: handed_def release_slot_def slot_pool_inv_def)
next
  case (Cons w ws)
  from release_take [OF Cons.prems(1-3)] obtain s1 R1 where
    r: "pool_release_locked x s = (Some w, s1)" "world s1 R1" "slot_pool S A s1 R1 fs ws T" "w \<in> A" "w \<notin> set ws" "ba_slot (bulk s1 w) = None"
    "lib s1 = lib s" "usb_trace s1 = usb_trace s" "reqs s1 = reqs s" "gone s1 = gone s" "slot_owner s1 = slot_owner s"
    "\<forall>v. v \<noteq> w \<longrightarrow> bulk s1 v = bulk s v" by blast
  have "\<exists>s'. start_with_slot lib_submit pst x w s1 = Some s' \<and>
      handed (slot_pool_inv world S A) x s1 fs T (w # ws) (give lib_submit (gone s1) (reqs s1) x (w # ws) (lib s1)) s'"
    using Cons.IH Cons.prems(3,4) r(2-6,11) by (intro start_step) auto
  then obtain s' where st: "start_with_slot lib_submit pst x w s1 = Some s'"
    and h: "handed (slot_pool_inv world S A) x s1 fs T (w # ws) (give lib_submit (gone s1) (reqs s1) x (w # ws) (lib s1)) s'" by blast
  show ?case using handed_from [OF h, of s "w # ws"] r st by (simp add: release_slot_def del: give.simps)
qed

lemma start_gives:
  assumes "world s R" and "slot_pool S A s R fs ws T" and "x \<in> S - set fs - T" and "slot_owner s x = None" and "w \<in> A" and "w \<notin> set ws"
    and "ba_slot (bulk s w) = None"
  shows "\<exists>s'. start_with_slot lib_submit pst x w s = Some s' \<and>
    handed (slot_pool_inv world S A) x s fs T (w # ws) (give lib_submit (gone s) (reqs s) x (w # ws) (lib s)) s'"
  using release_gives assms by (intro start_step) blast+

text \<open>The three operations of the pool.\<close>

lemma complete_slot:
  assumes W: "world s R" and P: "slot_pool S A s R fs ws T" and x: "x \<in> T" and ow: "slot_owner s x = Some w"
  shows "\<exists>s1 s'. slot_on_transfer_complete lib_submit pst x st n s = Some s' \<and>
    handed (slot_pool_inv world S A) x s1 fs (T - {x}) ws (give lib_submit (gone s) (reqs s) x ws (lib s)) s' \<and>
    usb_trace s1 = usb_trace s @ (if gone s w then [] else [(w, translate_status st n)]) \<and>
    ba_result (bulk s1 w) = translate_status st n \<and> w \<notin> set ws"
proof -
  note P' = P [unfolded slot_pool_def]
  let ?b = "\<lambda>b. b\<lparr>ba_submitted := False, ba_slot := None, ba_result := translate_status st n\<rparr>"
  let ?t = "upd_bulk w ?b (s\<lparr>slot_status := (slot_status s)(x := Slot_completed), slot_owner := (slot_owner s)(x := None)\<rparr>)"
  have l: "w \<in> A" "ba_slot (bulk s w) = Some x" using pool_linked [OF P x] ow by (auto simp: linked_def)
  then have w: "w \<notin> set ws" using P' by auto
  have "x \<notin> set fs" using pool_linked [OF P x] P' by (auto simp: linked_def)
  moreover have W1: "world ?t R" by (rule world_upd [OF W]) (simp add: route_part_def upd_bulk_def)
  moreover have "linked A ?t y" if "y \<in> T - {x}" for y
    by (rule linked_upd [OF pool_linked [OF P]]) (use that l in \<open>auto simp: upd_bulk_def\<close>)
  moreover have "ba_slot (bulk s v) = Some y \<Longrightarrow> v \<in> A \<Longrightarrow> v \<noteq> w \<Longrightarrow> y \<noteq> x" for v y
    using P' l by (metis option.inject)
  ultimately have P1: "slot_pool S A ?t R fs ws (T - {x})"
    using P' w l unfolding slot_pool_def upd_bulk_def by (intro conjI; simp) blast+
  obtain R1 where R1: "world (post_completion pst w ?t) R1" "slot_pool S A (post_completion pst w ?t) R1 fs ws (T - {x})"
    using finish [OF W1 P1 l(1) w] by blast
  have g: "reqs ?t = reqs s" "gone ?t = gone s" "lib ?t = lib s"
    by (auto simp: reqs_def gone_def fill_transfer_def upd_bulk_def fun_eq_iff)
  have "x \<in> S - set fs - (T - {x})" using x P' \<open>x \<notin> set fs\<close> by auto
  from release_gives [OF R1 this, of lib_submit] obtain s' where
    "release_slot lib_submit pst x (post_completion pst w ?t) = Some s'"
    "handed (slot_pool_inv world S A) x (post_completion pst w ?t) fs (T - {x}) ws (give lib_submit (gone s) (reqs s) x ws (lib s)) s'"
    using g by (auto simp: post_completion_frame upd_bulk_def)
  moreover have "slot_on_transfer_complete lib_submit pst x st n s = release_slot lib_submit pst x (post_completion pst w ?t)"
    by (simp add: slot_on_transfer_complete_def awaiter_on_transfer_complete_def ow)
  moreover have "usb_trace (post_completion pst w ?t) = usb_trace s @ (if gone s w then [] else [(w, translate_status st n)])"
    "ba_result (bulk (post_completion pst w ?t) w) = translate_status st n"
    using g by (simp_all add: post_completion_frame, simp_all add: upd_bulk_def)
  ultimately show ?thesis using w by (intro exI [of _ "post_completion pst w ?t"] exI [of _ s']) simp
qed

lemma suspend_slot:
  assumes W: "world s R" and P: "slot_pool S A s R (x # fs) ws T" and T: "x \<notin> T" and w: "w \<in> A" "ba_slot (bulk s w) = None"
  shows "\<exists>s'. bulk_await_suspend lib_submit pst w h s = Some s' \<and>
    handed (slot_pool_inv world S A) x s fs T [w] (give lib_submit (gone s) (reqs s) x [w] (lib s)) s'"
proof -
  note P' = P [unfolded slot_pool_def]
  note rp = world_rep [OF W] and hs = world_heads [OF W]
  have n: "nxt (lks s) (free_slots s) = x" "\<not> list_empty (free_slots s) (lks s)"
    using rep_first [OF rp] rep_list_empty [OF rp] P' by auto
  have d: "distinct (free_slots s # x # fs)" using rep_distinct [OF rp] P' by blast
  have ws: "ws = []" "x \<in> S" using P' by auto
  let ?R = "r_detach x R"
  let ?s1 = "s\<lparr>lks := list_del x (lks s), h_of := (h_of s)(w := Some h), slot_status := (slot_status s)(x := Slot_reserved)\<rparr>"
  have a: "acquire_or_enqueue w (s\<lparr>h_of := (h_of s)(w := Some h)\<rparr>) = (Some x, ?s1)" using n by (simp add: acquire_or_enqueue_def Let_def)
  have "world ?s1 ?R" by (rule world_upd [OF world_del [OF W]]) (use ws in \<open>auto simp: route_part_def\<close>)
  moreover have "slot_pool S A ?s1 ?R fs [] T"
  proof -
    have fx: "free_slots s \<noteq> x" "waiting_list s \<noteq> x" using hs ws by auto
    have "?R y = Some []" if "y \<in> S - set fs" for y using that P' by (cases "y = x") (auto simp: ring_simps)
    moreover have "?R (free_slots s) = Some fs" "?R (waiting_list s) = Some []" using fx P' ws by (auto simp: ring_simps)
    moreover have "linked A ?s1 y" if "y \<in> T" for y
      by (rule linked_upd [OF pool_linked [OF P that]]) (use that T in auto)
    moreover have "\<forall>y\<in>set fs. y \<noteq> x" using d by auto
    ultimately show ?thesis using P' ws unfolding slot_pool_def by (intro conjI; simp)
  qed
  moreover have "slot_owner ?s1 x = None" "x \<in> S - set fs - T" using P' T d by auto
  ultimately have "\<exists>s'. start_with_slot lib_submit pst x w ?s1 = Some s' \<and>
      handed (slot_pool_inv world S A) x ?s1 fs T [w] (give lib_submit (gone ?s1) (reqs ?s1) x [w] (lib ?s1)) s'"
    using w by (intro start_gives) auto
  then obtain s' where "start_with_slot lib_submit pst x w ?s1 = Some s'"
    "handed (slot_pool_inv world S A) x ?s1 fs T [w] (give lib_submit (gone ?s1) (reqs ?s1) x [w] (lib ?s1)) s'" by blast
  moreover have "gone ?s1 = gone s" "reqs ?s1 = reqs s" by (auto simp: gone_def reqs_def)
  ultimately show ?thesis using a handed_from [of "slot_pool_inv world S A" x ?s1 fs T "[w]" _ s' s "[w]"]
    by (simp add: bulk_await_suspend_def del: give.simps)
qed

lemma suspend_waits:
  assumes W: "world s R" and P: "slot_pool S A s R [] ws T" and w: "w \<in> A" "w \<notin> set ws" "ba_slot (bulk s w) = None" "list_empty w (lks s)"
  shows "\<exists>s' R'. bulk_await_suspend lib_submit pst w h s = Some s' \<and> world s' R' \<and> slot_pool S A s' R' [] (ws @ [w]) T \<and>
    lib s' = lib s \<and> usb_trace s' = usb_trace s"
proof -
  note P' = P [unfolded slot_pool_def]
  note rp = world_rep [OF W] and hs = world_heads [OF W]
  have e: "list_empty (free_slots s) (lks s)" using rep_list_empty [OF rp] P' by auto
  have rw: "R w = Some []" using world_empty [OF W w(1,4)] .
  let ?R = "r_append w (waiting_list s) R"
  let ?s' = "s\<lparr>lks := list_add_tail w (waiting_list s) (lks s), h_of := (h_of s)(w := Some h),
               bulk := (bulk s)(w := (bulk s w)\<lparr>ba_waiting := True\<rparr>)\<rparr>"
  have "bulk_await_suspend lib_submit pst w h s = Some ?s'"
    using e by (simp add: bulk_await_suspend_def acquire_or_enqueue_def upd_bulk_def)
  moreover have "world ?s' ?R" by (rule world_upd [OF world_add [OF W _ rw, of "waiting_list s"]]) (use w in \<open>simp_all add: route_part_def\<close>)
  moreover have "slot_pool S A ?s' ?R [] (ws @ [w]) T"
  proof -
    have fw: "free_slots s \<noteq> w" "waiting_list s \<noteq> w" "w \<notin> S" "waiting_list s \<notin> S" using hs w by auto
    have "?R y = Some []" if "y \<in> S" for y using that P' hs fw by (auto simp: r_append_def)
    moreover have "?R (free_slots s) = Some []" "?R (waiting_list s) = Some (ws @ [w])" using fw P' hs by (auto simp: r_append_def)
    moreover have "linked A ?s' y" if "y \<in> T" for y
      by (rule linked_upd [OF pool_linked [OF P that]]) (use that w(3) in auto)
    ultimately show ?thesis using P' w unfolding slot_pool_def by (intro conjI; simp)
  qed
  ultimately show ?thesis by (intro exI [of _ ?s'] exI [of _ ?R]) auto
qed

lemma destroy_waiting:
  assumes W: "world s R" and P: "slot_pool S A s R fs ws T" and w: "w \<in> set ws"
  shows "\<exists>R'. world (bulk_awaiter_dtor lib_cancel w s) R' \<and> slot_pool S A (bulk_awaiter_dtor lib_cancel w s) R' fs (remove1 w ws) T"
proof -
  note P' = P [unfolded slot_pool_def]
  note rp = world_rep [OF W] and hs = world_heads [OF W]
  have wA: "w \<in> A" "ba_slot (bulk s w) = None" "ba_waiting (bulk s w)" using P' w by auto
  have d: "distinct (waiting_list s # ws)" using rep_distinct [OF rp] P' by blast
  have ne: "nxt (lks s) w \<noteq> w"
    using rep_list_empty_member [OF rp, of "waiting_list s" ws w] P' w by (auto simp: list_empty_def)
  let ?R = "r_detach w R"
  let ?s' = "s\<lparr>lks := list_del w (lks s), h_of := (h_of s)(w := None),
               bulk := (bulk s)(w := (bulk s w)\<lparr>ba_cancelled := True, ba_waiting := False\<rparr>)\<rparr>"
  have W1: "world (s\<lparr>lks := list_del w (lks s)\<rparr>) ?R" using world_del [OF W] wA by simp
  have i: "INIT_LIST_HEAD w (list_del w (lks s)) = list_del w (lks s)"
    using INIT_LIST_HEAD_empty [OF world_rep [OF W1] r_detach_self] by simp
  have e: "bulk_awaiter_dtor lib_cancel w s = ?s'"
    using wA ne i by (simp add: bulk_awaiter_dtor_def remove_waiter_def upd_bulk_def Let_def)
  have "world ?s' ?R" by (rule world_upd [OF W1]) (simp add: route_part_def)
  moreover have "slot_pool S A ?s' ?R fs (remove1 w ws) T"
  proof -
    have fw: "free_slots s \<noteq> w" "waiting_list s \<noteq> w" "fs = []" using hs wA P' w by auto
    have "?R y = Some []" if "y \<in> S" for y using that P' fw hs wA by (cases "y = w") (auto simp: ring_simps)
    moreover have "?R (free_slots s) = Some []" "?R (waiting_list s) = Some (remove1 w ws)" using fw P' by (auto simp: ring_simps)
    moreover have "linked A ?s' y" if "y \<in> T" for y
      by (rule linked_upd [OF pool_linked [OF P that]]) (use that wA(2) in auto)
    moreover have "set (remove1 w ws) = set ws - {w}" using d by simp
    ultimately show ?thesis using P' wA fw unfolding slot_pool_def by (intro conjI; simp) blast
  qed
  ultimately show ?thesis using e by auto
qed

lemma add_slots_pool:
  assumes "world s R" and "slot_pool S A s R fs [] {}" and "distinct xs" and "set xs \<subseteq> S - set fs"
  shows "\<exists>R'. world (add_slots xs s) R' \<and> slot_pool S A (add_slots xs s) R' (fs @ xs) [] {}"
  using assms
proof (induction xs arbitrary: s R fs)
  case (Cons x xs)
  note P' = Cons.prems(2) [unfolded slot_pool_def] and hs = world_heads [OF Cons.prems(1)]
  have x: "x \<in> S" "x \<notin> set fs" "R x = Some []" "free_slots s \<noteq> x" "waiting_list s \<noteq> x" using Cons.prems(4) P' hs by auto
  let ?R = "r_append x (free_slots s) R"
  let ?s = "s\<lparr>slot_status := (slot_status s)(x := Slot_idle), slot_owner := (slot_owner s)(x := None), lks := list_add_tail x (free_slots s) (lks s)\<rparr>"
  have i: "INIT_LIST_HEAD x (lks s) = lks s" using INIT_LIST_HEAD_empty [OF world_rep [OF Cons.prems(1)] x(3)] .
  have W: "world ?s ?R"
    by (rule world_upd [OF world_add [OF Cons.prems(1) _ x(3), of "free_slots s"]]) (use x in \<open>simp_all add: route_part_def\<close>)
  have "?R y = Some []" if "y \<in> S - set (fs @ [x])" for y using that P' hs x by (auto simp: r_append_def)
  moreover have "?R (free_slots s) = Some (fs @ [x])" "?R (waiting_list s) = Some []" using x P' hs by (auto simp: r_append_def)
  ultimately have "slot_pool S A ?s ?R (fs @ [x]) [] {}" using P' x unfolding slot_pool_def by (intro conjI; simp)
  from Cons.IH [OF W this] Cons.prems(3,4) show ?case using i by auto
qed auto

end

section \<open>The callback queue as the route\<close>

text \<open>
  The lists of the pool beside the executor's queue and the queue of callbacks; \<open>entry w\<close> is the address of the entry that is made for \<open>w\<close>.
\<close>

definition usb_world :: "(addr \<Rightarrow> addr) \<Rightarrow> addr set \<Rightarrow> addr set \<Rightarrow> ('k, 'b) usb_scheme \<Rightarrow> rings \<Rightarrow> bool" where
  "usb_world entry S A s R \<longleftrightarrow>
     store_ok (lks s) {free_slots s, waiting_list s, ws_head s, pending s} R \<and>
     distinct [free_slots s, waiting_list s, ws_head s, pending s, runner s] \<and>
     (S \<union> A) \<inter> {free_slots s, waiting_list s, ws_head s, pending s, runner s} = {} \<and> S \<inter> A = {} \<and>
     range entry \<inter> (S \<union> A \<union> {free_slots s, waiting_list s, ws_head s, pending s, runner s}) = {} \<and> inj entry \<and>
     (\<forall>w. \<not> callback_enqueued s w \<longrightarrow> R (entry w) = Some [])"

lemma entry_off:
  assumes "usb_world entry S A s R"
  shows "entry w \<notin> {free_slots s, waiting_list s, ws_head s, pending s, runner s}" "entry w \<notin> S" "entry w \<notin> A"
proof -
  have "entry w \<in> range entry" by simp
  then have "entry w \<notin> S \<union> A \<union> {free_slots s, waiting_list s, ws_head s, pending s, runner s}"
    using assms unfolding usb_world_def by (metis disjoint_iff)
  then show "entry w \<notin> {free_slots s, waiting_list s, ws_head s, pending s, runner s}" "entry w \<notin> S" "entry w \<notin> A" by auto
qed

text \<open>Nodes that are none of the entries come and go without touching them.\<close>

lemma usb_world_del:
  assumes W: "usb_world entry S A s R" and n: "n \<notin> range entry" "n \<notin> {free_slots s, waiting_list s, ws_head s, pending s}"
  shows "usb_world entry S A (s\<lparr>lks := list_del n (lks s)\<rparr>) (r_detach n R)"
proof -
  have "r_detach n R (entry w) = Some []" if "\<not> callback_enqueued s w" for w
  proof -
    have "entry w \<noteq> n" using n by auto
    moreover have "R (entry w) = Some []" using W that by (simp add: usb_world_def)
    ultimately show ?thesis by (simp add: ring_simps)
  qed
  then show ?thesis using W store_ok_del [of "lks s" _ R n] n(2) unfolding usb_world_def by simp
qed

lemma usb_world_add:
  assumes W: "usb_world entry S A s R" and n: "n \<notin> range entry" "n \<notin> {free_slots s, waiting_list s, ws_head s, pending s}" "R n = Some []"
    and q: "q \<in> {free_slots s, waiting_list s, ws_head s, pending s}"
  shows "usb_world entry S A (s\<lparr>lks := list_add_tail n q (lks s)\<rparr>) (r_append n q R)"
proof -
  have "r_append n q R (entry w) = Some []" if "\<not> callback_enqueued s w" for w
  proof -
    have "entry w \<noteq> n" "entry w \<noteq> q" using n entry_off [OF W, of w] q by auto
    moreover have "R (entry w) = Some []" using W that by (simp add: usb_world_def)
    ultimately show ?thesis by (simp add: ring_simps)
  qed
  then show ?thesis using W store_ok_add_tail [of "lks s" _ R n q] n(2,3) q unfolding usb_world_def by simp
qed

lemma usb_world_upd: "usb_world entry S A s R \<Longrightarrow> route_part s' = route_part s \<Longrightarrow> usb_world entry S A s' R"
  by (simp add: usb_world_def route_part_def)

text \<open>Posting a node that is not an entry.\<close>

lemma usb_world_wq_post:
  assumes W: "usb_world entry S A s R" and n: "n \<notin> range entry" "n \<notin> {free_slots s, waiting_list s, ws_head s, pending s}"
  shows "\<exists>R'. usb_world entry S A (wq_post n s) R' \<and> (\<forall>h. h \<notin> {n, ws_head s} \<longrightarrow> R' h = map_option (remove1 n) (R h))"
proof -
  let ?R = "r_append n (ws_head s) (r_detach n R)"
  note D = usb_world_del [OF W n]
  have "usb_world entry S A (s\<lparr>lks := list_add_tail n (ws_head s) (list_del n (lks s))\<rparr>) ?R"
    using usb_world_add [OF D n(1) _ r_detach_self, of "ws_head s"] n(2) by simp
  then have "usb_world entry S A (wq_post n s) ?R"
    by (rule usb_world_upd) (simp add: route_part_def wq_post_def enqueue_def trig_once_def emit_def)
  moreover have "?R h = map_option (remove1 n) (R h)" if "h \<notin> {n, ws_head s}" for h using that by (simp add: ring_simps)
  ultimately show ?thesis by blast
qed

text \<open>Linking an entry, and posting through the callback queue.\<close>

lemma usb_world_link:
  assumes W: "usb_world entry S A s R" and e: "\<not> callback_enqueued s w"
  shows "usb_world entry S A (s\<lparr>callback_enqueued := (callback_enqueued s)(w := True), entry_waiter := ew,
     lks := list_add_tail (entry w) (pending s) (lks s)\<rparr>) (r_append (entry w) (pending s) R)"
proof -
  note off = entry_off [OF W]
  have r: "R (entry w) = Some []" using W e by (simp add: usb_world_def)
  have "r_append (entry w) (pending s) R (entry v) = Some []" if "\<not> callback_enqueued s v" "v \<noteq> w" for v
  proof -
    have "entry v \<noteq> entry w" using that(2) W by (auto simp: usb_world_def inj_eq)
    moreover have "R (entry v) = Some []" using W that by (simp add: usb_world_def)
    ultimately show ?thesis using off [of v] by (simp add: ring_simps)
  qed
  then show ?thesis using W store_ok_add_tail [of "lks s" _ R "entry w" "pending s"] off(1) [of w] r unfolding usb_world_def by simp
qed

lemma usb_world_state_post:
  assumes W: "usb_world entry S A s R"
  shows "\<exists>R'. usb_world entry S A (snd (state_post (entry w) w s)) R' \<and>
    (\<forall>h. h \<notin> {entry w, runner s, ws_head s, pending s} \<longrightarrow> R' h = R h \<or> R' h = map_option (remove1 (runner s)) (R h))"
proof -
  have note_world: "usb_world entry S A (cb_note e t) Q = usb_world entry S A t Q" for e Q and t :: "('k, 'b) usb_scheme"
    by (simp add: usb_world_def cb_note_def)
  define t where "t = (if func s w = Null then cb_note (Warn_null w) s else s)"
  have Wt: "usb_world entry S A t R" "callback_enqueued t = callback_enqueued s" "runner t = runner s" "ws_head t = ws_head s" "pending t = pending s"
    using W by (simp_all add: t_def note_world, simp_all add: cb_note_def)
  let ?u = "t\<lparr>callback_enqueued := (callback_enqueued s)(w := True), entry_waiter := (entry_waiter t)(entry w := Some w),
              lks := list_add_tail (entry w) (pending t) (lks t)\<rparr>"
  have eq: "snd (state_post (entry w) w s) =
      (if \<not> plausible s w then cb_note (Skip_unusable w) s
       else if debug_magic s w \<noteq> debug_magic_value then cb_note (Skip_magic w) s
       else if callback_enqueued s w then t\<lparr>callback_enqueued := (callback_enqueued s)(w := True)\<rparr>
       else if running ?u then ?u else wq_post (runner ?u) (?u\<lparr>running := True, guard := True\<rparr>))"
    by (simp add: state_post_def link_entry_def exchange_enqueued_def capture_waiter_def Let_def t_def cb_note_def)
  consider (skip) e where "snd (state_post (entry w) w s) = cb_note e s"
    | (already) "snd (state_post (entry w) w s) = t\<lparr>callback_enqueued := (callback_enqueued s)(w := True)\<rparr>" "callback_enqueued s w"
    | (linked) u where "u = ?u" "\<not> callback_enqueued s w"
        "snd (state_post (entry w) w s) = (if running u then u else wq_post (runner u) (u\<lparr>running := True, guard := True\<rparr>))"
    by (metis eq)
  then show ?thesis
  proof cases
    case skip
    then show ?thesis using W by (auto simp: note_world)
  next
    case already
    then have "(callback_enqueued s)(w := True) = callback_enqueued s" by (simp add: fun_upd_idem)
    then have "usb_world entry S A (t\<lparr>callback_enqueued := (callback_enqueued s)(w := True)\<rparr>) R"
      using Wt by (simp add: usb_world_def)
    then show ?thesis using already(1) by auto
  next
    case linked
    let ?Q = "r_append (entry w) (pending s) R"
    have Wu: "usb_world entry S A u ?Q" using usb_world_link [OF Wt(1), of w] linked(1,2) Wt(2,5) by simp
    have q: "?Q h = R h" if "h \<notin> {entry w, pending s}" for h using that by (simp add: ring_simps)
    show ?thesis
    proof (cases "running u")
      case True
      then show ?thesis using Wu q linked(3) by auto
    next
      case False
      let ?v = "u\<lparr>running := True, guard := True\<rparr>"
      have f: "runner ?v = runner s" "ws_head ?v = ws_head s" using linked(1) Wt by simp_all
      have Wv: "usb_world entry S A ?v ?Q" using Wu by (simp add: usb_world_def)
      then have off: "runner ?v \<notin> range entry" "runner ?v \<notin> {free_slots ?v, waiting_list ?v, ws_head ?v, pending ?v}"
        unfolding usb_world_def by auto
      from usb_world_wq_post [OF Wv off] obtain R' where "usb_world entry S A (wq_post (runner s) ?v) R'"
        "\<forall>h. h \<notin> {runner s, ws_head s} \<longrightarrow> R' h = map_option (remove1 (runner s)) (?Q h)" unfolding f by blast
      then show ?thesis using False linked(3) f q by auto
    qed
  qed
qed

lemma usb_post_frame:
  "free_slots (post_via_route r e w s) = free_slots s" "waiting_list (post_via_route r e w s) = waiting_list s"
  "slot_status (post_via_route r e w s) = slot_status s" "slot_owner (post_via_route r e w s) = slot_owner s"
  "transfer_of (post_via_route r e w s) = transfer_of s" "bulk (post_via_route r e w s) = bulk s" "lib (post_via_route r e w s) = lib s"
  "usb_trace (post_via_route r e w s) = usb_trace s"
  for s :: "('k, 'b) usb_scheme"
  by (auto simp: post_via_route_def state_post_def link_entry_def exchange_enqueued_def wq_post_def enqueue_def trig_once_def emit_def
      cb_note_def Let_def split: option.splits)

lemma usb_world_post:
  assumes W: "usb_world entry S A s R" and w: "w \<in> A" and fs: "R (free_slots s) = Some fs" "set fs \<subseteq> S"
    and ws: "R (waiting_list s) = Some ws" "set ws \<subseteq> A - {w}"
  shows "\<exists>R'. usb_world entry S A (post_via_route r (entry w) w s) R' \<and> R' (free_slots s) = Some fs \<and> R' (waiting_list s) = Some ws \<and>
    (\<forall>x\<in>S. R x = Some [] \<longrightarrow> R' x = Some [])"
proof (cases r)
  case True
  have r: "runner s \<notin> set fs" "runner s \<notin> set ws" using W fs ws by (auto simp: usb_world_def)
  have h: "h \<notin> {entry w, runner s, ws_head s, pending s}" if "h \<in> {free_slots s, waiting_list s} \<union> S" for h
  proof -
    have "h \<noteq> entry w" using entry_off [OF W, of w] that by auto
    moreover have "h \<notin> {runner s, ws_head s, pending s}" using W that unfolding usb_world_def by auto
    ultimately show ?thesis by auto
  qed
  from usb_world_state_post [OF W] obtain R' where R': "usb_world entry S A (snd (state_post (entry w) w s)) R'"
    "\<And>h. h \<in> {free_slots s, waiting_list s} \<union> S \<Longrightarrow> R' h = R h \<or> R' h = map_option (remove1 (runner s)) (R h)" using h by blast
  have "R' (free_slots s) = Some fs" "R' (waiting_list s) = Some ws"
    using R'(2) [of "free_slots s"] R'(2) [of "waiting_list s"] fs ws r by (auto simp: remove1_idem)
  moreover have "R' x = Some []" if "x \<in> S" "R x = Some []" for x using R'(2) [of x] that by auto
  ultimately show ?thesis using R'(1) True by (auto simp: post_via_route_def)
next
  case False
  have n: "w \<notin> range entry" "w \<notin> {free_slots s, waiting_list s, ws_head s, pending s}" "w \<notin> set fs" "w \<notin> set ws"
    using W w fs ws unfolding usb_world_def by auto
  from usb_world_wq_post [OF W n(1,2)] obtain R' where R': "usb_world entry S A (wq_post w s) R'"
    "\<And>h. h \<notin> {w, ws_head s} \<Longrightarrow> R' h = map_option (remove1 w) (R h)" by blast
  have h: "h \<notin> {w, ws_head s}" if "h \<in> {free_slots s, waiting_list s} \<union> S" for h
    using W w that unfolding usb_world_def by auto
  have "R' (free_slots s) = Some fs" "R' (waiting_list s) = Some ws"
    using R'(2) [of "free_slots s"] R'(2) [of "waiting_list s"] h fs ws n by (auto simp: remove1_idem)
  moreover have "R' x = Some []" if "x \<in> S" "R x = Some []" for x using R'(2) [of x] h that by auto
  ultimately show ?thesis using R'(1) False by (auto simp: post_via_route_def)
qed

interpretation usb_cbq: usb_route "\<lambda>w (s :: ('k, 'b) usb_scheme). post_via_route (route w) (entry w) w s" S A "usb_world entry S A"
  for route entry S A
proof unfold_locales
  fix s :: "('k, 'b) usb_scheme" and R n q
  assume W: "usb_world entry S A s R" and n: "n \<in> S \<union> A"
  have o: "n \<notin> range entry" "n \<notin> {free_slots s, waiting_list s, ws_head s, pending s}" using W n unfolding usb_world_def by auto
  show "usb_world entry S A (s\<lparr>lks := list_del n (lks s)\<rparr>) (r_detach n R)" by (rule usb_world_del [OF W o])
  show "usb_world entry S A (s\<lparr>lks := list_add_tail n q (lks s)\<rparr>) (r_append n q R)"
    if "R n = Some []" "q \<in> {free_slots s, waiting_list s}" using usb_world_add [OF W o that(1), of q] that(2) by auto
next
  show "R n = Some []" if "usb_world entry S A s R" "n \<in> A" "list_empty n (lks s)" for s :: "('k, 'b) usb_scheme" and R n
    using that store_ok_detached [of "lks s" _ R n] unfolding usb_world_def by blast
next
  show "rep (lks s) R" if "usb_world entry S A s R" for s :: "('k, 'b) usb_scheme" and R
    using that unfolding usb_world_def by (blast intro: store_ok_rep)
  show "free_slots s \<noteq> waiting_list s \<and> free_slots s \<notin> S \<union> A \<and> waiting_list s \<notin> S \<union> A \<and> S \<inter> A = {}"
    if "usb_world entry S A s R" for s :: "('k, 'b) usb_scheme" and R
    using that unfolding usb_world_def by auto
  show "usb_world entry S A s' R" if "usb_world entry S A s R" "route_part s' = route_part s" for s s' :: "('k, 'b) usb_scheme" and R
    using that by (rule usb_world_upd)
  show "\<exists>R'. usb_world entry S A (post_via_route (route w) (entry w) w s) R' \<and> R' (free_slots s) = Some fs \<and> R' (waiting_list s) = Some ws \<and>
      (\<forall>x\<in>S. R x = Some [] \<longrightarrow> R' x = Some [])"
    if "usb_world entry S A s R" "w \<in> A" "R (free_slots s) = Some fs" "R (waiting_list s) = Some ws" "set fs \<subseteq> S" "set ws \<subseteq> A - {w}"
    for s :: "('k, 'b) usb_scheme" and R w fs ws
    using usb_world_post [OF that(1,2,3,5,4,6)] .
qed (simp_all only: usb_post_frame)

section \<open>Schedules of a pool\<close>

text \<open>
  Steps of the rest of the program (the executor, the callback queue, other awaiters): they leave the members of the pool and its lists
  alone.
\<close>

definition other_work :: "(addr \<Rightarrow> addr) \<Rightarrow> addr set \<Rightarrow> addr set \<Rightarrow> ('k, 'b) usb_scheme \<Rightarrow> ('k, 'b) usb_scheme \<Rightarrow> bool" where
  "other_work entry S A s s' \<longleftrightarrow>
     free_slots s' = free_slots s \<and> waiting_list s' = waiting_list s \<and> slot_status s' = slot_status s \<and> slot_owner s' = slot_owner s \<and> bulk s' = bulk s \<and>
     (\<forall>R. usb_world entry S A s R \<longrightarrow>
        (\<exists>R'. usb_world entry S A s' R' \<and> (\<forall>h\<in>insert (free_slots s) (insert (waiting_list s) S). R' h = R h)))"

text \<open>
  An awaiter is made at the address of a detached node without a slot, suspends once, and is not destroyed while its transfer is in flight.
\<close>

inductive usb_reachable ::
  "(addr \<Rightarrow> xfer \<Rightarrow> 'k \<Rightarrow> int \<times> 'k) \<Rightarrow> (addr \<Rightarrow> 'k \<Rightarrow> 'k) \<Rightarrow> (addr \<Rightarrow> bool) \<Rightarrow> (addr \<Rightarrow> addr) \<Rightarrow> addr set \<Rightarrow> addr set \<Rightarrow>
   ('k, 'b) usb_scheme \<Rightarrow> bool" for lib_submit lib_cancel route entry S A where
  usb_start: "usb_world entry S A s (\<lambda>_. Some []) \<Longrightarrow> distinct slots \<Longrightarrow> set slots = S \<Longrightarrow>
    (\<forall>w\<in>A. ba_slot (bulk s w) = None \<and> \<not> ba_waiting (bulk s w)) \<Longrightarrow>
    usb_reachable lib_submit lib_cancel route entry S A (transfer_pool_init slots s)"
| usb_construct: "usb_reachable lib_submit lib_cancel route entry S A s \<Longrightarrow> w \<in> A \<Longrightarrow> list_empty w (lks s) \<Longrightarrow> ba_slot (bulk s w) = None \<Longrightarrow>
    usb_reachable lib_submit lib_cancel route entry S A (bulk_awaiter_init w ep buf len tmo zero s)"
| usb_suspend: "usb_reachable lib_submit lib_cancel route entry S A s \<Longrightarrow> w \<in> A \<Longrightarrow> list_empty w (lks s) \<Longrightarrow> ba_slot (bulk s w) = None \<Longrightarrow>
    bulk_await_suspend lib_submit (\<lambda>w. post_via_route (route w) (entry w) w) w h s = Some s' \<Longrightarrow>
    usb_reachable lib_submit lib_cancel route entry S A s'"
| usb_complete: "usb_reachable lib_submit lib_cancel route entry S A s \<Longrightarrow> x \<in> S \<Longrightarrow> slot_status s x = Slot_in_flight \<Longrightarrow>
    slot_on_transfer_complete lib_submit (\<lambda>w. post_via_route (route w) (entry w) w) x st n s = Some s' \<Longrightarrow>
    usb_reachable lib_submit lib_cancel route entry S A s'"
| usb_destroy: "usb_reachable lib_submit lib_cancel route entry S A s \<Longrightarrow> w \<in> A \<Longrightarrow> ba_slot (bulk s w) = None \<Longrightarrow>
    usb_reachable lib_submit lib_cancel route entry S A (bulk_awaiter_dtor lib_cancel w s)"
| usb_other: "usb_reachable lib_submit lib_cancel route entry S A s \<Longrightarrow> other_work entry S A s s' \<Longrightarrow>
    usb_reachable lib_submit lib_cancel route entry S A s'"

definition usb_ok :: "(addr \<Rightarrow> addr) \<Rightarrow> addr set \<Rightarrow> addr set \<Rightarrow> ('k, 'b) usb_scheme \<Rightarrow> bool" where
  "usb_ok entry S A s \<longleftrightarrow> (\<exists>fs ws T. slot_pool_inv (usb_world entry S A) S A s fs ws T \<and> set fs \<union> T = S)"

lemma pool_disjoint: "slot_pool S A s R fs ws T \<Longrightarrow> set fs \<inter> T = {}"
  unfolding slot_pool_def linked_def by (metis disjoint_iff slot_state.distinct(3))

lemma usb_ok_handed:
  assumes "handed (slot_pool_inv (usb_world entry S A) S A) x s fs T ws g s'" and "insert x (set fs \<union> T) = S"
  shows "usb_ok entry S A s'"
  using assms unfolding handed_def usb_ok_def by (cases g) (fastforce split: if_splits)

lemma usb_ok_start:
  assumes W: "usb_world entry S A s (\<lambda>_. Some [])" and sl: "distinct slots" "set slots = S"
    and b: "\<forall>w\<in>A. ba_slot (bulk s w) = None \<and> \<not> ba_waiting (bulk s w)"
  shows "usb_ok entry S A (transfer_pool_init slots s)"
proof -
  have rp: "rep (lks s) (\<lambda>_. Some [])" by (rule usb_cbq.world_rep [OF W])
  then have i: "INIT_LIST_HEAD h (lks s) = lks s" for h by (rule INIT_LIST_HEAD_empty) simp
  have "slot_pool S A s (\<lambda>_. Some []) [] [] {}" using b by (simp add: slot_pool_def)
  from usb_cbq.add_slots_pool [OF W this sl(1)] sl(2) show ?thesis
    by (auto simp: usb_ok_def slot_pool_inv_def transfer_pool_init_def i)
qed

lemma usb_ok_construct:
  assumes "usb_ok entry S A s" and w: "w \<in> A" "list_empty w (lks s)" "ba_slot (bulk s w) = None"
  shows "usb_ok entry S A (bulk_awaiter_init w ep buf len tmo zero s)"
proof -
  obtain R fs ws T where W: "usb_world entry S A s R" and P: "slot_pool S A s R fs ws T" and T: "set fs \<union> T = S"
    using assms(1) by (auto simp: usb_ok_def slot_pool_inv_def)
  let ?s = "bulk_awaiter_init w ep buf len tmo zero s"
  note P' = P [unfolded slot_pool_def]
  have "R w = Some []" by (rule usb_cbq.world_empty [OF W w(1,2)])
  then have i: "INIT_LIST_HEAD w (lks s) = lks s" using INIT_LIST_HEAD_empty [OF usb_cbq.world_rep [OF W]] by simp
  have "w \<notin> set ws" using rep_list_empty_member [OF usb_cbq.world_rep [OF W] _ w(2)] P' by blast
  moreover have "linked A ?s y" if "y \<in> T" for y
    by (rule linked_upd [OF pool_linked [OF P that]]) (use w(3) in \<open>auto simp: bulk_awaiter_init_def\<close>)
  ultimately have "slot_pool S A ?s R fs ws T"
    using P' unfolding slot_pool_def bulk_awaiter_init_def by (intro conjI; simp)
  moreover have "usb_world entry S A ?s R" by (rule usb_world_upd [OF W]) (simp add: route_part_def bulk_awaiter_init_def i)
  ultimately show ?thesis using T by (auto simp: usb_ok_def slot_pool_inv_def)
qed

lemma usb_ok_suspend:
  assumes "usb_ok entry S A s" and w: "w \<in> A" "list_empty w (lks s)" "ba_slot (bulk s w) = None"
  shows "\<exists>s'. bulk_await_suspend lib_submit (\<lambda>w. post_via_route (route w) (entry w) w) w h s = Some s' \<and> usb_ok entry S A s'"
proof -
  obtain R fs ws T where W: "usb_world entry S A s R" and P: "slot_pool S A s R fs ws T" and T: "set fs \<union> T = S"
    using assms(1) by (auto simp: usb_ok_def slot_pool_inv_def)
  show ?thesis
  proof (cases fs)
    case Nil
    have "w \<notin> set ws" using rep_list_empty_member [OF usb_cbq.world_rep [OF W] _ w(2)] P unfolding slot_pool_def by blast
    then show ?thesis
      using usb_cbq.suspend_waits [OF W, of ws T w lib_submit route h] P w T Nil unfolding usb_ok_def slot_pool_inv_def by fastforce
  next
    case (Cons x fs')
    have d: "x \<notin> T" using pool_disjoint [OF P] Cons by auto
    from usb_cbq.suspend_slot [OF W P [unfolded Cons] d w(1,3), of lib_submit route h] Cons T show ?thesis
      by (auto intro!: usb_ok_handed)
  qed
qed

lemma usb_ok_complete:
  assumes "usb_ok entry S A s" and x: "x \<in> S" "slot_status s x = Slot_in_flight"
  shows "\<exists>s'. slot_on_transfer_complete lib_submit (\<lambda>w. post_via_route (route w) (entry w) w) x st n s = Some s' \<and> usb_ok entry S A s'"
proof -
  obtain R fs ws T where W: "usb_world entry S A s R" and P: "slot_pool S A s R fs ws T" and T: "set fs \<union> T = S"
    using assms(1) by (auto simp: usb_ok_def slot_pool_inv_def)
  have "x \<notin> set fs" using P x(2) unfolding slot_pool_def by auto
  then have xT: "x \<in> T" using T x(1) by auto
  then obtain w where "slot_owner s x = Some w" using pool_linked [OF P] by (auto simp: linked_def)
  from usb_cbq.complete_slot [OF W P xT this, of lib_submit route st n] xT T show ?thesis by (auto intro!: usb_ok_handed)
qed

lemma usb_ok_destroy:
  assumes "usb_ok entry S A s" and w: "w \<in> A" "ba_slot (bulk s w) = None"
  shows "usb_ok entry S A (bulk_awaiter_dtor lib_cancel w s)"
proof -
  obtain R fs ws T where W: "usb_world entry S A s R" and P: "slot_pool S A s R fs ws T" and T: "set fs \<union> T = S"
    using assms(1) by (auto simp: usb_ok_def slot_pool_inv_def)
  note P' = P [unfolded slot_pool_def]
  show ?thesis
  proof (cases "w \<in> set ws")
    case True
    from usb_cbq.destroy_waiting [OF W P True, of lib_cancel] T show ?thesis by (auto simp: usb_ok_def slot_pool_inv_def)
  next
    case False
    let ?s = "bulk_awaiter_dtor lib_cancel w s"
    have nw: "\<not> ba_waiting (bulk s w)" using False P' w by auto
    then have e: "?s = s\<lparr>h_of := (h_of s)(w := None), bulk := (bulk s)(w := (bulk s w)\<lparr>ba_cancelled := True\<rparr>)\<rparr>"
      using w by (simp add: bulk_awaiter_dtor_def upd_bulk_def Let_def)
    have "linked A ?s y" if "y \<in> T" for y by (rule linked_upd [OF pool_linked [OF P that]]) (use w in \<open>auto simp: e\<close>)
    then have "slot_pool S A ?s R fs ws T" using P' w False unfolding slot_pool_def e by (intro conjI; simp)
    moreover have "usb_world entry S A ?s R" by (rule usb_world_upd [OF W]) (simp add: route_part_def e)
    ultimately show ?thesis using T by (auto simp: usb_ok_def slot_pool_inv_def)
  qed
qed

lemma usb_ok_other:
  assumes "usb_ok entry S A s" and o: "other_work entry S A s s'"
  shows "usb_ok entry S A s'"
proof -
  obtain R fs ws T where W: "usb_world entry S A s R" and P: "slot_pool S A s R fs ws T" and T: "set fs \<union> T = S"
    using assms(1) by (auto simp: usb_ok_def slot_pool_inv_def)
  obtain R' where R': "usb_world entry S A s' R'" "\<forall>h\<in>insert (free_slots s) (insert (waiting_list s) S). R' h = R h"
    using o W unfolding other_work_def by blast
  have "slot_pool S A s' R' fs ws T" using P R'(2) o unfolding slot_pool_def other_work_def linked_def by simp
  with R'(1) T show ?thesis by (auto simp: usb_ok_def slot_pool_inv_def)
qed

lemma usb_reachable_ok: "usb_reachable lib_submit lib_cancel route entry S A s \<Longrightarrow> usb_ok entry S A s"
proof (induction rule: usb_reachable.induct)
  case (usb_suspend s w h s')
  with usb_ok_suspend [OF usb_suspend.IH usb_suspend.hyps(2-4), of lib_submit route h] show ?case by auto
next
  case (usb_complete s x st n s')
  with usb_ok_complete [OF usb_complete.IH usb_complete.hyps(2,3), of lib_submit route st n] show ?case by auto
qed (auto intro: usb_ok_start usb_ok_construct usb_ok_destroy usb_ok_other)

lemma give_ends:
  "give lib_submit gn rq x ws k = (ow, rest, failed, k') \<Longrightarrow> (ow = None \<longrightarrow> rest = []) \<and> (\<forall>(v, rc)\<in>set failed. rc < 0)"
proof (induction ws arbitrary: failed k)
  case (Cons v ws)
  then show ?case by (fastforce split: if_splits prod.splits)
qed simp

section \<open>Properties\<close>

text \<open>
  When libusb completes the transfer of a slot in flight, the callback returns; the awaiter gets the translated status as its result and
  is posted first (unless it was cancelled), then those of the waiters, from the first, whose own submission fails, with its error, and the
  first waiter whose submission succeeds owns the slot and is in flight. The slot is free only when no waiter is left. libusb ends in the
  state of these submissions, in this order, and the pool keeps its invariant.
\<close>

theorem usb_completion_hands_over:
  assumes "slot_pool_inv (usb_world entry S A) S A s fs ws T" and "x \<in> T" and "slot_owner s x = Some w"
  shows "\<exists>s'. slot_on_transfer_complete lib_submit (\<lambda>w. post_via_route (route w) (entry w) w) x st n s = Some s' \<and>
    (case give lib_submit (gone s) (reqs s) x ws (lib s) of (ow, rest, failed, k) \<Rightarrow>
       slot_pool_inv (usb_world entry S A) S A s' (if ow = None then fs @ [x] else fs) rest (if ow = None then T - {x} else T) \<and>
       (ow = None \<longrightarrow> rest = []) \<and> (ow \<noteq> None \<longrightarrow> slot_owner s' x = ow) \<and> lib s' = k \<and>
       usb_trace s' = usb_trace s @ (if gone s w then [] else [(w, translate_status st n)]) @ failed \<and>
       bulk_await_resume w s' = translate_status st n \<and> (\<forall>(v, rc)\<in>set failed. bulk_await_resume v s' = rc \<and> rc < 0))"
proof -
  obtain R where W: "usb_world entry S A s R" and P: "slot_pool S A s R fs ws T" using assms(1) by (auto simp: slot_pool_inv_def)
  obtain ow rest failed k where g: "give lib_submit (gone s) (reqs s) x ws (lib s) = (ow, rest, failed, k)" by (rule prod_cases4)
  from usb_cbq.complete_slot [OF W P assms(2,3), of lib_submit route st n] obtain s1 s' where
    c: "slot_on_transfer_complete lib_submit (\<lambda>w. post_via_route (route w) (entry w) w) x st n s = Some s'"
    "handed (slot_pool_inv (usb_world entry S A) S A) x s1 fs (T - {x}) ws (ow, rest, failed, k) s'"
    "usb_trace s1 = usb_trace s @ (if gone s w then [] else [(w, translate_status st n)])"
    "ba_result (bulk s1 w) = translate_status st n" "w \<notin> set ws" unfolding g by blast
  have "insert x (T - {x}) = T" using assms(2) by auto
  moreover have "bulk s' w = bulk s1 w" using c(2,5) by (auto simp: handed_def)
  ultimately show ?thesis
    using c give_ends [OF g] by (intro exI [of _ s']) (auto simp: g handed_def bulk_await_resume_def split: if_splits)
qed

text \<open>
  C27: In every state that awaiters, completions and destructors can reach, the slots are divided between the free list and the transfers in
  flight, each linked with its awaiter, and none is lost; awaiters wait only while no slot is free, in the waiting list in which exactly they
  are. From there \<open>await_suspend\<close> of a new awaiter and the callback of a transfer in flight return.
\<close>

theorem usb_pool_invariant:
  assumes "usb_reachable lib_submit lib_cancel route entry S A s"
  shows "(\<exists>fs ws T. slot_pool_inv (usb_world entry S A) S A s fs ws T \<and> set fs \<union> T = S \<and> set fs \<inter> T = {} \<and> (ws = [] \<or> fs = [])) \<and>
    (\<forall>w\<in>A. list_empty w (lks s) \<and> ba_slot (bulk s w) = None \<longrightarrow>
       bulk_await_suspend lib_submit (\<lambda>w. post_via_route (route w) (entry w) w) w h s \<noteq> None) \<and>
    (\<forall>x\<in>S. slot_status s x = Slot_in_flight \<longrightarrow>
       slot_on_transfer_complete lib_submit (\<lambda>w. post_via_route (route w) (entry w) w) x st n s \<noteq> None)"
proof -
  note ok = usb_reachable_ok [OF assms]
  obtain fs ws T R where p: "usb_world entry S A s R" "slot_pool S A s R fs ws T" "set fs \<union> T = S" using ok by (auto simp: usb_ok_def slot_pool_inv_def)
  have "ws = [] \<or> fs = []" using p(2) unfolding slot_pool_def by blast
  with p pool_disjoint [OF p(2)]
  have "\<exists>fs ws T. slot_pool_inv (usb_world entry S A) S A s fs ws T \<and> set fs \<union> T = S \<and> set fs \<inter> T = {} \<and> (ws = [] \<or> fs = [])"
    unfolding slot_pool_inv_def by blast
  then show ?thesis
    using usb_ok_suspend [OF ok, of _ lib_submit route h] usb_ok_complete [OF ok, of _ lib_submit route st n] by blast
qed

section \<open>Destroying an awaiter in flight\<close>

text \<open>
  The destructor of an awaiter whose transfer is in flight asks libusb to cancel it but leaves the slot's \<open>owner\<close>: the callback of the
  cancelled transfer calls a member of the destroyed awaiter, which writes to it.
\<close>

lemma usb_dtor_leaves_owner:
  assumes "linked A s x" and "slot_owner s x = Some w"
  shows "slot_owner (bulk_awaiter_dtor lib_cancel w s) x = Some w \<and>
    (\<exists>s1. slot_on_transfer_complete lib_submit pst x Transfer_cancelled n (bulk_awaiter_dtor lib_cancel w s) =
       awaiter_on_transfer_complete lib_submit pst w LIBUSB_ERROR_INTERRUPTED x s1)"
proof -
  have "slot_owner (bulk_awaiter_dtor lib_cancel w s) x = Some w"
    using assms by (auto simp: linked_def bulk_awaiter_dtor_def upd_bulk_def slot_cancel_def Let_def)
  then show ?thesis by (auto simp: slot_on_transfer_complete_def translate_status_def Let_def)
qed

text \<open>
  After a move, the transfers of the new device use its pools, which still refer to the moved-from device, and submit with its null handle.
\<close>

lemma usb_move_stale_pool:
  assumes "usb_device_new d exec h tx_slots rx_slots tx rx s = Inr s1" and "d' \<noteq> d" and "tx \<noteq> rx"
  shows "submit_handle tx s1 = h \<and> bulk_transfer_out d' (usb_device_move d' d s1) = Inr (tx, True) \<and>
    submit_handle tx (usb_device_move d' d s1) = None \<and> bulk_transfer_out d (usb_device_move d' d s1) = Inl LIBUSB_ERROR_NO_DEVICE"
  using assms
  by (auto simp: usb_device_new_def submit_handle_def bulk_transfer_out_def usb_device_move_def moved_from_def split: if_splits)

section \<open>Examples\<close>

text \<open>One slot 1, in flight for the awaiter 2, while 3 waits; 11 and 12 are the heads of the pool. Every submission succeeds.\<close>

definition demo_bulk :: "addr \<Rightarrow> bulk_aw" where
  "demo_bulk w = \<lparr>ba_endpoint = 0x81, ba_buffer = 0, ba_length = 64, ba_timeout = 0, ba_zero = False, ba_cancelled = False, ba_waiting = (w = 3),
     ba_submitted = (w = 2), ba_slot = (if w = 2 then Some 1 else None), ba_result = LIBUSB_ERROR_OTHER\<rparr>"

definition demo_usb :: "unit usb" where
  "demo_usb = cbq.extend (demo_cbq\<lparr>lks := list_add_tail 3 12 fresh_links\<rparr>)
     (usb.fields 11 12 (\<lambda>_. Slot_in_flight) (\<lambda>_. Some 2) (\<lambda>_. fill_transfer (demo_bulk 2)) demo_bulk () [])"

lemma demo_usb_simps:
  "free_slots demo_usb = 11" "waiting_list demo_usb = 12" "ws_head demo_usb = 10" "pending demo_usb = 20" "runner demo_usb = 40"
  "slot_status demo_usb x = Slot_in_flight" "slot_owner demo_usb x = Some 2" "bulk demo_usb = demo_bulk" "usb_trace demo_usb = []"
  "\<not> callback_enqueued demo_usb w" "lks demo_usb = list_add_tail 3 12 fresh_links"
  by (simp_all add: demo_usb_def cbq.defs usb.defs demo_cbq_def)

lemma demo_usb_pool: "slot_pool_inv (usb_world (\<lambda>w. w + 100) {1} {2, 3}) {1} {2, 3} demo_usb [] [3] {1}"
proof -
  let ?R = "r_append 3 12 (\<lambda>_. Some [])"
  have "store_ok (list_add_tail 3 12 fresh_links) {11, 12, 10, 20} ?R" by (rule store_ok_add_tail [OF store_ok_fresh]) simp_all
  then have "usb_world (\<lambda>w. w + 100) {1} {2, 3} demo_usb ?R"
    by (auto simp: usb_world_def demo_usb_simps r_append_def inj_def)
  moreover have "slot_pool {1} {2, 3} demo_usb ?R [] [3] {1}"
    by (auto simp: slot_pool_def demo_usb_simps r_append_def linked_def demo_bulk_def)
  ultimately show ?thesis by (auto simp: slot_pool_inv_def)
qed

theorem usb_completion_hands_over_witness:
  "\<exists>s'. slot_on_transfer_complete (\<lambda>_ _ k. (0, k)) (\<lambda>w. post_via_route True (w + 100) w) 1 Transfer_completed 64 demo_usb = Some s' \<and>
     slot_owner s' 1 = Some 3 \<and> usb_trace s' = [(2, 64)] \<and> bulk_await_resume 2 s' = 64"
  using usb_completion_hands_over [OF demo_usb_pool, of 1 2 "\<lambda>_ _ k. (0, k)" "\<lambda>_. True" Transfer_completed 64]
  by (auto simp: demo_usb_simps gone_def demo_bulk_def translate_status_def)

definition demo_idle_usb :: "unit usb" where
  "demo_idle_usb = demo_usb\<lparr>lks := fresh_links, bulk := (\<lambda>w. (demo_bulk w)\<lparr>ba_waiting := False, ba_slot := None\<rparr>)\<rparr>"

theorem usb_pool_invariant_witness:
  "bulk_await_suspend (\<lambda>_ _ k. (0, k)) (\<lambda>w. post_via_route True (w + 100) w) 2 7 (transfer_pool_init [1] demo_idle_usb) \<noteq> None"
proof -
  let ?s = "transfer_pool_init [1] demo_idle_usb"
  have "usb_world (\<lambda>w. w + 100) {1} {2, 3} demo_idle_usb (\<lambda>_. Some [])"
    by (auto simp: usb_world_def demo_idle_usb_def demo_usb_simps store_ok_fresh inj_def)
  then have "usb_reachable (\<lambda>_ _ k. (0, k)) (\<lambda>_ k. k) (\<lambda>_. True) (\<lambda>w. w + 100) {1} {2, 3} ?s"
    by (rule usb_start) (auto simp: demo_idle_usb_def)
  moreover have "list_empty 2 (lks ?s)" "ba_slot (bulk ?s 2) = None"
    by (simp_all add: transfer_pool_init_def demo_idle_usb_def demo_usb_simps list_empty_def link_defs fresh_links_def)
  ultimately show ?thesis using usb_pool_invariant [of "\<lambda>_ _ k. (0, k)" "\<lambda>_ k. k" "\<lambda>_. True" "\<lambda>w. w + 100" "{1}" "{2, 3}" ?s 7] by blast
qed

end
