(* ===== verification/Tls_Socket.thy ===== *)
theory Tls_Socket
  imports Stream_Socket
begin

text \<open>
  TLS over a transport socket: \<^verbatim>\<open>net/tls.hpp\<close> (\<open>basic_tls_socket\<close> and its awaiters, with \<open>tls_socket\<close> and \<open>dtls_socket\<close>).

  The state of a TLS socket extends that of its transport, a stream socket. OpenSSL is not part of the sources: its calls are the fields of
  \<open>ssl_api\<close>, functions of the pointer \<open>_ssl\<close> (\<open>None\<close>: null) and of the kernel state, which holds the state of the connection as
  well. A call that returns gives its value, what \<open>SSL_get_error\<close> would say of it, and \<open>errno\<close>.
\<close>

unbundle bit_operations_syntax

section \<open>Data\<close>

datatype tls_mode = Tls_client | Tls_server

record 'k ssl_api =
  api_new :: "'k \<Rightarrow> addr option \<times> 'k"
  api_set_fd :: "addr \<Rightarrow> fd \<Rightarrow> 'k \<Rightarrow> int \<times> 'k"
  api_set_bio :: "addr \<Rightarrow> fd \<Rightarrow> 'k \<Rightarrow> bool \<times> 'k"
  api_set_state :: "addr \<Rightarrow> tls_mode \<Rightarrow> 'k \<Rightarrow> 'k"
  api_cookie_exchange :: "addr \<Rightarrow> 'k \<Rightarrow> 'k"
  api_handshake :: "addr option \<Rightarrow> 'k \<Rightarrow> (int \<times> int \<times> int) \<times> 'k"
  api_read :: "addr option \<Rightarrow> int \<Rightarrow> 'k \<Rightarrow> (int \<times> int \<times> int \<times> bytes) \<times> 'k"
  api_write :: "addr option \<Rightarrow> bytes \<Rightarrow> int \<Rightarrow> 'k \<Rightarrow> (int \<times> int \<times> int) \<times> 'k"
  api_shutdown :: "addr option \<Rightarrow> 'k \<Rightarrow> 'k"

definition SSL_ERROR_SSL :: int where "SSL_ERROR_SSL = 1"
definition SSL_ERROR_WANT_READ :: int where "SSL_ERROR_WANT_READ = 2"
definition SSL_ERROR_WANT_WRITE :: int where "SSL_ERROR_WANT_WRITE = 3"
definition SSL_ERROR_SYSCALL :: int where "SSL_ERROR_SYSCALL = 5"
definition SSL_ERROR_ZERO_RETURN :: int where "SSL_ERROR_ZERO_RETURN = 6"
definition EIO :: int where "EIO = 5"

record tls_recv_aw = recv_aw +
  rv_mask :: "32 word"

record tls_send_aw =
  ts_full :: bool
  ts_buf :: bytes
  ts_len :: nat
  ts_sent :: nat
  ts_err :: int
  ts_mask :: "32 word"

record 'k tls = "'k sock" +
  ssl :: "addr option"
  handshake_done :: bool
  tls_rx_eof :: bool
  tls_tx_shutdown :: bool
  tls_active :: bool
  tls_send_q :: addr
  tls_recv_q :: addr
  hs_result :: "addr \<Rightarrow> int"
  trw :: "addr \<Rightarrow> tls_recv_aw"
  tsw :: "addr \<Rightarrow> tls_send_aw"

definition translate_failure :: "int \<Rightarrow> int \<Rightarrow> int" where
  "translate_failure ssl_err errno =
     (if ssl_err = SSL_ERROR_SYSCALL then (if errno \<noteq> 0 then - errno else - EIO)
      else if ssl_err = SSL_ERROR_SSL then - EIO
      else if ssl_err = SSL_ERROR_ZERO_RETURN then - ECONNRESET
      else - ssl_err)"

text \<open>\<open>static_cast<int>\<close> of a \<open>size_t\<close>.\<close>

definition cast_int :: "nat \<Rightarrow> int" where
  "cast_int n = sint (word_of_nat n :: 32 word)"

definition want :: "int \<Rightarrow> bool" where
  "want ssl_err \<longleftrightarrow> ssl_err = SSL_ERROR_WANT_READ \<or> ssl_err = SSL_ERROR_WANT_WRITE"

definition want_mask :: "int \<Rightarrow> 32 word" where
  "want_mask ssl_err =
     (if ssl_err = SSL_ERROR_WANT_READ then EPOLLIN else 0) OR (if ssl_err = SSL_ERROR_WANT_WRITE then EPOLLOUT else 0)"

section \<open>Construction, shutdown and closing\<close>

datatype tls_error = Ssl_new_failed | Set_fd_failed | Bio_new_failed

text \<open>A constructor that throws leaves the state it has reached.\<close>

definition tls_init :: "'k ssl_api \<Rightarrow> ('k, 'b) tls_scheme \<Rightarrow> tls_error \<times> ('k, 'b) tls_scheme + ('k, 'b) tls_scheme" where
  "tls_init api s =
     (case api_new api (kern s) of
        (None, k) \<Rightarrow> Inl (Ssl_new_failed, s\<lparr>kern := k, ssl := None\<rparr>)
      | (Some p, k) \<Rightarrow>
          Inr (serial_queue_init (tls_recv_q s) (serial_queue_init (tls_send_q s)
            (s\<lparr>kern := k, ssl := Some p, handshake_done := False, tls_rx_eof := False, tls_tx_shutdown := False, tls_active := True\<rparr>))))"

definition tls_socket_init :: "'k ssl_api \<Rightarrow> tls_mode \<Rightarrow> ('k, 'b) tls_scheme \<Rightarrow> tls_error \<times> ('k, 'b) tls_scheme + ('k, 'b) tls_scheme" where
  "tls_socket_init api mode s =
     (case tls_init api s of
        Inl e \<Rightarrow> Inl e
      | Inr s1 \<Rightarrow>
          (case api_set_fd api (the (ssl s1)) (sk_fd s1) (kern s1) of (r, k) \<Rightarrow>
             if r \<noteq> 1 then Inl (Set_fd_failed, s1\<lparr>kern := k\<rparr>)
             else Inr (s1\<lparr>kern := api_set_state api (the (ssl s1)) mode k\<rparr>)))"

definition dtls_socket_init :: "'k ssl_api \<Rightarrow> tls_mode \<Rightarrow> ('k, 'b) tls_scheme \<Rightarrow> tls_error \<times> ('k, 'b) tls_scheme + ('k, 'b) tls_scheme" where
  "dtls_socket_init api mode s =
     (case tls_init api s of
        Inl e \<Rightarrow> Inl e
      | Inr s1 \<Rightarrow>
          (case api_set_bio api (the (ssl s1)) (sk_fd s1) (kern s1) of (ok, k) \<Rightarrow>
             if \<not> ok then Inl (Bio_new_failed, s1\<lparr>kern := k\<rparr>)
             else let k1 = api_set_state api (the (ssl s1)) mode k
                  in Inr (s1\<lparr>kern := (case mode of Tls_client \<Rightarrow> k1 | Tls_server \<Rightarrow> api_cookie_exchange api (the (ssl s1)) k1)\<rparr>)))"

definition reset_ssl :: "'k ssl_api \<Rightarrow> ('k, 'b) tls_scheme \<Rightarrow> ('k, 'b) tls_scheme" where
  "reset_ssl api s = (if ssl s \<noteq> None then s\<lparr>kern := api_shutdown api (ssl s) (kern s), ssl := None\<rparr> else s)"

definition tls_close ::
  "'k ssl_api \<Rightarrow> 'k os \<Rightarrow> build \<Rightarrow> (addr \<Rightarrow> ('k, 'b) tls_scheme \<Rightarrow> ('k, 'b) tls_scheme) \<Rightarrow> addr \<Rightarrow> ('k, 'b) tls_scheme \<Rightarrow>
   (abort + ('k, 'b) tls_scheme) option" where
  "tls_close api os b pst pend s =
     (if \<not> tls_active s then Some (Inr s)
      else case sock_close os b pst pend (reset_ssl api s) of
             None \<Rightarrow> None
           | Some (Inl e) \<Rightarrow> Some (Inl e)
           | Some (Inr s1) \<Rightarrow> Some (Inr (s1\<lparr>handshake_done := False, tls_rx_eof := True, tls_tx_shutdown := True\<rparr>)))"

definition tls_shutdown_tx :: "'k ssl_api \<Rightarrow> 'k os \<Rightarrow> ('k, 'b) tls_scheme \<Rightarrow> ('k, 'b) tls_scheme" where
  "tls_shutdown_tx api os s =
     (if \<not> tls_active s then s
      else let s1 = (if ssl s \<noteq> None \<and> \<not> tls_tx_shutdown s
                     then s\<lparr>kern := api_shutdown api (ssl s) (kern s), tls_tx_shutdown := True\<rparr> else s)
           in shutdown_tx os s1)"

definition reset_after_move :: "('k, 'b) tls_scheme \<Rightarrow> ('k, 'b) tls_scheme" where
  "reset_after_move s =
     serial_queue_init (tls_recv_q s) (serial_queue_init (tls_send_q s)
       (s\<lparr>handshake_done := False, tls_rx_eof := False, tls_tx_shutdown := False, tls_active := False\<rparr>))"

section \<open>The handshake\<close>

definition resume_h :: "addr \<Rightarrow> 'a ser_scheme \<Rightarrow> 'a ser_scheme" where
  "resume_h a s = (case h_of s a of None \<Rightarrow> s | Some c \<Rightarrow> resume_coroutine a c s)"

text \<open>The loop of \<open>drive\<close> runs its body at most once: every branch of it leaves the loop.\<close>

definition handshake_drive :: "'k ssl_api \<Rightarrow> 'k os \<Rightarrow> addr \<Rightarrow> ('k, 'b) tls_scheme \<Rightarrow> ('k, 'b) tls_scheme" where
  "handshake_drive api os a s =
     (if handshake_done s then resume_h a s
      else case api_handshake api (ssl s) (kern s) of ((rc, ssl_err, errno), k) \<Rightarrow>
        let s1 = s\<lparr>kern := k, sk_errno := errno\<rparr>
        in if rc = 1 then resume_h a (s1\<lparr>handshake_done := True\<rparr>)
           else if want ssl_err
           then add_waiter_custom (os_ctl os) (sk_fd s1) (want_mask ssl_err) a (s1\<lparr>func := (func s1)(a := Code Tls_handshake_cb)\<rparr>)
           else resume_h a (s1\<lparr>hs_result := (hs_result s1)(a := translate_failure ssl_err errno)\<rparr>))"

definition handshake_await_ready :: "('k, 'b) tls_scheme \<Rightarrow> bool" where
  "handshake_await_ready s \<longleftrightarrow> handshake_done s"

definition handshake_await_suspend :: "'k ssl_api \<Rightarrow> 'k os \<Rightarrow> addr \<Rightarrow> addr \<Rightarrow> ('k, 'b) tls_scheme \<Rightarrow> ('k, 'b) tls_scheme" where
  "handshake_await_suspend api os a coro s =
     handshake_drive api os a (s\<lparr>h_of := (h_of s)(a := Some coro), lks := INIT_LIST_HEAD a (lks s)\<rparr>)"

definition handshake_resume_cb :: "'k ssl_api \<Rightarrow> 'k os \<Rightarrow> addr \<Rightarrow> ('k, 'b) tls_scheme \<Rightarrow> ('k, 'b) tls_scheme" where
  "handshake_resume_cb api os a s = handshake_drive api os a s"

definition handshake_await_resume :: "addr \<Rightarrow> ('k, 'b) tls_scheme \<Rightarrow> int" where
  "handshake_await_resume a s =
     (if \<not> handshake_done s then (if hs_result s a = 0 then - ECONNRESET else hs_result s a) else 0)"

section \<open>Receiving\<close>

definition tls_recv_init :: "addr \<Rightarrow> bytes \<Rightarrow> nat \<Rightarrow> bool \<Rightarrow> ('k, 'b) tls_scheme \<Rightarrow> ('k, 'b) tls_scheme" where
  "tls_recv_init a buf len f s =
     s\<lparr>q_of := (q_of s)(a := tls_recv_q s),
       trw := (trw s)(a := \<lparr>rv_full = f, rv_buf = buf, rv_len = len, recvd = 0, rv_err = 0, rv_mask = 0\<rparr>)\<rparr>"

definition tls_recv_mask :: "addr \<Rightarrow> ('k, 'b) tls_scheme \<Rightarrow> 32 word" where
  "tls_recv_mask a s = (if rv_mask (trw s a) \<noteq> 0 then rv_mask (trw s a) else EPOLLIN)"

definition tls_recv_register :: "'k os \<Rightarrow> addr \<Rightarrow> bool \<Rightarrow> ('k, 'b) tls_scheme \<Rightarrow> ('k, 'b) tls_scheme" where
  "tls_recv_register os a first s = add_waiter_custom (os_ctl os) (sk_fd s) (tls_recv_mask a s) a s"

definition tls_recv_attempt :: "'k ssl_api \<Rightarrow> addr \<Rightarrow> ('k, 'b) tls_scheme \<Rightarrow> int \<times> ('k, 'b) tls_scheme" where
  "tls_recv_attempt api a s =
     (let aw = trw s a
      in if recvd aw \<ge> rv_len aw then (0, s)
         else case api_read api (ssl s) (cast_int (rv_len aw - recvd aw)) (kern s) of ((rc, ssl_err, errno, d), k) \<Rightarrow>
           let s1 = s\<lparr>kern := k, sk_errno := errno\<rparr>
           in if rc > 0
              then let aw1 = aw\<lparr>recvd := recvd aw + nat rc, rv_buf := buf_write (recvd aw) (take (nat rc) d) (rv_buf aw)\<rparr>
                   in (if \<not> rv_full aw then 0 else if recvd aw1 = rv_len aw1 then 0 else 1, s1\<lparr>trw := (trw s1)(a := aw1)\<rparr>)
              else if rc = 0 then (0, s1\<lparr>tls_rx_eof := True\<rparr>)
              else if want ssl_err then (- 1, s1\<lparr>trw := (trw s1)(a := aw\<lparr>rv_mask := want_mask ssl_err\<rparr>)\<rparr>)
              else if ssl_err = SSL_ERROR_ZERO_RETURN then (0, s1\<lparr>tls_rx_eof := True\<rparr>)
              else (0, s1\<lparr>trw := (trw s1)(a := aw\<lparr>rv_err := translate_failure ssl_err errno\<rparr>)\<rparr>))"

definition tls_recv_resume :: "addr \<Rightarrow> ('k, 'b) tls_scheme \<Rightarrow> int" where
  "tls_recv_resume a s =
     (let aw = trw s a in if rv_err aw < 0 \<and> recvd aw = 0 then rv_err aw else int (recvd aw))"

section \<open>Sending\<close>

definition tls_send_init :: "addr \<Rightarrow> bytes \<Rightarrow> bool \<Rightarrow> ('k, 'b) tls_scheme \<Rightarrow> ('k, 'b) tls_scheme" where
  "tls_send_init a buf f s =
     s\<lparr>q_of := (q_of s)(a := tls_send_q s),
       tsw := (tsw s)(a := \<lparr>ts_full = f, ts_buf = buf, ts_len = length buf, ts_sent = 0, ts_err = 0, ts_mask = 0\<rparr>)\<rparr>"

definition tls_send_mask :: "addr \<Rightarrow> ('k, 'b) tls_scheme \<Rightarrow> 32 word" where
  "tls_send_mask a s = (if ts_mask (tsw s a) \<noteq> 0 then ts_mask (tsw s a) else EPOLLOUT)"

definition tls_send_register :: "'k os \<Rightarrow> addr \<Rightarrow> bool \<Rightarrow> ('k, 'b) tls_scheme \<Rightarrow> ('k, 'b) tls_scheme" where
  "tls_send_register os a first s = add_waiter_custom (os_ctl os) (sk_fd s) (tls_send_mask a s) a s"

definition tls_send_attempt :: "'k ssl_api \<Rightarrow> addr \<Rightarrow> ('k, 'b) tls_scheme \<Rightarrow> int \<times> ('k, 'b) tls_scheme" where
  "tls_send_attempt api a s =
     (let aw = tsw s a
      in if ts_sent aw \<ge> ts_len aw then (0, s)
         else case api_write api (ssl s) (drop (ts_sent aw) (ts_buf aw)) (cast_int (ts_len aw - ts_sent aw)) (kern s) of
                ((rc, ssl_err, errno), k) \<Rightarrow>
           let s1 = s\<lparr>kern := k, sk_errno := errno\<rparr>
           in if rc > 0
              then let aw1 = aw\<lparr>ts_sent := ts_sent aw + nat rc\<rparr>
                   in (if \<not> ts_full aw then 0 else if ts_sent aw1 = ts_len aw1 then 0 else 1, s1\<lparr>tsw := (tsw s1)(a := aw1)\<rparr>)
              else if rc = 0 then (0, s1\<lparr>tls_tx_shutdown := True\<rparr>)
              else if want ssl_err then (- 1, s1\<lparr>tsw := (tsw s1)(a := aw\<lparr>ts_mask := want_mask ssl_err\<rparr>)\<rparr>)
              else if ssl_err = SSL_ERROR_ZERO_RETURN then (0, s1\<lparr>tls_tx_shutdown := True\<rparr>)
              else (0, s1\<lparr>tsw := (tsw s1)(a := aw\<lparr>ts_err := translate_failure ssl_err errno\<rparr>)\<rparr>))"

definition tls_send_resume :: "addr \<Rightarrow> ('k, 'b) tls_scheme \<Rightarrow> int" where
  "tls_send_resume a s =
     (let aw = tsw s a in if ts_err aw < 0 \<and> ts_sent aw = 0 then ts_err aw else int (ts_sent aw))"

section \<open>Operations as coroutines see them\<close>

text \<open>Reading or writing with a null \<open>_ssl\<close> has no defined outcome: \<open>None\<close>, like an operation that never resumes.\<close>

definition tls_recv ::
  "'k ssl_api \<Rightarrow> 'k os \<Rightarrow> (32 word \<Rightarrow> 'k \<Rightarrow> 'k) \<Rightarrow> addr \<Rightarrow> bool \<Rightarrow> nat \<Rightarrow> ('k, 'b) tls_scheme \<Rightarrow> (int \<times> bytes \<times> ('k, 'b) tls_scheme) option" where
  "tls_recv api os idle a full len s =
     (if ssl s = None then None else map_option (\<lambda>s1. (tls_recv_resume a s1, take (recvd (trw s1 a)) (rv_buf (trw s1 a)), s1))
       (await_loop (tls_recv_attempt api) (tls_recv_register os) (\<lambda>s. wait_for os idle (tls_recv_mask a s) s) True a
          (tls_recv_init a (replicate len 0) len full s)))"

definition tls_send_all ::
  "'k ssl_api \<Rightarrow> 'k os \<Rightarrow> (32 word \<Rightarrow> 'k \<Rightarrow> 'k) \<Rightarrow> addr \<Rightarrow> bytes \<Rightarrow> ('k, 'b) tls_scheme \<Rightarrow> (int \<times> ('k, 'b) tls_scheme) option" where
  "tls_send_all api os idle a b s =
     (if ssl s = None then None else map_option (\<lambda>s1. (tls_send_resume a s1, s1))
       (await_loop (tls_send_attempt api) (tls_send_register os) (\<lambda>s. wait_for os idle (tls_send_mask a s) s) True a
          (tls_send_init a b True s)))"

section \<open>Frame lemmas\<close>

lemma wq_post_tls [simp]:
  "trw (wq_post a s) = trw s" "tsw (wq_post a s) = tsw s" "ssl (wq_post a s) = ssl s" for s :: "('k, 'b) tls_scheme"
  by (simp_all add: wq_post_def enqueue_def trig_once_def emit_def)

lemma drain_done_tls [simp]:
  "trw (drain_done a s) = trw s" "tsw (drain_done a s) = tsw s" "ssl (drain_done a s) = ssl s" "kern (drain_done a s) = kern s"
  for s :: "('k, 'b) tls_scheme"
  by (auto simp: drain_done_def slot_release_def serial_release_def resume_coroutine_def Let_def split: option.splits)

lemma update_tls [simp]:
  "trw (update_fd_interest_unlocked c fd st s) = trw s" "tsw (update_fd_interest_unlocked c fd st s) = tsw s"
  "ssl (update_fd_interest_unlocked c fd st s) = ssl s"
  for s :: "('k, 'b) tls_scheme"
  by (auto simp: update_fd_interest_unlocked_def ctl_def Let_def split: prod.splits)

lemma add_waiter_custom_tls [simp]:
  "trw (add_waiter_custom c fd m w s) = trw s" "tsw (add_waiter_custom c fd m w s) = tsw s" "ssl (add_waiter_custom c fd m w s) = ssl s"
  "func (add_waiter_custom c fd m w s) = func s"
  for s :: "('k, 'b) tls_scheme"
  by (simp_all add: add_waiter_custom_def register_waiter_def Let_def)

lemma fold_post_tls [simp]:
  "trw (fold (\<lambda>wi. wq_post (wi_waiter wi)) ws s) = trw s" "tsw (fold (\<lambda>wi. wq_post (wi_waiter wi)) ws s) = tsw s"
  "ssl (fold (\<lambda>wi. wq_post (wi_waiter wi)) ws s) = ssl s"
  for s :: "('k, 'b) tls_scheme"
  by (induction ws arbitrary: s) simp_all

lemma wait_for_tls [simp]:
  "trw (wait_for os idle flags s) = trw s" "tsw (wait_for os idle flags s) = tsw s" "ssl (wait_for os idle flags s) = ssl s"
  for s :: "('k, 'b) tls_scheme"
  by (auto simp: wait_for_def handle_event_def take_ready_def split: option.splits prod.splits)

lemma cast_int_signed: "cast_int n = signed_take_bit 31 (int n)"
  by (simp add: cast_int_def signed_of_nat)

lemma cast_int_le: "cast_int n \<le> int n"
  by (simp add: cast_int_signed signed_take_bit_int_less_eq_self_iff)

lemma cast_int_small: "n < 2 ^ 31 \<Longrightarrow> cast_int n = int n"
  by (simp add: cast_int_signed signed_take_bit_int_eq_self)

lemma want_mask_nonzero: "want e \<Longrightarrow> want_mask e \<noteq> 0"
  by (auto simp: want_def want_mask_def SSL_ERROR_WANT_READ_def SSL_ERROR_WANT_WRITE_def EPOLLIN_def EPOLLOUT_def)

section \<open>A TLS session\<close>

text \<open>
  The documented behaviour of \<^verbatim>\<open>SSL_read\<close> and \<^verbatim>\<open>SSL_write\<close> with partial writes enabled: \<open>pin\<close> are the bytes of plain text of the peer not
  read yet, \<open>pout\<close> the plain text accepted for it. Nothing is said of a null pointer.
\<close>

locale ssl_session =
  fixes api :: "'k ssl_api" and os :: "'k os" and idle :: "32 word \<Rightarrow> 'k \<Rightarrow> 'k" and pin pout :: "'k \<Rightarrow> bytes"
  assumes ctl_plain: "pin (snd (os_ctl os oper fd ev k)) = pin k" "pout (snd (os_ctl os oper fd ev k)) = pout k"
    and idle_plain: "pin (idle flags k) = pin k" "pout (idle flags k) = pout k"
    and read_plain: "api_read api (Some p) len k = ((rc, e, er, d), k1) \<Longrightarrow> 0 < rc \<Longrightarrow>
      int (length d) = rc \<and> rc \<le> len \<and> pin k = d @ pin k1"
    and read_nothing: "api_read api (Some p) len k = ((rc, e, er, d), k1) \<Longrightarrow> rc \<le> 0 \<Longrightarrow> pin k1 = pin k"
    and read_pout: "api_read api (Some p) len k = ((rc, e, er, d), k1) \<Longrightarrow> pout k1 = pout k"
    and write_plain: "api_write api (Some p) b len k = ((rc, e, er), k1) \<Longrightarrow> 0 < rc \<Longrightarrow> rc \<le> len \<and> pout k1 = pout k @ take (nat rc) b"
    and write_nothing: "api_write api (Some p) b len k = ((rc, e, er), k1) \<Longrightarrow> rc \<le> 0 \<Longrightarrow> pout k1 = pout k"
    and write_pin: "api_write api (Some p) b len k = ((rc, e, er), k1) \<Longrightarrow> pin k1 = pin k"
begin

lemma add_waiter_plain [simp]:
  "pin (kern (add_waiter_custom (os_ctl os) fd m w s)) = pin (kern s)" "pout (kern (add_waiter_custom (os_ctl os) fd m w s)) = pout (kern s)"
proof -
  have "pin (kern (add_waiter_custom (os_ctl os) fd m w s)) = pin (kern s) \<and> pout (kern (add_waiter_custom (os_ctl os) fd m w s)) = pout (kern s)"
    unfolding add_waiter_custom_def register_waiter_def Let_def
    by (rule update_kern_pred [where P = "\<lambda>k. pin k = pin (kern s) \<and> pout k = pout (kern s)"]) (simp_all add: ctl_plain)
  then show "pin (kern (add_waiter_custom (os_ctl os) fd m w s)) = pin (kern s)"
    "pout (kern (add_waiter_custom (os_ctl os) fd m w s)) = pout (kern s)" by simp_all
qed

lemma wait_for_plain [simp]:
  "pin (kern (wait_for os idle flags s)) = pin (kern s)" "pout (kern (wait_for os idle flags s)) = pout (kern s)"
proof -
  have "pin (kern (wait_for os idle flags s)) = pin (kern s) \<and> pout (kern (wait_for os idle flags s)) = pout (kern s)"
    by (auto simp: wait_for_def handle_event_def take_ready_def idle_plain split: option.splits
        intro!: update_kern_pred [where P = "\<lambda>k. pin k = pin (kern s) \<and> pout k = pout (kern s)"] simp: ctl_plain)
  then show "pin (kern (wait_for os idle flags s)) = pin (kern s)" "pout (kern (wait_for os idle flags s)) = pout (kern s)" by simp_all
qed

definition tls_recv_inv :: "addr \<Rightarrow> nat \<Rightarrow> bytes \<Rightarrow> bytes \<Rightarrow> ('k, 'b) tls_scheme \<Rightarrow> bool" where
  "tls_recv_inv a len bi bo s \<longleftrightarrow>
     ssl s \<noteq> None \<and> rv_len (trw s a) = len \<and> length (rv_buf (trw s a)) = len \<and> recvd (trw s a) \<le> len \<and>
     bi = take (recvd (trw s a)) (rv_buf (trw s a)) @ pin (kern s) \<and> bo = pout (kern s)"

lemma tls_recv_attempt_inv:
  assumes "tls_recv_inv a len bi bo s" and "tls_recv_attempt api a s = (r, s1)"
  shows "tls_recv_inv a len bi bo s1"
proof (cases "recvd (trw s a) \<ge> rv_len (trw s a)")
  case True
  then show ?thesis using assms by (auto simp: tls_recv_attempt_def)
next
  case False
  obtain p where p: "ssl s = Some p" using assms(1) by (auto simp: tls_recv_inv_def)
  obtain rc e er d k where c: "api_read api (Some p) (cast_int (rv_len (trw s a) - recvd (trw s a))) (kern s) = ((rc, e, er, d), k)"
    by (metis prod_cases4 surj_pair)
  show ?thesis
  proof (cases "0 < rc")
    case True
    have "int (length d) = rc" "rc \<le> int (rv_len (trw s a) - recvd (trw s a))" "pin (kern s) = d @ pin k" "pout k = pout (kern s)"
      using read_plain [OF c True] read_pout [OF c] cast_int_le [of "rv_len (trw s a) - recvd (trw s a)"] by auto
    then have "nat rc = length d" "length d \<le> len - recvd (trw s a)" "pin (kern s) = d @ pin k" "pout k = pout (kern s)"
      using assms(1) False by (auto simp: tls_recv_inv_def)
    then show ?thesis
      using assms True False c p by (auto simp: tls_recv_attempt_def tls_recv_inv_def Let_def)
  next
    case n: False
    then have "pin k = pin (kern s)" "pout k = pout (kern s)" using read_nothing [OF c] read_pout [OF c] by simp_all
    then show ?thesis
      using assms n False c p by (auto simp: tls_recv_attempt_def tls_recv_inv_def Let_def split: if_splits)
  qed
qed

lemma tls_recv_sound:
  assumes "tls_recv api os idle a f len s = Some (n, d, s1)"
  shows "pin (kern s) = d @ pin (kern s1) \<and> pout (kern s1) = pout (kern s) \<and> length d \<le> len \<and> (n = int (length d) \<or> n < 0 \<and> d = []) \<and>
    ssl s1 \<noteq> None"
proof -
  let ?s0 = "tls_recv_init a (replicate len 0) len f s" and ?wait = "\<lambda>s. wait_for os idle (tls_recv_mask a s) s"
  have "tls_recv_inv a len (pin (kern s)) (pout (kern s)) ?s0"
    using assms by (simp add: tls_recv_inv_def tls_recv_init_def tls_recv_def split: if_splits)
  moreover obtain aw: "await_loop (tls_recv_attempt api) (tls_recv_register os) ?wait True a ?s0 = Some s1"
    and n: "n = tls_recv_resume a s1" "d = take (recvd (trw s1 a)) (rv_buf (trw s1 a))"
    using assms by (auto simp: tls_recv_def split: if_splits)
  have "tls_recv_inv a len (pin (kern s)) (pout (kern s)) s1"
    using aw calculation
    by (rule await_invariant) (erule (1) tls_recv_attempt_inv, simp_all add: tls_recv_register_def tls_recv_inv_def)
  then show ?thesis using n by (auto simp: tls_recv_inv_def tls_recv_resume_def Let_def)
qed

definition tls_send_inv :: "addr \<Rightarrow> bytes \<Rightarrow> bytes \<Rightarrow> bytes \<Rightarrow> ('k, 'b) tls_scheme \<Rightarrow> bool" where
  "tls_send_inv a b bi bo s \<longleftrightarrow>
     ssl s \<noteq> None \<and> ts_full (tsw s a) \<and> ts_buf (tsw s a) = b \<and> ts_len (tsw s a) = length b \<and> ts_sent (tsw s a) \<le> length b \<and>
     pin (kern s) = bi \<and> pout (kern s) = bo @ take (ts_sent (tsw s a)) b"

lemma tls_send_attempt_inv:
  assumes "tls_send_inv a b bi bo s" and "tls_send_attempt api a s = (r, s1)"
  shows "tls_send_inv a b bi bo s1"
proof (cases "ts_sent (tsw s a) \<ge> ts_len (tsw s a)")
  case True
  then show ?thesis using assms by (auto simp: tls_send_attempt_def)
next
  case False
  obtain p where p: "ssl s = Some p" using assms(1) by (auto simp: tls_send_inv_def)
  let ?m = "ts_sent (tsw s a)"
  obtain rc e er k where c: "api_write api (Some p) (drop ?m b) (cast_int (length b - ?m)) (kern s) = ((rc, e, er), k)"
    by (metis prod_cases3 surj_pair)
  note w = write_pin [OF c]
  show ?thesis
  proof (cases "0 < rc")
    case True
    have "rc \<le> int (length b - ?m)" "pout k = pout (kern s) @ take (nat rc) (drop ?m b)"
      using write_plain [OF c True] cast_int_le [of "length b - ?m"] by auto
    then have "?m + nat rc \<le> length b" "pout k = pout (kern s) @ take (nat rc) (drop ?m b)"
      using assms(1) False by (auto simp: tls_send_inv_def)
    then show ?thesis
      using assms True False c p w by (auto simp: tls_send_attempt_def tls_send_inv_def Let_def take_add)
  next
    case n: False
    then have "pout k = pout (kern s)" using write_nothing [OF c] by simp
    then show ?thesis
      using assms n False c p w by (auto simp: tls_send_attempt_def tls_send_inv_def Let_def split: if_splits)
  qed
qed

lemma tls_send_sound:
  assumes "tls_send_all api os idle a b s = Some (n, s1)"
  shows "pin (kern s1) = pin (kern s) \<and> ssl s1 \<noteq> None \<and>
    (\<exists>k\<le>length b. pout (kern s1) = pout (kern s) @ take k b \<and> (n = int k \<or> n < 0 \<and> k = 0))"
proof -
  let ?s0 = "tls_send_init a b True s" and ?wait = "\<lambda>s. wait_for os idle (tls_send_mask a s) s"
  have "tls_send_inv a b (pin (kern s)) (pout (kern s)) ?s0"
    using assms by (simp add: tls_send_inv_def tls_send_init_def tls_send_all_def split: if_splits)
  moreover obtain aw: "await_loop (tls_send_attempt api) (tls_send_register os) ?wait True a ?s0 = Some s1"
    and n: "n = tls_send_resume a s1"
    using assms by (auto simp: tls_send_all_def split: if_splits)
  have "tls_send_inv a b (pin (kern s)) (pout (kern s)) s1"
    using aw calculation
    by (rule await_invariant) (erule (1) tls_send_attempt_inv, simp_all add: tls_send_register_def tls_send_inv_def)
  then show ?thesis using n by (auto simp: tls_send_inv_def tls_send_resume_def Let_def)
qed

end

text \<open>A TLS socket is a socket in the sense of the protocol code.\<close>

sublocale ssl_session \<subseteq> ts: stream_sock "tls_recv api os idle a False" "tls_send_all api os idle a'" "\<lambda>s. pin (kern s)" "\<lambda>s. pout (kern s)" for a a'
proof
  fix len s n d s1
  assume r: "tls_recv api os idle a False len s = Some (n, d, s1)"
  show "0 < n \<Longrightarrow> int (length d) = n \<and> length d \<le> len \<and> pin (kern s) = d @ pin (kern s1)"
    and "n \<le> 0 \<Longrightarrow> pin (kern s1) = pin (kern s)" and "pout (kern s1) = pout (kern s)"
    using tls_recv_sound [OF r] by auto
next
  fix b s n s1
  assume r: "tls_send_all api os idle a' b s = Some (n, s1)"
  show "\<exists>k\<le>length b. pout (kern s1) = pout (kern s) @ take k b \<and> (n = int k \<or> n < 0 \<and> k = 0)"
    and "pin (kern s1) = pin (kern s)"
    using tls_send_sound [OF r] by auto
qed

context ssl_session
begin

lemmas tls_is_stream = ts.stream_sock_axioms

end

text \<open>
  A session without failures: when a call would block it says on what, \<open>lag\<close> counts the waits still ahead, and a wait that was asked for shortens it;
  accepting data may cost one more.
\<close>

locale live_session = ssl_session api os idle pin pout
  for api :: "'k ssl_api" and os :: "'k os" and idle :: "32 word \<Rightarrow> 'k \<Rightarrow> 'k" and pin pout :: "'k \<Rightarrow> bytes" +
  fixes lag :: "'k \<Rightarrow> nat" and blocked :: "32 word \<Rightarrow> 'k \<Rightarrow> bool"
  assumes read_live: "api_read api (Some p) len k = ((rc, e, er, d), k1) \<Longrightarrow> 0 < len \<Longrightarrow>
      0 < rc \<or> rc = 0 \<and> pin k = [] \<or> rc < 0 \<and> want e \<and> lag k1 \<le> lag k \<and> blocked (want_mask e) k1"
    and write_live: "api_write api (Some p) b len k = ((rc, e, er), k1) \<Longrightarrow> 0 < len \<Longrightarrow> len \<le> int (length b) \<Longrightarrow>
      0 < rc \<and> lag k1 \<le> lag k + 1 \<or> rc < 0 \<and> want e \<and> lag k1 \<le> lag k \<and> blocked (want_mask e) k1"
    and ctl_lag: "lag (snd (os_ctl os oper fd ev k)) \<le> lag k"
    and ctl_blocked: "blocked m k \<Longrightarrow> blocked m (snd (os_ctl os oper fd ev k))"
    and idle_lag: "blocked m k \<Longrightarrow> lag (idle m k) < lag k"
begin

lemma wait_lag:
  assumes "blocked m (kern s)"
  shows "lag (kern (wait_for os idle m (add_waiter_custom (os_ctl os) fd m' w s))) < lag (kern s)"
proof -
  let ?t = "add_waiter_custom (os_ctl os) fd m' w s"
  have "blocked m (kern ?t) \<and> lag (kern ?t) \<le> lag (kern s)"
    unfolding add_waiter_custom_def register_waiter_def Let_def
    by (rule update_kern_pred [where P = "\<lambda>k. blocked m k \<and> lag k \<le> lag (kern s)"]) (auto simp: assms intro: ctl_blocked order_trans [OF ctl_lag])
  then have i: "lag (idle m (kern ?t)) < lag (kern s)" using idle_lag [of m "kern ?t"] by simp
  show ?thesis
    using i by (auto simp: wait_for_def handle_event_def take_ready_def split: option.splits
        intro!: update_kern_pred [where P = "\<lambda>k. lag k < lag (kern s)"] intro: le_less_trans [OF ctl_lag])
qed

lemma tls_recv_ready:
  assumes I: "tls_recv_inv a len bi bo s" "recvd (trw s a) = 0" "rv_err (trw s a) = 0" "\<not> rv_full (trw s a)" and len: "0 < len" "len < 2 ^ 31"
    and att: "tls_recv_attempt api a s = (r, s1)"
  shows "r = 0 \<and> (0 < recvd (trw s1 a) \<or> bi = [] \<and> recvd (trw s1 a) = 0 \<and> rv_err (trw s1 a) = 0) \<or>
    r < 0 \<and> recvd (trw s1 a) = 0 \<and> rv_err (trw s1 a) = 0 \<and> \<not> rv_full (trw s1 a) \<and> lag (kern s1) \<le> lag (kern s) \<and>
      blocked (tls_recv_mask a s1) (kern s1)"
proof -
  obtain p where p: "ssl s = Some p" using I(1) by (auto simp: tls_recv_inv_def)
  obtain rc e er d k where c: "api_read api (Some p) (int len) (kern s) = ((rc, e, er, d), k)" by (metis prod_cases4 surj_pair)
  have "rv_len (trw s a) = len" using I(1) by (simp add: tls_recv_inv_def)
  then have att': "tls_recv_attempt api a s = (r, s1) \<longleftrightarrow> (let s1' = s\<lparr>kern := k, sk_errno := er\<rparr>; aw = trw s a in
      (if rc > 0 then (0, s1'\<lparr>trw := (trw s1')(a := aw\<lparr>recvd := nat rc, rv_buf := buf_write 0 (take (nat rc) d) (rv_buf aw)\<rparr>)\<rparr>)
       else if rc = 0 then (0, s1'\<lparr>tls_rx_eof := True\<rparr>)
       else if want e then (- 1, s1'\<lparr>trw := (trw s1')(a := aw\<lparr>rv_mask := want_mask e\<rparr>)\<rparr>)
       else if e = SSL_ERROR_ZERO_RETURN then (0, s1'\<lparr>tls_rx_eof := True\<rparr>)
       else (0, s1'\<lparr>trw := (trw s1')(a := aw\<lparr>rv_err := translate_failure e er\<rparr>)\<rparr>)) = (r, s1))"
    using I len c p by (simp add: tls_recv_attempt_def cast_int_small Let_def)
  have bi: "bi = pin (kern s)" using I(1,2) by (simp add: tls_recv_inv_def)
  show ?thesis
    using read_live [OF c] len(1) att I(2-4) bi want_mask_nonzero [of e] unfolding att' Let_def
    by (auto simp: tls_recv_mask_def split: if_splits)
qed

lemma tls_recv_completes:
  assumes "ssl s \<noteq> None" and len: "0 < len" "len < 2 ^ 31"
  shows "\<exists>n d s1. tls_recv api os idle a False len s = Some (n, d, s1) \<and> (if pin (kern s) = [] then n = 0 else 0 < n)"
proof -
  let ?bi = "pin (kern s)" and ?bo = "pout (kern s)" and ?s0 = "tls_recv_init a (replicate len 0) len False s"
  let ?I = "\<lambda>s0. tls_recv_inv a len ?bi ?bo s0 \<and> recvd (trw s0 a) = 0 \<and> rv_err (trw s0 a) = 0 \<and> \<not> rv_full (trw s0 a)"
  let ?Q = "\<lambda>s1. tls_recv_inv a len ?bi ?bo s1 \<and> (0 < recvd (trw s1 a) \<or> ?bi = [] \<and> recvd (trw s1 a) = 0 \<and> rv_err (trw s1 a) = 0)"
  have "\<exists>s1. await_loop (tls_recv_attempt api) (tls_recv_register os) (\<lambda>s. wait_for os idle (tls_recv_mask a s) s) True a ?s0 = Some (drain_done a s1) \<and> ?Q s1"
  proof (rule await_progresses [where I = ?I and todo = "\<lambda>s. lag (kern s)"])
    show "?I ?s0" using assms(1) by (simp add: tls_recv_inv_def tls_recv_init_def)
    fix first s1 r and s0 :: "('k, 'z) tls_scheme"
    assume I: "?I s0" and att: "tls_recv_attempt api a s0 = (r, s1)"
    have inv: "tls_recv_inv a len ?bi ?bo s1" using tls_recv_attempt_inv I att by blast
    let ?t = "tls_recv_register os a first (s1\<lparr>func := (func s1)(a := Code Drive_cb)\<rparr>)"
    let ?s2 = "wait_for os idle (tls_recv_mask a ?t) ?t"
    have m: "tls_recv_mask a ?t = tls_recv_mask a s1" by (simp add: tls_recv_mask_def tls_recv_register_def)
    have s2: "trw ?s2 = trw s1" "pin (kern ?s2) = pin (kern s1)" "pout (kern ?s2) = pout (kern s1)" "ssl ?s2 = ssl s1"
      by (simp_all add: tls_recv_register_def)
    then have inv2: "tls_recv_inv a len ?bi ?bo ?s2" using inv by (simp add: tls_recv_inv_def)
    have "lag (kern ?s2) < lag (kern s1)" if "blocked (tls_recv_mask a s1) (kern s1)"
      unfolding m using wait_lag [of "tls_recv_mask a s1" "s1\<lparr>func := (func s1)(a := Code Drive_cb)\<rparr>"] that
      by (simp add: tls_recv_register_def)
    then show "r = 0 \<and> ?Q s1 \<or> 0 < r \<and> ?I s1 \<and> lag (kern s1) < lag (kern s0) \<or> r < 0 \<and> (let s2 = ?s2 in ?I s2 \<and> lag (kern s2) < lag (kern s0))"
      using tls_recv_ready [OF _ _ _ _ len att] I inv inv2 unfolding s2(1) Let_def by (meson order_less_le_trans)
  qed (simp add: tls_recv_register_def)
  then obtain s1 where aw: "await_loop (tls_recv_attempt api) (tls_recv_register os) (\<lambda>s. wait_for os idle (tls_recv_mask a s) s) True a ?s0 =
      Some (drain_done a s1)" and Q: "?Q s1" by blast
  have "if ?bi = [] then tls_recv_resume a (drain_done a s1) = 0 else 0 < tls_recv_resume a (drain_done a s1)"
    using Q by (auto simp: tls_recv_resume_def tls_recv_inv_def Let_def)
  then show ?thesis using assms(1) aw by (simp add: tls_recv_def)
qed

lemma tls_send_progress:
  assumes I: "tls_send_inv a b bi bo s" "ts_err (tsw s a) = 0" and b: "length b < 2 ^ 31" and att: "tls_send_attempt api a s = (r, s1)"
  shows "ts_err (tsw s1 a) = 0 \<and>
    (r = 0 \<and> ts_sent (tsw s1 a) = length b \<or> 0 < r \<and> ts_sent (tsw s a) < ts_sent (tsw s1 a) \<and> lag (kern s1) \<le> lag (kern s) + 1 \<or>
     r < 0 \<and> ts_sent (tsw s1 a) = ts_sent (tsw s a) \<and> lag (kern s1) \<le> lag (kern s) \<and> blocked (tls_send_mask a s1) (kern s1))"
proof (cases "ts_sent (tsw s a) < length b")
  case False
  then show ?thesis using I att by (auto simp: tls_send_attempt_def tls_send_inv_def)
next
  case True
  let ?m = "ts_sent (tsw s a)"
  obtain p where p: "ssl s = Some p" using I(1) by (auto simp: tls_send_inv_def)
  obtain rc e er k where c: "api_write api (Some p) (drop ?m b) (int (length b - ?m)) (kern s) = ((rc, e, er), k)" by (metis prod_cases3 surj_pair)
  have inv: "ts_full (tsw s a)" "ts_buf (tsw s a) = b" "ts_len (tsw s a) = length b" using I(1) by (simp_all add: tls_send_inv_def)
  have att': "tls_send_attempt api a s = (r, s1) \<longleftrightarrow> (let s1' = s\<lparr>kern := k, sk_errno := er\<rparr>; aw = tsw s a in
      (if rc > 0 then (if ?m + nat rc = length b then 0 else 1, s1'\<lparr>tsw := (tsw s1')(a := aw\<lparr>ts_sent := ?m + nat rc\<rparr>)\<rparr>)
       else if rc = 0 then (0, s1'\<lparr>tls_tx_shutdown := True\<rparr>)
       else if want e then (- 1, s1'\<lparr>tsw := (tsw s1')(a := aw\<lparr>ts_mask := want_mask e\<rparr>)\<rparr>)
       else if e = SSL_ERROR_ZERO_RETURN then (0, s1'\<lparr>tls_tx_shutdown := True\<rparr>)
       else (0, s1'\<lparr>tsw := (tsw s1')(a := aw\<lparr>ts_err := translate_failure e er\<rparr>)\<rparr>)) = (r, s1))"
    using inv True b c p by (simp add: tls_send_attempt_def cast_int_small Let_def)
  show ?thesis
    using write_live [OF c] True att I(2) want_mask_nonzero [of e] unfolding att' Let_def
    by (auto simp: tls_send_mask_def split: if_splits)
qed

lemma tls_send_completes:
  assumes "ssl s \<noteq> None" and b: "length b < 2 ^ 31"
  shows "\<exists>s1. tls_send_all api os idle a b s = Some (int (length b), s1)"
proof -
  let ?bi = "pin (kern s)" and ?bo = "pout (kern s)" and ?s0 = "tls_send_init a b True s"
  let ?I = "\<lambda>s0. tls_send_inv a b ?bi ?bo s0 \<and> ts_err (tsw s0 a) = 0"
  let ?Q = "\<lambda>s1. ts_sent (tsw s1 a) = length b \<and> ts_err (tsw s1 a) = 0"
  let ?todo = "\<lambda>s. 2 * (length b - ts_sent (tsw s a)) + lag (kern s)"
  have "\<exists>s1. await_loop (tls_send_attempt api) (tls_send_register os) (\<lambda>s. wait_for os idle (tls_send_mask a s) s) True a ?s0 = Some (drain_done a s1) \<and> ?Q s1"
  proof (rule await_progresses [where I = ?I and todo = ?todo])
    show "?I ?s0" using assms(1) by (simp add: tls_send_inv_def tls_send_init_def)
    fix first s1 r and s0 :: "('k, 'z) tls_scheme"
    assume I: "?I s0" and att: "tls_send_attempt api a s0 = (r, s1)"
    have inv: "tls_send_inv a b ?bi ?bo s1" using tls_send_attempt_inv I att by blast
    then have le: "ts_sent (tsw s1 a) \<le> length b" by (simp add: tls_send_inv_def)
    let ?t = "tls_send_register os a first (s1\<lparr>func := (func s1)(a := Code Drive_cb)\<rparr>)"
    let ?s2 = "wait_for os idle (tls_send_mask a ?t) ?t"
    have m: "tls_send_mask a ?t = tls_send_mask a s1" by (simp add: tls_send_mask_def tls_send_register_def)
    have s2: "tsw ?s2 = tsw s1" "pin (kern ?s2) = pin (kern s1)" "pout (kern ?s2) = pout (kern s1)" "ssl ?s2 = ssl s1"
      by (simp_all add: tls_send_register_def)
    then have inv2: "tls_send_inv a b ?bi ?bo ?s2" using inv by (simp add: tls_send_inv_def)
    have w: "lag (kern ?s2) < lag (kern s1)" if "blocked (tls_send_mask a s1) (kern s1)"
      unfolding m using wait_lag [of "tls_send_mask a s1" "s1\<lparr>func := (func s1)(a := Code Drive_cb)\<rparr>"] that
      by (simp add: tls_send_register_def)
    from tls_send_progress [OF _ _ b att] I
    consider "r = 0" "?Q s1" | "0 < r" "ts_err (tsw s1 a) = 0" "?todo s1 < ?todo s0"
      | "r < 0" "ts_err (tsw s1 a) = 0" "ts_sent (tsw s1 a) = ts_sent (tsw s0 a)" "lag (kern s1) \<le> lag (kern s0)" "blocked (tls_send_mask a s1) (kern s1)"
      using le by fastforce
    then show "r = 0 \<and> ?Q s1 \<or> 0 < r \<and> ?I s1 \<and> ?todo s1 < ?todo s0 \<or> r < 0 \<and> (let s2 = ?s2 in ?I s2 \<and> ?todo s2 < ?todo s0)"
    proof cases
      case 3
      then have "?todo ?s2 < ?todo s0" using w unfolding s2(1) by simp
      then show ?thesis using 3(1,2) inv2 unfolding s2(1) Let_def by simp
    qed (use inv in auto)
  qed (simp add: tls_send_register_def)
  then obtain s1 where "await_loop (tls_send_attempt api) (tls_send_register os) (\<lambda>s. wait_for os idle (tls_send_mask a s) s) True a ?s0 =
      Some (drain_done a s1)" "?Q s1" by blast
  moreover from this(2) have "tls_send_resume a (drain_done a s1) = int (length b)" by (simp add: tls_send_resume_def Let_def)
  ultimately show ?thesis using assms(1) by (simp add: tls_send_all_def)
qed

end

section \<open>The handshake and closing\<close>

text \<open>
  A run of \<open>drive\<close> on a pending handshake either resumes the coroutine once, with 0 when the session is established and the translated
  error otherwise, or registers the awaiter for the event OpenSSL waits for.
\<close>

lemma handshake_resumes_or_waits:
  assumes "\<not> handshake_done s" and "h_of s a = Some c" and "api_handshake api (ssl s) (kern s) = ((rc, e, er), k)" and "hs_result s a = 0"
  shows "let s' = handshake_drive api os a s in
    if rc = 1 then io_trace s' = io_trace s @ [Resumed a c] \<and> handshake_await_resume a s' = 0
    else if want e
    then s' = add_waiter_custom (os_ctl os) (sk_fd s) (want_mask e) a (s\<lparr>kern := k, sk_errno := er, func := (func s)(a := Code Tls_handshake_cb)\<rparr>)
    else io_trace s' = io_trace s @ [Resumed a c] \<and> (0 < e \<and> 0 \<le> er \<longrightarrow> handshake_await_resume a s' = translate_failure e er \<and> translate_failure e er < 0)"
  using assms
  by (auto simp: handshake_drive_def resume_h_def resume_coroutine_def handshake_await_resume_def translate_failure_def
      SSL_ERROR_SYSCALL_def SSL_ERROR_SSL_def SSL_ERROR_ZERO_RETURN_def EIO_def ECONNRESET_def Let_def)

text \<open>
  \<open>close\<close> frees \<open>_ssl\<close> before it wakes the operations that wait for the socket: their next attempt calls \<open>SSL_read\<close> or \<open>SSL_write\<close> with a null
  pointer.
\<close>

lemma tls_close_reads_null:
  assumes "recvd (trw s a) < rv_len (trw s a)" and "ts_sent (tsw s a') < ts_len (tsw s a')"
  shows "kern (snd (tls_recv_attempt api a (reset_ssl api s))) =
      snd (api_read api None (cast_int (rv_len (trw s a) - recvd (trw s a))) (kern (reset_ssl api s)))"
    and "kern (snd (tls_send_attempt api a' (reset_ssl api s))) =
      snd (api_write api None (drop (ts_sent (tsw s a')) (ts_buf (tsw s a'))) (cast_int (ts_len (tsw s a') - ts_sent (tsw s a'))) (kern (reset_ssl api s)))"
  using assms by (auto simp: tls_recv_attempt_def tls_send_attempt_def reset_ssl_def Let_def split: prod.splits)

text \<open>A transfer of 2 GiB is passed to OpenSSL with a negative length.\<close>

lemma tls_large_length: "cast_int (2 ^ 31) = - (2 ^ 31)"
  by (simp add: cast_int_signed)

section \<open>A concrete session\<close>

text \<open>Plain text that arrives in segments with pauses and is accepted two bytes at a time.\<close>

definition seg_ssl :: "seg_kernel ssl_api" where
  "seg_ssl =
     \<lparr>api_new = (\<lambda>k. (Some 1, k)), api_set_fd = (\<lambda>p fd k. (1, k)), api_set_bio = (\<lambda>p fd k. (True, k)), api_set_state = (\<lambda>p m k. k),
      api_cookie_exchange = (\<lambda>p k. k), api_handshake = (\<lambda>p k. ((1, 0, 0), k)),
      api_read = (\<lambda>p len k. if len \<le> 0 then ((- 1, SSL_ERROR_SSL, 0, []), k)
                             else case seg_take (nat len) (inq k) of ((n, e, d), q) \<Rightarrow>
                               ((n, if n < 0 then SSL_ERROR_WANT_READ else 0, 0, d), k\<lparr>inq := q\<rparr>)),
      api_write = (\<lambda>p b len k. if len \<le> 0 then ((- 1, SSL_ERROR_SSL, 0), k)
                               else if busy k then ((- 1, SSL_ERROR_WANT_WRITE, 0), k)
                               else let n = min 2 (min (nat len) (length b))
                                    in ((int n, 0, 0), k\<lparr>outq := outq k @ take n b, busy := True\<rparr>)),
      api_shutdown = (\<lambda>p k. k)\<rparr>"

definition seg_lag :: "seg_kernel \<Rightarrow> nat" where
  "seg_lag k = length (filter (\<lambda>x. x = None) (inq k)) + (if busy k then 1 else 0)"

definition seg_blocked :: "32 word \<Rightarrow> seg_kernel \<Rightarrow> bool" where
  "seg_blocked m k \<longleftrightarrow> m = EPOLLIN \<and> (\<exists>q. inq k = None # q) \<or> m = EPOLLOUT \<and> busy k"

lemma seg_lag_idle: "seg_blocked m k \<Longrightarrow> seg_lag (seg_idle m k) < seg_lag k"
proof -
  have "length (filter (\<lambda>x. x = None) (dropWhile (\<lambda>x. x = None) q)) \<le> length (filter (\<lambda>x. x = None) q)" for q :: "(8 word \<times> bytes) option list"
    by (induction q) auto
  moreover assume "seg_blocked m k"
  ultimately show ?thesis
    by (auto simp: seg_blocked_def seg_lag_def seg_idle_def EPOLLIN_def EPOLLOUT_def less_Suc_eq_le)
qed

lemma want_simps:
  "want SSL_ERROR_WANT_READ" "want SSL_ERROR_WANT_WRITE" "want_mask SSL_ERROR_WANT_READ = EPOLLIN" "want_mask SSL_ERROR_WANT_WRITE = EPOLLOUT"
  by (simp_all add: want_def want_mask_def SSL_ERROR_WANT_READ_def SSL_ERROR_WANT_WRITE_def)

interpretation seg_tls: live_session seg_ssl seg_os seg_idle "\<lambda>k. seg_bytes (inq k)" outq seg_lag seg_blocked
proof
  show "seg_blocked m k \<Longrightarrow> seg_lag (seg_idle m k) < seg_lag k" for m k by (rule seg_lag_idle)
  show "seg_bytes (inq (seg_idle flags k)) = seg_bytes (inq k)" "outq (seg_idle flags k) = outq k" for flags k
    by (simp_all add: seg.idle_bytes)
  fix p len k rc e er d k1
  assume "api_read seg_ssl (Some p) len k = ((rc, e, er, d), k1)"
  then have c: "len \<le> 0 \<and> rc < 0 \<and> k1 = k \<or>
      0 < len \<and> (\<exists>e'. seg_take (nat len) (inq k) = ((rc, e', d), inq k1)) \<and> outq k1 = outq k \<and> busy k1 = busy k \<and> (rc < 0 \<longrightarrow> e = SSL_ERROR_WANT_READ)"
    by (auto simp: seg_ssl_def split: prod.splits if_splits)
  have s: "seg_bytes (inq k) = d @ seg_bytes (inq k1) \<and> length d \<le> nat len \<and> (0 \<le> rc \<longrightarrow> rc = int (length d)) \<and> (rc \<le> 0 \<longrightarrow> d = [])
    \<and> (0 < rc \<or> rc = 0 \<and> seg_bytes (inq k) = [] \<or> rc < 0 \<and> (\<exists>q2. inq k = None # q2))" if "0 < len"
    using c that seg_take_sound [of "nat len" "inq k" rc _ d "inq k1"] by auto
  show "0 < rc \<Longrightarrow> int (length d) = rc \<and> rc \<le> len \<and> seg_bytes (inq k) = d @ seg_bytes (inq k1)"
    and "rc \<le> 0 \<Longrightarrow> seg_bytes (inq k1) = seg_bytes (inq k)" and "outq k1 = outq k"
  proof -
    consider "len \<le> 0" "rc < 0" "k1 = k" | "0 < len" "outq k1 = outq k" using c by blast
    note cases = this
    show "0 < rc \<Longrightarrow> int (length d) = rc \<and> rc \<le> len \<and> seg_bytes (inq k) = d @ seg_bytes (inq k1)" using cases s by cases auto
    show "rc \<le> 0 \<Longrightarrow> seg_bytes (inq k1) = seg_bytes (inq k)" using cases s by cases auto
    show "outq k1 = outq k" using cases by cases auto
  qed
  have "inq k1 = inq k" if "rc < 0" "0 < len" using c that by (cases "inq k" rule: seg_bytes.cases) auto
  then show "0 < len \<Longrightarrow> 0 < rc \<or> rc = 0 \<and> seg_bytes (inq k) = [] \<or>
      rc < 0 \<and> want e \<and> seg_lag k1 \<le> seg_lag k \<and> seg_blocked (want_mask e) k1"
    using c s by (auto simp: want_simps seg_lag_def seg_blocked_def)
next
  fix p b len k rc e er k1
  assume "api_write seg_ssl (Some p) b len k = ((rc, e, er), k1)"
  then have c: "len \<le> 0 \<and> rc < 0 \<and> k1 = k \<or> 0 < len \<and> busy k \<and> rc < 0 \<and> e = SSL_ERROR_WANT_WRITE \<and> k1 = k \<or>
      0 < len \<and> \<not> busy k \<and> rc = int (min 2 (min (nat len) (length b))) \<and> k1 = k\<lparr>outq := outq k @ take (nat rc) b, busy := True\<rparr>"
    by (auto simp: seg_ssl_def Let_def split: if_splits)
  show "0 < rc \<Longrightarrow> rc \<le> len \<and> outq k1 = outq k @ take (nat rc) b" and "rc \<le> 0 \<Longrightarrow> outq k1 = outq k"
    and "seg_bytes (inq k1) = seg_bytes (inq k)"
    using c by auto
  show "0 < len \<Longrightarrow> len \<le> int (length b) \<Longrightarrow> 0 < rc \<and> seg_lag k1 \<le> seg_lag k + 1 \<or>
      rc < 0 \<and> want e \<and> seg_lag k1 \<le> seg_lag k \<and> seg_blocked (want_mask e) k1"
    using c by (auto simp: want_simps seg_lag_def seg_blocked_def)
qed (simp_all add: seg_os_def)

definition demo_tls :: "(8 word \<times> bytes) option list \<Rightarrow> seg_kernel tls" where
  "demo_tls q = sock.extend (demo_sock q)
     (tls.fields (Some 1) True False False True 32 33 (\<lambda>_. 0)
        (\<lambda>_. \<lparr>rv_full = False, rv_buf = [], rv_len = 0, recvd = 0, rv_err = 0, rv_mask = 0\<rparr>)
        (\<lambda>_. \<lparr>ts_full = False, ts_buf = [], ts_len = 0, ts_sent = 0, ts_err = 0, ts_mask = 0\<rparr>))"

lemma demo_tls_simps [simp]: "ssl (demo_tls q) = Some 1" "kern (demo_tls q) = \<lparr>inq = q, outq = [], busy = False\<rparr>"
  using demo_sock_kern [of q] by (simp_all add: demo_tls_def sock.defs tls.defs)

section \<open>Properties\<close>

text \<open>
  C28: Over every TLS session that behaves as documented, \<open>recv\<close> and \<open>recv_all\<close> give the next bytes of plain text, at most as many as asked for, and
  lose none; \<open>send_all\<close> hands a prefix of its argument to the session and returns its length, or a negative error when nothing was
  accepted.
\<close>

theorem tls_stream_in_order:
  assumes "ssl_session api os idle pin pout" and "tls_recv api os idle a f len s = Some (n, d, s1)" and "tls_send_all api os idle a' b s1 = Some (m, s2)"
  shows "pin (kern s) = d @ pin (kern s2) \<and> length d \<le> len \<and> (n = int (length d) \<or> n < 0 \<and> d = []) \<and>
    (\<exists>k\<le>length b. pout (kern s2) = pout (kern s) @ take k b \<and> (m = int k \<or> m < 0 \<and> k = 0))"
  using ssl_session.tls_recv_sound [OF assms(1,2)] ssl_session.tls_send_sound [OF assms(1,3)] by simp



theorem tls_stream_in_order_witness:
  "\<exists>n d s1 m s2. tls_recv seg_ssl seg_os seg_idle 40 False 4 (demo_tls [None, Some (1, [2])]) = Some (n, d, s1) \<and>
     tls_send_all seg_ssl seg_os seg_idle 41 [7, 8, 9] s1 = Some (m, s2) \<and> length d \<le> 4 \<and> [1, 2] = d @ seg_bytes (inq (kern s2))"
proof -
  obtain n d s1 where r: "tls_recv seg_ssl seg_os seg_idle 40 False 4 (demo_tls [None, Some (1, [2])]) = Some (n, d, s1)"
    using seg_tls.tls_recv_completes [of "demo_tls [None, Some (1, [2])]" 4 40] by auto
  have "ssl s1 \<noteq> None" using seg_tls.tls_recv_sound [OF r] by simp
  then obtain m s2 where w: "tls_send_all seg_ssl seg_os seg_idle 41 [7, 8, 9] s1 = Some (m, s2)"
    using seg_tls.tls_send_completes [of s1 "[7, 8, 9]" 41] by auto
  show ?thesis
    using tls_stream_in_order [OF seg_tls.ssl_session_axioms r w] r w by auto
qed

end
