(* ===== verification/Endpoints.thy ===== *)
theory Endpoints
  imports Stream_Socket Dns_Resolver
begin

text \<open>
  The addresses of the concrete sockets: \<^verbatim>\<open>net/tcp_socket.hpp\<close>, \<^verbatim>\<open>net/udp_socket.hpp\<close>, \<^verbatim>\<open>net/unix_socket.hpp\<close>, and the address part of
  \<open>bind_listen\<close> in \<^verbatim>\<open>net/tcp_listener.hpp\<close> and \<^verbatim>\<open>net/unix_listener.hpp\<close>.

  Socket addresses are byte strings in the layout of a little-endian Linux, as in \<open>Dns_Resolver\<close>. \<open>inet_pton\<close> is an argument: \<open>pton f t\<close> are
  the bytes of the address \<open>t\<close> of family \<open>f\<close>, \<open>None\<close> a result of 0 or less.
\<close>

section \<open>Internet addresses\<close>

type_synonym pton = "int \<Rightarrow> string \<Rightarrow> bytes option"

definition htons :: "16 word \<Rightarrow> bytes" where
  "htons port = [ucast (drop_bit 8 port), ucast port]"

definition sockaddr_in :: "16 word \<Rightarrow> bytes \<Rightarrow> bytes" where
  "sockaddr_in port a = [2, 0] @ htons port @ a @ replicate 8 0"

definition sockaddr_in6 :: "16 word \<Rightarrow> bytes \<Rightarrow> bytes" where
  "sockaddr_in6 port a = [10, 0] @ htons port @ replicate 4 0 @ a @ replicate 4 0"

definition ip_strip_brackets :: "string \<Rightarrow> string" where
  "ip_strip_brackets input =
     (if length input \<ge> 2 \<and> hd input = CHR ''['' \<and> last input = CHR '']'' then take (length input - 2) (drop 1 input) else input)"

definition ip_endpoint_build :: "pton \<Rightarrow> int \<Rightarrow> bool \<Rightarrow> string \<Rightarrow> 16 word \<Rightarrow> bytes option" where
  "ip_endpoint_build pton family dual_stack host port =
     (let node = ip_strip_brackets host; looks_ipv6 = (CHR '':'' \<in> set node)
      in if node = [] then None
         else if family = AF_INET
         then (if looks_ipv6 then None else map_option (sockaddr_in port) (pton AF_INET node))
         else if family = AF_INET6
         then (if looks_ipv6 then map_option (sockaddr_in6 port) (pton AF_INET6 node)
               else if \<not> dual_stack then None
               else map_option (\<lambda>a. sockaddr_in6 port (replicate 10 0 @ [0xFF, 0xFF] @ a)) (pton AF_INET node))
         else None)"

text \<open>\<open>raw_endpoint\<close>: \<open>connect\<close> copies the given address when its length fits, otherwise the length stays 0.\<close>

definition raw_endpoint_build :: "bytes \<Rightarrow> nat \<Rightarrow> bytes option" where
  "raw_endpoint_build address len = (if len = 0 \<or> len > sizeof_storage then None else Some (take len address))"

definition connect_raw :: "bytes option \<Rightarrow> nat \<Rightarrow> bytes option" where
  "connect_raw ad len =
     (case ad of
        Some b \<Rightarrow> if len > 0 \<and> len \<le> sizeof_storage then raw_endpoint_build (copy_front (take len b) (replicate sizeof_storage 0)) len
                  else raw_endpoint_build (replicate sizeof_storage 0) 0
      | None \<Rightarrow> raw_endpoint_build (replicate sizeof_storage 0) 0)"

definition ipv4_endpoint_build :: "pton \<Rightarrow> string \<Rightarrow> 16 word \<Rightarrow> bytes option" where
  "ipv4_endpoint_build pton host port = map_option (sockaddr_in port) (pton AF_INET host)"

section \<open>The TCP socket\<close>

record 'k tcp = "'k sock" +
  dual_stack :: bool

definition query_dual_stack_flag :: "(fd \<Rightarrow> 'k \<Rightarrow> int option) \<Rightarrow> ('k, 'b) tcp_scheme \<Rightarrow> bool" where
  "query_dual_stack_flag get_v6only s =
     (if sk_family s \<noteq> AF_INET6 then False
      else case get_v6only (sk_fd s) (kern s) of None \<Rightarrow> False | Some v6only \<Rightarrow> v6only = 0)"

definition tcp_socket_create ::
  "'k os \<Rightarrow> (fd \<Rightarrow> int \<Rightarrow> 'k \<Rightarrow> 'k) \<Rightarrow> int \<Rightarrow> bool \<Rightarrow> ('k, 'b) tcp_scheme \<Rightarrow> socket_error + ('k, 'b) tcp_scheme" where
  "tcp_socket_create os set_v6only fam enable_dual_stack s =
     (case socket_core_create os fam 1 0 s of
        Inl e \<Rightarrow> Inl e
      | Inr s1 \<Rightarrow>
          let s2 = s1\<lparr>dual_stack := (if fam = AF_INET6 then enable_dual_stack else False)\<rparr>
          in Inr (if fam = AF_INET6 then s2\<lparr>kern := set_v6only (sk_fd s2) (if dual_stack s2 then 0 else 1) (kern s2)\<rparr> else s2))"

definition tcp_socket_adopt ::
  "'k os \<Rightarrow> (fd \<Rightarrow> 'k \<Rightarrow> int option) \<Rightarrow> fd \<Rightarrow> ('k, 'b) tcp_scheme \<Rightarrow> socket_error + ('k, 'b) tcp_scheme" where
  "tcp_socket_adopt os get_v6only fd s =
     (case socket_core_adopt os fd (s\<lparr>dual_stack := False\<rparr>) of
        Inl e \<Rightarrow> Inl e
      | Inr s1 \<Rightarrow> Inr (if sk_family s1 = AF_INET6 then s1\<lparr>dual_stack := query_dual_stack_flag get_v6only s1\<rparr> else s1))"

definition tcp_connect ::
  "'k os \<Rightarrow> (addr \<Rightarrow> ('k, 'b) tcp_scheme \<Rightarrow> ('k, 'b) tcp_scheme) \<Rightarrow> int \<Rightarrow> pton \<Rightarrow> string \<Rightarrow> 16 word \<Rightarrow> addr \<Rightarrow> addr \<Rightarrow>
   ('k, 'b) tcp_scheme \<Rightarrow> ('k, 'b) tcp_scheme" where
  "tcp_connect os pst now pton host port a h s =
     connect_suspend os pst now (ip_endpoint_build pton (sk_family s) (dual_stack s) host port) a h s"

section \<open>Unix addresses\<close>

definition sizeof_sun_path :: nat where "sizeof_sun_path = 108"
definition ENAMETOOLONG :: int where "ENAMETOOLONG = 36"

definition to_bytes :: "string \<Rightarrow> bytes" where
  "to_bytes t = map of_char t"

definition strlen :: "bytes \<Rightarrow> nat" where
  "strlen b = length (takeWhile (\<lambda>x. x \<noteq> 0) b)"

definition address_length :: "bytes \<Rightarrow> nat" where
  "address_length sun_path = (if sun_path ! 0 = 0 then 2 + strlen (drop 1 sun_path) + 1 else 2 + strlen sun_path + 1)"

definition uds_endpoint_build :: "string \<Rightarrow> int + bytes" where
  "uds_endpoint_build path =
     (let p = to_bytes path
      in if path \<noteq> [] \<and> hd path = CHR ''@''
         then (if length p \<le> 1 \<or> length p - 1 \<ge> sizeof_sun_path then Inl ENAMETOOLONG else Inr ([1, 0] @ [0] @ drop 1 p))
         else if length p \<ge> sizeof_sun_path then Inl ENAMETOOLONG
         else Inr ([1, 0] @ takeWhile (\<lambda>x. x \<noteq> 0) p @ [0]))"

section \<open>The addresses of listeners\<close>

datatype listen_error = Listener_socket_failed | Inet_pton_failed | Bind_failed | Listen_failed | Already_bound | Path_too_long

definition tcp_listen_addr :: "pton \<Rightarrow> int \<Rightarrow> string \<Rightarrow> 16 word \<Rightarrow> listen_error + bytes" where
  "tcp_listen_addr pton family host port =
     (if family = AF_INET6
      then let view = (if host \<noteq> [] \<and> hd host = CHR ''['' \<and> last host = CHR '']'' then take (length host - 2) (drop 1 host) else host)
           in if view = [] \<or> view = ''::'' \<or> view = ''*'' then Inr (sockaddr_in6 port (replicate 16 0))
              else (case pton AF_INET6 view of None \<Rightarrow> Inl Inet_pton_failed | Some a \<Rightarrow> Inr (sockaddr_in6 port a))
      else if host = [] \<or> host = ''0.0.0.0'' \<or> host = ''*'' then Inr (sockaddr_in port (replicate 4 0))
      else (case pton AF_INET host of None \<Rightarrow> Inl Inet_pton_failed | Some a \<Rightarrow> Inr (sockaddr_in port a)))"

text \<open>The address, and whether it is in the abstract name space.\<close>

definition unix_listen_addr :: "string \<Rightarrow> listen_error + bool \<times> bytes" where
  "unix_listen_addr path =
     (let p = to_bytes path; abstract = (path \<noteq> [] \<and> hd path = CHR ''@'')
      in if abstract
         then (if length p \<le> 1 \<or> length p - 1 \<ge> sizeof_sun_path then Inl Path_too_long else Inr (True, [1, 0] @ [0] @ drop 1 p))
         else if length p \<ge> sizeof_sun_path then Inl Path_too_long
         else Inr (False, [1, 0] @ takeWhile (\<lambda>x. x \<noteq> 0) p @ [0]))"

section \<open>Reading addresses back\<close>

text \<open>What the kernel finds in an address: family, port and host, or the path.\<close>

definition addr_family :: "bytes \<Rightarrow> nat" where
  "addr_family a = unat (a ! 0) + 256 * unat (a ! 1)"

definition addr_port :: "bytes \<Rightarrow> nat" where
  "addr_port a = 256 * unat (a ! 2) + unat (a ! 3)"

definition addr_host :: "bytes \<Rightarrow> bytes" where
  "addr_host a = (if addr_family a = 10 then take 16 (drop 8 a) else take 4 (drop 4 a))"

definition uds_name :: "bytes \<Rightarrow> string" where
  "uds_name a = (if length a > 3 \<and> a ! 2 = 0 then ''@'' @ map (\<lambda>x. char_of (unat x)) (drop 3 a) else map (\<lambda>x. char_of (unat x)) (takeWhile (\<lambda>x. x \<noteq> 0) (drop 2 a)))"

lemma htons_port: "256 * unat (htons port ! 0) + unat (htons port ! 1) = unat port"
proof -
  have "unat port < 65536" using unsigned_less [of port] by simp
  then have "unat (ucast (drop_bit 8 port) :: 8 word) = unat port div 256"
    by (simp add: unsigned_ucast_eq unat_drop_bit_eq drop_bit_eq_div take_bit_eq_mod unat_div)
  moreover have "unat (ucast port :: 8 word) = unat port mod 256" by (simp add: unsigned_ucast_eq take_bit_eq_mod)
  ultimately show ?thesis by (simp add: htons_def)
qed

lemma htons_length [simp]: "length (htons port) = 2"
  by (simp add: htons_def)

lemma sockaddr_in_fields:
  assumes "length a = 4"
  shows "addr_family (sockaddr_in port a) = 2 \<and> addr_port (sockaddr_in port a) = unat port \<and> addr_host (sockaddr_in port a) = a \<and>
    length (sockaddr_in port a) = 16"
  using assms htons_port [of port] by (simp add: sockaddr_in_def addr_family_def addr_port_def addr_host_def htons_def)

lemma sockaddr_in6_fields:
  assumes "length a = 16"
  shows "addr_family (sockaddr_in6 port a) = 10 \<and> addr_port (sockaddr_in6 port a) = unat port \<and> addr_host (sockaddr_in6 port a) = a \<and>
    length (sockaddr_in6 port a) = 28"
  using assms htons_port [of port] by (simp add: sockaddr_in6_def addr_family_def addr_port_def addr_host_def htons_def)

text \<open>The address that an IPv6 socket with dual stack builds for an IPv4 host is the one the resolver would give.\<close>

lemma endpoint_mapped_as_resolver:
  "length a = 4 \<Longrightarrow> sockaddr_in6 port (replicate 10 0 @ [0xFF, 0xFF] @ a) = populate_ipv4_mapped (sockaddr_in port a)"
  by (simp add: sockaddr_in6_def populate_ipv4_mapped_def sockaddr_in_def htons_def)

lemma strip_brackets_same: "ip_strip_brackets h = strip_brackets h"
  by (simp add: ip_strip_brackets_def strip_brackets_def)

text \<open>The listener checks the brackets without the length; a single character cannot be both.\<close>

lemma listen_strip:
  "(if h \<noteq> [] \<and> hd h = CHR ''['' \<and> last h = CHR '']'' then take (length h - 2) (drop 1 h) else h) = ip_strip_brackets h"
  by (cases h; cases "tl h") (auto simp: ip_strip_brackets_def)

lemma unat_of_char: "unat (of_char c :: 8 word) = of_char c"
proof -
  have "(of_char c :: 8 word) = word_of_nat (of_char c)" by (simp add: of_nat_of_char)
  then show ?thesis by (simp add: unsigned_of_nat take_bit_nat_eq_self)
qed

lemma of_char_byte [simp]: "char_of (unat (of_char c :: 8 word)) = c"
  by (simp add: unat_of_char)

lemma of_char_zero: "(of_char c :: 8 word) = 0 \<longleftrightarrow> c = CHR 0x00"
proof
  assume "(of_char c :: 8 word) = 0"
  then have "c = char_of (0 :: nat)" using of_char_byte [of c] by simp
  then show "c = CHR 0x00" by (simp add: char_of_def)
qed simp

text \<open>Paths without a NUL character.\<close>

lemma to_bytes_no_nul: "CHR 0x00 \<notin> set path \<Longrightarrow> takeWhile (\<lambda>x. x \<noteq> 0) (to_bytes path) = to_bytes path"
  by (auto simp: to_bytes_def takeWhile_eq_all_conv of_char_zero)

lemma to_bytes_back: "map (\<lambda>x. char_of (unat x)) (to_bytes path) = path"
  by (simp add: to_bytes_def map_idI)

lemma strlen_no_nul: "CHR 0x00 \<notin> set path \<Longrightarrow> strlen (to_bytes path @ 0 # r) = length path"
  by (induction path) (auto simp: strlen_def to_bytes_def of_char_zero)

section \<open>Properties\<close>

text \<open>
  C30: A TCP listener and a connecting socket of the same family agree on the address: for a host that is not a wildcard, the address
  \<open>bind_listen\<close> binds is the one \<open>connect\<close> builds from the same text and port, brackets included; it carries the family, the port in
  network byte order and the bytes of \<open>inet_pton\<close>.
\<close>

theorem tcp_connect_reaches_listener:
  assumes v4: "\<And>t a. pton AF_INET t = Some a \<Longrightarrow> length a = 4 \<and> t \<noteq> [] \<and> CHR '':'' \<notin> set t \<and> hd t \<noteq> CHR ''[''"
    and v6: "\<And>t a. pton AF_INET6 t = Some a \<Longrightarrow> length a = 16 \<and> CHR '':'' \<in> set t"
    and fam: "fam \<in> {AF_INET, AF_INET6}" and named: "ip_strip_brackets host \<notin> {[], ''0.0.0.0'', ''::'', ''*''}"
    and listen: "tcp_listen_addr pton fam host port = Inr a"
  shows "ip_endpoint_build pton fam dual host port = Some a \<and> addr_family a = nat fam \<and> addr_port a = unat port \<and>
    pton fam (ip_strip_brackets host) = Some (addr_host a)"
proof (cases "fam = AF_INET6")
  case True
  from listen named True obtain b where b: "pton AF_INET6 (ip_strip_brackets host) = Some b" "a = sockaddr_in6 port b"
    unfolding tcp_listen_addr_def listen_strip by (auto simp: Let_def split: if_splits option.splits)
  show ?thesis
    using b v6 [OF b(1)] sockaddr_in6_fields [of b port] named True by (simp add: ip_endpoint_build_def Let_def AF_INET_def AF_INET6_def)
next
  case False
  have s: "ip_strip_brackets ''0.0.0.0'' = ''0.0.0.0''" "ip_strip_brackets ''*'' = ''*''" "ip_strip_brackets [] = []"
    by (simp_all add: ip_strip_brackets_def)
  then have "host \<notin> {[], ''0.0.0.0'', ''*''}" using named by auto
  then obtain b where b: "pton AF_INET host = Some b" "a = sockaddr_in port b"
    using listen False by (auto simp: tcp_listen_addr_def split: if_splits option.splits)
  moreover have "ip_strip_brackets host = host" using v4 [OF b(1)] by (simp add: ip_strip_brackets_def)
  ultimately show ?thesis
    using v4 [OF b(1)] sockaddr_in_fields [of b port] fam False by (simp add: ip_endpoint_build_def Let_def AF_INET_def)
qed

text \<open>
  A Unix listener and a connecting socket build the same address from the same path, abstract or not; the kernel reads the path back from
  it, and \<open>address_length\<close> of its \<open>sun_path\<close> is its length. Both refuse a path exactly when it does not fit or is only \<open>@\<close>.
\<close>

theorem uds_address_roundtrip:
  assumes "CHR 0x00 \<notin> set path"
  shows "(case uds_endpoint_build path of
      Inl e \<Rightarrow> unix_listen_addr path = Inl Path_too_long \<and>
        (path = ''@'' \<or> length path \<ge> (if path \<noteq> [] \<and> hd path = CHR ''@'' then sizeof_sun_path + 1 else sizeof_sun_path))
    | Inr a \<Rightarrow> unix_listen_addr path = Inr (path \<noteq> [] \<and> hd path = CHR ''@'', a) \<and> uds_name a = path \<and>
        address_length (drop 2 a @ 0 # pad) = length a \<and> length a \<le> 2 + sizeof_sun_path)"
proof (cases "path \<noteq> [] \<and> hd path = CHR ''@''")
  case True
  then obtain rest where p: "path = CHR ''@'' # rest" by (cases path) auto
  then have nul: "CHR 0x00 \<notin> set rest" using assms by simp
  have d: "drop (Suc 0) (to_bytes path) = to_bytes rest" "length (to_bytes path) = Suc (length rest)" by (simp_all add: p to_bytes_def)
  show ?thesis
  proof (cases "rest = [] \<or> length rest \<ge> sizeof_sun_path")
    case True
    then show ?thesis using p d by (auto simp: uds_endpoint_build_def unix_listen_addr_def Let_def)
  next
    case False
    have "uds_endpoint_build path = Inr (1 # 0 # 0 # to_bytes rest)" "unix_listen_addr path = Inr (True, 1 # 0 # 0 # to_bytes rest)"
      using p d False by (simp_all add: uds_endpoint_build_def unix_listen_addr_def Let_def)
    moreover have "uds_name (1 # 0 # 0 # to_bytes rest) = path"
      using p False to_bytes_back [of rest] by (simp add: uds_name_def to_bytes_def)
    moreover have "address_length (0 # to_bytes rest @ 0 # pad) = 3 + length rest"
      using strlen_no_nul [OF nul, of pad] by (simp add: address_length_def)
    moreover have "length (to_bytes rest) = length rest" by (simp add: to_bytes_def)
    ultimately show ?thesis using p d False by (simp add: Suc_le_eq not_le)
  qed
next
  case False
  have l: "length (to_bytes path) = length path" by (simp add: to_bytes_def)
  have h: "to_bytes path = [] \<longleftrightarrow> path = []" by (simp add: to_bytes_def)
  have h0: "to_bytes path ! 0 \<noteq> 0" if "path \<noteq> []"
    using that assms by (cases path) (auto simp: to_bytes_def of_char_zero)
  show ?thesis
  proof (cases "length path \<ge> sizeof_sun_path")
    case True
    then show ?thesis using False l by (auto simp: uds_endpoint_build_def unix_listen_addr_def Let_def)
  next
    case fits: False
    have w: "takeWhile (\<lambda>x. x \<noteq> 0) (to_bytes path @ [0]) = to_bytes path"
      using to_bytes_no_nul [OF assms] by (simp add: takeWhile_append1 takeWhile_tail)
    have e: "uds_endpoint_build path = Inr (1 # 0 # to_bytes path @ [0])" "unix_listen_addr path = Inr (False, 1 # 0 # to_bytes path @ [0])"
      using False fits l to_bytes_no_nul [OF assms] by (auto simp: uds_endpoint_build_def unix_listen_addr_def Let_def)
    show ?thesis
    proof (cases "path = []")
      case True
      then show ?thesis using e by (simp add: uds_name_def address_length_def strlen_def to_bytes_def sizeof_sun_path_def)
    next
      case ne: False
      have n: "(to_bytes path @ [0]) ! 0 = to_bytes path ! 0" "(to_bytes path @ 0 # 0 # pad) ! 0 = to_bytes path ! 0"
        using ne h by (simp_all add: nth_append)
      have "uds_name (1 # 0 # to_bytes path @ [0]) = path" using n(1) h0 ne w to_bytes_back [of path] by (simp add: uds_name_def)
      moreover have "address_length (to_bytes path @ 0 # 0 # pad) = 3 + length path"
        using n(2) h0 ne strlen_no_nul [OF assms, of "0 # pad"] by (simp add: address_length_def)
      ultimately show ?thesis using e l False fits by simp
    qed
  qed
qed

section \<open>Examples\<close>

definition demo_pton :: pton where
  "demo_pton f t = (if f = AF_INET \<and> t = ''127.0.0.1'' then Some [127, 0, 0, 1]
     else if f = AF_INET6 \<and> t = ''::1'' then Some (replicate 15 0 @ [1]) else None)"

theorem tcp_connect_reaches_listener_witness:
  "ip_endpoint_build demo_pton AF_INET6 False ''[::1]'' 0x1F90 = Some (sockaddr_in6 0x1F90 (replicate 15 0 @ [1]))"
proof -
  have "tcp_listen_addr demo_pton AF_INET6 ''[::1]'' 0x1F90 = Inr (sockaddr_in6 0x1F90 (replicate 15 0 @ [1]))"
    by (simp add: tcp_listen_addr_def demo_pton_def AF_INET_def AF_INET6_def)
  moreover have "length a = 4 \<and> t \<noteq> [] \<and> CHR '':'' \<notin> set t \<and> hd t \<noteq> CHR ''[''" if "demo_pton AF_INET t = Some a" for t a
    using that by (auto simp: demo_pton_def AF_INET_def AF_INET6_def split: if_splits)
  moreover have "length a = 16 \<and> CHR '':'' \<in> set t" if "demo_pton AF_INET6 t = Some a" for t a
    using that by (auto simp: demo_pton_def AF_INET_def AF_INET6_def split: if_splits)
  moreover have "ip_strip_brackets ''[::1]'' \<notin> {[], ''0.0.0.0'', ''::'', ''*''}" by (simp add: ip_strip_brackets_def)
  ultimately show ?thesis using tcp_connect_reaches_listener [where pton = demo_pton and fam = AF_INET6 and host = "''[::1]''" and port = "0x1F90" and dual = False] by blast
qed

theorem uds_address_roundtrip_witness:
  "uds_endpoint_build ''@ab'' = Inr [1, 0, 0, 0x61, 0x62] \<and> unix_listen_addr ''@ab'' = Inr (True, [1, 0, 0, 0x61, 0x62]) \<and>
    uds_name [1, 0, 0, 0x61, 0x62] = ''@ab''"
proof -
  have e: "uds_endpoint_build ''@ab'' = Inr [1, 0, 0, 0x61, 0x62]"
    by (simp add: uds_endpoint_build_def to_bytes_def sizeof_sun_path_def)
  from uds_address_roundtrip [of "''@ab''" "[]"] show ?thesis unfolding e by simp
qed

end
