(* ===== verification/Listener.thy ===== *)
theory Listener
  imports Endpoints
begin

text \<open>
  Listeners: \<^verbatim>\<open>net/stream_listener_base.hpp\<close>, \<^verbatim>\<open>net/tcp_listener.hpp\<close>, \<^verbatim>\<open>net/unix_listener.hpp\<close>.

  The state of one listener extends that of its reactor; \<open>newfd\<close> holds the member of the accept awaiters. The system calls are the fields of
  \<open>los\<close>, functions of the kernel state.
\<close>

section \<open>Data\<close>

record 'k los =
  lo_ctl :: "'k epoll_ctl"
  lo_socket :: "int \<Rightarrow> 'k \<Rightarrow> fd \<times> 'k"
  lo_set_non_block :: "fd \<Rightarrow> 'k \<Rightarrow> 'k"
  lo_setsockopt :: "fd \<Rightarrow> string \<Rightarrow> int \<Rightarrow> 'k \<Rightarrow> 'k"
  lo_bind :: "fd \<Rightarrow> bytes \<Rightarrow> 'k \<Rightarrow> int \<times> 'k"
  lo_listen :: "fd \<Rightarrow> int \<Rightarrow> 'k \<Rightarrow> int \<times> 'k"
  lo_accept :: "fd \<Rightarrow> 'k \<Rightarrow> (fd \<times> int) \<times> 'k"
  lo_close :: "fd \<Rightarrow> 'k \<Rightarrow> 'k"
  lo_unlink :: "string \<Rightarrow> 'k \<Rightarrow> 'k"
  lo_chmod :: "string \<Rightarrow> nat \<Rightarrow> 'k \<Rightarrow> 'k"

record 'k lst = "'k epr" +
  lst_fd :: fd
  lst_family :: int
  newfd :: "addr \<Rightarrow> int"
  lst_path :: string
  lst_abstract :: bool
  lst_bound :: bool

definition accept_fatal :: int where "accept_fatal = - 2"
definition AF_UNIX :: int where "AF_UNIX = 1"

type_synonym ('k, 'b) lst_post = "addr \<Rightarrow> ('k, 'b) lst_scheme \<Rightarrow> ('k, 'b) lst_scheme"

section \<open>Construction and closing\<close>

definition listener_init :: "'k los \<Rightarrow> int \<Rightarrow> ('k, 'b) lst_scheme \<Rightarrow> listen_error + ('k, 'b) lst_scheme" where
  "listener_init os domain s =
     (case lo_socket os domain (kern s) of (fd, k) \<Rightarrow>
        let s1 = s\<lparr>kern := k, lst_family := domain, lst_fd := fd\<rparr>
        in if fd = invalid_fd then Inl Listener_socket_failed
           else Inr (add_fd fd (s1\<lparr>kern := lo_set_non_block os fd (kern s1)\<rparr>)))"

definition listener_close :: "'k los \<Rightarrow> ('k, 'b) lst_post \<Rightarrow> ('k, 'b) lst_scheme \<Rightarrow> ('k, 'b) lst_scheme" where
  "listener_close os pst s =
     (if lst_fd s \<noteq> invalid_fd
      then let s1 = remove_fd (lo_ctl os) pst (lst_fd s) s
           in s1\<lparr>kern := lo_close os (lst_fd s1) (kern s1), lst_fd := invalid_fd\<rparr>
      else s)"

definition listener_dtor :: "'k los \<Rightarrow> ('k, 'b) lst_post \<Rightarrow> ('k, 'b) lst_scheme \<Rightarrow> ('k, 'b) lst_scheme" where
  "listener_dtor os pst s = listener_close os pst s"

section \<open>Binding\<close>

definition bind_and_listen :: "'k los \<Rightarrow> bytes \<Rightarrow> int \<Rightarrow> ('k \<Rightarrow> 'k) \<Rightarrow> ('k, 'b) lst_scheme \<Rightarrow> listen_error + ('k, 'b) lst_scheme" where
  "bind_and_listen os address backlog between s =
     (case lo_bind os (lst_fd s) address (kern s) of (r, k) \<Rightarrow>
        if r < 0 then Inl Bind_failed
        else case lo_listen os (lst_fd s) backlog (between k) of (r1, k1) \<Rightarrow>
          if r1 < 0 then Inl Listen_failed else Inr (s\<lparr>kern := k1\<rparr>))"

definition tcp_bind_listen ::
  "'k los \<Rightarrow> pton \<Rightarrow> string \<Rightarrow> 16 word \<Rightarrow> int \<Rightarrow> bool \<Rightarrow> ('k, 'b) lst_scheme \<Rightarrow> listen_error + ('k, 'b) lst_scheme" where
  "tcp_bind_listen os pton host port backlog dual s =
     (let s1 = s\<lparr>kern := lo_setsockopt os (lst_fd s) ''SO_REUSEADDR'' 1 (kern s)\<rparr>
      in case tcp_listen_addr pton (lst_family s1) host port of
           Inl e \<Rightarrow> Inl e
         | Inr address \<Rightarrow>
             let s2 = (if lst_family s1 = AF_INET6
                       then s1\<lparr>kern := lo_setsockopt os (lst_fd s1) ''IPV6_V6ONLY'' (if dual then 0 else 1) (kern s1)\<rparr> else s1)
             in bind_and_listen os address backlog id s2)"

definition unix_bind_listen ::
  "'k los \<Rightarrow> string \<Rightarrow> int \<Rightarrow> bool \<Rightarrow> nat \<Rightarrow> ('k, 'b) lst_scheme \<Rightarrow> listen_error + ('k, 'b) lst_scheme" where
  "unix_bind_listen os path backlog unlink_existing mode s =
     (if lst_bound s then Inl Already_bound
      else case unix_listen_addr path of
             Inl e \<Rightarrow> Inl e
           | Inr (abstract, address) \<Rightarrow>
               let name = uds_name address;
                   s1 = (if \<not> abstract \<and> unlink_existing then s\<lparr>kern := lo_unlink os name (kern s)\<rparr> else s)
               in case bind_and_listen os address backlog (\<lambda>k. if \<not> abstract then lo_chmod os name mode k else k) s1 of
                    Inl e \<Rightarrow> Inl e
                  | Inr s2 \<Rightarrow> Inr (s2\<lparr>lst_path := path, lst_abstract := abstract, lst_bound := True\<rparr>))"

definition unix_close :: "'k los \<Rightarrow> ('k, 'b) lst_post \<Rightarrow> ('k, 'b) lst_scheme \<Rightarrow> ('k, 'b) lst_scheme" where
  "unix_close os pst s =
     (let s1 = listener_close os pst s
      in if lst_bound s1
         then let s2 = (if \<not> lst_abstract s1 \<and> lst_path s1 \<noteq> []
                        then s1\<lparr>kern := lo_unlink os (lst_path s1) (kern s1), lst_path := []\<rparr> else s1)
              in s2\<lparr>lst_bound := False\<rparr>
         else s1)"

section \<open>Accepting\<close>

definition try_accept :: "'k los \<Rightarrow> ('k, 'b) lst_scheme \<Rightarrow> int \<times> ('k, 'b) lst_scheme" where
  "try_accept os s =
     (case lo_accept os (lst_fd s) (kern s) of ((fd, errno), k) \<Rightarrow>
        (if fd \<noteq> invalid_fd then fd else if errno = EAGAIN then - 1 else accept_fatal, s\<lparr>kern := k\<rparr>))"

definition accept_await_ready :: "'k los \<Rightarrow> addr \<Rightarrow> ('k, 'b) lst_scheme \<Rightarrow> bool \<times> ('k, 'b) lst_scheme" where
  "accept_await_ready os a s =
     (case try_accept os s of (r, s1) \<Rightarrow> (r \<ge> 0 \<or> r = accept_fatal, s1\<lparr>newfd := (newfd s1)(a := r)\<rparr>))"

definition accept_await_suspend :: "'k los \<Rightarrow> addr \<Rightarrow> addr \<Rightarrow> ('k, 'b) lst_scheme \<Rightarrow> ('k, 'b) lst_scheme" where
  "accept_await_suspend os a h s =
     add_waiter (lo_ctl os) (lst_fd s) EPOLLIN a (s\<lparr>h_of := (h_of s)(a := Some h), lks := INIT_LIST_HEAD a (lks s)\<rparr>)"

definition accept_await_resume :: "'k los \<Rightarrow> addr \<Rightarrow> ('k, 'b) lst_scheme \<Rightarrow> int \<times> ('k, 'b) lst_scheme" where
  "accept_await_resume os a s =
     (if newfd s a \<ge> 0 \<or> newfd s a = accept_fatal then (newfd s a, s) else try_accept os s)"

text \<open>\<open>co_await lst.accept()\<close>: when nothing is pending, the reactor delivers \<open>EPOLLIN\<close> and the coroutine is resumed.\<close>

definition listener_wait ::
  "'k los \<Rightarrow> (32 word \<Rightarrow> 'k \<Rightarrow> 'k) \<Rightarrow> ('k, 'b) lst_scheme \<Rightarrow> ('k, 'b) lst_scheme" where
  "listener_wait os idle s = handle_event (lo_ctl os) wq_post (lst_fd s, EPOLLIN) (s\<lparr>kern := idle EPOLLIN (kern s)\<rparr>)"

definition listener_accept ::
  "'k los \<Rightarrow> (32 word \<Rightarrow> 'k \<Rightarrow> 'k) \<Rightarrow> addr \<Rightarrow> addr \<Rightarrow> ('k, 'b) lst_scheme \<Rightarrow> int \<times> ('k, 'b) lst_scheme" where
  "listener_accept os idle a h s =
     (case accept_await_ready os a s of (now, s1) \<Rightarrow>
        accept_await_resume os a (if now then s1 else listener_wait os idle (accept_await_suspend os a h s1)))"

text \<open>
  \<open>async_accept_socket\<close>: what the coroutine returns, an adopted connection or a closed placeholder.
\<close>

definition async_accept_socket :: "int \<Rightarrow> fd option" where
  "async_accept_socket fd = (if fd < 0 then None else Some fd)"

fun accept_many ::
  "'k los \<Rightarrow> (32 word \<Rightarrow> 'k \<Rightarrow> 'k) \<Rightarrow> addr \<Rightarrow> addr \<Rightarrow> nat \<Rightarrow> ('k, 'b) lst_scheme \<Rightarrow> int list \<times> ('k, 'b) lst_scheme" where
  "accept_many os idle a h 0 s = ([], s)"
| "accept_many os idle a h (Suc n) s =
     (case listener_accept os idle a h s of (r, s1) \<Rightarrow> case accept_many os idle a h n s1 of (rs, s2) \<Rightarrow> (r # rs, s2))"

section \<open>Frame lemmas\<close>

lemma wq_post_lst [simp]:
  "lst_fd (wq_post a s) = lst_fd s" "newfd (wq_post a s) = newfd s" "kern (wq_post a s) = kern s" for s :: "('k, 'b) lst_scheme"
  by (simp_all add: wq_post_def enqueue_def trig_once_def emit_def)

lemma update_lst [simp]:
  "lst_fd (update_fd_interest_unlocked c fd st s) = lst_fd s" "newfd (update_fd_interest_unlocked c fd st s) = newfd s"
  for s :: "('k, 'b) lst_scheme"
  by (auto simp: update_fd_interest_unlocked_def ctl_def Let_def split: prod.splits)

lemma fold_post_lst [simp]:
  "lst_fd (fold (\<lambda>wi. wq_post (wi_waiter wi)) ws s) = lst_fd s" "newfd (fold (\<lambda>wi. wq_post (wi_waiter wi)) ws s) = newfd s"
  "kern (fold (\<lambda>wi. wq_post (wi_waiter wi)) ws s) = kern s"
  for s :: "('k, 'b) lst_scheme"
  by (induction ws arbitrary: s) simp_all

lemma suspend_lst [simp]:
  "lst_fd (accept_await_suspend os a h s) = lst_fd s" "newfd (accept_await_suspend os a h s) = newfd s"
  by (simp_all add: accept_await_suspend_def add_waiter_def register_waiter_def Let_def)

lemma listener_wait_lst [simp]:
  "lst_fd (listener_wait os idle s) = lst_fd s" "newfd (listener_wait os idle s) = newfd s"
  by (auto simp: listener_wait_def handle_event_def take_ready_def split: option.splits prod.splits)

section \<open>The kernel's side of a listener\<close>

text \<open>
  The documented behaviour of a listening socket: \<open>conns k\<close> are the connections that will be accepted, in the order of their arrival, of which the
  first \<open>queued k\<close> are queued; \<^verbatim>\<open>accept\<close> gives the first queued one or would block; after the wait for \<open>EPOLLIN\<close> one is queued, if any is
  to come. A closed descriptor is an error.
\<close>

locale listen_kernel =
  fixes os :: "'k los" and idle :: "32 word \<Rightarrow> 'k \<Rightarrow> 'k" and conns :: "'k \<Rightarrow> fd list" and queued :: "'k \<Rightarrow> nat"
  assumes conns_valid: "c \<in> set (conns k) \<Longrightarrow> 0 \<le> c"
    and ctl_conns: "conns (snd (lo_ctl os oper fd ev k)) = conns k \<and> queued (snd (lo_ctl os oper fd ev k)) = queued k"
    and idle_conns: "conns (idle EPOLLIN k) = conns k" and idle_ready: "conns k \<noteq> [] \<Longrightarrow> 0 < queued (idle EPOLLIN k)"
    and accept_ready: "fd \<noteq> invalid_fd \<Longrightarrow> 0 < queued k \<Longrightarrow> conns k = c # cs \<Longrightarrow>
      \<exists>k1. lo_accept os fd k = ((c, 0), k1) \<and> conns k1 = cs"
    and accept_none: "fd \<noteq> invalid_fd \<Longrightarrow> queued k = 0 \<or> conns k = [] \<Longrightarrow> lo_accept os fd k = ((invalid_fd, EAGAIN), k)"
    and accept_closed: "\<exists>e k1. lo_accept os invalid_fd k = ((invalid_fd, e), k1) \<and> e \<noteq> EAGAIN"
begin

lemma wait_conns:
  assumes "conns (kern s) = c # cs"
  shows "conns (kern (listener_wait os idle (accept_await_suspend os a h s))) = c # cs \<and>
    0 < queued (kern (listener_wait os idle (accept_await_suspend os a h s)))"
proof -
  let ?P = "\<lambda>k. conns k = c # cs" and ?Q = "\<lambda>k. conns k = c # cs \<and> 0 < queued k"
  have "?P (kern (accept_await_suspend os a h s))"
    unfolding accept_await_suspend_def add_waiter_def register_waiter_def Let_def
    by (rule update_kern_pred [where P = ?P]) (simp_all add: ctl_conns assms)
  then have "?Q (idle EPOLLIN (kern (accept_await_suspend os a h s)))" using idle_conns idle_ready by simp
  then show ?thesis
    by (auto simp: listener_wait_def handle_event_def take_ready_def split: option.splits
        intro!: update_kern_pred [where P = ?Q] simp: ctl_conns)
qed

lemma accept_first:
  assumes "lst_fd s \<noteq> invalid_fd" and "conns (kern s) = c # cs"
  shows "\<exists>s1. listener_accept os idle a h s = (c, s1) \<and> lst_fd s1 = lst_fd s \<and> conns (kern s1) = cs"
proof -
  have c: "0 \<le> c" "c \<noteq> invalid_fd" using conns_valid [of c "kern s"] assms(2) by (simp_all add: invalid_fd_def)
  show ?thesis
  proof (cases "queued (kern s) = 0")
    case False
    then obtain k1 where "lo_accept os (lst_fd s) (kern s) = ((c, 0), k1)" "conns k1 = cs"
      using accept_ready [OF assms(1) _ assms(2)] by auto
    then show ?thesis using c by (simp add: listener_accept_def accept_await_ready_def try_accept_def accept_await_resume_def)
  next
    case True
    let ?s1 = "s\<lparr>newfd := (newfd s)(a := - 1)\<rparr>"
    let ?s2 = "listener_wait os idle (accept_await_suspend os a h ?s1)"
    have r: "accept_await_ready os a s = (False, ?s1)"
      using accept_none [OF assms(1), of "kern s"] True by (simp add: accept_await_ready_def try_accept_def accept_fatal_def)
    have "conns (kern ?s2) = c # cs" "0 < queued (kern ?s2)" using wait_conns [of ?s1] assms(2) by auto
    then obtain k1 where "lo_accept os (lst_fd ?s2) (kern ?s2) = ((c, 0), k1)" "conns k1 = cs"
      using accept_ready [of "lst_fd ?s2" "kern ?s2" c cs] assms(1) by auto
    then show ?thesis using r c by (simp add: listener_accept_def try_accept_def accept_await_resume_def accept_fatal_def)
  qed
qed

lemma accept_after_close:
  assumes "lst_fd s = invalid_fd" and "newfd s a < 0"
  shows "fst (accept_await_resume os a s) = accept_fatal"
  using assms accept_closed [of "kern s"] by (auto simp: accept_await_resume_def try_accept_def)

end

section \<open>A concrete kernel\<close>

text \<open>
  A descriptor with its connections, of which one arrives with every wait; the names of the sockets in the file system.
\<close>

record lst_kernel =
  arriving :: "nat list"
  arrived :: nat
  names :: "string list"

definition seq_los :: "lst_kernel los" where
  "seq_los =
     \<lparr>lo_ctl = (\<lambda>oper fd ev k. ((0, 0), k)), lo_socket = (\<lambda>d k. (5, k)), lo_set_non_block = (\<lambda>fd k. k), lo_setsockopt = (\<lambda>fd opt v k. k),
      lo_bind = (\<lambda>fd a k. (0, if addr_family a = 1 \<and> a ! 2 \<noteq> 0 then k\<lparr>names := names k @ [uds_name a]\<rparr> else k)), lo_listen = (\<lambda>fd n k. (0, k)),
      lo_accept = (\<lambda>fd k. if fd = invalid_fd then ((- 1, 9), k)
        else case arriving k of [] \<Rightarrow> ((- 1, EAGAIN), k)
          | c # cs \<Rightarrow> if arrived k = 0 then ((- 1, EAGAIN), k) else ((int c, 0), k\<lparr>arriving := cs, arrived := arrived k - 1\<rparr>)),
      lo_close = (\<lambda>fd k. k), lo_unlink = (\<lambda>n k. k\<lparr>names := filter (\<lambda>x. x \<noteq> n) (names k)\<rparr>), lo_chmod = (\<lambda>n m k. k)\<rparr>"

definition seq_idle :: "32 word \<Rightarrow> lst_kernel \<Rightarrow> lst_kernel" where
  "seq_idle flags k = k\<lparr>arrived := arrived k + 1\<rparr>"

interpretation seq_lst: listen_kernel seq_los seq_idle "\<lambda>k. map int (arriving k)" arrived
  by unfold_locales (auto simp: seq_los_def seq_idle_def invalid_fd_def EAGAIN_def split: list.splits)

definition demo_lst :: "nat list \<Rightarrow> string list \<Rightarrow> lst_kernel lst" where
  "demo_lst cs ns =
     epr.extend (cbq.extend demo_cbq (epr.fields Map.empty \<lparr>arriving = cs, arrived = 0, names = ns\<rparr>))
       (lst.fields 5 AF_UNIX (\<lambda>_. - 1) [] False False)"

lemma demo_lst_simps [simp]:
  "lst_fd (demo_lst cs ns) = 5" "kern (demo_lst cs ns) = \<lparr>arriving = cs, arrived = 0, names = ns\<rparr>" "\<not> lst_bound (demo_lst cs ns)"
  "lst_abstract (demo_lst cs ns) = False"
  by (simp_all add: demo_lst_def epr.defs cbq.defs lst.defs)

section \<open>Properties\<close>



section \<open>Names in the file system\<close>

lemma listener_close_unix:
  "lst_path (listener_close os wq_post s) = lst_path s" "lst_abstract (listener_close os wq_post s) = lst_abstract s"
  "lst_bound (listener_close os wq_post s) = lst_bound s" "lst_fd (listener_close os wq_post s) = invalid_fd"
  for s :: "('k, 'b) lst_scheme"
proof -
  have w: "lst_path (fold (\<lambda>wi. wq_post (wi_waiter wi)) ws t) = lst_path t" "lst_abstract (fold (\<lambda>wi. wq_post (wi_waiter wi)) ws t) = lst_abstract t"
    "lst_bound (fold (\<lambda>wi. wq_post (wi_waiter wi)) ws t) = lst_bound t" for ws and t :: "('k, 'b) lst_scheme"
    by (induction ws arbitrary: t) (simp_all add: wq_post_def enqueue_def trig_once_def emit_def)
  show "lst_path (listener_close os wq_post s) = lst_path s" "lst_abstract (listener_close os wq_post s) = lst_abstract s"
    "lst_bound (listener_close os wq_post s) = lst_bound s" "lst_fd (listener_close os wq_post s) = invalid_fd"
    by (auto simp: listener_close_def remove_fd_def ctl_def Let_def w split: prod.splits)
qed

text \<open>
  \<open>close\<close> of a bound Unix listener removes its name once; the destructor is that of \<open>stream_listener_base\<close>, which calls its own \<open>close\<close> and leaves the
  name behind.
\<close>

lemma unix_dtor_keeps_name:
  assumes "unix_bind_listen os path backlog unlink_existing mode s = Inr s1" and "path \<noteq> []" and "hd path \<noteq> CHR ''@''"
  shows "kern (unix_close os wq_post s1) = lo_unlink os path (kern (listener_dtor os wq_post s1))"
    and "unix_close os wq_post (unix_close os wq_post s1) = unix_close os wq_post s1"
proof -
  have b: "lst_path s1 = path" "\<not> lst_abstract s1" "lst_bound s1"
    using assms by (auto simp: unix_bind_listen_def unix_listen_addr_def Let_def split: if_splits sum.splits)
  then show "kern (unix_close os wq_post s1) = lo_unlink os path (kern (listener_dtor os wq_post s1))"
    using assms(2) by (simp add: unix_close_def listener_dtor_def Let_def listener_close_unix)
  have "lst_fd (unix_close os wq_post s1) = invalid_fd" "\<not> lst_bound (unix_close os wq_post s1)"
    using b assms(2) by (simp_all add: unix_close_def Let_def listener_close_unix)
  then show "unix_close os wq_post (unix_close os wq_post s1) = unix_close os wq_post s1"
    by (simp add: unix_close_def [of _ _ "unix_close os wq_post s1"] listener_close_def [of _ _ "unix_close os wq_post s1"])
qed

text \<open>An accept that was woken in vain answers -1, which \<open>async_accept_socket\<close> treats like a fatal error.\<close>

lemma accept_woken_in_vain:
  assumes "lo_accept os (lst_fd s) (kern s) = ((invalid_fd, EAGAIN), k)" and "newfd s a = - 1"
  shows "fst (accept_await_resume os a s) = - 1 \<and> async_accept_socket (fst (accept_await_resume os a s)) = async_accept_socket accept_fatal"
  using assms by (simp add: accept_await_resume_def try_accept_def async_accept_socket_def accept_fatal_def)

end
