(* ===== verification/Iocp_Reactor.thy ===== *)
theory Iocp_Reactor
  imports Epoll_Reactor
begin

text \<open>
  The Windows reactor of \<^verbatim>\<open>io/iocp_reactor.hpp\<close>: readiness of sockets through the epoll emulation wepoll, and completions of
  overlapped operations through an I/O completion port.

  \<open>ifds\<close> is \<open>_fds\<close>. wepoll is vendored: \<open>ikern\<close> is the state of wepoll and of the kernel, its \<open>epoll_ctl\<close> and the system calls are the
  fields of \<open>iocp_os\<close>, the results of \<open>epoll_wait\<close> and \<open>GetQueuedCompletionStatus\<close> are inputs. \<open>ovl_mem\<close> is the memory that holds the
  \<open>iocp_ovl\<close> structures. A \<open>HANDLE\<close>, a \<open>SOCKET\<close> and the \<open>int\<close> they are converted to are one number; \<open>EPOLLET\<close> is 0 here.
\<close>

unbundle bit_operations_syntax

section \<open>Data\<close>

record iocp_item =
  ii_mask :: "32 word"
  ii_waiter :: addr

record iocp_fd =
  ii_waiters :: "iocp_item list"
  ii_interest :: "32 word"
  ii_registered :: bool

record iocp_ovl =
  ov_offset :: "64 word"
  ov_waiter :: "addr option"
  ov_generation :: "32 word"
  ov_cancelled :: bool

record 'k iocp = cbq +
  ifds :: "fd \<rightharpoonup> iocp_fd"
  ovl_mem :: "addr \<Rightarrow> iocp_ovl"
  ikern :: 'k

text \<open>\<open>io_query\<close> are the fields \<open>State\<close> and \<open>Protect\<close> that \<open>VirtualQuery\<close> gives of an address, \<open>None\<close> a result of 0.\<close>

record 'k iocp_os =
  io_ctl :: "'k epoll_ctl"
  io_getsockopt :: "fd \<Rightarrow> 'k \<Rightarrow> int"
  io_port :: "fd \<Rightarrow> 'k \<Rightarrow> 'k"
  io_query :: "addr \<Rightarrow> 'k \<Rightarrow> (32 word \<times> 32 word) option"

type_synonym ('k, 'b) iocp_poster = "addr \<Rightarrow> ('k, 'b) iocp_scheme \<Rightarrow> ('k, 'b) iocp_scheme"

definition EEXIST :: int where "EEXIST = 17"
definition INVALID_SOCKET :: fd where "INVALID_SOCKET = - 1"
definition MEM_COMMIT :: "32 word" where "MEM_COMMIT = 0x1000"
definition PAGE_NOACCESS :: "32 word" where "PAGE_NOACCESS = 0x01"
definition PAGE_GUARD :: "32 word" where "PAGE_GUARD = 0x100"

definition empty_iocp_fd :: iocp_fd where
  "empty_iocp_fd = \<lparr>ii_waiters = [], ii_interest = 0, ii_registered = False\<rparr>"

section \<open>Operations\<close>

definition is_pointer_plausible :: "'k iocp_os \<Rightarrow> addr option \<Rightarrow> 'k \<Rightarrow> bool" where
  "is_pointer_plausible io ptr k =
     (case ptr of None \<Rightarrow> False
      | Some p \<Rightarrow>
          (case io_query io p k of None \<Rightarrow> False
           | Some (state, protect) \<Rightarrow>
               state AND MEM_COMMIT \<noteq> 0 \<and> protect AND PAGE_NOACCESS = 0 \<and> protect AND PAGE_GUARD = 0))"

text \<open>Any error of \<open>getsockopt\<close> gives \<open>false\<close>, \<open>WSAENOTSOCK\<close> or another.\<close>

definition is_socket_fd :: "'k iocp_os \<Rightarrow> fd \<Rightarrow> 'k \<Rightarrow> bool" where
  "is_socket_fd io fd k \<longleftrightarrow> fd \<noteq> INVALID_SOCKET \<and> io_getsockopt io fd k = 0"

definition iocp_add_fd :: "'k iocp_os \<Rightarrow> fd \<Rightarrow> ('k, 'b) iocp_scheme \<Rightarrow> ('k, 'b) iocp_scheme" where
  "iocp_add_fd io fd s =
     (let s1 = s\<lparr>ikern := io_port io fd (ikern s)\<rparr>
      in if \<not> is_socket_fd io fd (ikern s1) then s1
         else if ifds s1 fd = None then s1\<lparr>ifds := (ifds s1)(fd \<mapsto> empty_iocp_fd)\<rparr> else s1)"

definition iocp_ctl ::
  "'k iocp_os \<Rightarrow> ctl_op \<Rightarrow> fd \<Rightarrow> 32 word \<Rightarrow> ('k, 'b) iocp_scheme \<Rightarrow> (int \<times> int) \<times> ('k, 'b) iocp_scheme" where
  "iocp_ctl io oper fd ev s = (case io_ctl io oper fd ev (ikern s) of (r, k) \<Rightarrow> (r, s\<lparr>ikern := k\<rparr>))"

definition iocp_interest :: "iocp_item list \<Rightarrow> 32 word" where
  "iocp_interest ws = foldl (\<lambda>acc wi. acc OR ii_mask wi) 0 ws"

definition iocp_update_fd_interest_unlocked ::
  "'k iocp_os \<Rightarrow> fd \<Rightarrow> iocp_fd \<Rightarrow> ('k, 'b) iocp_scheme \<Rightarrow> ('k, 'b) iocp_scheme" where
  "iocp_update_fd_interest_unlocked io fd st s =
     (let new_interest = iocp_interest (ii_waiters st);
          st1 = st\<lparr>ii_interest := new_interest\<rparr>;
          put = (\<lambda>st s. s\<lparr>ifds := (ifds s)(fd \<mapsto> st)\<rparr>)
      in if new_interest = ii_interest st then put st s
         else if new_interest = 0
         then put (st1\<lparr>ii_registered := False\<rparr>) (if ii_registered st then snd (iocp_ctl io Ctl_del fd 0 s) else s)
         else let ev = new_interest OR EPOLLERR OR EPOLLHUP
              in case iocp_ctl io (if ii_registered st then Ctl_mod else Ctl_add) fd ev s of ((rc, errno), s1) \<Rightarrow>
                   if rc = 0 then put (st1\<lparr>ii_registered := True\<rparr>) s1
                   else if errno = ENOENT
                   then (case iocp_ctl io Ctl_add fd ev s1 of ((rc, errno), s2) \<Rightarrow>
                           put (if rc = 0 then st1\<lparr>ii_registered := True\<rparr> else st1) s2)
                   else put (if errno = EEXIST then st1\<lparr>ii_registered := True\<rparr> else st1) s1)"

text \<open>A null waiter is \<open>None\<close>. A handle that is no socket is ready at once.\<close>

definition iocp_register_waiter ::
  "'k iocp_os \<Rightarrow> ('k, 'b) iocp_poster \<Rightarrow> fd \<Rightarrow> 32 word \<Rightarrow> addr option \<Rightarrow> bool \<Rightarrow> ('k, 'b) iocp_scheme \<Rightarrow> ('k, 'b) iocp_scheme" where
  "iocp_register_waiter io pst fd evmask waiter preserve_func s =
     (case waiter of None \<Rightarrow> s
      | Some w \<Rightarrow>
          if \<not> is_socket_fd io fd (ikern s) then pst w s
          else let st = (case ifds s fd of Some st \<Rightarrow> st | None \<Rightarrow> empty_iocp_fd);
                   s1 = (if preserve_func then s else s\<lparr>func := (func s)(w := Code Resume_cb)\<rparr>);
                   s2 = s1\<lparr>lks := INIT_LIST_HEAD w (lks s1)\<rparr>
               in iocp_update_fd_interest_unlocked io fd
                    (st\<lparr>ii_waiters := ii_waiters st @ [\<lparr>ii_mask = evmask, ii_waiter = w\<rparr>]\<rparr>) s2)"

definition iocp_add_waiter ::
  "'k iocp_os \<Rightarrow> ('k, 'b) iocp_poster \<Rightarrow> fd \<Rightarrow> 32 word \<Rightarrow> addr option \<Rightarrow> ('k, 'b) iocp_scheme \<Rightarrow> ('k, 'b) iocp_scheme" where
  "iocp_add_waiter io pst fd evmask waiter s = iocp_register_waiter io pst fd evmask waiter False s"

definition iocp_add_waiter_custom ::
  "'k iocp_os \<Rightarrow> ('k, 'b) iocp_poster \<Rightarrow> fd \<Rightarrow> 32 word \<Rightarrow> addr option \<Rightarrow> ('k, 'b) iocp_scheme \<Rightarrow> ('k, 'b) iocp_scheme" where
  "iocp_add_waiter_custom io pst fd evmask waiter s = iocp_register_waiter io pst fd evmask waiter True s"

definition iocp_add_waiter_with_timeout ::
  "'k iocp_os \<Rightarrow> ('k, 'b) iocp_poster \<Rightarrow> fd \<Rightarrow> 32 word \<Rightarrow> addr option \<Rightarrow> int \<Rightarrow> ('k, 'b) iocp_scheme \<Rightarrow> ('k, 'b) iocp_scheme" where
  "iocp_add_waiter_with_timeout io pst fd evmask waiter timeout s = iocp_register_waiter io pst fd evmask waiter False s"

definition iocp_remove_fd :: "'k iocp_os \<Rightarrow> ('k, 'b) iocp_poster \<Rightarrow> fd \<Rightarrow> ('k, 'b) iocp_scheme \<Rightarrow> ('k, 'b) iocp_scheme" where
  "iocp_remove_fd io pst fd s =
     (let had_socket = ifds s fd \<noteq> None;
          to_resume = (case ifds s fd of Some st \<Rightarrow> ii_waiters st | None \<Rightarrow> []);
          s1 = s\<lparr>ifds := (ifds s)(fd := None)\<rparr>;
          s2 = (if had_socket then snd (iocp_ctl io Ctl_del fd 0 s1) else s1)
      in fold (\<lambda>wi. pst (ii_waiter wi)) to_resume s2)"

definition iocp_post_completion :: "('k, 'b) iocp_poster \<Rightarrow> addr \<Rightarrow> ('k, 'b) iocp_scheme \<Rightarrow> ('k, 'b) iocp_scheme" where
  "iocp_post_completion pst w s = pst w s"

definition iocp_ready :: "32 word \<Rightarrow> iocp_item \<Rightarrow> bool" where
  "iocp_ready flags wi \<longleftrightarrow> flags AND ii_mask wi \<noteq> 0 \<or> flags AND (EPOLLERR OR EPOLLHUP) \<noteq> 0"

definition iocp_take_ready ::
  "'k iocp_os \<Rightarrow> fd \<Rightarrow> 32 word \<Rightarrow> ('k, 'b) iocp_scheme \<Rightarrow> iocp_item list \<times> ('k, 'b) iocp_scheme" where
  "iocp_take_ready io fd flags s =
     (case ifds s fd of
        None \<Rightarrow> ([], s)
      | Some st \<Rightarrow>
          (case partition (iocp_ready flags) (ii_waiters st) of (to_resume, keep) \<Rightarrow>
             (to_resume, iocp_update_fd_interest_unlocked io fd (st\<lparr>ii_waiters := keep\<rparr>) s)))"

definition dispatch_one ::
  "'k iocp_os \<Rightarrow> ('k, 'b) iocp_poster \<Rightarrow> fd \<times> 32 word \<Rightarrow> ('k, 'b) iocp_scheme \<Rightarrow> ('k, 'b) iocp_scheme" where
  "dispatch_one io pst ev s =
     (case iocp_take_ready io (fst ev) (snd ev) s of (to_resume, s1) \<Rightarrow>
        fold (\<lambda>wi. pst (ii_waiter wi)) to_resume s1)"

definition dispatch_ready ::
  "'k iocp_os \<Rightarrow> ('k, 'b) iocp_poster \<Rightarrow> (fd \<times> 32 word) list \<Rightarrow> ('k, 'b) iocp_scheme \<Rightarrow> ('k, 'b) iocp_scheme" where
  "dispatch_ready io pst evs s = fold (dispatch_one io pst) evs s"

definition handle_completion ::
  "'k iocp_os \<Rightarrow> ('k, 'b) iocp_poster \<Rightarrow> addr \<Rightarrow> ('k, 'b) iocp_scheme \<Rightarrow> ('k, 'b) iocp_scheme" where
  "handle_completion io pst povl s =
     (let ovl = ovl_mem s povl
      in case ov_waiter ovl of
           None \<Rightarrow> s
         | Some w \<Rightarrow>
             if \<not> is_pointer_plausible io (Some w) (ikern s)
             then s\<lparr>ovl_mem := (ovl_mem s)(povl := ovl\<lparr>ov_waiter := None, ov_cancelled := True\<rparr>)\<rparr>
             else if debug_magic s w \<noteq> debug_magic_value then reset_guard w s
             else if func s w = Null then s
             else if callback_enqueued s w then s
             else pst w s)"

text \<open>
  \<open>process_completions\<close>: the inputs are the flag \<open>_running\<close> before each call of \<open>GetQueuedCompletionStatus\<close> and its packet, \<open>None\<close> for
  the null packet that the destructor posts. After the last input the call finds no packet. The second test of the flag after a null packet is
  that of the next turn.
\<close>

type_synonym port_input = "bool \<times> addr option"

fun process_completions ::
  "'k iocp_os \<Rightarrow> ('k, 'b) iocp_poster \<Rightarrow> port_input list \<Rightarrow> bool \<Rightarrow> ('k, 'b) iocp_scheme \<Rightarrow> bool \<times> ('k, 'b) iocp_scheme" where
  "process_completions io pst [] handled s = (handled, s)"
| "process_completions io pst ((run, packet) # ps) handled s =
     (if \<not> run then (handled, s)
      else case packet of
             None \<Rightarrow> process_completions io pst ps handled s
           | Some povl \<Rightarrow> process_completions io pst ps True (handle_completion io pst povl s))"

record iocp_turn =
  it_running :: bool
  it_first :: "port_input list"
  it_wait :: "int + (fd \<times> 32 word) list"
  it_running_after :: bool
  it_idle :: "port_input list"

fun iocp_loop ::
  "'k iocp_os \<Rightarrow> ('k, 'b) iocp_poster \<Rightarrow> iocp_turn list \<Rightarrow> ('k, 'b) iocp_scheme \<Rightarrow> ('k, 'b) iocp_scheme" where
  "iocp_loop io pst [] s = s"
| "iocp_loop io pst (t # ts) s =
     (if \<not> it_running t then s
      else let s1 = snd (process_completions io pst (it_first t) False s)
           in case it_wait t of
                Inl errno \<Rightarrow> if errno = EINTR then iocp_loop io pst ts s1 else s1
              | Inr evs \<Rightarrow>
                  let s2 = (if evs \<noteq> [] then dispatch_ready io pst evs s1 else s1)
                  in if \<not> it_running_after t then s2
                     else iocp_loop io pst ts (if evs = [] then snd (process_completions io pst (it_idle t) False s2) else s2))"

definition iocp_run_loop ::
  "'k iocp_os \<Rightarrow> ('k, 'b) iocp_poster \<Rightarrow> iocp_turn list \<Rightarrow> port_input list \<Rightarrow> ('k, 'b) iocp_scheme \<Rightarrow> ('k, 'b) iocp_scheme" where
  "iocp_run_loop io pst ts final s = snd (process_completions io pst final False (iocp_loop io pst ts s))"


section \<open>The reactor as an epoll reactor\<close>

text \<open>
  What the reactor does for sockets is what the epoll reactor does on the specification \<open>demo_ctl\<close> of an epoll instance: \<open>abs_epr\<close> forgets
  the flags \<open>registered\<close> and the overlapped structures; \<open>reg\<close> is what wepoll holds for a socket, to which the epoll reactor adds
  \<open>EPOLLET\<close>.
\<close>

definition abs_item :: "iocp_item \<Rightarrow> waiter_item" where
  "abs_item wi = \<lparr>wi_mask = ii_mask wi, wi_waiter = ii_waiter wi, has_timeout = False, deadline = 0\<rparr>"

definition abs_fd :: "iocp_fd \<Rightarrow> fd_state" where
  "abs_fd st = \<lparr>waiters = map abs_item (ii_waiters st), interest = ii_interest st\<rparr>"

definition abs_tab :: "(fd \<rightharpoonup> iocp_fd) \<Rightarrow> fd \<rightharpoonup> fd_state" where
  "abs_tab f = (\<lambda>fd. map_option abs_fd (f fd))"

definition abs_reg :: "(fd \<rightharpoonup> 32 word) \<Rightarrow> fd \<rightharpoonup> 32 word" where
  "abs_reg r = (\<lambda>fd. map_option (\<lambda>ev. ev OR EPOLLET) (r fd))"

definition abs_epr :: "('k \<Rightarrow> fd \<rightharpoonup> 32 word) \<Rightarrow> ('k, 'b) iocp_scheme \<Rightarrow> (fd \<rightharpoonup> 32 word) epr" where
  "abs_epr reg s = cbq.extend (cbq.truncate s) (epr.fields (abs_tab (ifds s)) (abs_reg (reg (ikern s))))"

text \<open>A descriptor is registered with wepoll exactly when its flag says so.\<close>

definition flags_ok :: "('k \<Rightarrow> fd \<rightharpoonup> 32 word) \<Rightarrow> ('k, 'b) iocp_scheme \<Rightarrow> bool" where
  "flags_ok reg s \<longleftrightarrow> (\<forall>fd. reg (ikern s) fd \<noteq> None \<longleftrightarrow> (\<exists>st. ifds s fd = Some st \<and> ii_registered st))"

lemma abs_tab_upd [simp]: "abs_tab (f(fd := v)) = (abs_tab f)(fd := map_option abs_fd v)"
  by (simp add: abs_tab_def fun_eq_iff)

lemma abs_reg_upd [simp]: "abs_reg (r(fd := v)) = (abs_reg r)(fd := map_option (\<lambda>ev. ev OR EPOLLET) v)"
  by (simp add: abs_reg_def fun_eq_iff)

lemma abs_tab_app [simp]: "abs_tab f fd = map_option abs_fd (f fd)" "abs_reg r fd = map_option (\<lambda>ev. ev OR EPOLLET) (r fd)"
  by (simp_all add: abs_tab_def abs_reg_def)

lemma abs_epr_simps [simp]:
  "fds (abs_epr reg s) = abs_tab (ifds s)" "kern (abs_epr reg s) = abs_reg (reg (ikern s))"
  "func (abs_epr reg s) = func s" "lks (abs_epr reg s) = lks s"
  by (simp_all add: abs_epr_def cbq.defs epr.defs)

lemma abs_epr_upd [simp]:
  "abs_epr reg (s\<lparr>func := g\<rparr>) = (abs_epr reg s)\<lparr>func := g\<rparr>"
  "abs_epr reg (s\<lparr>lks := m\<rparr>) = (abs_epr reg s)\<lparr>lks := m\<rparr>"
  "abs_epr reg (s\<lparr>ovl_mem := v\<rparr>) = abs_epr reg s"
  "abs_epr reg (s\<lparr>ifds := f, ikern := k\<rparr>) = (abs_epr reg s)\<lparr>fds := abs_tab f, kern := abs_reg (reg k)\<rparr>"
  "abs_epr reg (s\<lparr>ifds := f\<rparr>) = (abs_epr reg s)\<lparr>fds := abs_tab f\<rparr>"
  by (simp_all add: abs_epr_def cbq.defs epr.defs)

lemma abs_item_simps [simp]: "wi_mask (abs_item wi) = ii_mask wi" "wi_waiter (abs_item wi) = ii_waiter wi"
  by (simp_all add: abs_item_def)

lemma abs_fd_simps [simp]: "waiters (abs_fd st) = map abs_item (ii_waiters st)" "interest (abs_fd st) = ii_interest st"
  "abs_fd empty_iocp_fd = empty_fd_state"
  by (simp_all add: abs_fd_def empty_iocp_fd_def empty_fd_state_def)

lemma mask_union_abs [simp]: "mask_union (map abs_item ws) = iocp_interest ws"
  by (simp add: mask_union_def iocp_interest_def foldl_map)

lemma ready_abs [simp]: "ready flags (abs_item wi) = iocp_ready flags wi"
  by (simp add: ready_def iocp_ready_def)

text \<open>wepoll documents the behaviour of epoll, and the results of a successful registration.\<close>

locale wepoll_instance = epoll_instance epoll_ctl reg for epoll_ctl :: "'k epoll_ctl" and reg :: "'k \<Rightarrow> fd \<rightharpoonup> 32 word" +
  assumes ctl_add_rc: "reg k fd = None \<Longrightarrow> fst (fst (epoll_ctl Ctl_add fd ev k)) = 0"
begin

lemma update_effect:
  assumes "io_ctl io = epoll_ctl" and st: "ii_registered st \<longleftrightarrow> reg (ikern s) fd \<noteq> None"
  defines "i \<equiv> iocp_interest (ii_waiters st)"
  defines "v \<equiv> (if i = ii_interest st then reg (ikern s) fd else if i = 0 then None else Some (i OR EPOLLERR OR EPOLLHUP))"
  shows "\<exists>k. iocp_update_fd_interest_unlocked io fd st s =
      s\<lparr>ifds := (ifds s)(fd \<mapsto> st\<lparr>ii_interest := i, ii_registered := v \<noteq> None\<rparr>), ikern := k\<rparr> \<and> reg k = (reg (ikern s))(fd := v)"
proof -
  let ?k = "ikern s" and ?ev = "i OR EPOLLERR OR EPOLLHUP"
  note defs = iocp_update_fd_interest_unlocked_def Let_def iocp_ctl_def assms(1) i_def [symmetric]
  consider "i = ii_interest st" | "i \<noteq> ii_interest st" "i = 0" | "i \<noteq> ii_interest st" "i \<noteq> 0" by blast
  then show ?thesis
  proof cases
    case 1
    have u: "iocp_update_fd_interest_unlocked io fd st s = s\<lparr>ifds := (ifds s)(fd \<mapsto> st)\<rparr>"
      using 1 by (simp only: defs if_True refl)
    have "st\<lparr>ii_interest := i, ii_registered := v \<noteq> None\<rparr> = st" using 1 st by (cases st) (simp add: v_def)
    then show ?thesis unfolding u using 1 by (intro exI [of _ ?k]) (simp add: v_def)
  next
    case 2
    then show ?thesis
      using st ctl_del [of fd 0 ?k]
      by (intro exI [of _ "if ii_registered st then snd (epoll_ctl Ctl_del fd 0 ?k) else ?k"]) (auto simp: defs v_def split: prod.splits)
  next
    case 3
    let ?op = "if ii_registered st then Ctl_mod else Ctl_add"
    obtain rc e k where c: "epoll_ctl ?op fd ?ev ?k = ((rc, e), k)" by (metis prod.exhaust)
    have "fst (fst (epoll_ctl ?op fd ?ev ?k)) = 0 \<and> reg (snd (epoll_ctl ?op fd ?ev ?k)) = (reg ?k)(fd \<mapsto> ?ev)"
      using st ctl_mod_known [of ?k fd ?ev] ctl_add [of ?k fd ?ev] ctl_add_rc [of ?k fd ?ev] by (cases "ii_registered st") simp_all
    then have k: "rc = 0" "reg k = (reg ?k)(fd \<mapsto> ?ev)" by (simp_all add: c)
    have "iocp_update_fd_interest_unlocked io fd st s = s\<lparr>ikern := k, ifds := (ifds s)(fd \<mapsto> st\<lparr>ii_interest := i, ii_registered := True\<rparr>)\<rparr>"
      using 3 by (simp only: defs c k if_False prod.case refl if_True simp_thms) simp
    then show ?thesis using 3 k by (intro exI [of _ k]) (simp add: v_def)
  qed
qed

end

text \<open>The update of the epoll reactor on the specification.\<close>

lemma demo_update:
  "update_fd_interest_unlocked demo_ctl fd st s =
     (let i = mask_union (waiters st) in
      s\<lparr>fds := (fds s)(fd \<mapsto> st\<lparr>interest := i\<rparr>),
        kern := (kern s)(fd := if i = interest st then kern s fd else if i = 0 then None else Some (i OR EPOLLERR OR EPOLLHUP OR EPOLLET))\<rparr>)"
  by (auto simp: update_fd_interest_unlocked_def Let_def ctl_def demo_ctl_def)

text \<open>
  A route posts a waiter without touching the table and does the same in both reactors; the posts of the sources are
  routes.
\<close>

locale iocp_route = waiter_route pst' for pst' :: "(fd \<rightharpoonup> 32 word, unit) poster" +
  fixes pst :: "('k, 'b) iocp_poster" and reg :: "'k \<Rightarrow> fd \<rightharpoonup> 32 word"
  assumes pst_ifds [simp]: "ifds (pst w s) = ifds s" and pst_ikern [simp]: "ikern (pst w s) = ikern s"
    and pst_abs [simp]: "abs_epr reg (pst w s) = pst' w (abs_epr reg s)"
begin

lemma fold_post [simp]:
  "ifds (fold (\<lambda>wi. pst (ii_waiter wi)) ws s) = ifds s" "ikern (fold (\<lambda>wi. pst (ii_waiter wi)) ws s) = ikern s"
  "abs_epr reg (fold (\<lambda>wi. pst (ii_waiter wi)) ws s) = fold (\<lambda>wi. pst' (wi_waiter wi)) (map abs_item ws) (abs_epr reg s)"
  by (induction ws arbitrary: s) auto

end

lemma abs_epr_cong: "cbq.truncate s = cbq.truncate t \<Longrightarrow> ifds s = ifds t \<Longrightarrow> ikern s = ikern t \<Longrightarrow> abs_epr reg s = abs_epr reg t"
  by (simp add: abs_epr_def)

lemma wq_post_abs: "abs_epr reg (wq_post w s) = wq_post w (abs_epr reg s)"
  by (simp add: abs_epr_def cbq.defs epr.defs wq_post_def enqueue_def trig_once_def emit_def)

lemma state_post_abs: "abs_epr reg (snd (state_post e w s)) = snd (state_post e w (abs_epr reg s))"
  by (auto simp: abs_epr_def cbq.defs epr.defs state_post_def capture_waiter_def link_entry_def exchange_enqueued_def wq_post_def enqueue_def
      trig_once_def emit_def cb_note_def Let_def split: option.splits)

lemma state_post_iocp: "ifds (snd (state_post e w s)) = ifds s" "ikern (snd (state_post e w s)) = ikern s"
  "ovl_mem (snd (state_post e w s)) = ovl_mem s" for s :: "('k, 'b) iocp_scheme"
  by (auto simp: state_post_def link_entry_def exchange_enqueued_def wq_post_def enqueue_def trig_once_def emit_def cb_note_def
      Let_def split: option.splits)

interpretation iocp_direct: iocp_route wq_post "wq_post :: ('k, 'b) iocp_poster" reg for reg
  by unfold_locales (simp_all add: wq_post_abs, auto simp: wq_post_def enqueue_def trig_once_def emit_def)

interpretation iocp_routed: iocp_route "\<lambda>w s. post_via_route (route w) (entry w) w s"
  "\<lambda>w (s :: ('k, 'b) iocp_scheme). post_via_route (route w) (entry w) w s" reg for route entry reg
  by unfold_locales (simp_all add: post_via_route_def state_post_abs state_post_iocp wq_post_abs)

section \<open>Simulation\<close>

context wepoll_instance
begin

lemma update_simulates:
  assumes "io_ctl io = epoll_ctl" and f: "flags_ok reg s" and st: "ii_registered st \<longleftrightarrow> reg (ikern s) fd \<noteq> None"
  shows "abs_epr reg (iocp_update_fd_interest_unlocked io fd st s) = update_fd_interest_unlocked demo_ctl fd (abs_fd st) (abs_epr reg s)"
    and "flags_ok reg (iocp_update_fd_interest_unlocked io fd st s)"
proof -
  let ?i = "iocp_interest (ii_waiters st)"
  obtain k v where u: "iocp_update_fd_interest_unlocked io fd st s =
      s\<lparr>ifds := (ifds s)(fd \<mapsto> st\<lparr>ii_interest := ?i, ii_registered := v \<noteq> None\<rparr>), ikern := k\<rparr>" and k: "reg k = (reg (ikern s))(fd := v)"
    and v: "v = (if ?i = ii_interest st then reg (ikern s) fd else if ?i = 0 then None else Some (?i OR EPOLLERR OR EPOLLHUP))"
    using update_effect [OF assms(1) st] by blast
  show "abs_epr reg (iocp_update_fd_interest_unlocked io fd st s) = update_fd_interest_unlocked demo_ctl fd (abs_fd st) (abs_epr reg s)"
    unfolding u by (simp add: demo_update k v abs_fd_def or.assoc Let_def)
  show "flags_ok reg (iocp_update_fd_interest_unlocked io fd st s)"
    unfolding u using f by (simp add: flags_ok_def k)
qed

lemma flags_entry:
  assumes "flags_ok reg s"
  shows "ii_registered (case ifds s fd of Some st \<Rightarrow> st | None \<Rightarrow> empty_iocp_fd) \<longleftrightarrow> reg (ikern s) fd \<noteq> None"
  using assms by (cases "ifds s fd") (auto simp: flags_ok_def empty_iocp_fd_def)

lemma take_ready_simulates:
  assumes "io_ctl io = epoll_ctl" and "flags_ok reg s"
  shows "take_ready demo_ctl fd flags (abs_epr reg s) =
      map_prod (map abs_item) (abs_epr reg) (iocp_take_ready io fd flags s)"
    and "flags_ok reg (snd (iocp_take_ready io fd flags s))"
proof -
  show "take_ready demo_ctl fd flags (abs_epr reg s) = map_prod (map abs_item) (abs_epr reg) (iocp_take_ready io fd flags s)"
  proof (cases "ifds s fd")
    case (Some st)
    let ?st = "st\<lparr>ii_waiters := filter (Not \<circ> iocp_ready flags) (ii_waiters st)\<rparr>"
    have "ii_registered ?st \<longleftrightarrow> reg (ikern s) fd \<noteq> None" using flags_entry [OF assms(2), of fd] Some by simp
    from update_simulates(1) [OF assms this] show ?thesis
      by (simp add: take_ready_def iocp_take_ready_def Some filter_map o_def abs_fd_def)
  qed (simp add: take_ready_def iocp_take_ready_def)
  show "flags_ok reg (snd (iocp_take_ready io fd flags s))"
  proof (cases "ifds s fd")
    case (Some st)
    then show ?thesis
      using assms flags_entry [OF assms(2), of fd] by (auto simp: iocp_take_ready_def intro!: update_simulates(2))
  qed (simp add: iocp_take_ready_def assms)
qed

lemma register_simulates:
  assumes "io_ctl io = epoll_ctl" and f: "flags_ok reg s" and "is_socket_fd io fd (ikern s)"
  shows "abs_epr reg (iocp_register_waiter io pst fd evmask (Some w) pf s) = register_waiter demo_ctl fd evmask w pf False 0 (abs_epr reg s)"
    and "flags_ok reg (iocp_register_waiter io pst fd evmask (Some w) pf s)"
proof -
  define t where "t = (if pf then s else s\<lparr>func := (func s)(w := Code Resume_cb)\<rparr>)\<lparr>lks := INIT_LIST_HEAD w (lks s)\<rparr>"
  have t: "ifds t = ifds s" "ikern t = ikern s" "flags_ok reg t" using f by (simp_all add: t_def flags_ok_def)
  let ?st = "(case ifds s fd of Some st \<Rightarrow> st | None \<Rightarrow> empty_iocp_fd)"
  let ?st1 = "?st\<lparr>ii_waiters := ii_waiters ?st @ [\<lparr>ii_mask = evmask, ii_waiter = w\<rparr>]\<rparr>"
  have r: "ii_registered ?st1 \<longleftrightarrow> reg (ikern t) fd \<noteq> None" using flags_entry [OF f, of fd] by (simp add: t)
  have e: "iocp_register_waiter io pst fd evmask (Some w) pf s = iocp_update_fd_interest_unlocked io fd ?st1 t"
    using assms(3) by (auto simp: iocp_register_waiter_def t_def Let_def)
  show "flags_ok reg (iocp_register_waiter io pst fd evmask (Some w) pf s)"
    unfolding e by (rule update_simulates(2) [OF assms(1) t(3) r])
  have a: "abs_fd ?st1 = abs_fd ?st\<lparr>waiters := waiters (abs_fd ?st) @ [\<lparr>wi_mask = evmask, wi_waiter = w, has_timeout = False, deadline = 0\<rparr>]\<rparr>"
    by (simp add: abs_fd_def abs_item_def)
  have b: "abs_fd ?st = (case abs_tab (ifds s) fd of Some st \<Rightarrow> st | None \<Rightarrow> empty_fd_state)"
    by (cases "ifds s fd") simp_all
  show "abs_epr reg (iocp_register_waiter io pst fd evmask (Some w) pf s) = register_waiter demo_ctl fd evmask w pf False 0 (abs_epr reg s)"
    unfolding e update_simulates(1) [OF assms(1) t(3) r] a by (simp add: register_waiter_def Let_def t_def b)
qed

lemma remove_simulates:
  assumes "io_ctl io = epoll_ctl" and f: "flags_ok reg s" and "iocp_route pst' pst reg"
  shows "abs_epr reg (iocp_remove_fd io pst fd s) = remove_fd demo_ctl pst' fd (abs_epr reg s)"
    and "flags_ok reg (iocp_remove_fd io pst fd s)"
proof -
  let ?s1 = "s\<lparr>ifds := (ifds s)(fd := None)\<rparr>"
  define s2 where "s2 = (if ifds s fd \<noteq> None then snd (iocp_ctl io Ctl_del fd 0 ?s1) else ?s1)"
  have "reg (ikern s) fd = None" if "ifds s fd = None"
    using f that by (cases "reg (ikern s) fd") (auto simp: flags_ok_def dest: spec [of _ fd])
  then have s2: "ifds s2 = (ifds s)(fd := None)" "reg (ikern s2) = (reg (ikern s))(fd := None)"
    using ctl_del [of fd 0 "ikern s"] by (auto simp: s2_def iocp_ctl_def assms(1) fun_upd_idem split: prod.splits)
  have e: "iocp_remove_fd io pst fd s = fold (\<lambda>wi. pst (ii_waiter wi)) (case ifds s fd of Some st \<Rightarrow> ii_waiters st | None \<Rightarrow> []) s2"
    by (simp add: iocp_remove_fd_def s2_def Let_def)
  have "cbq.truncate s2 = cbq.truncate s" by (auto simp: s2_def iocp_ctl_def cbq.defs split: prod.splits)
  then have a: "abs_epr reg s2 = snd (ctl demo_ctl Ctl_del fd 0 ((abs_epr reg s)\<lparr>fds := (abs_tab (ifds s))(fd := None)\<rparr>))"
    by (simp add: abs_epr_def s2 ctl_def demo_ctl_def) (simp add: cbq.defs epr.defs)
  show "abs_epr reg (iocp_remove_fd io pst fd s) = remove_fd demo_ctl pst' fd (abs_epr reg s)"
    unfolding e iocp_route.fold_post [OF assms(3)] a by (cases "ifds s fd") (simp_all add: remove_fd_def Let_def)
  show "flags_ok reg (iocp_remove_fd io pst fd s)"
    unfolding e using f by (simp add: flags_ok_def iocp_route.fold_post [OF assms(3)] s2)
qed

lemma dispatch_one_simulates:
  assumes "io_ctl io = epoll_ctl" and "flags_ok reg s" and "iocp_route pst' pst reg"
  shows "abs_epr reg (dispatch_one io pst ev s) = handle_event demo_ctl pst' ev (abs_epr reg s)"
    and "flags_ok reg (dispatch_one io pst ev s)"
proof -
  obtain out s1 where t: "iocp_take_ready io (fst ev) (snd ev) s = (out, s1)" by fastforce
  note r = take_ready_simulates [OF assms(1,2), where fd = "fst ev" and flags = "snd ev", unfolded t, simplified]
  show "abs_epr reg (dispatch_one io pst ev s) = handle_event demo_ctl pst' ev (abs_epr reg s)"
    by (simp add: dispatch_one_def handle_event_def t r iocp_route.fold_post [OF assms(3)])
  show "flags_ok reg (dispatch_one io pst ev s)"
    using r(2) by (simp add: dispatch_one_def t flags_ok_def iocp_route.fold_post [OF assms(3)])
qed

lemma dispatch_ready_simulates:
  assumes "io_ctl io = epoll_ctl" and "flags_ok reg s" and "iocp_route pst' pst reg"
  shows "abs_epr reg (dispatch_ready io pst evs s) = fold (handle_event demo_ctl pst') evs (abs_epr reg s) \<and> flags_ok reg (dispatch_ready io pst evs s)"
  unfolding dispatch_ready_def using assms(2)
  by (induction evs arbitrary: s) (simp_all add: dispatch_one_simulates [OF assms(1) _ assms(3)])

end

section \<open>Interleavings\<close>

text \<open>The accounts are those of the epoll reactor; a waiter of a handle that is no socket is resumed at once.\<close>

definition iocp_waiters_of :: "('k, 'b) iocp_scheme \<Rightarrow> fd \<Rightarrow> iocp_item list" where
  "iocp_waiters_of s fd = (case ifds s fd of None \<Rightarrow> [] | Some st \<Rightarrow> ii_waiters st)"

inductive iocp_step :: "'k iocp_os \<Rightarrow> ('k, 'b) iocp_poster \<Rightarrow> ('k, 'b) iocp_scheme \<times> acct \<Rightarrow> ('k, 'b) iocp_scheme \<times> acct \<Rightarrow> bool"
  for io pst where
  Add_fd: "iocp_step io pst (s, g) (iocp_add_fd io fd s, g)"
| Register: "is_socket_fd io fd (ikern s) \<Longrightarrow> iocp_step io pst (s, g)
    (iocp_register_waiter io pst fd evmask (Some w) pf s, g\<lparr>registered := (registered g)(fd := add_mset w (registered g fd))\<rparr>)"
| Register_handle: "\<not> is_socket_fd io fd (ikern s) \<Longrightarrow> iocp_step io pst (s, g)
    (iocp_register_waiter io pst fd evmask (Some w) pf s,
     g\<lparr>registered := (registered g)(fd := add_mset w (registered g fd)), resumed := (resumed g)(fd := resumed g fd @ [w])\<rparr>)"
| Remove: "iocp_step io pst (s, g) (iocp_remove_fd io pst fd s, resume_more fd (map abs_item (iocp_waiters_of s fd)) g)"
| Event: "iocp_take_ready io fd flags s = (out, s1) \<Longrightarrow>
    iocp_step io pst (s, g) (dispatch_one io pst (fd, flags) s, resume_more fd (map abs_item out) g)"
| Completion: "iocp_step io pst (s, g) (handle_completion io pst povl s, g)"

inductive iocp_reachable :: "'k iocp_os \<Rightarrow> ('k, 'b) iocp_poster \<Rightarrow> ('k, 'b) iocp_scheme \<Rightarrow> ('k, 'b) iocp_scheme \<times> acct \<Rightarrow> bool"
  for io pst s0 where
  Start: "iocp_reachable io pst s0 (s0, \<lparr>registered = (\<lambda>_. {#}), resumed = (\<lambda>_. [])\<rparr>)"
| Step: "iocp_reachable io pst s0 c \<Longrightarrow> iocp_step io pst c c' \<Longrightarrow> iocp_reachable io pst s0 c'"

definition iocp_inv :: "('k \<Rightarrow> fd \<rightharpoonup> 32 word) \<Rightarrow> ('k, 'b) iocp_scheme \<times> acct \<Rightarrow> bool" where
  "iocp_inv reg c \<longleftrightarrow> flags_ok reg (fst c) \<and> interest_ok (\<lambda>k. k) (abs_epr reg (fst c)) \<and> accounted (abs_epr reg (fst c), snd c)"

lemma waiters_of_abs [simp]: "waiters_of (abs_epr reg s) fd = map abs_item (iocp_waiters_of s fd)"
  by (cases "ifds s fd") (simp_all add: waiters_of_def iocp_waiters_of_def)

lemma iocp_inv_frame:
  assumes "iocp_inv reg (s, g)" and "waiters_of (abs_epr reg s') = waiters_of (abs_epr reg s)" and "interest_of (abs_epr reg s') = interest_of (abs_epr reg s)"
    and "reg (ikern s') = reg (ikern s)" and "\<And>fd. (\<exists>st. ifds s' fd = Some st \<and> ii_registered st) \<longleftrightarrow> (\<exists>st. ifds s fd = Some st \<and> ii_registered st)"
  shows "iocp_inv reg (s', g)"
  using assms by (simp add: iocp_inv_def flags_ok_def interest_ok_def accounted_def del: waiters_of_abs)

lemma iocp_inv_frame_eq:
  "iocp_inv reg (s, g) \<Longrightarrow> ifds s' = ifds s \<Longrightarrow> reg (ikern s') = reg (ikern s) \<Longrightarrow> iocp_inv reg (s', g)"
  by (rule iocp_inv_frame [of reg s g s']) (simp_all add: waiters_of_def interest_of_def fun_eq_iff)

lemma add_fd_inv:
  assumes "\<And>fd k. reg (io_port io fd k) = reg k" and "iocp_inv reg (s, g)"
  shows "iocp_inv reg (iocp_add_fd io fd s, g)"
proof -
  let ?s1 = "s\<lparr>ikern := io_port io fd (ikern s)\<rparr>" and ?s2 = "s\<lparr>ikern := io_port io fd (ikern s), ifds := (ifds s)(fd \<mapsto> empty_iocp_fd)\<rparr>"
  have "iocp_inv reg (?s1, g)" by (rule iocp_inv_frame_eq [OF assms(2)]) (simp_all add: assms(1))
  moreover have "iocp_inv reg (?s2, g)" if n: "ifds s fd = None"
  proof (rule iocp_inv_frame [OF assms(2)])
    show "waiters_of (abs_epr reg ?s2) = waiters_of (abs_epr reg s)"
      using n by (auto simp: fun_eq_iff iocp_waiters_of_def empty_iocp_fd_def simp del: abs_epr_upd)
    show "interest_of (abs_epr reg ?s2) = interest_of (abs_epr reg s)"
      using n by (auto simp: fun_eq_iff interest_of_def empty_fd_state_def simp del: abs_epr_upd)
    show "(\<exists>st. ifds ?s2 fd' = Some st \<and> ii_registered st) \<longleftrightarrow> (\<exists>st. ifds s fd' = Some st \<and> ii_registered st)" for fd'
      using n by (auto simp: empty_iocp_fd_def)
  qed (simp add: assms(1))
  ultimately show ?thesis by (simp add: iocp_add_fd_def Let_def)
qed

lemma resumed_at_once:
  "iocp_inv reg (s, g) \<Longrightarrow>
   iocp_inv reg (s, g\<lparr>registered := (registered g)(fd := add_mset w (registered g fd)), resumed := (resumed g)(fd := resumed g fd @ [w])\<rparr>)"
  by (simp add: iocp_inv_def accounted_def)

text \<open>What \<open>handle_completion\<close> leaves alone.\<close>

lemma handle_completion_frame:
  assumes "iocp_route pst' pst reg"
  shows "ifds (handle_completion io pst povl s) = ifds s" "ikern (handle_completion io pst povl s) = ikern s"
  using iocp_route.pst_ifds [OF assms] iocp_route.pst_ikern [OF assms]
  by (auto simp: handle_completion_def Let_def reset_guard_def split: option.splits)

lemma iocp_step_invariant:
  assumes "iocp_step io pst c c'" and W: "wepoll_instance (io_ctl io) reg" and R: "iocp_route pst' pst reg"
    and P: "\<And>fd k. reg (io_port io fd k) = reg k" and I: "iocp_inv reg c"
  shows "iocp_inv reg c'"
  using assms(1) I
proof induction
  have ep: "interest_ok (\<lambda>k. k) x1 \<and> accounted (x1, g1)"
    if "ep_step demo_ctl pst' (\<lambda>_ _ x. x) (x, g) (x1, g1)" "interest_ok (\<lambda>k. k) x" "accounted (x, g)" for x x1 :: "(fd \<rightharpoonup> 32 word) epr" and g g1
    using ep_step_invariant [OF that(1) demo_kernel.epoll_instance_axioms iocp_route.axioms(1) [OF R]] that(2,3) by simp
  note simps = iocp_inv_def fst_conv snd_conv
  {
    case (Add_fd s g fd)
    then show ?case by (rule add_fd_inv [OF P])
  next
    case (Register fd s g evmask w pf)
    note r = wepoll_instance.register_simulates [OF W refl _ Register.hyps, of pst evmask w pf]
    show ?case
      using Register.prems ep [OF ep_step.Register, of "abs_epr reg s" g fd evmask w pf False 0] r by (simp add: simps)
  next
    case (Register_handle fd s g evmask w pf)
    then show ?case
      using iocp_inv_frame_eq [of reg s g "pst w s"] iocp_route.pst_ifds [OF R] iocp_route.pst_ikern [OF R]
      by (intro resumed_at_once) (simp_all add: iocp_register_waiter_def)
  next
    case (Remove s g fd)
    note r = wepoll_instance.remove_simulates [OF W refl _ R, of s fd]
    show ?case using Remove.prems ep [OF ep_step.Remove, of "abs_epr reg s" g fd] r by (simp add: simps)
  next
    case (Event fd flags s out s1 g)
    note r = wepoll_instance.dispatch_one_simulates [OF W refl _ R, of s "(fd, flags)"]
    have "take_ready demo_ctl fd flags (abs_epr reg s) = (map abs_item out, abs_epr reg s1)"
      using wepoll_instance.take_ready_simulates(1) [OF W refl, of s fd flags] Event by (simp add: iocp_inv_def)
    then show ?case using Event.prems ep [OF ep_step.Event, of fd flags "abs_epr reg s" "map abs_item out" "abs_epr reg s1" g] r by (simp add: simps)
  next
    case (Completion s g povl)
    show ?case
      by (rule iocp_inv_frame_eq [OF Completion.prems]) (simp_all add: handle_completion_frame [OF R])
  }
qed

section \<open>Completions\<close>

fun first_occ :: "'a list \<Rightarrow> 'a list" where
  "first_occ [] = []"
| "first_occ (x # xs) = x # filter (\<lambda>y. y \<noteq> x) (first_occ xs)"

lemma first_occ_filter: "first_occ (filter P xs) = filter P (first_occ xs)"
proof (induction xs)
  case (Cons x xs)
  have "filter P (first_occ xs) = filter (\<lambda>y. P y \<and> y \<noteq> x) (first_occ xs)" if "\<not> P x"
    using that by (intro filter_cong) auto
  then show ?case by (simp add: Cons.IH conj_commute)
qed simp

lemma first_occ_distinct: "distinct (first_occ xs)" "set (first_occ xs) = set xs"
  by (induction xs) auto

definition postable :: "('k, 'b) iocp_scheme \<Rightarrow> addr \<Rightarrow> bool" where
  "postable s w \<longleftrightarrow> func s w \<noteq> Null \<and> \<not> callback_enqueued s w"

text \<open>The waiters of the packets, the structures without one left out.\<close>

definition packet_waiters :: "('k, 'b) iocp_scheme \<Rightarrow> addr list \<Rightarrow> addr list" where
  "packet_waiters s ps = List.map_filter (\<lambda>p. ov_waiter (ovl_mem s p)) ps"

definition live_waiter :: "'k iocp_os \<Rightarrow> ('k, 'b) iocp_scheme \<Rightarrow> addr \<Rightarrow> bool" where
  "live_waiter io s w \<longleftrightarrow> is_pointer_plausible io (Some w) (ikern s) \<and> plausible s w \<and> debug_magic s w = debug_magic_value"

lemma routed_post_effect:
  assumes "live_waiter io s w" and "postable s w" and "s1 = post_via_route True e w s"
  shows "ovl_mem s1 = ovl_mem s" "live_waiter io s1 = live_waiter io s" "postable s1 = (\<lambda>x. postable s x \<and> x \<noteq> w)"
  using assms by (auto simp: live_waiter_def postable_def post_via_route_def state_post_def capture_waiter_def link_entry_def exchange_enqueued_def
      wq_post_def enqueue_def trig_once_def emit_def cb_note_def Let_def fun_eq_iff)

lemma process_completions_posts:
  assumes "\<And>w. w \<in> set (packet_waiters s ps) \<Longrightarrow> live_waiter io s w"
  shows "process_completions io (\<lambda>w. post_via_route True (entry w) w) (map (\<lambda>p. (True, Some p)) ps) handled s =
    (handled \<or> ps \<noteq> [], fold (\<lambda>w. post_via_route True (entry w) w) (first_occ (filter (postable s) (packet_waiters s ps))) s)"
  using assms
proof (induction ps arbitrary: handled s)
  case (Cons p ps)
  let ?pst = "\<lambda>w s. post_via_route True (entry w) w s"
  show ?case
  proof (cases "ov_waiter (ovl_mem s p)")
    case None
    then show ?thesis
      using Cons.IH [of s True] Cons.prems by (simp add: handle_completion_def packet_waiters_def map_filter_simps)
  next
    case (Some w)
    have live: "live_waiter io s w" using Cons.prems [of w] Some by (simp add: packet_waiters_def map_filter_simps)
    show ?thesis
    proof (cases "postable s w")
      case True
      define s1 where "s1 = ?pst w s"
      note eff = routed_post_effect [OF live True s1_def]
      have h: "handle_completion io ?pst p s = s1"
        using live True Some by (simp add: handle_completion_def live_waiter_def postable_def s1_def)
      have ws: "packet_waiters s1 ps = packet_waiters s ps" by (simp add: packet_waiters_def eff(1))
      have "live_waiter io s1 x" if "x \<in> set (packet_waiters s1 ps)" for x
        using Cons.prems [of x] that Some by (simp add: ws eff(2)) (simp add: packet_waiters_def map_filter_simps)
      note IH = Cons.IH [OF this, of True]
      have "first_occ (filter (postable s) (packet_waiters s (p # ps))) = w # first_occ (filter (postable s1) (packet_waiters s ps))"
        using True Some by (simp add: packet_waiters_def map_filter_simps eff(3) first_occ_filter filter_filter conj_commute)
      then show ?thesis using IH by (simp add: h ws flip: s1_def)
    next
      case False
      then have "handle_completion io ?pst p s = s"
        using live Some by (auto simp: handle_completion_def live_waiter_def postable_def)
      then show ?thesis
        using Cons.IH [of s True] Cons.prems False Some by (simp add: packet_waiters_def map_filter_simps)
    qed
  qed
qed (simp add: packet_waiters_def map_filter_simps)

section \<open>Properties\<close>

text \<open>
  C18: On sockets the reactor does what the epoll reactor does: registering, removing and delivering events commute with the abstraction
  to the epoll reactor over the specification of an epoll instance, so the waiters kept, their order, the posts and the mask that wepoll
  holds are the same (up to \<open>EPOLLET\<close>); the flags \<open>registered\<close> stay right.
\<close>

theorem iocp_simulates_epoll:
  assumes "wepoll_instance (io_ctl io) reg" and "iocp_route pst' pst reg" and "flags_ok reg s" and "is_socket_fd io fd (ikern s)"
  shows "abs_epr reg (iocp_register_waiter io pst fd evmask (Some w) pf s) = register_waiter demo_ctl fd evmask w pf False 0 (abs_epr reg s)
    \<and> abs_epr reg (iocp_remove_fd io pst fd s) = remove_fd demo_ctl pst' fd (abs_epr reg s)
    \<and> abs_epr reg (dispatch_ready io pst evs s) = fold (handle_event demo_ctl pst') evs (abs_epr reg s)
    \<and> flags_ok reg (iocp_register_waiter io pst fd evmask (Some w) pf s)
    \<and> flags_ok reg (iocp_remove_fd io pst fd s) \<and> flags_ok reg (dispatch_ready io pst evs s)"
  using wepoll_instance.register_simulates [OF assms(1) refl assms(3,4)] wepoll_instance.remove_simulates [OF assms(1) refl assms(3,2)]
    wepoll_instance.dispatch_ready_simulates [OF assms(1) refl assms(3,2)] by blast

definition demo_io :: "(fd \<rightharpoonup> 32 word) iocp_os" where
  "demo_io = \<lparr>io_ctl = demo_ctl, io_getsockopt = (\<lambda>fd k. if fd = 5 then 0 else - 1), io_port = (\<lambda>fd k. k),
     io_query = (\<lambda>a k. Some (MEM_COMMIT, 4))\<rparr>"

definition demo_iocp :: "(fd \<rightharpoonup> 32 word) iocp" where
  "demo_iocp = cbq.extend demo_cbq (iocp.fields Map.empty
     (\<lambda>a. \<lparr>ov_offset = 0, ov_waiter = (if a < 60 then Some 2 else if a < 70 then Some 3 else None), ov_generation = 0, ov_cancelled = False\<rparr>) Map.empty)"

lemma demo_iocp_simps [simp]:
  "ifds demo_iocp = Map.empty" "ikern demo_iocp = Map.empty"
  "ovl_mem demo_iocp = (\<lambda>a. \<lparr>ov_offset = 0, ov_waiter = (if a < 60 then Some 2 else if a < 70 then Some 3 else None), ov_generation = 0, ov_cancelled = False\<rparr>)"
  "plausible demo_iocp = (\<lambda>_. True)" "debug_magic demo_iocp = (\<lambda>_. debug_magic_value)" "func demo_iocp = (\<lambda>_. Code Resume_cb)"
  "callback_enqueued demo_iocp = (\<lambda>_. False)"
  by (simp_all add: demo_iocp_def demo_cbq_def cbq.defs iocp.defs)

interpretation demo_wepoll: wepoll_instance "io_ctl demo_io" "\<lambda>k. k"
  by unfold_locales (auto simp: demo_ctl_def demo_io_def)

lemma demo_socket: "is_socket_fd demo_io 5 k" "\<not> is_socket_fd demo_io 6 k"
  by (simp_all add: is_socket_fd_def demo_io_def INVALID_SOCKET_def)

lemma demo_flags: "flags_ok (\<lambda>k. k) demo_iocp"
  by (simp add: flags_ok_def)

theorem iocp_simulates_epoll_witness:
  "waiters_of (abs_epr (\<lambda>k. k) (iocp_register_waiter demo_io wq_post 5 EPOLLIN (Some 20) True demo_iocp)) 5 =
     [\<lparr>wi_mask = EPOLLIN, wi_waiter = 20, has_timeout = False, deadline = 0\<rparr>]"
  using iocp_simulates_epoll [OF demo_wepoll.wepoll_instance_axioms iocp_direct.iocp_route_axioms demo_flags, of 5 EPOLLIN 20 True "[]"] demo_socket(1)
  by (simp add: register_waiters_of iocp_waiters_of_def del: waiters_of_abs) (simp add: iocp_waiters_of_def)

text \<open>
  In every interleaving of registrations, removals, events and completions, wepoll holds for every descriptor exactly the union of the
  masks of its waiters, and every waiter that was registered is either still waiting or was resumed, exactly once.
\<close>

theorem iocp_interest_and_waiters:
  assumes "wepoll_instance (io_ctl io) reg" and "iocp_route pst' pst reg" and "\<And>fd k. reg (io_port io fd k) = reg k"
    and "ifds s0 = Map.empty" and "reg (ikern s0) = Map.empty" and "iocp_reachable io pst s0 (s, g)"
  shows "map_option (\<lambda>ev. ev OR EPOLLET) (reg (ikern s) fd) = armed (iocp_interest (iocp_waiters_of s fd)) \<and>
    registered g fd = mset (map ii_waiter (iocp_waiters_of s fd)) + mset (resumed g fd)"
proof -
  have "iocp_inv reg c" if "iocp_reachable io pst s0 c" for c
    using that
  proof induction
    case Start
    show ?case
      using assms(4,5) by (simp add: iocp_inv_def flags_ok_def interest_ok_def accounted_def iocp_waiters_of_def interest_of_def armed_def mask_union_def)
  next
    case (Step c c')
    then show ?case using iocp_step_invariant [OF Step.hyps(2) assms(1-3)] by blast
  qed
  from this [OF assms(6)] show ?thesis by (simp add: iocp_inv_def interest_ok_def accounted_def o_def)
qed

theorem iocp_interest_and_waiters_witness:
  "\<exists>s g. iocp_reachable demo_io wq_post demo_iocp (s, g) \<and> iocp_waiters_of s 5 = [\<lparr>ii_mask = EPOLLIN, ii_waiter = 20\<rparr>] \<and>
     ikern s 5 \<noteq> None \<and> registered g 5 = {#20#} \<and> resumed g 5 = []"
proof -
  let ?s = "iocp_register_waiter demo_io wq_post 5 EPOLLIN (Some 20) True demo_iocp"
  let ?g = "\<lparr>registered = (\<lambda>_. {#})(5 := {#20#}), resumed = (\<lambda>_. [])\<rparr>"
  have r: "iocp_reachable demo_io wq_post demo_iocp (?s, ?g)"
    using iocp_reachable.Step [OF iocp_reachable.Start iocp_step.Register, of demo_io 5 demo_iocp wq_post EPOLLIN 20 True] demo_socket by simp
  have nz: "EPOLLIN \<noteq> 0" by (simp add: EPOLLIN_def)
  then have w: "iocp_waiters_of ?s 5 = [\<lparr>ii_mask = EPOLLIN, ii_waiter = 20\<rparr>]"
    by (simp add: iocp_register_waiter_def demo_socket iocp_update_fd_interest_unlocked_def iocp_ctl_def empty_iocp_fd_def
        iocp_interest_def iocp_waiters_of_def Let_def) (simp add: demo_io_def demo_ctl_def)
  then have "iocp_interest (iocp_waiters_of ?s 5) = EPOLLIN" by (simp add: iocp_interest_def)
  then show ?thesis
    using r w nz iocp_interest_and_waiters [OF demo_wepoll.wepoll_instance_axioms iocp_direct.iocp_route_axioms _ _ _ r, of 5]
    by (intro exI [of _ ?s] exI [of _ ?g]) (auto simp: demo_io_def armed_def)
qed

text \<open>
  C19: A batch of completion packets posts every waiter at most once, in the order of the first packet of each; packets of a waiter that is
  already queued or has no callback, and structures without a waiter, post nothing.
\<close>

theorem iocp_completions_once:
  assumes "\<And>w. w \<in> set (packet_waiters s ps) \<Longrightarrow> live_waiter io s w"
  shows "process_completions io (\<lambda>w. post_via_route True (entry w) w) (map (\<lambda>p. (True, Some p)) ps) False s =
      (ps \<noteq> [], fold (\<lambda>w. post_via_route True (entry w) w) (first_occ (filter (postable s) (packet_waiters s ps))) s)
    \<and> distinct (first_occ (filter (postable s) (packet_waiters s ps)))"
  using process_completions_posts [OF assms, where handled = False] first_occ_distinct(1) by simp

theorem iocp_completions_once_witness:
  "process_completions demo_io (\<lambda>w. post_via_route True (w + 50) w) [(True, Some 50), (True, Some 60), (True, Some 51), (True, Some 70)] False demo_iocp =
     (True, post_via_route True 53 3 (post_via_route True 52 2 demo_iocp))"
proof -
  have w: "packet_waiters demo_iocp [50, 60, 51, 70] = [2, 3, 2]" by (simp add: packet_waiters_def map_filter_simps)
  have "live_waiter demo_io demo_iocp x" for x
    by (simp add: live_waiter_def is_pointer_plausible_def demo_io_def MEM_COMMIT_def PAGE_NOACCESS_def PAGE_GUARD_def)
  from iocp_completions_once [OF this, where ps = "[50, 60, 51, 70]" and entry = "\<lambda>w. w + 50"] show ?thesis by (simp add: w postable_def)
qed

text \<open>
  Stopping: the destructor clears \<open>_running\<close> before it wakes the thread, so the last call of \<open>process_completions\<close> takes no packet and the
  waiters of the operations still queued at the port are not posted.
\<close>

theorem iocp_stop_drops_packets:
  "iocp_run_loop io pst ts ((False, packet) # ps) s = iocp_loop io pst ts s"
  by (simp add: iocp_run_loop_def)

text \<open>A timeout is ignored: the waiter is registered as without one, and only an event or the removal of its descriptor resumes it.\<close>

theorem iocp_timeout_ignored:
  "iocp_add_waiter_with_timeout io pst fd evmask w timeout s = iocp_add_waiter io pst fd evmask w s"
  by (simp add: iocp_add_waiter_with_timeout_def iocp_add_waiter_def)

end
