(* ===== verification/Iocp_File.thy ===== *)
theory Iocp_File
  imports Iocp_Reactor Socket_Interface
begin

text \<open>
  File handles of Windows: the second part of \<^verbatim>\<open>io/file_io.hpp\<close>, and the Windows branch of \<^verbatim>\<open>io/file_open.hpp\<close>.

  Reads and writes are overlapped operations; the state of one file extends that of its reactor. An awaiter is named by its work node,
  \<open>wa_ovl\<close> is the address of its member \<open>ovl\<close>. The system calls are the fields of \<open>wf_os\<close>; \<open>wf_stored\<close> is what the system has written to the
  buffer of an operation.
\<close>

section \<open>Data\<close>

record 'k wf_os =
  wf_io :: "'k iocp_os"
  wf_create :: "string \<Rightarrow> 32 word \<Rightarrow> 32 word \<Rightarrow> 32 word \<Rightarrow> 32 word \<Rightarrow> 'k \<Rightarrow> fd \<times> 'k"
  wf_read :: "fd \<Rightarrow> addr \<Rightarrow> 64 word \<Rightarrow> 32 word \<Rightarrow> 'k \<Rightarrow> (bool \<times> 32 word \<times> 32 word) \<times> 'k"
  wf_write :: "fd \<Rightarrow> addr \<Rightarrow> 64 word \<Rightarrow> bytes \<Rightarrow> 32 word \<Rightarrow> 'k \<Rightarrow> (bool \<times> 32 word \<times> 32 word) \<times> 'k"
  wf_result :: "fd \<Rightarrow> addr \<Rightarrow> 'k \<Rightarrow> 32 word option"
  wf_stored :: "addr \<Rightarrow> 'k \<Rightarrow> bytes"
  wf_close :: "fd \<Rightarrow> 'k \<Rightarrow> 'k"

record win_aw =
  wa_ret :: int
  wa_buf :: bytes
  wa_len :: nat
  wa_ovl :: addr

record 'k wfile = "'k iocp" +
  wf_handle :: fd
  waw :: "addr \<Rightarrow> win_aw"

definition INVALID_HANDLE_VALUE :: fd where "INVALID_HANDLE_VALUE = - 1"
definition ERROR_IO_PENDING :: "32 word" where "ERROR_IO_PENDING = 997"
definition GENERIC_READ :: "32 word" where "GENERIC_READ = 0x80000000"
definition GENERIC_WRITE :: "32 word" where "GENERIC_WRITE = 0x40000000"
definition FILE_SHARE_READ :: "32 word" where "FILE_SHARE_READ = 1"
definition CREATE_ALWAYS :: "32 word" where "CREATE_ALWAYS = 2"
definition OPEN_EXISTING :: "32 word" where "OPEN_EXISTING = 3"
definition FILE_ATTRIBUTE_NORMAL :: "32 word" where "FILE_ATTRIBUTE_NORMAL = 0x80"
definition FILE_FLAG_OVERLAPPED :: "32 word" where "FILE_FLAG_OVERLAPPED = 0x40000000"

section \<open>Construction, opening and closing\<close>

datatype win_file_error = Invalid_file_handle

definition win_file_make :: "'k wf_os \<Rightarrow> fd \<Rightarrow> ('k, 'b) wfile_scheme \<Rightarrow> win_file_error + ('k, 'b) wfile_scheme" where
  "win_file_make os handle s =
     (if handle = INVALID_HANDLE_VALUE then Inl Invalid_file_handle
      else Inr (iocp_add_fd (wf_io os) handle (s\<lparr>wf_handle := handle\<rparr>)))"

definition win_file_closed :: "('k, 'b) wfile_scheme \<Rightarrow> bool" where
  "win_file_closed s \<longleftrightarrow> wf_handle s = INVALID_HANDLE_VALUE"

definition win_file_close ::
  "'k wf_os \<Rightarrow> (addr \<Rightarrow> ('k, 'b) wfile_scheme \<Rightarrow> ('k, 'b) wfile_scheme) \<Rightarrow> ('k, 'b) wfile_scheme \<Rightarrow> ('k, 'b) wfile_scheme" where
  "win_file_close os pst s =
     (if wf_handle s \<noteq> INVALID_HANDLE_VALUE
      then let s1 = iocp_remove_fd (wf_io os) pst (wf_handle s) s
           in s1\<lparr>ikern := wf_close os (wf_handle s1) (ikern s1), wf_handle := INVALID_HANDLE_VALUE\<rparr>
      else s)"

datatype win_open_mode = Win_read_only | Win_write_trunc

definition win_open_file_handle ::
  "'k wf_os \<Rightarrow> string \<Rightarrow> win_open_mode \<Rightarrow> ('k, 'b) wfile_scheme \<Rightarrow> (win_file_error + ('k, 'b) wfile_scheme) option" where
  "win_open_file_handle os path mode s =
     (case (case mode of Win_read_only \<Rightarrow> (GENERIC_READ, FILE_SHARE_READ, OPEN_EXISTING) | Win_write_trunc \<Rightarrow> (GENERIC_WRITE, 0, CREATE_ALWAYS)) of
        (access, share, disp) \<Rightarrow>
          (case wf_create os path access share disp (FILE_ATTRIBUTE_NORMAL OR FILE_FLAG_OVERLAPPED) (ikern s) of (h, k) \<Rightarrow>
             let s1 = s\<lparr>ikern := k\<rparr> in if h = INVALID_HANDLE_VALUE then None else Some (win_file_make os h s1)))"

section \<open>Reading and writing\<close>

text \<open>The constructor of an awaiter clears its \<open>OVERLAPPED\<close>; the file offset of the operation is a field of it.\<close>

definition win_awaiter_init :: "addr \<Rightarrow> addr \<Rightarrow> bytes \<Rightarrow> nat \<Rightarrow> ('k, 'b) wfile_scheme \<Rightarrow> ('k, 'b) wfile_scheme" where
  "win_awaiter_init a ovl buf len s =
     (let s1 = io_waiter_base_init a s
      in s1\<lparr>waw := (waw s1)(a := \<lparr>wa_ret = - 1, wa_buf = buf, wa_len = len, wa_ovl = ovl\<rparr>),
            ovl_mem := (ovl_mem s1)(ovl := \<lparr>ov_offset = 0, ov_waiter = Some a, ov_generation = 0, ov_cancelled = False\<rparr>)\<rparr>)"

definition win_set_ret :: "addr \<Rightarrow> int \<Rightarrow> ('k, 'b) wfile_scheme \<Rightarrow> ('k, 'b) wfile_scheme" where
  "win_set_ret a r s = s\<lparr>waw := (waw s)(a := (waw s a)\<lparr>wa_ret := r\<rparr>)\<rparr>"

text \<open>\<open>tr\<close> is a \<open>DWORD\<close>, as is the length given to the system. \<open>win_started\<close> is what both kinds of awaiter do with the answer.\<close>

definition win_arm :: "addr \<Rightarrow> addr \<Rightarrow> ('k, 'b) wfile_scheme \<Rightarrow> ('k, 'b) wfile_scheme" where
  "win_arm a h s = s\<lparr>h_of := (h_of s)(a := Some h), func := (func s)(a := Code Resume_cb), lks := INIT_LIST_HEAD a (lks s)\<rparr>"

definition win_started ::
  "(addr \<Rightarrow> ('k, 'b) wfile_scheme \<Rightarrow> ('k, 'b) wfile_scheme) \<Rightarrow> addr \<Rightarrow> bool \<times> 32 word \<times> 32 word \<Rightarrow> ('k, 'b) wfile_scheme \<Rightarrow> ('k, 'b) wfile_scheme" where
  "win_started pst a = (\<lambda>(ok, tr, err) s.
     if ok then iocp_post_completion pst a (win_set_ret a (int (unat tr)) s)
     else if err \<noteq> ERROR_IO_PENDING then iocp_post_completion pst a (win_set_ret a (- 1) s)
     else s)"

definition win_read_suspend ::
  "'k wf_os \<Rightarrow> (addr \<Rightarrow> ('k, 'b) wfile_scheme \<Rightarrow> ('k, 'b) wfile_scheme) \<Rightarrow> addr \<Rightarrow> addr \<Rightarrow> ('k, 'b) wfile_scheme \<Rightarrow> ('k, 'b) wfile_scheme" where
  "win_read_suspend os pst a h s =
     (let s1 = win_arm a h s; aw = waw s1 a
      in case wf_read os (wf_handle s1) (wa_ovl aw) (ov_offset (ovl_mem s1 (wa_ovl aw))) (word_of_nat (wa_len aw)) (ikern s1) of
           (answer, k) \<Rightarrow> win_started pst a answer (s1\<lparr>ikern := k\<rparr>))"

definition win_write_suspend ::
  "'k wf_os \<Rightarrow> (addr \<Rightarrow> ('k, 'b) wfile_scheme \<Rightarrow> ('k, 'b) wfile_scheme) \<Rightarrow> addr \<Rightarrow> addr \<Rightarrow> ('k, 'b) wfile_scheme \<Rightarrow> ('k, 'b) wfile_scheme" where
  "win_write_suspend os pst a h s =
     (let s1 = win_arm a h s; aw = waw s1 a
      in case wf_write os (wf_handle s1) (wa_ovl aw) (ov_offset (ovl_mem s1 (wa_ovl aw))) (wa_buf aw) (word_of_nat (wa_len aw)) (ikern s1) of
           (answer, k) \<Rightarrow> win_started pst a answer (s1\<lparr>ikern := k\<rparr>))"

definition win_await_resume :: "'k wf_os \<Rightarrow> addr \<Rightarrow> ('k, 'b) wfile_scheme \<Rightarrow> int \<times> ('k, 'b) wfile_scheme" where
  "win_await_resume os a s =
     (let s1 = (if wa_ret (waw s a) = - 1
                then case wf_result os (wf_handle s) (wa_ovl (waw s a)) (ikern s) of
                       Some tr \<Rightarrow> win_set_ret a (int (unat tr)) s | None \<Rightarrow> s
                else s)
      in (wa_ret (waw s1 a), s1))"

text \<open>
  \<open>co_await\<close> of a read and of a write: the operation is started and finishes (\<open>finish\<close> is the system finishing what is outstanding of an
  \<open>OVERLAPPED\<close>), the reactor takes its packet, and the coroutine resumes.
\<close>

definition win_delivered ::
  "'k wf_os \<Rightarrow> (addr \<Rightarrow> 'k \<Rightarrow> 'k) \<Rightarrow> (addr \<Rightarrow> ('k, 'b) wfile_scheme \<Rightarrow> ('k, 'b) wfile_scheme) \<Rightarrow> addr \<Rightarrow> ('k, 'b) wfile_scheme \<Rightarrow>
   ('k, 'b) wfile_scheme" where
  "win_delivered os finish pst ovl s = handle_completion (wf_io os) pst ovl (s\<lparr>ikern := finish ovl (ikern s)\<rparr>)"

definition win_read ::
  "'k wf_os \<Rightarrow> (addr \<Rightarrow> 'k \<Rightarrow> 'k) \<Rightarrow> (addr \<Rightarrow> ('k, 'b) wfile_scheme \<Rightarrow> ('k, 'b) wfile_scheme) \<Rightarrow> addr \<Rightarrow> addr \<Rightarrow> addr \<Rightarrow> nat \<Rightarrow>
   ('k, 'b) wfile_scheme \<Rightarrow> int \<times> bytes \<times> ('k, 'b) wfile_scheme" where
  "win_read os finish pst a ovl h len s =
     (case win_await_resume os a (win_delivered os finish pst ovl (win_read_suspend os pst a h (win_awaiter_init a ovl [] len s))) of
        (n, s1) \<Rightarrow> (n, wf_stored os ovl (ikern s1), s1))"

definition win_write ::
  "'k wf_os \<Rightarrow> (addr \<Rightarrow> 'k \<Rightarrow> 'k) \<Rightarrow> (addr \<Rightarrow> ('k, 'b) wfile_scheme \<Rightarrow> ('k, 'b) wfile_scheme) \<Rightarrow> addr \<Rightarrow> addr \<Rightarrow> addr \<Rightarrow> bytes \<Rightarrow>
   ('k, 'b) wfile_scheme \<Rightarrow> int \<times> ('k, 'b) wfile_scheme" where
  "win_write os finish pst a ovl h buf s =
     win_await_resume os a (win_delivered os finish pst ovl (win_write_suspend os pst a h (win_awaiter_init a ovl buf (length buf) s)))"

section \<open>Interfaces\<close>

text \<open>What posting leaves alone.\<close>

locale win_route =
  fixes pst :: "addr \<Rightarrow> ('k, 'b) wfile_scheme \<Rightarrow> ('k, 'b) wfile_scheme"
  assumes pst_frame [simp]: "ikern (pst w s) = ikern s" "ovl_mem (pst w s) = ovl_mem s" "waw (pst w s) = waw s" "wf_handle (pst w s) = wf_handle s"
begin

lemma started_frame [simp]:
  "ikern (win_started pst a r s) = ikern s" "ovl_mem (win_started pst a r s) = ovl_mem s" "wf_handle (win_started pst a r s) = wf_handle s"
  by (auto simp: win_started_def iocp_post_completion_def win_set_ret_def split: prod.splits)

lemma completion_frame:
  "ikern (handle_completion io pst p s) = ikern s" "waw (handle_completion io pst p s) = waw s" "wf_handle (handle_completion io pst p s) = wf_handle s"
  by (auto simp: handle_completion_def Let_def reset_guard_def split: option.splits)

end

interpretation win_direct: win_route "wq_post :: addr \<Rightarrow> ('k, 'b) wfile_scheme \<Rightarrow> ('k, 'b) wfile_scheme"
  by unfold_locales (auto simp: wq_post_def enqueue_def trig_once_def emit_def)

lemma state_post_wfile: "waw (snd (state_post e w s)) = waw s" "wf_handle (snd (state_post e w s)) = wf_handle s"
  for s :: "('k, 'b) wfile_scheme"
  by (auto simp: state_post_def link_entry_def exchange_enqueued_def wq_post_def enqueue_def trig_once_def emit_def cb_note_def
      Let_def split: option.splits)

interpretation win_routed: win_route "\<lambda>w (s :: ('k, 'b) wfile_scheme). post_via_route (route w) (entry w) w s" for route entry
  by unfold_locales (simp_all add: post_via_route_def state_post_iocp state_post_wfile)

lemma uint_of_unat: "unat w = n \<Longrightarrow> uint w = int n"
  by auto

text \<open>
  The documented behaviour of overlapped operations on a file that is associated with a completion port and on which none fails: an operation
  works at the offset in its \<open>OVERLAPPED\<close> and transfers what is asked for, as far as there is. It finishes at once or later, and a packet is
  queued at the port in both cases. \<open>content\<close> are the bytes of the file, \<open>port\<close> the packets at the port.
\<close>

definition transferred :: "'k wf_os \<Rightarrow> fd \<Rightarrow> addr \<Rightarrow> bool \<times> 32 word \<times> 32 word \<Rightarrow> nat \<Rightarrow> (addr \<Rightarrow> 'k \<Rightarrow> 'k) \<Rightarrow> 'k \<Rightarrow> bool" where
  "transferred os fh ovl = (\<lambda>(ok, tr, err) n finish k.
     if ok then unat tr = n \<and> finish ovl k = k
     else err = ERROR_IO_PENDING \<and> (\<exists>r. wf_result os fh ovl (finish ovl k) = Some r \<and> unat r = n))"

locale overlapped_file =
  fixes os :: "'k wf_os" and fh :: fd and finish :: "addr \<Rightarrow> 'k \<Rightarrow> 'k" and content :: "'k \<Rightarrow> bytes" and port :: "'k \<Rightarrow> addr list"
  assumes read_doc: "wf_read os fh ovl off len k = (answer, k1) \<Longrightarrow>
      (let d = take (unat len) (drop (unat off) (content k)) in
       transferred os fh ovl answer (length d) finish k1 \<and> wf_stored os ovl (finish ovl k1) = d \<and> content (finish ovl k1) = content k)"
    and write_doc: "wf_write os fh ovl off b len k = (answer, k1) \<Longrightarrow>
      (let d = take (unat len) b in
       transferred os fh ovl answer (length d) finish k1 \<and> content (finish ovl k1) = buf_write (unat off) d (content k))"
    and read_packet: "wf_read os fh ovl off len k = ((ok, tr, err), k1) \<Longrightarrow> port k1 = port k @ (if ok then [ovl] else [])"
begin

text \<open>What an operation that is started yields.\<close>

lemma resumed_value:
  fixes s :: "('k, 'b) wfile_scheme"
  assumes "win_route pst" and "wf_handle s = fh" and "wa_ovl (waw s a) = ovl" and "wa_ret (waw s a) = - 1"
    and "transferred os fh ovl answer n finish (ikern s)"
  shows "\<exists>s1. win_await_resume os a (win_delivered os finish pst ovl (win_started pst a answer s)) = (int n, s1) \<and>
    ikern s1 = finish ovl (ikern s) \<and> wf_handle s1 = fh"
proof -
  obtain ok tr err where a: "answer = (ok, tr, err)" by (metis prod_cases3)
  let ?s1 = "win_started pst a answer s"
  let ?s2 = "win_delivered os finish pst ovl ?s1"
  have f: "ikern ?s2 = finish ovl (ikern s)" "waw ?s2 = waw ?s1" "wf_handle ?s2 = fh"
    using assms(2) by (simp_all add: win_delivered_def win_route.completion_frame [OF assms(1)] win_route.started_frame [OF assms(1)])
  show ?thesis
  proof (cases ok)
    case True
    then have "wa_ret (waw ?s1 a) = int n"
      using assms(5) uint_of_unat [of tr n]
      by (simp add: a win_started_def iocp_post_completion_def win_route.pst_frame [OF assms(1)] win_set_ret_def transferred_def)
    then show ?thesis using f by (simp add: win_await_resume_def)
  next
    case False
    then obtain r where r: "wf_result os fh ovl (finish ovl (ikern s)) = Some r" "unat r = n" and p: "err = ERROR_IO_PENDING"
      using assms(5) by (auto simp: a transferred_def)
    have "?s1 = s" using False by (simp add: a win_started_def p)
    then show ?thesis using f r assms(3,4) uint_of_unat [OF r(2)] by (simp add: win_await_resume_def win_set_ret_def)
  qed
qed

lemma init_frame [simp]:
  "ikern (win_arm a h (win_awaiter_init a ovl b len s)) = ikern s" "wf_handle (win_arm a h (win_awaiter_init a ovl b len s)) = wf_handle s"
  "waw (win_arm a h (win_awaiter_init a ovl b len s)) a = \<lparr>wa_ret = - 1, wa_buf = b, wa_len = len, wa_ovl = ovl\<rparr>"
  "ovl_mem (win_arm a h (win_awaiter_init a ovl b len s)) ovl = \<lparr>ov_offset = 0, ov_waiter = Some a, ov_generation = 0, ov_cancelled = False\<rparr>"
  by (simp_all add: win_arm_def win_awaiter_init_def io_waiter_base_init_def Let_def)

lemma win_read_value:
  fixes s :: "('k, 'b) wfile_scheme" and len :: nat
  assumes "win_route pst" and "wf_handle s = fh"
  defines "d \<equiv> take (len mod 2 ^ 32) (content (ikern s))"
  shows "\<exists>s1. win_read os finish pst a ovl h len s = (int (length d), d, s1) \<and> content (ikern s1) = content (ikern s) \<and> wf_handle s1 = fh"
proof -
  let ?t = "win_arm a h (win_awaiter_init a ovl [] len s)"
  obtain answer k where r: "wf_read os fh ovl 0 (word_of_nat len) (ikern s) = (answer, k)" by fastforce
  have doc: "transferred os fh ovl answer (length d) finish k" "wf_stored os ovl (finish ovl k) = d" "content (finish ovl k) = content (ikern s)"
    using read_doc [OF r] by (simp_all add: Let_def d_def unat_of_nat)
  obtain s1 where s1: "win_await_resume os a (win_delivered os finish pst ovl (win_started pst a answer (?t\<lparr>ikern := k\<rparr>))) = (int (length d), s1)"
    "ikern s1 = finish ovl k" "wf_handle s1 = fh"
    using resumed_value [OF assms(1), of "?t\<lparr>ikern := k\<rparr>" a ovl answer "length d"] doc assms(2) by auto
  then show ?thesis using s1 doc assms(2) by (simp add: win_read_def win_read_suspend_def r)
qed

lemma win_write_value:
  fixes s :: "('k, 'b) wfile_scheme"
  assumes "win_route pst" and "wf_handle s = fh" and "length b < 2 ^ 32"
  shows "\<exists>s1. win_write os finish pst a ovl h b s = (int (length b), s1) \<and> content (ikern s1) = b @ drop (length b) (content (ikern s)) \<and> wf_handle s1 = fh"
proof -
  let ?t = "win_arm a h (win_awaiter_init a ovl b (length b) s)"
  obtain answer k where r: "wf_write os fh ovl 0 b (word_of_nat (length b)) (ikern s) = (answer, k)" by fastforce
  have doc: "transferred os fh ovl answer (length b) finish k" "content (finish ovl k) = b @ drop (length b) (content (ikern s))"
    using write_doc [OF r] assms(3) by (simp_all add: Let_def unat_of_nat buf_write_def)
  obtain s1 where s1: "win_await_resume os a (win_delivered os finish pst ovl (win_started pst a answer (?t\<lparr>ikern := k\<rparr>))) = (int (length b), s1)"
    "ikern s1 = finish ovl k" "wf_handle s1 = fh"
    using resumed_value [OF assms(1), of "?t\<lparr>ikern := k\<rparr>" a ovl answer "length b"] doc assms(2) by auto
  then show ?thesis using s1 doc assms(2) by (simp add: win_write_def win_write_suspend_def r)
qed

end

section \<open>A file in memory\<close>

text \<open>\<open>rw_async\<close> tells whether the next operation is left pending; operations alternate.\<close>

record ramw =
  rw_content :: bytes
  rw_port :: "addr list"
  rw_async :: bool
  rw_stored :: "addr \<Rightarrow> bytes"
  rw_pending :: "addr \<Rightarrow> (bytes \<times> 32 word) option"
  rw_result :: "addr \<Rightarrow> 32 word option"

definition ramw_issue :: "addr \<Rightarrow> bytes \<Rightarrow> 32 word \<Rightarrow> ramw \<Rightarrow> (bool \<times> 32 word \<times> 32 word) \<times> ramw" where
  "ramw_issue ovl d n k =
     (if rw_async k then ((False, 0, ERROR_IO_PENDING), k\<lparr>rw_pending := (rw_pending k)(ovl \<mapsto> (d, n)), rw_async := False\<rparr>)
      else ((True, n, 0), k\<lparr>rw_pending := (rw_pending k)(ovl := None), rw_stored := (rw_stored k)(ovl := d), rw_port := rw_port k @ [ovl],
                            rw_async := True\<rparr>))"

definition ramw_finish :: "addr \<Rightarrow> ramw \<Rightarrow> ramw" where
  "ramw_finish ovl k =
     (case rw_pending k ovl of None \<Rightarrow> k
      | Some (d, n) \<Rightarrow> k\<lparr>rw_pending := (rw_pending k)(ovl := None), rw_stored := (rw_stored k)(ovl := d), rw_result := (rw_result k)(ovl \<mapsto> n),
                         rw_port := rw_port k @ [ovl]\<rparr>)"

definition ramw_os :: "ramw wf_os" where
  "ramw_os = \<lparr>wf_io = \<lparr>io_ctl = (\<lambda>_ _ _ k. ((0, 0), k)), io_getsockopt = (\<lambda>_ _. - 1), io_port = (\<lambda>_ k. k), io_query = (\<lambda>_ _. Some (MEM_COMMIT, 4))\<rparr>,
     wf_create = (\<lambda>_ _ _ _ _ k. (7, k)),
     wf_read = (\<lambda>_ ovl off len k. let d = take (unat len) (drop (unat off) (rw_content k)) in ramw_issue ovl d (word_of_nat (length d)) k),
     wf_write = (\<lambda>_ ovl off b len k. let d = take (unat len) b in
        ramw_issue ovl [] (word_of_nat (length d)) (k\<lparr>rw_content := buf_write (unat off) d (rw_content k)\<rparr>)),
     wf_result = (\<lambda>_ ovl k. rw_result k ovl), wf_stored = (\<lambda>ovl k. rw_stored k ovl), wf_close = (\<lambda>_ k. k)\<rparr>"

lemma ramw_issue_doc:
  assumes "ramw_issue ovl d (word_of_nat n) k = (answer, k1)" and "n < 2 ^ 32"
  shows "transferred ramw_os fh ovl answer n ramw_finish k1 \<and> rw_stored (ramw_finish ovl k1) ovl = d \<and> rw_content (ramw_finish ovl k1) = rw_content k
    \<and> rw_port k1 = rw_port k @ (if fst answer then [ovl] else [])"
  using assms by (auto simp: ramw_issue_def ramw_finish_def transferred_def ramw_os_def unat_of_nat split: if_splits)

lemma take_word_length: "length (take (unat (len :: 32 word)) xs) < 2 ^ 32"
  using unsigned_less [of len, where 'a = nat] by (simp add: min_less_iff_disj)

interpretation ramw: overlapped_file ramw_os 7 ramw_finish rw_content rw_port
proof
  fix ovl and off :: "64 word" and len :: "32 word" and k k1 :: ramw and answer
  {
    assume "wf_read ramw_os 7 ovl off len k = (answer, k1)"
    then have r: "ramw_issue ovl (take (unat len) (drop (unat off) (rw_content k))) (word_of_nat (length (take (unat len) (drop (unat off) (rw_content k))))) k = (answer, k1)"
      by (simp add: ramw_os_def Let_def)
    show "let d = take (unat len) (drop (unat off) (rw_content k))
        in transferred ramw_os 7 ovl answer (length d) ramw_finish k1 \<and> wf_stored ramw_os ovl (ramw_finish ovl k1) = d \<and> rw_content (ramw_finish ovl k1) = rw_content k"
      using ramw_issue_doc [OF r take_word_length, of 7] unfolding Let_def by (simp add: ramw_os_def)
  }
  {
    fix ok tr err
    assume "wf_read ramw_os 7 ovl off len k = ((ok, tr, err), k1)"
    then show "rw_port k1 = rw_port k @ (if ok then [ovl] else [])"
      by (auto simp: ramw_os_def ramw_issue_def Let_def split: if_splits)
  }
  fix b
  assume "wf_write ramw_os 7 ovl off b len k = (answer, k1)"
  then have r: "ramw_issue ovl [] (word_of_nat (length (take (unat len) b))) (k\<lparr>rw_content := buf_write (unat off) (take (unat len) b) (rw_content k)\<rparr>) = (answer, k1)"
    by (simp add: ramw_os_def Let_def)
  show "let d = take (unat len) b
      in transferred ramw_os 7 ovl answer (length d) ramw_finish k1 \<and> rw_content (ramw_finish ovl k1) = buf_write (unat off) d (rw_content k)"
    using ramw_issue_doc [OF r take_word_length, of 7] unfolding Let_def by simp
qed

section \<open>Properties\<close>


definition demo_wfile :: "ramw wfile" where
  "demo_wfile = iocp.extend (cbq.extend demo_cbq (iocp.fields Map.empty (\<lambda>_. \<lparr>ov_offset = 0, ov_waiter = None, ov_generation = 0, ov_cancelled = False\<rparr>)
       \<lparr>rw_content = [1, 2, 3, 4, 5], rw_port = [], rw_async = False, rw_stored = (\<lambda>_. []), rw_pending = (\<lambda>_. None), rw_result = (\<lambda>_. None)\<rparr>))
     (wfile.fields 7 (\<lambda>_. \<lparr>wa_ret = - 1, wa_buf = [], wa_len = 0, wa_ovl = 0\<rparr>))"

lemma demo_wfile_simps [simp]:
  "ikern demo_wfile = \<lparr>rw_content = [1, 2, 3, 4, 5], rw_port = [], rw_async = False, rw_stored = (\<lambda>_. []), rw_pending = (\<lambda>_. None), rw_result = (\<lambda>_. None)\<rparr>"
  "wf_handle demo_wfile = 7" "plausible demo_wfile = (\<lambda>_. True)" "func demo_wfile = (\<lambda>_. Code Resume_cb)"
  "callback_enqueued demo_wfile = (\<lambda>_. False)" "debug_magic demo_wfile = (\<lambda>_. debug_magic_value)"
  by (simp_all add: demo_wfile_def demo_cbq_def cbq.defs iocp.defs wfile.defs)


text \<open>
  An operation that finishes at once posts its awaiter and leaves a packet at the port as well; while the awaiter lives and is not queued,
  that packet posts it a second time. An operation that is left pending is posted by its packet only.
\<close>

theorem win_read_posts:
  fixes s s2 :: "('k, 'b) wfile_scheme" and h :: addr
  assumes "overlapped_file os fh finish content port" and "win_route pst" and "wf_handle s = fh"
    and "wf_read os fh ovl 0 (word_of_nat len) (ikern s) = ((ok, tr, err), k)"
    and "ovl_mem s2 ovl = ovl_mem (win_awaiter_init a ovl [] len s) ovl" and "live_waiter (wf_io os) s2 a" and "postable s2 a"
  defines "t \<equiv> (win_arm a h (win_awaiter_init a ovl [] len s))\<lparr>ikern := k\<rparr>"
    and "s1 \<equiv> win_read_suspend os pst a h (win_awaiter_init a ovl [] len s)"
  shows "s1 = (if ok then pst a (win_set_ret a (uint tr) t) else t) \<and> port (ikern s1) = port (ikern s) @ (if ok then [ovl] else [])
    \<and> handle_completion (wf_io os) pst ovl s2 = pst a s2"
proof -
  have "\<not> ok \<Longrightarrow> err = ERROR_IO_PENDING"
    using overlapped_file.read_doc [OF assms(1,4)] by (simp add: Let_def transferred_def)
  then have "s1 = (if ok then pst a (win_set_ret a (uint tr) t) else t)"
    using assms(3,4) by (auto simp: s1_def t_def win_read_suspend_def win_started_def iocp_post_completion_def)
  moreover have "port k = port (ikern s) @ (if ok then [ovl] else [])"
    by (rule overlapped_file.read_packet [OF assms(1,4)])
  moreover have "ikern (pst a (win_set_ret a (uint tr) t)) = k" "ikern t = k"
    by (simp_all add: win_route.pst_frame [OF assms(2)] win_set_ret_def t_def)
  moreover have "handle_completion (wf_io os) pst ovl s2 = pst a s2"
    using assms(6,7) by (simp add: handle_completion_def assms(5) live_waiter_def postable_def win_awaiter_init_def io_waiter_base_init_def Let_def)
  ultimately show ?thesis by simp
qed

theorem win_read_posts_witness:
  "rw_port (ikern (win_read_suspend ramw_os wq_post 2 102 (win_awaiter_init 2 50 [] 3 demo_wfile))) = [50] \<and>
   handle_completion (wf_io ramw_os) wq_post 50 (win_arm 2 102 (win_awaiter_init 2 50 [] 3 demo_wfile)) =
     wq_post 2 (win_arm 2 102 (win_awaiter_init 2 50 [] 3 demo_wfile))"
proof -
  let ?s0 = "win_awaiter_init 2 50 [] 3 demo_wfile"
  have r: "wf_read ramw_os 7 50 0 (word_of_nat 3) (ikern demo_wfile) =
      ((True, 3, 0), (ikern demo_wfile)\<lparr>rw_pending := (\<lambda>_. None), rw_stored := (\<lambda>_. [])(50 := [1, 2, 3]), rw_port := [50], rw_async := True\<rparr>)"
    by (simp add: ramw_os_def ramw_issue_def fun_eq_iff)
  have l: "live_waiter (wf_io ramw_os) (win_arm 2 102 ?s0) 2" "postable (win_arm 2 102 ?s0) 2" "ovl_mem (win_arm 2 102 ?s0) 50 = ovl_mem ?s0 50"
    by (simp_all add: live_waiter_def postable_def win_arm_def win_awaiter_init_def io_waiter_base_init_def ramw_os_def is_pointer_plausible_def MEM_COMMIT_def
        PAGE_NOACCESS_def PAGE_GUARD_def Let_def)
  note p = win_read_posts [OF ramw.overlapped_file_axioms win_direct.win_route_axioms demo_wfile_simps(2) r l(3,1,2), of 102]
  show ?thesis using conjunct1 [OF conjunct2 [OF p]] conjunct2 [OF conjunct2 [OF p]] by simp
qed

text \<open>A length that is a multiple of 4 GiB asks the system for nothing, and the read returns 0, which its user takes for the end of the file.\<close>

theorem win_read_multiple_of_4GiB:
  assumes "overlapped_file os fh finish content port" and "win_route pst" and "wf_handle s = fh" and "len mod 2 ^ 32 = 0"
  shows "\<exists>s1. win_read os finish pst a ovl h len s = (0, [], s1)"
  using overlapped_file.win_read_value [OF assms(1-3), of a ovl h len] assms(4) by auto

end
