(* ===== verification/Os_Compat.thy ===== *)
theory Os_Compat
  imports Stream_Socket
begin

text \<open>
  The system call layer of \<^verbatim>\<open>net/os_compat.hpp\<close>: the wrappers around Winsock and the Linux wrappers that do more than forward.

  The calls of Winsock are the fields of \<open>winsock\<close>: a result with the code of \<open>WSAGetLastError\<close>. A wrapper gives its result with the value it
  leaves in \<open>errno\<close>, which matters only after a failure. The constants of \<open>errno\<close> stand for their names and have the numbers of Linux here as in the
  other theories; \<open>EWOULDBLOCK\<close> is \<open>EAGAIN\<close>, which no comparison of the sockets tells apart. \<open>MSG_DONTWAIT\<close> and \<open>MSG_NOSIGNAL\<close> are 0 on
  Windows.
\<close>

unbundle bit_operations_syntax

section \<open>Error codes\<close>

definition SOCKET_ERROR :: int where "SOCKET_ERROR = - 1"
definition WSAEWOULDBLOCK :: int where "WSAEWOULDBLOCK = 10035"
definition WSAEINPROGRESS :: int where "WSAEINPROGRESS = 10036"
definition WSAECONNRESET :: int where "WSAECONNRESET = 10054"
definition WSAENOTCONN :: int where "WSAENOTCONN = 10057"
definition WSAESHUTDOWN :: int where "WSAESHUTDOWN = 10058"

text \<open>The cases of \<open>set_errno_from_wsa\<close> in order: \<open>WSAEWOULDBLOCK\<close>, \<open>INPROGRESS\<close>, \<open>ALREADY\<close>, \<open>NOTSOCK\<close>, \<open>DESTADDRREQ\<close>, and so on.\<close>

definition wsa_table :: "(int \<times> int) list" where
  "wsa_table =
     [(WSAEWOULDBLOCK, EAGAIN), (WSAEINPROGRESS, EINPROGRESS), (10037, 114), (10038, 88), (10039, 89), (10040, 90), (10041, 91), (10042, 92),
      (10043, 93), (10045, 95), (10047, 97), (10048, 98), (10049, 99), (10050, 100), (10051, 101), (10052, 102), (10053, 103),
      (WSAECONNRESET, ECONNRESET), (10055, 105), (10056, 106), (WSAENOTCONN, ENOTCONN), (10060, ETIMEDOUT), (10065, 113), (10022, 22),
      (WSAESHUTDOWN, EPIPE), (10024, 24)]"

definition set_errno_from_wsa :: "int \<Rightarrow> int" where
  "set_errno_from_wsa err = (case map_of wsa_table err of Some e \<Rightarrow> e | None \<Rightarrow> err)"

text \<open>What every wrapper does with the result of its call.\<close>

definition wsa_return :: "int \<Rightarrow> int \<Rightarrow> int \<times> int" where
  "wsa_return rc err = (if rc = SOCKET_ERROR then (- 1, set_errno_from_wsa err) else (rc, 0))"

section \<open>The wrappers around Winsock\<close>

record 'k winsock =
  ws_socket :: "int \<Rightarrow> int \<Rightarrow> int \<Rightarrow> 'k \<Rightarrow> (fd \<times> int) \<times> 'k"
  ws_no_inherit :: "fd \<Rightarrow> 'k \<Rightarrow> 'k"
  ws_closesocket :: "fd \<Rightarrow> 'k \<Rightarrow> (int \<times> int) \<times> 'k"
  ws_ioctl_nonblock :: "fd \<Rightarrow> 'k \<Rightarrow> (int \<times> int) \<times> 'k"
  ws_connect :: "fd \<Rightarrow> bytes \<Rightarrow> 'k \<Rightarrow> (int \<times> int) \<times> 'k"
  ws_getsockopt :: "fd \<Rightarrow> int \<Rightarrow> int \<Rightarrow> int \<Rightarrow> 'k \<Rightarrow> (int \<times> int) \<times> bytes \<times> int"
  ws_setsockopt :: "fd \<Rightarrow> int \<Rightarrow> int \<Rightarrow> bytes \<Rightarrow> int \<Rightarrow> 'k \<Rightarrow> (int \<times> int) \<times> 'k"
  ws_shutdown :: "fd \<Rightarrow> int \<Rightarrow> 'k \<Rightarrow> (int \<times> int) \<times> 'k"
  ws_getsockname :: "fd \<Rightarrow> int option \<Rightarrow> 'k \<Rightarrow> (int \<times> int) \<times> bytes \<times> int"
  ws_listen :: "fd \<Rightarrow> int \<Rightarrow> 'k \<Rightarrow> (int \<times> int) \<times> 'k"
  ws_accept :: "fd \<Rightarrow> int option \<Rightarrow> 'k \<Rightarrow> ((fd \<times> int) \<times> bytes \<times> int) \<times> 'k"
  ws_recv :: "fd \<Rightarrow> int \<Rightarrow> 32 word \<Rightarrow> 'k \<Rightarrow> ((int \<times> int) \<times> bytes) \<times> 'k"
  ws_recvfrom :: "fd \<Rightarrow> int \<Rightarrow> 32 word \<Rightarrow> int option \<Rightarrow> 'k \<Rightarrow> ((int \<times> int) \<times> bytes \<times> bytes \<times> int) \<times> 'k"
  ws_send :: "fd \<Rightarrow> bytes \<Rightarrow> int \<Rightarrow> 32 word \<Rightarrow> 'k \<Rightarrow> (int \<times> int) \<times> 'k"
  ws_sendto :: "fd \<Rightarrow> bytes \<Rightarrow> int \<Rightarrow> 32 word \<Rightarrow> bytes \<Rightarrow> 'k \<Rightarrow> (int \<times> int) \<times> 'k"
  ws_send_vec :: "fd \<Rightarrow> (bytes \<times> 32 word) list \<Rightarrow> 'k \<Rightarrow> ((int \<times> int) \<times> 32 word) \<times> 'k"
  ws_sendto_vec :: "fd \<Rightarrow> (bytes \<times> 32 word) list \<Rightarrow> 32 word \<Rightarrow> bytes \<Rightarrow> 'k \<Rightarrow> ((int \<times> int) \<times> 32 word) \<times> 'k"
  ws_bind :: "fd \<Rightarrow> bytes \<Rightarrow> 'k \<Rightarrow> (int \<times> int) \<times> 'k"

definition MSG_NOSIGNAL :: "32 word" where "MSG_NOSIGNAL = 0"
definition MSG_DONTWAIT :: "32 word" where "MSG_DONTWAIT = 0"
definition SOCK_NONBLOCK :: "32 word" where "SOCK_NONBLOCK = 0"
definition SOCK_CLOEXEC :: "32 word" where "SOCK_CLOEXEC = 0"

text \<open>\<open>static_cast<int>\<close> of a \<open>size_t\<close>.\<close>

definition to_int :: "nat \<Rightarrow> int" where
  "to_int n = sint (word_of_nat n :: 32 word)"

definition win_create_socket :: "'k winsock \<Rightarrow> int \<Rightarrow> int \<Rightarrow> int \<Rightarrow> 'k \<Rightarrow> (fd \<times> int) \<times> 'k" where
  "win_create_socket ws domain type protocol k =
     (case ws_socket ws domain type protocol k of ((fd, err), k1) \<Rightarrow>
        if fd = invalid_fd then ((invalid_fd, set_errno_from_wsa err), k1) else ((fd, 0), ws_no_inherit ws fd k1))"

definition win_close_fd :: "'k winsock \<Rightarrow> fd \<Rightarrow> 'k \<Rightarrow> (int \<times> int) \<times> 'k" where
  "win_close_fd ws fd k =
     (if fd = invalid_fd then ((0, 0), k)
      else case ws_closesocket ws fd k of ((rc, err), k1) \<Rightarrow> (if rc = SOCKET_ERROR then (- 1, set_errno_from_wsa err) else (0, 0), k1))"

definition win_set_non_block :: "'k winsock \<Rightarrow> fd \<Rightarrow> 'k \<Rightarrow> (int \<times> int) \<times> 'k" where
  "win_set_non_block ws fd k =
     (case ws_ioctl_nonblock ws fd k of ((rc, err), k1) \<Rightarrow> (if rc = SOCKET_ERROR then (- 1, set_errno_from_wsa err) else (0, 0), k1))"

definition win_connect :: "'k winsock \<Rightarrow> fd \<Rightarrow> bytes \<Rightarrow> 'k \<Rightarrow> (int \<times> int) \<times> 'k" where
  "win_connect ws fd address k =
     (case ws_connect ws fd address k of ((rc, err), k1) \<Rightarrow> (if rc = SOCKET_ERROR then (- 1, set_errno_from_wsa err) else (0, 0), k1))"

text \<open>A null \<open>optlen\<close> is \<open>None\<close>; the last component is the value written back.\<close>

definition win_getsockopt :: "'k winsock \<Rightarrow> fd \<Rightarrow> int \<Rightarrow> int \<Rightarrow> int option \<Rightarrow> 'k \<Rightarrow> (int \<times> int) \<times> bytes \<times> int option" where
  "win_getsockopt ws fd level optname optlen k =
     (let len = (case optlen of Some l \<Rightarrow> l | None \<Rightarrow> 0)
      in case ws_getsockopt ws fd level optname len k of ((rc, err), val, len') \<Rightarrow>
           if rc = SOCKET_ERROR then ((- 1, set_errno_from_wsa err), val, optlen)
           else ((0, 0), val, map_option (\<lambda>_. len') optlen))"

definition win_setsockopt :: "'k winsock \<Rightarrow> fd \<Rightarrow> int \<Rightarrow> int \<Rightarrow> bytes \<Rightarrow> int \<Rightarrow> 'k \<Rightarrow> (int \<times> int) \<times> 'k" where
  "win_setsockopt ws fd level optname optval optlen k =
     (case ws_setsockopt ws fd level optname optval optlen k of ((rc, err), k1) \<Rightarrow>
        (if rc = SOCKET_ERROR then (- 1, set_errno_from_wsa err) else (0, 0), k1))"

definition win_shutdown :: "'k winsock \<Rightarrow> fd \<Rightarrow> int \<Rightarrow> 'k \<Rightarrow> (int \<times> int) \<times> 'k" where
  "win_shutdown ws fd how k =
     (case ws_shutdown ws fd how k of ((rc, err), k1) \<Rightarrow> (if rc = SOCKET_ERROR then (- 1, set_errno_from_wsa err) else (0, 0), k1))"

definition win_getsockname :: "'k winsock \<Rightarrow> fd \<Rightarrow> int option \<Rightarrow> 'k \<Rightarrow> (int \<times> int) \<times> bytes \<times> int option" where
  "win_getsockname ws fd len k =
     (case ws_getsockname ws fd len k of ((rc, err), ad, alen) \<Rightarrow>
        if rc = SOCKET_ERROR then ((- 1, set_errno_from_wsa err), ad, len) else ((0, 0), ad, map_option (\<lambda>_. alen) len))"

definition win_listen :: "'k winsock \<Rightarrow> fd \<Rightarrow> int \<Rightarrow> 'k \<Rightarrow> (int \<times> int) \<times> 'k" where
  "win_listen ws fd backlog k =
     (case ws_listen ws fd backlog k of ((rc, err), k1) \<Rightarrow> (if rc = SOCKET_ERROR then (- 1, set_errno_from_wsa err) else (0, 0), k1))"

definition win_accept :: "'k winsock \<Rightarrow> fd \<Rightarrow> int option \<Rightarrow> 32 word \<Rightarrow> 'k \<Rightarrow> ((fd \<times> int) \<times> bytes \<times> int option) \<times> 'k" where
  "win_accept ws fd len flags k =
     (case ws_accept ws fd len k of (((s, err), ad, alen), k1) \<Rightarrow>
        if s = invalid_fd then (((invalid_fd, set_errno_from_wsa err), ad, len), k1)
        else let k2 = (if flags AND SOCK_NONBLOCK \<noteq> 0 then snd (win_set_non_block ws s k1) else k1);
                 k3 = (if flags AND SOCK_CLOEXEC \<noteq> 0 then ws_no_inherit ws s k2 else k2)
             in (((s, 0), ad, map_option (\<lambda>_. alen) len), k3))"

definition win_recv :: "'k winsock \<Rightarrow> fd \<Rightarrow> nat \<Rightarrow> 32 word \<Rightarrow> 'k \<Rightarrow> (int \<times> int \<times> bytes) \<times> 'k" where
  "win_recv ws fd len flags k =
     (let wflags = flags AND NOT (MSG_DONTWAIT OR MSG_NOSIGNAL)
      in case ws_recv ws fd (to_int len) wflags k of (((rc, err), d), k1) \<Rightarrow> (case wsa_return rc err of (n, e) \<Rightarrow> ((n, e, d), k1)))"

definition win_recvfrom ::
  "'k winsock \<Rightarrow> fd \<Rightarrow> nat \<Rightarrow> 32 word \<Rightarrow> int option \<Rightarrow> 'k \<Rightarrow> (int \<times> int \<times> bytes \<times> bytes \<times> int option) \<times> 'k" where
  "win_recvfrom ws fd len flags addrlen k =
     (let wflags = flags AND NOT (MSG_DONTWAIT OR MSG_NOSIGNAL)
      in case ws_recvfrom ws fd (to_int len) wflags addrlen k of (((rc, err), d, from, alen), k1) \<Rightarrow>
           (case wsa_return rc err of (n, e) \<Rightarrow>
              ((n, e, d, from, if rc = SOCKET_ERROR then addrlen else map_option (\<lambda>_. alen) addrlen), k1)))"

definition win_send :: "'k winsock \<Rightarrow> fd \<Rightarrow> bytes \<Rightarrow> 32 word \<Rightarrow> 'k \<Rightarrow> (int \<times> int) \<times> 'k" where
  "win_send ws fd b flags k =
     (let wflags = flags AND NOT (MSG_DONTWAIT OR MSG_NOSIGNAL)
      in case ws_send ws fd b (to_int (length b)) wflags k of ((rc, err), k1) \<Rightarrow> (wsa_return rc err, k1))"

definition win_sendto :: "'k winsock \<Rightarrow> fd \<Rightarrow> bytes \<Rightarrow> 32 word \<Rightarrow> bytes \<Rightarrow> 'k \<Rightarrow> (int \<times> int) \<times> 'k" where
  "win_sendto ws fd b flags address k =
     (case ws_sendto ws fd b (to_int (length b)) flags address k of ((rc, err), k1) \<Rightarrow> (wsa_return rc err, k1))"

text \<open>The loop that fills the \<open>WSABUF\<close>s; \<open>ULONG\<close> has 32 bits.\<close>

fun wsabufs :: "bytes list \<Rightarrow> (bytes \<times> 32 word) list" where
  "wsabufs [] = []"
| "wsabufs (v # iov) = (v, word_of_nat (length v)) # wsabufs iov"

definition win_writev :: "'k winsock \<Rightarrow> fd \<Rightarrow> bytes list \<Rightarrow> 'k \<Rightarrow> (int \<times> int) \<times> 'k" where
  "win_writev ws fd iov k =
     (case ws_send_vec ws fd (wsabufs iov) k of (((rc, err), m), k1) \<Rightarrow>
        (if rc = SOCKET_ERROR then (- 1, set_errno_from_wsa err) else (uint m, 0), k1))"

definition win_sendto_vec :: "'k winsock \<Rightarrow> fd \<Rightarrow> bytes list \<Rightarrow> bytes \<Rightarrow> 32 word \<Rightarrow> 'k \<Rightarrow> (int \<times> int) \<times> 'k" where
  "win_sendto_vec ws fd iov address flags k =
     (let dwFlags = flags AND NOT (MSG_DONTWAIT OR MSG_NOSIGNAL)
      in case ws_sendto_vec ws fd (wsabufs iov) dwFlags address k of (((rc, err), m), k1) \<Rightarrow>
        (if rc = SOCKET_ERROR then (- 1, set_errno_from_wsa err) else (uint m, 0), k1))"

definition win_last_error :: "int \<Rightarrow> int" where
  "win_last_error wsa = (let err = wsa in set_errno_from_wsa err)"

definition win_bind :: "'k winsock \<Rightarrow> fd \<Rightarrow> bytes \<Rightarrow> 'k \<Rightarrow> (int \<times> int) \<times> 'k" where
  "win_bind ws fd address k =
     (case ws_bind ws fd address k of ((rc, err), k1) \<Rightarrow> (if rc = SOCKET_ERROR then (- 1, set_errno_from_wsa err) else (0, 0), k1))"

section \<open>The Linux wrappers\<close>

record 'k posix =
  px_socket :: "int \<Rightarrow> 32 word \<Rightarrow> int \<Rightarrow> 'k \<Rightarrow> fd \<times> 'k"
  px_close :: "fd \<Rightarrow> 'k \<Rightarrow> int \<times> 'k"
  px_getfl :: "fd \<Rightarrow> 'k \<Rightarrow> 32 word"
  px_setfl :: "fd \<Rightarrow> 32 word \<Rightarrow> 'k \<Rightarrow> int \<times> 'k"
  px_accept4 :: "fd \<Rightarrow> 32 word \<Rightarrow> 'k \<Rightarrow> (fd \<times> int) \<times> 'k"
  px_sendmsg :: "fd \<Rightarrow> bytes \<Rightarrow> bytes list \<Rightarrow> 32 word \<Rightarrow> 'k \<Rightarrow> (int \<times> int) \<times> 'k"

definition LINUX_SOCK_CLOEXEC :: "32 word" where "LINUX_SOCK_CLOEXEC = 0x80000"
definition LINUX_SOCK_NONBLOCK :: "32 word" where "LINUX_SOCK_NONBLOCK = 0x800"
definition O_NONBLOCK_BIT :: "32 word" where "O_NONBLOCK_BIT = 0x800"

definition lin_create_socket :: "'k posix \<Rightarrow> int \<Rightarrow> 32 word \<Rightarrow> int \<Rightarrow> 'k \<Rightarrow> fd \<times> 'k" where
  "lin_create_socket px domain type protocol k =
     (case px_socket px domain (type OR LINUX_SOCK_CLOEXEC) protocol k of (fd, k1) \<Rightarrow> (if fd < 0 then invalid_fd else fd, k1))"

definition lin_close_fd :: "'k posix \<Rightarrow> fd \<Rightarrow> 'k \<Rightarrow> int \<times> 'k" where
  "lin_close_fd px fd k = (if fd < 0 then (0, k) else px_close px fd k)"

definition lin_set_non_block :: "'k posix \<Rightarrow> fd \<Rightarrow> 'k \<Rightarrow> int \<times> 'k" where
  "lin_set_non_block px fd k =
     (let flags = px_getfl px fd k
      in if sint flags < 0 then (- 1, k) else px_setfl px fd (flags OR O_NONBLOCK_BIT) k)"

definition lin_accept :: "'k posix \<Rightarrow> fd \<Rightarrow> 32 word \<Rightarrow> 'k \<Rightarrow> (fd \<times> int) \<times> 'k" where
  "lin_accept px fd flags k = px_accept4 px fd (flags OR LINUX_SOCK_CLOEXEC OR LINUX_SOCK_NONBLOCK) k"

definition lin_sendto_vec :: "'k posix \<Rightarrow> fd \<Rightarrow> bytes list \<Rightarrow> bytes \<Rightarrow> 32 word \<Rightarrow> 'k \<Rightarrow> (int \<times> int) \<times> 'k" where
  "lin_sendto_vec px fd iov address flags k = px_sendmsg px fd address iov flags k"

section \<open>The system calls of a socket on Windows\<close>

text \<open>The record of system calls that the sockets use, made of the wrappers with the arguments the sockets give them.\<close>

definition le_int :: "bytes \<Rightarrow> int" where
  "le_int b = foldr (\<lambda>x acc. uint x + 256 * acc) b 0"

definition win_os :: "'k winsock \<Rightarrow> 'k epoll_ctl \<Rightarrow> 'k os" where
  "win_os ws c =
     \<lparr>os_ctl = c,
      os_socket = (\<lambda>d t p k. case win_create_socket ws d t p k of ((fd, e), k1) \<Rightarrow> (fd, k1)),
      os_set_non_block = (\<lambda>fd k. snd (win_set_non_block ws fd k)),
      os_getsockname = (\<lambda>fd k. case win_getsockname ws fd (Some 128) k of ((rc, e), ad, l) \<Rightarrow> if rc = 0 then Some (le_int (take 2 ad)) else None),
      os_close = (\<lambda>fd k. snd (win_close_fd ws fd k)),
      os_shutdown_wr = (\<lambda>fd k. snd (win_shutdown ws fd 1 k)),
      os_connect = (\<lambda>fd ad k. win_connect ws fd ad k),
      os_so_error = (\<lambda>fd k. case win_getsockopt ws fd 0xFFFF 0x1007 (Some 4) k of ((rc, e), val, l) \<Rightarrow> (rc, le_int (take 4 val))),
      os_recv = (\<lambda>fd len k. win_recv ws fd len 0 k),
      os_send = (\<lambda>fd b k. win_send ws fd b MSG_NOSIGNAL k),
      os_writev = (\<lambda>fd v k. win_writev ws fd v k),
      os_recvfrom = (\<lambda>fd len k. case win_recvfrom ws fd len 0 (Some 128) k of ((n, e, d, from, l), k1) \<Rightarrow> ((n, e, d, from), k1)),
      os_sendto = (\<lambda>fd v dest k. case dest of
          None \<Rightarrow> win_writev ws fd v k
        | Some ad \<Rightarrow> (case v of [b] \<Rightarrow> win_sendto ws fd b MSG_NOSIGNAL ad k | _ \<Rightarrow> win_sendto_vec ws fd v ad MSG_NOSIGNAL k))\<rparr>"

lemma win_os_simps [simp]:
  "os_ctl (win_os ws c) = c" "os_recv (win_os ws c) fd len k = win_recv ws fd len 0 k" "os_send (win_os ws c) fd b k = win_send ws fd b MSG_NOSIGNAL k"
  by (simp_all add: win_os_def)

section \<open>Interface\<close>

lemma to_int_le: "to_int n \<le> int n"
proof -
  have "- (2 ^ 31) \<le> uint (word_of_nat n :: 32 word)" by (rule order_trans [OF _ uint_ge_0]) simp
  then have "signed_take_bit 31 (uint (word_of_nat n :: 32 word)) \<le> uint (word_of_nat n :: 32 word)"
    by (simp only: signed_take_bit_int_less_eq_self_iff)
  moreover have "uint (word_of_nat n :: 32 word) \<le> int n"
    by (simp add: unsigned_of_nat take_bit_eq_mod)
  ultimately show ?thesis by (simp add: to_int_def sint_uint)
qed

text \<open>The documented behaviour of Winsock's \<open>recv\<close> and \<open>send\<close> on a stream: as for the calls of Linux, with \<open>SOCKET_ERROR\<close> and a code of its own.\<close>

locale winsock_stream =
  fixes ws :: "'k winsock" and c :: "'k epoll_ctl" and idle :: "32 word \<Rightarrow> 'k \<Rightarrow> 'k" and kin kout :: "'k \<Rightarrow> bytes"
  assumes ctl_doc: "kin (snd (c oper fd ev k)) = kin k" "kout (snd (c oper fd ev k)) = kout k"
    and idle_doc: "kin (idle flags k) = kin k" "kout (idle flags k) = kout k"
    and recv_doc: "ws_recv ws fd len fl k = (((rc, err), d), k1) \<Longrightarrow>
      kout k1 = kout k \<and> (if 0 < rc then int (length d) = rc \<and> rc \<le> len \<and> kin k = d @ kin k1 else kin k1 = kin k)"
    and send_doc: "ws_send ws fd b len fl k = ((rc, err), k1) \<Longrightarrow>
      kin k1 = kin k \<and> (if 0 < rc then rc \<le> len \<and> kout k1 = kout k @ take (nat rc) b else kout k1 = kout k)"
begin

lemma win_recv_doc:
  assumes "win_recv ws fd len fl k = ((n, e, d), k1)"
  shows "kout k1 = kout k \<and> (if 0 < n then int (length d) = n \<and> n \<le> int len \<and> kin k = d @ kin k1 else kin k1 = kin k)"
proof -
  obtain rc err d' k2 where w: "ws_recv ws fd (to_int len) (fl AND NOT (MSG_DONTWAIT OR MSG_NOSIGNAL)) k = (((rc, err), d'), k2)"
    by (metis prod.exhaust)
  then have "d' = d" "k2 = k1" "n = (if rc = SOCKET_ERROR then - 1 else rc)"
    using assms by (auto simp: win_recv_def wsa_return_def Let_def split: if_splits)
  then show ?thesis using recv_doc [OF w] to_int_le [of len] by (auto simp: SOCKET_ERROR_def split: if_splits)
qed

lemma win_send_doc:
  assumes "win_send ws fd b fl k = ((n, e), k1)"
  shows "kin k1 = kin k \<and> (if 0 < n then n \<le> int (length b) \<and> kout k1 = kout k @ take (nat n) b else kout k1 = kout k)"
proof -
  obtain rc err k2 where w: "ws_send ws fd b (to_int (length b)) (fl AND NOT (MSG_DONTWAIT OR MSG_NOSIGNAL)) k = ((rc, err), k2)"
    by (metis prod.exhaust)
  then have "k2 = k1" "n = (if rc = SOCKET_ERROR then - 1 else rc)"
    using assms by (auto simp: win_send_def wsa_return_def Let_def split: if_splits)
  then show ?thesis using send_doc [OF w] to_int_le [of "length b"] by (auto simp: SOCKET_ERROR_def split: if_splits)
qed

end

sublocale winsock_stream \<subseteq> win: kernel_stream "win_os ws c" idle kin kout
proof
  fix fd len k n e d k1
  assume "os_recv (win_os ws c) fd len k = ((n, e, d), k1)"
  then have "win_recv ws fd len 0 k = ((n, e, d), k1)" by simp
  from win_recv_doc [OF this]
  show "0 < n \<Longrightarrow> int (length d) = n \<and> length d \<le> len \<and> kin k = d @ kin k1" and "n \<le> 0 \<Longrightarrow> kin k1 = kin k" and "kout k1 = kout k"
    by (auto split: if_splits)
next
  fix fd b k n e k1
  assume "os_send (win_os ws c) fd b k = ((n, e), k1)"
  then have "win_send ws fd b MSG_NOSIGNAL k = ((n, e), k1)" by simp
  from win_send_doc [OF this]
  show "0 < n \<Longrightarrow> nat n \<le> length b \<and> kout k1 = kout k @ take (nat n) b" and "n \<le> 0 \<Longrightarrow> kout k1 = kout k" and "kin k1 = kin k"
    by (auto split: if_splits)
qed (simp_all add: ctl_doc idle_doc)

context winsock_stream
begin

lemmas windows_recv = win.sock_recv_sound
lemmas windows_send = win.sock_send_sound

end

section \<open>Error codes are not confused\<close>

lemmas wsa_consts = WSAEWOULDBLOCK_def WSAEINPROGRESS_def WSAECONNRESET_def WSAENOTCONN_def WSAESHUTDOWN_def EAGAIN_def EINPROGRESS_def
  ECONNRESET_def ENOTCONN_def EPIPE_def ETIMEDOUT_def

lemma wsa_table_facts:
  "distinct (map snd wsa_table)" "list_all (\<lambda>(c, e). 10000 \<le> c \<and> e < 10000) wsa_table" "distinct (map fst wsa_table)"
  by (simp_all add: wsa_table_def wsa_consts)

text \<open>The codes of Winsock are at least 10000; on these the translation is injective.\<close>

lemma set_errno_inj:
  assumes "10000 \<le> x" and "10000 \<le> y" and "set_errno_from_wsa x = set_errno_from_wsa y"
  shows "x = y"
proof -
  have small: "e < 10000" if "map_of wsa_table c = Some e" for c e
    using map_of_SomeD [OF that] wsa_table_facts(2) by (auto simp: list_all_iff)
  have inj: "c = c'" if "map_of wsa_table c = Some e" "map_of wsa_table c' = Some e" for c c' e
    using map_of_SomeD [OF that(1)] map_of_SomeD [OF that(2)] wsa_table_facts(1) unfolding distinct_map inj_on_def by fastforce
  show ?thesis using assms small inj by (fastforce simp: set_errno_from_wsa_def split: option.splits)
qed

lemma set_errno_values:
  "set_errno_from_wsa WSAEWOULDBLOCK = EAGAIN" "set_errno_from_wsa WSAEINPROGRESS = EINPROGRESS" "set_errno_from_wsa WSAECONNRESET = ECONNRESET"
  "set_errno_from_wsa WSAENOTCONN = ENOTCONN" "set_errno_from_wsa WSAESHUTDOWN = EPIPE"
  by (simp_all add: set_errno_from_wsa_def wsa_table_def wsa_consts)

lemma set_errno_iff:
  assumes "10000 \<le> x"
  shows "set_errno_from_wsa x = EAGAIN \<longleftrightarrow> x = WSAEWOULDBLOCK" "set_errno_from_wsa x = EINPROGRESS \<longleftrightarrow> x = WSAEINPROGRESS"
    "set_errno_from_wsa x = ECONNRESET \<longleftrightarrow> x = WSAECONNRESET" "set_errno_from_wsa x = ENOTCONN \<longleftrightarrow> x = WSAENOTCONN"
    "set_errno_from_wsa x = EPIPE \<longleftrightarrow> x = WSAESHUTDOWN"
  using set_errno_inj [OF assms, of WSAEWOULDBLOCK] set_errno_inj [OF assms, of WSAEINPROGRESS] set_errno_inj [OF assms, of WSAECONNRESET]
    set_errno_inj [OF assms, of WSAENOTCONN] set_errno_inj [OF assms, of WSAESHUTDOWN] set_errno_values
  by (auto simp: WSAEWOULDBLOCK_def WSAEINPROGRESS_def WSAECONNRESET_def WSAENOTCONN_def WSAESHUTDOWN_def)

section \<open>A concrete Winsock\<close>

definition seg_ws :: "seg_kernel winsock" where
  "seg_ws =
     \<lparr>ws_socket = (\<lambda>d t p k. ((5, 0), k)), ws_no_inherit = (\<lambda>fd k. k), ws_closesocket = (\<lambda>fd k. ((0, 0), k)), ws_ioctl_nonblock = (\<lambda>fd k. ((0, 0), k)),
      ws_connect = (\<lambda>fd ad k. ((SOCKET_ERROR, WSAEWOULDBLOCK), k)), ws_getsockopt = (\<lambda>fd l n len k. ((0, 0), [0, 0, 0, 0], 4)),
      ws_setsockopt = (\<lambda>fd l n v len k. ((0, 0), k)), ws_shutdown = (\<lambda>fd h k. ((0, 0), k)), ws_getsockname = (\<lambda>fd l k. ((0, 0), [2, 0], 16)),
      ws_listen = (\<lambda>fd n k. ((0, 0), k)), ws_accept = (\<lambda>fd l k. (((SOCKET_ERROR, WSAEWOULDBLOCK), [], 0), k)),
      ws_recv = (\<lambda>fd len fl k. case seg_take (nat len) (inq k) of ((n, e, d), q) \<Rightarrow>
         (((if n < 0 then SOCKET_ERROR else n, WSAEWOULDBLOCK), d), k\<lparr>inq := q\<rparr>)),
      ws_recvfrom = (\<lambda>fd len fl l k. (((0, 0), [], [], 0), k)),
      ws_send = (\<lambda>fd b len fl k. if busy k \<or> len \<le> 0 then ((SOCKET_ERROR, WSAEWOULDBLOCK), k)
         else ((min 2 (min len (int (length b))), 0), k\<lparr>outq := outq k @ take (nat (min 2 (min len (int (length b))))) b, busy := True\<rparr>)),
      ws_sendto = (\<lambda>fd b len fl ad k. ((0, 0), k)), ws_send_vec = (\<lambda>fd v k. (((0, 0), 0), k)), ws_sendto_vec = (\<lambda>fd v fl ad k. (((0, 0), 0), k)),
      ws_bind = (\<lambda>fd ad k. ((0, 0), k))\<rparr>"

interpretation seg_ws: winsock_stream seg_ws "\<lambda>oper fd ev k. ((0, 0), k)" seg_idle "\<lambda>k. seg_bytes (inq k)" outq
proof
  show "seg_bytes (inq (seg_idle flags k)) = seg_bytes (inq k)" "outq (seg_idle flags k) = outq k" for flags k
    by (simp_all add: seg.idle_bytes)
  fix fd len fl k rc err d k1
  assume "ws_recv seg_ws fd len fl k = (((rc, err), d), k1)"
  then obtain n e where t: "seg_take (nat len) (inq k) = ((n, e, d), inq k1)" "outq k1 = outq k" "rc = (if n < 0 then - 1 else n)"
    by (auto simp: seg_ws_def SOCKET_ERROR_def split: prod.splits)
  show "outq k1 = outq k \<and> (if 0 < rc then int (length d) = rc \<and> rc \<le> len \<and> seg_bytes (inq k) = d @ seg_bytes (inq k1)
      else seg_bytes (inq k1) = seg_bytes (inq k))"
    using seg_take_sound [OF t(1)] t(2,3) by (cases "0 \<le> len") (auto split: if_splits)
next
  fix fd b len fl k rc err k1
  assume "ws_send seg_ws fd b len fl k = ((rc, err), k1)"
  then show "seg_bytes (inq k1) = seg_bytes (inq k) \<and> (if 0 < rc then rc \<le> len \<and> outq k1 = outq k @ take (nat rc) b else outq k1 = outq k)"
    by (auto simp: seg_ws_def SOCKET_ERROR_def min_def split: if_splits)
qed simp_all

section \<open>Properties\<close>


lemma to_int_small: "to_int 4 = 4" "to_int 1 = 1" "to_int (Suc 0) = 1"
  by (simp_all add: to_int_def)


text \<open>
  An attempt to receive on Windows suspends exactly when Winsock answers \<open>WSAEWOULDBLOCK\<close> and nothing that could be returned was received
  before; with any other error it completes.
\<close>

theorem winsock_recv_suspends:
  assumes "recvd (raw s a) < rv_len (raw s a)"
    and "ws_recv ws (sk_fd s) (to_int (rv_len (raw s a) - recvd (raw s a))) 0 (kern s) = (((rc, err), d), k)"
    and "rc = SOCKET_ERROR \<and> 10000 \<le> err \<or> 0 \<le> rc"
  shows "fst (recv_attempt_once (win_os ws c) a s) = - 1 \<longleftrightarrow>
    rc = SOCKET_ERROR \<and> err = WSAEWOULDBLOCK \<and> (rv_full (raw s a) \<or> recvd (raw s a) = 0)"
  using assms set_errno_iff(1) [of err] by (auto simp: recv_attempt_once_def win_recv_def wsa_return_def Let_def SOCKET_ERROR_def)

theorem winsock_recv_suspends_witness:
  "fst (recv_attempt_once (win_os seg_ws (\<lambda>oper fd ev k. ((0, 0), k))) 40 (recv_awaiter_init 40 [0] 1 False (demo_sock [None, Some (1, [2])]))) = - 1"
proof -
  let ?s = "recv_awaiter_init 40 [0] 1 False (demo_sock [None, Some (1, [2])])"
  have a: "recvd (raw ?s 40) = 0" "rv_len (raw ?s 40) = 1" by (simp_all add: recv_awaiter_init_def)
  have "ws_recv seg_ws (sk_fd ?s) (to_int 1) 0 (kern ?s) = (((SOCKET_ERROR, WSAEWOULDBLOCK), []), kern ?s)"
    by (simp add: seg_ws_def to_int_small recv_awaiter_init_def)
  then show ?thesis
    using winsock_recv_suspends [of ?s 40 seg_ws SOCKET_ERROR WSAEWOULDBLOCK "[]" "kern ?s"] a by (simp add: WSAEWOULDBLOCK_def)
qed

text \<open>A length that is a multiple of 4 GiB is cast to 0: Winsock receives nothing, and the socket takes the answer 0 for the end of the stream.\<close>

theorem win_recv_multiple_of_4GiB:
  assumes "recvd (raw s a) = 0" and "rv_len (raw s a) = 2 ^ 32" and "ws_recv ws (sk_fd s) 0 0 (kern s) = (((0, 0), []), k)"
  shows "rx_eof (snd (recv_attempt_once (win_os ws c) a s))"
  using assms by (simp add: recv_attempt_once_def win_recv_def to_int_def wsa_return_def SOCKET_ERROR_def Let_def)

end
