(* ===== verification/Connecting.thy ===== *)
theory Connecting
  imports Stream_Socket
begin

text \<open>
  The outcome of connecting: \<open>connect_awaiter\<close> of \<^verbatim>\<open>net/stream_socket_base.hpp\<close> (definitions in \<open>Stream_Socket\<close>) over the reactor, from the
  attempt through the event or the timeout to the result.
\<close>

section \<open>Interface\<close>

text \<open>What posting a waiter leaves alone.\<close>

locale sock_route = waiter_route pst for pst :: "addr \<Rightarrow> ('k, 'b) sock_scheme \<Rightarrow> ('k, 'b) sock_scheme" +
  assumes pst_sock [simp]: "caw (pst w s) = caw s" "sk_fd (pst w s) = sk_fd s" "sk_errno (pst w s) = sk_errno s"
    "timeout_func (pst w s) = timeout_func s"

lemma state_post_sock:
  "caw (snd (state_post e w s)) = caw s" "sk_fd (snd (state_post e w s)) = sk_fd s" "sk_errno (snd (state_post e w s)) = sk_errno s"
  "timeout_func (snd (state_post e w s)) = timeout_func s" for s :: "('k, 'b) sock_scheme"
  by (auto simp: state_post_def link_entry_def exchange_enqueued_def wq_post_def enqueue_def trig_once_def emit_def cb_note_def
      Let_def split: option.splits)

interpretation sock_direct: sock_route "wq_post :: addr \<Rightarrow> ('k, 'b) sock_scheme \<Rightarrow> ('k, 'b) sock_scheme"
  by unfold_locales (auto simp: wq_post_def enqueue_def trig_once_def emit_def)

interpretation sock_routed: sock_route "\<lambda>w (s :: ('k, 'b) sock_scheme). post_via_route (route w) (entry w) w s" for route entry
  by unfold_locales (simp_all add: post_via_route_def state_post_sock wq_post_def enqueue_def trig_once_def emit_def)

section \<open>The run of one connect\<close>

text \<open>The callbacks that the reactor invokes on a timeout; what ends the wait is an event or the time.\<close>

definition connect_calls :: "func_ptr \<Rightarrow> addr \<Rightarrow> ('k, 'b) sock_scheme \<Rightarrow> ('k, 'b) sock_scheme" where
  "connect_calls f w s = (if f = Code Connect_timeout_cb then connect_timeout_cb w s else s)"

datatype connect_event = Ready "32 word" | Overdue int

definition connect_wait ::
  "'k os \<Rightarrow> (addr \<Rightarrow> ('k, 'b) sock_scheme \<Rightarrow> ('k, 'b) sock_scheme) \<Rightarrow> ((fd \<rightharpoonup> fd_state) \<Rightarrow> fd list) \<Rightarrow> connect_event \<Rightarrow> ('k, 'b) sock_scheme \<Rightarrow>
   ('k, 'b) sock_scheme" where
  "connect_wait os pst enum ev s =
     (case ev of
        Ready flags \<Rightarrow> handle_event (os_ctl os) pst (sk_fd s, flags) s
      | Overdue now \<Rightarrow> expire (os_ctl os) pst connect_calls enum now s)"

definition waiting :: "addr \<Rightarrow> ('k, 'b) epr_scheme \<Rightarrow> bool" where
  "waiting a s \<longleftrightarrow> (\<exists>fd. a \<in> wi_waiter ` set (waiters_of s fd))"

definition sock_connect ::
  "'k os \<Rightarrow> (addr \<Rightarrow> ('k, 'b) sock_scheme \<Rightarrow> ('k, 'b) sock_scheme) \<Rightarrow> ((fd \<rightharpoonup> fd_state) \<Rightarrow> fd list) \<Rightarrow> int \<Rightarrow> bytes option \<Rightarrow> addr \<Rightarrow> addr \<Rightarrow>
   connect_event \<Rightarrow> ('k, 'b) sock_scheme \<Rightarrow> int \<times> ('k, 'b) sock_scheme" where
  "sock_connect os pst enum now build_addr a h ev s =
     (let s1 = connect_suspend os pst now build_addr a h (s\<lparr>caw := (caw s)(a := \<lparr>c_ret = 0, c_timed_out = False\<rparr>)\<rparr>)
      in connect_resume os a (if waiting a s1 then connect_wait os pst enum ev s1 else s1))"

section \<open>Specification\<close>

text \<open>
  What a connect promises: the answer of the system when it is immediate, \<open>SO_ERROR\<close> after an event, \<open>ETIMEDOUT\<close> when the time is up. \<open>so\<close>
  is \<open>SO_ERROR\<close> when the coroutine resumes.
\<close>

datatype verdict = Connected | Failed int

definition so_verdict :: "int \<times> int \<Rightarrow> verdict" where
  "so_verdict so = (if so = (0, 0) then Connected else Failed (snd so))"

fun connect_spec :: "int \<times> int \<Rightarrow> connect_event \<Rightarrow> int \<times> int \<Rightarrow> verdict" where
  "connect_spec (r, e) ev so =
     (if r < 0 \<and> e \<noteq> EINPROGRESS \<and> e \<noteq> EAGAIN then Failed e
      else if r < 0 then (case ev of Ready flags \<Rightarrow> so_verdict so | Overdue now \<Rightarrow> Failed ETIMEDOUT)
      else so_verdict so)"

definition reports :: "verdict \<Rightarrow> int \<times> ('k, 'b) sock_scheme \<Rightarrow> bool" where
  "reports v r \<longleftrightarrow> (case v of Connected \<Rightarrow> fst r = 0 | Failed e \<Rightarrow> fst r = - 1 \<and> sk_errno (snd r) = e)"

text \<open>An event that ends the wait.\<close>

definition ends_wait :: "int \<Rightarrow> connect_event \<Rightarrow> bool" where
  "ends_wait now ev = (case ev of Ready flags \<Rightarrow> flags AND (EPOLLOUT OR EPOLLERR OR EPOLLHUP) \<noteq> 0 | Overdue t \<Rightarrow> now + 10000 \<le> t)"

section \<open>Frames\<close>

lemma update_connect [simp]:
  "caw (update_fd_interest_unlocked c fd st s) = caw s" "sk_errno (update_fd_interest_unlocked c fd st s) = sk_errno s"
  "timeout_func (update_fd_interest_unlocked c fd st s) = timeout_func s"
  for s :: "('k, 'b) sock_scheme"
  by (auto simp: update_fd_interest_unlocked_def ctl_def Let_def split: prod.splits)

lemma register_connect [simp]:
  "caw (register_waiter c fd m w pf t d s) = caw s" "sk_errno (register_waiter c fd m w pf t d s) = sk_errno s"
  "timeout_func (register_waiter c fd m w pf t d s) = timeout_func s" "sk_fd (register_waiter c fd m w pf t d s) = sk_fd s"
  for s :: "('k, 'b) sock_scheme"
  by (simp_all add: register_waiter_def Let_def)

lemma take_ready_connect [simp]:
  "caw (snd (take_ready c fd fl s)) = caw s" "sk_errno (snd (take_ready c fd fl s)) = sk_errno s"
  "timeout_func (snd (take_ready c fd fl s)) = timeout_func s" "sk_fd (snd (take_ready c fd fl s)) = sk_fd s"
  for s :: "('k, 'b) sock_scheme"
  by (auto simp: take_ready_def split: option.splits)

lemma collect_fd_connect:
  "caw (snd (collect_fd c now fd p)) = caw (snd p) \<and> sk_errno (snd (collect_fd c now fd p)) = sk_errno (snd p) \<and>
   timeout_func (snd (collect_fd c now fd p)) = timeout_func (snd p) \<and> sk_fd (snd (collect_fd c now fd p)) = sk_fd (snd p)"
  for p :: "waiter_item list \<times> ('k, 'b) sock_scheme"
  by (cases p) (auto simp: collect_fd_def split: option.splits)

lemma collect_timeouts_connect [simp]:
  "caw (snd (collect_timeouts c order now s)) = caw s" "sk_errno (snd (collect_timeouts c order now s)) = sk_errno s"
  "timeout_func (snd (collect_timeouts c order now s)) = timeout_func s" "sk_fd (snd (collect_timeouts c order now s)) = sk_fd s"
  for s :: "('k, 'b) sock_scheme"
proof -
  have "caw (snd (fold (collect_fd c now) order p)) = caw (snd p) \<and> sk_errno (snd (fold (collect_fd c now) order p)) = sk_errno (snd p) \<and>
    timeout_func (snd (fold (collect_fd c now) order p)) = timeout_func (snd p) \<and> sk_fd (snd (fold (collect_fd c now) order p)) = sk_fd (snd p)"
    for p :: "waiter_item list \<times> ('k, 'b) sock_scheme"
    by (induction order arbitrary: p) (simp_all add: collect_fd_connect)
  then show "caw (snd (collect_timeouts c order now s)) = caw s" "sk_errno (snd (collect_timeouts c order now s)) = sk_errno s"
    "timeout_func (snd (collect_timeouts c order now s)) = timeout_func s" "sk_fd (snd (collect_timeouts c order now s)) = sk_fd s"
    by (simp_all add: collect_timeouts_def)
qed

context sock_route
begin

lemma fold_pst_sock [simp]:
  "caw (fold (\<lambda>wi. pst (wi_waiter wi)) ws s) = caw s" "sk_errno (fold (\<lambda>wi. pst (wi_waiter wi)) ws s) = sk_errno s"
  "sk_fd (fold (\<lambda>wi. pst (wi_waiter wi)) ws s) = sk_fd s"
  by (induction ws arbitrary: s) simp_all

lemma handle_event_connect [simp]:
  "caw (handle_event c pst ev s) = caw s" "sk_errno (handle_event c pst ev s) = sk_errno s" "sk_fd (handle_event c pst ev s) = sk_fd s"
proof -
  obtain out s1 where t: "take_ready c (fst ev) (snd ev) s = (out, s1)" by fastforce
  show "caw (handle_event c pst ev s) = caw s" "sk_errno (handle_event c pst ev s) = sk_errno s" "sk_fd (handle_event c pst ev s) = sk_fd s"
    using take_ready_connect [of c "fst ev" "snd ev" s] by (simp_all add: handle_event_def t)
qed

text \<open>Running the timeouts marks the awaiter that waits for one, and leaves descriptor and errno alone.\<close>

lemma handle_timeouts_connect:
  assumes "c_timed_out (caw s a) \<or> timeout_func s a = Code Connect_timeout_cb"
  shows "(a \<in> wi_waiter ` set ws \<longrightarrow> c_timed_out (caw (handle_timeouts pst connect_calls ws s) a)) \<and>
    (c_timed_out (caw s a) \<longrightarrow> c_timed_out (caw (handle_timeouts pst connect_calls ws s) a)) \<and>
    sk_fd (handle_timeouts pst connect_calls ws s) = sk_fd s"
  using assms
proof (induction ws arbitrary: s)
  case (Cons wi ws)
  let ?w = "wi_waiter wi"
  define s1 where "s1 = pst ?w (if timeout_func s ?w \<noteq> Null then connect_calls (timeout_func s ?w) ?w s else s)"
  have h: "handle_timeouts pst connect_calls (wi # ws) s = handle_timeouts pst connect_calls ws s1"
    by (simp add: handle_timeouts_def s1_def Let_def)
  have f: "sk_fd s1 = sk_fd s" "c_timed_out (caw s a) \<Longrightarrow> c_timed_out (caw s1 a)"
    "c_timed_out (caw s1 a) \<or> timeout_func s1 a = Code Connect_timeout_cb" "?w = a \<Longrightarrow> c_timed_out (caw s1 a)"
    using Cons.prems by (auto simp: s1_def connect_calls_def connect_timeout_cb_def clear_timeout_callback_def)
  from Cons.IH [OF f(3)] show ?case using f by (auto simp: h)
qed (simp add: handle_timeouts_def)

end

section \<open>The phases\<close>

lemma waiting_fds: "fds s' = fds s \<Longrightarrow> waiting a s' = waiting a s" for s s' :: "('k, 'b) sock_scheme"
  by (simp add: waiting_def waiters_of_def)

lemma handle_timeouts_fds:
  assumes "waiter_route pst"
  shows "fds (handle_timeouts pst connect_calls ws s) = fds s"
  using waiter_route.handle_timeouts_frame [OF assms, of connect_calls ws s]
  by (simp add: connect_calls_def connect_timeout_cb_def clear_timeout_callback_def)

definition connect_begun :: "addr \<Rightarrow> addr \<Rightarrow> ('k, 'b) sock_scheme \<Rightarrow> ('k, 'b) sock_scheme" where
  "connect_begun a h s = s\<lparr>h_of := (h_of s)(a := Some h), func := (func s)(a := Code Resume_cb), lks := INIT_LIST_HEAD a (lks s)\<rparr>"

text \<open>A state in which the awaiter waits for the event or the timeout of its connect.\<close>

definition connecting :: "addr \<Rightarrow> fd \<Rightarrow> int \<Rightarrow> ('k, 'b) sock_scheme \<Rightarrow> bool" where
  "connecting a fd dl s \<longleftrightarrow> sk_fd s = fd \<and> caw s a = \<lparr>c_ret = 0, c_timed_out = False\<rparr> \<and> timeout_func s a = Code Connect_timeout_cb \<and>
     \<lparr>wi_mask = EPOLLOUT, wi_waiter = a, has_timeout = True, deadline = dl\<rparr> \<in> set (waiters_of s fd) \<and>
     (\<forall>f wi. wi \<in> set (waiters_of s f) \<longrightarrow> wi_waiter wi = a \<longrightarrow> f = fd \<and> wi = \<lparr>wi_mask = EPOLLOUT, wi_waiter = a, has_timeout = True, deadline = dl\<rparr>)"

lemma connecting_waits: "connecting a fd dl s \<Longrightarrow> waiting a s"
  unfolding connecting_def waiting_def by (metis (no_types, lifting) image_eqI waiter_item.select_convs(2))

lemma register_finite: "finite (dom (fds s)) \<Longrightarrow> finite (dom (fds (register_waiter c fd m w pf t d s)))"
  by (auto simp: register_waiter_def update_fd_interest_unlocked_def ctl_def Let_def split: prod.splits)

lemma suspend_pending:
  assumes "caw s a = \<lparr>c_ret = 0, c_timed_out = False\<rparr>" and "\<not> waiting a s"
    and "os_connect os (sk_fd s) ad (kern s) = ((r, e), k)" and "r < 0" and "e = EINPROGRESS \<or> e = EAGAIN"
  shows "connecting a (sk_fd s) (now + 10000) (connect_suspend os pst now (Some ad) a h s)"
proof -
  let ?t = "connect_suspend os pst now (Some ad) a h s"
  define u where "u = set_timeout_callback a (Code Connect_timeout_cb) ((connect_begun a h s)\<lparr>kern := k, sk_errno := e, caw := (caw s)(a := \<lparr>c_ret = 0, c_timed_out = False\<rparr>)\<rparr>)"
  have t: "?t = register_waiter (os_ctl os) (sk_fd s) EPOLLOUT a False True (now + 10000) u"
    using assms by (auto simp: connect_suspend_def connect_begun_def u_def Let_def add_waiter_with_timeout_def set_timeout_callback_def)
  have u: "fds u = fds s" "sk_fd u = sk_fd s" "caw u a = \<lparr>c_ret = 0, c_timed_out = False\<rparr>" "timeout_func u a = Code Connect_timeout_cb"
    by (simp_all add: u_def connect_begun_def set_timeout_callback_def)
  have w: "waiters_of u = waiters_of s" by (rule waiters_of_fds [OF u(1)])
  show ?thesis
    unfolding t connecting_def register_waiters_of w using assms(2) u by (auto simp: waiting_def image_iff split: if_splits)
qed

lemma ready_ends:
  assumes "flags AND (EPOLLOUT OR EPOLLERR OR EPOLLHUP) \<noteq> 0"
  shows "ready flags \<lparr>wi_mask = EPOLLOUT, wi_waiter = a, has_timeout = t, deadline = d\<rparr>"
  using assms by (auto simp: ready_def bit.conj_disj_distrib)

context sock_route
begin

lemma wait_event:
  assumes c: "connecting a fd dl s" and f: "flags AND (EPOLLOUT OR EPOLLERR OR EPOLLHUP) \<noteq> 0"
  shows "caw (connect_wait os pst enum (Ready flags) s) a = \<lparr>c_ret = 0, c_timed_out = False\<rparr>"
    and "\<not> waiting a (connect_wait os pst enum (Ready flags) s)" and "sk_fd (connect_wait os pst enum (Ready flags) s) = fd"
proof -
  let ?s1 = "connect_wait os pst enum (Ready flags) s"
  have fd: "sk_fd s = fd" using c by (simp add: connecting_def)
  have e: "?s1 = handle_event (os_ctl os) pst (fd, flags) s" by (simp add: connect_wait_def fd)
  show "caw ?s1 a = \<lparr>c_ret = 0, c_timed_out = False\<rparr>" and "sk_fd ?s1 = fd"
    using c by (simp_all add: e connecting_def)
  obtain out t where t: "take_ready (os_ctl os) fd flags s = (out, t)" by fastforce
  have w: "waiters_of ?s1 = (waiters_of s)(fd := filter (\<lambda>wi. \<not> ready flags wi) (waiters_of s fd))"
    using take_ready_waiters_of(1) [of "os_ctl os" fd flags s] waiters_of_fds [OF handle_event_frame(1) [OF waiter_route_axioms t]]
    by (simp add: e t)
  have own: "wi = \<lparr>wi_mask = EPOLLOUT, wi_waiter = a, has_timeout = True, deadline = dl\<rparr> \<and> f = fd"
    if "wi \<in> set (waiters_of s f)" "wi_waiter wi = a" for wi f
    using c that unfolding connecting_def by blast
  show "\<not> waiting a ?s1"
  proof
    assume "waiting a ?s1"
    then obtain f wi where wi: "wi \<in> set (waiters_of ?s1 f)" "wi_waiter wi = a" by (auto simp: waiting_def)
    then have "wi \<in> set (waiters_of s f)" by (auto simp: w split: if_splits)
    from own [OF this wi(2)] wi(1) ready_ends [OF f, of a True dl] show False by (auto simp: w)
  qed
qed

lemma wait_overdue:
  assumes c: "connecting a fd dl s" and t: "dl \<le> now" and en: "distinct (enum (fds s))" "set (enum (fds s)) = dom (fds s)"
  shows "c_timed_out (caw (connect_wait os pst enum (Overdue now) s) a)"
    and "\<not> waiting a (connect_wait os pst enum (Overdue now) s)"
proof -
  let ?o = "enum (fds s)" and ?s2 = "connect_wait os pst enum (Overdue now) s"
  obtain out s1 where ct: "collect_timeouts (os_ctl os) ?o now s = (out, s1)" by fastforce
  have e: "?s2 = handle_timeouts pst connect_calls out s1"
    by (auto simp: connect_wait_def expire_def ct handle_timeouts_def)
  have out: "out = concat (map (\<lambda>f. filter (expired now) (waiters_of s f)) ?o)"
    and w: "waiters_of s1 f = (if f \<in> set ?o then filter (\<lambda>wi. \<not> expired now wi) (waiters_of s f) else waiters_of s f)" for f
    using collect_timeouts_effect [OF en(1), of "os_ctl os" now "[]" s] ct by (simp_all add: collect_timeouts_def)
  let ?wi = "\<lparr>wi_mask = EPOLLOUT, wi_waiter = a, has_timeout = True, deadline = dl\<rparr>"
  have m: "?wi \<in> set (waiters_of s fd)" using c by (simp add: connecting_def)
  then have "fd \<in> set ?o" using en(2) waiters_of_cases(2) [of s fd] by (cases "fds s fd") auto
  then have a: "a \<in> wi_waiter ` set out" using m t by (force simp: out expired_def)
  have tf: "timeout_func s1 a = Code Connect_timeout_cb"
    using c collect_timeouts_connect(3) [of "os_ctl os" ?o now s] by (simp add: ct connecting_def)
  show "c_timed_out (caw ?s2 a)" unfolding e using handle_timeouts_connect [of s1 a out] tf a by blast
  have w2: "waiters_of ?s2 = waiters_of s1" unfolding e by (rule waiters_of_fds [OF handle_timeouts_fds [OF waiter_route_axioms]])
  have "wi = ?wi \<and> f = fd" if "wi \<in> set (waiters_of s f)" "wi_waiter wi = a" for wi f
    using c that unfolding connecting_def by blast
  note own = this
  show "\<not> waiting a ?s2"
  proof
    assume "waiting a ?s2"
    then obtain f wi where wi: "wi \<in> set (waiters_of s1 f)" "wi_waiter wi = a" by (auto simp: waiting_def w2)
    then have "wi \<in> set (waiters_of s f)" by (auto simp: w split: if_splits)
    from own [OF this wi(2)] wi(1) \<open>fd \<in> set ?o\<close> t show False by (auto simp: w expired_def)
  qed
qed

lemma suspend_immediate:
  fixes now :: int and a h :: addr
  assumes "os_connect os (sk_fd s) ad (kern s) = ((r, e), k)" and "r = 0 \<or> r < 0 \<and> e \<noteq> EINPROGRESS \<and> e \<noteq> EAGAIN"
  defines "t \<equiv> connect_suspend os pst now (Some ad) a h s"
  shows "waiting a t \<longleftrightarrow> waiting a s" and "c_ret (caw t a) = (if r = 0 then 0 else - 1)" and "c_timed_out (caw t a) = c_timed_out (caw s a)"
    and "r < 0 \<Longrightarrow> sk_errno t = e" and "sk_fd t = sk_fd s"
  using assms(1,2) by (auto simp: t_def connect_suspend_def Let_def waiting_def waiters_of_def)

lemma suspend_bad_address:
  fixes now :: int and a h :: addr and os :: "'k os" and s :: "('k, 'b) sock_scheme"
  defines "t \<equiv> connect_suspend os pst now None a h s"
  shows "waiting a t \<longleftrightarrow> waiting a s" and "c_ret (caw t a) = - 1" and "c_timed_out (caw t a) = c_timed_out (caw s a)"
  by (auto simp: t_def connect_suspend_def Let_def waiting_def waiters_of_def)

end

lemma connect_resume_outcome:
  shows "c_timed_out (caw s a) \<Longrightarrow> reports (Failed ETIMEDOUT) (connect_resume os a s)"
    and "\<not> c_timed_out (caw s a) \<Longrightarrow> c_ret (caw s a) = - 1 \<Longrightarrow> reports (Failed (sk_errno s)) (connect_resume os a s)"
    and "\<not> c_timed_out (caw s a) \<Longrightarrow> c_ret (caw s a) = 0 \<Longrightarrow>
      reports (so_verdict (os_so_error os (sk_fd s) (kern s))) (connect_resume os a s)"
    and "kern (snd (connect_resume os a s)) = kern s" and "waiting x (snd (connect_resume os a s)) \<longleftrightarrow> waiting x s"
    and "sk_fd (snd (connect_resume os a s)) = sk_fd s"
  by (auto simp: connect_resume_def clear_timeout_callback_def reports_def so_verdict_def Let_def waiting_def waiters_of_def
      split: verdict.splits prod.splits)

section \<open>Properties\<close>

text \<open>
  C21: The outcome of a connect is that of its specification, for every answer of the system and whatever ends the wait: an immediate success or error,
  \<open>SO_ERROR\<close> after an event on the descriptor, \<open>ETIMEDOUT\<close> when the ten seconds are over; afterwards the awaiter waits nowhere.
\<close>

theorem connect_outcome:
  assumes "sock_route pst" and "\<not> waiting a s" and "\<And>f. finite (dom f) \<Longrightarrow> distinct (enum f) \<and> set (enum f) = dom f" and "finite (dom (fds s))"
    and "os_connect os (sk_fd s) ad (kern s) = ((r, e), k)" and "r \<le> 0" and "ends_wait now ev"
  shows "\<exists>s1. snd (sock_connect os pst enum now (Some ad) a h ev s) = s1 \<and> \<not> waiting a s1 \<and>
    reports (connect_spec (r, e) ev (os_so_error os (sk_fd s) (kern s1))) (sock_connect os pst enum now (Some ad) a h ev s)"
proof -
  let ?s0 = "s\<lparr>caw := (caw s)(a := \<lparr>c_ret = 0, c_timed_out = False\<rparr>)\<rparr>"
  define s1 where "s1 = connect_suspend os pst now (Some ad) a h ?s0"
  have s0: "os_connect os (sk_fd ?s0) ad (kern ?s0) = ((r, e), k)" "\<not> waiting a ?s0" "caw ?s0 a = \<lparr>c_ret = 0, c_timed_out = False\<rparr>"
    using assms(2,5) by (simp_all add: waiting_def waiters_of_def)
  show ?thesis
  proof (cases "r < 0 \<and> (e = EINPROGRESS \<or> e = EAGAIN)")
    case True
    then have c: "connecting a (sk_fd s) (now + 10000) s1"
      using suspend_pending [OF s0(3,2,1), of now pst h] by (simp add: s1_def)
    have "finite (dom (fds s1))"
      using assms(4) s0(1) True by (auto simp: s1_def connect_suspend_def Let_def add_waiter_with_timeout_def set_timeout_callback_def intro!: register_finite)
    then have en: "distinct (enum (fds s1))" "set (enum (fds s1)) = dom (fds s1)" using assms(3) by blast+
    from c have "waiting a s1" by (rule connecting_waits)
    then have run: "sock_connect os pst enum now (Some ad) a h ev s = connect_resume os a (connect_wait os pst enum ev s1)"
      by (simp add: sock_connect_def s1_def [symmetric])
    define s2 where "s2 = connect_wait os pst enum ev s1"
    note res = connect_resume_outcome [where s = s2 and a = a and os = os]
    have "reports (connect_spec (r, e) ev (os_so_error os (sk_fd s) (kern s2))) (connect_resume os a s2) \<and> \<not> waiting a s2"
    proof (cases ev)
      case (Ready flags)
      have f: "flags AND (EPOLLOUT OR EPOLLERR OR EPOLLHUP) \<noteq> 0" using assms(7) by (simp add: Ready ends_wait_def)
      note w = sock_route.wait_event [OF assms(1) c f, where os = os and enum = enum, folded Ready, folded s2_def]
      have "reports (so_verdict (os_so_error os (sk_fd s) (kern s2))) (connect_resume os a s2)" using res(3) w(1,3) by simp
      then show ?thesis using w(2) True by (auto simp: Ready)
    next
      case (Overdue t)
      have t: "now + 10000 \<le> t" using assms(7) by (simp add: Overdue ends_wait_def)
      note w = sock_route.wait_overdue [OF assms(1) c t, where os = os and enum = enum, folded Overdue, folded s2_def]
      have "reports (Failed ETIMEDOUT) (connect_resume os a s2)" using res(1) w(1) en by blast
      then show ?thesis using w(2) en True by (auto simp: Overdue)
    qed
    then show ?thesis using res(4,5) by (simp add: run s2_def [symmetric] del: connect_spec.simps)
  next
    case False
    then have i: "r = 0 \<or> r < 0 \<and> e \<noteq> EINPROGRESS \<and> e \<noteq> EAGAIN" using assms(6) by auto
    note im = sock_route.suspend_immediate [OF assms(1) s0(1) i, where now = now and a = a and h = h, folded s1_def]
    have run: "sock_connect os pst enum now (Some ad) a h ev s = connect_resume os a s1"
      using im(1) s0(2) by (simp add: sock_connect_def s1_def [symmetric])
    note res = connect_resume_outcome [where s = s1 and a = a and os = os]
    have to: "\<not> c_timed_out (caw s1 a)" using im(3) s0(3) by simp
    have "reports (connect_spec (r, e) ev (os_so_error os (sk_fd s) (kern s1))) (connect_resume os a s1)"
    proof (cases "r = 0")
      case True
      then show ?thesis using res(3) to im(2,5) by simp
    next
      case False
      then have "r < 0" using assms(6) by simp
      then show ?thesis using res(2) [OF to] im(2,4) i by simp
    qed
    then show ?thesis using res(4,5) im(1) s0(2) by (simp add: run del: connect_spec.simps)
  qed
qed

theorem connect_outcome_witness:
  "fst (sock_connect seg_os wq_post (\<lambda>f. sorted_list_of_set (dom f)) 0 (Some []) 40 140 (Ready EPOLLOUT) (demo_sock [])) = 0 \<and>
   fst (sock_connect seg_os wq_post (\<lambda>f. sorted_list_of_set (dom f)) 0 (Some []) 40 140 (Overdue 10000) (demo_sock [])) = - 1"
proof -
  have s: "fds (demo_sock []) = Map.empty" "\<not> waiting 40 (demo_sock [])"
    by (simp_all add: demo_sock_def epr.defs cbq.defs sock.defs waiting_def waiters_of_def)
  have c: "os_connect seg_os (sk_fd (demo_sock [])) [] (kern (demo_sock [])) = ((- 1, EINPROGRESS), kern (demo_sock []))" "\<And>fd k. os_so_error seg_os fd k = (0, 0)"
    by (simp_all add: seg_os_def)
  have e: "ends_wait 0 (Ready EPOLLOUT)" "ends_wait 0 (Overdue 10000)"
    by (simp_all add: ends_wait_def EPOLLOUT_def EPOLLERR_def EPOLLHUP_def)
  note o = connect_outcome [OF sock_direct.sock_route_axioms s(2) _ _ c(1), of "\<lambda>f. sorted_list_of_set (dom f)"]
  show ?thesis
    using o [OF _ _ _ e(1)] o [OF _ _ _ e(2)] by (auto simp: s c(2) reports_def so_verdict_def split: verdict.splits)
qed

text \<open>An address that cannot be built fails at once, without a call of the system.\<close>

theorem connect_bad_address:
  assumes "sock_route pst" and "\<not> waiting a s"
  shows "fst (sock_connect os pst enum now None a h ev s) = - 1"
proof -
  let ?s0 = "s\<lparr>caw := (caw s)(a := \<lparr>c_ret = 0, c_timed_out = False\<rparr>)\<rparr>"
  note b = sock_route.suspend_bad_address [OF assms(1), where os = os and now = now and a = a and h = h and s = ?s0]
  have w: "\<not> waiting a ?s0" using assms(2) by (simp add: waiting_def waiters_of_def)
  then have "sock_connect os pst enum now None a h ev s = connect_resume os a (connect_suspend os pst now None a h ?s0)"
    using b(1) by (simp add: sock_connect_def)
  then show ?thesis
    using b(2,3) connect_resume_outcome(2) [where s = "connect_suspend os pst now None a h ?s0" and a = a and os = os] by (simp add: reports_def)
qed

text \<open>
  A connect that is cut off by closing the socket is posted with its result still 0; \<open>getsockopt\<close> then fails on the closed descriptor and leaves
  \<open>err\<close> at 0, so the coroutine sees -1 with an \<open>errno\<close> of 0.
\<close>

theorem connect_closed_errno_zero:
  assumes "\<not> c_timed_out (caw s a)" and "c_ret (caw s a) = 0" and "os_so_error os (sk_fd s) (kern s) = (- 1, 0)"
  shows "fst (connect_resume os a s) = - 1" and "sk_errno (snd (connect_resume os a s)) = 0"
  using connect_resume_outcome(3) [OF assms(1,2), where os = os] by (simp_all add: assms(3) so_verdict_def reports_def)

end
