(* ===== verification/Datagrams.thy ===== *)
theory Datagrams
  imports Stream_Socket
begin

text \<open>
  Datagram sockets: the receiving and sending awaiters of \<open>datagram_socket_base\<close> (\<^verbatim>\<open>net/stream_socket_base.hpp\<close>, definitions in
  \<open>Stream_Socket\<close>) as coroutines see them, over the two-phase driver and the reactor.
\<close>

section \<open>Operations\<close>

text \<open>\<open>recv_from\<close>; the result, what the buffer holds of the datagram and the address of the sender.\<close>

definition dgram_recv_from ::
  "'k os \<Rightarrow> (32 word \<Rightarrow> 'k \<Rightarrow> 'k) \<Rightarrow> addr \<Rightarrow> nat \<Rightarrow> ('k, 'b) sock_scheme \<Rightarrow> (int \<times> bytes \<times> bytes \<times> ('k, 'b) sock_scheme) option" where
  "dgram_recv_from os idle a len s =
     map_option (\<lambda>s1. case recvfrom_await_resume a s1 of (n, s2) \<Rightarrow> (n, take (nat n) (dr_buf (drw s2 a)), out_addr (drw s2 a), s2))
       (await_loop (recvfrom_attempt_once os) (recvfrom_register_wait os) (wait_for os idle EPOLLIN) True a
          (recvfrom_awaiter_init a (replicate len 0) len s))"

definition dgram_await_send ::
  "'k os \<Rightarrow> (32 word \<Rightarrow> 'k \<Rightarrow> 'k) \<Rightarrow> addr \<Rightarrow> ('k, 'b) sock_scheme \<Rightarrow> (int \<times> ('k, 'b) sock_scheme) option" where
  "dgram_await_send os idle a s =
     map_option (dgram_send_await_resume a)
       (await_loop (dgram_send_attempt_once os) (dgram_send_register_wait os) (wait_for os idle EPOLLOUT) True a s)"

definition dgram_send :: "'k os \<Rightarrow> (32 word \<Rightarrow> 'k \<Rightarrow> 'k) \<Rightarrow> addr \<Rightarrow> bytes \<Rightarrow> ('k, 'b) sock_scheme \<Rightarrow> (int \<times> ('k, 'b) sock_scheme) option" where
  "dgram_send os idle a b s = dgram_await_send os idle a (dgram_send_awaiter_init a b None s)"

definition dgram_send_to ::
  "'k os \<Rightarrow> (32 word \<Rightarrow> 'k \<Rightarrow> 'k) \<Rightarrow> addr \<Rightarrow> bytes \<Rightarrow> bytes \<Rightarrow> ('k, 'b) sock_scheme \<Rightarrow> (int \<times> ('k, 'b) sock_scheme) option" where
  "dgram_send_to os idle a b dest s = dgram_await_send os idle a (dgram_send_awaiter_init a b (Some dest) s)"

definition dgram_sendv :: "'k os \<Rightarrow> (32 word \<Rightarrow> 'k \<Rightarrow> 'k) \<Rightarrow> addr \<Rightarrow> bytes list \<Rightarrow> ('k, 'b) sock_scheme \<Rightarrow> (int \<times> ('k, 'b) sock_scheme) option" where
  "dgram_sendv os idle a iov s = dgram_await_send os idle a (dgram_sendv_awaiter_init a iov None s)"

definition dgram_sendv_to ::
  "'k os \<Rightarrow> (32 word \<Rightarrow> 'k \<Rightarrow> 'k) \<Rightarrow> addr \<Rightarrow> bytes list \<Rightarrow> bytes \<Rightarrow> ('k, 'b) sock_scheme \<Rightarrow> (int \<times> ('k, 'b) sock_scheme) option" where
  "dgram_sendv_to os idle a iov dest s = dgram_await_send os idle a (dgram_sendv_awaiter_init a iov (Some dest) s)"

section \<open>Frames\<close>

lemma wait_for_dgram [simp]:
  "drw (wait_for os idle flags s) = drw s" "dsw (wait_for os idle flags s) = dsw s" "sk_closed (wait_for os idle flags s) = sk_closed s"
  for s :: "('k, 'b) sock_scheme"
proof -
  have u: "drw (update_fd_interest_unlocked c fd st s) = drw s" "dsw (update_fd_interest_unlocked c fd st s) = dsw s"
    "sk_closed (update_fd_interest_unlocked c fd st s) = sk_closed s" for c fd st and s :: "('k, 'b) sock_scheme"
    by (auto simp: update_fd_interest_unlocked_def ctl_def Let_def split: prod.splits)
  have p: "drw (fold (\<lambda>wi. wq_post (wi_waiter wi)) ws s) = drw s" "dsw (fold (\<lambda>wi. wq_post (wi_waiter wi)) ws s) = dsw s"
    "sk_closed (fold (\<lambda>wi. wq_post (wi_waiter wi)) ws s) = sk_closed s" for ws and s :: "('k, 'b) sock_scheme"
    by (induction ws arbitrary: s) (simp_all add: wq_post_def enqueue_def trig_once_def emit_def)
  show "drw (wait_for os idle flags s) = drw s" "dsw (wait_for os idle flags s) = dsw s" "sk_closed (wait_for os idle flags s) = sk_closed s"
    by (auto simp: wait_for_def handle_event_def take_ready_def u p split: option.splits prod.splits)
qed

lemma add_waiter_custom_dgram [simp]:
  "drw (add_waiter_custom c fd m w s) = drw s" "dsw (add_waiter_custom c fd m w s) = dsw s" "sk_closed (add_waiter_custom c fd m w s) = sk_closed s"
  for s :: "('k, 'b) sock_scheme"
  by (auto simp: add_waiter_custom_def register_waiter_def update_fd_interest_unlocked_def ctl_def Let_def split: prod.splits)

lemma drain_done_dgram [simp]:
  "drw (drain_done a s) = drw s" "dsw (drain_done a s) = dsw s" "sk_closed (drain_done a s) = sk_closed s"
  for s :: "('k, 'b) sock_scheme"
  by (auto simp: drain_done_def slot_release_def serial_release_def resume_coroutine_def wq_post_def enqueue_def trig_once_def emit_def Let_def
      split: option.splits)

section \<open>The kernel's side\<close>

text \<open>
  The documented behaviour of \<^verbatim>\<open>recvfrom(2)\<close>, \<^verbatim>\<open>sendto(2)\<close>, \<^verbatim>\<open>sendmsg(2)\<close> and \<^verbatim>\<open>writev(2)\<close> on a datagram
  socket: \<open>din\<close> are the datagrams for the socket that have not been received, each with its source, \<open>dout\<close> those sent, each with
  its destination (\<open>None\<close>: the connected peer). Receiving takes one datagram and cuts off what the buffer has no room for; sending takes a
  datagram as a whole or not at all.
\<close>

locale kernel_dgram =
  fixes os :: "'k os" and idle :: "32 word \<Rightarrow> 'k \<Rightarrow> 'k" and din :: "'k \<Rightarrow> (bytes \<times> bytes) list" and dout :: "'k \<Rightarrow> (bytes option \<times> bytes) list"
  assumes ctl_dgrams: "din (snd (os_ctl os oper fd ev k)) = din k" "dout (snd (os_ctl os oper fd ev k)) = dout k"
    and idle_dgrams: "din (idle flags k) = din k" "dout (idle flags k) = dout k"
    and recvfrom_some: "os_recvfrom os fd len k = ((n, e, d, from), k1) \<Longrightarrow> 0 \<le> n \<Longrightarrow>
      \<exists>p. din k = (from, p) # din k1 \<and> d = take len p \<and> n = int (length d)"
    and recvfrom_none: "os_recvfrom os fd len k = ((n, e, d, from), k1) \<Longrightarrow> n < 0 \<Longrightarrow> n = - 1 \<and> din k1 = din k"
    and recvfrom_dout: "os_recvfrom os fd len k = ((n, e, d, from), k1) \<Longrightarrow> dout k1 = dout k"
    and sendto_some: "os_sendto os fd v dest k = ((n, e), k1) \<Longrightarrow> 0 \<le> n \<Longrightarrow> n = int (length (concat v)) \<and> dout k1 = dout k @ [(dest, concat v)]"
    and sendto_none: "os_sendto os fd v dest k = ((n, e), k1) \<Longrightarrow> n < 0 \<Longrightarrow> n = - 1 \<and> dout k1 = dout k"
    and sendto_din: "os_sendto os fd v dest k = ((n, e), k1) \<Longrightarrow> din k1 = din k"
    and send_is_sendto: "os_send os fd b k = os_sendto os fd [b] None k"
    and writev_is_sendto: "os_writev os fd v k = os_sendto os fd v None k"
begin

lemma update_dgrams:
  "din (kern (update_fd_interest_unlocked (os_ctl os) fd st s)) = din (kern s)"
  "dout (kern (update_fd_interest_unlocked (os_ctl os) fd st s)) = dout (kern s)"
  by (rule update_kern_pred [where P = "\<lambda>k. din k = din (kern s)"], simp_all add: ctl_dgrams)
    (rule update_kern_pred [where P = "\<lambda>k. dout k = dout (kern s)"], simp_all add: ctl_dgrams)

lemma add_waiter_dgrams [simp]:
  "din (kern (add_waiter_custom (os_ctl os) fd m w s)) = din (kern s)" "dout (kern (add_waiter_custom (os_ctl os) fd m w s)) = dout (kern s)"
  by (simp_all add: add_waiter_custom_def register_waiter_def Let_def update_dgrams)

lemma wait_for_dgrams [simp]:
  "din (kern (wait_for os idle flags s)) = din (kern s)" "dout (kern (wait_for os idle flags s)) = dout (kern s)"
  by (auto simp: wait_for_def handle_event_def take_ready_def idle_dgrams update_dgrams split: option.splits prod.splits)

text \<open>Before and after an attempt to receive: nothing taken, or one datagram in the buffer.\<close>

definition none_taken :: "addr \<Rightarrow> nat \<Rightarrow> (bytes \<times> bytes) list \<Rightarrow> (bytes option \<times> bytes) list \<Rightarrow> ('k, 'b) sock_scheme \<Rightarrow> bool" where
  "none_taken a len bi bo s \<longleftrightarrow> dr_len (drw s a) = len \<and> dr_buf (drw s a) = replicate len 0 \<and> nread (drw s a) = - 1 \<and>
     din (kern s) = bi \<and> dout (kern s) = bo"

definition one_taken :: "addr \<Rightarrow> nat \<Rightarrow> (bytes \<times> bytes) list \<Rightarrow> (bytes option \<times> bytes) list \<Rightarrow> ('k, 'b) sock_scheme \<Rightarrow> bool" where
  "one_taken a len bi bo s \<longleftrightarrow> (\<exists>p. bi = (out_addr (drw s a), p) # din (kern s) \<and> nread (drw s a) = int (length (take len p)) \<and>
     take (nat (nread (drw s a))) (dr_buf (drw s a)) = take len p) \<and> dout (kern s) = bo"

lemma recvfrom_attempt:
  assumes "none_taken a len bi bo s" and "recvfrom_attempt_once os a s = (r, s1)"
  shows "r = 0 \<and> one_taken a len bi bo s1 \<or> none_taken a len bi bo s1 \<and> (r = 0 \<or> r = - 1)" and "sk_closed s1 = sk_closed s"
proof -
  obtain n e d src k where c: "os_recvfrom os (sk_fd s) len (kern s) = ((n, e, d, src), k)" by (metis prod_cases4 surj_pair)
  note dout = recvfrom_dout [OF c]
  show "sk_closed s1 = sk_closed s" using assms c by (auto simp: recvfrom_attempt_once_def none_taken_def Let_def split: if_splits)
  show "r = 0 \<and> one_taken a len bi bo s1 \<or> none_taken a len bi bo s1 \<and> (r = 0 \<or> r = - 1)"
  proof (cases "0 \<le> n")
    case True
    from recvfrom_some [OF c True] obtain p where p: "din (kern s) = (src, p) # din k" "d = take len p" "n = int (length d)" by blast
    have l: "nat n = length d" "length d \<le> len" using p by simp_all
    have s1: "r = 0" "s1 = s\<lparr>kern := k, drw := (drw s)(a := (drw s a)\<lparr>nread := n, dr_buf := buf_write 0 d (replicate len 0), out_addr := src\<rparr>)\<rparr>"
      using assms c True l by (auto simp: recvfrom_attempt_once_def none_taken_def Let_def)
    have "one_taken a len bi bo s1"
      unfolding one_taken_def using assms(1) dout p(1,3) l by (intro conjI exI [of _ p]) (auto simp: s1 none_taken_def buf_write_def p(2) min_def)
    with s1(1) show ?thesis by blast
  next
    case False
    then have "n = - 1" "din k = din (kern s)" using recvfrom_none [OF c] by simp_all
    then show ?thesis using assms c dout by (auto simp: recvfrom_attempt_once_def none_taken_def Let_def split: if_splits)
  qed
qed

definition sending :: "addr \<Rightarrow> bytes option \<Rightarrow> bytes \<Rightarrow> (bytes \<times> bytes) list \<Rightarrow> (bytes option \<times> bytes) list \<Rightarrow> ('k, 'b) sock_scheme \<Rightarrow> bool" where
  "sending a dest b bi bo s \<longleftrightarrow> ds_dest (dsw s a) = dest \<and> (if ds_use_vec (dsw s a) then concat (ds_vec (dsw s a)) = b else ds_buf (dsw s a) = b) \<and>
     din (kern s) = bi \<and> dout (kern s) = bo"

lemma dgram_call:
  assumes "sending a dest b bi bo s"
  shows "\<exists>v n e k. concat v = b \<and> os_sendto os (sk_fd s) v dest (kern s) = ((n, e), k) \<and> dgram_send_attempt_once os a s =
    (if n \<ge> 0 then 0 else if e = EAGAIN then - 1 else 0,
     s\<lparr>kern := k, sk_errno := (if n < 0 then e else sk_errno s), dsw := (dsw s)(a := (dsw s a)\<lparr>nsent := n\<rparr>)\<rparr>)"
proof -
  let ?v = "if ds_use_vec (dsw s a) then ds_vec (dsw s a) else [ds_buf (dsw s a)]"
  obtain n e k where c: "os_sendto os (sk_fd s) ?v dest (kern s) = ((n, e), k)" by (metis surj_pair)
  then have "dgram_send_attempt_once os a s = (if n \<ge> 0 then 0 else if e = EAGAIN then - 1 else 0,
     s\<lparr>kern := k, sk_errno := (if n < 0 then e else sk_errno s), dsw := (dsw s)(a := (dsw s a)\<lparr>nsent := n\<rparr>)\<rparr>)"
    using assms by (auto simp: dgram_send_attempt_once_def sending_def send_is_sendto writev_is_sendto Let_def split: option.splits)
  moreover have "concat ?v = b" using assms by (auto simp: sending_def)
  ultimately show ?thesis using c by blast
qed

lemma dgram_attempt:
  assumes I: "sending a dest b bi bo s" and att: "dgram_send_attempt_once os a s = (r, s1)"
  shows "r = 0 \<and> nsent (dsw s1 a) = int (length b) \<and> sending a dest b bi (bo @ [(dest, b)]) s1 \<or>
    nsent (dsw s1 a) = - 1 \<and> sending a dest b bi bo s1 \<and> (r = 0 \<or> r = - 1)"
    and "sk_closed s1 = sk_closed s"
proof -
  from dgram_call [OF I] obtain v n e k where v: "concat v = b" and c: "os_sendto os (sk_fd s) v dest (kern s) = ((n, e), k)"
    and a: "dgram_send_attempt_once os a s = (if n \<ge> 0 then 0 else if e = EAGAIN then - 1 else 0,
     s\<lparr>kern := k, sk_errno := (if n < 0 then e else sk_errno s), dsw := (dsw s)(a := (dsw s a)\<lparr>nsent := n\<rparr>)\<rparr>)" by blast
  show "sk_closed s1 = sk_closed s" using a att by auto
  show "r = 0 \<and> nsent (dsw s1 a) = int (length b) \<and> sending a dest b bi (bo @ [(dest, b)]) s1 \<or>
    nsent (dsw s1 a) = - 1 \<and> sending a dest b bi bo s1 \<and> (r = 0 \<or> r = - 1)"
    using sendto_some [OF c] sendto_none [OF c] sendto_din [OF c] a att I v by (cases "0 \<le> n") (auto simp: sending_def)
qed

lemma recv_from_sound:
  assumes "dgram_recv_from os idle a len s = Some (n, d, src, s1)"
  shows "dout (kern s1) = dout (kern s)"
    and "(\<exists>p. din (kern s) = (src, p) # din (kern s1) \<and> d = take len p \<and> n = int (length d)) \<or> n = - 1 \<and> d = [] \<and> din (kern s1) = din (kern s)"
proof -
  let ?s0 = "recvfrom_awaiter_init a (replicate len 0) len s"
  let ?bi = "din (kern s)" and ?bo = "dout (kern s)"
  let ?Q = "\<lambda>s1. one_taken a len ?bi ?bo s1 \<or> none_taken a len ?bi ?bo s1"
  obtain t where t: "await_loop (recvfrom_attempt_once os) (recvfrom_register_wait os) (wait_for os idle EPOLLIN) True a ?s0 = Some t"
    and r: "recvfrom_await_resume a t = (n, s1)" "d = take (nat n) (dr_buf (drw s1 a))" "src = out_addr (drw s1 a)"
    using assms by (auto simp: dgram_recv_from_def case_prod_beta intro: prod_eqI)
  have "?Q t"
  proof (rule await_post [where I = "none_taken a len ?bi ?bo", OF t])
    fix s r s' assume "none_taken a len ?bi ?bo s" "recvfrom_attempt_once os a s = (r, s')"
    from recvfrom_attempt(1) [OF this] show "if r = 0 then ?Q (drain_done a s') else none_taken a len ?bi ?bo s'"
      by (auto simp: none_taken_def one_taken_def)
  qed (simp_all add: none_taken_def recvfrom_awaiter_init_def recvfrom_register_wait_def)
  then have Q: "?Q t" .
  have f: "drw s1 = drw t" "kern s1 = kern t" using r(1) by (auto simp: recvfrom_await_resume_def split: if_splits)
  have n: "n = nread (drw t a)" using r(1) Q by (auto simp: recvfrom_await_resume_def none_taken_def one_taken_def split: if_splits)
  have d: "d = take (nat (nread (drw t a))) (dr_buf (drw t a))" "src = out_addr (drw t a)" using r(2,3) by (simp_all add: f n)
  show "dout (kern s1) = dout (kern s)" using Q by (auto simp: f none_taken_def one_taken_def)
  show "(\<exists>p. din (kern s) = (src, p) # din (kern s1) \<and> d = take len p \<and> n = int (length d)) \<or> n = - 1 \<and> d = [] \<and> din (kern s1) = din (kern s)"
  proof (cases "none_taken a len ?bi ?bo t")
    case True
    then show ?thesis by (simp add: none_taken_def n d f)
  next
    case False
    with Q obtain p where "?bi = (src, p) # din (kern t)" "nread (drw t a) = int (length (take len p))" "d = take len p"
      by (auto simp: one_taken_def d)
    then show ?thesis by (intro disjI1 exI [of _ p]) (simp add: f n)
  qed
qed

lemma sending_starts:
  "sending a dest b (din (kern s)) (dout (kern s)) (dgram_send_awaiter_init a b dest s)"
  "sending a dest (concat v) (din (kern s)) (dout (kern s)) (dgram_sendv_awaiter_init a v dest s)"
  "kern (dgram_send_awaiter_init a b dest s) = kern s" "kern (dgram_sendv_awaiter_init a v dest s) = kern s"
  by (simp_all add: sending_def dgram_send_awaiter_init_def dgram_sendv_awaiter_init_def)

lemma await_send_sound:
  assumes "dgram_await_send os idle a s0 = Some (n, s1)" and "sending a dest b (din (kern s0)) (dout (kern s0)) s0"
  shows "din (kern s1) = din (kern s0)"
    and "n = int (length b) \<and> dout (kern s1) = dout (kern s0) @ [(dest, b)] \<or> n = - 1 \<and> dout (kern s1) = dout (kern s0)"
proof -
  let ?bi = "din (kern s0)" and ?bo = "dout (kern s0)"
  let ?Q = "\<lambda>t. nsent (dsw t a) = int (length b) \<and> sending a dest b ?bi (?bo @ [(dest, b)]) t \<or> nsent (dsw t a) = - 1 \<and> sending a dest b ?bi ?bo t"
  obtain t where t: "await_loop (dgram_send_attempt_once os) (dgram_send_register_wait os) (wait_for os idle EPOLLOUT) True a s0 = Some t"
    and r: "dgram_send_await_resume a t = (n, s1)" using assms(1) by (auto simp: dgram_await_send_def)
  have "?Q t"
  proof (rule await_post [where I = "sending a dest b ?bi ?bo", OF t assms(2)])
    fix s r s' assume "sending a dest b ?bi ?bo s" "dgram_send_attempt_once os a s = (r, s')"
    from dgram_attempt(1) [OF this] show "if r = 0 then ?Q (drain_done a s') else sending a dest b ?bi ?bo s'"
      by (auto simp: sending_def)
  qed (simp_all add: sending_def dgram_send_register_wait_def)
  moreover have "kern s1 = kern t" using r by (auto simp: dgram_send_await_resume_def split: if_splits)
  moreover have "n = nsent (dsw t a)" using r calculation(1) by (auto simp: dgram_send_await_resume_def split: if_splits)
  ultimately show "din (kern s1) = din (kern s0)"
    and "n = int (length b) \<and> dout (kern s1) = dout (kern s0) @ [(dest, b)] \<or> n = - 1 \<and> dout (kern s1) = dout (kern s0)"
    by (auto simp: sending_def)
qed

end

section \<open>Kernels without failures\<close>

text \<open>A call gives a datagram, or takes one, or would block; after the wait it does not block.\<close>

locale reliable_dgram = kernel_dgram os idle din dout
  for os :: "'k os" and idle :: "32 word \<Rightarrow> 'k \<Rightarrow> 'k" and din :: "'k \<Rightarrow> (bytes \<times> bytes) list" and dout :: "'k \<Rightarrow> (bytes option \<times> bytes) list" +
  fixes woken :: "32 word \<Rightarrow> 'k \<Rightarrow> bool"
  assumes woken_idle: "flags = EPOLLIN \<longrightarrow> din k \<noteq> [] \<Longrightarrow> woken flags (idle flags k)"
    and woken_ctl: "woken flags k \<Longrightarrow> woken flags (snd (os_ctl os oper fd ev k))"
    and recvfrom_outcome: "os_recvfrom os fd len k = ((n, e, d, from), k1) \<Longrightarrow> 0 \<le> n \<or> e = EAGAIN \<and> \<not> woken EPOLLIN k"
    and sendto_outcome: "os_sendto os fd v dest k = ((n, e), k1) \<Longrightarrow> 0 \<le> n \<or> e = EAGAIN \<and> \<not> woken EPOLLOUT k"
begin

lemma woken_wait: "flags = EPOLLIN \<longrightarrow> din (kern s) \<noteq> [] \<Longrightarrow> woken flags (kern (wait_for os idle flags s))"
  by (auto simp: wait_for_def handle_event_def take_ready_def woken_idle split: option.splits
      intro!: update_kern_pred [where P = "woken flags"] woken_ctl)

lemma recv_from_completes:
  fixes s :: "('k, 'b) sock_scheme"
  assumes "din (kern s) = (src, p) # rest"
  shows "\<exists>s1. dgram_recv_from os idle a len s = Some (int (length (take len p)), take len p, src, s1) \<and> din (kern s1) = rest"
proof -
  let ?s0 = "recvfrom_awaiter_init a (replicate len 0) len s"
  let ?bi = "din (kern s)" and ?bo = "dout (kern s)"
  let ?todo = "\<lambda>s. if woken EPOLLIN (kern s) then 0 else 1 :: nat"
  have "\<exists>s1. await_loop (recvfrom_attempt_once os) (recvfrom_register_wait os) (wait_for os idle EPOLLIN) True a ?s0 = Some (drain_done a s1) \<and>
    one_taken a len ?bi ?bo s1"
  proof (rule await_completes [where I = "none_taken a len ?bi ?bo" and todo = ?todo])
    fix first and s2 :: "('k, 'b) sock_scheme" and r s1
    assume I: "none_taken a len ?bi ?bo s2" and att: "recvfrom_attempt_once os a s2 = (r, s1)"
    let ?s3 = "wait_for os idle EPOLLIN (recvfrom_register_wait os a first (s1\<lparr>func := (func s1)(a := Code Drive_cb)\<rparr>))"
    obtain n e d f k where c: "os_recvfrom os (sk_fd s2) len (kern s2) = ((n, e, d, f), k)" by (metis prod_cases4 surj_pair)
    show "r = 0 \<and> one_taken a len ?bi ?bo s1 \<or> r < 0 \<and> (let s2' = ?s3 in none_taken a len ?bi ?bo s2' \<and> ?todo s2' < ?todo s2)"
    proof (cases "0 \<le> n")
      case True
      then show ?thesis using recvfrom_attempt(1) [OF I att] I att c
        by (auto simp: recvfrom_attempt_once_def none_taken_def)
    next
      case False
      then have e: "e = EAGAIN" "\<not> woken EPOLLIN (kern s2)" using recvfrom_outcome [OF c] by simp_all
      then have "r = - 1" using I att c False by (auto simp: recvfrom_attempt_once_def none_taken_def)
      moreover from this have n: "none_taken a len ?bi ?bo s1" using recvfrom_attempt(1) [OF I att] by auto
      moreover have "none_taken a len ?bi ?bo ?s3" using n by (simp add: none_taken_def recvfrom_register_wait_def)
      moreover have "woken EPOLLIN (kern ?s3)" using n assms by (intro woken_wait) (simp add: none_taken_def recvfrom_register_wait_def)
      ultimately show ?thesis using e(2) by simp
    qed
  qed (simp_all add: none_taken_def recvfrom_awaiter_init_def recvfrom_register_wait_def)
  then obtain t where "await_loop (recvfrom_attempt_once os) (recvfrom_register_wait os) (wait_for os idle EPOLLIN) True a ?s0 = Some (drain_done a t)"
    and t: "one_taken a len ?bi ?bo t" by blast
  then have "dgram_recv_from os idle a len s =
    Some (nread (drw t a), take (nat (nread (drw t a))) (dr_buf (drw t a)), out_addr (drw t a), drain_done a t)"
    by (auto simp: dgram_recv_from_def recvfrom_await_resume_def one_taken_def)
  then show ?thesis using t assms by (auto simp: one_taken_def)
qed

lemma await_send_completes:
  fixes s0 :: "('k, 'b) sock_scheme"
  assumes I0: "sending a dest b (din (kern s0)) (dout (kern s0)) s0"
  shows "\<exists>s1. dgram_await_send os idle a s0 = Some (int (length b), s1) \<and> dout (kern s1) = dout (kern s0) @ [(dest, b)]"
proof -
  let ?bi = "din (kern s0)" and ?bo = "dout (kern s0)"
  let ?todo = "\<lambda>s. if woken EPOLLOUT (kern s) then 0 else 1 :: nat"
  let ?Q = "\<lambda>t. nsent (dsw t a) = int (length b) \<and> sending a dest b ?bi (?bo @ [(dest, b)]) t"
  have "\<exists>s1. await_loop (dgram_send_attempt_once os) (dgram_send_register_wait os) (wait_for os idle EPOLLOUT) True a s0 = Some (drain_done a s1) \<and> ?Q s1"
  proof (rule await_completes [where I = "sending a dest b ?bi ?bo" and todo = ?todo])
    fix first and s2 :: "('k, 'b) sock_scheme" and r s1
    assume I: "sending a dest b ?bi ?bo s2" and att: "dgram_send_attempt_once os a s2 = (r, s1)"
    let ?s3 = "wait_for os idle EPOLLOUT (dgram_send_register_wait os a first (s1\<lparr>func := (func s1)(a := Code Drive_cb)\<rparr>))"
    from dgram_call [OF I] obtain v n e k where c: "os_sendto os (sk_fd s2) v dest (kern s2) = ((n, e), k)"
      and at: "dgram_send_attempt_once os a s2 = (if n \<ge> 0 then 0 else if e = EAGAIN then - 1 else 0,
        s2\<lparr>kern := k, sk_errno := (if n < 0 then e else sk_errno s2), dsw := (dsw s2)(a := (dsw s2 a)\<lparr>nsent := n\<rparr>)\<rparr>)" by blast
    note s1 = att [unfolded at] dgram_attempt(1) [OF I att]
    show "r = 0 \<and> ?Q s1 \<or> r < 0 \<and> (let s2' = ?s3 in sending a dest b ?bi ?bo s2' \<and> ?todo s2' < ?todo s2)"
    proof (cases "0 \<le> n")
      case True
      then show ?thesis using s1 by auto
    next
      case False
      then have e: "r = - 1" "\<not> woken EPOLLOUT (kern s2)" using sendto_outcome [OF c] s1(1) by auto
      then have n: "sending a dest b ?bi ?bo s1" using s1(2) by auto
      moreover have "sending a dest b ?bi ?bo ?s3" using n by (simp add: sending_def dgram_send_register_wait_def)
      moreover have "woken EPOLLOUT (kern ?s3)" by (rule woken_wait) (simp add: EPOLLIN_def EPOLLOUT_def)
      ultimately show ?thesis using e by simp
    qed
  qed (simp_all add: I0 dgram_send_register_wait_def)
  then obtain t where "await_loop (dgram_send_attempt_once os) (dgram_send_register_wait os) (wait_for os idle EPOLLOUT) True a s0 = Some (drain_done a t)"
    and "?Q t" by blast
  then have "dgram_await_send os idle a s0 = Some (int (length b), drain_done a t)" and "dout (kern (drain_done a t)) = dout (kern s0) @ [(dest, b)]"
    by (simp_all add: dgram_await_send_def dgram_send_await_resume_def sending_def)
  then show ?thesis by blast
qed

end

section \<open>A concrete kernel\<close>

text \<open>Datagrams that arrive with pauses between them (\<open>None\<close>: the next call would block); after each datagram sent the next call would block.\<close>

record dg_kernel =
  arriving :: "(bytes \<times> bytes) option list"
  sent_out :: "(bytes option \<times> bytes) list"
  full :: bool

definition arrived_in :: "dg_kernel \<Rightarrow> (bytes \<times> bytes) list" where
  "arrived_in k = List.map_filter id (arriving k)"

definition dg_idle :: "32 word \<Rightarrow> dg_kernel \<Rightarrow> dg_kernel" where
  "dg_idle flags k = (if flags = EPOLLIN then k\<lparr>arriving := dropWhile Option.is_none (arriving k)\<rparr> else k\<lparr>full := False\<rparr>)"

definition dg_woken :: "32 word \<Rightarrow> dg_kernel \<Rightarrow> bool" where
  "dg_woken flags k \<longleftrightarrow> (if flags = EPOLLIN then arriving k \<noteq> [] \<and> hd (arriving k) \<noteq> None else \<not> full k)"

definition dg_sendto :: "bytes list \<Rightarrow> bytes option \<Rightarrow> dg_kernel \<Rightarrow> (int \<times> int) \<times> dg_kernel" where
  "dg_sendto v dest k =
     (if full k then ((- 1, EAGAIN), k)
      else ((int (length (concat v)), 0), k\<lparr>sent_out := sent_out k @ [(dest, concat v)], full := True\<rparr>))"

definition dg_recvfrom :: "nat \<Rightarrow> dg_kernel \<Rightarrow> (int \<times> int \<times> bytes \<times> bytes) \<times> dg_kernel" where
  "dg_recvfrom len k =
     (case arriving k of
        Some (src, p) # q \<Rightarrow> ((int (length (take len p)), 0, take len p, src), k\<lparr>arriving := q\<rparr>)
      | _ \<Rightarrow> ((- 1, EAGAIN, [], []), k))"

definition dg_os :: "dg_kernel os" where
  "dg_os =
     \<lparr>os_ctl = (\<lambda>oper fd ev k. ((0, 0), k)), os_socket = (\<lambda>d t p k. (5, k)), os_set_non_block = (\<lambda>fd k. k),
      os_getsockname = (\<lambda>fd k. Some AF_INET), os_close = (\<lambda>fd k. k), os_shutdown_wr = (\<lambda>fd k. k),
      os_connect = (\<lambda>fd ad k. ((0, 0), k)), os_so_error = (\<lambda>fd k. (0, 0)),
      os_recv = (\<lambda>fd len k. ((- 1, EAGAIN, []), k)), os_send = (\<lambda>fd b. dg_sendto [b] None),
      os_writev = (\<lambda>fd v. dg_sendto v None), os_recvfrom = (\<lambda>fd. dg_recvfrom), os_sendto = (\<lambda>fd. dg_sendto)\<rparr>"

lemma arrived_dropWhile: "List.map_filter id (dropWhile Option.is_none q) = List.map_filter id q"
  by (induction q) (auto simp: List.map_filter_simps split: option.splits)

lemma dropWhile_none:
  assumes "List.map_filter id q \<noteq> []"
  shows "hd (dropWhile Option.is_none q) \<noteq> None" and "\<exists>x\<in>set q. \<not> Option.is_none x"
  using assms by (induction q) (auto simp: List.map_filter_simps split: option.splits)

interpretation dg: reliable_dgram dg_os dg_idle arrived_in sent_out dg_woken
proof
  fix fd len k n e d src k1
  assume c: "os_recvfrom dg_os fd len k = ((n, e, d, src), k1)"
  show "0 \<le> n \<Longrightarrow> \<exists>p. arrived_in k = (src, p) # arrived_in k1 \<and> d = take len p \<and> n = int (length d)"
    and "n < 0 \<Longrightarrow> n = - 1 \<and> arrived_in k1 = arrived_in k" and "sent_out k1 = sent_out k" and "0 \<le> n \<or> e = EAGAIN \<and> \<not> dg_woken EPOLLIN k"
    using c by (auto simp: dg_os_def dg_recvfrom_def arrived_in_def dg_woken_def List.map_filter_simps split: list.splits option.splits)
qed (auto simp: dg_os_def dg_sendto_def dg_idle_def dg_woken_def arrived_in_def arrived_dropWhile dropWhile_none EPOLLIN_def EPOLLOUT_def
      split: if_splits)

definition demo_dgram :: "(bytes \<times> bytes) option list \<Rightarrow> dg_kernel sock" where
  "demo_dgram q =
     epr.extend (cbq.extend demo_cbq (epr.fields Map.empty \<lparr>arriving = q, sent_out = [], full = True\<rparr>))
       (sock.fields 5 False AF_INET 30 31 False False 0
          (\<lambda>_. \<lparr>rv_full = False, rv_buf = [], rv_len = 0, recvd = 0, rv_err = 0\<rparr>)
          (\<lambda>_. \<lparr>sd_full = False, sd_buf = [], sd_len = 0, sd_vec = [], use_vec = False, sent = 0, sd_err = 0\<rparr>)
          (\<lambda>_. \<lparr>dr_buf = [], dr_len = 0, out_addr = [], nread = - 1\<rparr>)
          (\<lambda>_. \<lparr>ds_use_vec = False, ds_dest = None, ds_buf = [], ds_vec = [], nsent = 0\<rparr>)
          (\<lambda>_. \<lparr>c_ret = 0, c_timed_out = False\<rparr>))"

lemma demo_dgram_kern [simp]: "kern (demo_dgram q) = \<lparr>arriving = q, sent_out = [], full = True\<rparr>"
  by (simp add: demo_dgram_def epr.defs cbq.defs sock.defs)

section \<open>Properties\<close>

text \<open>
  Over every kernel that treats datagrams as documented, \<open>recv_from\<close> takes exactly the next datagram, as much of it as the buffer holds,
  with the address of its sender, or fails and takes none; \<open>send_to\<close> sends its argument as one datagram to its destination, or fails and sends
  nothing: no datagram is merged, split, lost or sent twice by the driver.
\<close>

theorem datagram_io:
  assumes "kernel_dgram os idle din dout"
    and "dgram_recv_from os idle a len s = Some (n, d, src, s1)"
    and "dgram_send_to os idle a' b dest s1 = Some (m, s2)"
  shows "((\<exists>p. din (kern s) = (src, p) # din (kern s2) \<and> d = take len p \<and> n = int (length d)) \<or> n = - 1 \<and> d = [] \<and> din (kern s2) = din (kern s)) \<and>
    (m = int (length b) \<and> dout (kern s2) = dout (kern s) @ [(Some dest, b)] \<or> m = - 1 \<and> dout (kern s2) = dout (kern s))"
proof -
  let ?t = "dgram_send_awaiter_init a' b (Some dest) s1"
  have "dgram_await_send os idle a' ?t = Some (m, s2)" using assms(3) by (simp add: dgram_send_to_def)
  note w = kernel_dgram.await_send_sound [OF assms(1) this, of "Some dest" b]
  note st = kernel_dgram.sending_starts(1) [OF assms(1), of a' "Some dest" b s1] kernel_dgram.sending_starts(3) [OF assms(1)]
  note r = kernel_dgram.recv_from_sound [OF assms(1,2)]
  show ?thesis using w st(1) r by (simp add: st(2))
qed

theorem datagram_io_witness:
  "\<exists>n d src s1 m s2. dgram_recv_from dg_os dg_idle 40 2 (demo_dgram [None, Some ([5], [1, 2, 3])]) = Some (n, d, src, s1) \<and>
     dgram_send_to dg_os dg_idle 41 [7, 8, 9] [6] s1 = Some (m, s2) \<and>
     (m = 3 \<and> sent_out (kern s2) = [(Some [6], [7, 8, 9])] \<or> m = - 1 \<and> sent_out (kern s2) = [])"
proof -
  let ?s = "demo_dgram [None, Some ([5], [1, 2, 3])]"
  have q: "arrived_in (kern ?s) = ([5], [1, 2, 3]) # []" by (simp add: arrived_in_def List.map_filter_simps)
  obtain n d src s1 where r: "dgram_recv_from dg_os dg_idle 40 2 ?s = Some (n, d, src, s1)"
    using dg.recv_from_completes [OF q] by blast
  obtain m s2 where w: "dgram_send_to dg_os dg_idle 41 [7, 8, 9] [6] s1 = Some (m, s2)"
    using dg.await_send_completes [of 41 "Some [6]" "[7, 8, 9]" "dgram_send_awaiter_init 41 [7, 8, 9] (Some [6]) s1"]
      dg.sending_starts(1) [of 41 "Some [6]" "[7, 8, 9]" s1]
    by (auto simp: dgram_send_to_def dg.sending_starts(3))
  show ?thesis using datagram_io [OF dg.kernel_dgram_axioms r w] r w by auto
qed



text \<open>
  What closing gives an operation that still waits for its slot (it resumes without an attempt): receiving reports \<open>ECANCELED\<close>, but sending
  reports success with 0 bytes, because \<open>nsent\<close> starts at 0 and not at -1.
\<close>

lemma dgram_closed_in_queue:
  assumes "sk_closed s"
  shows "fst (recvfrom_await_resume a (recvfrom_awaiter_init a buf len s)) = - 1"
    and "sk_errno (snd (recvfrom_await_resume a (recvfrom_awaiter_init a buf len s))) = ECANCELED"
    and "fst (dgram_send_await_resume a (dgram_send_awaiter_init a b dest s)) = 0"
    and "fst (dgram_send_await_resume a (dgram_sendv_awaiter_init a v dest s)) = 0"
  using assms
  by (simp_all add: recvfrom_await_resume_def recvfrom_awaiter_init_def dgram_send_await_resume_def dgram_send_awaiter_init_def
      dgram_sendv_awaiter_init_def)

end
