(* ===== verification/Closing.thy ===== *)
theory Closing
  imports Stream_Socket
begin

text \<open>
  Closing a socket: \<open>close_fd\<close> and \<open>close\<close> of \<^verbatim>\<open>net/stream_socket_base.hpp\<close> over the reactor, the slots of the two-phase driver, the
  queue of callbacks and the executor.
\<close>

section \<open>Posting a waiter through its route\<close>

text \<open>A waiter that its queue accepts: it passes the checks and is not pending yet.\<close>

definition acceptable :: "addr \<Rightarrow> 'a cbq_scheme \<Rightarrow> bool" where
  "acceptable w s \<longleftrightarrow> plausible s w \<and> debug_magic s w = debug_magic_value \<and> \<not> callback_enqueued s w"

text \<open>What the executor has queued after the queue of callbacks was woken.\<close>

definition woken_runner :: "'a cbq_scheme \<Rightarrow> addr list \<Rightarrow> addr list" where
  "woken_runner s qs = (if running s then qs else remove1 (runner s) qs @ [runner s])"

definition post_routed :: "(addr \<Rightarrow> addr) \<Rightarrow> addr \<Rightarrow> 'a cbq_scheme \<Rightarrow> 'a cbq_scheme" where
  "post_routed entry w s = post_via_route True (entry w) w s"

lemma post_routed_frame:
  "ws_head (post_routed entry w s) = ws_head s" "pending (post_routed entry w s) = pending s" "runner (post_routed entry w s) = runner s"
  "func (post_routed entry w s) = func s" "locked (post_routed entry w s) = locked s" "plausible (post_routed entry w s) = plausible s"
  "debug_magic (post_routed entry w s) = debug_magic s"
  by (auto simp: post_routed_def post_via_route_def state_post_def link_entry_def exchange_enqueued_def wq_post_def enqueue_def trig_once_def
      emit_def cb_note_def Let_def split: option.splits)

lemma post_routed_fields:
  assumes "acceptable w s"
  shows "entry_waiter (post_routed entry w s) = (entry_waiter s)(entry w \<mapsto> w)" and "running (post_routed entry w s)"
    and "callback_enqueued (post_routed entry w s) = (callback_enqueued s)(w := True)"
  using assms
  by (auto simp: acceptable_def post_routed_def post_via_route_def state_post_def capture_waiter_def link_entry_def exchange_enqueued_def
      wq_post_def enqueue_def trig_once_def emit_def cb_note_def Let_def split: option.splits)

lemma post_routed_lists:
  assumes L: "store_ok (lks s) H R" and h: "ws_head s \<in> H" "pending s \<in> H" "ws_head s \<noteq> pending s" "runner s \<notin> H" "entry w \<notin> H"
    and e: "R (entry w) = Some []" "entry w \<noteq> runner s" and r: "\<forall>h\<in>H - {ws_head s}. runner s \<notin> set (the (R h))" and a: "acceptable w s"
    and q: "R (ws_head s) = Some qs" "R (pending s) = Some ps"
  shows "\<exists>R'. store_ok (lks (post_routed entry w s)) H R' \<and> R' (ws_head s) = Some (woken_runner s qs) \<and> R' (pending s) = Some (ps @ [entry w]) \<and>
    (\<forall>k\<in>H - {ws_head s, pending s}. R' k = R k) \<and> (\<forall>x. x \<notin> H \<longrightarrow> x \<noteq> entry w \<longrightarrow> x \<noteq> runner s \<longrightarrow> R' x = R x)"
proof -
  let ?m = "list_add_tail (entry w) (pending s) (lks s)" and ?R = "r_append (entry w) (pending s) R"
  have L1: "store_ok ?m H ?R" by (rule store_ok_add_tail [OF L h(5) e(1) h(2)])
  have p: "pending s \<noteq> entry w" "ws_head s \<noteq> entry w" using h by auto
  have R1: "?R (pending s) = Some (ps @ [entry w])" "?R (ws_head s) = Some qs" "\<And>k. k \<noteq> pending s \<Longrightarrow> k \<noteq> entry w \<Longrightarrow> ?R k = R k"
    using q p h(3) by (auto simp: ring_simps)
  show ?thesis
  proof (cases "running s")
    case True
    have "lks (post_routed entry w s) = ?m"
      using a True by (auto simp: acceptable_def post_routed_def post_via_route_def state_post_def capture_waiter_def link_entry_def
          exchange_enqueued_def cb_note_def Let_def)
    moreover have "?R x = R x" if "x \<notin> H" "x \<noteq> entry w" for x using R1(3) [of x] that h(2) by auto
    ultimately show ?thesis using L1 R1 h True by (intro exI [of _ ?R]) (auto simp: woken_runner_def)
  next
    case False
    let ?R2 = "r_append (runner s) (ws_head s) (r_detach (runner s) ?R)"
    have m2: "lks (post_routed entry w s) = list_add_tail (runner s) (ws_head s) (list_del (runner s) ?m)"
      using a False by (auto simp: acceptable_def post_routed_def post_via_route_def state_post_def capture_waiter_def link_entry_def
          exchange_enqueued_def cb_note_def wq_post_def enqueue_def Let_def)
    have L2: "store_ok (lks (post_routed entry w s)) H ?R2" unfolding m2 by (rule store_ok_requeue [OF L1 h(4,1)])
    have ne: "runner s \<noteq> ws_head s" "runner s \<noteq> pending s" using h by auto
    have "runner s \<notin> set ps" using r q(2) h(2,3) by force
    then have F1: "?R2 (pending s) = Some (ps @ [entry w])" using R1(1) ne h(3) e(2) by (auto simp: ring_simps remove1_idem remove1_append)
    have F2: "?R2 (ws_head s) = Some (woken_runner s qs)" using R1(2) ne False by (auto simp: ring_simps woken_runner_def)
    have F3: "?R2 k = R k" if "k \<in> H - {ws_head s, pending s}" for k
    proof -
      have "R k \<noteq> None" using L that by (simp add: store_ok_def)
      then obtain ys where "R k = Some ys" by blast
      moreover have "runner s \<notin> set (the (R k))" by (rule bspec [OF r]) (use that in simp)
      moreover have "k \<noteq> runner s" "k \<noteq> entry w" using that h by auto
      ultimately show ?thesis using R1(3) [of k] that by (auto simp: ring_simps remove1_idem)
    qed
    have F4: "?R2 x = R x" if "x \<notin> H" "x \<noteq> entry w" "x \<noteq> runner s" for x
    proof -
      have "x \<noteq> pending s" "x \<noteq> ws_head s" using that h by auto
      moreover have "R x = Some [] \<or> (\<exists>h\<in>H. \<exists>xs. R h = Some xs \<and> x \<in> set xs)" using L that(1) by (simp add: store_ok_def)
      then have "R x = Some [] \<or> R x = None"
      proof (elim disjE bexE exE conjE)
        fix h xs assume "R h = Some xs" "x \<in> set xs"
        from rep_member_not_head [OF store_ok_rep [OF L] this] show ?thesis ..
      qed simp
      ultimately show ?thesis using that R1(3) [of x] by (auto simp: ring_simps)
    qed
    show ?thesis
    proof (intro exI [of _ ?R2] conjI ballI allI impI)
      show "store_ok (lks (post_routed entry w s)) H ?R2" by (rule L2)
      show "?R2 (ws_head s) = Some (woken_runner s qs)" by (rule F2)
      show "?R2 (pending s) = Some (ps @ [entry w])" by (rule F1)
      show "?R2 k = R k" if "k \<in> H - {ws_head s, pending s}" for k by (rule F3 [OF that])
      show "?R2 x = R x" if "x \<notin> H" "x \<noteq> entry w" "x \<noteq> runner s" for x by (rule F4 [OF that])
    qed
  qed
qed

lemma fold_post_routed:
  assumes L: "store_ok (lks s) H R" and h: "ws_head s \<in> H" "pending s \<in> H" "ws_head s \<noteq> pending s" "runner s \<notin> H"
    and r: "\<forall>h\<in>H - {ws_head s}. runner s \<notin> set (the (R h))" and q: "R (ws_head s) = Some qs" "R (pending s) = Some ps"
    and ws: "distinct ws" "distinct (map entry ws)"
    and e: "\<forall>w\<in>set ws. entry w \<notin> H \<and> R (entry w) = Some [] \<and> entry w \<noteq> runner s \<and> acceptable w s"
  defines "s' \<equiv> fold (post_routed entry) ws s"
  shows "(\<exists>R'. store_ok (lks s') H R' \<and> R' (ws_head s) = Some (if ws = [] then qs else woken_runner s qs) \<and>
    R' (pending s) = Some (ps @ map entry ws) \<and> (\<forall>k\<in>H - {ws_head s, pending s}. R' k = R k)) \<and>
    (\<forall>w\<in>set ws. entry_waiter s' (entry w) = Some w \<and> callback_enqueued s' w) \<and> (\<forall>x. x \<notin> entry ` set ws \<longrightarrow> entry_waiter s' x = entry_waiter s x) \<and>
    (\<forall>x. x \<notin> set ws \<longrightarrow> callback_enqueued s' x = callback_enqueued s x)"
  using L h r q ws e unfolding s'_def
proof (induction ws arbitrary: s R qs ps)
  case Nil
  then show ?case by auto
next
  case (Cons w ws)
  let ?t = "post_routed entry w s"
  have a: "acceptable w s" and ew: "entry w \<notin> H" "R (entry w) = Some []" "entry w \<noteq> runner s" using Cons.prems by auto
  from post_routed_lists [where entry = entry and w = w, OF Cons.prems(1-5) ew Cons.prems(6) a Cons.prems(7,8)] obtain R1 where
    R1: "store_ok (lks ?t) H R1" "R1 (ws_head s) = Some (woken_runner s qs)" "R1 (pending s) = Some (ps @ [entry w])"
      "\<forall>k\<in>H - {ws_head s, pending s}. R1 k = R k" "\<forall>x. x \<notin> H \<longrightarrow> x \<noteq> entry w \<longrightarrow> x \<noteq> runner s \<longrightarrow> R1 x = R x" by blast
  note f = post_routed_frame [of entry w s] and g = post_routed_fields [OF a, of entry]
  have r1: "runner ?t \<notin> set (the (R1 k))" if "k \<in> H - {ws_head ?t}" for k
  proof (cases "k = pending s")
    case True
    then have "runner s \<notin> set ps" using bspec [OF Cons.prems(6), of k] Cons.prems(8) that by (simp add: f)
    then show ?thesis using R1(3) ew(3) True by (simp add: f)
  qed (use that Cons.prems(6) R1(4) in \<open>auto simp: f\<close>)
  have e1: "\<forall>x\<in>set ws. entry x \<notin> H \<and> R1 (entry x) = Some [] \<and> entry x \<noteq> runner ?t \<and> acceptable x ?t"
  proof
    fix x assume x: "x \<in> set ws"
    then have "x \<noteq> w" "entry x \<noteq> entry w" using Cons.prems(9,10) by (auto simp: image_iff)
    moreover have "entry x \<notin> H" "R (entry x) = Some []" "entry x \<noteq> runner s" "acceptable x s" using x Cons.prems(11) by simp_all
    ultimately show "entry x \<notin> H \<and> R1 (entry x) = Some [] \<and> entry x \<noteq> runner ?t \<and> acceptable x ?t"
      using R1(5) by (simp add: f g acceptable_def)
  qed
  have "woken_runner ?t xs = xs" for xs using g(2) by (simp add: woken_runner_def)
  with Cons.IH [OF R1(1) _ _ _ _ _ _ _ _ _ e1, of "woken_runner s qs" "ps @ [entry w]"] r1 R1 Cons.prems
  have IH: "(\<exists>R'. store_ok (lks (fold (post_routed entry) ws ?t)) H R' \<and> R' (ws_head s) = Some (woken_runner s qs) \<and>
    R' (pending s) = Some (ps @ map entry (w # ws)) \<and> (\<forall>k\<in>H - {ws_head s, pending s}. R' k = R1 k)) \<and>
    (\<forall>x\<in>set ws. entry_waiter (fold (post_routed entry) ws ?t) (entry x) = Some x \<and> callback_enqueued (fold (post_routed entry) ws ?t) x) \<and>
    (\<forall>x. x \<notin> entry ` set ws \<longrightarrow> entry_waiter (fold (post_routed entry) ws ?t) x = entry_waiter ?t x) \<and>
    (\<forall>x. x \<notin> set ws \<longrightarrow> callback_enqueued (fold (post_routed entry) ws ?t) x = callback_enqueued ?t x)"
    by (simp add: f cong: if_cong)
  then show ?case using R1(4) Cons.prems(9,10) by (fastforce simp: g)
qed

section \<open>Closing a socket\<close>

lemma post_routed_sock:
  "fds (post_routed entry w s) = fds s" "kern (post_routed entry w s) = kern s" "sk_fd (post_routed entry w s) = sk_fd s"
  "send_q (post_routed entry w s) = send_q s" "recv_q (post_routed entry w s) = recv_q s" "sk_closed (post_routed entry w s) = sk_closed s"
  for s :: "('k, 'b) sock_scheme"
  by (auto simp: post_routed_def post_via_route_def state_post_def link_entry_def exchange_enqueued_def wq_post_def enqueue_def trig_once_def
      emit_def cb_note_def Let_def split: option.splits)

lemma fold_routed_frame:
  "fds (fold (post_routed entry) ws s) = fds s" "kern (fold (post_routed entry) ws s) = kern s" "sk_fd (fold (post_routed entry) ws s) = sk_fd s"
  "send_q (fold (post_routed entry) ws s) = send_q s" "recv_q (fold (post_routed entry) ws s) = recv_q s"
  "sk_closed (fold (post_routed entry) ws s) = sk_closed s" "ws_head (fold (post_routed entry) ws s) = ws_head s"
  "func (fold (post_routed entry) ws s) = func s"
  for s :: "('k, 'b) sock_scheme"
  by (induction ws arbitrary: s) (simp_all add: post_routed_sock post_routed_frame)

text \<open>
  C23: Closing an open socket takes every waiter of its descriptor out of the reactor and hands it, in the order of registration, to the queue
  of callbacks, whose runner is posted if it was not active; then the operations that wait for the slots for sending and receiving follow behind the work that the
  executor has queued, in order and to be resumed without an attempt. Afterwards nothing waits on the socket: both slots are free,
  the descriptor is invalid, and the socket is marked as closed.
\<close>

theorem socket_close_wakes_everyone:
  fixes s :: "('k, 'b) sock_scheme"
  defines "ws \<equiv> map wi_waiter (waiters_of s (sk_fd s))"
  assumes L: "store_ok (lks s) H R" and h: "{ws_head s, pending s, send_q s, recv_q s, pend} \<subseteq> H" "runner s \<notin> H"
    and d: "distinct [ws_head s, pending s, send_q s, recv_q s, pend]" and r: "\<forall>h\<in>H - {ws_head s}. runner s \<notin> set (the (R h))"
    and q: "R (ws_head s) = Some qs" "R (pending s) = Some ps" "R (send_q s) = Some ss" "R (recv_q s) = Some rs" "R pend = Some []"
    and ws: "distinct ws" "distinct (map entry ws)"
    and e: "\<forall>w\<in>set ws. entry w \<notin> H \<and> R (entry w) = Some [] \<and> entry w \<noteq> runner s \<and> acceptable w s"
    and fd: "sk_fd s \<noteq> invalid_fd"
  shows "\<exists>s1 R1. sock_close os b (post_routed entry) pend s = Some (Inr s1) \<and> rep (lks s1) R1 \<and>
    R1 (pending s) = Some (ps @ map entry ws) \<and> (\<forall>w\<in>set ws. entry_waiter s1 (entry w) = Some w) \<and>
    R1 (ws_head s) = Some ((if ws = [] then qs else woken_runner s qs) @ ss @ rs) \<and> (\<forall>w\<in>set (ss @ rs). func s1 w = Code Resume_cb) \<and>
    R1 (send_q s) = Some [] \<and> R1 (recv_q s) = Some [] \<and> \<not> locked s1 (send_q s) \<and> \<not> locked s1 (recv_q s) \<and>
    sk_fd s1 = invalid_fd \<and> sk_closed s1 \<and> waiters_of s1 (sk_fd s) = [] \<and> \<not> rx_eof s1 \<and> \<not> tx_shutdown s1"
proof -
  define s' where "s' = snd (ctl (os_ctl os) Ctl_del (sk_fd s) 0 (s\<lparr>sk_closed := True, fds := (fds s)(sk_fd s := None)\<rparr>))"
  have s0: "lks s' = lks s" "ws_head s' = ws_head s" "pending s' = pending s" "runner s' = runner s" "running s' = running s"
    "plausible s' = plausible s" "debug_magic s' = debug_magic s" "callback_enqueued s' = callback_enqueued s"
    "fds s' = (fds s)(sk_fd s := None)" "sk_fd s' = sk_fd s" "send_q s' = send_q s" "recv_q s' = recv_q s" "sk_closed s'"
    by (auto simp: s'_def ctl_def split: prod.splits)
  define t where "t = fold (post_routed entry) ws s'"
  have "fold (\<lambda>wi. post_routed entry (wi_waiter wi)) xs u = fold (post_routed entry) (map wi_waiter xs) u" for xs and u :: "('k, 'b) sock_scheme"
    by (induction xs arbitrary: u) simp_all
  then have rem: "remove_fd (os_ctl os) (post_routed entry) (sk_fd s) (s\<lparr>sk_closed := True\<rparr>) = t"
    by (simp add: remove_fd_def Let_def t_def ws_def waiters_of_def s'_def)
  have tf: "ws_head t = ws_head s" "fds t = (fds s)(sk_fd s := None)" "sk_fd t = sk_fd s" "send_q t = send_q s" "recv_q t = recv_q s" "sk_closed t"
    by (simp_all add: t_def fold_routed_frame s0)
  have e0: "\<forall>w\<in>set ws. entry w \<notin> H \<and> R (entry w) = Some [] \<and> entry w \<noteq> runner s' \<and> acceptable w s'"
    using e by (simp add: s0 acceptable_def)
  have wr: "woken_runner s' qs = woken_runner s qs" by (simp add: woken_runner_def s0)
  have "store_ok (lks s') H R" "ws_head s' \<in> H" "pending s' \<in> H" "ws_head s' \<noteq> pending s'" "runner s' \<notin> H"
    "\<forall>h\<in>H - {ws_head s'}. runner s' \<notin> set (the (R h))" "R (ws_head s') = Some qs" "R (pending s') = Some ps"
    using L h d r q by (simp_all only: s0 insert_subset distinct.simps set_simps) simp_all
  from fold_post_routed [OF this ws e0, folded t_def] obtain R1 where
    R1: "store_ok (lks t) H R1" "R1 (ws_head s) = Some (if ws = [] then qs else woken_runner s qs)" "R1 (pending s) = Some (ps @ map entry ws)"
      "\<forall>k\<in>H - {ws_head s, pending s}. R1 k = R k" and ew: "\<forall>w\<in>set ws. entry_waiter t (entry w) = Some w"
    by (auto simp: s0 wr cong: if_cong)
  have R1q: "R1 (send_q s) = Some ss" "R1 (recv_q s) = Some rs" "R1 pend = Some []" using R1(4) h d q by auto
  have lk: "t\<lparr>lks := INIT_LIST_HEAD pend (lks t)\<rparr> = t" using INIT_LIST_HEAD_empty [OF store_ok_rep [OF R1(1)] R1q(3)] by simp
  have "R1 (ws_head t) = Some (if ws = [] then qs else woken_runner s qs)" "\<forall>q\<in>set [send_q t, recv_q t]. R1 q \<noteq> None"
    "distinct (ws_head t # pend # [send_q t, recv_q t])"
    using R1(2) R1q d by (auto simp: tf)
  from serial_close_effect [OF store_ok_rep [OF R1(1)] this(1) R1q(3) this(2,3), of b]
  obtain u v R2 where
    u: "serial_collect_waiters [send_q t, recv_q t] pend t = Some u" and v: "serial_post_pending b pend u = Some (Inr v)"
    and R2: "rep (lks v) R2" "R2 (ws_head s) = Some ((if ws = [] then qs else woken_runner s qs) @ ss @ rs)"
      "R2 (send_q s) = Some []" "R2 (recv_q s) = Some []"
      "\<forall>k. k \<notin> {send_q s, recv_q s, pend, ws_head s} \<longrightarrow> k \<notin> set (ss @ rs) \<longrightarrow> R2 k = R1 k"
    and v2: "v = t\<lparr>lks := lks v, log := log v, locked := (\<lambda>q. q \<notin> {send_q s, recv_q s} \<and> locked t q),
      func := (\<lambda>a. if a \<in> set (ss @ rs) then Code Resume_cb else func t a)\<rparr>"
    by (auto simp: tf R1q cong: if_cong)
  obtain m l where v3: "v = t\<lparr>lks := m, log := l, locked := (\<lambda>q. q \<notin> {send_q s, recv_q s} \<and> locked t q),
      func := (\<lambda>a. if a \<in> set (ss @ rs) then Code Resume_cb else func t a)\<rparr>" using v2 by blast
  let ?s1 = "v\<lparr>kern := os_close os (sk_fd v) (kern v), sk_fd := invalid_fd, rx_eof := False, tx_shutdown := False\<rparr>"
  have c: "sock_close os b (post_routed entry) pend s = Some (Inr ?s1)"
    using fd u v by (simp add: sock_close_def close_fd_def Let_def rem lk del: serial_collect_waiters.simps)
  have "pending s \<notin> set (ss @ rs)"
    using rep_member_not_head [OF store_ok_rep [OF L] q(3), of "pending s"] rep_member_not_head [OF store_ok_rep [OF L] q(4), of "pending s"] q(2) by auto
  then have p: "R2 (pending s) = Some (ps @ map entry ws)" using R2(5) R1(3) d by auto
  show ?thesis
    using c R2(1-4) p ew by (intro exI [of _ ?s1] exI [of _ R2]) (auto simp: v3 tf waiters_of_def)
qed

theorem socket_close_wakes_everyone_witness:
  "\<exists>s1 R1. sock_close seg_os release_build (post_routed (\<lambda>_. 50)) 80
      ((demo_sock [])\<lparr>lks := list_add_tail 70 30 fresh_links, fds := [5 \<mapsto> \<lparr>waiters = [\<lparr>wi_mask = EPOLLIN, wi_waiter = 71, has_timeout = False, deadline = 0\<rparr>],
        interest = EPOLLIN\<rparr>]\<rparr>) = Some (Inr s1) \<and>
    rep (lks s1) R1 \<and> R1 20 = Some [50] \<and> entry_waiter s1 50 = Some 71 \<and> R1 10 = Some [40, 70] \<and> sk_fd s1 = - 1"
proof -
  let ?s = "(demo_sock [])\<lparr>lks := list_add_tail 70 30 fresh_links, fds := [5 \<mapsto> \<lparr>waiters = [\<lparr>wi_mask = EPOLLIN, wi_waiter = 71, has_timeout = False,
    deadline = 0\<rparr>], interest = EPOLLIN\<rparr>]\<rparr>"
  let ?R = "r_append 70 30 (\<lambda>_. Some [])"
  have s: "ws_head ?s = 10" "pending ?s = 20" "send_q ?s = 30" "recv_q ?s = 31" "runner ?s = 40" "\<not> running ?s" "sk_fd ?s = 5"
    "acceptable 71 ?s" "waiters_of ?s 5 = [\<lparr>wi_mask = EPOLLIN, wi_waiter = 71, has_timeout = False, deadline = 0\<rparr>]"
    by (simp_all add: demo_sock_def demo_cbq_def epr.defs cbq.defs sock.defs acceptable_def waiters_of_def)
  have "store_ok (list_add_tail 70 30 fresh_links) {10, 20, 30, 31, 80} ?R" by (intro store_ok_add_tail store_ok_fresh) simp_all
  then have L: "store_ok (lks ?s) {10, 20, 30, 31, 80} ?R" by simp
  have w: "woken_runner ?s [] = [40]" by (simp add: woken_runner_def s(5,6))
  from socket_close_wakes_everyone [OF L, of 80 "[]" "[]" "[70]" "[]" "\<lambda>_. 50" seg_os release_build] s
  obtain s1 R1 where "sock_close seg_os release_build (post_routed (\<lambda>_. 50)) 80 ?s = Some (Inr s1)" "rep (lks s1) R1"
    "R1 20 = Some [50]" "entry_waiter s1 50 = Some 71" "R1 10 = Some (woken_runner ?s [] @ [70])" "sk_fd s1 = invalid_fd"
    by (auto simp: ring_simps invalid_fd_def)
  then show ?thesis unfolding w by (intro exI [of _ s1] exI [of _ R1]) (simp add: invalid_fd_def)
qed

text \<open>
  What the coroutines of those operations see: their awaiters have not attempted anything, so receiving from a stream reports 0, which reads as its end, and
  sending reports 0 bytes; a second close changes nothing but the flags.
\<close>

lemma stream_closed_in_queue:
  "recv_await_resume a (recv_awaiter_init a buf len f s) = 0" "send_await_resume a (send_awaiter_init a buf f s) = 0"
  by (simp_all add: recv_await_resume_def recv_awaiter_init_def send_await_resume_def send_awaiter_init_def)

lemma sock_close_again:
  "sk_fd s = invalid_fd \<Longrightarrow> sock_close os b pst pend s = Some (Inr (s\<lparr>rx_eof := False, tx_shutdown := False\<rparr>))"
  by (simp add: sock_close_def close_fd_def)

end
