(* ===== verification/Ownership.thy ===== *)
theory Ownership
  imports File_Io Listener Connecting
begin

text \<open>
  Ownership of descriptors: the moving constructors, the moving assignments and the destructors of \<open>socket_core\<close>
  (\<^verbatim>\<open>net/stream_socket_base.hpp\<close>), \<open>file_handle\<close> (\<^verbatim>\<open>io/file_io.hpp\<close>), \<open>stream_listener_base\<close>
  (\<^verbatim>\<open>net/stream_listener_base.hpp\<close>) and \<open>fd_object\<close> (\<^verbatim>\<open>io/fd_base.hpp\<close>).

  The operations of the other theories work on the one object whose members are in the state. Here several objects share a state: the
  members of each are a record of their own, put into the state (\<open>at_...\<close>) for an operation and taken out again (\<open>..._at\<close>). All objects of a class use one
  reactor, as the factories create them.
\<close>

section \<open>Objects that own a descriptor\<close>

record ('o, 'w) owner_class =
  oc_make :: "'w \<Rightarrow> ('o \<times> 'w) option"
  oc_adopt :: "fd \<Rightarrow> 'w \<Rightarrow> ('o \<times> 'w) option"
  oc_close :: "'o \<Rightarrow> 'w \<Rightarrow> ('o \<times> 'w) option"
  oc_move :: "'o \<Rightarrow> 'w \<Rightarrow> 'o \<times> 'o \<times> 'w"
  oc_assign :: "'o \<Rightarrow> 'o \<Rightarrow> 'w \<Rightarrow> ('o \<times> 'o \<times> 'w) option"

text \<open>
  Schedules of objects: \<open>m\<close> are the living objects by address, \<open>w\<close> is the state they share, \<open>ext\<close> are the open descriptors that the program holds outside
  of them. \<open>opens\<close> are the descriptors open in the kernel. Destroying an object closes it; assigning an object to itself does nothing.
\<close>

inductive owner_step ::
  "('o, 'w) owner_class \<Rightarrow> ('w \<Rightarrow> fd set) \<Rightarrow> (addr \<rightharpoonup> 'o) \<times> 'w \<times> fd set \<Rightarrow> (addr \<rightharpoonup> 'o) \<times> 'w \<times> fd set \<Rightarrow> bool" for c opens where
  make: "m a = None \<Longrightarrow> oc_make c w = Some (x, w') \<Longrightarrow> owner_step c opens (m, w, ext) (m(a \<mapsto> x), w', ext)"
| adopt: "m a = None \<Longrightarrow> fd \<in> ext \<Longrightarrow> oc_adopt c fd w = Some (x, w') \<Longrightarrow> owner_step c opens (m, w, ext) (m(a \<mapsto> x), w', ext - {fd})"
| close: "m a = Some x \<Longrightarrow> oc_close c x w = Some (x', w') \<Longrightarrow> owner_step c opens (m, w, ext) (m(a \<mapsto> x'), w', ext)"
| destroy: "m a = Some x \<Longrightarrow> oc_close c x w = Some (x', w') \<Longrightarrow> owner_step c opens (m, w, ext) (m(a := None), w', ext)"
| move: "m a = Some x \<Longrightarrow> m b = None \<Longrightarrow> oc_move c x w = (n, x', w') \<Longrightarrow> owner_step c opens (m, w, ext) (m(a \<mapsto> x', b \<mapsto> n), w', ext)"
| assign: "m a = Some x \<Longrightarrow> m b = Some t \<Longrightarrow> a \<noteq> b \<Longrightarrow> oc_assign c t x w = Some (t', x', w') \<Longrightarrow>
    owner_step c opens (m, w, ext) (m(a \<mapsto> x', b \<mapsto> t'), w', ext)"
| work: "opens w' = opens w \<Longrightarrow> owner_step c opens (m, w, ext) (m, w', ext)"
| obtain_fd: "fd \<notin> opens w \<Longrightarrow> opens w' = insert fd (opens w) \<Longrightarrow> owner_step c opens (m, w, ext) (m, w', insert fd ext)"

inductive owner_reachable :: "('o, 'w) owner_class \<Rightarrow> ('w \<Rightarrow> fd set) \<Rightarrow> (addr \<rightharpoonup> 'o) \<times> 'w \<times> fd set \<Rightarrow> bool" for c opens where
  start: "opens w = ext \<Longrightarrow> owner_reachable c opens (Map.empty, w, ext)"
| step: "owner_reachable c opens s \<Longrightarrow> owner_step c opens s s' \<Longrightarrow> owner_reachable c opens s'"

text \<open>Every open descriptor has exactly one holder: one living object, or the program outside.\<close>

definition holding :: "('o \<Rightarrow> fd option) \<Rightarrow> (addr \<rightharpoonup> 'o) \<Rightarrow> addr \<rightharpoonup> fd" where
  "holding held m a = Option.bind (m a) held"

definition sole :: "(addr \<rightharpoonup> fd) \<Rightarrow> fd set \<Rightarrow> fd set \<Rightarrow> bool" where
  "sole h ext op \<longleftrightarrow> op = ext \<union> ran h \<and> ext \<inter> ran h = {} \<and> (\<forall>a b fd. h a = Some fd \<longrightarrow> h b = Some fd \<longrightarrow> a = b)"

definition owned_once :: "('o \<Rightarrow> fd option) \<Rightarrow> ('w \<Rightarrow> fd set) \<Rightarrow> (addr \<rightharpoonup> 'o) \<times> 'w \<times> fd set \<Rightarrow> bool" where
  "owned_once held opens = (\<lambda>(m, w, ext). sole (holding held m) ext (opens w))"

lemma holding_upd [simp]: "holding held (m(a := x)) = (holding held m)(a := Option.bind x held)" "holding held Map.empty = Map.empty"
  by (auto simp: holding_def)

lemma holding_some [simp]: "m a = Some x \<Longrightarrow> holding held m a = held x" "m a = None \<Longrightarrow> holding held m a = None"
  by (simp_all add: holding_def)

lemma sole_add:
  assumes "sole h ext op" and "h a = None"
  shows "fd \<notin> op \<Longrightarrow> sole (h(a \<mapsto> fd)) ext (insert fd op)" and "fd \<in> ext \<Longrightarrow> sole (h(a \<mapsto> fd)) (ext - {fd}) op"
proof -
  have n: "h b \<noteq> Some fd" if "fd \<notin> ran h" for b using that by (auto simp: ran_def)
  show "fd \<notin> op \<Longrightarrow> sole (h(a \<mapsto> fd)) ext (insert fd op)" and "fd \<in> ext \<Longrightarrow> sole (h(a \<mapsto> fd)) (ext - {fd}) op"
    using assms n by (auto simp: sole_def)
qed

lemma sole_drop:
  assumes "sole h ext op"
  shows "sole (h(a := None)) ext (op - set_option (h a))"
proof -
  have r: "ran (h(a := None)) = ran h - set_option (h a)"
    using assms by (auto simp: sole_def ran_def)
  moreover have "ext \<inter> set_option (h a) = {}" using assms by (cases "h a") (auto simp: sole_def ran_def)
  ultimately show ?thesis using assms by (auto simp: sole_def)
qed

lemma sole_rename:
  assumes "sole h ext op" and "h b = None" and "a \<noteq> b"
  shows "sole (h(a := None, b := h a)) ext op"
proof -
  let ?h = "h(a := None, b := h a)" and ?f = "\<lambda>d. if d = b then a else d"
  have f: "?h d = Some fd \<Longrightarrow> h (?f d) = Some fd" "?h d = Some fd \<Longrightarrow> d \<noteq> a" for d fd using assms(2,3) by (auto split: if_splits)
  have "ran h \<subseteq> ran ?h"
  proof
    fix fd assume "fd \<in> ran h"
    then obtain d where "h d = Some fd" by (auto simp: ran_def)
    then have "?h (if d = a then b else d) = Some fd" using assms(2,3) by auto
    then show "fd \<in> ran ?h" by (rule ranI)
  qed
  moreover have "ran ?h \<subseteq> ran h" using f(1) unfolding ran_def by blast
  ultimately have "ran ?h = ran h" by (rule equalityI [rotated])
  moreover have "x = y" if "?h x = Some fd" "?h y = Some fd" for x y fd
  proof -
    have "?f x = ?f y" using f(1) [OF that(1)] f(1) [OF that(2)] assms(1) unfolding sole_def by blast
    then show ?thesis using f(2) [OF that(1)] f(2) [OF that(2)] by (simp split: if_splits)
  qed
  ultimately show ?thesis using assms(1) by (simp only: sole_def) blast
qed

text \<open>What a class promises about the descriptor that an object holds.\<close>

locale owner =
  fixes c :: "('o, 'w) owner_class" and held :: "'o \<Rightarrow> fd option" and opens :: "'w \<Rightarrow> fd set"
  assumes makes: "oc_make c w = Some (x, w') \<Longrightarrow> \<exists>fd. held x = Some fd \<and> fd \<notin> opens w \<and> opens w' = insert fd (opens w)"
    and adopts: "oc_adopt c fd w = Some (x, w') \<Longrightarrow> held x = Some fd \<and> opens w' = opens w"
    and closes: "oc_close c x w = Some (x', w') \<Longrightarrow> held x' = None \<and> opens w' = opens w - set_option (held x)"
    and moves: "oc_move c x w = (n, x', w') \<Longrightarrow> held n = held x \<and> held x' = None \<and> opens w' = opens w"
    and assigns: "oc_assign c t x w = Some (t', x', w') \<Longrightarrow> held t' = held x \<and> held x' = None \<and> opens w' = opens w - set_option (held t)"
begin

lemma owned_once_start: "opens w = ext \<Longrightarrow> owned_once held opens (Map.empty, w, ext)"
  by (simp add: owned_once_def sole_def)

lemma owned_once_step: "owner_step c opens s s' \<Longrightarrow> owned_once held opens s \<Longrightarrow> owned_once held opens s'"
proof (induction rule: owner_step.induct)
  case (make m a w x w' ext)
  from makes [OF make(2)] obtain fd where "held x = Some fd" "fd \<notin> opens w" "opens w' = insert fd (opens w)" by blast
  then show ?case using make(1,3) sole_add(1) [of "holding held m" ext "opens w" a fd] by (simp add: owned_once_def)
next
  case (adopt m a fd ext w x w')
  from adopts [OF adopt(3)] show ?case
    using adopt(1,2,4) sole_add(2) [of "holding held m" ext "opens w" a fd] by (simp add: owned_once_def)
next
  case (close m a x w x' w' ext)
  from closes [OF close(2)] show ?case using close(1,3) sole_drop [of "holding held m" ext "opens w" a] by (simp add: owned_once_def)
next
  case (destroy m a x w x' w' ext)
  from closes [OF destroy(2)] show ?case using destroy(1,3) sole_drop [of "holding held m" ext "opens w" a] by (simp add: owned_once_def)
next
  case (move m a x b w n x' w' ext)
  then have "a \<noteq> b" by auto
  with moves [OF move(3)] show ?case using move(1,2,4) sole_rename [of "holding held m" ext "opens w" b a] by (simp add: owned_once_def)
next
  case (assign m a x b t w t' x' w' ext)
  let ?h = "holding held m"
  have "sole (?h(b := None)) ext (opens w - set_option (?h b))" using assign(5) sole_drop [of ?h ext "opens w" b] by (simp add: owned_once_def)
  from sole_rename [OF this, of b a] assigns [OF assign(4)] show ?case
    using assign(1-3) by (simp add: owned_once_def fun_upd_twist)
next
  case (obtain_fd fd w w' m ext)
  then show ?case by (auto simp: owned_once_def sole_def)
qed (simp add: owned_once_def)

lemma owner_invariant: "owner_reachable c opens s \<Longrightarrow> owned_once held opens s"
  by (induction rule: owner_reachable.induct) (auto intro: owned_once_start owned_once_step)

text \<open>When every object is gone only the descriptors outside are open: nothing leaks.\<close>

lemma owner_no_leak: "owner_reachable c opens (m, w, ext) \<Longrightarrow> m = Map.empty \<Longrightarrow> opens w = ext"
  using owner_invariant [of "(m, w, ext)"] by (simp add: owned_once_def sole_def)

end

section \<open>Sockets\<close>

text \<open>The members of a \<open>socket_core\<close>; of its queue of callbacks the state that \<open>_cbq\<close> owns.\<close>

record core =
  co_fd :: fd
  co_closed :: bool
  co_family :: int
  co_send :: addr
  co_recv :: addr
  co_pending :: addr
  co_local :: addr
  co_running :: bool
  co_runner :: addr
  co_guard :: bool

definition at_core :: "core \<Rightarrow> ('k, 'b) sock_scheme \<Rightarrow> ('k, 'b) sock_scheme" where
  "at_core x s =
     s\<lparr>sk_fd := co_fd x, sk_closed := co_closed x, sk_family := co_family x, send_q := co_send x, recv_q := co_recv x, pending := co_pending x,
       local_head := co_local x, running := co_running x, runner := co_runner x, guard := co_guard x\<rparr>"

definition core_at :: "('k, 'b) sock_scheme \<Rightarrow> core" where
  "core_at s =
     \<lparr>co_fd = sk_fd s, co_closed = sk_closed s, co_family = sk_family s, co_send = send_q s, co_recv = recv_q s, co_pending = pending s,
      co_local = local_head s, co_running = running s, co_runner = runner s, co_guard = guard s\<rparr>"

text \<open>\<open>n\<close> holds the addresses of the storage of the new object and of the state of its new queue of callbacks.\<close>

definition socket_core_move :: "core \<Rightarrow> core \<Rightarrow> ('k, 'b) sock_scheme \<Rightarrow> core \<times> core \<times> ('k, 'b) sock_scheme" where
  "socket_core_move n x s =
     (let s1 = state_init (at_core (n\<lparr>co_fd := co_fd x, co_closed := co_closed x, co_family := co_family x\<rparr>) s);
          s2 = serial_queue_init (recv_q s1) (serial_queue_init (send_q s1) s1)
      in (core_at s2, x\<lparr>co_fd := invalid_fd, co_closed := False\<rparr>, s2))"

definition socket_core_close ::
  "'k os \<Rightarrow> build \<Rightarrow> (addr \<Rightarrow> ('k, 'b) sock_scheme \<Rightarrow> ('k, 'b) sock_scheme) \<Rightarrow> addr \<Rightarrow> core \<Rightarrow> ('k, 'b) sock_scheme \<Rightarrow>
   (core \<times> ('k, 'b) sock_scheme) option" where
  "socket_core_close os b pst pend x s =
     (case close_fd os b pst pend (at_core x s) of Some (Inr s1) \<Rightarrow> Some (core_at s1, s1) | _ \<Rightarrow> None)"

text \<open>The assignment closes the target and gives it a new queue of callbacks, at the addresses of \<open>n\<close>.\<close>

definition socket_core_move_assign ::
  "'k os \<Rightarrow> build \<Rightarrow> (addr \<Rightarrow> ('k, 'b) sock_scheme \<Rightarrow> ('k, 'b) sock_scheme) \<Rightarrow> addr \<Rightarrow> core \<Rightarrow> core \<Rightarrow> core \<Rightarrow> ('k, 'b) sock_scheme \<Rightarrow>
   (core \<times> core \<times> ('k, 'b) sock_scheme) option" where
  "socket_core_move_assign os b pst pend n t x s =
     (case socket_core_close os b pst pend t s of
        None \<Rightarrow> None
      | Some (t1, s1) \<Rightarrow>
          let t2 = t1\<lparr>co_fd := co_fd x, co_closed := co_closed x, co_family := co_family x, co_pending := co_pending n, co_local := co_local n,
                      co_runner := co_runner n\<rparr>;
              s2 = state_init (at_core t2 s1);
              s3 = serial_queue_init (recv_q s2) (serial_queue_init (send_q s2) s2)
          in Some (core_at s3, x\<lparr>co_fd := invalid_fd, co_closed := False\<rparr>, s3))"

definition core_held :: "core \<Rightarrow> fd option" where
  "core_held x = (if co_fd x = invalid_fd then None else Some (co_fd x))"

definition socket_class ::
  "'k os \<Rightarrow> build \<Rightarrow> (addr \<Rightarrow> ('k, 'b) sock_scheme \<Rightarrow> ('k, 'b) sock_scheme) \<Rightarrow> addr \<Rightarrow> (('k, 'b) sock_scheme \<Rightarrow> core) \<Rightarrow> int \<Rightarrow> int \<Rightarrow> int \<Rightarrow>
   (core, ('k, 'b) sock_scheme) owner_class" where
  "socket_class os b pst pend alloc domain type protocol =
     \<lparr>oc_make = (\<lambda>s. case socket_core_create os domain type protocol (state_init (at_core (alloc s) s)) of
                      Inl e \<Rightarrow> None | Inr s1 \<Rightarrow> Some (core_at s1, s1)),
      oc_adopt = (\<lambda>fd s. case socket_core_adopt os fd (state_init (at_core (alloc s) s)) of Inl e \<Rightarrow> None | Inr s1 \<Rightarrow> Some (core_at s1, s1)),
      oc_close = socket_core_close os b pst pend,
      oc_move = (\<lambda>x s. socket_core_move (alloc s) x s),
      oc_assign = (\<lambda>t x s. socket_core_move_assign os b pst pend (alloc s) t x s)\<rparr>"

section \<open>Frames of closing\<close>

lemma list_for_each_keeps:
  assumes "list_for_each lk body h p s = Some s'" and "I s" and "\<And>a s s' brk. I s \<Longrightarrow> body a s = (s', brk) \<Longrightarrow> I s'"
  shows "I s'"
proof -
  have "body' = body \<longrightarrow> I s \<longrightarrow> I s'" if "list_for_each lk' body' h' p s = Some s'" for lk' body' h'
  proof (rule list_for_each.raw_induct [of "\<lambda>lk' body' h' p s s'. body' = body \<longrightarrow> I s \<longrightarrow> I s'", OF _ that], intro impI)
    fix f lk' body' h' p s s'
    assume IH: "\<And>lk' body' h' p s s'. f lk' body' h' p s = Some s' \<Longrightarrow> body' = body \<longrightarrow> I s \<longrightarrow> I s'"
      and e: "(if p = h' then Some s else case body' p s of (t, brk) \<Rightarrow> if brk then Some t else f lk' body' h' (nxt (lk' t) p) t) = Some s'"
      and b: "body' = body" and I: "I s"
    obtain t brk where t: "body p s = (t, brk)" by fastforce
    then show "I s'" using e b I assms(3) [OF I t] IH by (auto split: if_splits)
  qed
  with assms(1,2) show ?thesis by blast
qed

lemma serial_collect_keeps: "serial_collect_waiters qs out s = Some s' \<Longrightarrow> \<exists>m l. s' = s\<lparr>lks := m, locked := l\<rparr>"
proof (induction qs arbitrary: s)
  case Nil
  then show ?case by (intro exI [of _ "lks s"] exI [of _ "locked s"]) simp
next
  case (Cons q qs)
  then obtain m where "serial_collect_waiters qs out (s\<lparr>lks := m, locked := (locked s)(q := False)\<rparr>) = Some s'" by (auto split: option.splits)
  from Cons.IH [OF this] show ?case by auto
qed

lemma post_batch_keeps:
  fixes s :: "'a wq_scheme"
  assumes "post_batch b h s = Some (Inr s')"
  shows "\<exists>m l. s' = s\<lparr>lks := m, log := l\<rparr>"
proof (cases "list_empty h (lks s)")
  case True
  then show ?thesis using assms by (intro exI [of _ "lks s"] exI [of _ "log s"]) (simp add: post_batch_def)
next
  case False
  then obtain t where t: "list_for_each (\<lambda>r. case r of Inl _ \<Rightarrow> lks s | Inr s' \<Rightarrow> lks s') (validate_body b) h (nxt (lks s) h) (Inr s) = Some (Inr t)"
    and s': "s' = trig_once (t\<lparr>lks := wq_splice h (ws_head t) (lks t)\<rparr>)"
    using assms by (auto simp: post_batch_def split: option.splits sum.splits)
  have "\<forall>u. (Inr t :: abort + 'a wq_scheme) = Inr u \<longrightarrow> (\<exists>l. u = s\<lparr>log := l\<rparr>)"
  proof (rule list_for_each_keeps [where I = "\<lambda>r :: abort + 'a wq_scheme. \<forall>u. r = Inr u \<longrightarrow> (\<exists>l. u = s\<lparr>log := l\<rparr>)", OF t])
    show "\<forall>u. (Inr s :: abort + 'a wq_scheme) = Inr u \<longrightarrow> (\<exists>l. u = s\<lparr>log := l\<rparr>)" by (auto intro: exI [of _ "log s"])
    fix a r r' brk assume I: "\<forall>u. r = Inr u \<longrightarrow> (\<exists>l. u = s\<lparr>log := l\<rparr>)" and v: "validate_body b a r = (r', brk)"
    have "\<exists>l. u' = u\<lparr>log := l\<rparr>" if "wq_validate b a u = Inr u'" for u u'
      by (rule exI [of _ "log u'"]) (use that in \<open>auto simp: wq_validate_def wq_maybe_invoke_debug_hook_def emit_def Let_def split: if_splits\<close>)
    then show "\<forall>u. r' = Inr u \<longrightarrow> (\<exists>l. u = s\<lparr>log := l\<rparr>)" using I v by (fastforce simp: validate_body_def split: sum.splits)
  qed
  then show ?thesis by (intro exI [of _ "lks s'"] exI [of _ "log s'"]) (auto simp: s' trig_once_def emit_def)
qed

lemma serial_post_keeps:
  assumes "serial_post_pending b p s = Some (Inr s')"
  shows "\<exists>m l f. s' = s\<lparr>func := f, lks := m, log := l\<rparr>"
proof (cases "list_empty p (lks s)")
  case True
  then show ?thesis using assms by (intro exI [of _ "lks s"] exI [of _ "log s"] exI [of _ "func s"]) (simp add: serial_post_pending_def)
next
  case False
  then obtain t where t: "list_for_each lks set_resume_body p (nxt (lks s) p) s = Some t" "post_batch b p t = Some (Inr s')"
    using assms by (auto simp: serial_post_pending_def split: option.splits)
  have "\<exists>f. t = s\<lparr>func := f\<rparr>"
  proof (rule list_for_each_keeps [OF t(1)])
    show "\<exists>f. s = s\<lparr>func := f\<rparr>" by (rule exI [of _ "func s"]) simp
  qed (auto simp: set_resume_body_def)
  then show ?thesis using post_batch_keeps [OF t(2)] by auto
qed

section \<open>Sockets own their descriptors\<close>

text \<open>The table of open descriptors that the kernel keeps, as the calls of \<open>socket_core\<close> change it.\<close>

locale sock_fds =
  fixes os :: "'k os" and openk :: "'k \<Rightarrow> fd set"
  assumes ctl_open: "openk (snd (os_ctl os oper fd ev k)) = openk k"
    and non_block_open: "openk (os_set_non_block os fd k) = openk k"
    and socket_open: "os_socket os d t p k = (fd, k') \<Longrightarrow> fd \<noteq> invalid_fd \<Longrightarrow> fd \<notin> openk k \<and> openk k' = insert fd (openk k)"
    and close_open: "openk (os_close os fd k) = openk k - {fd}"
begin

lemma remove_open:
  assumes "waiter_route pst"
  shows "openk (kern (remove_fd (os_ctl os) pst fd s)) = openk (kern s)"
  by (simp add: remove_fd_def Let_def ctl_def ctl_open case_prod_beta waiter_route.fold_pst(2) [OF assms])

end

lemma add_fd_kern [simp]: "kern (add_fd fd s) = kern s"
  by (simp add: add_fd_def)

lemma init_fd_core: "kern (init_fd os s) = os_set_non_block os (sk_fd s) (kern s)" "sk_fd (init_fd os s) = sk_fd s"
  by (auto simp: init_fd_def Let_def serial_queue_init_def add_fd_def)

lemma close_fd_core:
  assumes "sock_fds os openk" and "sock_route pst" and "close_fd os b pst pend s = Some (Inr s')"
  shows "sk_fd s' = invalid_fd" and "openk (kern s') = (if sk_fd s = invalid_fd then openk (kern s) else openk (kern s) - {sk_fd s})"
proof -
  have "sk_fd s' = invalid_fd \<and> openk (kern s') = (if sk_fd s = invalid_fd then openk (kern s) else openk (kern s) - {sk_fd s})"
  proof (cases "sk_fd s = invalid_fd")
    case False
    let ?s1 = "remove_fd (os_ctl os) pst (sk_fd s) (s\<lparr>sk_closed := True\<rparr>)"
    obtain s3 s4 where s3: "serial_collect_waiters [send_q ?s1, recv_q ?s1] pend (?s1\<lparr>lks := INIT_LIST_HEAD pend (lks ?s1)\<rparr>) = Some s3"
      and s4: "serial_post_pending b pend s3 = Some (Inr s4)" and s': "s' = s4\<lparr>kern := os_close os (sk_fd s4) (kern s4), sk_fd := invalid_fd\<rparr>"
      using assms(3) False by (auto simp: close_fd_def Let_def split: option.splits sum.splits)
    have f: "sk_fd s4 = sk_fd ?s1" "kern s4 = kern ?s1" using serial_collect_keeps [OF s3] serial_post_keeps [OF s4] by auto
    have "sk_fd ?s1 = sk_fd s"
      by (simp add: remove_fd_def Let_def ctl_def case_prod_beta sock_route.fold_pst_sock(3) [OF assms(2)])
    then show ?thesis
      using f False sock_fds.close_open [OF assms(1)] sock_fds.remove_open [OF assms(1) sock_route.axioms(1) [OF assms(2)], of "sk_fd s" "s\<lparr>sk_closed := True\<rparr>"]
      by (simp add: s')
  qed (use assms(3) in \<open>simp add: close_fd_def\<close>)
  then show "sk_fd s' = invalid_fd" and "openk (kern s') = (if sk_fd s = invalid_fd then openk (kern s) else openk (kern s) - {sk_fd s})" by blast+
qed

lemma core_queues: "kern (serial_queue_init q s) = kern s" "sk_fd (serial_queue_init q s) = sk_fd s" "kern (state_init s) = kern s" "sk_fd (state_init s) = sk_fd s"
  for s :: "('k, 'b) sock_scheme"
  by (simp_all add: serial_queue_init_def state_init_def)

locale sock_owner = sock_fds os openk + sock_route pst
  for os :: "'k os" and openk :: "'k \<Rightarrow> fd set" and pst :: "addr \<Rightarrow> ('k, 'b) sock_scheme \<Rightarrow> ('k, 'b) sock_scheme"
begin

lemma core_close:
  assumes "socket_core_close os b pst pend x s = Some (x', s')"
  shows "core_held x' = None \<and> openk (kern s') = openk (kern s) - set_option (core_held x)"
proof -
  from assms have "close_fd os b pst pend (at_core x s) = Some (Inr s')" and x': "x' = core_at s'"
    by (auto simp: socket_core_close_def split: option.splits sum.splits)
  note c = close_fd_core [OF sock_fds_axioms sock_route_axioms this(1)]
  show ?thesis using c by (simp add: x' core_held_def core_at_def at_core_def)
qed

lemma core_make:
  assumes "socket_core_create os d t p s = Inr s'"
  shows "\<exists>fd. core_held (core_at s') = Some fd \<and> fd \<notin> openk (kern s) \<and> openk (kern s') = insert fd (openk (kern s))"
proof -
  obtain fd k where k: "os_socket os d t p (kern s) = (fd, k)" by fastforce
  then have "fd \<noteq> invalid_fd" and s': "s' = init_fd os (s\<lparr>kern := k, sk_family := d, sk_fd := fd\<rparr>)"
    using assms by (simp_all add: socket_core_create_def Let_def split: if_splits)
  then show ?thesis using socket_open [OF k] by (simp add: s' init_fd_core non_block_open core_held_def core_at_def)
qed

lemma core_adopt:
  assumes "socket_core_adopt os fd s = Inr s'"
  shows "core_held (core_at s') = Some fd \<and> openk (kern s') = openk (kern s)"
  using assms by (auto simp: socket_core_adopt_def init_fd_core determine_family_def non_block_open core_held_def core_at_def split: if_splits)

lemma core_move:
  assumes "socket_core_move n x s = (y, x', s')"
  shows "core_held y = core_held x \<and> core_held x' = None \<and> kern s' = kern s"
  using assms by (auto simp: socket_core_move_def Let_def core_held_def core_at_def core_queues at_core_def)

lemma core_move_assign:
  assumes "socket_core_move_assign os b pst pend n t x s = Some (y, x', s')"
  shows "core_held y = core_held x \<and> core_held x' = None \<and> openk (kern s') = openk (kern s) - set_option (core_held t)"
proof -
  obtain t1 s1 where c: "socket_core_close os b pst pend t s = Some (t1, s1)"
    using assms by (auto simp: socket_core_move_assign_def split: option.splits)
  define t2 where "t2 = t1\<lparr>co_fd := co_fd x, co_closed := co_closed x, co_family := co_family x, co_pending := co_pending n, co_local := co_local n,
    co_runner := co_runner n\<rparr>"
  define s2 where "s2 = state_init (at_core t2 s1)"
  have e: "y = core_at s'" "x' = x\<lparr>co_fd := invalid_fd, co_closed := False\<rparr>" "s' = serial_queue_init (recv_q s2) (serial_queue_init (send_q s2) s2)"
    using assms by (auto simp: socket_core_move_assign_def c Let_def simp flip: t2_def s2_def)
  have "sk_fd s' = co_fd x" "kern s' = kern s1" by (simp_all add: e(3) core_queues s2_def at_core_def t2_def)
  then show ?thesis using core_close [OF c] by (simp add: e(1,2) core_held_def core_at_def)
qed

end

sublocale sock_owner \<subseteq> owner "socket_class os b pst pend alloc d t p" core_held "\<lambda>s. openk (kern s)" for b pend alloc d t p
proof
  fix w w' :: "('k, 'b) sock_scheme" and x x' n y :: core and fd :: fd
  have k: "kern (state_init (at_core z w)) = kern w" for z by (simp add: core_queues at_core_def)
  show "oc_make (socket_class os b pst pend alloc d t p) w = Some (x, w') \<Longrightarrow>
      \<exists>fd. core_held x = Some fd \<and> fd \<notin> openk (kern w) \<and> openk (kern w') = insert fd (openk (kern w))"
    using core_make [of d t p "state_init (at_core (alloc w) w)"] by (auto simp: socket_class_def k split: sum.splits)
  show "oc_adopt (socket_class os b pst pend alloc d t p) fd w = Some (x, w') \<Longrightarrow> core_held x = Some fd \<and> openk (kern w') = openk (kern w)"
    using core_adopt [of fd "state_init (at_core (alloc w) w)"] by (auto simp: socket_class_def k split: sum.splits)
  show "oc_close (socket_class os b pst pend alloc d t p) x w = Some (x', w') \<Longrightarrow>
      core_held x' = None \<and> openk (kern w') = openk (kern w) - set_option (core_held x)"
    using core_close by (simp add: socket_class_def)
  show "oc_move (socket_class os b pst pend alloc d t p) x w = (n, x', w') \<Longrightarrow>
      core_held n = core_held x \<and> core_held x' = None \<and> openk (kern w') = openk (kern w)"
    using core_move [of "alloc w" x w n x' w'] by (simp add: socket_class_def)
  show "oc_assign (socket_class os b pst pend alloc d t p) y x w = Some (n, x', w') \<Longrightarrow>
      core_held n = core_held x \<and> core_held x' = None \<and> openk (kern w') = openk (kern w) - set_option (core_held y)"
    using core_move_assign by (simp add: socket_class_def)
qed

section \<open>Files\<close>

record file_mem =
  fm_fd :: fd
  fm_closed :: bool
  fm_read :: addr
  fm_write :: addr
  fm_pending :: addr
  fm_local :: addr
  fm_running :: bool
  fm_runner :: addr
  fm_guard :: bool

definition at_file :: "file_mem \<Rightarrow> ('k, 'b) file_obj_scheme \<Rightarrow> ('k, 'b) file_obj_scheme" where
  "at_file x s =
     s\<lparr>fl_fd := fm_fd x, fl_closed := fm_closed x, read_q := fm_read x, write_q := fm_write x, pending := fm_pending x, local_head := fm_local x,
       running := fm_running x, runner := fm_runner x, guard := fm_guard x\<rparr>"

definition file_at :: "('k, 'b) file_obj_scheme \<Rightarrow> file_mem" where
  "file_at s =
     \<lparr>fm_fd = fl_fd s, fm_closed = fl_closed s, fm_read = read_q s, fm_write = write_q s, fm_pending = pending s, fm_local = local_head s,
      fm_running = running s, fm_runner = runner s, fm_guard = guard s\<rparr>"

text \<open>
  The default initialisers of the members make the two slots of the new object empty and give it a queue of callbacks of its own. The
  assignment keeps the slots and the queue of its target; \<open>_exec = o._exec\<close> assigns the executor to itself, as both objects use the same one.
\<close>

definition file_handle_move :: "file_mem \<Rightarrow> file_mem \<Rightarrow> ('k, 'b) file_obj_scheme \<Rightarrow> file_mem \<times> file_mem \<times> ('k, 'b) file_obj_scheme" where
  "file_handle_move n x s =
     (let s1 = state_init (at_file (n\<lparr>fm_fd := fm_fd x, fm_closed := fm_closed x\<rparr>) s);
          s2 = serial_queue_init (write_q s1) (serial_queue_init (read_q s1) s1)
      in (file_at s2, x\<lparr>fm_fd := - 1, fm_closed := True\<rparr>, s2))"

definition file_handle_close ::
  "'k file_os \<Rightarrow> build \<Rightarrow> (addr \<Rightarrow> ('k, 'b) file_obj_scheme \<Rightarrow> ('k, 'b) file_obj_scheme) \<Rightarrow> addr \<Rightarrow> file_mem \<Rightarrow> ('k, 'b) file_obj_scheme \<Rightarrow>
   (file_mem \<times> ('k, 'b) file_obj_scheme) option" where
  "file_handle_close os b pst pend x s =
     (case file_close os b pst pend (at_file x s) of Some (Inr s1) \<Rightarrow> Some (file_at s1, s1) | _ \<Rightarrow> None)"

definition file_handle_move_assign ::
  "'k file_os \<Rightarrow> build \<Rightarrow> (addr \<Rightarrow> ('k, 'b) file_obj_scheme \<Rightarrow> ('k, 'b) file_obj_scheme) \<Rightarrow> addr \<Rightarrow> file_mem \<Rightarrow> file_mem \<Rightarrow>
   ('k, 'b) file_obj_scheme \<Rightarrow> (file_mem \<times> file_mem \<times> ('k, 'b) file_obj_scheme) option" where
  "file_handle_move_assign os b pst pend t x s =
     (case file_handle_close os b pst pend t s of
        None \<Rightarrow> None
      | Some (t1, s1) \<Rightarrow> Some (t1\<lparr>fm_fd := fm_fd x, fm_closed := fm_closed x\<rparr>, x\<lparr>fm_fd := - 1, fm_closed := True\<rparr>, s1))"

definition file_held :: "file_mem \<Rightarrow> fd option" where
  "file_held x = (if fm_fd x < 0 then None else Some (fm_fd x))"

definition file_class ::
  "'k file_os \<Rightarrow> build \<Rightarrow> (addr \<Rightarrow> ('k, 'b) file_obj_scheme \<Rightarrow> ('k, 'b) file_obj_scheme) \<Rightarrow> addr \<Rightarrow> (('k, 'b) file_obj_scheme \<Rightarrow> file_mem) \<Rightarrow>
   (file_mem, ('k, 'b) file_obj_scheme) owner_class" where
  "file_class os b pst pend alloc =
     \<lparr>oc_make = (\<lambda>s. None),
      oc_adopt = (\<lambda>fd s. case file_handle_init os fd (state_init (at_file (alloc s) s)) of Inl e \<Rightarrow> None | Inr s1 \<Rightarrow> Some (file_at s1, s1)),
      oc_close = file_handle_close os b pst pend,
      oc_move = (\<lambda>x s. file_handle_move (alloc s) x s),
      oc_assign = file_handle_move_assign os b pst pend\<rparr>"

lemma file_queues: "kern (serial_queue_init q s) = kern s" "fl_fd (serial_queue_init q s) = fl_fd s" "kern (state_init s) = kern s" "fl_fd (state_init s) = fl_fd s"
  for s :: "('k, 'b) file_obj_scheme"
  by (simp_all add: serial_queue_init_def state_init_def)

locale file_fds =
  fixes os :: "'k file_os" and openk :: "'k \<Rightarrow> fd set"
  assumes file_ctl_open: "openk (snd (fo_ctl os oper fd ev k)) = openk k"
    and setfl_open: "openk (fo_setfl os fd flags k) = openk k"
    and file_close_open: "openk (fo_close os fd k) = openk k - {fd}"
begin

lemma file_remove_open:
  assumes "waiter_route pst"
  shows "openk (kern (remove_fd (fo_ctl os) pst fd s)) = openk (kern s)"
  by (simp add: remove_fd_def Let_def ctl_def file_ctl_open case_prod_beta waiter_route.fold_pst(2) [OF assms])

end

locale file_owner = file_fds os openk + waiter_route pst
  for os :: "'k file_os" and openk :: "'k \<Rightarrow> fd set" and pst :: "addr \<Rightarrow> ('k, 'b) file_obj_scheme \<Rightarrow> ('k, 'b) file_obj_scheme" +
  assumes pst_file: "fl_fd (pst w s) = fl_fd s"
begin

lemma fold_pst_file: "fl_fd (fold (\<lambda>wi. pst (wi_waiter wi)) ws s) = fl_fd s"
  by (induction ws arbitrary: s) (simp_all add: pst_file)

lemma file_mem_close:
  assumes "file_handle_close os b pst pend x s = Some (x', s')"
  shows "file_held x' = None \<and> openk (kern s') = openk (kern s) - set_option (file_held x)"
proof (cases "fm_fd x < 0")
  case True
  then have "s' = at_file x s" "x' = file_at s'" using assms by (auto simp: file_handle_close_def file_close_def at_file_def)
  then show ?thesis using True by (simp add: file_held_def file_at_def at_file_def)
next
  case False
  let ?s0 = "at_file x s"
  let ?s1 = "remove_fd (fo_ctl os) pst (fl_fd ?s0) (?s0\<lparr>fl_closed := True\<rparr>)"
  have fd: "fl_fd ?s0 = fm_fd x" "kern ?s0 = kern s" by (simp_all add: at_file_def)
  from assms obtain r where "file_close os b pst pend ?s0 = Some (Inr s')" and x': "x' = file_at s'"
    by (auto simp: file_handle_close_def split: option.splits sum.splits)
  then obtain s3 s4 where s3: "serial_collect_waiters [read_q ?s1, write_q ?s1] pend (?s1\<lparr>lks := INIT_LIST_HEAD pend (lks ?s1)\<rparr>) = Some s3"
    and s4: "serial_post_pending b pend s3 = Some (Inr s4)" and s': "s' = s4\<lparr>kern := fo_close os (fl_fd s4) (kern s4), fl_fd := - 1\<rparr>"
    using False by (auto simp: file_close_def Let_def fd split: option.splits sum.splits)
  have f: "fl_fd s4 = fl_fd ?s1" "kern s4 = kern ?s1" using serial_collect_keeps [OF s3] serial_post_keeps [OF s4] by auto
  have "fl_fd ?s1 = fm_fd x" by (simp add: remove_fd_def Let_def ctl_def case_prod_beta fold_pst_file fd)
  then show ?thesis
    using f False file_close_open file_remove_open [OF waiter_route_axioms, of "fl_fd ?s0" "?s0\<lparr>fl_closed := True\<rparr>"]
    by (simp add: x' s' file_held_def file_at_def fd)
qed

lemma file_mem_adopt:
  assumes "file_handle_init os fd s = Inr s'"
  shows "file_held (file_at s') = Some fd \<and> openk (kern s') = openk (kern s)"
  using assms by (auto simp: file_handle_init_def Let_def file_held_def file_at_def file_queues add_fd_def setfl_open split: if_splits)

lemma file_mem_move:
  assumes "file_handle_move n x s = (y, x', s')"
  shows "file_held y = file_held x \<and> file_held x' = None \<and> kern s' = kern s"
  using assms by (auto simp: file_handle_move_def Let_def file_held_def file_at_def file_queues at_file_def)

end

sublocale file_owner \<subseteq> owner "file_class os b pst pend alloc" file_held "\<lambda>s. openk (kern s)" for b pend alloc
proof
  fix w w' :: "('k, 'b) file_obj_scheme" and x x' n y :: file_mem and fd :: fd
  have k: "kern (state_init (at_file z w)) = kern w" for z by (simp add: file_queues at_file_def)
  show "oc_make (file_class os b pst pend alloc) w = Some (x, w') \<Longrightarrow>
      \<exists>fd. file_held x = Some fd \<and> fd \<notin> openk (kern w) \<and> openk (kern w') = insert fd (openk (kern w))"
    by (simp add: file_class_def)
  show "oc_adopt (file_class os b pst pend alloc) fd w = Some (x, w') \<Longrightarrow> file_held x = Some fd \<and> openk (kern w') = openk (kern w)"
    using file_mem_adopt [of fd "state_init (at_file (alloc w) w)"] by (auto simp: file_class_def k split: sum.splits)
  show "oc_close (file_class os b pst pend alloc) x w = Some (x', w') \<Longrightarrow>
      file_held x' = None \<and> openk (kern w') = openk (kern w) - set_option (file_held x)"
    using file_mem_close by (simp add: file_class_def)
  show "oc_move (file_class os b pst pend alloc) x w = (n, x', w') \<Longrightarrow>
      file_held n = file_held x \<and> file_held x' = None \<and> openk (kern w') = openk (kern w)"
    using file_mem_move [of "alloc w" x w n x' w'] by (simp add: file_class_def)
  show "oc_assign (file_class os b pst pend alloc) y x w = Some (n, x', w') \<Longrightarrow>
      file_held n = file_held x \<and> file_held x' = None \<and> openk (kern w') = openk (kern w) - set_option (file_held y)"
    using file_mem_close by (auto simp: file_class_def file_handle_move_assign_def file_held_def split: option.splits)
qed

section \<open>Listeners\<close>

record lst_mem =
  lm_fd :: fd
  lm_family :: int

definition at_lst :: "lst_mem \<Rightarrow> ('k, 'b) lst_scheme \<Rightarrow> ('k, 'b) lst_scheme" where
  "at_lst x s = s\<lparr>lst_fd := lm_fd x, lst_family := lm_family x\<rparr>"

definition lst_at :: "('k, 'b) lst_scheme \<Rightarrow> lst_mem" where
  "lst_at s = \<lparr>lm_fd = lst_fd s, lm_family = lst_family s\<rparr>"

definition listener_move :: "lst_mem \<Rightarrow> lst_mem \<times> lst_mem" where
  "listener_move x = (\<lparr>lm_fd = lm_fd x, lm_family = lm_family x\<rparr>, x\<lparr>lm_fd := invalid_fd\<rparr>)"

definition listener_move_assign ::
  "'k los \<Rightarrow> ('k, 'b) lst_post \<Rightarrow> lst_mem \<Rightarrow> lst_mem \<Rightarrow> ('k, 'b) lst_scheme \<Rightarrow> lst_mem \<times> lst_mem \<times> ('k, 'b) lst_scheme" where
  "listener_move_assign os pst t x s =
     (let s1 = listener_close os pst (at_lst t s)
      in (\<lparr>lm_fd = lm_fd x, lm_family = lm_family x\<rparr>, x\<lparr>lm_fd := invalid_fd\<rparr>, s1))"

definition lst_held :: "lst_mem \<Rightarrow> fd option" where
  "lst_held x = (if lm_fd x = invalid_fd then None else Some (lm_fd x))"

definition listener_class :: "'k los \<Rightarrow> ('k, 'b) lst_post \<Rightarrow> int \<Rightarrow> (lst_mem, ('k, 'b) lst_scheme) owner_class" where
  "listener_class os pst domain =
     \<lparr>oc_make = (\<lambda>s. case listener_init os domain s of Inl e \<Rightarrow> None | Inr s1 \<Rightarrow> Some (lst_at s1, s1)),
      oc_adopt = (\<lambda>fd s. None),
      oc_close = (\<lambda>x s. let s1 = listener_close os pst (at_lst x s) in Some (lst_at s1, s1)),
      oc_move = (\<lambda>x s. case listener_move x of (n, x') \<Rightarrow> (n, x', s)),
      oc_assign = (\<lambda>t x s. Some (listener_move_assign os pst t x s))\<rparr>"

locale lst_owner = waiter_route pst
  for pst :: "('k, 'b) lst_post" +
  fixes os :: "'k los" and openk :: "'k \<Rightarrow> fd set"
  assumes lst_ctl_open: "openk (snd (lo_ctl os oper fd ev k)) = openk k"
    and lst_non_block_open: "openk (lo_set_non_block os fd k) = openk k"
    and lst_socket_open: "lo_socket os d k = (fd, k') \<Longrightarrow> fd \<noteq> invalid_fd \<Longrightarrow> fd \<notin> openk k \<and> openk k' = insert fd (openk k)"
    and lst_close_open: "openk (lo_close os fd k) = openk k - {fd}"
    and pst_lst: "lst_fd (pst w s) = lst_fd s"
begin

lemma listener_mem_close:
  "lst_fd (listener_close os pst s) = invalid_fd \<and>
   openk (kern (listener_close os pst s)) = (if lst_fd s = invalid_fd then openk (kern s) else openk (kern s) - {lst_fd s})"
proof -
  have f: "lst_fd (fold (\<lambda>wi. pst (wi_waiter wi)) ws s) = lst_fd s" for ws s by (induction ws arbitrary: s) (simp_all add: pst_lst)
  show ?thesis
    by (simp add: listener_close_def Let_def remove_fd_def ctl_def case_prod_beta f lst_close_open lst_ctl_open)
qed

end

sublocale lst_owner \<subseteq> owner "listener_class os pst domain" lst_held "\<lambda>s. openk (kern s)" for domain
proof
  fix w w' :: "('k, 'b) lst_scheme" and x x' n y :: lst_mem and fd :: fd
  show "oc_make (listener_class os pst domain) w = Some (x, w') \<Longrightarrow>
      \<exists>fd. lst_held x = Some fd \<and> fd \<notin> openk (kern w) \<and> openk (kern w') = insert fd (openk (kern w))"
  proof -
    assume m: "oc_make (listener_class os pst domain) w = Some (x, w')"
    obtain f k where k: "lo_socket os domain (kern w) = (f, k)" by fastforce
    have f: "f \<noteq> invalid_fd" and e: "x = lst_at w'" "kern w' = lo_set_non_block os f k" "lst_fd w' = f"
      using m k by (auto simp: listener_class_def listener_init_def Let_def add_fd_def split: if_splits)
    from lst_socket_open [OF k f] f show ?thesis by (simp add: e lst_held_def lst_at_def lst_non_block_open)
  qed
  show "oc_adopt (listener_class os pst domain) fd w = Some (x, w') \<Longrightarrow> lst_held x = Some fd \<and> openk (kern w') = openk (kern w)"
    by (simp add: listener_class_def)
  show "oc_close (listener_class os pst domain) x w = Some (x', w') \<Longrightarrow>
      lst_held x' = None \<and> openk (kern w') = openk (kern w) - set_option (lst_held x)"
    using listener_mem_close [of "at_lst x w"] by (auto simp: listener_class_def Let_def lst_held_def lst_at_def at_lst_def)
  show "oc_move (listener_class os pst domain) x w = (n, x', w') \<Longrightarrow>
      lst_held n = lst_held x \<and> lst_held x' = None \<and> openk (kern w') = openk (kern w)"
    by (auto simp: listener_class_def listener_move_def lst_held_def)
  show "oc_assign (listener_class os pst domain) y x w = Some (n, x', w') \<Longrightarrow>
      lst_held n = lst_held x \<and> lst_held x' = None \<and> openk (kern w') = openk (kern w) - set_option (lst_held y)"
    using listener_mem_close [of "at_lst y w"] by (auto simp: listener_class_def listener_move_assign_def Let_def lst_held_def at_lst_def)
qed

section \<open>Plain descriptors\<close>

text \<open>\<open>fd_object\<close> of \<^verbatim>\<open>io/fd_base.hpp\<close>: no slots and no queue of callbacks. \<open>fdo_reactor\<close> tells whether \<open>_reactor\<close> is set.\<close>

record fd_obj =
  fdo_fd :: fd
  fdo_reactor :: bool

definition fdo_set_non_block :: "'k file_os \<Rightarrow> fd \<Rightarrow> ('k, 'b) epr_scheme \<Rightarrow> ('k, 'b) epr_scheme" where
  "fdo_set_non_block os fd s =
     (let flags = fo_getfl os fd (kern s)
      in if flags \<ge> 0 then s\<lparr>kern := fo_setfl os fd (flags OR O_NONBLOCK) (kern s)\<rparr> else s)"

definition fd_object_init :: "'k file_os \<Rightarrow> fd \<Rightarrow> ('k, 'b) epr_scheme \<Rightarrow> socket_error + fd_obj \<times> ('k, 'b) epr_scheme" where
  "fd_object_init os fd s =
     (if fd = invalid_fd then Inl Invalid_fd else Inr (\<lparr>fdo_fd = fd, fdo_reactor = True\<rparr>, add_fd fd (fdo_set_non_block os fd s)))"

definition fd_object_close ::
  "'k file_os \<Rightarrow> ('k, 'b) poster \<Rightarrow> fd_obj \<Rightarrow> ('k, 'b) epr_scheme \<Rightarrow> fd_obj \<times> ('k, 'b) epr_scheme" where
  "fd_object_close os pst x s =
     (if fdo_fd x = invalid_fd then (x, s)
      else let s1 = (if fdo_reactor x then remove_fd (fo_ctl os) pst (fdo_fd x) s else s)
           in (x\<lparr>fdo_fd := invalid_fd\<rparr>, s1\<lparr>kern := fo_close os (fdo_fd x) (kern s1)\<rparr>))"

definition fd_object_move :: "fd_obj \<Rightarrow> fd_obj \<times> fd_obj" where
  "fd_object_move x = (x, x\<lparr>fdo_fd := invalid_fd, fdo_reactor := False\<rparr>)"

definition fd_object_move_assign ::
  "'k file_os \<Rightarrow> ('k, 'b) poster \<Rightarrow> fd_obj \<Rightarrow> fd_obj \<Rightarrow> ('k, 'b) epr_scheme \<Rightarrow> fd_obj \<times> fd_obj \<times> ('k, 'b) epr_scheme" where
  "fd_object_move_assign os pst t x s =
     (case fd_object_close os pst t s of (t1, s1) \<Rightarrow>
        (t1\<lparr>fdo_reactor := fdo_reactor x, fdo_fd := fdo_fd x\<rparr>, x\<lparr>fdo_fd := invalid_fd, fdo_reactor := False\<rparr>, s1))"

definition fdo_held :: "fd_obj \<Rightarrow> fd option" where
  "fdo_held x = (if fdo_fd x = invalid_fd then None else Some (fdo_fd x))"

definition fd_object_class :: "'k file_os \<Rightarrow> ('k, 'b) poster \<Rightarrow> (fd_obj, ('k, 'b) epr_scheme) owner_class" where
  "fd_object_class os pst =
     \<lparr>oc_make = (\<lambda>s. None),
      oc_adopt = (\<lambda>fd s. case fd_object_init os fd s of Inl e \<Rightarrow> None | Inr r \<Rightarrow> Some r),
      oc_close = (\<lambda>x s. Some (fd_object_close os pst x s)),
      oc_move = (\<lambda>x s. case fd_object_move x of (n, x') \<Rightarrow> (n, x', s)),
      oc_assign = (\<lambda>t x s. Some (fd_object_move_assign os pst t x s))\<rparr>"

locale fd_object_owner = file_fds os openk + waiter_route pst
  for os :: "'k file_os" and openk :: "'k \<Rightarrow> fd set" and pst :: "('k, 'b) poster"
begin

lemma fd_object_closes:
  assumes "fd_object_close os pst x s = (x', s')"
  shows "fdo_held x' = None \<and> fdo_fd x' = invalid_fd \<and> openk (kern s') = openk (kern s) - set_option (fdo_held x)"
  using assms by (auto simp: fd_object_close_def fdo_held_def Let_def file_close_open file_remove_open [OF waiter_route_axioms] split: if_splits)

end

sublocale fd_object_owner \<subseteq> owner "fd_object_class os pst" fdo_held "\<lambda>s. openk (kern s)"
proof
  fix w w' :: "('k, 'b) epr_scheme" and x x' n y :: fd_obj and fd :: fd
  show "oc_make (fd_object_class os pst) w = Some (x, w') \<Longrightarrow>
      \<exists>fd. fdo_held x = Some fd \<and> fd \<notin> openk (kern w) \<and> openk (kern w') = insert fd (openk (kern w))"
    by (simp add: fd_object_class_def)
  show "oc_adopt (fd_object_class os pst) fd w = Some (x, w') \<Longrightarrow> fdo_held x = Some fd \<and> openk (kern w') = openk (kern w)"
    by (auto simp: fd_object_class_def fd_object_init_def fdo_set_non_block_def fdo_held_def add_fd_def setfl_open Let_def split: if_splits)
  show "oc_close (fd_object_class os pst) x w = Some (x', w') \<Longrightarrow>
      fdo_held x' = None \<and> openk (kern w') = openk (kern w) - set_option (fdo_held x)"
    using fd_object_closes by (simp add: fd_object_class_def)
  show "oc_move (fd_object_class os pst) x w = (n, x', w') \<Longrightarrow>
      fdo_held n = fdo_held x \<and> fdo_held x' = None \<and> openk (kern w') = openk (kern w)"
    by (auto simp: fd_object_class_def fd_object_move_def fdo_held_def)
  show "oc_assign (fd_object_class os pst) y x w = Some (n, x', w') \<Longrightarrow>
      fdo_held n = fdo_held x \<and> fdo_held x' = None \<and> openk (kern w') = openk (kern w) - set_option (fdo_held y)"
    using fd_object_closes by (auto simp: fd_object_class_def fd_object_move_assign_def fdo_held_def split: prod.splits)
qed

section \<open>The invariant for each class\<close>

context sock_owner
begin

lemmas owned = owner_invariant and no_leak = owner_no_leak

end

context file_owner
begin

lemmas owned = owner_invariant and no_leak = owner_no_leak

end

context lst_owner
begin

lemmas owned = owner_invariant and no_leak = owner_no_leak

end

context fd_object_owner
begin

lemmas owned = owner_invariant and no_leak = owner_no_leak

end

section \<open>A concrete table of descriptors\<close>

definition tbl_next :: "int list \<Rightarrow> int" where
  "tbl_next k = foldr max k 2 + 1"

lemma tbl_next_fresh: "tbl_next k \<notin> set k" "tbl_next k \<noteq> - 1"
proof -
  have "fd \<le> foldr max k 2" if "fd \<in> set k" for fd using that by (induction k) auto
  then show "tbl_next k \<notin> set k" by (fastforce simp: tbl_next_def)
  have "2 \<le> foldr max k 2" by (induction k) auto
  then show "tbl_next k \<noteq> - 1" by (simp add: tbl_next_def)
qed

definition tbl_os :: "int list os" where
  "tbl_os =
     \<lparr>os_ctl = (\<lambda>oper fd ev k. ((0, 0), k)), os_socket = (\<lambda>d t p k. (tbl_next k, tbl_next k # k)), os_set_non_block = (\<lambda>fd k. k),
      os_getsockname = (\<lambda>fd k. Some AF_INET), os_close = (\<lambda>fd k. removeAll fd k), os_shutdown_wr = (\<lambda>fd k. k),
      os_connect = (\<lambda>fd ad k. ((0, 0), k)), os_so_error = (\<lambda>fd k. (0, 0)), os_recv = (\<lambda>fd len k. ((0, 0, []), k)),
      os_send = (\<lambda>fd b k. ((0, 0), k)), os_writev = (\<lambda>fd v k. ((0, 0), k)), os_recvfrom = (\<lambda>fd len k. ((0, 0, [], []), k)),
      os_sendto = (\<lambda>fd v d k. ((0, 0), k))\<rparr>"

definition tbl_file_os :: "int list file_os" where
  "tbl_file_os =
     \<lparr>fo_ctl = (\<lambda>oper fd ev k. ((0, 0), k)), fo_open = (\<lambda>path flags mode k. (tbl_next k, tbl_next k # k)), fo_getfl = (\<lambda>fd k. 0),
      fo_setfl = (\<lambda>fd flags k. k), fo_close = (\<lambda>fd k. removeAll fd k), fo_read = (\<lambda>fd len k. ((0, 0, []), k)),
      fo_pread = (\<lambda>fd len ofs k. ((0, 0, []), k)), fo_write = (\<lambda>fd b k. ((0, 0), k)), fo_pwrite = (\<lambda>fd b ofs k. ((0, 0), k))\<rparr>"

definition tbl_los :: "int list los" where
  "tbl_los =
     \<lparr>lo_ctl = (\<lambda>oper fd ev k. ((0, 0), k)), lo_socket = (\<lambda>d k. (tbl_next k, tbl_next k # k)), lo_set_non_block = (\<lambda>fd k. k),
      lo_setsockopt = (\<lambda>fd opt v k. k), lo_bind = (\<lambda>fd ad k. (0, k)), lo_listen = (\<lambda>fd n k. (0, k)), lo_accept = (\<lambda>fd k. ((- 1, EAGAIN), k)),
      lo_close = (\<lambda>fd k. removeAll fd k), lo_unlink = (\<lambda>path k. k), lo_chmod = (\<lambda>path mode k. k)\<rparr>"

lemma tbl_fds: "sock_fds tbl_os set" "file_fds tbl_file_os set"
  by (unfold_locales; auto simp: tbl_os_def tbl_file_os_def tbl_next_fresh)+

interpretation tbl_sockets: sock_owner tbl_os set "wq_post :: addr \<Rightarrow> (int list, 'b) sock_scheme \<Rightarrow> (int list, 'b) sock_scheme"
  by (intro sock_owner.intro tbl_fds sock_direct.sock_route_axioms)

interpretation tbl_files: file_owner tbl_file_os set "wq_post :: addr \<Rightarrow> (int list, 'b) file_obj_scheme \<Rightarrow> (int list, 'b) file_obj_scheme"
  by (intro file_owner.intro file_owner_axioms.intro tbl_fds direct.waiter_route_axioms) (simp add: wq_post_def enqueue_def trig_once_def emit_def)

interpretation tbl_listeners: lst_owner "wq_post :: (int list, 'b) lst_post" tbl_los set
  by unfold_locales (auto simp: tbl_los_def tbl_next_fresh)

interpretation tbl_fd_objects: fd_object_owner tbl_file_os set "wq_post :: (int list, 'b) poster"
  by (intro fd_object_owner.intro tbl_fds direct.waiter_route_axioms)

section \<open>Objects that were moved from\<close>

text \<open>A moved-from socket is inert, and so is an object that was closed.\<close>

lemma moved_from_close:
  assumes "co_fd x = invalid_fd"
  shows "socket_core_close os b pst pend x s = Some (x, at_core x s)"
  using assms by (simp add: socket_core_close_def close_fd_def at_core_def core_at_def)

text \<open>
  Moving a socket does not move the operations that wait for its slots: they stay in the slots of the moved-from object, and closing that object does nothing, so nothing
  resumes them any more.
\<close>

lemma moving_strands_waiters:
  assumes "rep (lks s) R" and "R (co_send x) = Some ws" and "socket_core_move n x s = (y, x', s')"
    and "\<forall>h\<in>{co_send n, co_recv n, co_pending n, co_runner n}. R h = Some []"
  shows "rep (lks s') R \<and> R (co_send x') = Some ws \<and> socket_core_close os b pst pend x' s' = Some (x', at_core x' s')"
proof -
  have i: "INIT_LIST_HEAD h (lks s) = lks s" if "h \<in> {co_send n, co_recv n, co_pending n, co_runner n}" for h
    using INIT_LIST_HEAD_empty [OF assms(1)] assms(4) that by blast
  define s1 where "s1 = state_init (at_core (n\<lparr>co_fd := co_fd x, co_closed := co_closed x, co_family := co_family x\<rparr>) s)"
  have e: "s' = serial_queue_init (recv_q s1) (serial_queue_init (send_q s1) s1)" "x' = x\<lparr>co_fd := invalid_fd, co_closed := False\<rparr>"
    using assms(3) by (auto simp: socket_core_move_def Let_def simp flip: s1_def)
  have "lks s1 = lks s" "send_q s1 = co_send n" "recv_q s1 = co_recv n" by (simp_all add: s1_def state_init_def at_core_def i)
  then have "lks s' = lks s" by (simp add: e(1) serial_queue_init_def i)
  moreover have "co_send x' = co_send x" "co_fd x' = invalid_fd" by (simp_all add: e(2))
  ultimately show ?thesis using assms(1,2) moved_from_close [of x'] by simp
qed

text \<open>
  \<open>_exec = o._exec\<close> in the assignments of files, listeners and plain descriptors assigns through a reference: with a lock that can be copied (\<open>nolock\<close>)
  and two executors it copies the list head of one queue over the other. The head of the source is then taken for a node of the target.
\<close>

definition executor_assign :: "addr \<Rightarrow> addr \<Rightarrow> links \<Rightarrow> links" where
  "executor_assign dst src m = set_prev dst (prv m src) (set_next dst (nxt m src) m)"

lemma executor_assign_corrupts:
  assumes "rep m R" and "R src = Some []" and "src \<noteq> dst"
  shows "\<not> list_empty dst (executor_assign dst src m)" and "list_first_entry dst (executor_assign dst src m) = src"
  using rep_ring [OF assms(1,2)] ring_first [of m src "[]"] assms(3)
  by (simp_all add: executor_assign_def list_empty_def list_first_entry_def set_prev_def set_next_def)

end
