(* ===== verification/Tls_Context.thy ===== *)
theory Tls_Context
  imports Tls_Socket
begin

text \<open>
  Contexts of OpenSSL: \<open>tls_context\<close>, \<open>dtls_context\<close> and the helpers of \<open>detail\<close> in \<^verbatim>\<open>net/tls.hpp\<close>.

  The calls of OpenSSL are the fields of \<open>ctx_api\<close>, functions of the state of the library. The state adds the flag of \<open>std::call_once\<close> and the use counts
  of the shared pointers to contexts. An exception is a value \<open>Inl\<close> with its message.
\<close>

section \<open>Data\<close>

datatype ssl_method = TLS_client_method | TLS_server_method | DTLS_client_method | DTLS_server_method
datatype ssl_op = NO_SSLv2 | NO_SSLv3 | NO_COMPRESSION | NO_QUERY_MTU

record 'k ctx_api =
  cx_load_error_strings :: "'k \<Rightarrow> 'k"
  cx_add_algorithms :: "'k \<Rightarrow> 'k"
  cx_new :: "ssl_method \<Rightarrow> 'k \<Rightarrow> addr option \<times> 'k"
  cx_free :: "addr \<Rightarrow> 'k \<Rightarrow> 'k"
  cx_set_options :: "addr \<Rightarrow> ssl_op set \<Rightarrow> 'k \<Rightarrow> 'k"
  cx_use_certificate_file :: "addr \<Rightarrow> string \<Rightarrow> 'k \<Rightarrow> int \<times> 'k"
  cx_use_PrivateKey_file :: "addr \<Rightarrow> string \<Rightarrow> 'k \<Rightarrow> int \<times> 'k"
  cx_check_private_key :: "addr \<Rightarrow> 'k \<Rightarrow> int \<times> 'k"
  cx_BIO_new :: "'k \<Rightarrow> addr option \<times> 'k"
  cx_print_errors :: "addr \<Rightarrow> 'k \<Rightarrow> 'k"
  cx_BIO_data :: "addr \<Rightarrow> 'k \<Rightarrow> string option"
  cx_BIO_free :: "addr \<Rightarrow> 'k \<Rightarrow> 'k"

record 'k ctx_state =
  lib :: 'k
  once :: bool
  uses :: "addr \<Rightarrow> nat"

section \<open>Helpers\<close>

definition ssl_ctx_deleter :: "'k ctx_api \<Rightarrow> addr option \<Rightarrow> 'k ctx_state \<Rightarrow> 'k ctx_state" where
  "ssl_ctx_deleter api p s = (case p of None \<Rightarrow> s | Some c \<Rightarrow> s\<lparr>lib := cx_free api c (lib s)\<rparr>)"

definition ensure_global_init :: "'k ctx_api \<Rightarrow> 'k ctx_state \<Rightarrow> 'k ctx_state" where
  "ensure_global_init api s =
     (if once s then s else s\<lparr>lib := cx_add_algorithms api (cx_load_error_strings api (lib s)), once := True\<rparr>)"

definition make_ctx :: "'k ctx_api \<Rightarrow> tls_mode \<Rightarrow> 'k ctx_state \<Rightarrow> (string + addr) \<times> 'k ctx_state" where
  "make_ctx api mode s =
     (let meth = (if mode = Tls_client then TLS_client_method else TLS_server_method)
      in case cx_new api meth (lib s) of
           (None, k) \<Rightarrow> (Inl ''SSL_CTX_new failed'', s\<lparr>lib := k\<rparr>)
         | (Some c, k) \<Rightarrow> (Inr c, s\<lparr>lib := cx_set_options api c {NO_SSLv2, NO_SSLv3, NO_COMPRESSION} k\<rparr>))"

definition make_dtls_ctx :: "'k ctx_api \<Rightarrow> tls_mode \<Rightarrow> 'k ctx_state \<Rightarrow> (string + addr) \<times> 'k ctx_state" where
  "make_dtls_ctx api mode s =
     (let meth = (if mode = Tls_client then DTLS_client_method else DTLS_server_method)
      in case cx_new api meth (lib s) of
           (None, k) \<Rightarrow> (Inl ''SSL_CTX_new (dtls) failed'', s\<lparr>lib := k\<rparr>)
         | (Some c, k) \<Rightarrow> (Inr c, s\<lparr>lib := cx_set_options api c {NO_SSLv2, NO_SSLv3, NO_COMPRESSION, NO_QUERY_MTU} k\<rparr>))"

definition collect_errors :: "'k ctx_api \<Rightarrow> 'k ctx_state \<Rightarrow> string \<times> 'k ctx_state" where
  "collect_errors api s =
     (case cx_BIO_new api (lib s) of
        (None, k) \<Rightarrow> (''unknown'', s\<lparr>lib := k\<rparr>)
      | (Some b, k) \<Rightarrow>
          let k1 = cx_print_errors api b k;
              out = (case cx_BIO_data api b k1 of Some d \<Rightarrow> d | None \<Rightarrow> [])
          in (out, s\<lparr>lib := cx_BIO_free api b k1\<rparr>))"

text \<open>\<open>to_ssl_fd\<close> on Windows, where a socket is an unsigned 64-bit handle, and elsewhere.\<close>

definition to_ssl_fd_win :: "64 word \<Rightarrow> string + int" where
  "to_ssl_fd_win fd = (if uint fd > 2 ^ 31 - 1 then Inl ''socket handle exceeds SSL fd range'' else Inr (uint fd))"

definition to_ssl_fd :: "fd \<Rightarrow> int" where
  "to_ssl_fd fd = fd"

section \<open>Contexts\<close>

text \<open>A context object is its pointer (\<open>None\<close>: empty). Copying and dropping one count the uses; the last drop deletes.\<close>

type_synonym tls_context = "addr option"

definition ctx_share :: "addr \<Rightarrow> 'k ctx_state \<Rightarrow> tls_context \<times> 'k ctx_state" where
  "ctx_share c s = (Some c, s\<lparr>uses := (uses s)(c := 1)\<rparr>)"

definition ctx_copy :: "tls_context \<Rightarrow> 'k ctx_state \<Rightarrow> tls_context \<times> 'k ctx_state" where
  "ctx_copy p s = (p, case p of None \<Rightarrow> s | Some c \<Rightarrow> s\<lparr>uses := (uses s)(c := uses s c + 1)\<rparr>)"

definition ctx_drop :: "'k ctx_api \<Rightarrow> tls_context \<Rightarrow> 'k ctx_state \<Rightarrow> 'k ctx_state" where
  "ctx_drop api p s =
     (case p of None \<Rightarrow> s
      | Some c \<Rightarrow> let s1 = s\<lparr>uses := (uses s)(c := uses s c - 1)\<rparr> in if uses s1 c = 0 then ssl_ctx_deleter api p s1 else s1)"

definition ctx_valid :: "tls_context \<Rightarrow> bool" where
  "ctx_valid p \<longleftrightarrow> p \<noteq> None"

definition tls_context_make :: "'k ctx_api \<Rightarrow> tls_mode \<Rightarrow> 'k ctx_state \<Rightarrow> (string + tls_context) \<times> 'k ctx_state" where
  "tls_context_make api mode s =
     (case make_ctx api mode (ensure_global_init api s) of
        (Inl e, s1) \<Rightarrow> (Inl e, s1)
      | (Inr c, s1) \<Rightarrow> (case ctx_share c s1 of (p, s2) \<Rightarrow> (Inr p, s2)))"

definition dtls_context_make :: "'k ctx_api \<Rightarrow> tls_mode \<Rightarrow> 'k ctx_state \<Rightarrow> (string + tls_context) \<times> 'k ctx_state" where
  "dtls_context_make api mode s =
     (case make_dtls_ctx api mode (ensure_global_init api s) of
        (Inl e, s1) \<Rightarrow> (Inl e, s1)
      | (Inr c, s1) \<Rightarrow> (case ctx_share c s1 of (p, s2) \<Rightarrow> (Inr p, s2)))"

text \<open>Throwing while the local \<open>ctx\<close> holds the context drops it.\<close>

definition pem_throw :: "'k ctx_api \<Rightarrow> tls_context \<Rightarrow> string \<Rightarrow> 'k ctx_state \<Rightarrow> (string + tls_context) \<times> 'k ctx_state" where
  "pem_throw api p msg s = (Inl msg, ctx_drop api p s)"

definition tls_make_server_with_pem :: "'k ctx_api \<Rightarrow> string \<Rightarrow> string \<Rightarrow> 'k ctx_state \<Rightarrow> (string + tls_context) \<times> 'k ctx_state" where
  "tls_make_server_with_pem api cert_path key_path s =
     (case tls_context_make api Tls_server s of
        (Inl e, s1) \<Rightarrow> (Inl e, s1)
      | (Inr p, s1) \<Rightarrow>
         (case cx_use_certificate_file api (the p) cert_path (lib s1) of (r, k) \<Rightarrow>
            let s2 = s1\<lparr>lib := k\<rparr>
            in if r \<le> 0
               then (case collect_errors api s2 of (errs, s3) \<Rightarrow> pem_throw api p (''failed to load certificate: '' @ cert_path @ '' '' @ errs) s3)
               else (case cx_use_PrivateKey_file api (the p) key_path (lib s2) of (r1, k1) \<Rightarrow>
                  let s3 = s2\<lparr>lib := k1\<rparr>
                  in if r1 \<le> 0
                     then (case collect_errors api s3 of (errs, s4) \<Rightarrow> pem_throw api p (''failed to load private key: '' @ key_path @ '' '' @ errs) s4)
                     else (case cx_check_private_key api (the p) (lib s3) of (r2, k2) \<Rightarrow>
                        let s4 = s3\<lparr>lib := k2\<rparr>
                        in if r2 = 0 then pem_throw api p ''TLS private key mismatch'' s4 else (Inr p, s4)))))"

definition dtls_make_server_with_pem :: "'k ctx_api \<Rightarrow> string \<Rightarrow> string \<Rightarrow> 'k ctx_state \<Rightarrow> (string + tls_context) \<times> 'k ctx_state" where
  "dtls_make_server_with_pem api cert_path key_path s =
     (case dtls_context_make api Tls_server s of
        (Inl e, s1) \<Rightarrow> (Inl e, s1)
      | (Inr p, s1) \<Rightarrow>
         (case cx_use_certificate_file api (the p) cert_path (lib s1) of (r, k) \<Rightarrow>
            let s2 = s1\<lparr>lib := k\<rparr>
            in if r \<le> 0
               then (case collect_errors api s2 of (errs, s3) \<Rightarrow> pem_throw api p (''failed to load certificate: '' @ cert_path @ '' '' @ errs) s3)
               else (case cx_use_PrivateKey_file api (the p) key_path (lib s2) of (r1, k1) \<Rightarrow>
                  let s3 = s2\<lparr>lib := k1\<rparr>
                  in if r1 \<le> 0
                     then (case collect_errors api s3 of (errs, s4) \<Rightarrow> pem_throw api p (''failed to load private key: '' @ key_path @ '' '' @ errs) s4)
                     else (case cx_check_private_key api (the p) (lib s3) of (r2, k2) \<Rightarrow>
                        let s4 = s3\<lparr>lib := k2\<rparr>
                        in if r2 = 0 then pem_throw api p ''DTLS private key mismatch'' s4 else (Inr p, s4)))))"

section \<open>The library's side\<close>

text \<open>
  The objects that OpenSSL has allocated (\<open>ctxs\<close>, \<open>bios\<close>), what a context accepts as a server (\<open>cert\<close>, \<open>key\<close> are the files loaded into it,
  \<open>opts\<close> its options), and what is in the files: \<open>is_cert\<close>, \<open>is_key\<close> and \<open>match\<close>.
\<close>

locale openssl_ctx =
  fixes api :: "'k ctx_api" and ctxs bios :: "'k \<Rightarrow> addr set" and cert key :: "'k \<Rightarrow> addr \<rightharpoonup> string" and opts :: "'k \<Rightarrow> addr \<Rightarrow> ssl_op set"
    and is_cert is_key :: "string \<Rightarrow> bool" and matches :: "string \<Rightarrow> string \<Rightarrow> bool"
  assumes init_ctx: "ctxs (cx_load_error_strings api k) = ctxs k" "ctxs (cx_add_algorithms api k) = ctxs k"
      "bios (cx_load_error_strings api k) = bios k" "bios (cx_add_algorithms api k) = bios k"
    and new_ctx: "cx_new api m k = (Some c, k1) \<Longrightarrow> c \<notin> ctxs k \<and> ctxs k1 = insert c (ctxs k) \<and> bios k1 = bios k \<and> opts k1 c = {}"
    and new_none: "cx_new api m k = (None, k1) \<Longrightarrow> ctxs k1 = ctxs k \<and> bios k1 = bios k"
    and free_ctx: "ctxs (cx_free api c k) = ctxs k - {c}" "bios (cx_free api c k) = bios k"
    and options_ctx: "ctxs (cx_set_options api c f k) = ctxs k" "bios (cx_set_options api c f k) = bios k"
      "opts (cx_set_options api c f k) c = opts k c \<union> f"
    and use_cert: "cx_use_certificate_file api c path k = (r, k1) \<Longrightarrow> c \<in> ctxs k \<Longrightarrow> ctxs k1 = ctxs k \<and> bios k1 = bios k \<and> opts k1 = opts k \<and>
      (0 < r \<longleftrightarrow> is_cert path) \<and> (0 < r \<longrightarrow> cert k1 c = Some path)"
    and use_key: "cx_use_PrivateKey_file api c path k = (r, k1) \<Longrightarrow> c \<in> ctxs k \<Longrightarrow> ctxs k1 = ctxs k \<and> bios k1 = bios k \<and> opts k1 = opts k \<and> cert k1 = cert k \<and>
      (0 < r \<longleftrightarrow> is_key path) \<and> (0 < r \<longrightarrow> key k1 c = Some path)"
    and check_key: "cx_check_private_key api c k = (r, k1) \<Longrightarrow> cert k c = Some cp \<Longrightarrow> key k c = Some kp \<Longrightarrow>
      (r \<noteq> 0 \<longleftrightarrow> matches cp kp) \<and> ctxs k1 = ctxs k \<and> bios k1 = bios k \<and> opts k1 = opts k \<and> cert k1 = cert k \<and> key k1 = key k"
    and bio_new: "cx_BIO_new api k = (Some b, k1) \<Longrightarrow> b \<notin> bios k \<and> bios k1 = insert b (bios k) \<and> ctxs k1 = ctxs k"
    and bio_none: "cx_BIO_new api k = (None, k1) \<Longrightarrow> bios k1 = bios k \<and> ctxs k1 = ctxs k"
    and bio_ops: "bios (cx_print_errors api b k) = bios k" "ctxs (cx_print_errors api b k) = ctxs k"
      "bios (cx_BIO_free api b k) = bios k - {b}" "ctxs (cx_BIO_free api b k) = ctxs k"
begin

lemma collect_errors_frame:
  assumes "collect_errors api s = (e, s1)"
  shows "ctxs (lib s1) = ctxs (lib s)" "bios (lib s1) = bios (lib s)" "uses s1 = uses s"
proof -
  obtain b k where n: "cx_BIO_new api (lib s) = (b, k)" by fastforce
  show "ctxs (lib s1) = ctxs (lib s)" "bios (lib s1) = bios (lib s)" "uses s1 = uses s"
    using assms n bio_new bio_none by (cases b; force simp: collect_errors_def Let_def bio_ops)+
qed

lemma init_frame:
  "ctxs (lib (ensure_global_init api s)) = ctxs (lib s)" "bios (lib (ensure_global_init api s)) = bios (lib s)" "uses (ensure_global_init api s) = uses s"
  by (simp_all add: ensure_global_init_def init_ctx)

text \<open>What both ways of making a context give.\<close>

definition made :: "'k ctx_state \<Rightarrow> (string + tls_context) \<times> 'k ctx_state \<Rightarrow> bool" where
  "made s rs \<longleftrightarrow> bios (lib (snd rs)) = bios (lib s) \<and>
     (case fst rs of
        Inl e \<Rightarrow> ctxs (lib (snd rs)) = ctxs (lib s)
      | Inr p \<Rightarrow> \<exists>c. p = Some c \<and> c \<notin> ctxs (lib s) \<and> ctxs (lib (snd rs)) = insert c (ctxs (lib s)) \<and> uses (snd rs) c = 1 \<and>
          {NO_SSLv2, NO_SSLv3, NO_COMPRESSION} \<subseteq> opts (lib (snd rs)) c)"

lemma new_made:
  assumes "cx_new api m (lib (ensure_global_init api s)) = (p, k)"
  shows "case p of
      None \<Rightarrow> made s (Inl e, (ensure_global_init api s)\<lparr>lib := k\<rparr>)
    | Some c \<Rightarrow> {NO_SSLv2, NO_SSLv3, NO_COMPRESSION} \<subseteq> f \<longrightarrow>
        made s (Inr (Some c), snd (ctx_share c ((ensure_global_init api s)\<lparr>lib := cx_set_options api c f k\<rparr>)))"
  using new_ctx [of m "lib (ensure_global_init api s)"] new_none [of m "lib (ensure_global_init api s)"] assms
  by (cases p) (auto simp: made_def init_frame options_ctx ctx_share_def)

lemma make_frame: "made s (tls_context_make api mode s)" "made s (dtls_context_make api mode s)"
proof -
  let ?m = "if mode = Tls_client then TLS_client_method else TLS_server_method" and ?d = "if mode = Tls_client then DTLS_client_method else DTLS_server_method"
  obtain p k where p: "cx_new api ?m (lib (ensure_global_init api s)) = (p, k)" by fastforce
  show "made s (tls_context_make api mode s)"
    using new_made [OF p, of "''SSL_CTX_new failed''" "{NO_SSLv2, NO_SSLv3, NO_COMPRESSION}"] p
    by (cases p) (simp_all add: tls_context_make_def make_ctx_def Let_def case_prod_beta ctx_share_def)
  obtain q k where q: "cx_new api ?d (lib (ensure_global_init api s)) = (q, k)" by fastforce
  show "made s (dtls_context_make api mode s)"
    using new_made [OF q, of "''SSL_CTX_new (dtls) failed''" "{NO_SSLv2, NO_SSLv3, NO_COMPRESSION, NO_QUERY_MTU}"] q
    by (cases q) (simp_all add: dtls_context_make_def make_dtls_ctx_def Let_def case_prod_beta ctx_share_def)
qed

text \<open>Dropping the only use frees the context.\<close>

lemma throw_frees:
  assumes "uses s c = 1" and "ctxs (lib s) = insert c C" and "c \<notin> C"
  shows "fst (pem_throw api (Some c) msg s) = Inl msg" and "ctxs (lib (snd (pem_throw api (Some c) msg s))) = C"
    and "bios (lib (snd (pem_throw api (Some c) msg s))) = bios (lib s)"
  using assms by (auto simp: pem_throw_def ctx_drop_def Let_def ssl_ctx_deleter_def free_ctx)

text \<open>The three steps after the context was made, the same for TLS and DTLS.\<close>

definition pem_steps :: "string \<Rightarrow> string \<Rightarrow> string \<Rightarrow> addr \<Rightarrow> 'k ctx_state \<Rightarrow> (string + tls_context) \<times> 'k ctx_state" where
  "pem_steps mismatch cert_path key_path c s1 =
     (case cx_use_certificate_file api c cert_path (lib s1) of (r, k) \<Rightarrow>
        let s2 = s1\<lparr>lib := k\<rparr>
        in if r \<le> 0
           then (case collect_errors api s2 of (errs, s3) \<Rightarrow> pem_throw api (Some c) (''failed to load certificate: '' @ cert_path @ '' '' @ errs) s3)
           else (case cx_use_PrivateKey_file api c key_path (lib s2) of (r1, k1) \<Rightarrow>
              let s3 = s2\<lparr>lib := k1\<rparr>
              in if r1 \<le> 0
                 then (case collect_errors api s3 of (errs, s4) \<Rightarrow> pem_throw api (Some c) (''failed to load private key: '' @ key_path @ '' '' @ errs) s4)
                 else (case cx_check_private_key api c (lib s3) of (r2, k2) \<Rightarrow>
                    let s4 = s3\<lparr>lib := k2\<rparr> in if r2 = 0 then pem_throw api (Some c) mismatch s4 else (Inr (Some c), s4))))"

definition pem_ok :: "string \<Rightarrow> string \<Rightarrow> 'k ctx_state \<Rightarrow> (string + tls_context) \<times> 'k ctx_state \<Rightarrow> bool" where
  "pem_ok cert_path key_path s rs \<longleftrightarrow> bios (lib (snd rs)) = bios (lib s) \<and>
     (case fst rs of
        Inl e \<Rightarrow> ctxs (lib (snd rs)) = ctxs (lib s)
      | Inr p \<Rightarrow> is_cert cert_path \<and> is_key key_path \<and> matches cert_path key_path \<and>
          (\<exists>c. p = Some c \<and> c \<notin> ctxs (lib s) \<and> ctxs (lib (snd rs)) = insert c (ctxs (lib s)) \<and>
            cert (lib (snd rs)) c = Some cert_path \<and> key (lib (snd rs)) c = Some key_path \<and> {NO_SSLv2, NO_SSLv3, NO_COMPRESSION} \<subseteq> opts (lib (snd rs)) c))"

lemma pem_steps_ok:
  assumes m: "made s (Inr (Some c), s1)"
  shows "pem_ok cert_path key_path s (pem_steps mismatch cert_path key_path c s1)"
    and "fst (pem_steps mismatch cert_path key_path c s1) = Inr (Some c) \<longleftrightarrow> is_cert cert_path \<and> is_key key_path \<and> matches cert_path key_path"
proof -
  have s1: "c \<notin> ctxs (lib s)" "ctxs (lib s1) = insert c (ctxs (lib s))" "bios (lib s1) = bios (lib s)" "uses s1 c = 1"
    "{NO_SSLv2, NO_SSLv3, NO_COMPRESSION} \<subseteq> opts (lib s1) c"
    using m by (auto simp: made_def)
  note thr = throw_frees [where c = c and C = "ctxs (lib s)"]
  let ?P = "\<lambda>rs. pem_ok cert_path key_path s rs \<and> (fst rs = Inr (Some c) \<longleftrightarrow> is_cert cert_path \<and> is_key key_path \<and> matches cert_path key_path)"
  have "?P (pem_steps mismatch cert_path key_path c s1)"
  proof -
    obtain r k where r: "cx_use_certificate_file api c cert_path (lib s1) = (r, k)" by fastforce
    have k: "ctxs k = ctxs (lib s1)" "bios k = bios (lib s1)" "opts k = opts (lib s1)" "0 < r \<longleftrightarrow> is_cert cert_path" "0 < r \<longrightarrow> cert k c = Some cert_path"
      using use_cert [OF r] s1(2) by auto
    show ?thesis
    proof (cases "r \<le> 0")
      case True
      obtain errs s3 where e: "collect_errors api (s1\<lparr>lib := k\<rparr>) = (errs, s3)" by fastforce
      note f = collect_errors_frame [OF e]
      show ?thesis using thr [of s3] f k s1 True by (simp add: pem_steps_def r e Let_def pem_ok_def)
    next
      case False
      obtain r1 k1 where r1: "cx_use_PrivateKey_file api c key_path k = (r1, k1)" by fastforce
      have k1: "ctxs k1 = ctxs k" "bios k1 = bios k" "opts k1 = opts k" "cert k1 = cert k" "0 < r1 \<longleftrightarrow> is_key key_path" "0 < r1 \<longrightarrow> key k1 c = Some key_path"
        using use_key [OF r1] s1(2) k(1) by auto
      show ?thesis
      proof (cases "r1 \<le> 0")
        case True
        obtain errs s4 where e: "collect_errors api (s1\<lparr>lib := k1\<rparr>) = (errs, s4)" by fastforce
        note f = collect_errors_frame [OF e]
        show ?thesis using thr [of s4] f k k1 s1 True False by (simp add: pem_steps_def r r1 e Let_def pem_ok_def)
      next
        case r1p: False
        obtain r2 k2 where r2: "cx_check_private_key api c k1 = (r2, k2)" by fastforce
        have ck: "cert k1 c = Some cert_path" "key k1 c = Some key_path" using k k1 False r1p by auto
        from check_key [OF r2 ck] have k2: "r2 \<noteq> 0 \<longleftrightarrow> matches cert_path key_path" "ctxs k2 = ctxs k1" "bios k2 = bios k1" "opts k2 = opts k1"
          "cert k2 = cert k1" "key k2 = key k1" by auto
        show ?thesis using thr [of "s1\<lparr>lib := k2\<rparr>"] k k1 k2 ck s1 False r1p
          by (cases "r2 = 0") (simp_all add: pem_steps_def r r1 r2 Let_def pem_ok_def)
      qed
    qed
  qed
  then show "pem_ok cert_path key_path s (pem_steps mismatch cert_path key_path c s1)"
    and "fst (pem_steps mismatch cert_path key_path c s1) = Inr (Some c) \<longleftrightarrow> is_cert cert_path \<and> is_key key_path \<and> matches cert_path key_path" by blast+
qed

lemma server_with_pem_steps:
  "tls_make_server_with_pem api cert_path key_path s =
     (case tls_context_make api Tls_server s of (Inl e, s1) \<Rightarrow> (Inl e, s1)
      | (Inr p, s1) \<Rightarrow> pem_steps ''TLS private key mismatch'' cert_path key_path (the p) s1)" (is ?tls)
  "dtls_make_server_with_pem api cert_path key_path s =
     (case dtls_context_make api Tls_server s of (Inl e, s1) \<Rightarrow> (Inl e, s1)
      | (Inr p, s1) \<Rightarrow> pem_steps ''DTLS private key mismatch'' cert_path key_path (the p) s1)" (is ?dtls)
proof -
  obtain x s1 where x: "tls_context_make api Tls_server s = (x, s1)" by fastforce
  then have "case x of Inl e \<Rightarrow> True | Inr p \<Rightarrow> \<exists>c. p = Some c"
    using make_frame(1) [of s Tls_server] by (cases x) (auto simp: made_def)
  then consider e where "x = Inl e" | c where "x = Inr (Some c)" by (cases x) auto
  then show ?tls unfolding tls_make_server_with_pem_def pem_steps_def x by cases (simp_all only: prod.case sum.case option.sel)
  obtain y s2 where y: "dtls_context_make api Tls_server s = (y, s2)" by fastforce
  then have "case y of Inl e \<Rightarrow> True | Inr p \<Rightarrow> \<exists>c. p = Some c"
    using make_frame(2) [of s Tls_server] by (cases y) (auto simp: made_def)
  then consider e where "y = Inl e" | c where "y = Inr (Some c)" by (cases y) auto
  then show ?dtls unfolding dtls_make_server_with_pem_def pem_steps_def y by cases (simp_all only: prod.case sum.case option.sel)
qed

text \<open>A context for a server: it is made and loads its files, or there is an error and nothing is left of the attempt.\<close>

lemma server_context:
  assumes "mk = tls_make_server_with_pem api \<and> base = tls_context_make api \<or> mk = dtls_make_server_with_pem api \<and> base = dtls_context_make api"
  shows "pem_ok cert_path key_path s (mk cert_path key_path s)"
    and "(\<exists>p. fst (mk cert_path key_path s) = Inr p) \<longleftrightarrow>
      (\<exists>p. fst (base Tls_server s) = Inr p) \<and> is_cert cert_path \<and> is_key key_path \<and> matches cert_path key_path"
proof -
  obtain m where m: "mk cert_path key_path s = (case base Tls_server s of (Inl e, s1) \<Rightarrow> (Inl e, s1) | (Inr p, s1) \<Rightarrow> pem_steps m cert_path key_path (the p) s1)"
    and b: "made s (base Tls_server s)"
    using assms by (elim disjE) (auto simp: server_with_pem_steps make_frame)
  obtain x s1 where x: "base Tls_server s = (x, s1)" by fastforce
  have "pem_ok cert_path key_path s (mk cert_path key_path s) \<and> ((\<exists>p. fst (mk cert_path key_path s) = Inr p) \<longleftrightarrow>
      (\<exists>p. x = Inr p) \<and> is_cert cert_path \<and> is_key key_path \<and> matches cert_path key_path)"
  proof (cases x)
    case (Inl e)
    then show ?thesis using b by (simp add: m x made_def pem_ok_def)
  next
    case (Inr p)
    then obtain c where c: "p = Some c" using b by (auto simp: x made_def)
    have mc: "made s (Inr (Some c), s1)" using b by (simp add: x Inr c)
    note ok = pem_steps_ok [OF mc, where cert_path = cert_path and key_path = key_path and mismatch = m]
    have "fst (pem_steps m cert_path key_path c s1) = Inr q \<Longrightarrow> is_cert cert_path \<and> is_key key_path \<and> matches cert_path key_path" for q
      using ok(1) by (simp add: pem_ok_def)
    then show ?thesis using ok by (auto simp: m x Inr c)
  qed
  then show "pem_ok cert_path key_path s (mk cert_path key_path s)"
    and "(\<exists>p. fst (mk cert_path key_path s) = Inr p) \<longleftrightarrow>
      (\<exists>p. fst (base Tls_server s) = Inr p) \<and> is_cert cert_path \<and> is_key key_path \<and> matches cert_path key_path" by (simp_all add: x)
qed

end

section \<open>A library of contexts\<close>

text \<open>
  The state lists the contexts and the streams that are allocated, with what is loaded. Allocation fails when the slot is taken. A file is known by its
  name: \<open>''cert''\<close> or \<open>''key''\<close> followed by the pair it belongs to.
\<close>

record ossl =
  o_ctxs :: "addr set"
  o_bios :: "addr set"
  o_cert :: "addr \<rightharpoonup> string"
  o_key :: "addr \<rightharpoonup> string"
  o_opts :: "addr \<Rightarrow> ssl_op set"
  o_slot :: addr

definition pem_cert :: "string \<Rightarrow> bool" where "pem_cert p \<longleftrightarrow> take 4 p = ''cert''"
definition pem_key :: "string \<Rightarrow> bool" where "pem_key p \<longleftrightarrow> take 3 p = ''key''"
definition pem_pair :: "string \<Rightarrow> string \<Rightarrow> bool" where "pem_pair c k \<longleftrightarrow> drop 4 c = drop 3 k"

definition ossl_api :: "ossl ctx_api" where
  "ossl_api =
     \<lparr>cx_load_error_strings = id, cx_add_algorithms = id,
      cx_new = (\<lambda>m k. if o_slot k \<in> o_ctxs k then (None, k)
         else (Some (o_slot k), k\<lparr>o_ctxs := insert (o_slot k) (o_ctxs k), o_opts := (o_opts k)(o_slot k := {})\<rparr>)),
      cx_free = (\<lambda>c k. k\<lparr>o_ctxs := o_ctxs k - {c}\<rparr>),
      cx_set_options = (\<lambda>c f k. k\<lparr>o_opts := (o_opts k)(c := o_opts k c \<union> f)\<rparr>),
      cx_use_certificate_file = (\<lambda>c p k. if pem_cert p then (1, k\<lparr>o_cert := (o_cert k)(c \<mapsto> p)\<rparr>) else (0, k)),
      cx_use_PrivateKey_file = (\<lambda>c p k. if pem_key p then (1, k\<lparr>o_key := (o_key k)(c \<mapsto> p)\<rparr>) else (0, k)),
      cx_check_private_key = (\<lambda>c k. (case (o_cert k c, o_key k c) of (Some cp, Some kp) \<Rightarrow> if pem_pair cp kp then 1 else 0 | _ \<Rightarrow> 0, k)),
      cx_BIO_new = (\<lambda>k. if o_slot k \<in> o_bios k then (None, k) else (Some (o_slot k), k\<lparr>o_bios := insert (o_slot k) (o_bios k)\<rparr>)),
      cx_print_errors = (\<lambda>b k. k), cx_BIO_data = (\<lambda>b k. Some ''no start line''),
      cx_BIO_free = (\<lambda>b k. k\<lparr>o_bios := o_bios k - {b}\<rparr>)\<rparr>"

interpretation ossl: openssl_ctx ossl_api o_ctxs o_bios o_cert o_key o_opts pem_cert pem_key pem_pair
  by unfold_locales (auto simp: ossl_api_def split: if_splits)

definition ossl_init :: "ossl ctx_state" where
  "ossl_init = \<lparr>lib = \<lparr>o_ctxs = {}, o_bios = {}, o_cert = Map.empty, o_key = Map.empty, o_opts = (\<lambda>_. {}), o_slot = 7\<rparr>, once = False, uses = (\<lambda>_. 0)\<rparr>"

section \<open>Contexts of servers\<close>

text \<open>
  Over any OpenSSL that keeps its documented contract, \<open>make_server_with_pem\<close> of TLS and of DTLS succeeds exactly when the context can be allocated, both PEM
  files load and the key matches the certificate. The context that it returns is new, holds those files, refuses SSLv2, SSLv3 and compression, and
  is the only new allocation; when it throws instead, the set of contexts and the set of memory streams are those from before the call, whichever step failed.
\<close>

theorem server_context_or_nothing:
  assumes "openssl_ctx api ctxs bios cert key opts is_cert is_key matches"
    and "mk = tls_make_server_with_pem api \<and> base = tls_context_make api \<or> mk = dtls_make_server_with_pem api \<and> base = dtls_context_make api"
    and "mk cert_path key_path s = (r, s1)"
  shows "bios (lib s1) = bios (lib s)"
    and "(\<exists>p. r = Inr p) \<longleftrightarrow> (\<exists>p. fst (base Tls_server s) = Inr p) \<and> is_cert cert_path \<and> is_key key_path \<and> matches cert_path key_path"
    and "case r of Inl e \<Rightarrow> ctxs (lib s1) = ctxs (lib s)
      | Inr p \<Rightarrow> \<exists>c. p = Some c \<and> c \<notin> ctxs (lib s) \<and> ctxs (lib s1) = insert c (ctxs (lib s)) \<and> cert (lib s1) c = Some cert_path \<and>
          key (lib s1) c = Some key_path \<and> {NO_SSLv2, NO_SSLv3, NO_COMPRESSION} \<subseteq> opts (lib s1) c"
proof -
  note o = assms(1)
  note srv = openssl_ctx.server_context [OF o assms(2), of cert_path key_path s, unfolded assms(3)]
  show "bios (lib s1) = bios (lib s)"
    using srv(1) by (simp add: openssl_ctx.pem_ok_def [OF o])
  show "(\<exists>p. r = Inr p) \<longleftrightarrow> (\<exists>p. fst (base Tls_server s) = Inr p) \<and> is_cert cert_path \<and> is_key key_path \<and> matches cert_path key_path"
    using srv(2) by simp
  show "case r of Inl e \<Rightarrow> ctxs (lib s1) = ctxs (lib s)
      | Inr p \<Rightarrow> \<exists>c. p = Some c \<and> c \<notin> ctxs (lib s) \<and> ctxs (lib s1) = insert c (ctxs (lib s)) \<and> cert (lib s1) c = Some cert_path \<and>
          key (lib s1) c = Some key_path \<and> {NO_SSLv2, NO_SSLv3, NO_COMPRESSION} \<subseteq> opts (lib s1) c"
    using srv(1) by (cases r) (auto simp: openssl_ctx.pem_ok_def [OF o])
qed

theorem server_context_or_nothing_witness:
  "(case tls_make_server_with_pem ossl_api ''certA'' ''keyA'' ossl_init of (r, s1) \<Rightarrow> r = Inr (Some 7) \<and> o_ctxs (lib s1) = {7}) \<and>
   (case dtls_make_server_with_pem ossl_api ''certA'' ''keyB'' ossl_init of (r, s1) \<Rightarrow> r = Inl ''DTLS private key mismatch'' \<and> o_ctxs (lib s1) = {})"
proof -
  obtain r s1 where t: "tls_make_server_with_pem ossl_api ''certA'' ''keyA'' ossl_init = (r, s1)" by fastforce
  have base: "fst (tls_context_make ossl_api Tls_server ossl_init) = Inr (Some 7)"
    by (simp add: tls_context_make_def ensure_global_init_def make_ctx_def ossl_api_def ossl_init_def ctx_share_def)
  have "\<exists>p. r = Inr p"
    using server_context_or_nothing(2) [where mk = "tls_make_server_with_pem ossl_api" and base = "tls_context_make ossl_api", OF ossl.openssl_ctx_axioms _ t] base
    by (simp add: pem_cert_def pem_key_def pem_pair_def)
  moreover have "r = Inr (Some 7)" and "o_ctxs (lib s1) = {7}"
    using t by (auto simp: tls_make_server_with_pem_def tls_context_make_def ensure_global_init_def make_ctx_def ossl_api_def ossl_init_def ctx_share_def
      pem_cert_def pem_key_def pem_pair_def)
  moreover obtain r' s2 where d: "dtls_make_server_with_pem ossl_api ''certA'' ''keyB'' ossl_init = (r', s2)" by fastforce
  moreover have "r' = Inl ''DTLS private key mismatch''"
    using d by (auto simp: dtls_make_server_with_pem_def dtls_context_make_def ensure_global_init_def make_dtls_ctx_def ossl_api_def ossl_init_def ctx_share_def
      pem_cert_def pem_key_def pem_pair_def pem_throw_def)
  moreover have "o_ctxs (lib s2) = {}"
    using server_context_or_nothing(3) [where mk = "dtls_make_server_with_pem ossl_api" and base = "dtls_context_make ossl_api", OF ossl.openssl_ctx_axioms _ d]
      \<open>r' = _\<close> by (simp add: ossl_init_def)
  ultimately show ?thesis by (simp add: t)
qed

end
