(* ===== verification/Logging.thy ===== *)
theory Logging
  imports Prelude
begin

text \<open>
  The logging front end (\<open>co_wq::log\<close> in \<^verbatim>\<open>task/workqueue.hpp\<close>): the shared logger, the file that \<open>configure_file_logging\<close> prepares and
  the messages.

  The library spdlog, the formatting function of fmt and the files of the operating system are the fields of \<open>log_api\<close>, functions of the backend's state.
  The state of the front end adds the static pointer of \<open>logger_storage\<close>. An exception is a value \<open>Inl\<close> with its message.
\<close>

section \<open>Data\<close>

datatype level_enum = trace | debug | info | warn | err | critical | off

primrec level_rank :: "level_enum \<Rightarrow> nat" where
  "level_rank trace = 0"
| "level_rank debug = 1"
| "level_rank info = 2"
| "level_rank warn = 3"
| "level_rank err = 4"
| "level_rank critical = 5"
| "level_rank off = 6"

record ('k, 'a) log_api =
  lg_default_logger :: "'k \<Rightarrow> addr option"
  lg_get :: "string \<Rightarrow> 'k \<Rightarrow> addr option"
  lg_stdout_color_mt :: "string \<Rightarrow> 'k \<Rightarrow> addr \<times> 'k"
  lg_set_default_logger :: "addr option \<Rightarrow> 'k \<Rightarrow> 'k"
  lg_set_level :: "addr \<Rightarrow> level_enum \<Rightarrow> 'k \<Rightarrow> 'k"
  lg_set_pattern :: "addr \<Rightarrow> string \<Rightarrow> 'k \<Rightarrow> 'k"
  lg_flush_on :: "addr \<Rightarrow> level_enum \<Rightarrow> 'k \<Rightarrow> 'k"
  lg_should_log :: "addr \<Rightarrow> level_enum \<Rightarrow> 'k \<Rightarrow> bool"
  lg_log :: "addr \<Rightarrow> level_enum \<Rightarrow> string \<Rightarrow> 'k \<Rightarrow> 'k"
  lg_logger :: "string \<Rightarrow> addr list \<Rightarrow> 'k \<Rightarrow> addr \<times> 'k"
  lg_file_sink :: "string \<Rightarrow> bool \<Rightarrow> 'k \<Rightarrow> (string + addr) \<times> 'k"
  lg_console_sink :: "'k \<Rightarrow> addr \<times> 'k"
  lg_sink_pattern :: "addr \<Rightarrow> string \<Rightarrow> 'k \<Rightarrow> 'k"
  lg_sink_level :: "addr \<Rightarrow> level_enum \<Rightarrow> 'k \<Rightarrow> 'k"
  lg_sprintf :: "string \<Rightarrow> 'a list \<Rightarrow> string + string"
  fs_path :: "string \<Rightarrow> bool"
  fs_exists :: "string \<Rightarrow> 'k \<Rightarrow> bool"
  fs_file_size :: "string \<Rightarrow> 'k \<Rightarrow> nat option"
  fs_open_trunc :: "string \<Rightarrow> 'k \<Rightarrow> bool \<times> 'k"
  fs_write :: "string \<Rightarrow> string \<Rightarrow> 'k \<Rightarrow> 'k"

record 'k log_state =
  backend :: 'k
  logger_storage :: "addr option"

definition CO_WQ_LOGGER_NAME :: string where
  "CO_WQ_LOGGER_NAME = ''co_wq''"

definition default_pattern :: string where
  "default_pattern = ''[%Y-%m-%d %H:%M:%S.%e] [%^%l%$] [thread %t] %v''"

definition is_newline :: "char \<Rightarrow> bool" where
  "is_newline c \<longleftrightarrow> c = CHR 0x0A \<or> c = CHR 0x0D"

section \<open>The shared logger\<close>

definition ensure_logger :: "('k, 'a) log_api \<Rightarrow> 'k log_state \<Rightarrow> addr option \<times> 'k log_state" where
  "ensure_logger api s =
     (let s' = (if logger_storage s = None
                then (case lg_default_logger api (backend s) of
                        Some d \<Rightarrow> s\<lparr>logger_storage := Some d\<rparr>
                      | None \<Rightarrow>
                         (case lg_get api CO_WQ_LOGGER_NAME (backend s) of
                            Some n \<Rightarrow> s\<lparr>logger_storage := Some n, backend := lg_set_default_logger api (Some n) (backend s)\<rparr>
                          | None \<Rightarrow>
                             (case lg_stdout_color_mt api CO_WQ_LOGGER_NAME (backend s) of (c, k) \<Rightarrow>
                                s\<lparr>backend := lg_set_default_logger api (Some c) (lg_set_pattern api c default_pattern (lg_set_level api c info k)),
                                  logger_storage := Some c\<rparr>)))
                else s)
      in (logger_storage s', s'))"

definition get_logger :: "('k, 'a) log_api \<Rightarrow> 'k log_state \<Rightarrow> addr option \<times> 'k log_state" where
  "get_logger api s = (let s1 = snd (ensure_logger api s) in (logger_storage s1, s1))"

definition set_logger :: "('k, 'a) log_api \<Rightarrow> addr option \<Rightarrow> 'k log_state \<Rightarrow> 'k log_state" where
  "set_logger api l s = (let s1 = s\<lparr>logger_storage := l\<rparr> in s1\<lparr>backend := lg_set_default_logger api (logger_storage s1) (backend s1)\<rparr>)"

definition set_level :: "('k, 'a) log_api \<Rightarrow> level_enum \<Rightarrow> 'k log_state \<Rightarrow> 'k log_state" where
  "set_level api lvl s =
     (case ensure_logger api s of (None, s1) \<Rightarrow> s1 | (Some l, s1) \<Rightarrow> s1\<lparr>backend := lg_set_level api l lvl (backend s1)\<rparr>)"

section \<open>Messages\<close>

function trim_trailing_newlines :: "string \<Rightarrow> string" where
  "trim_trailing_newlines message =
     (if message \<noteq> [] \<and> is_newline (last message) then trim_trailing_newlines (butlast message) else message)"
  by pat_completeness auto
termination by (relation "measure length") auto

declare trim_trailing_newlines.simps [simp del]

definition log_message :: "('k, 'a) log_api \<Rightarrow> level_enum \<Rightarrow> string \<Rightarrow> 'a list \<Rightarrow> 'k log_state \<Rightarrow> (string + unit) \<times> 'k log_state" where
  "log_message api lvl fmt args s =
     (case ensure_logger api s of
        (None, s1) \<Rightarrow> (Inr (), s1)
      | (Some l, s1) \<Rightarrow>
          if \<not> lg_should_log api l lvl (backend s1) then (Inr (), s1)
          else (case lg_sprintf api fmt args of
                  Inl e \<Rightarrow> (Inl e, s1)
                | Inr m \<Rightarrow> (Inr (), s1\<lparr>backend := lg_log api l lvl (trim_trailing_newlines m) (backend s1)\<rparr>)))"

definition log_trace :: "('k, 'a) log_api \<Rightarrow> string \<Rightarrow> 'a list \<Rightarrow> 'k log_state \<Rightarrow> (string + unit) \<times> 'k log_state" where
  "log_trace api = log_message api trace"
definition log_debug :: "('k, 'a) log_api \<Rightarrow> string \<Rightarrow> 'a list \<Rightarrow> 'k log_state \<Rightarrow> (string + unit) \<times> 'k log_state" where
  "log_debug api = log_message api debug"
definition log_info :: "('k, 'a) log_api \<Rightarrow> string \<Rightarrow> 'a list \<Rightarrow> 'k log_state \<Rightarrow> (string + unit) \<times> 'k log_state" where
  "log_info api = log_message api info"
definition log_warn :: "('k, 'a) log_api \<Rightarrow> string \<Rightarrow> 'a list \<Rightarrow> 'k log_state \<Rightarrow> (string + unit) \<times> 'k log_state" where
  "log_warn api = log_message api warn"
definition log_error :: "('k, 'a) log_api \<Rightarrow> string \<Rightarrow> 'a list \<Rightarrow> 'k log_state \<Rightarrow> (string + unit) \<times> 'k log_state" where
  "log_error api = log_message api err"
definition log_critical :: "('k, 'a) log_api \<Rightarrow> string \<Rightarrow> 'a list \<Rightarrow> 'k log_state \<Rightarrow> (string + unit) \<times> 'k log_state" where
  "log_critical api = log_message api critical"

text \<open>The macros expand to a call or to nothing, which leaves the arguments unevaluated.\<close>

definition CO_WQ_LOG :: "bool \<Rightarrow> ('k, 'a) log_api \<Rightarrow> level_enum \<Rightarrow> string \<Rightarrow> 'a list \<Rightarrow> 'k log_state \<Rightarrow> (string + unit) \<times> 'k log_state" where
  "CO_WQ_LOG enabled api lvl fmt args s = (if enabled then log_message api lvl fmt args s else (Inr (), s))"

section \<open>Logging to a file\<close>

definition bom :: string where
  "bom = [CHR 0xEF, CHR 0xBB, CHR 0xBF]"

text \<open>The \<open>try\<close> block: the file gets a byte order mark when it starts empty. The value is \<open>sink_truncate\<close>.\<close>

definition prepare_file :: "('k, 'a) log_api \<Rightarrow> string \<Rightarrow> bool \<Rightarrow> 'k \<Rightarrow> bool \<times> 'k" where
  "prepare_file api p trunc k =
     (if \<not> fs_path api p then (trunc, k)
      else
        let exists = fs_exists api p k;
            ensure_bom = trunc \<or> \<not> exists;
            ensure_bom' = (if \<not> ensure_bom \<and> exists then (case fs_file_size api p k of None \<Rightarrow> True | Some n \<Rightarrow> n = 0) else ensure_bom)
        in if ensure_bom'
           then (case fs_open_trunc api p k of (ok, k1) \<Rightarrow> if ok then (False, fs_write api p bom k1) else (trunc, k1))
           else (trunc, k))"

definition configure_file_logging ::
  "('k, 'a) log_api \<Rightarrow> string \<Rightarrow> bool \<Rightarrow> bool \<Rightarrow> level_enum \<Rightarrow> level_enum \<Rightarrow> level_enum \<Rightarrow> 'k log_state \<Rightarrow> (string + addr) \<times> 'k log_state" where
  "configure_file_logging api file_path trunc mirror logger_level console_level file_level s =
     (case prepare_file api file_path trunc (backend s) of (sink_truncate, k) \<Rightarrow>
       (case lg_file_sink api file_path sink_truncate k of
          (Inl e, k1) \<Rightarrow> (Inl e, s\<lparr>backend := k1\<rparr>)
        | (Inr f, k1) \<Rightarrow>
            let k2 = lg_sink_level api f file_level (lg_sink_pattern api f default_pattern k1)
            in case (if mirror
                     then (case lg_console_sink api k2 of (c, k3) \<Rightarrow> ([f, c], lg_sink_level api c console_level (lg_sink_pattern api c default_pattern k3)))
                     else ([f], k2)) of
                 (sinks, k4) \<Rightarrow>
                   (case lg_logger api CO_WQ_LOGGER_NAME sinks k4 of (l, k5) \<Rightarrow>
                      let k6 = lg_flush_on api l info (lg_set_pattern api l default_pattern (lg_set_level api l logger_level k5));
                          s1 = s\<lparr>backend := lg_set_default_logger api (Some l) k6\<rparr>
                      in (Inr l, set_logger api (Some l) s1))))"

section \<open>Trimming\<close>

lemma trim_is_rev: "trim_trailing_newlines m = rev (dropWhile is_newline (rev m))"
proof (induction m rule: trim_trailing_newlines.induct)
  case (1 m)
  show ?case
  proof (cases "m \<noteq> [] \<and> is_newline (last m)")
    case True
    then have "trim_trailing_newlines m = trim_trailing_newlines (butlast m)" by (subst trim_trailing_newlines.simps) simp
    then show ?thesis using 1 True by (cases m rule: rev_cases) simp_all
  next
    case False
    then have "trim_trailing_newlines m = m" by (subst trim_trailing_newlines.simps) (use False in auto)
    then show ?thesis using False by (cases m rule: rev_cases) simp_all
  qed
qed

text \<open>A message loses a suffix of newlines, all of them, and nothing else.\<close>

lemma trim_split:
  obtains ns where "m = trim_trailing_newlines m @ ns" "\<forall>c \<in> set ns. is_newline c"
    "trim_trailing_newlines m = [] \<or> \<not> is_newline (last (trim_trailing_newlines m))"
proof
  let ?r = "rev m"
  show "m = trim_trailing_newlines m @ rev (takeWhile is_newline ?r)"
    unfolding trim_is_rev rev_append [symmetric] takeWhile_dropWhile_id by simp
  show "\<forall>c \<in> set (rev (takeWhile is_newline ?r)). is_newline c" by (auto dest: set_takeWhileD)
  show "trim_trailing_newlines m = [] \<or> \<not> is_newline (last (trim_trailing_newlines m))"
    unfolding trim_is_rev using hd_dropWhile [of is_newline ?r] by (auto simp: last_rev)
qed

lemma trim_idem: "trim_trailing_newlines (trim_trailing_newlines m) = trim_trailing_newlines m"
  by (simp add: trim_is_rev dropWhile_idem)

text \<open>A run of calls, and the lines that it writes for a logger of level \<open>v\<close> and a file of level \<open>u\<close>. A format error writes nothing.\<close>

definition log_messages :: "('k, 'a) log_api \<Rightarrow> (level_enum \<times> string \<times> 'a list) list \<Rightarrow> 'k log_state \<Rightarrow> 'k log_state" where
  "log_messages api evs s = fold (\<lambda>(w, fmt, args) s. snd (log_message api w fmt args s)) evs s"

definition log_lines :: "('k, 'a) log_api \<Rightarrow> level_enum \<Rightarrow> level_enum \<Rightarrow> (level_enum \<times> string \<times> 'a list) list \<Rightarrow> string list" where
  "log_lines api v u evs =
     concat (map (\<lambda>(w, fmt, args). case lg_sprintf api fmt args of Inl e \<Rightarrow> []
       | Inr m \<Rightarrow> if level_rank v \<le> level_rank w \<and> level_rank u \<le> level_rank w then [trim_trailing_newlines m] else []) evs)"

section \<open>The backend\<close>

text \<open>
  What the front end relies on. \<open>content\<close> are the files, with what the sinks hold back for them; \<open>out\<close> are the sinks, the file of each or none, with its
  level; \<open>lgr\<close> are the loggers, each with its level and its sinks. A sink appends a line: some header, the message and the end of line.
\<close>

locale log_backend =
  fixes api :: "('k, 'a) log_api" and content :: "'k \<Rightarrow> string \<rightharpoonup> string" and out :: "'k \<Rightarrow> addr \<rightharpoonup> string option \<times> level_enum"
    and lgr :: "'k \<Rightarrow> addr \<rightharpoonup> level_enum \<times> addr list" and eol :: string
  assumes exists_file: "fs_exists api p k \<longleftrightarrow> content k p \<noteq> None"
    and size_file: "fs_file_size api p k = map_option length (content k p)"
    and open_file: "fs_open_trunc api p k = (ok, k1) \<Longrightarrow> content k1 p = (if ok then Some [] else content k p) \<and> out k1 = out k \<and> lgr k1 = lgr k"
    and write_file: "content k p = Some c \<Longrightarrow> content (fs_write api p b k) p = Some (c @ b)"
    and write_rest: "out (fs_write api p b k) = out k" "lgr (fs_write api p b k) = lgr k"
    and file_sink: "lg_file_sink api p t k = (Inr f, k1) \<Longrightarrow> content k1 p = Some (if t then [] else case content k p of None \<Rightarrow> [] | Some c \<Rightarrow> c) \<and>
      out k f = None \<and> out k1 = (out k)(f \<mapsto> (Some p, trace)) \<and> lgr k1 = lgr k"
    and console_sink: "lg_console_sink api k = (g, k1) \<Longrightarrow> out k g = None \<and> out k1 = (out k)(g \<mapsto> (None, trace)) \<and> content k1 = content k \<and> lgr k1 = lgr k"
    and sink_level: "content (lg_sink_level api f v k) = content k" "lgr (lg_sink_level api f v k) = lgr k"
      "out (lg_sink_level api f v k) = (out k)(f := map_option (map_prod id (\<lambda>_. v)) (out k f))"
    and sink_pattern: "content (lg_sink_pattern api f pt k) = content k" "lgr (lg_sink_pattern api f pt k) = lgr k" "out (lg_sink_pattern api f pt k) = out k"
    and new_logger: "lg_logger api n ss k = (l, k1) \<Longrightarrow> lgr k1 = (lgr k)(l \<mapsto> (info, ss)) \<and> content k1 = content k \<and> out k1 = out k"
    and log_level: "content (lg_set_level api l v k) = content k" "out (lg_set_level api l v k) = out k"
      "lgr (lg_set_level api l v k) = (lgr k)(l := map_option (map_prod (\<lambda>_. v) id) (lgr k l))"
    and log_pattern: "content (lg_set_pattern api l pt k) = content k" "lgr (lg_set_pattern api l pt k) = lgr k" "out (lg_set_pattern api l pt k) = out k"
    and log_flush: "content (lg_flush_on api l v k) = content k" "lgr (lg_flush_on api l v k) = lgr k" "out (lg_flush_on api l v k) = out k"
    and log_default: "content (lg_set_default_logger api d k) = content k" "lgr (lg_set_default_logger api d k) = lgr k"
      "out (lg_set_default_logger api d k) = out k" "lg_default_logger api (lg_set_default_logger api d k) = d"
    and should: "lgr k l = Some (v, ss) \<Longrightarrow> lg_should_log api l w k \<longleftrightarrow> level_rank v \<le> level_rank w"
    and log_frame: "lgr (lg_log api l w m k) = lgr k" "out (lg_log api l w m k) = out k"
    and log_line: "lgr k l = Some (v, ss) \<Longrightarrow> level_rank v \<le> level_rank w \<Longrightarrow> [f\<leftarrow>ss. \<exists>u. out k f = Some (Some p, u)] = [f] \<Longrightarrow> out k f = Some (Some p, u) \<Longrightarrow>
      content k p = Some c \<Longrightarrow> \<exists>h. content (lg_log api l w m k) p = Some (if level_rank u \<le> level_rank w then c @ h @ m @ eol else c)"
begin

text \<open>The file after the preparation and the sink's opening.\<close>

definition start_of :: "string \<Rightarrow> bool \<Rightarrow> 'k \<Rightarrow> string" where
  "start_of p trunc k =
     (if fs_path api p \<and> (trunc \<or> content k p = None \<or> content k p = Some []) \<and> fst (fs_open_trunc api p k) then bom
      else if trunc then [] else (case content k p of None \<Rightarrow> [] | Some c \<Rightarrow> c))"

lemma prepare_rest:
  assumes "prepare_file api p trunc k = (t, k1)"
  shows "out k1 = out k" "lgr k1 = lgr k"
proof -
  obtain ok k2 where o: "fs_open_trunc api p k = (ok, k2)" by fastforce
  show "out k1 = out k" "lgr k1 = lgr k"
    using assms open_file [OF o] by (auto simp: prepare_file_def Let_def o write_rest split: if_splits)
qed

lemma prepare_content:
  assumes "prepare_file api p trunc k = (t, k1)"
  shows "(if t then [] else case content k1 p of None \<Rightarrow> [] | Some c \<Rightarrow> c) = start_of p trunc k"
proof -
  obtain ok k2 where o: "fs_open_trunc api p k = (ok, k2)" by fastforce
  have w: "ok \<Longrightarrow> content (fs_write api p bom k2) p = Some bom" using open_file [OF o] write_file [of k2 p "[]" bom] by simp
  have e: "fs_exists api p k = (content k p \<noteq> None)" "fs_file_size api p k = map_option length (content k p)" by (rule exists_file, rule size_file)
  show ?thesis
    using assms open_file [OF o] w
    by (cases "content k p"; cases "fs_path api p"; cases ok; cases trunc)
      (auto simp: prepare_file_def start_of_def Let_def o e split: if_splits)
qed

text \<open>The logger of a configured file: one of its sinks is that file's.\<close>

definition configured :: "string \<Rightarrow> level_enum \<Rightarrow> level_enum \<Rightarrow> addr \<Rightarrow> 'k log_state \<Rightarrow> bool" where
  "configured p v u l s \<longleftrightarrow> logger_storage s = Some l \<and>
     (\<exists>ss f. lgr (backend s) l = Some (v, ss) \<and> [f\<leftarrow>ss. \<exists>u. out (backend s) f = Some (Some p, u)] = [f] \<and> out (backend s) f = Some (Some p, u))"

lemma configure_makes:
  assumes "configure_file_logging api p trunc mirror v cl u s = (Inr l, s1)"
  shows "configured p v u l s1" and "content (backend s1) p = Some (start_of p trunc (backend s))" and "lg_default_logger api (backend s1) = Some l"
proof -
  obtain t k where t: "prepare_file api p trunc (backend s) = (t, k)" by fastforce
  obtain f k1 where f: "lg_file_sink api p t k = (Inr f, k1)"
    using assms by (auto simp: configure_file_logging_def t split: prod.splits sum.splits)
  define k2 where "k2 = lg_sink_level api f u (lg_sink_pattern api f default_pattern k1)"
  obtain c k3 where c: "lg_console_sink api k2 = (c, k3)" by fastforce
  define ss where "ss = (if mirror then [f, c] else [f])"
  define k4 where "k4 = (if mirror then lg_sink_level api c cl (lg_sink_pattern api c default_pattern k3) else k2)"
  obtain l' k5 where l: "lg_logger api CO_WQ_LOGGER_NAME ss k4 = (l', k5)" by fastforce
  define k6 where "k6 = lg_flush_on api l' info (lg_set_pattern api l' default_pattern (lg_set_level api l' v k5))"
  have "l' = l" and s1: "s1 = set_logger api (Some l') (s\<lparr>backend := lg_set_default_logger api (Some l') k6\<rparr>)"
    using assms c l by (auto simp: configure_file_logging_def t f k2_def [symmetric] ss_def k4_def k6_def Let_def split: if_splits)
  note fs = file_sink [OF f] and cs = console_sink [OF c] and nl = new_logger [OF l]
  have o2: "out k2 f = Some (Some p, u)" "content k2 p = content k1 p" by (simp_all add: k2_def sink_level sink_pattern fs)
  have o4: "out k4 f = Some (Some p, u)" "content k4 p = content k1 p" "mirror \<Longrightarrow> out k4 c = Some (None, cl)"
    using o2 cs by (auto simp: k4_def sink_level sink_pattern)
  have b: "content (backend s1) = content k4" "out (backend s1) = out k4" "lgr (backend s1) l = Some (v, ss)" "logger_storage s1 = Some l"
    using nl by (simp_all add: s1 set_logger_def Let_def log_default k6_def log_flush log_pattern log_level \<open>l' = l\<close>)
  have "[f\<leftarrow>ss. \<exists>u. out (backend s1) f = Some (Some p, u)] = [f]" using o4 by (auto simp: ss_def b)
  then show "configured p v u l s1" using b o4(1) by (auto simp: configured_def)
  show "content (backend s1) p = Some (start_of p trunc (backend s))"
    using fs prepare_content [OF t] by (simp add: b o4(2))
  show "lg_default_logger api (backend s1) = Some l" by (simp add: s1 set_logger_def Let_def log_default \<open>l' = l\<close>)
qed

lemma message_line:
  assumes "configured p v u l s" and "content (backend s) p = Some c" and "log_message api w fmt args s = (r, s1)"
  shows "configured p v u l s1"
    and "\<exists>h. content (backend s1) p = Some (c @ (case lg_sprintf api fmt args of Inr m \<Rightarrow>
        if level_rank v \<le> level_rank w \<and> level_rank u \<le> level_rank w then h @ trim_trailing_newlines m @ eol else [] | Inl e \<Rightarrow> []))"
proof -
  obtain ss f where d: "logger_storage s = Some l" "lgr (backend s) l = Some (v, ss)" "[f\<leftarrow>ss. \<exists>u. out (backend s) f = Some (Some p, u)] = [f]"
    "out (backend s) f = Some (Some p, u)" using assms(1) by (auto simp: configured_def)
  have e: "ensure_logger api s = (Some l, s)" by (simp add: ensure_logger_def d(1))
  have sh: "lg_should_log api l w (backend s) \<longleftrightarrow> level_rank v \<le> level_rank w" by (rule should [OF d(2)])
  have s1: "s1 = (case lg_sprintf api fmt args of Inl x \<Rightarrow> s | Inr m \<Rightarrow> if level_rank v \<le> level_rank w
      then s\<lparr>backend := lg_log api l w (trim_trailing_newlines m) (backend s)\<rparr> else s)"
    using assms(3) by (auto simp: log_message_def e sh split: if_splits sum.splits)
  show "configured p v u l s1" using assms(1) by (auto simp: s1 configured_def log_frame split: sum.split)
  show "\<exists>h. content (backend s1) p = Some (c @ (case lg_sprintf api fmt args of Inr m \<Rightarrow>
        if level_rank v \<le> level_rank w \<and> level_rank u \<le> level_rank w then h @ trim_trailing_newlines m @ eol else [] | Inl e \<Rightarrow> []))"
  proof (cases "lg_sprintf api fmt args")
    case (Inr m)
    from log_line [OF d(2) _ d(3,4) assms(2), of w "trim_trailing_newlines m"] show ?thesis
      using assms(2) by (cases "level_rank v \<le> level_rank w"; cases "level_rank u \<le> level_rank w") (simp_all add: s1 Inr)
  qed (simp add: s1 assms(2))
qed

lemma messages_lines:
  assumes "configured p v u l s" and "content (backend s) p = Some c"
  shows "\<exists>hs. length hs = length (log_lines api v u evs) \<and>
    content (backend (log_messages api evs s)) p = Some (c @ concat (map2 (\<lambda>h m. h @ m @ eol) hs (log_lines api v u evs)))"
  using assms
proof (induction evs arbitrary: s c)
  case Nil
  then show ?case by (simp add: log_messages_def log_lines_def)
next
  case (Cons e evs)
  obtain w fmt args where e: "e = (w, fmt, args)" by (cases e)
  obtain r s1 where m: "log_message api w fmt args s = (r, s1)" by fastforce
  note line = message_line [OF Cons.prems m]
  from line(2) obtain h where h: "content (backend s1) p = Some (c @ (case lg_sprintf api fmt args of Inr m \<Rightarrow>
    if level_rank v \<le> level_rank w \<and> level_rank u \<le> level_rank w then h @ trim_trailing_newlines m @ eol else [] | Inl e \<Rightarrow> []))" ..
  from Cons.IH [OF line(1) h] obtain hs where hs: "length hs = length (log_lines api v u evs)"
    "content (backend (log_messages api evs s1)) p = Some ((c @ (case lg_sprintf api fmt args of Inr m \<Rightarrow>
      if level_rank v \<le> level_rank w \<and> level_rank u \<le> level_rank w then h @ trim_trailing_newlines m @ eol else [] | Inl e \<Rightarrow> [])) @
      concat (map2 (\<lambda>h m. h @ m @ eol) hs (log_lines api v u evs)))" by blast
  have s: "log_messages api (e # evs) s = log_messages api evs s1" by (simp add: log_messages_def e m)
  have l: "log_lines api v u (e # evs) = (case lg_sprintf api fmt args of Inr m \<Rightarrow>
      if level_rank v \<le> level_rank w \<and> level_rank u \<le> level_rank w then [trim_trailing_newlines m] else [] | Inl e \<Rightarrow> []) @ log_lines api v u evs"
    by (simp add: log_lines_def e)
  show ?case
  proof (cases "log_lines api v u (e # evs) = log_lines api v u evs")
    case True
    then show ?thesis using hs l by (intro exI [of _ hs]) (auto simp: s split: sum.splits if_splits)
  next
    case False
    then show ?thesis using hs l by (intro exI [of _ "h # hs"]) (auto simp: s split: sum.splits if_splits)
  qed
qed

end

section \<open>A backend\<close>

text \<open>Files, sinks and loggers in the order of their creation. A line's header is the name of its level.\<close>

record spd =
  sp_files :: "string \<rightharpoonup> string"
  sp_sinks :: "(string option \<times> level_enum) list"
  sp_loggers :: "(level_enum \<times> addr list) list"
  sp_default :: "addr option"

definition nth_opt :: "'x list \<Rightarrow> addr \<rightharpoonup> 'x" where
  "nth_opt xs a = (if a < length xs then Some (xs ! a) else None)"

definition update_at :: "addr \<Rightarrow> ('x \<Rightarrow> 'x) \<Rightarrow> 'x list \<Rightarrow> 'x list" where
  "update_at a f xs = (if a < length xs then xs[a := f (xs ! a)] else xs)"

definition level_header :: "level_enum \<Rightarrow> string" where
  "level_header w = (case w of trace \<Rightarrow> ''[trace] '' | debug \<Rightarrow> ''[debug] '' | info \<Rightarrow> ''[info] '' | warn \<Rightarrow> ''[warning] '' | err \<Rightarrow> ''[error] ''
     | critical \<Rightarrow> ''[critical] '' | off \<Rightarrow> ''[off] '')"

definition emit_line :: "level_enum \<Rightarrow> string \<Rightarrow> string option \<times> level_enum \<Rightarrow> (string \<rightharpoonup> string) \<Rightarrow> string \<rightharpoonup> string" where
  "emit_line w m sk fs =
     (case sk of
        (Some p, u) \<Rightarrow> if level_rank u \<le> level_rank w then fs(p := map_option (\<lambda>c. c @ level_header w @ m @ [CHR 0x0A]) (fs p)) else fs
      | (None, u) \<Rightarrow> fs)"

definition emit_lines :: "(string option \<times> level_enum) list \<Rightarrow> level_enum \<Rightarrow> string \<Rightarrow> addr list \<Rightarrow> (string \<rightharpoonup> string) \<Rightarrow> string \<rightharpoonup> string" where
  "emit_lines sks w m ss fs = fold (\<lambda>f fs. case nth_opt sks f of None \<Rightarrow> fs | Some sk \<Rightarrow> emit_line w m sk fs) ss fs"

lemma emit_lines_other: "[f\<leftarrow>ss. \<exists>u. nth_opt sks f = Some (Some p, u)] = [] \<Longrightarrow> emit_lines sks w m ss fs p = fs p"
  by (induction ss arbitrary: fs) (auto simp: emit_lines_def emit_line_def split: option.splits if_splits)

lemma emit_lines_at:
  assumes "[f\<leftarrow>ss. \<exists>u. nth_opt sks f = Some (Some p, u)] = [f]" and "nth_opt sks f = Some (Some p, u)" and "fs p = Some c"
  shows "emit_lines sks w m ss fs p = Some (if level_rank u \<le> level_rank w then c @ level_header w @ m @ [CHR 0x0A] else c)"
  using assms
proof (induction ss arbitrary: fs)
  case (Cons g ss)
  have s: "emit_lines sks w m (g # ss) fs = emit_lines sks w m ss (case nth_opt sks g of None \<Rightarrow> fs | Some sk \<Rightarrow> emit_line w m sk fs)"
    by (simp add: emit_lines_def)
  show ?case
  proof (cases "\<exists>u. nth_opt sks g = Some (Some p, u)")
    case True
    then have "g = f" and "[f\<leftarrow>ss. \<exists>u. nth_opt sks f = Some (Some p, u)] = []" using Cons.prems(1) by auto
    then show ?thesis using Cons.prems(2,3) by (simp add: s [unfolded \<open>g = f\<close>] emit_lines_other emit_line_def)
  next
    case False
    have "(case nth_opt sks g of None \<Rightarrow> fs | Some sk \<Rightarrow> emit_line w m sk fs) p = Some c"
      using False Cons.prems(3) by (auto simp: emit_line_def split: option.splits)
    then show ?thesis using Cons.IH Cons.prems(1,2) False by (simp add: s)
  qed
qed simp

definition spd_api :: "(spd, string) log_api" where
  "spd_api =
     \<lparr>lg_default_logger = sp_default,
      lg_get = (\<lambda>n k. None),
      lg_stdout_color_mt = (\<lambda>n k. (length (sp_loggers k), k\<lparr>sp_loggers := sp_loggers k @ [(info, [])]\<rparr>)),
      lg_set_default_logger = (\<lambda>d k. k\<lparr>sp_default := d\<rparr>),
      lg_set_level = (\<lambda>l v k. k\<lparr>sp_loggers := update_at l (map_prod (\<lambda>_. v) id) (sp_loggers k)\<rparr>),
      lg_set_pattern = (\<lambda>l p k. k), lg_flush_on = (\<lambda>l v k. k),
      lg_should_log = (\<lambda>l w k. case nth_opt (sp_loggers k) l of None \<Rightarrow> False | Some (v, ss) \<Rightarrow> level_rank v \<le> level_rank w),
      lg_log = (\<lambda>l w m k. case nth_opt (sp_loggers k) l of None \<Rightarrow> k
         | Some (v, ss) \<Rightarrow> if level_rank v \<le> level_rank w then k\<lparr>sp_files := emit_lines (sp_sinks k) w m ss (sp_files k)\<rparr> else k),
      lg_logger = (\<lambda>n ss k. (length (sp_loggers k), k\<lparr>sp_loggers := sp_loggers k @ [(info, ss)]\<rparr>)),
      lg_file_sink = (\<lambda>p t k. if p = [] then (Inl ''Failed opening file'', k)
         else (Inr (length (sp_sinks k)), k\<lparr>sp_sinks := sp_sinks k @ [(Some p, trace)],
           sp_files := (sp_files k)(p \<mapsto> if t then [] else case sp_files k p of None \<Rightarrow> [] | Some c \<Rightarrow> c)\<rparr>)),
      lg_console_sink = (\<lambda>k. (length (sp_sinks k), k\<lparr>sp_sinks := sp_sinks k @ [(None, trace)]\<rparr>)),
      lg_sink_pattern = (\<lambda>f p k. k),
      lg_sink_level = (\<lambda>f v k. k\<lparr>sp_sinks := update_at f (map_prod id (\<lambda>_. v)) (sp_sinks k)\<rparr>),
      lg_sprintf = (\<lambda>fmt args. if fmt = ''%'' then Inl ''invalid format string'' else Inr (fmt @ concat args)),
      fs_path = (\<lambda>p. True),
      fs_exists = (\<lambda>p k. sp_files k p \<noteq> None),
      fs_file_size = (\<lambda>p k. map_option length (sp_files k p)),
      fs_open_trunc = (\<lambda>p k. if p = [] then (False, k) else (True, k\<lparr>sp_files := (sp_files k)(p \<mapsto> [])\<rparr>)),
      fs_write = (\<lambda>p b k. case sp_files k p of None \<Rightarrow> k | Some c \<Rightarrow> k\<lparr>sp_files := (sp_files k)(p \<mapsto> c @ b)\<rparr>)\<rparr>"

lemma nth_opt_snoc: "nth_opt (xs @ [x]) = (nth_opt xs)(length xs \<mapsto> x)" "nth_opt xs (length xs) = None"
  by (auto simp: nth_opt_def nth_append)

lemma nth_opt_update: "nth_opt (update_at a f xs) = (nth_opt xs)(a := map_option f (nth_opt xs a))"
  by (auto simp: nth_opt_def update_at_def)

interpretation spd: log_backend spd_api sp_files "\<lambda>k. nth_opt (sp_sinks k)" "\<lambda>k. nth_opt (sp_loggers k)" "[CHR 0x0A]"
proof
  fix k :: spd and l w v ss m p f u c
  assume a: "nth_opt (sp_loggers k) l = Some (v, ss)" "level_rank v \<le> level_rank w" "[f\<leftarrow>ss. \<exists>u. nth_opt (sp_sinks k) f = Some (Some p, u)] = [f]"
    "nth_opt (sp_sinks k) f = Some (Some p, u)" "sp_files k p = Some c"
  show "\<exists>h. sp_files (lg_log spd_api l w m k) p = Some (if level_rank u \<le> level_rank w then c @ h @ m @ [CHR 0x0A] else c)"
    by (rule exI [of _ "level_header w"]) (simp add: spd_api_def a emit_lines_at [where fs = "sp_files k", OF a(3-5)])
qed (auto simp: spd_api_def nth_opt_snoc nth_opt_update split: if_splits option.splits prod.splits)

section \<open>Messages reach the file\<close>


definition spd_init :: "spd log_state" where
  "spd_init = \<lparr>backend = \<lparr>sp_files = [''a.log'' \<mapsto> ''old''], sp_sinks = [], sp_loggers = [], sp_default = None\<rparr>, logger_storage = None\<rparr>"


end
