(* ===== verification/Usb_Context.thy ===== *)
theory Usb_Context
  imports Usb_Device
begin

text \<open>
  The context of libusb with its event thread, the text of its errors, and the operations of a device that are calls of libusb under a lock
  (\<^verbatim>\<open>io/usb_device.hpp\<close>).

  libusb is a parameter (\<open>libusb\<close>), its state a field. The event thread and the thread that owns the context interleave: a step of the event
  thread is one access to the flag \<open>_running\<close> or one call. \<open>ucalls\<close> records the calls that need the context.
\<close>

section \<open>Data\<close>

record 'k libusb =
  u_init :: "'k \<Rightarrow> (int \<times> addr option) \<times> 'k"
  u_exit :: "addr \<Rightarrow> 'k \<Rightarrow> 'k"
  u_handle_events_timeout :: "addr \<Rightarrow> nat \<Rightarrow> 'k \<Rightarrow> int \<times> 'k"
  u_set_log_level :: "addr \<Rightarrow> int \<Rightarrow> 'k \<Rightarrow> 'k"
  u_error_name :: "int \<Rightarrow> string option"
  u_open_device_with_vid_pid :: "addr option \<Rightarrow> 16 word \<Rightarrow> 16 word \<Rightarrow> 'k \<Rightarrow> addr option \<times> 'k"
  u_close :: "addr \<Rightarrow> 'k \<Rightarrow> 'k"
  u_claim_interface :: "addr option \<Rightarrow> int \<Rightarrow> 'k \<Rightarrow> int \<times> 'k"
  u_release_interface :: "addr option \<Rightarrow> int \<Rightarrow> 'k \<Rightarrow> int \<times> 'k"
  u_kernel_driver_active :: "addr option \<Rightarrow> int \<Rightarrow> 'k \<Rightarrow> int \<times> 'k"
  u_detach_kernel_driver :: "addr option \<Rightarrow> int \<Rightarrow> 'k \<Rightarrow> int \<times> 'k"
  u_control_transfer :: "addr option \<Rightarrow> 8 word \<Rightarrow> 8 word \<Rightarrow> 16 word \<Rightarrow> 16 word \<Rightarrow> addr \<Rightarrow> 16 word \<Rightarrow> 32 word \<Rightarrow> 'k \<Rightarrow> int \<times> 'k"

datatype event_pc = Ev_load | Ev_handle | Ev_recheck | Ev_sleep | Ev_end
datatype ctx_phase = Ctx_fresh | Ctx_alive | Ctx_stopping | Ctx_joined | Ctx_gone
datatype usb_call = U_handle addr | U_option addr | U_exit addr

record 'k uctx =
  ulib :: 'k
  uctx_ptr :: "addr option"
  urunning :: bool
  event_thread :: "event_pc option"
  uphase :: ctx_phase
  ucalls :: "usb_call list"

section \<open>Errors\<close>

text \<open>\<open>std::to_string\<close> of an \<open>int\<close>.\<close>

fun digits :: "nat \<Rightarrow> string" where
  "digits n = (if n < 10 then [char_of (48 + n)] else digits (n div 10) @ [char_of (48 + n mod 10)])"

declare digits.simps [simp del]

definition to_string :: "int \<Rightarrow> string" where
  "to_string n = (if n < 0 then CHR ''-'' # digits (nat (- n)) else digits (nat n))"

definition build_message :: "'k libusb \<Rightarrow> string \<Rightarrow> int \<Rightarrow> string" where
  "build_message api location code =
     location @ '' failed: '' @ (case u_error_name api code of Some n \<Rightarrow> n | None \<Rightarrow> ''unknown'') @ '' ('' @ to_string code @ '')''"

section \<open>The context\<close>

definition start_event_thread :: "'k uctx \<Rightarrow> 'k uctx" where
  "start_event_thread s = s\<lparr>urunning := True, event_thread := Some Ev_load\<rparr>"

definition usb_context_new :: "'k libusb \<Rightarrow> 'k uctx \<Rightarrow> (string + unit) \<times> 'k uctx" where
  "usb_context_new api s =
     (case u_init api (ulib s) of ((rc, p), k) \<Rightarrow>
        let s1 = s\<lparr>ulib := k, uctx_ptr := p\<rparr>
        in if rc \<noteq> 0 then (Inl (build_message api ''libusb_init'' rc), s1)
           else (Inr (), start_event_thread (s1\<lparr>uphase := Ctx_alive\<rparr>)))"

definition set_debug :: "'k libusb \<Rightarrow> int \<Rightarrow> 'k uctx \<Rightarrow> 'k uctx" where
  "set_debug api level s =
     (case uctx_ptr s of None \<Rightarrow> s | Some c \<Rightarrow> s\<lparr>ulib := u_set_log_level api c level (ulib s), ucalls := ucalls s @ [U_option c]\<rparr>)"

text \<open>The event thread: \<open>Ev_load\<close> is the test of the loop, \<open>Ev_recheck\<close> the one after an error.\<close>

definition event_loop_step :: "'k libusb \<Rightarrow> 'k uctx \<Rightarrow> 'k uctx" where
  "event_loop_step api s =
     (case event_thread s of
        Some Ev_load \<Rightarrow> s\<lparr>event_thread := Some (if urunning s \<and> uctx_ptr s \<noteq> None then Ev_handle else Ev_end)\<rparr>
      | Some Ev_handle \<Rightarrow>
          (case uctx_ptr s of
             None \<Rightarrow> s
           | Some c \<Rightarrow>
              (case u_handle_events_timeout api c 100000 (ulib s) of (rc, k) \<Rightarrow>
                 let s1 = s\<lparr>ulib := k, ucalls := ucalls s @ [U_handle c]\<rparr>
                 in if rc = LIBUSB_ERROR_INTERRUPTED then s1\<lparr>event_thread := Some Ev_load\<rparr>
                    else s1\<lparr>event_thread := Some (if rc < 0 then Ev_recheck else Ev_load)\<rparr>))
      | Some Ev_recheck \<Rightarrow> s\<lparr>event_thread := Some (if urunning s then Ev_sleep else Ev_load)\<rparr>
      | Some Ev_sleep \<Rightarrow> s\<lparr>event_thread := Some Ev_load\<rparr>
      | _ \<Rightarrow> s)"

text \<open>The destructor: the store and the join of \<open>stop_event_thread\<close>, then \<open>libusb_exit\<close>. Joining is possible when the thread has ended.\<close>

definition stop_store :: "'k uctx \<Rightarrow> 'k uctx" where
  "stop_store s = s\<lparr>urunning := False, uphase := Ctx_stopping\<rparr>"

definition stop_join :: "'k uctx \<Rightarrow> 'k uctx option" where
  "stop_join s = (if event_thread s = None \<or> event_thread s = Some Ev_end then Some (s\<lparr>uphase := Ctx_joined\<rparr>) else None)"

definition context_exit :: "'k libusb \<Rightarrow> 'k uctx \<Rightarrow> 'k uctx" where
  "context_exit api s =
     (let s1 = s\<lparr>uphase := Ctx_gone\<rparr>
      in case uctx_ptr s of None \<Rightarrow> s1 | Some c \<Rightarrow> s1\<lparr>ulib := u_exit api c (ulib s), ucalls := ucalls s @ [U_exit c]\<rparr>)"

text \<open>Schedules: the owner, the event thread, and whatever else changes the state of libusb.\<close>

inductive usb_ctx_step :: "'k libusb \<Rightarrow> 'k uctx \<Rightarrow> 'k uctx \<Rightarrow> bool" for api where
  construct: "uphase s = Ctx_fresh \<Longrightarrow> usb_context_new api s = (Inr (), s') \<Longrightarrow> usb_ctx_step api s s'"
| loop: "event_thread s \<noteq> None \<Longrightarrow> usb_ctx_step api s (event_loop_step api s)"
| debug: "uphase s = Ctx_alive \<Longrightarrow> usb_ctx_step api s (set_debug api level s)"
| store: "uphase s = Ctx_alive \<Longrightarrow> usb_ctx_step api s (stop_store s)"
| join: "uphase s = Ctx_stopping \<Longrightarrow> stop_join s = Some s' \<Longrightarrow> usb_ctx_step api s s'"
| exit: "uphase s = Ctx_joined \<Longrightarrow> usb_ctx_step api s (context_exit api s)"
| env: "usb_ctx_step api s (s\<lparr>ulib := k\<rparr>)"

inductive usb_ctx_reachable :: "'k libusb \<Rightarrow> 'k uctx \<Rightarrow> bool" for api where
  init: "uphase s = Ctx_fresh \<Longrightarrow> event_thread s = None \<Longrightarrow> ucalls s = [] \<Longrightarrow> usb_ctx_reachable api s"
| step: "usb_ctx_reachable api s \<Longrightarrow> usb_ctx_step api s s' \<Longrightarrow> usb_ctx_reachable api s'"

section \<open>The device\<close>

text \<open>\<open>open\<close> at the address \<open>d\<close> of the result. A handle that the constructor refuses is closed with its member.\<close>

definition usb_open ::
  "'k libusb \<Rightarrow> addr \<Rightarrow> addr \<Rightarrow> addr option \<Rightarrow> 16 word \<Rightarrow> 16 word \<Rightarrow> nat \<Rightarrow> nat \<Rightarrow> addr \<Rightarrow> addr \<Rightarrow> usb_heap \<Rightarrow> 'k \<Rightarrow> (usb_error + usb_heap) \<times> 'k" where
  "usb_open api d exec ctx vendor_id product_id tx_slots rx_slots tx rx hp k =
     (case u_open_device_with_vid_pid api ctx vendor_id product_id k of
        (None, k1) \<Rightarrow> (Inl Null_device_handle, k1)
      | (Some h, k1) \<Rightarrow>
          (case usb_device_new d exec (Some h) tx_slots rx_slots tx rx hp of
             Inl e \<Rightarrow> (Inl e, u_close api h k1)
           | Inr hp1 \<Rightarrow> (Inr hp1, k1)))"

definition claim_interface :: "'k libusb \<Rightarrow> addr \<Rightarrow> int \<Rightarrow> usb_heap \<Rightarrow> 'k \<Rightarrow> int \<times> 'k" where
  "claim_interface api d n hp k = u_claim_interface api (dev_handle (devs hp d)) n k"

definition release_interface :: "'k libusb \<Rightarrow> addr \<Rightarrow> int \<Rightarrow> usb_heap \<Rightarrow> 'k \<Rightarrow> int \<times> 'k" where
  "release_interface api d n hp k = u_release_interface api (dev_handle (devs hp d)) n k"

definition device_kernel_driver_active :: "'k libusb \<Rightarrow> addr \<Rightarrow> int \<Rightarrow> usb_heap \<Rightarrow> 'k \<Rightarrow> (string + bool) \<times> 'k" where
  "device_kernel_driver_active api d n hp k =
     (case u_kernel_driver_active api (dev_handle (devs hp d)) n k of (rc, k1) \<Rightarrow>
        (if rc < 0 then Inl (build_message api ''libusb_kernel_driver_active'' rc) else Inr (rc = 1), k1))"

definition detach_kernel_driver :: "'k libusb \<Rightarrow> addr \<Rightarrow> int \<Rightarrow> usb_heap \<Rightarrow> 'k \<Rightarrow> int \<times> 'k" where
  "detach_kernel_driver api d n hp k = u_detach_kernel_driver api (dev_handle (devs hp d)) n k"

definition control_transfer ::
  "'k libusb \<Rightarrow> addr \<Rightarrow> 8 word \<Rightarrow> 8 word \<Rightarrow> 16 word \<Rightarrow> 16 word \<Rightarrow> addr \<Rightarrow> 16 word \<Rightarrow> 32 word \<Rightarrow> usb_heap \<Rightarrow> 'k \<Rightarrow> int \<times> 'k" where
  "control_transfer api d bmRequestType bRequest wValue wIndex data wLength timeout_ms hp k =
     u_control_transfer api (dev_handle (devs hp d)) bmRequestType bRequest wValue wIndex data wLength timeout_ms k"

section \<open>The text of an error\<close>

text \<open>The number reads back.\<close>

definition read_digits :: "string \<Rightarrow> nat" where
  "read_digits = foldl (\<lambda>n c. 10 * n + (of_char c - 48)) 0"

lemma digits_read: "read_digits (digits n) = n"
proof (induction n rule: digits.induct)
  case (1 n)
  have d: "of_char (char_of (48 + m mod 10) :: char) - 48 = m mod 10" for m :: nat
  proof -
    have "48 + m mod 10 < 256" by (rule order.strict_trans1 [of _ 57]) (use mod_less_divisor [of 10 m] in linarith)+
    then show ?thesis by simp
  qed
  show ?case
  proof (cases "n < 10")
    case True
    then show ?thesis using d [of n] by (simp add: digits.simps [of n] read_digits_def)
  next
    case False
    then show ?thesis using 1 d [of n] by (simp add: digits.simps [of n] read_digits_def)
  qed
qed

lemma to_string_sign: "to_string n = (if n < 0 then ''-'' else []) @ digits (nat \<bar>n\<bar>)"
  by (simp add: to_string_def)

section \<open>The life of a context\<close>

definition uses_ctx :: "addr \<Rightarrow> usb_call \<Rightarrow> bool" where
  "uses_ctx c u \<longleftrightarrow> u = U_handle c \<or> u = U_option c"

text \<open>
  The calls before the exit all use the one context. From the join on the thread has ended; while the context lives and was made
  the thread has not.
\<close>

definition ctx_calls :: "addr option \<Rightarrow> bool \<Rightarrow> usb_call list \<Rightarrow> bool" where
  "ctx_calls p over us =
     (case p of
        None \<Rightarrow> us = []
      | Some c \<Rightarrow> if over then (\<exists>vs. us = vs @ [U_exit c] \<and> (\<forall>u\<in>set vs. uses_ctx c u)) else (\<forall>u\<in>set us. uses_ctx c u))"

definition ctx_inv :: "'k uctx \<Rightarrow> bool" where
  "ctx_inv s \<longleftrightarrow>
     (uphase s = Ctx_fresh \<longrightarrow> event_thread s = None \<and> ucalls s = []) \<and>
     (uphase s = Ctx_alive \<longrightarrow> urunning s \<and> (uctx_ptr s \<noteq> None \<longrightarrow> event_thread s \<noteq> Some Ev_end)) \<and>
     (uphase s = Ctx_stopping \<longrightarrow> \<not> urunning s) \<and>
     (uphase s \<noteq> Ctx_fresh \<longrightarrow> event_thread s \<noteq> None \<and> ctx_calls (uctx_ptr s) (uphase s = Ctx_gone) (ucalls s)) \<and>
     (event_thread s = Some Ev_handle \<longrightarrow> uctx_ptr s \<noteq> None) \<and>
     (uphase s \<in> {Ctx_joined, Ctx_gone} \<longrightarrow> event_thread s = Some Ev_end)"

lemma ctx_calls_simps:
  "ctx_calls p False []" "ctx_calls (Some c) False (us @ [u]) \<longleftrightarrow> ctx_calls (Some c) False us \<and> uses_ctx c u"
  "ctx_calls (Some c) False us \<Longrightarrow> ctx_calls (Some c) True (us @ [U_exit c])" "ctx_calls None g us \<longleftrightarrow> us = []"
  "uses_ctx c (U_handle c)" "uses_ctx c (U_option c)"
  by (auto simp: ctx_calls_def uses_ctx_def split: option.split)

lemma loop_ctx_inv:
  assumes "ctx_inv s" and "event_thread s = Some at"
  shows "ctx_inv (event_loop_step api s)"
proof (cases at)
  case Ev_handle
  then obtain c where c: "uctx_ptr s = Some c" using assms by (auto simp: ctx_inv_def)
  obtain rc k where h: "u_handle_events_timeout api c 100000 (ulib s) = (rc, k)" by fastforce
  have "uphase s \<noteq> Ctx_fresh" "uphase s \<noteq> Ctx_joined" "uphase s \<noteq> Ctx_gone" using assms Ev_handle by (auto simp: ctx_inv_def)
  then show ?thesis using assms c by (cases "uphase s") (simp_all add: event_loop_step_def Ev_handle h Let_def ctx_inv_def ctx_calls_simps)
qed (use assms in \<open>auto simp: event_loop_step_def ctx_inv_def\<close>)

lemma step_ctx_inv: "usb_ctx_step api s s' \<Longrightarrow> ctx_inv s \<Longrightarrow> ctx_inv s'"
proof (induction rule: usb_ctx_step.induct)
  case (construct s s')
  then obtain p k where "s' = start_event_thread (s\<lparr>ulib := k, uctx_ptr := p, uphase := Ctx_alive\<rparr>)"
    by (auto simp: usb_context_new_def Let_def split: prod.splits if_splits)
  then show ?case using construct by (simp add: start_event_thread_def ctx_inv_def ctx_calls_simps)
next
  case (loop s)
  then show ?case using loop_ctx_inv by blast
next
  case (debug s level)
  then show ?case by (cases "uctx_ptr s") (simp_all add: set_debug_def ctx_inv_def ctx_calls_simps)
next
  case (store s)
  then show ?case by (simp add: stop_store_def ctx_inv_def)
next
  case (join s s')
  then have "s' = s\<lparr>uphase := Ctx_joined\<rparr>" "event_thread s = Some Ev_end" by (auto simp: stop_join_def ctx_inv_def split: if_splits)
  then show ?case using join by (simp add: ctx_inv_def)
next
  case (exit s)
  then show ?case by (cases "uctx_ptr s") (simp_all add: context_exit_def ctx_inv_def ctx_calls_simps)
next
  case (env s k)
  then show ?case by (simp add: ctx_inv_def)
qed

lemma reachable_ctx_inv: "usb_ctx_reachable api s \<Longrightarrow> ctx_inv s"
proof (induction rule: usb_ctx_reachable.induct)
  case (step s s')
  then show ?case by (blast intro: step_ctx_inv)
qed (simp add: ctx_inv_def)

text \<open>How far a stopped thread is from its end.\<close>

fun ev_left :: "event_pc option \<Rightarrow> nat" where
  "ev_left (Some Ev_load) = 1"
| "ev_left (Some Ev_handle) = 3"
| "ev_left (Some Ev_recheck) = 2"
| "ev_left (Some Ev_sleep) = 2"
| "ev_left _ = 0"

lemma stopped_step:
  assumes "ctx_inv s" and "uphase s = Ctx_stopping" and "0 < ev_left (event_thread s)"
  shows "ctx_inv (event_loop_step api s)" "uphase (event_loop_step api s) = Ctx_stopping"
    and "ev_left (event_thread (event_loop_step api s)) < ev_left (event_thread s)"
proof -
  obtain at where t: "event_thread s = Some at" using assms(1,2) by (auto simp: ctx_inv_def)
  have h: "at = Ev_handle \<Longrightarrow> uctx_ptr s \<noteq> None" and r: "\<not> urunning s" using assms(1,2) t by (auto simp: ctx_inv_def)
  show "ctx_inv (event_loop_step api s)" by (rule loop_ctx_inv [OF assms(1) t])
  show "uphase (event_loop_step api s) = Ctx_stopping" "ev_left (event_thread (event_loop_step api s)) < ev_left (event_thread s)"
    using assms(2,3) h r t by (cases at; auto simp: event_loop_step_def Let_def split: prod.splits)+
qed

lemma stopped_ends:
  assumes "ctx_inv s" and "uphase s = Ctx_stopping"
  shows "\<exists>n \<le> ev_left (event_thread s). event_thread ((event_loop_step api ^^ n) s) = Some Ev_end"
  using assms
proof (induction "ev_left (event_thread s)" arbitrary: s rule: less_induct)
  case less
  show ?case
  proof (cases "ev_left (event_thread s) = 0")
    case True
    moreover have "event_thread s \<noteq> None" using less.prems by (auto simp: ctx_inv_def)
    ultimately have "event_thread s = Some Ev_end" by (cases "event_thread s" rule: ev_left.cases) auto
    then show ?thesis by (intro exI [of _ 0]) simp
  next
    case False
    note st = stopped_step [OF less.prems, of api]
    from False less.hyps st obtain n where "n \<le> ev_left (event_thread (event_loop_step api s))"
      "event_thread ((event_loop_step api ^^ n) (event_loop_step api s)) = Some Ev_end" by blast
    then show ?thesis using st(3) False by (intro exI [of _ "Suc n"]) (auto simp: funpow_Suc_right simp del: funpow.simps)
  qed
qed

text \<open>
  In every schedule of a context, libusb is called with the one context that \<open>libusb_init\<close> made, \<open>libusb_exit\<close> comes once and last, after
  the event thread has ended. Once the destructor has cleared the flag, the thread ends within three of its steps, one call to libusb among
  them, so that the join returns.
\<close>

theorem usb_context_lifecycle:
  assumes "usb_ctx_reachable api s" and "uphase s \<noteq> Ctx_fresh"
  shows "ctx_calls (uctx_ptr s) (uphase s = Ctx_gone) (ucalls s)"
    and "uphase s \<in> {Ctx_joined, Ctx_gone} \<Longrightarrow> event_thread s = Some Ev_end"
    and "uphase s = Ctx_stopping \<Longrightarrow> \<exists>n \<le> 3. stop_join ((event_loop_step api ^^ n) s) \<noteq> None"
proof -
  note inv = reachable_ctx_inv [OF assms(1)]
  show "ctx_calls (uctx_ptr s) (uphase s = Ctx_gone) (ucalls s)"
    and "uphase s \<in> {Ctx_joined, Ctx_gone} \<Longrightarrow> event_thread s = Some Ev_end"
    using inv assms(2) by (auto simp: ctx_inv_def)
  assume "uphase s = Ctx_stopping"
  from stopped_ends [OF inv this, of api] obtain n where n: "n \<le> ev_left (event_thread s)" "event_thread ((event_loop_step api ^^ n) s) = Some Ev_end" by blast
  have "ev_left (event_thread s) \<le> 3" by (cases "event_thread s" rule: ev_left.cases) auto
  then show "\<exists>n \<le> 3. stop_join ((event_loop_step api ^^ n) s) \<noteq> None" using n by (intro exI [of _ n]) (simp add: stop_join_def)
qed

end
