(* ===== verification/Route_Guard.thy ===== *)
theory Route_Guard
  imports Callback_Wq
begin

text \<open>
  Who keeps the state of a callback queue alive: the shared pointers of \<open>callback_wq\<close>, of the waiters routed to it, of its runner and of a running
  \<open>drain\<close> (\<^verbatim>\<open>io/callback_wq.hpp\<close>, \<^verbatim>\<open>io/io_waiter.hpp\<close>).

  The contents of a state are the subject of \<open>Callback_Wq\<close>; here a state is its address, \<open>refs\<close> are the shared pointers to it by holder, \<open>live\<close> the
  states not yet destroyed. An operation that would touch a destroyed state has the value \<open>None\<close>.
\<close>

section \<open>Data\<close>

datatype holder = Wrapper addr | Waiter addr | Runner addr | Frame nat

datatype drain_phase = Draining | Exited | Released

record routes =
  refs :: "(holder \<times> addr) list"
  live :: "addr list"
  route_ctx :: "addr \<Rightarrow> addr option"
  active :: "addr \<Rightarrow> bool"
  queued :: "addr \<Rightarrow> bool"
  frames :: "nat \<Rightarrow> (addr \<times> drain_phase) option"

section \<open>Shared pointers\<close>

definition use_count :: "addr option \<Rightarrow> routes \<Rightarrow> nat" where
  "use_count g s = (case g of None \<Rightarrow> 0 | Some st \<Rightarrow> length (filter (\<lambda>p. snd p = st) (refs s)))"

definition load_ref :: "holder \<Rightarrow> routes \<Rightarrow> addr option" where
  "load_ref h s = map_of (refs s) h"

text \<open>Assigning \<open>g\<close> to the pointer that \<open>h\<close> holds; the state that loses its last reference is destroyed.\<close>

definition put_ref :: "holder \<Rightarrow> addr option \<Rightarrow> routes \<Rightarrow> routes" where
  "put_ref h g s =
     (let old = map_of (refs s) h; r = (case g of None \<Rightarrow> [] | Some st \<Rightarrow> [(h, st)]) @ filter (\<lambda>p. fst p \<noteq> h) (refs s)
      in s\<lparr>refs := r, live := filter (\<lambda>x. old = Some x \<longrightarrow> x \<in> snd ` set r) (live s)\<rparr>)"

section \<open>The guard of a waiter\<close>

definition load_route_guard :: "addr \<Rightarrow> routes \<Rightarrow> addr option" where
  "load_route_guard w s = load_ref (Waiter w) s"

definition store_route_guard :: "addr \<Rightarrow> addr option \<Rightarrow> routes \<Rightarrow> routes" where
  "store_route_guard w g s = put_ref (Waiter w) g s"

definition exchange_route_guard :: "addr \<Rightarrow> addr option \<Rightarrow> routes \<Rightarrow> addr option \<times> routes" where
  "exchange_route_guard w g s = (load_route_guard w s, put_ref (Waiter w) g s)"

definition clear_route_guard :: "addr \<Rightarrow> routes \<Rightarrow> routes" where
  "clear_route_guard w s = snd (exchange_route_guard w None s)"

definition has_route_guard :: "addr \<Rightarrow> routes \<Rightarrow> bool" where
  "has_route_guard w s \<longleftrightarrow> load_route_guard w s \<noteq> None"

text \<open>The copy that is counted is one reference more.\<close>

definition adjust_use_count :: "addr option \<Rightarrow> nat \<Rightarrow> int" where
  "adjust_use_count g use = (if g = None then 0 else if use > 0 then int use - 1 else 0)"

definition route_guard_use_count :: "addr \<Rightarrow> routes \<Rightarrow> int" where
  "route_guard_use_count w s = (let g = load_route_guard w s in adjust_use_count g (if g = None then 0 else Suc (use_count g s)))"

section \<open>The queue\<close>

definition cbq_new :: "addr \<Rightarrow> addr \<Rightarrow> routes \<Rightarrow> routes" where
  "cbq_new q st s = put_ref (Wrapper q) (Some st) (s\<lparr>live := st # live s, active := (active s)(st := False), queued := (queued s)(st := False)\<rparr>)"

definition cbq_dtor :: "addr \<Rightarrow> routes \<Rightarrow> routes" where
  "cbq_dtor q s = put_ref (Wrapper q) None s"

definition context_of :: "addr \<Rightarrow> routes \<Rightarrow> addr option" where
  "context_of q s = load_ref (Wrapper q) s"

definition retain_guard :: "addr \<Rightarrow> routes \<Rightarrow> addr option" where
  "retain_guard q s = load_ref (Wrapper q) s"

text \<open>What the constructor of every awaiter does with the queue \<open>q\<close> of its owner, and what its destructor does.\<close>

definition route_init :: "addr \<Rightarrow> addr \<Rightarrow> routes \<Rightarrow> routes" where
  "route_init w q s =
     (let s1 = store_route_guard w (retain_guard q s) s in s1\<lparr>route_ctx := (route_ctx s1)(w := context_of q s1)\<rparr>)"

definition waiter_dtor :: "addr \<Rightarrow> routes \<Rightarrow> routes" where
  "waiter_dtor w s = put_ref (Waiter w) None (s\<lparr>route_ctx := (route_ctx s)(w := None)\<rparr>)"

text \<open>\<open>state::post\<close> as far as the lifetime goes: with \<open>already\<close> the waiter is queued, otherwise an idle state schedules its runner.\<close>

definition route_state_post :: "bool \<Rightarrow> addr \<Rightarrow> routes \<Rightarrow> routes option" where
  "route_state_post already st s =
     (if st \<notin> set (live s) then None
      else if already \<or> active s st then Some s
      else Some (put_ref (Runner st) (Some st) (s\<lparr>active := (active s)(st := True), queued := (queued s)(st := True)\<rparr>)))"

definition post_adapter :: "bool \<Rightarrow> addr option \<Rightarrow> routes \<Rightarrow> routes option" where
  "post_adapter already ctx s = (case ctx of None \<Rightarrow> Some s | Some st \<Rightarrow> route_state_post already st s)"

definition cbq_post :: "bool \<Rightarrow> addr \<Rightarrow> routes \<Rightarrow> routes option" where
  "cbq_post already q s = (case load_ref (Wrapper q) s of None \<Rightarrow> None | Some st \<Rightarrow> route_state_post already st s)"

text \<open>\<open>drain\<close> in the frame \<open>n\<close>: its start from the runner, its turns, the locked exit, the release of the runner's guard and the end of \<open>keep_alive\<close>.\<close>

definition drain_begin :: "nat \<Rightarrow> addr \<Rightarrow> routes \<Rightarrow> routes option" where
  "drain_begin n st s =
     (if st \<notin> set (live s) then None
      else Some (put_ref (Frame n) (load_ref (Runner st) s) (s\<lparr>queued := (queued s)(st := False), frames := (frames s)(n \<mapsto> (st, Draining))\<rparr>)))"

definition drain_turn :: "nat \<Rightarrow> routes \<Rightarrow> routes option" where
  "drain_turn n s = (case frames s n of Some (st, Draining) \<Rightarrow> if st \<in> set (live s) then Some s else None | _ \<Rightarrow> Some s)"

definition drain_exit :: "nat \<Rightarrow> routes \<Rightarrow> routes option" where
  "drain_exit n s =
     (case frames s n of
        Some (st, Draining) \<Rightarrow> if st \<notin> set (live s) then None else Some (s\<lparr>active := (active s)(st := False), frames := (frames s)(n \<mapsto> (st, Exited))\<rparr>)
      | _ \<Rightarrow> Some s)"

definition drain_release :: "nat \<Rightarrow> routes \<Rightarrow> routes option" where
  "drain_release n s =
     (case frames s n of
        Some (st, Exited) \<Rightarrow>
          if st \<notin> set (live s) then None
          else let s1 = (if load_ref (Runner st) s = load_ref (Frame n) s then put_ref (Runner st) None s else s)
               in Some (s1\<lparr>frames := (frames s1)(n \<mapsto> (st, Released))\<rparr>)
      | _ \<Rightarrow> Some s)"

definition drain_return :: "nat \<Rightarrow> routes \<Rightarrow> routes" where
  "drain_return n s = (case frames s n of Some (st, Released) \<Rightarrow> put_ref (Frame n) None (s\<lparr>frames := (frames s)(n := None)\<rparr>) | _ \<Rightarrow> s)"

section \<open>Schedules\<close>

text \<open>
  The steps of the program. Queues and waiters come and go in any order; a waiter is made only while its queue exists. In \<open>leave\<close> the release of the
  guard follows the locked exit at once: the other order is the race at the end of this theory.
\<close>

datatype route_op = New_queue addr addr | Drop_queue addr | New_waiter addr addr | Drop_waiter addr | Post addr bool | Post_queue addr bool
  | Begin nat addr | Turn nat | Leave nat | Return nat

definition route_enabled :: "route_op \<Rightarrow> routes \<Rightarrow> bool" where
  "route_enabled oper s =
     (case oper of
        New_queue q st \<Rightarrow> load_ref (Wrapper q) s = None \<and> st \<notin> set (live s)
      | Drop_queue q \<Rightarrow> True
      | New_waiter w q \<Rightarrow> load_ref (Wrapper q) s \<noteq> None \<and> load_ref (Waiter w) s = None
      | Drop_waiter w \<Rightarrow> True
      | Post w already \<Rightarrow> True
      | Post_queue q already \<Rightarrow> load_ref (Wrapper q) s \<noteq> None
      | Begin n st \<Rightarrow> queued s st \<and> frames s n = None
      | Turn n \<Rightarrow> True
      | Leave n \<Rightarrow> True
      | Return n \<Rightarrow> True)"

definition route_run :: "route_op \<Rightarrow> routes \<Rightarrow> routes option" where
  "route_run oper s =
     (case oper of
        New_queue q st \<Rightarrow> Some (cbq_new q st s)
      | Drop_queue q \<Rightarrow> Some (cbq_dtor q s)
      | New_waiter w q \<Rightarrow> Some (route_init w q s)
      | Drop_waiter w \<Rightarrow> Some (waiter_dtor w s)
      | Post w already \<Rightarrow> post_adapter already (route_ctx s w) s
      | Post_queue q already \<Rightarrow> cbq_post already q s
      | Begin n st \<Rightarrow> drain_begin n st s
      | Turn n \<Rightarrow> drain_turn n s
      | Leave n \<Rightarrow> Option.bind (drain_exit n s) (drain_release n)
      | Return n \<Rightarrow> Some (drain_return n s))"

definition routes_init :: routes where
  "routes_init = \<lparr>refs = [], live = [], route_ctx = (\<lambda>_. None), active = (\<lambda>_. False), queued = (\<lambda>_. False), frames = (\<lambda>_. None)\<rparr>"

inductive route_reachable :: "routes \<Rightarrow> bool" where
  init: "route_reachable routes_init"
| step: "route_reachable s \<Longrightarrow> route_enabled oper s \<Longrightarrow> route_run oper s = Some s' \<Longrightarrow> route_reachable s'"

section \<open>Invariant\<close>

lemma load_put [simp]: "load_ref k (put_ref h g s) = (if k = h then g else load_ref k s)"
proof -
  have "map_of (filter (\<lambda>p. fst p \<noteq> h) r) k = (if k = h then None else map_of r k)" for r :: "(holder \<times> addr) list"
    by (induction r) auto
  then show ?thesis by (cases g) (auto simp: put_ref_def load_ref_def Let_def)
qed

lemma put_rest [simp]: "route_ctx (put_ref h g s) = route_ctx s" "active (put_ref h g s) = active s" "queued (put_ref h g s) = queued s"
  "frames (put_ref h g s) = frames s"
  by (simp_all add: put_ref_def Let_def)

definition ref_inv :: "routes \<Rightarrow> bool" where
  "ref_inv s \<longleftrightarrow> distinct (map fst (refs s)) \<and> (\<forall>st. st \<in> set (live s) \<longleftrightarrow> (\<exists>h. load_ref h s = Some st))"

lemma ref_inv_refs: "distinct (map fst (refs s)) \<Longrightarrow> st \<in> snd ` set (refs s) \<longleftrightarrow> (\<exists>h. load_ref h s = Some st)"
  by (force simp: load_ref_def)

lemma put_ref_inv:
  assumes "ref_inv s" and "\<And>st. g = Some st \<Longrightarrow> st \<in> set (live s)"
  shows "ref_inv (put_ref h g s)"
proof -
  let ?s = "put_ref h g s"
  have d: "distinct (map fst (refs ?s))"
    using assms(1) by (auto simp: ref_inv_def put_ref_def Let_def distinct_map_filter split: option.splits)
  note r = ref_inv_refs [OF d]
  have live: "st \<in> set (live ?s) \<longleftrightarrow> st \<in> set (live s) \<and> (load_ref h s = Some st \<longrightarrow> st \<in> snd ` set (refs ?s))" for st
    by (auto simp: put_ref_def Let_def load_ref_def)
  have "st \<in> set (live ?s) \<longleftrightarrow> (\<exists>k. load_ref k ?s = Some st)" for st
  proof
    assume l: "st \<in> set (live ?s)"
    then obtain k where k: "load_ref k s = Some st" using assms(1) live by (auto simp: ref_inv_def)
    show "\<exists>k. load_ref k ?s = Some st"
    proof (cases "k = h")
      case True
      then show ?thesis using l live k r by blast
    next
      case False
      then show ?thesis using k by (intro exI [of _ k]) simp
    qed
  next
    assume e: "\<exists>k. load_ref k ?s = Some st"
    then have "st \<in> set (live s)" using assms by (auto simp: ref_inv_def split: if_splits)
    then show "st \<in> set (live ?s)" using live e r by blast
  qed
  then show ?thesis using d by (simp add: ref_inv_def)
qed

lemma ref_inv_more: "ref_inv s \<Longrightarrow> ref_inv (s\<lparr>route_ctx := c, active := ac, queued := qu, frames := f\<rparr>)"
  by (simp add: ref_inv_def load_ref_def)

lemma load_rest [simp]: "load_ref h (s\<lparr>route_ctx := c\<rparr>) = load_ref h s" "load_ref h (s\<lparr>active := ac\<rparr>) = load_ref h s"
  "load_ref h (s\<lparr>queued := qu\<rparr>) = load_ref h s" "load_ref h (s\<lparr>frames := f\<rparr>) = load_ref h s" "load_ref h (s\<lparr>live := l\<rparr>) = load_ref h s"
  by (simp_all add: load_ref_def)

lemma ref_inv_rest [simp]: "ref_inv (s\<lparr>route_ctx := c\<rparr>) = ref_inv s" "ref_inv (s\<lparr>active := ac\<rparr>) = ref_inv s"
  "ref_inv (s\<lparr>queued := qu\<rparr>) = ref_inv s" "ref_inv (s\<lparr>frames := f\<rparr>) = ref_inv s"
  by (simp_all add: ref_inv_def)

lemma live_ref: "ref_inv s \<Longrightarrow> load_ref h s = Some st \<Longrightarrow> st \<in> set (live s)"
  by (auto simp: ref_inv_def)

text \<open>
  A routed waiter holds a reference to its context; the runner holds one exactly while the queue is active, which it is while its runner is queued or
  its drain runs; a drain holds one to its end.
\<close>

definition route_inv :: "routes \<Rightarrow> bool" where
  "route_inv s \<longleftrightarrow> ref_inv s \<and> (\<forall>w st. route_ctx s w = Some st \<longrightarrow> load_ref (Waiter w) s = Some st) \<and>
     (\<forall>st. load_ref (Runner st) s = (if active s st then Some st else None)) \<and>
     (\<forall>st. queued s st \<longrightarrow> active s st) \<and>
     (\<forall>n st p. frames s n = Some (st, p) \<longrightarrow> p \<noteq> Exited \<and> load_ref (Frame n) s = Some st) \<and>
     (\<forall>n st. frames s n = Some (st, Draining) \<longrightarrow> active s st \<and> \<not> queued s st) \<and>
     (\<forall>n m st. frames s n = Some (st, Draining) \<longrightarrow> frames s m = Some (st, Draining) \<longrightarrow> n = m)"

lemma route_facts:
  assumes "route_inv s"
  shows "ref_inv s" "load_ref h s = Some st \<Longrightarrow> st \<in> set (live s)" "load_ref (Runner st) s = (if active s st then Some st else None)"
    "queued s st \<Longrightarrow> active s st" "frames s n = Some (st, p) \<Longrightarrow> p \<noteq> Exited" "frames s n = Some (st, p) \<Longrightarrow> load_ref (Frame n) s = Some st"
    "frames s n = Some (st, Draining) \<Longrightarrow> active s st \<and> \<not> queued s st"
proof -
  show "ref_inv s" using assms by (simp add: route_inv_def)
  then show "load_ref h s = Some st \<Longrightarrow> st \<in> set (live s)" by (rule live_ref)
qed (use assms in \<open>simp_all add: route_inv_def\<close>)

lemma new_ref_inv:
  assumes "ref_inv s" and "load_ref (Wrapper q) s = None"
  shows "ref_inv (cbq_new q st s)"
proof -
  have n: "Wrapper q \<notin> fst ` set (refs s)" using assms(2) by (simp add: load_ref_def map_of_eq_None_iff)
  then have f: "filter (\<lambda>p. fst p \<noteq> Wrapper q) (refs s) = refs s" by (intro filter_True) force
  have r: "refs (cbq_new q st s) = (Wrapper q, st) # refs s" "live (cbq_new q st s) = st # live s"
    using assms(2) f by (simp_all add: cbq_new_def put_ref_def Let_def load_ref_def)
  then have l: "load_ref h (cbq_new q st s) = (if h = Wrapper q then Some st else load_ref h s)" for h by (simp add: load_ref_def)
  have "x \<in> set (live (cbq_new q st s)) \<longleftrightarrow> (\<exists>h. load_ref h (cbq_new q st s) = Some x)" for x
  proof (cases "x = st")
    case False
    have "(\<exists>h. load_ref h (cbq_new q st s) = Some x) \<longleftrightarrow> (\<exists>h. load_ref h s = Some x)"
      using l assms(2) False by (metis option.distinct(1) option.inject)
    then show ?thesis using assms(1) False by (simp add: r(2) ref_inv_def)
  qed (use l in \<open>auto simp: r(2)\<close>)
  then show ?thesis using assms(1) n by (simp add: ref_inv_def r(1))
qed

lemma post_inv:
  assumes "route_inv s" and "load_ref h s = Some st"
  shows "\<exists>s'. route_state_post already st s = Some s' \<and> route_inv s'"
proof -
  have l: "st \<in> set (live s)" by (rule route_facts(2) [OF assms])
  show ?thesis
  proof (cases "already \<or> active s st")
    case True
    then show ?thesis using assms(1) l by (auto simp: route_state_post_def)
  next
    case False
    let ?s = "put_ref (Runner st) (Some st) (s\<lparr>active := (active s)(st := True), queued := (queued s)(st := True)\<rparr>)"
    have "ref_inv ?s" using assms(1) l by (intro put_ref_inv) (simp_all add: route_inv_def)
    then have "route_inv ?s" using assms(1) False unfolding route_inv_def by (auto simp: fun_upd_def)
    then show ?thesis using False l by (auto simp: route_state_post_def)
  qed
qed

lemma begin_inv:
  assumes "route_inv s" and "queued s st" and "frames s n = None"
  shows "\<exists>s'. drain_begin n st s = Some s' \<and> route_inv s'"
proof -
  have a: "active s st" and r: "load_ref (Runner st) s = Some st" using assms by (simp_all add: route_inv_def)
  then have l: "st \<in> set (live s)" using route_facts(2) [OF assms(1)] by blast
  let ?s = "put_ref (Frame n) (Some st) (s\<lparr>queued := (queued s)(st := False), frames := (frames s)(n \<mapsto> (st, Draining))\<rparr>)"
  have "ref_inv ?s" using assms(1) l by (intro put_ref_inv) (simp_all add: route_inv_def)
  moreover have "frames s m \<noteq> Some (st, Draining)" for m using assms(1,2) by (auto simp: route_inv_def)
  ultimately have "route_inv ?s" using assms a unfolding route_inv_def by auto
  then show ?thesis using l r by (auto simp: drain_begin_def)
qed

lemma leave_inv:
  assumes "route_inv s"
  shows "\<exists>s'. Option.bind (drain_exit n s) (drain_release n) = Some s' \<and> route_inv s'"
proof (cases "\<exists>st. frames s n = Some (st, Draining)")
  case True
  then obtain st where f: "frames s n = Some (st, Draining)" by blast
  have a: "active s st" "\<not> queued s st" and fr: "load_ref (Frame n) s = Some st" and r: "load_ref (Runner st) s = Some st"
    using assms f by (auto simp: route_inv_def)
  then have l: "st \<in> set (live s)" using route_facts(2) [OF assms(1)] by blast
  let ?e = "s\<lparr>active := (active s)(st := False), frames := (frames s)(n \<mapsto> (st, Exited))\<rparr>"
  let ?s = "(put_ref (Runner st) None ?e)\<lparr>frames := (frames s)(n \<mapsto> (st, Released))\<rparr>"
  have "ref_inv ?s" using assms by (auto simp: route_inv_def intro: put_ref_inv)
  moreover have "frames s m = Some (st, Draining) \<Longrightarrow> m = n" for m using assms f unfolding route_inv_def by blast
  ultimately have "route_inv ?s" using assms a fr unfolding route_inv_def by (auto split: if_splits)
  then show ?thesis using f l r fr by (auto simp: drain_exit_def drain_release_def)
next
  case False
  have "frames s n \<noteq> Some (st, Exited)" for st using route_facts(5) [OF assms] by blast
  with False have "drain_exit n s = Some s" "drain_release n s = Some s"
    by (auto simp: drain_exit_def drain_release_def split: option.splits drain_phase.splits)
  then show ?thesis using assms by simp
qed

text \<open>Every enabled step touches only living states and keeps the invariant.\<close>

lemma route_progress:
  assumes "route_inv s" and "route_enabled oper s"
  shows "\<exists>s'. route_run oper s = Some s' \<and> route_inv s'"
proof (cases oper)
  case (New_queue q st)
  then have n: "load_ref (Wrapper q) s = None" "st \<notin> set (live s)" using assms(2) by (simp_all add: route_enabled_def)
  have a: "\<not> active s st" using route_facts(2,3) [OF assms(1)] n(2) by metis
  have fr: "frames s m \<noteq> Some (st, p)" for m p using route_facts(2,6) [OF assms(1)] n(2) by blast
  have "ref_inv (cbq_new q st s)" using assms(1) n by (intro new_ref_inv) (simp_all add: route_inv_def)
  then have "route_inv (cbq_new q st s)" using assms(1) a fr unfolding route_inv_def by (auto simp: cbq_new_def)
  then show ?thesis by (simp add: New_queue route_run_def)
next
  case (Drop_queue q)
  have "ref_inv (cbq_dtor q s)" using assms(1) by (auto simp: cbq_dtor_def route_inv_def intro: put_ref_inv)
  then show ?thesis using assms(1) by (auto simp: Drop_queue route_run_def route_inv_def cbq_dtor_def)
next
  case (New_waiter w q)
  then obtain st where st: "load_ref (Wrapper q) s = Some st" using assms(2) by (auto simp: route_enabled_def)
  then have "st \<in> set (live s)" by (rule route_facts(2) [OF assms(1)])
  then have "ref_inv (route_init w q s)" using assms(1) st
    by (auto simp: route_init_def store_route_guard_def retain_guard_def route_inv_def Let_def intro: put_ref_inv)
  then show ?thesis using assms(1) st
    by (auto simp: New_waiter route_run_def route_inv_def route_init_def store_route_guard_def retain_guard_def context_of_def Let_def)
next
  case (Drop_waiter w)
  have "ref_inv (waiter_dtor w s)" using assms(1) by (auto simp: waiter_dtor_def route_inv_def intro: put_ref_inv)
  then show ?thesis using assms(1) by (auto simp: Drop_waiter route_run_def route_inv_def waiter_dtor_def)
next
  case (Post w already)
  show ?thesis
  proof (cases "route_ctx s w")
    case None
    then show ?thesis using assms(1) by (simp add: Post route_run_def post_adapter_def)
  next
    case (Some st)
    then show ?thesis using assms(1) post_inv [OF assms(1), of "Waiter w" st already]
      by (simp add: Post route_run_def post_adapter_def route_inv_def)
  qed
next
  case (Post_queue q already)
  then show ?thesis using assms post_inv [OF assms(1), of "Wrapper q" _ already] by (auto simp: route_run_def cbq_post_def route_enabled_def)
next
  case (Begin n st)
  then show ?thesis using begin_inv [OF assms(1)] assms(2) by (simp add: route_run_def route_enabled_def)
next
  case (Turn n)
  have "frames s n = Some (st, p) \<Longrightarrow> st \<in> set (live s)" for st p using route_facts(2,6) [OF assms(1)] by blast
  then have "drain_turn n s = Some s" by (auto simp: drain_turn_def split: option.splits drain_phase.splits)
  then show ?thesis using assms(1) by (simp add: Turn route_run_def)
next
  case (Leave n)
  then show ?thesis using leave_inv [OF assms(1)] by (simp add: route_run_def)
next
  case (Return n)
  have "route_inv (drain_return n s)"
  proof (cases "\<exists>st. frames s n = Some (st, Released)")
    case True
    then obtain st where f: "frames s n = Some (st, Released)" by blast
    have "ref_inv (drain_return n s)" using assms(1) f by (auto simp: drain_return_def route_inv_def intro: put_ref_inv)
    then show ?thesis using assms(1) f unfolding route_inv_def by (auto simp: drain_return_def)
  qed (use assms(1) in \<open>auto simp: drain_return_def split: option.splits prod.splits drain_phase.splits\<close>)
  then show ?thesis by (simp add: Return route_run_def)
qed

lemma reachable_route_inv: "route_reachable s \<Longrightarrow> route_inv s"
proof (induction rule: route_reachable.induct)
  case (step s oper s')
  then show ?case using route_progress by force
qed (simp add: routes_init_def route_inv_def ref_inv_def load_ref_def)

section \<open>Lifetime of a callback queue\<close>

text \<open>
  C16: whatever queues and waiters are made and destroyed, posted and drained, in any order in which no post comes between the locked exit of a drain and the
  release of its guard, no step touches a state that was destroyed: a routed waiter, a queued runner and a running drain each keep it alive. Nothing
  leaks: a state whose queue and waiters are gone is destroyed as soon as its runner is not queued and its drain has returned.
\<close>

theorem route_target_alive:
  assumes "route_reachable s"
  shows "(route_enabled oper s \<longrightarrow> (\<exists>s'. route_run oper s = Some s' \<and> route_reachable s')) \<and>
    (st \<in> set (live s) \<longrightarrow> (\<exists>q. load_ref (Wrapper q) s = Some st) \<or> (\<exists>w. load_ref (Waiter w) s = Some st) \<or> active s st \<or>
      (\<exists>n. load_ref (Frame n) s = Some st))"
proof (intro conjI impI)
  note inv = reachable_route_inv [OF assms]
  show "route_enabled oper s \<Longrightarrow> \<exists>s'. route_run oper s = Some s' \<and> route_reachable s'"
    using route_progress [OF inv] route_reachable.step [OF assms] by blast
  assume "st \<in> set (live s)"
  then obtain h where "load_ref h s = Some st" using inv by (auto simp: route_inv_def ref_inv_def)
  then show "(\<exists>q. load_ref (Wrapper q) s = Some st) \<or> (\<exists>w. load_ref (Waiter w) s = Some st) \<or> active s st \<or> (\<exists>n. load_ref (Frame n) s = Some st)"
    using inv by (cases h) (auto simp: route_inv_def split: if_splits)
qed

theorem route_target_alive_witness:
  "\<exists>s'. route_run (Post 20 False) (route_init 20 10 (cbq_new 10 1 routes_init)) = Some s' \<and> route_reachable s'"
proof -
  have "route_reachable (cbq_new 10 1 routes_init)"
    by (rule route_reachable.step [OF route_reachable.init, of "New_queue 10 1"])
      (simp_all add: route_enabled_def route_run_def routes_init_def load_ref_def)
  then have "route_reachable (route_init 20 10 (cbq_new 10 1 routes_init))"
    by (rule route_reachable.step [of _ "New_waiter 20 10"])
      (simp_all add: route_enabled_def route_run_def cbq_new_def, simp add: routes_init_def load_ref_def)
  then show ?thesis using route_target_alive [of _ "Post 20 False"] by (simp add: route_enabled_def)
qed

text \<open>
  The race of \<open>drain\<close>: a post between the locked exit and the release schedules the runner again and loses its guard. When the waiters and
  the queue are gone, the state is destroyed with its runner still in the executor.
\<close>

lemma route_race_use_after_free:
  "\<exists>s. Option.bind (Option.bind (Option.bind (Option.bind
      (post_adapter False (Some 1) (route_init 21 10 (route_init 20 10 (cbq_new 10 1 routes_init))))
      (drain_begin 0 1)) (drain_exit 0)) (post_adapter False (Some 1))) (drain_release 0) = Some s \<and>
    (let t = cbq_dtor 10 (waiter_dtor 21 (waiter_dtor 20 (drain_return 0 s))) in queued t 1 \<and> drain_begin 1 1 t = None)"
  by (simp add: post_adapter_def route_state_post_def route_init_def store_route_guard_def retain_guard_def context_of_def cbq_new_def routes_init_def
      drain_begin_def drain_exit_def drain_release_def drain_return_def waiter_dtor_def cbq_dtor_def put_ref_def load_ref_def Let_def) auto

end
