(* ===== verification/Service_Loop.thy ===== *)
theory Service_Loop
  imports Prelude
begin

text \<open>
  An object with a thread of its own: the constructor starts it, the destructor clears a flag, joins it and frees what it used. The contexts of libusb and both
  reactors are built like this.
\<close>

datatype svc_phase = Svc_alive | Svc_stopping | Svc_joined | Svc_gone

text \<open>
  A step of the thread (\<open>loop\<close>), of the program while the object lives (\<open>other\<close>), or of the destructor: \<open>stop\<close> clears the flag, the join waits until the thread
  has \<open>ended\<close>, \<open>free\<close> comes last.
\<close>

record 's service =
  sv_loop :: "'s \<Rightarrow> 's"
  sv_other :: "'s \<Rightarrow> 's \<Rightarrow> bool"
  sv_stop :: "'s \<Rightarrow> 's"
  sv_ended :: "'s \<Rightarrow> bool"
  sv_free :: "'s \<Rightarrow> 's"

inductive svc_step :: "'s service \<Rightarrow> svc_phase \<times> 's \<Rightarrow> svc_phase \<times> 's \<Rightarrow> bool" for c where
  loop: "svc_step c (p, s) (p, sv_loop c s)"
| other: "sv_other c s s' \<Longrightarrow> svc_step c (Svc_alive, s) (Svc_alive, s')"
| stop: "svc_step c (Svc_alive, s) (Svc_stopping, sv_stop c s)"
| join: "sv_ended c s \<Longrightarrow> svc_step c (Svc_stopping, s) (Svc_joined, s)"
| free: "svc_step c (Svc_joined, s) (Svc_gone, sv_free c s)"

inductive svc_reachable :: "'s service \<Rightarrow> 's \<Rightarrow> svc_phase \<times> 's \<Rightarrow> bool" for c s0 where
  start: "svc_reachable c s0 (Svc_alive, s0)"
| step: "svc_reachable c s0 x \<Longrightarrow> svc_step c x y \<Longrightarrow> svc_reachable c s0 y"

text \<open>
  What such an object promises: \<open>inv\<close> holds from the constructor to the join, \<open>gone\<close> afterwards; a thread that has ended does nothing; a stopped one comes
  nearer to its end (\<open>left\<close>) with each step.
\<close>

locale service =
  fixes c :: "'s service" and inv gone stopped :: "'s \<Rightarrow> bool" and left :: "'s \<Rightarrow> nat"
  assumes loop_inv: "inv s \<Longrightarrow> inv (sv_loop c s)"
    and other_inv: "inv s \<Longrightarrow> sv_other c s s' \<Longrightarrow> inv s'"
    and stop_inv: "inv s \<Longrightarrow> inv (sv_stop c s)" "stopped (sv_stop c s)"
    and stopped_loop: "stopped s \<Longrightarrow> stopped (sv_loop c s)"
    and ended_loop: "sv_ended c s \<Longrightarrow> sv_loop c s = s"
    and free_gone: "inv s \<Longrightarrow> sv_ended c s \<Longrightarrow> gone (sv_free c s) \<and> sv_ended c (sv_free c s)"
    and nearer: "inv s \<Longrightarrow> stopped s \<Longrightarrow> \<not> sv_ended c s \<Longrightarrow> left (sv_loop c s) < left s"
begin

text \<open>What holds in each phase.\<close>

definition phase_inv :: "svc_phase \<times> 's \<Rightarrow> bool" where
  "phase_inv = (\<lambda>(p, s). case p of
     Svc_alive \<Rightarrow> inv s | Svc_stopping \<Rightarrow> inv s \<and> stopped s | Svc_joined \<Rightarrow> inv s \<and> sv_ended c s | Svc_gone \<Rightarrow> gone s \<and> sv_ended c s)"

lemma step_phase: "svc_step c x y \<Longrightarrow> phase_inv x \<Longrightarrow> phase_inv y"
proof (induction rule: svc_step.induct)
  case (loop p s)
  then show ?case by (cases p) (auto simp: phase_inv_def loop_inv stopped_loop ended_loop)
qed (auto simp: phase_inv_def stop_inv free_gone intro: other_inv)

lemma service_phases: "svc_reachable c s0 x \<Longrightarrow> inv s0 \<Longrightarrow> phase_inv x"
  by (induction rule: svc_reachable.induct) (auto intro: step_phase, simp add: phase_inv_def)

lemma thread_ends:
  assumes "inv s" and "stopped s"
  shows "\<exists>n \<le> left s. sv_ended c ((sv_loop c ^^ n) s)"
  using assms
proof (induction "left s" arbitrary: s rule: less_induct)
  case less
  show ?case
  proof (cases "sv_ended c s")
    case True
    then show ?thesis by (intro exI [of _ 0]) simp
  next
    case False
    note n = nearer [OF less.prems False]
    from less.hyps [OF n loop_inv [OF less.prems(1)] stopped_loop [OF less.prems(2)]] obtain m
      where "m \<le> left (sv_loop c s)" "sv_ended c ((sv_loop c ^^ m) (sv_loop c s))" by blast
    then show ?thesis using n by (intro exI [of _ "Suc m"]) (auto simp: funpow_Suc_right simp del: funpow.simps)
  qed
qed

text \<open>The join of a destructor returns.\<close>

lemma join_returns: "svc_reachable c s0 (Svc_stopping, s) \<Longrightarrow> inv s0 \<Longrightarrow> \<exists>n \<le> left s. sv_ended c ((sv_loop c ^^ n) s)"
  using service_phases [of s0 "(Svc_stopping, s)"] thread_ends by (simp add: phase_inv_def)

end

end
