(* ===== verification/Reactor_Life.thy ===== *)
theory Reactor_Life
  imports Service_Loop
begin

text \<open>
  The threads of the reactors: construction and destruction of \<open>epoll_reactor\<close> (\<^verbatim>\<open>io/epoll_reactor.hpp\<close>) and \<open>iocp_reactor\<close>
  (\<^verbatim>\<open>io/iocp_reactor.hpp\<close>) and the control flow of their loops. What a turn does to the table of descriptors is the subject of \<open>Epoll_Reactor\<close> and
  \<open>Iocp_Reactor\<close>; here a turn is its calls on the handles.
\<close>

section \<open>Data\<close>

datatype handle_call = C_wait addr | C_pump addr | C_post addr | C_close_epoll addr | C_close_port addr

record 'k reactor_os =
  ro_epoll_create :: "'k \<Rightarrow> addr option \<times> 'k"
  ro_epoll_wait :: "addr \<Rightarrow> nat \<Rightarrow> 'k \<Rightarrow> (int + nat) \<times> 'k"
  ro_epoll_close :: "addr \<Rightarrow> 'k \<Rightarrow> 'k"
  ro_create_port :: "'k \<Rightarrow> addr option \<times> 'k"
  ro_get_status :: "addr \<Rightarrow> nat \<Rightarrow> 'k \<Rightarrow> addr option option \<times> 'k"
  ro_post_status :: "addr \<Rightarrow> 'k \<Rightarrow> 'k"
  ro_close_handle :: "addr \<Rightarrow> 'k \<Rightarrow> 'k"
  ro_wsa_startup :: "'k \<Rightarrow> int \<times> 'k"

datatype pump = First | Idle | Final

datatype loop_pc = Lp_load | Pump_load pump nat | Pump_get pump nat | Lp_wait | Lp_ready | Lp_after nat | Lp_end

record 'k rlife =
  rk :: 'k
  r_epoll :: "addr option"
  r_port :: "addr option"
  r_running :: bool
  r_thread :: loop_pc
  r_wsa :: bool
  r_calls :: "handle_call list"

definition R_EINTR :: int where "R_EINTR = 4"

definition note_call :: "handle_call \<Rightarrow> 'k \<Rightarrow> 'k rlife \<Rightarrow> 'k rlife" where
  "note_call x k s = s\<lparr>rk := k, r_calls := r_calls s @ [x]\<rparr>"

section \<open>The epoll reactor\<close>

definition epoll_reactor_new :: "'k reactor_os \<Rightarrow> 'k rlife \<Rightarrow> (string + unit) \<times> 'k rlife" where
  "epoll_reactor_new os s =
     (case ro_epoll_create os (rk s) of
        (None, k) \<Rightarrow> (Inl ''epoll_create1 failed'', s\<lparr>rk := k, r_epoll := None\<rparr>)
      | (Some e, k) \<Rightarrow> (Inr (), s\<lparr>rk := k, r_epoll := Some e, r_running := True, r_thread := Lp_load\<rparr>))"

text \<open>A step of \<open>run_loop\<close>: the test of the loop with the expired timeouts, the wait, the events with the expired timeouts.\<close>

definition epoll_loop_step :: "'k reactor_os \<Rightarrow> 'k rlife \<Rightarrow> 'k rlife" where
  "epoll_loop_step os s =
     (case r_thread s of
        Lp_load \<Rightarrow> s\<lparr>r_thread := (if r_running s then Lp_wait else Lp_end)\<rparr>
      | Lp_wait \<Rightarrow>
          (case r_epoll s of
             None \<Rightarrow> s
           | Some e \<Rightarrow>
              (case ro_epoll_wait os e 50 (rk s) of (r, k) \<Rightarrow>
                 let s1 = note_call (C_wait e) k s
                 in case r of
                      Inl errno \<Rightarrow> s1\<lparr>r_thread := (if errno = R_EINTR then Lp_load else Lp_end)\<rparr>
                    | Inr n \<Rightarrow> s1\<lparr>r_thread := (if n = 0 then Lp_load else Lp_ready)\<rparr>))
      | Lp_ready \<Rightarrow> s\<lparr>r_thread := Lp_load\<rparr>
      | _ \<Rightarrow> s)"

definition epoll_reactor_close :: "'k reactor_os \<Rightarrow> 'k rlife \<Rightarrow> 'k rlife" where
  "epoll_reactor_close os s = (case r_epoll s of None \<Rightarrow> s | Some e \<Rightarrow> note_call (C_close_epoll e) (ro_epoll_close os e (rk s)) s)"

definition epoll_service :: "'k reactor_os \<Rightarrow> 'k rlife service" where
  "epoll_service os =
     \<lparr>sv_loop = epoll_loop_step os, sv_other = (\<lambda>s s'. \<exists>k. s' = s\<lparr>rk := k\<rparr>), sv_stop = r_running_update (\<lambda>_. False),
      sv_ended = (\<lambda>s. r_thread s = Lp_end), sv_free = epoll_reactor_close os\<rparr>"

section \<open>The reactor of Windows\<close>

text \<open>\<open>std::call_once\<close> with a callable that throws: the flag stays unset.\<close>

definition ensure_wsa :: "'k reactor_os \<Rightarrow> 'k rlife \<Rightarrow> (string + unit) \<times> 'k rlife" where
  "ensure_wsa os s =
     (if r_wsa s then (Inr (), s)
      else case ro_wsa_startup os (rk s) of (r, k) \<Rightarrow>
        if r \<noteq> 0 then (Inl ''WSAStartup failed'', s\<lparr>rk := k\<rparr>) else (Inr (), s\<lparr>rk := k, r_wsa := True\<rparr>))"

definition iocp_reactor_new :: "'k reactor_os \<Rightarrow> 'k rlife \<Rightarrow> (string + unit) \<times> 'k rlife" where
  "iocp_reactor_new os s =
     (case ensure_wsa os s of
        (Inl e, s1) \<Rightarrow> (Inl e, s1)
      | (Inr u, s1) \<Rightarrow>
         (case ro_create_port os (rk s1) of
            (None, k) \<Rightarrow> (Inl ''CreateIoCompletionPort failed'', s1\<lparr>rk := k, r_port := None\<rparr>)
          | (Some p, k) \<Rightarrow>
             (case ro_epoll_create os k of
                (None, k1) \<Rightarrow> (Inl ''epoll_create1 failed'', note_call (C_close_port p) (ro_close_handle os p k1) (s1\<lparr>r_port := Some p, r_epoll := None\<rparr>))
              | (Some e, k1) \<Rightarrow> (Inr (), s1\<lparr>rk := k1, r_port := Some p, r_epoll := Some e, r_running := True, r_thread := Lp_load\<rparr>))))"

text \<open>Where \<open>process_completions\<close> returns to.\<close>

definition pump_exit :: "pump \<Rightarrow> loop_pc" where
  "pump_exit w = (case w of First \<Rightarrow> Lp_wait | Idle \<Rightarrow> Lp_load | Final \<Rightarrow> Lp_end)"

definition iocp_loop_step :: "'k reactor_os \<Rightarrow> 'k rlife \<Rightarrow> 'k rlife" where
  "iocp_loop_step os s =
     (case r_thread s of
        Lp_load \<Rightarrow> s\<lparr>r_thread := Pump_load (if r_running s then First else Final) 0\<rparr>
      | Pump_load w timeout_ms \<Rightarrow> s\<lparr>r_thread := (if r_running s then Pump_get w timeout_ms else pump_exit w)\<rparr>
      | Pump_get w timeout_ms \<Rightarrow>
          (case r_port s of
             None \<Rightarrow> s
           | Some p \<Rightarrow>
              (case ro_get_status os p timeout_ms (rk s) of (r, k) \<Rightarrow>
                 let s1 = note_call (C_pump p) k s
                 in case r of
                      None \<Rightarrow> s1\<lparr>r_thread := pump_exit w\<rparr>
                    | Some povl \<Rightarrow> s1\<lparr>r_thread := Pump_load w 0\<rparr>))
      | Lp_wait \<Rightarrow>
          (case r_epoll s of
             None \<Rightarrow> s
           | Some e \<Rightarrow>
              (case ro_epoll_wait os e 10 (rk s) of (r, k) \<Rightarrow>
                 let s1 = note_call (C_wait e) k s
                 in case r of
                      Inl errno \<Rightarrow> s1\<lparr>r_thread := (if errno = R_EINTR then Lp_load else Pump_load Final 0)\<rparr>
                    | Inr n \<Rightarrow> s1\<lparr>r_thread := (if n > 0 then Lp_ready else Lp_after 0)\<rparr>))
      | Lp_ready \<Rightarrow> s\<lparr>r_thread := Lp_after 1\<rparr>
      | Lp_after n \<Rightarrow> s\<lparr>r_thread := (if \<not> r_running s then Pump_load Final 0 else if n = 0 then Pump_load Idle 10 else Lp_load)\<rparr>
      | Lp_end \<Rightarrow> s)"

definition iocp_stop :: "'k reactor_os \<Rightarrow> 'k rlife \<Rightarrow> 'k rlife" where
  "iocp_stop os s =
     (let s1 = s\<lparr>r_running := False\<rparr> in case r_port s1 of None \<Rightarrow> s1 | Some p \<Rightarrow> note_call (C_post p) (ro_post_status os p (rk s1)) s1)"

definition iocp_reactor_close :: "'k reactor_os \<Rightarrow> 'k rlife \<Rightarrow> 'k rlife" where
  "iocp_reactor_close os s =
     (let s1 = (case r_epoll s of None \<Rightarrow> s | Some e \<Rightarrow> note_call (C_close_epoll e) (ro_epoll_close os e (rk s)) s)
      in case r_port s1 of None \<Rightarrow> s1 | Some p \<Rightarrow> note_call (C_close_port p) (ro_close_handle os p (rk s1)) s1)"

definition iocp_service :: "'k reactor_os \<Rightarrow> 'k rlife service" where
  "iocp_service os =
     \<lparr>sv_loop = iocp_loop_step os, sv_other = (\<lambda>s s'. \<exists>k. s' = s\<lparr>rk := k\<rparr>), sv_stop = iocp_stop os,
      sv_ended = (\<lambda>s. r_thread s = Lp_end), sv_free = iocp_reactor_close os\<rparr>"

section \<open>Lifetimes\<close>

text \<open>The calls while the handles are open use the handles \<open>e\<close> and \<open>p\<close> and close nothing; when all is over each handle was closed once, last.\<close>

definition open_calls :: "addr \<Rightarrow> addr option \<Rightarrow> 'k rlife \<Rightarrow> bool" where
  "open_calls e p s \<longleftrightarrow> r_epoll s = Some e \<and> r_port s = p \<and>
     (\<forall>x\<in>set (r_calls s). x = C_wait e \<or> (\<exists>q. p = Some q \<and> (x = C_pump q \<or> x = C_post q)))"

definition closed_calls :: "addr \<Rightarrow> addr option \<Rightarrow> 'k rlife \<Rightarrow> bool" where
  "closed_calls e p s \<longleftrightarrow>
     (\<exists>xs. r_calls s = xs @ [C_close_epoll e] @ (case p of None \<Rightarrow> [] | Some q \<Rightarrow> [C_close_port q]) \<and>
        (\<forall>x\<in>set xs. x = C_wait e \<or> (\<exists>q. p = Some q \<and> (x = C_pump q \<or> x = C_post q))))"

fun epoll_left :: "loop_pc \<Rightarrow> nat" where
  "epoll_left Lp_load = 1" | "epoll_left Lp_ready = 2" | "epoll_left Lp_wait = 3" | "epoll_left _ = 0"

definition epoll_inv :: "addr \<Rightarrow> 'k rlife \<Rightarrow> bool" where
  "epoll_inv e s \<longleftrightarrow> open_calls e None s \<and> r_thread s \<in> {Lp_load, Lp_wait, Lp_ready, Lp_end}"

fun iocp_left :: "loop_pc \<Rightarrow> nat" where
  "iocp_left Lp_end = 0"
| "iocp_left (Pump_load Final t) = 1"
| "iocp_left (Pump_get Final t) = 2"
| "iocp_left Lp_load = 2"
| "iocp_left (Lp_after n) = 2"
| "iocp_left Lp_ready = 3"
| "iocp_left (Pump_load Idle t) = 3"
| "iocp_left (Pump_get Idle t) = 4"
| "iocp_left Lp_wait = 4"
| "iocp_left (Pump_load First t) = 5"
| "iocp_left (Pump_get First t) = 6"

definition iocp_inv :: "addr \<Rightarrow> addr \<Rightarrow> 'k rlife \<Rightarrow> bool" where
  "iocp_inv e p s \<longleftrightarrow> open_calls e (Some p) s"

lemma note_open:
  "open_calls e p s \<Longrightarrow> x = C_wait e \<or> (\<exists>q. p = Some q \<and> (x = C_pump q \<or> x = C_post q)) \<Longrightarrow> open_calls e p (note_call x k s)"
  by (auto simp: open_calls_def note_call_def)

lemma open_rest [simp]: "open_calls e p (s\<lparr>r_thread := at\<rparr>) = open_calls e p s" "open_calls e p (s\<lparr>r_running := r\<rparr>) = open_calls e p s"
  "open_calls e p (s\<lparr>rk := k\<rparr>) = open_calls e p s"
  by (simp_all add: open_calls_def)

lemma note_rest [simp]: "r_thread (note_call x k s) = r_thread s" "r_running (note_call x k s) = r_running s" "r_epoll (note_call x k s) = r_epoll s"
  "r_port (note_call x k s) = r_port s"
  by (simp_all add: note_call_def)

lemma epoll_step_thread:
  assumes "open_calls e None s"
  shows "open_calls e None (epoll_loop_step os s)" and "r_running (epoll_loop_step os s) = r_running s"
    and "r_thread s \<in> {Lp_load, Lp_wait, Lp_ready, Lp_end} \<Longrightarrow> r_thread (epoll_loop_step os s) \<in> {Lp_load, Lp_wait, Lp_ready, Lp_end}"
    and "r_thread s \<in> {Lp_load, Lp_wait, Lp_ready} \<Longrightarrow> \<not> r_running s \<Longrightarrow> epoll_left (r_thread (epoll_loop_step os s)) < epoll_left (r_thread s)"
proof -
  have e: "r_epoll s = Some e" using assms by (simp add: open_calls_def)
  obtain r k where w: "ro_epoll_wait os e 50 (rk s) = (r, k)" by fastforce
  have n: "open_calls e None (note_call (C_wait e) k s)" using note_open [OF assms] by simp
  let ?at = "r_thread s" and ?to = "r_thread (epoll_loop_step os s)"
  have "open_calls e None (epoll_loop_step os s) \<and> r_running (epoll_loop_step os s) = r_running s \<and>
      (?at \<in> {Lp_load, Lp_wait, Lp_ready, Lp_end} \<longrightarrow> ?to \<in> {Lp_load, Lp_wait, Lp_ready, Lp_end}) \<and>
      (?at \<in> {Lp_load, Lp_wait, Lp_ready} \<longrightarrow> \<not> r_running s \<longrightarrow> epoll_left ?to < epoll_left ?at)"
  proof (cases ?at)
    case Lp_wait
    then show ?thesis using n by (cases r) (simp_all add: epoll_loop_step_def e w Let_def)
  qed (use assms in \<open>simp_all add: epoll_loop_step_def\<close>)
  then show "open_calls e None (epoll_loop_step os s)" and "r_running (epoll_loop_step os s) = r_running s"
    and "?at \<in> {Lp_load, Lp_wait, Lp_ready, Lp_end} \<Longrightarrow> ?to \<in> {Lp_load, Lp_wait, Lp_ready, Lp_end}"
    and "?at \<in> {Lp_load, Lp_wait, Lp_ready} \<Longrightarrow> \<not> r_running s \<Longrightarrow> epoll_left ?to < epoll_left ?at" by blast+
qed

interpretation epoll_life: service "epoll_service os" "epoll_inv e" "closed_calls e None" "\<lambda>s. \<not> r_running s" "\<lambda>s. epoll_left (r_thread s)" for os e
proof
  fix s s' :: "'a rlife"
  assume "epoll_inv e s"
  then have i: "open_calls e None s" "r_thread s \<in> {Lp_load, Lp_wait, Lp_ready, Lp_end}" by (simp_all add: epoll_inv_def)
  note st = epoll_step_thread [OF i(1), where os = os]
  show "epoll_inv e (sv_loop (epoll_service os) s)" using st(1,3) i(2) by (simp add: epoll_service_def epoll_inv_def)
  show "sv_other (epoll_service os) s s' \<Longrightarrow> epoll_inv e s'" using i by (auto simp: epoll_service_def epoll_inv_def)
  show "epoll_inv e (sv_stop (epoll_service os) s)" using i by (simp add: epoll_service_def epoll_inv_def)
  show "sv_ended (epoll_service os) s \<Longrightarrow> closed_calls e None (sv_free (epoll_service os) s) \<and> sv_ended (epoll_service os) (sv_free (epoll_service os) s)"
    using i(1) by (auto simp: epoll_service_def epoll_reactor_close_def open_calls_def closed_calls_def note_call_def)
  show "\<not> r_running s \<Longrightarrow> \<not> sv_ended (epoll_service os) s \<Longrightarrow> epoll_left (r_thread (sv_loop (epoll_service os) s)) < epoll_left (r_thread s)"
    using st(4) i(2) by (simp add: epoll_service_def)
qed (auto simp: epoll_service_def epoll_loop_step_def Let_def split: loop_pc.splits option.splits prod.splits sum.splits)

lemma iocp_step_thread:
  assumes "open_calls e (Some p) s"
  shows "open_calls e (Some p) (iocp_loop_step os s)" and "r_running (iocp_loop_step os s) = r_running s"
    and "r_thread s \<noteq> Lp_end \<Longrightarrow> \<not> r_running s \<Longrightarrow> iocp_left (r_thread (iocp_loop_step os s)) < iocp_left (r_thread s)"
proof -
  have e: "r_epoll s = Some e" "r_port s = Some p" using assms by (simp_all add: open_calls_def)
  obtain r k where w: "ro_epoll_wait os e 10 (rk s) = (r, k)" by fastforce
  have n: "open_calls e (Some p) (note_call (C_wait e) k s)" "open_calls e (Some p) (note_call (C_pump p) k' s)" for k'
    using note_open [OF assms] by simp_all
  have "open_calls e (Some p) (iocp_loop_step os s) \<and> r_running (iocp_loop_step os s) = r_running s \<and>
    (r_thread s \<noteq> Lp_end \<longrightarrow> \<not> r_running s \<longrightarrow> iocp_left (r_thread (iocp_loop_step os s)) < iocp_left (r_thread s))"
  proof (cases "r_thread s")
    case (Pump_load v t)
    then show ?thesis using assms by (cases v) (simp_all add: iocp_loop_step_def pump_exit_def)
  next
    case (Pump_get v t)
    obtain g k' where g: "ro_get_status os p t (rk s) = (g, k')" by fastforce
    then show ?thesis using Pump_get n by (cases v; cases g) (simp_all add: iocp_loop_step_def e pump_exit_def Let_def)
  next
    case Lp_wait
    then show ?thesis using n by (cases r) (simp_all add: iocp_loop_step_def e w Let_def)
  qed (use assms in \<open>simp_all add: iocp_loop_step_def\<close>)
  then show "open_calls e (Some p) (iocp_loop_step os s)" and "r_running (iocp_loop_step os s) = r_running s"
    and "r_thread s \<noteq> Lp_end \<Longrightarrow> \<not> r_running s \<Longrightarrow> iocp_left (r_thread (iocp_loop_step os s)) < iocp_left (r_thread s)" by blast+
qed

interpretation iocp_life: service "iocp_service os" "iocp_inv e p" "closed_calls e (Some p)" "\<lambda>s. \<not> r_running s" "\<lambda>s. iocp_left (r_thread s)" for os e p
proof
  fix s s' :: "'a rlife"
  assume "iocp_inv e p s"
  then have i: "open_calls e (Some p) s" by (simp add: iocp_inv_def)
  note st = iocp_step_thread [OF i, where os = os]
  show "iocp_inv e p (sv_loop (iocp_service os) s)" using st(1) by (simp add: iocp_service_def iocp_inv_def)
  show "sv_other (iocp_service os) s s' \<Longrightarrow> iocp_inv e p s'" using i by (auto simp: iocp_service_def iocp_inv_def)
  show "iocp_inv e p (sv_stop (iocp_service os) s)"
    using i note_open [of e "Some p" "s\<lparr>r_running := False\<rparr>" "C_post p"] by (auto simp: iocp_service_def iocp_inv_def iocp_stop_def Let_def open_calls_def)
  show "sv_ended (iocp_service os) s \<Longrightarrow> closed_calls e (Some p) (sv_free (iocp_service os) s) \<and> sv_ended (iocp_service os) (sv_free (iocp_service os) s)"
    using i by (auto simp: iocp_service_def iocp_reactor_close_def open_calls_def closed_calls_def note_call_def Let_def)
  show "\<not> r_running s \<Longrightarrow> \<not> sv_ended (iocp_service os) s \<Longrightarrow> iocp_left (r_thread (sv_loop (iocp_service os) s)) < iocp_left (r_thread s)"
    using st(3) by (simp add: iocp_service_def)
qed (auto simp: iocp_service_def iocp_loop_step_def iocp_stop_def Let_def split: loop_pc.splits option.splits prod.splits sum.splits)

section \<open>Construction and destruction\<close>

text \<open>A constructor that throws leaves nothing open.\<close>

lemma iocp_new_fails:
  assumes "iocp_reactor_new os s = (Inl e, s1)" and "ro_create_port os (rk (snd (ensure_wsa os s))) = (Some p, k)" and "fst (ensure_wsa os s) = Inr ()"
  shows "r_calls s1 = r_calls s @ [C_close_port p] \<and> r_epoll s1 = None"
proof -
  have "r_calls (snd (ensure_wsa os s)) = r_calls s" by (simp add: ensure_wsa_def split: prod.splits)
  then show ?thesis using assms
    by (cases "ensure_wsa os s") (auto simp: iocp_reactor_new_def note_call_def split: prod.splits option.splits)
qed

text \<open>
  In every schedule of a reactor its loop waits only on the handles that the constructor opened; the destructor closes each of them once, last and after the thread has
  ended. Once it has cleared the flag, the thread ends within six of its steps, so that the join returns.
\<close>

theorem reactor_threads_stop:
  assumes "r_calls s0 = []" and "r_port s0 = None"
  shows "epoll_reactor_new os s0 = (Inr (), s) \<Longrightarrow> svc_reachable (epoll_service os) s (at, s1) \<Longrightarrow>
      if at = Svc_gone then closed_calls (the (r_epoll s)) None s1 else open_calls (the (r_epoll s)) None s1 \<and> (at = Svc_joined \<longrightarrow> r_thread s1 = Lp_end) \<and>
        (at = Svc_stopping \<longrightarrow> (\<exists>n \<le> 3. r_thread ((epoll_loop_step os ^^ n) s1) = Lp_end))"
    and "iocp_reactor_new os s0 = (Inr (), s) \<Longrightarrow> svc_reachable (iocp_service os) s (at, s1) \<Longrightarrow>
      if at = Svc_gone then closed_calls (the (r_epoll s)) (r_port s) s1 else open_calls (the (r_epoll s)) (r_port s) s1 \<and>
        (at = Svc_joined \<longrightarrow> r_thread s1 = Lp_end) \<and> (at = Svc_stopping \<longrightarrow> (\<exists>n \<le> 6. r_thread ((iocp_loop_step os ^^ n) s1) = Lp_end))"
proof -
  have b: "epoll_left x \<le> 3" for x by (cases x) auto
  assume n: "epoll_reactor_new os s0 = (Inr (), s)" and r: "svc_reachable (epoll_service os) s (at, s1)"
  obtain e where i: "epoll_inv e s"
    using n assms by (auto simp: epoll_reactor_new_def epoll_inv_def open_calls_def split: prod.splits option.splits)
  then have e: "the (r_epoll s) = e" by (simp add: epoll_inv_def open_calls_def)
  note ph = epoll_life.service_phases [OF r i, unfolded epoll_life.phase_inv_def]
  have "at = Svc_stopping \<Longrightarrow> \<exists>n \<le> 3. r_thread ((epoll_loop_step os ^^ n) s1) = Lp_end"
    using epoll_life.join_returns [of os s s1 e] r i b [of "r_thread s1"] by (auto simp: epoll_service_def intro: order_trans)
  then show "if at = Svc_gone then closed_calls (the (r_epoll s)) None s1 else open_calls (the (r_epoll s)) None s1 \<and>
      (at = Svc_joined \<longrightarrow> r_thread s1 = Lp_end) \<and> (at = Svc_stopping \<longrightarrow> (\<exists>n \<le> 3. r_thread ((epoll_loop_step os ^^ n) s1) = Lp_end))"
    using ph by (cases at) (auto simp: e epoll_inv_def epoll_service_def)
next
  have b: "iocp_left x \<le> 6" for x by (cases x rule: iocp_left.cases) auto
  assume n: "iocp_reactor_new os s0 = (Inr (), s)" and r: "svc_reachable (iocp_service os) s (at, s1)"
  have w: "r_calls (snd (ensure_wsa os s0)) = []" using assms(1) by (simp add: ensure_wsa_def split: prod.splits)
  obtain e p where i: "iocp_inv e p s"
    using n w by (auto simp: iocp_reactor_new_def iocp_inv_def open_calls_def split: prod.splits option.splits sum.splits)
  then have e: "the (r_epoll s) = e" "r_port s = Some p" by (simp_all add: iocp_inv_def open_calls_def)
  note ph = iocp_life.service_phases [OF r i, unfolded iocp_life.phase_inv_def]
  have "at = Svc_stopping \<Longrightarrow> \<exists>n \<le> 6. r_thread ((iocp_loop_step os ^^ n) s1) = Lp_end"
    using iocp_life.join_returns [of os s s1 e p] r i b [of "r_thread s1"] by (auto simp: iocp_service_def intro: order_trans)
  then show "if at = Svc_gone then closed_calls (the (r_epoll s)) (r_port s) s1 else open_calls (the (r_epoll s)) (r_port s) s1 \<and>
      (at = Svc_joined \<longrightarrow> r_thread s1 = Lp_end) \<and> (at = Svc_stopping \<longrightarrow> (\<exists>n \<le> 6. r_thread ((iocp_loop_step os ^^ n) s1) = Lp_end))"
    using ph by (cases at) (auto simp: e iocp_inv_def iocp_service_def)
qed

end
