(* ===== verification/Dtls.thy ===== *)
theory Dtls
  imports Ownership Tls_Socket
begin

text \<open>
  DTLS: \<open>basic_tls_socket\<close> over a datagram socket (\<open>dtls_socket\<close> of \<^verbatim>\<open>net/tls.hpp\<close>). Its awaiters are those of \<open>Tls_Socket\<close>, which use the
  descriptor and the session only. Closing and shutting down differ: a datagram socket has no flags, and as it has no \<open>shutdown_tx\<close>
  either, shutting down closes it.
\<close>

definition dgram_sock_close ::
  "'k os \<Rightarrow> build \<Rightarrow> (addr \<Rightarrow> ('k, 'b) sock_scheme \<Rightarrow> ('k, 'b) sock_scheme) \<Rightarrow> addr \<Rightarrow> ('k, 'b) sock_scheme \<Rightarrow>
   (abort + ('k, 'b) sock_scheme) option" where
  "dgram_sock_close os b pst pend s = close_fd os b pst pend s"

definition map_state :: "('s \<Rightarrow> 's) \<Rightarrow> (abort + 's) option \<Rightarrow> (abort + 's) option" where
  "map_state f = map_option (map_sum id f)"

definition dtls_close ::
  "'k ssl_api \<Rightarrow> 'k os \<Rightarrow> build \<Rightarrow> (addr \<Rightarrow> ('k, 'b) tls_scheme \<Rightarrow> ('k, 'b) tls_scheme) \<Rightarrow> addr \<Rightarrow> ('k, 'b) tls_scheme \<Rightarrow>
   (abort + ('k, 'b) tls_scheme) option" where
  "dtls_close api os b pst pend s =
     (if \<not> tls_active s then Some (Inr s)
      else map_state (\<lambda>s1. s1\<lparr>handshake_done := False, tls_rx_eof := True, tls_tx_shutdown := True\<rparr>)
        (dgram_sock_close os b pst pend (reset_ssl api s)))"

definition dtls_shutdown_tx ::
  "'k ssl_api \<Rightarrow> 'k os \<Rightarrow> build \<Rightarrow> (addr \<Rightarrow> ('k, 'b) tls_scheme \<Rightarrow> ('k, 'b) tls_scheme) \<Rightarrow> addr \<Rightarrow> ('k, 'b) tls_scheme \<Rightarrow>
   (abort + ('k, 'b) tls_scheme) option" where
  "dtls_shutdown_tx api os b pst pend s =
     (if \<not> tls_active s then Some (Inr s)
      else let s1 = (if ssl s \<noteq> None \<and> \<not> tls_tx_shutdown s
                     then s\<lparr>kern := api_shutdown api (ssl s) (kern s), tls_tx_shutdown := True\<rparr> else s)
           in dgram_sock_close os b pst pend s1)"

text \<open>
  What the calls of closing leave alone: the session and the flags of the TLS socket.
\<close>

locale dtls_route = sock_route pst for pst :: "addr \<Rightarrow> ('k, 'b) tls_scheme \<Rightarrow> ('k, 'b) tls_scheme" +
  assumes pst_tls: "ssl (pst w s) = ssl s" "tls_rx_eof (pst w s) = tls_rx_eof s" "tls_active (pst w s) = tls_active s"
    "handshake_done (pst w s) = handshake_done s"
begin

lemma fold_pst_tls:
  "ssl (fold (\<lambda>wi. pst (wi_waiter wi)) ws s) = ssl s" "tls_rx_eof (fold (\<lambda>wi. pst (wi_waiter wi)) ws s) = tls_rx_eof s"
  "tls_active (fold (\<lambda>wi. pst (wi_waiter wi)) ws s) = tls_active s" "handshake_done (fold (\<lambda>wi. pst (wi_waiter wi)) ws s) = handshake_done s"
  by (induction ws arbitrary: s) (simp_all add: pst_tls)

lemma close_fd_session:
  assumes "close_fd os b pst pend s = Some (Inr s')"
  shows "ssl s' = ssl s \<and> tls_rx_eof s' = tls_rx_eof s \<and> tls_active s' = tls_active s \<and> handshake_done s' = handshake_done s"
proof (cases "sk_fd s = invalid_fd")
  case True
  then show ?thesis using assms by (simp add: close_fd_def)
next
  case False
  let ?s1 = "remove_fd (os_ctl os) pst (sk_fd s) (s\<lparr>sk_closed := True\<rparr>)"
  obtain s3 s4 where s3: "serial_collect_waiters [send_q ?s1, recv_q ?s1] pend (?s1\<lparr>lks := INIT_LIST_HEAD pend (lks ?s1)\<rparr>) = Some s3"
    and s4: "serial_post_pending b pend s3 = Some (Inr s4)" and s': "s' = s4\<lparr>kern := os_close os (sk_fd s4) (kern s4), sk_fd := invalid_fd\<rparr>"
    using assms False by (auto simp: close_fd_def Let_def split: option.splits sum.splits)
  have "ssl s4 = ssl ?s1 \<and> tls_rx_eof s4 = tls_rx_eof ?s1 \<and> tls_active s4 = tls_active ?s1 \<and> handshake_done s4 = handshake_done ?s1"
    using serial_collect_keeps [OF s3] serial_post_keeps [OF s4] by auto
  then show ?thesis by (simp add: s' remove_fd_def Let_def ctl_def case_prod_beta fold_pst_tls)
qed

text \<open>
  Closing frees the session before the descriptor. Shutting down the sending side closes the descriptor but keeps the session, whose BIO still names the
  number of the descriptor: a later \<open>recv\<close> reads it, which by then may be another file, and the error does not show in \<open>rx_eof\<close>. When OpenSSL wants
  to wait, the reactor gets the invalid descriptor.
\<close>

lemma dtls_close_frees:
  assumes "dtls_close api os b pst pend s = Some (Inr s')" and "tls_active s"
  shows "ssl s' = None \<and> tls_rx_eof s' \<and> tls_tx_shutdown s' \<and> \<not> handshake_done s'"
proof -
  obtain s1 where c: "close_fd os b pst pend (reset_ssl api s) = Some (Inr s1)"
      and s': "s' = s1\<lparr>handshake_done := False, tls_rx_eof := True, tls_tx_shutdown := True\<rparr>"
    using assms by (auto simp: dtls_close_def dgram_sock_close_def map_state_def map_option_case map_sum_def split: option.splits sum.splits)
  have "ssl (reset_ssl api s) = None" by (simp add: reset_ssl_def)
  with close_fd_session [OF c] show ?thesis by (simp add: s')
qed

lemma dtls_shutdown_keeps_session:
  assumes "sock_fds os openk" and "dtls_shutdown_tx api os b pst pend s = Some (Inr s')" and "tls_active s" and "\<And>k. openk (api_shutdown api (ssl s) k) = openk k"
  shows "ssl s' = ssl s \<and> tls_rx_eof s' = tls_rx_eof s \<and> sk_fd s' = invalid_fd \<and> (sk_fd s \<noteq> invalid_fd \<longrightarrow> sk_fd s \<notin> openk (kern s'))"
proof -
  define s1 where "s1 = (if ssl s \<noteq> None \<and> \<not> tls_tx_shutdown s
    then s\<lparr>kern := api_shutdown api (ssl s) (kern s), tls_tx_shutdown := True\<rparr> else s)"
  have c: "close_fd os b pst pend s1 = Some (Inr s')"
    using assms(2,3) by (simp add: dtls_shutdown_tx_def dgram_sock_close_def s1_def Let_def)
  have f: "sk_fd s1 = sk_fd s" "ssl s1 = ssl s" "tls_rx_eof s1 = tls_rx_eof s" by (simp_all add: s1_def)
  from close_fd_session [OF c] close_fd_core [OF assms(1) sock_route_axioms c] show ?thesis by (auto simp: f)
qed

end

interpretation dtls_direct: dtls_route "wq_post :: addr \<Rightarrow> ('k, 'b) tls_scheme \<Rightarrow> ('k, 'b) tls_scheme"
  by unfold_locales (auto simp: wq_post_def enqueue_def trig_once_def emit_def)

text \<open>The \<open>recv\<close> that follows asks the session, and its wait is registered for the invalid descriptor, of which no event ever comes.\<close>

lemma dtls_recv_after_shutdown:
  assumes "sock_fds os openk" and "\<And>k. openk (api_shutdown api (ssl s) k) = openk k" and "tls_active s"
    and "dtls_shutdown_tx api os b wq_post pend s = Some (Inr s')" and "ssl s = Some p"
    and "rv_len (trw s' a) > recvd (trw s' a)"
    and "api_read api (Some p) (cast_int (rv_len (trw s' a) - recvd (trw s' a))) (kern s') = ((r, e, err, d), k)" and "r < 0" and "want e"
  obtains s2 where "tls_recv_attempt api a s' = (- 1, s2)"
    and "tls_recv_register os a True s2 = add_waiter_custom (os_ctl os) invalid_fd (want_mask e) a s2"
  using dtls_direct.dtls_shutdown_keeps_session [OF assms(1,4,3,2)] assms(5-) want_mask_nonzero [OF assms(9)]
  by (auto simp: tls_recv_attempt_def tls_recv_register_def tls_recv_mask_def Let_def)

end
