(* ===== verification/Owned_Objects.thy ===== *)
theory Owned_Objects
  imports Ownership Tls_Socket Iocp_File
begin

text \<open>
  More owners of descriptors: moving, assigning and destroying \<open>basic_tls_socket\<close> (\<^verbatim>\<open>net/tls.hpp\<close>) and the \<open>file_handle\<close> of
  Windows (\<^verbatim>\<open>io/file_io.hpp\<close>), and the functions of \<open>fd_workqueue\<close> (\<^verbatim>\<open>io/fd_base.hpp\<close>) that create the owners. The theorem on all
  classes of owners closes the theory.
\<close>

section \<open>Factories of sockets\<close>

text \<open>\<open>n\<close> gives the storage of the new object and the addresses of the state of its queue of callbacks.\<close>

definition AF_UNIX :: int where "AF_UNIX = 1"
definition SOCK_STREAM :: int where "SOCK_STREAM = 1"
definition SOCK_DGRAM :: int where "SOCK_DGRAM = 2"

definition core_result :: "socket_error + ('k, 'b) sock_scheme \<Rightarrow> socket_error + core \<times> ('k, 'b) sock_scheme" where
  "core_result r = (case r of Inl e \<Rightarrow> Inl e | Inr s \<Rightarrow> Inr (core_at s, s))"

definition make_socket :: "'k os \<Rightarrow> int \<Rightarrow> int \<Rightarrow> core \<Rightarrow> ('k, 'b) sock_scheme \<Rightarrow> socket_error + core \<times> ('k, 'b) sock_scheme" where
  "make_socket os domain type n s = core_result (socket_core_create os domain type 0 (state_init (at_core n s)))"

definition adopt_socket :: "'k os \<Rightarrow> fd \<Rightarrow> core \<Rightarrow> ('k, 'b) sock_scheme \<Rightarrow> socket_error + core \<times> ('k, 'b) sock_scheme" where
  "adopt_socket os fd n s = core_result (socket_core_adopt os fd (state_init (at_core n s)))"

definition make_udp_socket :: "'k os \<Rightarrow> core \<Rightarrow> ('k, 'b) sock_scheme \<Rightarrow> socket_error + core \<times> ('k, 'b) sock_scheme" where
  "make_udp_socket os n s = make_socket os AF_INET SOCK_DGRAM n s"

definition make_unix_socket :: "'k os \<Rightarrow> core \<Rightarrow> ('k, 'b) sock_scheme \<Rightarrow> socket_error + core \<times> ('k, 'b) sock_scheme" where
  "make_unix_socket os n s = make_socket os AF_UNIX SOCK_STREAM n s"

definition adopt_unix_socket :: "'k os \<Rightarrow> fd \<Rightarrow> core \<Rightarrow> ('k, 'b) sock_scheme \<Rightarrow> socket_error + core \<times> ('k, 'b) sock_scheme" where
  "adopt_unix_socket os fd n s = adopt_socket os fd n s"

definition make_tcp_socket ::
  "'k os \<Rightarrow> (fd \<Rightarrow> int \<Rightarrow> 'k \<Rightarrow> 'k) \<Rightarrow> int \<Rightarrow> bool \<Rightarrow> core \<Rightarrow> ('k, 'b) tcp_scheme \<Rightarrow> socket_error + core \<times> ('k, 'b) tcp_scheme" where
  "make_tcp_socket os set_v6only fam enable_dual_stack n s =
     core_result (tcp_socket_create os set_v6only fam enable_dual_stack (state_init (at_core n s)))"

definition adopt_tcp_socket ::
  "'k os \<Rightarrow> (fd \<Rightarrow> 'k \<Rightarrow> int option) \<Rightarrow> fd \<Rightarrow> core \<Rightarrow> ('k, 'b) tcp_scheme \<Rightarrow> socket_error + core \<times> ('k, 'b) tcp_scheme" where
  "adopt_tcp_socket os get_v6only fd n s = core_result (tcp_socket_adopt os get_v6only fd (state_init (at_core n s)))"

definition make_file :: "'k file_os \<Rightarrow> fd \<Rightarrow> file_mem \<Rightarrow> ('k, 'b) file_obj_scheme \<Rightarrow> file_error + file_mem \<times> ('k, 'b) file_obj_scheme" where
  "make_file os fd n s = (case file_handle_init os fd (state_init (at_file n s)) of Inl e \<Rightarrow> Inl e | Inr s1 \<Rightarrow> Inr (file_at s1, s1))"

text \<open>
  Beyond what the socket below does, the TCP part sets the dual-stack flag: the socket of an IPv4 address, which the TLS factories make, is the plain stream
  socket of that family.
\<close>

lemma make_tcp_ipv4:
  "make_tcp_socket os set_v6only AF_INET enable_dual_stack n s =
     (case make_socket os AF_INET SOCK_STREAM n s of Inl e \<Rightarrow> Inl e | Inr (c, s1) \<Rightarrow> Inr (c, s1\<lparr>dual_stack := False\<rparr>))"
proof -
  have "core_at (t\<lparr>dual_stack := False\<rparr>) = core_at t" for t :: "('a, 'b) tcp_scheme" by (simp add: core_at_def)
  then show ?thesis
    by (simp add: make_tcp_socket_def make_socket_def tcp_socket_create_def core_result_def SOCK_STREAM_def AF_INET_def AF_INET6_def Let_def split: sum.splits)
qed

section \<open>TLS sockets\<close>

text \<open>
  The members of a TLS socket: its transport with the two flags of a stream socket, the session, its own flags and slots. Its queue of callbacks is
  owned by a \<open>unique_ptr\<close> and its context by a \<open>shared_ptr\<close>; both move with the object.
\<close>

record tls_mem =
  tm_core :: core
  tm_flags :: "bool \<times> bool"
  tm_ssl :: "addr option"
  tm_done :: bool
  tm_rx_eof :: bool
  tm_tx_shutdown :: bool
  tm_active :: bool
  tm_send :: addr
  tm_recv :: addr

definition at_tls :: "tls_mem \<Rightarrow> ('k, 'b) tls_scheme \<Rightarrow> ('k, 'b) tls_scheme" where
  "at_tls x s =
     (at_core (tm_core x) s)\<lparr>rx_eof := fst (tm_flags x), tx_shutdown := snd (tm_flags x), ssl := tm_ssl x, handshake_done := tm_done x,
       tls_rx_eof := tm_rx_eof x, tls_tx_shutdown := tm_tx_shutdown x, tls_active := tm_active x, tls_send_q := tm_send x, tls_recv_q := tm_recv x\<rparr>"

definition tls_at :: "('k, 'b) tls_scheme \<Rightarrow> tls_mem" where
  "tls_at s =
     \<lparr>tm_core = core_at s, tm_flags = (rx_eof s, tx_shutdown s), tm_ssl = ssl s, tm_done = handshake_done s, tm_rx_eof = tls_rx_eof s,
      tm_tx_shutdown = tls_tx_shutdown s, tm_active = tls_active s, tm_send = tls_send_q s, tm_recv = tls_recv_q s\<rparr>"

definition tls_move :: "tls_mem \<Rightarrow> tls_mem \<Rightarrow> ('k, 'b) tls_scheme \<Rightarrow> tls_mem \<times> tls_mem \<times> ('k, 'b) tls_scheme" where
  "tls_move n x s =
     (case socket_core_move (tm_core n) (tm_core x) s of (c, xc, s1) \<Rightarrow>
        let s2 = at_tls (x\<lparr>tm_core := c, tm_send := tm_send n, tm_recv := tm_recv n\<rparr>) s1;
            s3 = serial_queue_init (tls_recv_q s2) (serial_queue_init (tls_send_q s2) s2);
            s4 = reset_after_move (at_tls (x\<lparr>tm_core := xc, tm_ssl := None\<rparr>) s3)
        in (tls_at s3, tls_at s4, s4))"

definition tls_mem_close ::
  "'k ssl_api \<Rightarrow> 'k os \<Rightarrow> build \<Rightarrow> (addr \<Rightarrow> ('k, 'b) tls_scheme \<Rightarrow> ('k, 'b) tls_scheme) \<Rightarrow> addr \<Rightarrow> tls_mem \<Rightarrow> ('k, 'b) tls_scheme \<Rightarrow>
   (tls_mem \<times> ('k, 'b) tls_scheme) option" where
  "tls_mem_close api os b pst pend x s =
     (case tls_close api os b pst pend (at_tls x s) of Some (Inr s1) \<Rightarrow> Some (tls_at s1, s1) | _ \<Rightarrow> None)"

text \<open>The destructor closes the socket and then destroys the transport, which closes a descriptor that it still holds.\<close>

definition tls_destroy ::
  "'k ssl_api \<Rightarrow> 'k os \<Rightarrow> build \<Rightarrow> (addr \<Rightarrow> ('k, 'b) tls_scheme \<Rightarrow> ('k, 'b) tls_scheme) \<Rightarrow> addr \<Rightarrow> tls_mem \<Rightarrow> ('k, 'b) tls_scheme \<Rightarrow>
   (tls_mem \<times> ('k, 'b) tls_scheme) option" where
  "tls_destroy api os b pst pend x s =
     (case tls_mem_close api os b pst pend x s of
        None \<Rightarrow> None
      | Some (x1, s1) \<Rightarrow> map_option (\<lambda>(c, s2). (x1\<lparr>tm_core := c\<rparr>, s2)) (socket_core_close os b pst pend (tm_core x1) s1))"

definition tls_move_assign ::
  "'k ssl_api \<Rightarrow> 'k os \<Rightarrow> build \<Rightarrow> (addr \<Rightarrow> ('k, 'b) tls_scheme \<Rightarrow> ('k, 'b) tls_scheme) \<Rightarrow> addr \<Rightarrow> tls_mem \<Rightarrow> tls_mem \<Rightarrow> tls_mem \<Rightarrow>
   ('k, 'b) tls_scheme \<Rightarrow> (tls_mem \<times> tls_mem \<times> ('k, 'b) tls_scheme) option" where
  "tls_move_assign api os b pst pend n t x s =
     (case tls_mem_close api os b pst pend t s of
        None \<Rightarrow> None
      | Some (t1, s1) \<Rightarrow>
         (case socket_core_move_assign os b pst pend (tm_core n) (tm_core t1) (tm_core x) s1 of
            None \<Rightarrow> None
          | Some (c, xc, s2) \<Rightarrow>
              let s3 = at_tls (x\<lparr>tm_core := c, tm_send := tm_send t1, tm_recv := tm_recv t1\<rparr>) s2;
                  s4 = serial_queue_init (tls_recv_q s3) (serial_queue_init (tls_send_q s3) s3);
                  s5 = reset_after_move (at_tls (x\<lparr>tm_core := xc, tm_ssl := None\<rparr>) s4)
              in Some (tls_at s4, tls_at s5, s5)))"

text \<open>
  The constructor moves the transport \<open>c\<close> into the new object. When \<open>SSL_new\<close> fails the members are destroyed; a later failure finds the base class
  constructed, whose destructor closes the socket.
\<close>

definition tls_construct ::
  "'k ssl_api \<Rightarrow> 'k os \<Rightarrow> build \<Rightarrow> (addr \<Rightarrow> ('k, 'b) tls_scheme \<Rightarrow> ('k, 'b) tls_scheme) \<Rightarrow> addr \<Rightarrow> tls_mem \<Rightarrow> tls_mode \<Rightarrow> core \<Rightarrow>
   ('k, 'b) tls_scheme \<Rightarrow> ((tls_error + tls_mem) \<times> ('k, 'b) tls_scheme) option" where
  "tls_construct api os b pst pend n mode c s =
     (case socket_core_move (tm_core n) c s of (c1, c', s1) \<Rightarrow>
        case tls_socket_init api mode (at_tls (n\<lparr>tm_core := c1, tm_flags := (False, False)\<rparr>) s1) of
          Inr s2 \<Rightarrow> Some (Inr (tls_at s2), s2)
        | Inl (e, s2) \<Rightarrow>
            map_option (\<lambda>(x, s3). (Inl e, s3))
              (if e = Ssl_new_failed then map_option (\<lambda>(c2, s3). (tls_at s3, s3)) (socket_core_close os b pst pend (core_at s2) s2)
               else tls_destroy api os b pst pend (tls_at s2) s2))"

definition make_tls_socket ::
  "'k ssl_api \<Rightarrow> 'k os \<Rightarrow> build \<Rightarrow> (addr \<Rightarrow> ('k, 'b) tls_scheme \<Rightarrow> ('k, 'b) tls_scheme) \<Rightarrow> addr \<Rightarrow> core \<Rightarrow> tls_mem \<Rightarrow> tls_mode \<Rightarrow>
   ('k, 'b) tls_scheme \<Rightarrow> (socket_error + (tls_error + tls_mem) \<times> ('k, 'b) tls_scheme) option" where
  "make_tls_socket api os b pst pend nc n mode s =
     (case make_socket os AF_INET SOCK_STREAM nc s of
        Inl e \<Rightarrow> Some (Inl e)
      | Inr (c, s1) \<Rightarrow> map_option Inr (tls_construct api os b pst pend n mode c s1))"

definition adopt_tls_socket ::
  "'k ssl_api \<Rightarrow> 'k os \<Rightarrow> build \<Rightarrow> (addr \<Rightarrow> ('k, 'b) tls_scheme \<Rightarrow> ('k, 'b) tls_scheme) \<Rightarrow> addr \<Rightarrow> core \<Rightarrow> tls_mem \<Rightarrow> tls_mode \<Rightarrow> fd \<Rightarrow>
   ('k, 'b) tls_scheme \<Rightarrow> (socket_error + (tls_error + tls_mem) \<times> ('k, 'b) tls_scheme) option" where
  "adopt_tls_socket api os b pst pend nc n mode fd s =
     (case adopt_socket os fd nc s of
        Inl e \<Rightarrow> Some (Inl e)
      | Inr (c, s1) \<Rightarrow> map_option Inr (tls_construct api os b pst pend n mode c s1))"

text \<open>
  What the steps of the owners are for TLS sockets. An object that was moved from is not active, and then its transport holds nothing (\<open>tls_ok\<close>); every
  operation keeps this, so that the guards of \<open>tls_class\<close> exclude no object that exists.
\<close>

definition tls_ok :: "tls_mem \<Rightarrow> bool" where
  "tls_ok x \<longleftrightarrow> tm_active x \<or> co_fd (tm_core x) = invalid_fd"

definition made :: "(socket_error + (tls_error + tls_mem) \<times> ('k, 'b) tls_scheme) option \<Rightarrow> (tls_mem \<times> ('k, 'b) tls_scheme) option" where
  "made r = (case r of Some (Inr (Inr x, s)) \<Rightarrow> Some (x, s) | _ \<Rightarrow> None)"

definition tls_class ::
  "'k ssl_api \<Rightarrow> 'k os \<Rightarrow> build \<Rightarrow> (addr \<Rightarrow> ('k, 'b) tls_scheme \<Rightarrow> ('k, 'b) tls_scheme) \<Rightarrow> addr \<Rightarrow> (('k, 'b) tls_scheme \<Rightarrow> core \<times> tls_mem) \<Rightarrow>
   tls_mode \<Rightarrow> (tls_mem, ('k, 'b) tls_scheme) owner_class" where
  "tls_class api os b pst pend alloc mode =
     \<lparr>oc_make = (\<lambda>s. made (make_tls_socket api os b pst pend (fst (alloc s)) (snd (alloc s)) mode s)),
      oc_adopt = (\<lambda>fd s. made (adopt_tls_socket api os b pst pend (fst (alloc s)) (snd (alloc s)) mode fd s)),
      oc_close = (\<lambda>x s. if tls_ok x then tls_mem_close api os b pst pend x s else None),
      oc_move = (\<lambda>x s. tls_move (snd (alloc s)) x s),
      oc_assign = (\<lambda>t x s. if tls_ok t then tls_move_assign api os b pst pend (snd (alloc s)) t x s else None)\<rparr>"

definition tls_held :: "tls_mem \<Rightarrow> fd option" where
  "tls_held x = core_held (tm_core x)"

section \<open>Files of Windows\<close>

record win_mem =
  wm_handle :: fd
  wm_pending :: addr
  wm_local :: addr
  wm_running :: bool
  wm_runner :: addr
  wm_guard :: bool

definition at_win :: "win_mem \<Rightarrow> ('k, 'b) wfile_scheme \<Rightarrow> ('k, 'b) wfile_scheme" where
  "at_win x s =
     s\<lparr>wf_handle := wm_handle x, pending := wm_pending x, local_head := wm_local x, running := wm_running x, runner := wm_runner x, guard := wm_guard x\<rparr>"

definition win_at :: "('k, 'b) wfile_scheme \<Rightarrow> win_mem" where
  "win_at s =
     \<lparr>wm_handle = wf_handle s, wm_pending = pending s, wm_local = local_head s, wm_running = running s, wm_runner = runner s, wm_guard = guard s\<rparr>"

definition win_file_move :: "win_mem \<Rightarrow> win_mem \<Rightarrow> ('k, 'b) wfile_scheme \<Rightarrow> win_mem \<times> win_mem \<times> ('k, 'b) wfile_scheme" where
  "win_file_move n x s =
     (let s1 = state_init (at_win (n\<lparr>wm_handle := wm_handle x\<rparr>) s) in (win_at s1, x\<lparr>wm_handle := INVALID_HANDLE_VALUE\<rparr>, s1))"

definition win_mem_close ::
  "'k wf_os \<Rightarrow> (addr \<Rightarrow> ('k, 'b) wfile_scheme \<Rightarrow> ('k, 'b) wfile_scheme) \<Rightarrow> win_mem \<Rightarrow> ('k, 'b) wfile_scheme \<Rightarrow> win_mem \<times> ('k, 'b) wfile_scheme" where
  "win_mem_close os pst x s = (let s1 = win_file_close os pst (at_win x s) in (win_at s1, s1))"

text \<open>The assignment keeps the queue of callbacks of its target.\<close>

definition win_file_move_assign ::
  "'k wf_os \<Rightarrow> (addr \<Rightarrow> ('k, 'b) wfile_scheme \<Rightarrow> ('k, 'b) wfile_scheme) \<Rightarrow> win_mem \<Rightarrow> win_mem \<Rightarrow> ('k, 'b) wfile_scheme \<Rightarrow>
   win_mem \<times> win_mem \<times> ('k, 'b) wfile_scheme" where
  "win_file_move_assign os pst t x s =
     (case win_mem_close os pst t s of (t1, s1) \<Rightarrow>
        (t1\<lparr>wm_handle := wm_handle x\<rparr>, x\<lparr>wm_handle := INVALID_HANDLE_VALUE\<rparr>, s1))"

definition win_class ::
  "'k wf_os \<Rightarrow> (addr \<Rightarrow> ('k, 'b) wfile_scheme \<Rightarrow> ('k, 'b) wfile_scheme) \<Rightarrow> (('k, 'b) wfile_scheme \<Rightarrow> win_mem) \<Rightarrow> string \<Rightarrow> win_open_mode \<Rightarrow>
   (win_mem, ('k, 'b) wfile_scheme) owner_class" where
  "win_class os pst alloc path mode =
     \<lparr>oc_make = (\<lambda>s. case win_open_file_handle os path mode (state_init (at_win (alloc s) s)) of Some (Inr s1) \<Rightarrow> Some (win_at s1, s1) | _ \<Rightarrow> None),
      oc_adopt = (\<lambda>h s. case win_file_make os h (state_init (at_win (alloc s) s)) of Inl e \<Rightarrow> None | Inr s1 \<Rightarrow> Some (win_at s1, s1)),
      oc_close = (\<lambda>x s. Some (win_mem_close os pst x s)),
      oc_move = (\<lambda>x s. win_file_move (alloc s) x s),
      oc_assign = (\<lambda>t x s. Some (win_file_move_assign os pst t x s))\<rparr>"

definition win_held :: "win_mem \<Rightarrow> fd option" where
  "win_held x = (if wm_handle x = INVALID_HANDLE_VALUE then None else Some (wm_handle x))"

lemma tls_fields:
  "kern (at_tls x s) = kern s" "sk_fd (at_tls x s) = co_fd (tm_core x)" "tls_active (at_tls x s) = tm_active x"
  "core_at (at_tls x s) = tm_core x" "tls_at (at_tls x s) = x"
  by (simp_all add: at_tls_def tls_at_def at_core_def core_at_def)

lemma tls_queue_fields:
  fixes s :: "('k, 'b) tls_scheme"
  shows "kern (serial_queue_init q s) = kern s" "tls_at (serial_queue_init q s) = tls_at s"
  by (simp_all add: serial_queue_init_def tls_at_def core_at_def)

section \<open>TLS sockets own their transport\<close>

text \<open>The calls of OpenSSL open and close no descriptor: the BIO of a session does not own its descriptor (\<open>BIO_NOCLOSE\<close>).\<close>

locale tls_owner = sock_owner os openk pst
  for os :: "'k os" and openk :: "'k \<Rightarrow> fd set" and pst :: "addr \<Rightarrow> ('k, 'b) tls_scheme \<Rightarrow> ('k, 'b) tls_scheme" +
  fixes api :: "'k ssl_api"
  assumes api_open: "openk (snd (api_new api k)) = openk k" "openk (snd (api_set_fd api p fd k)) = openk k"
    "openk (api_set_state api p mode k) = openk k" "openk (api_shutdown api r k) = openk k"
begin

lemma tls_closes:
  assumes "tls_ok x" and "tls_mem_close api os b pst pend x s = Some (x', s')"
  shows "tls_held x' = None \<and> openk (kern s') = openk (kern s) - set_option (tls_held x)"
proof (cases "tm_active x")
  case False
  then have "s' = at_tls x s" "x' = tls_at s'" using assms(2) by (auto simp: tls_mem_close_def tls_close_def tls_fields)
  then show ?thesis using assms(1) False by (simp add: tls_fields tls_held_def core_held_def tls_ok_def)
next
  case True
  let ?s0 = "reset_ssl api (at_tls x s)"
  obtain s1 where c: "sock_close os b pst pend ?s0 = Some (Inr s1)" and s': "s' = s1\<lparr>handshake_done := False, tls_rx_eof := True, tls_tx_shutdown := True\<rparr>"
      and x': "x' = tls_at s'"
    using assms(2) True by (auto simp: tls_mem_close_def tls_close_def tls_fields split: option.splits sum.splits)
  then obtain s2 where c2: "close_fd os b pst pend ?s0 = Some (Inr s2)" and s1: "s1 = s2\<lparr>rx_eof := False, tx_shutdown := False\<rparr>"
    by (auto simp: sock_close_def split: option.splits sum.splits)
  have e: "sk_fd ?s0 = co_fd (tm_core x)" "openk (kern ?s0) = openk (kern s)" by (simp_all add: reset_ssl_def tls_fields api_open)
  show ?thesis using close_fd_core [OF sock_fds_axioms sock_route_axioms c2]
    by (simp add: x' s' s1 tls_held_def core_held_def tls_at_def core_at_def e)
qed

lemma tls_moves:
  assumes "tls_move n x s = (y, x', s')"
  shows "tls_held y = tls_held x \<and> tls_held x' = None \<and> kern s' = kern s \<and> tls_ok x' \<and> (tls_ok x \<longrightarrow> tls_ok y)"
proof -
  obtain c xc s1 where m: "socket_core_move (tm_core n) (tm_core x) s = (c, xc, s1)" by (cases "socket_core_move (tm_core n) (tm_core x) s") auto
  note mc = core_move [OF m]
  have y: "y = x\<lparr>tm_core := c, tm_send := tm_send n, tm_recv := tm_recv n\<rparr>" and k: "kern s' = kern s1"
    using assms by (auto simp: tls_move_def m Let_def tls_queue_fields tls_fields reset_after_move_def)
  have x': "tm_core x' = xc" "tm_active x' = False"
    using assms by (auto simp: tls_move_def m Let_def reset_after_move_def tls_queue_fields tls_at_def core_at_def at_tls_def at_core_def serial_queue_init_def)
  show ?thesis using mc by (auto simp: tls_held_def y k x' tls_ok_def core_held_def split: if_splits)
qed

lemma tls_assigns:
  assumes "tls_ok t" and "tls_move_assign api os b pst pend n t x s = Some (y, x', s')"
  shows "tls_held y = tls_held x \<and> tls_held x' = None \<and> openk (kern s') = openk (kern s) - set_option (tls_held t) \<and> tls_ok x' \<and> (tls_ok x \<longrightarrow> tls_ok y)"
proof -
  obtain t1 s1 c xc s2 where c: "tls_mem_close api os b pst pend t s = Some (t1, s1)"
      and m: "socket_core_move_assign os b pst pend (tm_core n) (tm_core t1) (tm_core x) s1 = Some (c, xc, s2)"
    using assms(2) by (auto simp: tls_move_assign_def split: option.splits)
  note cl = tls_closes [OF assms(1) c] and mc = core_move_assign [OF m]
  have y: "y = x\<lparr>tm_core := c, tm_send := tm_send t1, tm_recv := tm_recv t1\<rparr>" and k: "kern s' = kern s2"
    using assms(2) by (auto simp: tls_move_assign_def c m Let_def tls_queue_fields tls_fields reset_after_move_def)
  have x': "tm_core x' = xc" "tm_active x' = False"
    using assms(2) by (auto simp: tls_move_assign_def c m Let_def reset_after_move_def tls_at_def core_at_def at_tls_def at_core_def serial_queue_init_def)
  show ?thesis using mc cl by (auto simp: tls_held_def y k x' tls_ok_def core_held_def split: if_splits)
qed

text \<open>A constructor that succeeds holds the descriptor of the transport it was given; one that fails has closed it.\<close>

lemma tls_constructs:
  assumes "tls_construct api os b pst pend n mode c s = Some (r, s')"
  shows "case r of Inr x \<Rightarrow> tls_held x = core_held c \<and> tls_ok x \<and> openk (kern s') = openk (kern s)
    | Inl e \<Rightarrow> openk (kern s') = openk (kern s) - set_option (core_held c)"
proof -
  obtain c1 c' s1 where m: "socket_core_move (tm_core n) c s = (c1, c', s1)" by (cases "socket_core_move (tm_core n) c s") auto
  note mc = core_move [OF m]
  let ?s1 = "at_tls (n\<lparr>tm_core := c1, tm_flags := (False, False)\<rparr>) s1"
  have i: "openk (kern s2) = openk (kern s1)" "core_at s2 = c1" "e \<noteq> Ssl_new_failed \<Longrightarrow> tls_active s2"
    if "tls_socket_init api mode ?s1 = Inl (e, s2)" for e s2
    using that api_open
    by (auto simp: tls_socket_init_def tls_init_def tls_fields tls_queue_fields core_at_def at_tls_def at_core_def serial_queue_init_def
        split: prod.splits option.splits if_splits) (metis snd_conv)+
  have o: "openk (kern s2) = openk (kern s1)" "core_at s2 = c1" "tls_active s2" if "tls_socket_init api mode ?s1 = Inr s2" for s2
    using that api_open
    by (auto simp: tls_socket_init_def tls_init_def tls_fields tls_queue_fields core_at_def at_tls_def at_core_def serial_queue_init_def
        split: prod.splits option.splits if_splits) (metis snd_conv)+
  show ?thesis
  proof (cases "tls_socket_init api mode ?s1")
    case (Inr s2)
    then show ?thesis using assms o [OF Inr] mc by (auto simp: tls_construct_def m tls_held_def tls_at_def tls_ok_def)
  next
    case (Inl p)
    obtain e s2 where p: "p = (e, s2)" by fastforce
    note f = i [OF Inl [unfolded p]]
    have h: "core_held (tm_core (tls_at s2)) = core_held c" using f(2) mc by (simp add: tls_at_def)
    show ?thesis
    proof (cases "e = Ssl_new_failed")
      case True
      then obtain c2 where "socket_core_close os b pst pend c1 s2 = Some (c2, s')" "r = Inl e"
        using assms Inl p f(2) by (auto simp: tls_construct_def m)
      then show ?thesis using core_close f(1) mc by fastforce
    next
      case False
      have ok: "tls_ok (tls_at s2)" using f(3) [OF False] by (simp add: tls_ok_def tls_at_def)
      obtain x1 s3 c2 where x: "tls_mem_close api os b pst pend (tls_at s2) s2 = Some (x1, s3)" "socket_core_close os b pst pend (tm_core x1) s3 = Some (c2, s')"
          and r: "r = Inl e"
        using assms Inl p False by (auto simp: tls_construct_def m tls_destroy_def split: option.splits)
      from tls_closes [OF ok x(1)] core_close [OF x(2)] show ?thesis using f(1) mc h by (simp add: r tls_held_def)
    qed
  qed
qed

lemma socket_made: "core_result r = Inr (c, s') \<Longrightarrow> r = Inr s' \<and> c = core_at s'"
  by (auto simp: core_result_def split: sum.splits)

lemma tls_factories:
  shows "make_tls_socket api os b pst pend nc n mode s = Some (Inr (r, s')) \<Longrightarrow>
      case r of Inr x \<Rightarrow> tls_ok x \<and> (\<exists>fd. tls_held x = Some fd \<and> fd \<notin> openk (kern s) \<and> openk (kern s') = insert fd (openk (kern s)))
        | Inl e \<Rightarrow> openk (kern s') = openk (kern s)"
    and "adopt_tls_socket api os b pst pend nc n mode fd s = Some (Inr (r, s')) \<Longrightarrow>
      case r of Inr x \<Rightarrow> tls_ok x \<and> tls_held x = Some fd \<and> openk (kern s') = openk (kern s) | Inl e \<Rightarrow> openk (kern s') = openk (kern s) - {fd}"
proof -
  have k: "kern (state_init (at_core z s)) = kern s" for z by (simp add: core_queues at_core_def)
  assume "make_tls_socket api os b pst pend nc n mode s = Some (Inr (r, s'))"
  then obtain c s1 where m: "make_socket os AF_INET SOCK_STREAM nc s = Inr (c, s1)" and t: "tls_construct api os b pst pend n mode c s1 = Some (r, s')"
    by (auto simp: make_tls_socket_def split: sum.splits)
  note sm = socket_made [OF m [unfolded make_socket_def]]
  obtain fd where "core_held c = Some fd" "fd \<notin> openk (kern s)" "openk (kern s1) = insert fd (openk (kern s))"
    using core_make [OF conjunct1 [OF sm]] sm k by auto
  with tls_constructs [OF t] show "case r of Inr x \<Rightarrow> tls_ok x \<and> (\<exists>fd. tls_held x = Some fd \<and> fd \<notin> openk (kern s) \<and> openk (kern s') = insert fd (openk (kern s)))
        | Inl e \<Rightarrow> openk (kern s') = openk (kern s)" by (cases r) auto
next
  have k: "kern (state_init (at_core z s)) = kern s" for z by (simp add: core_queues at_core_def)
  assume "adopt_tls_socket api os b pst pend nc n mode fd s = Some (Inr (r, s'))"
  then obtain c s1 where m: "adopt_socket os fd nc s = Inr (c, s1)" and t: "tls_construct api os b pst pend n mode c s1 = Some (r, s')"
    by (auto simp: adopt_tls_socket_def split: sum.splits)
  note sm = socket_made [OF m [unfolded adopt_socket_def]]
  have "core_held c = Some fd \<and> openk (kern s1) = openk (kern s)" using core_adopt [OF conjunct1 [OF sm]] sm k by auto
  with tls_constructs [OF t] show "case r of Inr x \<Rightarrow> tls_ok x \<and> tls_held x = Some fd \<and> openk (kern s') = openk (kern s)
      | Inl e \<Rightarrow> openk (kern s') = openk (kern s) - {fd}" by (cases r) auto
qed

end

sublocale tls_owner \<subseteq> tls: owner "tls_class api os b pst pend alloc mode" tls_held "\<lambda>s. openk (kern s)" for b pend alloc mode
proof
  fix w w' :: "('k, 'b) tls_scheme" and x x' n y :: tls_mem and fd :: fd
  show "oc_make (tls_class api os b pst pend alloc mode) w = Some (x, w') \<Longrightarrow>
      \<exists>fd. tls_held x = Some fd \<and> fd \<notin> openk (kern w) \<and> openk (kern w') = insert fd (openk (kern w))"
    using tls_factories(1) [of b pend "fst (alloc w)" "snd (alloc w)" mode w "Inr x" w']
    by (auto simp: tls_class_def made_def split: option.splits sum.splits)
  show "oc_adopt (tls_class api os b pst pend alloc mode) fd w = Some (x, w') \<Longrightarrow> tls_held x = Some fd \<and> openk (kern w') = openk (kern w)"
    using tls_factories(2) [of b pend "fst (alloc w)" "snd (alloc w)" mode fd w "Inr x" w']
    by (auto simp: tls_class_def made_def split: option.splits sum.splits)
  show "oc_close (tls_class api os b pst pend alloc mode) x w = Some (x', w') \<Longrightarrow>
      tls_held x' = None \<and> openk (kern w') = openk (kern w) - set_option (tls_held x)"
    using tls_closes [of x b pend w x' w'] by (simp add: tls_class_def split: if_splits)
  show "oc_move (tls_class api os b pst pend alloc mode) x w = (n, x', w') \<Longrightarrow>
      tls_held n = tls_held x \<and> tls_held x' = None \<and> openk (kern w') = openk (kern w)"
    using tls_moves [of "snd (alloc w)" x w n x' w'] by (simp add: tls_class_def)
  show "oc_assign (tls_class api os b pst pend alloc mode) y x w = Some (n, x', w') \<Longrightarrow>
      tls_held n = tls_held x \<and> tls_held x' = None \<and> openk (kern w') = openk (kern w) - set_option (tls_held y)"
    using tls_assigns [of y b pend "snd (alloc w)" x w n x' w'] by (simp add: tls_class_def split: if_splits)
qed

section \<open>Files of Windows own their handle\<close>

locale win_owner =
  fixes os :: "'k wf_os" and openk :: "'k \<Rightarrow> fd set" and pst :: "addr \<Rightarrow> ('k, 'b) wfile_scheme \<Rightarrow> ('k, 'b) wfile_scheme"
  assumes win_ctl_open: "openk (snd (io_ctl (wf_io os) oper fd ev k)) = openk k"
    and win_port_open: "openk (io_port (wf_io os) fd k) = openk k"
    and win_create_open: "wf_create os path acc shr disp fl k = (h, k') \<Longrightarrow> h \<noteq> INVALID_HANDLE_VALUE \<Longrightarrow> h \<notin> openk k \<and> openk k' = insert h (openk k)"
    and win_close_open: "openk (wf_close os h k) = openk k - {h}"
    and pst_win: "wf_handle (pst w s) = wf_handle s" "ikern (pst w s) = ikern s"
begin

lemma fold_pst_win:
  "wf_handle (fold (\<lambda>wi. pst (ii_waiter wi)) ws s) = wf_handle s" "ikern (fold (\<lambda>wi. pst (ii_waiter wi)) ws s) = ikern s"
  by (induction ws arbitrary: s) (simp_all add: pst_win)

lemma win_closes:
  assumes "win_mem_close os pst x s = (x', s')"
  shows "win_held x' = None \<and> openk (ikern s') = openk (ikern s) - set_option (win_held x)"
proof -
  have k: "wf_handle (iocp_remove_fd (wf_io os) pst fd t) = wf_handle t" "openk (ikern (iocp_remove_fd (wf_io os) pst fd t)) = openk (ikern t)" for fd t
    by (simp_all add: iocp_remove_fd_def Let_def iocp_ctl_def fold_pst_win case_prod_beta win_ctl_open)
  show ?thesis using assms
    by (auto simp: win_mem_close_def win_file_close_def Let_def win_held_def win_at_def at_win_def k win_close_open)
qed

lemma win_adopts: "win_file_make os h s = Inr s' \<Longrightarrow> win_held (win_at s') = Some h \<and> openk (ikern s') = openk (ikern s)"
  by (auto simp: win_file_make_def win_held_def win_at_def iocp_add_fd_def Let_def win_port_open split: if_splits)

lemma win_fields: "ikern (state_init s) = ikern s" "wf_handle (state_init s) = wf_handle s" "ikern (at_win x s) = ikern s" "wf_handle (at_win x s) = wm_handle x"
  for s :: "('k, 'b) wfile_scheme"
  by (simp_all add: state_init_def at_win_def)

end

sublocale win_owner \<subseteq> owner "win_class os pst alloc path mode" win_held "\<lambda>s. openk (ikern s)" for alloc path mode
proof
  fix w w' :: "('k, 'b) wfile_scheme" and x x' n y :: win_mem and fd :: fd
  show "oc_make (win_class os pst alloc path mode) w = Some (x, w') \<Longrightarrow>
      \<exists>fd. win_held x = Some fd \<and> fd \<notin> openk (ikern w) \<and> openk (ikern w') = insert fd (openk (ikern w))"
  proof -
    assume "oc_make (win_class os pst alloc path mode) w = Some (x, w')"
    then obtain acc shr disp h k where c: "wf_create os path acc shr disp (FILE_ATTRIBUTE_NORMAL OR FILE_FLAG_OVERLAPPED) (ikern w) = (h, k)"
        and h: "h \<noteq> INVALID_HANDLE_VALUE" and m: "win_file_make os h ((state_init (at_win (alloc w) w))\<lparr>ikern := k\<rparr>) = Inr w'" and x: "x = win_at w'"
      by (auto simp: win_class_def win_open_file_handle_def Let_def win_fields split: option.splits sum.splits prod.splits if_splits)
    from win_create_open [OF c h] win_adopts [OF m] show ?thesis by (simp add: x)
  qed
  show "oc_adopt (win_class os pst alloc path mode) fd w = Some (x, w') \<Longrightarrow> win_held x = Some fd \<and> openk (ikern w') = openk (ikern w)"
    using win_adopts [of fd "state_init (at_win (alloc w) w)"] by (auto simp: win_class_def win_fields split: sum.splits)
  show "oc_close (win_class os pst alloc path mode) x w = Some (x', w') \<Longrightarrow>
      win_held x' = None \<and> openk (ikern w') = openk (ikern w) - set_option (win_held x)"
    using win_closes by (simp add: win_class_def)
  show "oc_move (win_class os pst alloc path mode) x w = (n, x', w') \<Longrightarrow>
      win_held n = win_held x \<and> win_held x' = None \<and> openk (ikern w') = openk (ikern w)"
    by (auto simp: win_class_def win_file_move_def Let_def win_held_def win_at_def win_fields)
  show "oc_assign (win_class os pst alloc path mode) y x w = Some (n, x', w') \<Longrightarrow>
      win_held n = win_held x \<and> win_held x' = None \<and> openk (ikern w') = openk (ikern w) - set_option (win_held y)"
    using win_closes by (auto simp: win_class_def win_file_move_assign_def win_held_def split: prod.splits)
qed

context tls_owner
begin

lemmas tls_owned = tls.owner_invariant and tls_no_leak = tls.owner_no_leak

end

context win_owner
begin

lemmas win_owned = owner_invariant and win_no_leak = owner_no_leak

end

text \<open>The table of descriptors of \<open>Ownership\<close> with sessions that always succeed, and as a table of handles.\<close>

definition tbl_ssl :: "int list ssl_api" where
  "tbl_ssl =
     \<lparr>api_new = (\<lambda>k. (Some 1, k)), api_set_fd = (\<lambda>p fd k. (1, k)), api_set_bio = (\<lambda>p fd k. (True, k)), api_set_state = (\<lambda>p mode k. k),
      api_cookie_exchange = (\<lambda>p k. k), api_handshake = (\<lambda>r k. ((1, 0, 0), k)), api_read = (\<lambda>r n k. ((0, SSL_ERROR_ZERO_RETURN, 0, []), k)),
      api_write = (\<lambda>r b n k. ((n, 0, 0), k)), api_shutdown = (\<lambda>r k. k)\<rparr>"

definition tbl_wf_os :: "int list wf_os" where
  "tbl_wf_os =
     \<lparr>wf_io = \<lparr>io_ctl = (\<lambda>oper fd ev k. ((0, 0), k)), io_getsockopt = (\<lambda>fd k. - 1), io_port = (\<lambda>fd k. k), io_query = (\<lambda>a k. None)\<rparr>,
      wf_create = (\<lambda>path acc shr disp fl k. (tbl_next k, tbl_next k # k)), wf_read = (\<lambda>h a ofs len k. ((True, 0, 0), k)),
      wf_write = (\<lambda>h a ofs b len k. ((True, len, 0), k)), wf_result = (\<lambda>h a k. None), wf_stored = (\<lambda>a k. []), wf_close = (\<lambda>h k. removeAll h k)\<rparr>"

interpretation tbl_tls: tls_owner tbl_os set "wq_post :: addr \<Rightarrow> (int list, 'b) tls_scheme \<Rightarrow> (int list, 'b) tls_scheme" tbl_ssl
  by (intro tls_owner.intro tls_owner_axioms.intro sock_owner.intro tbl_fds sock_direct.sock_route_axioms) (simp_all add: tbl_ssl_def)

interpretation tbl_win: win_owner tbl_wf_os set "wq_post :: addr \<Rightarrow> (int list, 'b) wfile_scheme \<Rightarrow> (int list, 'b) wfile_scheme"
  by unfold_locales (auto simp: tbl_wf_os_def tbl_next_fresh wq_post_def enqueue_def trig_once_def emit_def)

section \<open>Properties\<close>


definition demo_listener :: "int list lst" where
  "demo_listener = epr.extend (cbq.extend demo_cbq (epr.fields Map.empty [])) (lst.fields (- 1) AF_INET (\<lambda>_. 0) [] False False)"


end
