(* ===== verification/Sending.thy ===== *)
theory Sending
  imports Connecting
begin

text \<open>
  The other ways of sending on a stream (\<open>send\<close>, \<open>sendv\<close> and \<open>send_all\<close> of an \<open>iovec\<close>, \<^verbatim>\<open>net/stream_socket_base.hpp\<close>): gathering sends run as
  plain sends of the concatenation, and partial sends do not wait.
\<close>

definition sock_send ::
  "'k os \<Rightarrow> (32 word \<Rightarrow> 'k \<Rightarrow> 'k) \<Rightarrow> addr \<Rightarrow> bytes \<Rightarrow> ('k, 'b) sock_scheme \<Rightarrow> (int \<times> ('k, 'b) sock_scheme) option" where
  "sock_send os idle a b s =
     map_option (\<lambda>s1. (send_await_resume a s1, s1))
       (await_loop (send_attempt_once os) (send_register_wait os) (wait_for os idle EPOLLOUT) True a (send_awaiter_init a b False s))"

definition sock_sendv ::
  "'k os \<Rightarrow> (32 word \<Rightarrow> 'k \<Rightarrow> 'k) \<Rightarrow> addr \<Rightarrow> bytes list \<Rightarrow> ('k, 'b) sock_scheme \<Rightarrow> (int \<times> ('k, 'b) sock_scheme) option" where
  "sock_sendv os idle a iov s =
     map_option (\<lambda>s1. (send_await_resume a s1, s1))
       (await_loop (send_attempt_once os) (send_register_wait os) (wait_for os idle EPOLLOUT) True a (sendv_awaiter_init a iov False s))"

definition sock_sendv_all ::
  "'k os \<Rightarrow> (32 word \<Rightarrow> 'k \<Rightarrow> 'k) \<Rightarrow> addr \<Rightarrow> bytes list \<Rightarrow> ('k, 'b) sock_scheme \<Rightarrow> (int \<times> ('k, 'b) sock_scheme) option" where
  "sock_sendv_all os idle a iov s =
     map_option (\<lambda>s1. (send_await_resume a s1, s1))
       (await_loop (send_attempt_once os) (send_register_wait os) (wait_for os idle EPOLLOUT) True a (sendv_awaiter_init a iov True s))"

section \<open>What does not look at the sending awaiters\<close>

text \<open>Operations that leave \<open>saw\<close> alone and do not depend on it.\<close>

lemma wq_post_saw: "wq_post w (s\<lparr>saw := z\<rparr>) = (wq_post w s)\<lparr>saw := z\<rparr>" for s :: "('k, 'b) sock_scheme"
  by (simp add: wq_post_def enqueue_def trig_once_def emit_def)

lemma drain_done_saw: "drain_done a (s\<lparr>saw := z\<rparr>) = (drain_done a s)\<lparr>saw := z\<rparr>" for s :: "('k, 'b) sock_scheme"
  by (auto simp: drain_done_def slot_release_def serial_release_def resume_coroutine_def wq_post_def enqueue_def trig_once_def emit_def Let_def
    split: option.splits)

lemma update_saw: "update_fd_interest_unlocked c fd st (s\<lparr>saw := z\<rparr>) = (update_fd_interest_unlocked c fd st s)\<lparr>saw := z\<rparr>" for s :: "('k, 'b) sock_scheme"
  by (auto simp: update_fd_interest_unlocked_def ctl_def Let_def split: prod.splits option.splits)

lemma add_waiter_saw: "add_waiter_custom c fd m w (s\<lparr>saw := z\<rparr>) = (add_waiter_custom c fd m w s)\<lparr>saw := z\<rparr>" for s :: "('k, 'b) sock_scheme"
  by (auto simp: add_waiter_custom_def register_waiter_def update_fd_interest_unlocked_def ctl_def Let_def split: prod.splits option.splits)

lemma fold_post_saw: "fold (\<lambda>wi. wq_post (wi_waiter wi)) ws (s\<lparr>saw := z\<rparr>) = (fold (\<lambda>wi. wq_post (wi_waiter wi)) ws s)\<lparr>saw := z\<rparr>"
  for s :: "('k, 'b) sock_scheme"
  by (induction ws arbitrary: s) (simp_all add: wq_post_saw)

lemma handle_saw: "handle_event c wq_post ev (s\<lparr>saw := z\<rparr>) = (handle_event c wq_post ev s)\<lparr>saw := z\<rparr>" for s :: "('k, 'b) sock_scheme"
  by (auto simp: handle_event_def take_ready_def update_saw fold_post_saw split: option.splits prod.splits)

lemma wait_for_saw: "wait_for os idle m (s\<lparr>saw := z\<rparr>) = (wait_for os idle m s)\<lparr>saw := z\<rparr>" for s :: "('k, 'b) sock_scheme"
proof -
  have "s\<lparr>saw := z\<rparr>\<lparr>kern := idle m (kern (s\<lparr>saw := z\<rparr>))\<rparr> = (s\<lparr>kern := idle m (kern s)\<rparr>)\<lparr>saw := z\<rparr>" by simp
  then show ?thesis unfolding wait_for_def by (simp only: handle_saw) simp
qed

section \<open>Gathering sends\<close>

lemma concat_advance_iov: "concat (advance_iov n vec) = drop n (concat vec)"
  by (induction n vec rule: advance_iov.induct) auto

lemma advance_iov_nonempty: "[] \<notin> set vec \<Longrightarrow> [] \<notin> set (advance_iov n vec)"
  by (induction n vec rule: advance_iov.induct) auto

text \<open>An awaiter with the buffers \<open>sd_vec\<close> left has the rest of the plain one's buffer to send.\<close>

definition linked_send :: "send_aw \<Rightarrow> send_aw \<Rightarrow> bool" where
  "linked_send x y \<longleftrightarrow> use_vec x \<and> \<not> use_vec y \<and> sent x = sent y \<and> sd_err x = sd_err y \<and> sd_full x = sd_full y \<and>
     concat (sd_vec x) = drop (sent y) (sd_buf y) \<and> [] \<notin> set (sd_vec x) \<and> sd_len y = length (sd_buf y)"

lemma linked_left:
  assumes "linked_send x y"
  shows "sd_vec x \<noteq> [] \<longleftrightarrow> sent y < sd_len y"
proof -
  have "concat (sd_vec x) = [] \<longleftrightarrow> sd_vec x = []" using assms by (cases "sd_vec x") (auto simp: linked_send_def)
  moreover have "concat (sd_vec x) = drop (sent y) (sd_buf y)" "sd_len y = length (sd_buf y)" using assms by (simp_all add: linked_send_def)
  ultimately show ?thesis by (metis drop_eq_Nil not_le)
qed

definition sends_as :: "addr \<Rightarrow> ('k, 'b) sock_scheme \<Rightarrow> ('k, 'b) sock_scheme \<Rightarrow> bool" where
  "sends_as a s t \<longleftrightarrow> s\<lparr>saw := saw t\<rparr> = t \<and> linked_send (saw s a) (saw t a)"

lemma sendv_loop_simulates:
  assumes "kernel_stream os idle kin kout" and "\<And>fd v k. os_writev os fd v k = os_send os fd (concat v) k" and "linked_send (saw s a) (z a)"
  shows "\<exists>r s' z'. sendv_loop os a s = (r, s') \<and> send_loop os a (s\<lparr>saw := z\<rparr>) = (r, s'\<lparr>saw := z'\<rparr>) \<and> linked_send (saw s' a) (z' a)"
  using assms(3)
proof (induction "length (sd_buf (z a)) - sent (z a)" arbitrary: s z rule: less_induct)
  case less
  let ?b = "sd_buf (z a)" and ?m = "sent (z a)" and ?t = "s\<lparr>saw := z\<rparr>"
  have ne: "sd_vec (saw s a) \<noteq> [] \<longleftrightarrow> ?m < sd_len (z a)"
    by (rule linked_left [OF less.prems])
  show ?case
  proof (cases "?m < sd_len (z a)")
    case False
    then have "sendv_loop os a s = (0, s)" "send_loop os a ?t = (0, s\<lparr>saw := z\<rparr>)"
      using ne by (simp_all add: sendv_loop.simps [of os a s] send_loop.simps [of os a ?t] Let_def)
    then show ?thesis using less.prems by blast
  next
    case True
    obtain n e k where c: "os_send os (sk_fd s) (drop ?m ?b) (kern s) = ((n, e), k)" by (metis surj_pair)
    then have cv: "os_writev os (sk_fd s) (sd_vec (saw s a)) (kern s) = ((n, e), k)"
      using less.prems assms(2) by (simp add: linked_send_def)
    let ?s1 = "s\<lparr>kern := k, sk_errno := (if n < 0 then e else sk_errno s)\<rparr>"
    show ?thesis
    proof (cases "0 < n")
      case n: True
      let ?s2 = "?s1\<lparr>saw := (saw ?s1)(a := (saw s a)\<lparr>sent := sent (saw s a) + nat n, sd_vec := advance_iov (nat n) (sd_vec (saw s a))\<rparr>)\<rparr>"
      let ?z2 = "z(a := (z a)\<lparr>sent := ?m + nat n\<rparr>)"
      have le: "nat n \<le> length ?b - ?m" using kernel_stream.send_bytes [OF assms(1) c n] by simp
      have s: "sendv_loop os a s = (if sd_vec (saw ?s2 a) = [] then (0, ?s2) else sendv_loop os a ?s2)"
        using ne True n cv by (subst sendv_loop.simps) (simp add: Let_def)
      have t: "send_loop os a ?t = (if ?m + nat n = sd_len (z a) then (0, ?s2\<lparr>saw := ?z2\<rparr>) else send_loop os a (?s2\<lparr>saw := ?z2\<rparr>))"
        using True n c by (subst send_loop.simps) (simp add: Let_def)
      have rel: "linked_send (saw ?s2 a) (?z2 a)"
        using less.prems by (simp add: linked_send_def concat_advance_iov advance_iov_nonempty add.commute)
      have end_iff: "sd_vec (saw ?s2 a) = [] \<longleftrightarrow> ?m + nat n = sd_len (z a)"
        using linked_left [OF rel] le True less.prems by (auto simp: linked_send_def)
      have "length (sd_buf (?z2 a)) - sent (?z2 a) < length ?b - ?m" using n True less.prems by (simp add: linked_send_def)
      from less.hyps [of ?z2 ?s2, OF this rel] show ?thesis
        using s t end_iff rel by (cases "?m + nat n = sd_len (z a)") (simp_all only: if_True if_False simp_thms, blast+)
    next
      case n: False
      have f: "sd_full (z a) = sd_full (saw s a)" using less.prems by (simp add: linked_send_def)
      have "sendv_loop os a s =
         (if n = 0 then (0, ?s1) else if e = EAGAIN then (if sd_full (saw s a) then - 1 else 0, ?s1) else send_failed a n e ?s1)"
        using ne True n cv by (subst sendv_loop.simps) (simp add: Let_def)
      moreover have "send_loop os a ?t =
         (if n = 0 then (0, ?s1\<lparr>saw := z\<rparr>) else if e = EAGAIN then (if sd_full (saw s a) then - 1 else 0, ?s1\<lparr>saw := z\<rparr>) else send_failed a n e (?s1\<lparr>saw := z\<rparr>))"
      proof -
        have "?s1\<lparr>saw := z\<rparr> = ?t\<lparr>kern := k, sk_errno := (if n < 0 then e else sk_errno ?t)\<rparr>" by simp
        then show ?thesis using True n c f by (subst send_loop.simps) (simp only:, simp add: Let_def)
      qed
      moreover obtain s' z' where "send_failed a n e ?s1 = (0, s')" "send_failed a n e (?s1\<lparr>saw := z\<rparr>) = (0, s'\<lparr>saw := z'\<rparr>)" "linked_send (saw s' a) (z' a)"
      proof
        let ?f = "(if e = EPIPE \<or> e = ECONNRESET \<or> e = ENOTCONN then ?s1\<lparr>tx_shutdown := True\<rparr> else ?s1)"
        show "send_failed a n e ?s1 = (0, ?f\<lparr>saw := (saw ?f)(a := (saw ?f a)\<lparr>sd_err := n\<rparr>)\<rparr>)" by (simp add: send_failed_def Let_def)
        show "send_failed a n e (?s1\<lparr>saw := z\<rparr>) = (0, ?f\<lparr>saw := (saw ?f)(a := (saw ?f a)\<lparr>sd_err := n\<rparr>)\<rparr>\<lparr>saw := z(a := (z a)\<lparr>sd_err := n\<rparr>)\<rparr>)"
          by (simp add: send_failed_def Let_def)
        show "linked_send (saw (?f\<lparr>saw := (saw ?f)(a := (saw ?f a)\<lparr>sd_err := n\<rparr>)\<rparr>) a) ((z(a := (z a)\<lparr>sd_err := n\<rparr>)) a)"
          using less.prems by (simp add: linked_send_def)
      qed
      moreover have "linked_send (saw ?s1 a) (z a)" using less.prems by simp
      ultimately show ?thesis by (cases "n = 0"; cases "e = EAGAIN") (simp_all only: if_True if_False simp_thms, blast+)
    qed
  qed
qed

lemma sends_as_attempt:
  assumes "kernel_stream os idle kin kout" and "\<And>fd v k. os_writev os fd v k = os_send os fd (concat v) k"
    and "sends_as a s t" and "send_attempt_once os a s = (r, s')"
  shows "\<exists>t'. send_attempt_once os a t = (r, t') \<and> sends_as a s' t'"
proof -
  have l: "linked_send (saw s a) (saw t a)" and t: "t = s\<lparr>saw := saw t\<rparr>" using assms(3) by (simp_all add: sends_as_def)
  from sendv_loop_simulates [where z = "saw t", OF assms(1,2) l] obtain r2 s2 z2 where
    "sendv_loop os a s = (r2, s2)" "send_loop os a (s\<lparr>saw := saw t\<rparr>) = (r2, s2\<lparr>saw := z2\<rparr>)" "linked_send (saw s2 a) (z2 a)" by blast
  moreover have "use_vec (saw s a)" "\<not> use_vec (saw t a)" using l by (simp_all add: linked_send_def)
  ultimately show ?thesis using assms(4) t by (auto simp: send_attempt_once_def sends_as_def)
qed

lemma sends_as_frame:
  assumes "sends_as a s t" and "\<And>z. f (s\<lparr>saw := z\<rparr>) = (f s)\<lparr>saw := z\<rparr>" and "saw (f s) = saw s"
  shows "sends_as a (f s) (f t)"
proof -
  have t: "t = s\<lparr>saw := saw t\<rparr>" and l: "linked_send (saw s a) (saw t a)" using assms(1) by (simp_all add: sends_as_def)
  have "f t = (f s)\<lparr>saw := saw t\<rparr>" using assms(2) t by metis
  then show ?thesis using l assms(3) by (simp add: sends_as_def)
qed

lemma register_saw:
  "send_register_wait os a first ((s\<lparr>saw := z\<rparr>)\<lparr>func := (func (s\<lparr>saw := z\<rparr>))(a := f)\<rparr>) = (send_register_wait os a first (s\<lparr>func := (func s)(a := f)\<rparr>))\<lparr>saw := z\<rparr>"
proof -
  have "(s\<lparr>saw := z\<rparr>)\<lparr>func := (func (s\<lparr>saw := z\<rparr>))(a := f)\<rparr> = (s\<lparr>func := (func s)(a := f)\<rparr>)\<lparr>saw := z\<rparr>" by simp
  then show ?thesis unfolding send_register_wait_def by (simp only: add_waiter_saw) simp
qed

lemma await_sendv:
  assumes "kernel_stream os idle kin kout" and "\<And>fd v k. os_writev os fd v k = os_send os fd (concat v) k" and "sends_as a s t"
  shows "rel_option (sends_as a) (await_loop (send_attempt_once os) (send_register_wait os) (wait_for os idle EPOLLOUT) first a s)
    (await_loop (send_attempt_once os) (send_register_wait os) (wait_for os idle EPOLLOUT) first a t)"
proof (rule await_rel [where R = "sends_as a", OF assms(3)])
  fix s t :: "('a, 'b) sock_scheme" and first
  show "sends_as a s t \<Longrightarrow> rel_prod (=) (sends_as a) (send_attempt_once os a s) (send_attempt_once os a t)"
    using sends_as_attempt [OF assms(1,2), of a s t] by (cases "send_attempt_once os a s") auto
  show "sends_as a s t \<Longrightarrow> sends_as a (drain_done a s) (drain_done a t)"
    by (erule sends_as_frame) (simp_all add: drain_done_saw)
  show "sends_as a s t \<Longrightarrow> sends_as a (wait_for os idle EPOLLOUT s) (wait_for os idle EPOLLOUT t)"
    by (erule sends_as_frame) (simp_all add: wait_for_saw)
  show "sends_as a s t \<Longrightarrow> func s = func t" by (auto simp: sends_as_def dest: arg_cong [of _ _ func])
  show "sends_as a s t \<Longrightarrow> sends_as a (send_register_wait os a first (s\<lparr>func := (func s)(a := Code Drive_cb)\<rparr>))
      (send_register_wait os a first (t\<lparr>func := (func t)(a := Code Drive_cb)\<rparr>))"
    by (erule sends_as_frame [where f = "\<lambda>s. send_register_wait os a first (s\<lparr>func := (func s)(a := Code Drive_cb)\<rparr>)"])
      (rule register_saw, simp add: send_register_wait_def)
qed

section \<open>Properties\<close>

text \<open>The results agree, and the final states but for the members of the sending awaiters.\<close>

definition same_outcome :: "(int \<times> ('k, 'b) sock_scheme) option \<Rightarrow> (int \<times> ('k, 'b) sock_scheme) option \<Rightarrow> bool" where
  "same_outcome = rel_option (\<lambda>(n, s) (m, t). n = m \<and> s\<lparr>saw := saw t\<rparr> = t)"

text \<open>
  C20: \<open>sendv\<close> and \<open>send_all\<close> of an \<open>iovec\<close> (\<open>writev\<close> with \<open>advance_iov\<close> after partial writes, blocking and
  resuming) are, for a kernel whose \<open>writev\<close> writes the concatenation, equivalent to \<open>send\<close> and \<open>send_all\<close> of the concatenated buffers: either both return or
  neither does, with the same result and the same state of the kernel, the reactor and the socket.
\<close>

theorem sendv_equivalent_to_send:
  assumes "kernel_stream os idle kin kout" and "\<And>fd v k. os_writev os fd v k = os_send os fd (concat v) k" and "[] \<notin> set iov"
  shows "same_outcome (sock_sendv os idle a iov s) (sock_send os idle a (concat iov) s) \<and>
    same_outcome (sock_sendv_all os idle a iov s) (sock_send_all os idle a (concat iov) s)"
proof -
  have i: "sends_as a (sendv_awaiter_init a iov f s) (send_awaiter_init a (concat iov) f s)" for f
    using assms(3) by (simp add: sends_as_def linked_send_def sendv_awaiter_init_def send_awaiter_init_def)
  have r: "sends_as a s t \<Longrightarrow> send_await_resume a s = send_await_resume a t \<and> s\<lparr>saw := saw t\<rparr> = t" for s t :: "('a, 'b) sock_scheme"
    by (simp add: sends_as_def linked_send_def send_await_resume_def Let_def)
  have m: "rel_option (sends_as a) x y \<Longrightarrow> same_outcome (map_option (\<lambda>s1. (send_await_resume a s1, s1)) x) (map_option (\<lambda>s1. (send_await_resume a s1, s1)) y)"
    for x y :: "('a, 'b) sock_scheme option"
    by (cases x; cases y) (simp_all add: same_outcome_def r)
  show ?thesis
    unfolding sock_sendv_def sock_send_def sock_sendv_all_def sock_send_all_def using m await_sendv [OF assms(1,2) i] by blast
qed

definition seg_os_writev :: "seg_kernel os" where
  "seg_os_writev = seg_os\<lparr>os_writev := (\<lambda>fd v k. os_send seg_os fd (concat v) k)\<rparr>"

lemma seg_os_writev_stream: "reliable_kernel seg_os_writev seg_idle (\<lambda>k. seg_bytes (inq k)) outq seg_woken"
  using seg.reliable_kernel_axioms by (simp add: reliable_kernel_def kernel_stream_def reliable_kernel_axioms_def seg_os_writev_def)

theorem sendv_equivalent_to_send_witness:
  "\<exists>s1. sock_sendv_all seg_os_writev seg_idle 41 [[1], [2, 3]] (demo_sock []) = Some (3, s1) \<and> outq (kern s1) = [1, 2, 3]"
proof -
  note rk = seg_os_writev_stream
  have ks: "kernel_stream seg_os_writev seg_idle (\<lambda>k. seg_bytes (inq k)) outq" using rk by (simp add: reliable_kernel_def)
  have w: "os_writev seg_os_writev fd v k = os_send seg_os_writev fd (concat v) k" for fd v k
    by (simp add: seg_os_writev_def)
  obtain s2 where s2: "sock_send_all seg_os_writev seg_idle 41 [1, 2, 3] (demo_sock []) = Some (3, s2)"
    using reliable_kernel.sock_send_completes [OF rk, of 41 "[1, 2, 3]" "demo_sock []"] by auto
  from kernel_stream.sock_send_sound(2) [OF ks s2] have "outq (kern s2) = [1, 2, 3]"
    by (auto simp: demo_sock_def epr.defs cbq.defs)
  moreover from sendv_equivalent_to_send [OF ks w, of "[[1], [2, 3]]" 41 "demo_sock []"] obtain s1 where
    "sock_sendv_all seg_os_writev seg_idle 41 [[1], [2, 3]] (demo_sock []) = Some (3, s1)" "s1\<lparr>saw := saw s2\<rparr> = s2"
    by (auto simp: same_outcome_def s2 option_rel_Some2)
  moreover have "kern (s1\<lparr>saw := saw s2\<rparr>) = kern s1" by simp
  ultimately show ?thesis by auto
qed

text \<open>
  A partial send does not wait: when the buffer of the kernel is full, \<open>send\<close> completes at once and returns 0, although nothing was sent
  and there was no error.
\<close>

lemma send_full_returns_zero:
  assumes "os_send os (sk_fd s) b (kern s) = ((- 1, EAGAIN), k)" and "b \<noteq> []"
  shows "\<exists>s1. sock_send os idle a b s = Some (0, s1) \<and> kern s1 = k \<and> fds s1 = fds s"
proof -
  let ?s0 = "send_awaiter_init a b False s"
  have "send_attempt_once os a ?s0 = (0, ?s0\<lparr>kern := k, sk_errno := EAGAIN\<rparr>)"
    using assms by (simp add: send_attempt_once_def send_awaiter_init_def send_loop.simps Let_def)
  from await_done [of "send_attempt_once os" a ?s0, OF this] show ?thesis
    by (auto simp: sock_send_def send_await_resume_def send_awaiter_init_def Let_def drain_done_def slot_release_def serial_release_def
        resume_coroutine_def wq_post_def enqueue_def trig_once_def emit_def split: option.splits)
qed

end
