(* ===== verification/Spec2Isabelle.thy ===== *)
theory Spec2Isabelle
  imports Semaphore Spin_Lock Task_Worker Handshake Dns_Resolver Notify File_Io Usb_Device Tls_Socket Listener
    Iocp_File Os_Compat Connecting Datagrams Closing
    Ownership Tls_Context Logging Usb_Context Route_Guard
    Reactor_Life Dtls Owned_Objects Sending
begin

text \<open>
  \<^bold>\<open>A verification development of the coroutine work queue library co_wq.\<close>

  \<^bold>\<open>The program.\<close> The library runs C++20 coroutines on an executor, \<^verbatim>\<open>workqueue\<close> (\<^verbatim>\<open>task/workqueue.hpp\<close>): a first-in
  first-out queue of \<^verbatim>\<open>worknode\<close>s, intrusive list nodes (\<^verbatim>\<open>task/usrlist.hpp\<close>) with a function pointer, protected by a spin lock
  (\<^verbatim>\<open>task/lock.hpp\<close>). The promise of a coroutine is a work node (\<^verbatim>\<open>task/task.hpp\<close>, \<^verbatim>\<open>task/worker.hpp\<close>), so resuming a coroutine is
  posting its promise. Timers (\<^verbatim>\<open>sync/timer.hpp\<close>) and the semaphore (\<^verbatim>\<open>sync/semaphore.hpp\<close>) keep nodes of their own and post them
  when they are due. For I/O a reactor thread (\<^verbatim>\<open>io/epoll_reactor.hpp\<close>) waits on epoll and posts the waiters of ready descriptors,
  directly or through an ordered dispatcher (\<^verbatim>\<open>io/callback_wq.hpp\<close>); operations of one kind on one descriptor are serialised by
  a queue of slots and driven by a two-phase awaiter (\<^verbatim>\<open>io/io_serial.hpp\<close>, \<^verbatim>\<open>io/io_waiter.hpp\<close>). Sockets
  (\<^verbatim>\<open>net/stream_socket_base.hpp\<close>), files (\<^verbatim>\<open>io/file_io.hpp\<close>) and listeners (\<^verbatim>\<open>net/stream_listener_base.hpp\<close>) are awaiters over
  these; a TLS socket (\<^verbatim>\<open>net/tls.hpp\<close>) drives OpenSSL over a stream socket and is a stream socket to its users; bulk transfers
  of a USB device (\<^verbatim>\<open>io/usb_device.hpp\<close>) are completed by the thread of libusb and handed over through the dispatcher; the WebSocket code (\<^verbatim>\<open>net/websocket.hpp\<close>) is a template over a
  socket; on Windows the reactor (\<^verbatim>\<open>io/iocp_reactor.hpp\<close>) combines an emulation of epoll with a completion port; the resolver (\<^verbatim>\<open>net/dns_resolver.cpp\<close>) has threads of its own and delivers through the executor.

  \<^bold>\<open>The theories.\<close> Each models the files it names; definitions keep the names of the source where possible.
  \<^item> \<open>Prelude\<close>: fact collections, the type of addresses, generic lemmas.
  \<^item> \<open>Intrusive_List\<close> (\<^verbatim>\<open>task/usrlist.hpp\<close>): the list primitives as sequences of pointer writes on a store \<open>links\<close>; the abstraction
    \<open>rep\<close> to disjoint rings; refinement of every primitive, termination of the safe iteration.
  \<^item> \<open>Workqueue\<close> (\<^verbatim>\<open>task/workqueue.hpp\<close>): record \<open>wq\<close>, posting, batches, debug checks, \<open>work_once\<close>; order of execution and the exact
    condition of every assertion. The records of the other components extend \<open>wq\<close>, so its operations apply to them unchanged.
    \<open>Logging\<close> (\<open>co_wq::log\<close> in the same file): the shared logger, formatting and the choice of sinks; which lines reach the file.
  \<^item> \<open>Spin_Lock\<close> (\<^verbatim>\<open>task/lock.hpp\<close>): threads over the atomic flag; mutual exclusion. This justifies that the other theories
    take a locked section as one step.
  \<^item> \<open>Timer\<close> (\<^verbatim>\<open>sync/timer.hpp\<close>): the pairing heap on child, sibling and parent pointers; insertion, removal of the minimum and
    of any node, delivery of exactly the due timers in order.
  \<^item> \<open>Semaphore\<close> (\<^verbatim>\<open>sync/semaphore.hpp\<close>): the semaphore and its awaiters over executor and timer; no lost wake-up in any
    interleaving, order of grants, timeouts, destruction.
  \<^item> \<open>Notify\<close> (\<^verbatim>\<open>sync/inotify.hpp\<close>): the broadcast primitive over executor and timer; who is woken by a notification, timeouts.
  \<^item> \<open>Task_Worker\<close> (\<^verbatim>\<open>task/task.hpp\<close>, \<^verbatim>\<open>task/uninitialized.hpp\<close>, \<^verbatim>\<open>task/previous_awaiter.hpp\<close>, \<^verbatim>\<open>task/worker.hpp\<close>,
    \<^verbatim>\<open>task/when_all.hpp\<close>): awaiting tasks, the life of a worker's frame, \<open>when_all\<close>.
  \<^item> \<open>Serial_Queue\<close> (\<^verbatim>\<open>io/io_serial.hpp\<close>, \<^verbatim>\<open>io/io_waiter.hpp\<close>): slots and the two-phase driver; exclusion and order of slots,
    completion of the driver, closing. \<open>Awaiting\<close>: \<open>co_await\<close> of an operation of the driver from the first attempt to the completion;
    rules that reduce its result and its return to single attempts.
  \<^item> \<open>Callback_Wq\<close> (\<^verbatim>\<open>io/callback_wq.hpp\<close>): the dispatcher with its guards; order, completeness and termination of draining. \<open>Route_Guard\<close> (the
    same file with \<^verbatim>\<open>io/io_waiter.hpp\<close>): the shared pointers that keep the state of a queue of callbacks alive.
  \<^item> \<open>Epoll_Reactor\<close> (\<^verbatim>\<open>io/epoll_reactor.hpp\<close>): waiters per descriptor; the kernel's interest set is the union of their masks,
    delivery of events and of timeouts.
  \<^item> \<open>Iocp_Reactor\<close> (\<^verbatim>\<open>io/iocp_reactor.hpp\<close>): the reactor of Windows; simulation by the epoll reactor, completions. \<open>Iocp_File\<close> (the
    Windows part of \<^verbatim>\<open>io/file_io.hpp\<close> and \<^verbatim>\<open>io/file_open.hpp\<close>): overlapped reads and writes, where they work in the file, and how often
    they are posted. \<open>Os_Compat\<close> (\<^verbatim>\<open>net/os_compat.hpp\<close>): the wrappers around Winsock; over them the sockets are stream sockets, and
    error codes are not confused.
  \<^item> \<open>Service_Loop\<close> and \<open>Reactor_Life\<close>: objects with a thread of their own; both reactors from their constructors to the join and the
    closing of their handles.
  \<^item> \<open>Socket_Interface\<close>: the contract of a stream socket. \<open>Stream_Socket\<close> (\<^verbatim>\<open>net/stream_socket_base.hpp\<close>): construction, closing,
    connecting, and the stream and datagram awaiters; order and completion of transfers. \<open>Connecting\<close>: the outcome of \<open>connect\<close> for every
    answer of the system. \<open>Sending\<close>: gathering and plain sends are equivalent. \<open>Datagrams\<close>: each operation moves one datagram and returns.
    \<open>Closing\<close>: whom closing a socket wakes.
  \<^item> \<open>File_Io\<close> (\<^verbatim>\<open>io/file_io.hpp\<close>, \<^verbatim>\<open>io/file_open.hpp\<close>, \<^verbatim>\<open>io/fd_base.hpp\<close>): opening, seeking, reading and writing of files, with and
    without an offset of the caller.
  \<^item> \<open>Ownership\<close> and \<open>Owned_Objects\<close> (the constructors, moves, assignments and destructors of the sockets, files, listeners and TLS
    sockets, and \<open>fd_object\<close> and the factories of \<^verbatim>\<open>io/fd_base.hpp\<close>): many objects in one state; every open descriptor has one owner.
  \<^item> \<open>Usb_Device\<close> (\<^verbatim>\<open>io/usb_device.hpp\<close>): the pool of transfer slots, its invariant under every operation, the hand-over of
    completions; construction, destruction and moves of devices. \<open>Usb_Context\<close>: the context of libusb with its event thread, and the
    calls of a device that only wrap one of libusb.
  \<^item> \<open>Tls_Socket\<close> (\<^verbatim>\<open>net/tls.hpp\<close>): handshake, transfers and shutdown over OpenSSL; a TLS socket meets the contract of a stream socket.
    \<open>Tls_Context\<close>: contexts and the certificates of servers. \<open>Dtls\<close>: closing and shutting down over a datagram socket.
  \<^item> \<open>Endpoints\<close> (addresses of \<^verbatim>\<open>net/tcp_socket.hpp\<close>, \<^verbatim>\<open>net/udp_socket.hpp\<close>, \<^verbatim>\<open>net/unix_socket.hpp\<close> and the listeners): round trips of
    addresses, agreement of both ends. \<open>Listener\<close> (\<^verbatim>\<open>net/stream_listener_base.hpp\<close>, \<^verbatim>\<open>net/tcp_listener.hpp\<close>,
    \<^verbatim>\<open>net/unix_listener.hpp\<close>): binding, accepting in the order of the kernel's queue, closing.
  \<^item> \<open>Websocket\<close> and \<open>Handshake\<close> (\<^verbatim>\<open>net/websocket.hpp\<close>): frames and messages against a reference decoder of byte strings, round trip,
    reassembly; the opening handshake, its decision and its bounds.
  \<^item> \<open>Dns_Resolver\<close> (\<^verbatim>\<open>net/dns_resolver.cpp\<close>, \<^verbatim>\<open>net/dns_resolver.hpp\<close>): choice of the address on every branch; the worker threads as a
    step relation, each job delivered once.
  \<^item> This theory: the property of the whole stack, from a message to the system calls.

  \<^bold>\<open>Interfaces.\<close> What one component relies on of another is a locale, interpreted on the definitions that provide it:
  \<open>intrusive_list\<close> (the list operations), \<open>executor\<close> (posting, for \<open>enqueue\<close> and \<open>wq_post\<close>), \<open>deadline_queue\<close> (the heap),
  \<open>waiter_route\<close> (how the reactor posts a waiter: directly and through the dispatcher), \<open>usb_route\<close> (how a pool of transfers posts its
  awaiters, for \<open>post_via_route\<close>), \<open>stream_sock\<close> and \<open>reliable_sock\<close> (what the
  protocol code needs of a socket). The last two are sublocales of \<open>kernel_stream\<close> and \<open>reliable_kernel\<close>: the modelled
  socket, reactor and driver turn the documented behaviour of non-blocking system calls into that of a socket.
  So is \<open>ssl_session\<close>, with \<open>live_session\<close> for returns: the modelled TLS socket turns the documented behaviour of \<open>SSL_read\<close> and
  \<open>SSL_write\<close> into that of a stream socket, so the protocol code runs over both.
  \<open>epoll_instance\<close>, the two kernel locales, \<open>seekable_file\<close>, \<open>listen_kernel\<close> and the two of OpenSSL state documented behaviour of
  code outside the sources; so do \<open>wepoll_instance\<close>, an \<open>epoll_instance\<close>, \<open>overlapped_file\<close> (instance \<open>ramw_os\<close>) and \<open>winsock_stream\<close>, a
  sublocale of \<open>kernel_stream\<close> (instance \<open>seg_ws\<close>). \<open>iocp_route\<close> and \<open>win_route\<close> are what the reactor and the files of Windows need of
  posting. \<open>kernel_dgram\<close> and \<open>reliable_dgram\<close> are documented behaviour of datagram calls, \<open>openssl_ctx\<close> of contexts, \<open>log_backend\<close> of spdlog and of
  files; \<open>sock_route\<close> and \<open>dtls_route\<close> are what sockets need of posting. \<open>owner\<close> is the contract of a class whose objects hold a descriptor, with
  \<open>sock_owner\<close>, \<open>file_owner\<close>, \<open>lst_owner\<close>, \<open>fd_object_owner\<close>, \<open>tls_owner\<close> and \<open>win_owner\<close> as sublocales over the documented behaviour of opening and
  closing; \<open>service\<close> is that of an object with a thread, interpreted by both reactors. \<open>demo_ctl\<close>, \<open>seg_os\<close> (with pauses, segmented input and short writes), \<open>ramf\<close>, \<open>seq_los\<close> and
  \<open>seg_ssl\<close> are instances that meet it.

  \<^bold>\<open>Parameters.\<close> Code that is not part of the repository is an argument of the definitions: system calls (\<open>epoll_ctl\<close>, the
  fields of the records \<open>os\<close>, \<open>file_os\<close>, \<open>los\<close>, \<open>iocp_os\<close>, \<open>wf_os\<close>, \<open>winsock\<close> and \<open>posix\<close>), the vendored wepoll, the calls of OpenSSL (record \<open>ssl_api\<close>), submission and cancelling of libusb
  transfers, \<open>inet_pton\<close>, results of \<open>epoll_wait\<close> and of the clock, the order in which an \<open>unordered_map\<close> is visited, \<open>llhttp_execute\<close>, the
  SHA-1 and base64 of OpenSSL, \<open>std::random_device\<close>, \<open>getaddrinfo\<close> and \<open>gai_strerror\<close>, the code between the suspension points of
  a coroutine.

  \<^bold>\<open>Loops.\<close> No fuel is used. A loop whose end depends on pointers or on the outside (list and heap walks, draining, awaiting,
  reading a message) is a \<open>partial_function (option)\<close>, \<open>None\<close> being no return; that it returns is part of the theorems. All other
  recursion is structural or has a termination proof.

  \<^bold>\<open>Integers.\<close> Event masks, magic values, frame bytes, lengths and keys are words of their width. Counters of the semaphore,
  descriptors and results of system calls are \<open>int\<close>, sizes of buffers \<open>nat\<close>: they do not reach the limits of their types before
  memory does.

  \<^bold>\<open>Not modelled.\<close> The compile-time traits and the headers that only include others; the vendored wepoll; the Linux system call
  wrappers that only forward their arguments and the start of Winsock; the \<open>async_...\<close> functions, each a task whose body awaits one operation that
  is modelled; debug names and trace output of waiters and queues; exceptions in coroutine bodies, which the default build compiles out;
  weak memory beyond what the locks and single atomic operations order; the example programs under \<^verbatim>\<open>test\<close>, tools and build files.

  \<^bold>\<open>Where it could grow.\<close> The example programs (the proxies and servers under \<^verbatim>\<open>test\<close>) are clients of the socket and protocol theories; they
  would be modelled over \<open>stream_sock\<close>, as \<open>Websocket\<close> is.
\<close>

section \<open>The whole stack\<close>

text \<open>
  A TLS socket is a socket to the protocol code: over every OpenSSL session that behaves as documented \<open>read_frame\<close> accepts only well-formed
  frames within the limits, and consumes the bytes of the frame it returns and no others.
\<close>

theorem websocket_frame_over_tls:
  assumes "ssl_session api os idle pin pout" and "read_frame (tls_recv api os idle a False) opts s = Some (Inr f, s1)"
  shows "frame_ok opts f \<and> (\<exists>d. pin (kern s) = d @ pin (kern s1)) \<and> pout (kern s1) = pout (kern s)"
  using stream_sock.read_frame_sound [OF ssl_session.tls_is_stream [OF assms(1)] assms(2)] .



end
